(* ===== verification/Prelude.thy ===== *)
theory Prelude
  imports Complex_Main "HOL-Library.Multiset" "HOL-Library.Sublist"
begin

text \<open>
  Shared vocabulary of the development: the types the components have in
  common (token ids, slots, single precision values as far as the code
  compares them), the hint collections the component theories fill, and the
  generic lemmas on lists, slices and association lists they use.

  Token ids are Rust \<^verbatim>\<open>u32\<close> values.  The code compares, copies
  and stores them and does no arithmetic on them, so they are naturals here;
  the one place that makes one (\<^verbatim>\<open>argmax\<close> casts an index) writes the
  truncation out.  \<^verbatim>\<open>usize\<close> counters are naturals, and
  \<^verbatim>\<open>saturating_sub\<close> is subtraction on naturals.
\<close>

named_theorems inv_elims "facts read off a component invariant"
named_theorems step_defs "definitions of the operations of a component"
named_theorems cost_simps "sizes and counts after an operation"

type_synonym token = nat
type_synonym slot = nat

section \<open>Single precision values, as far as they are compared\<close>

text \<open>
  The values of a Rust \<^verbatim>\<open>f32\<close>: every finite one is a rational
  number (both zeros compare equal).  Comparisons with a NaN are false.
\<close>

datatype f32 = NaN | NegInf | Fin rat | PosInf

fun f32_lt :: "f32 \<Rightarrow> f32 \<Rightarrow> bool" where
  "f32_lt NaN _ = False"
| "f32_lt _ NaN = False"
| "f32_lt NegInf y = (y \<noteq> NegInf)"
| "f32_lt (Fin a) NegInf = False"
| "f32_lt (Fin a) (Fin b) = (a < b)"
| "f32_lt (Fin a) PosInf = True"
| "f32_lt PosInf _ = False"

definition is_nan :: "f32 \<Rightarrow> bool" where
  "is_nan x = (x = NaN)"

definition is_finite32 :: "f32 \<Rightarrow> bool" where
  "is_finite32 x = (case x of Fin _ \<Rightarrow> True | _ \<Rightarrow> False)"

definition f32_abs :: "f32 \<Rightarrow> f32" where
  "f32_abs x = (case x of NaN \<Rightarrow> NaN | NegInf \<Rightarrow> PosInf | Fin a \<Rightarrow> Fin \<bar>a\<bar> | PosInf \<Rightarrow> PosInf)"

definition f32_min :: "f32 \<Rightarrow> f32 \<Rightarrow> f32" where
  "f32_min x y = (if x = NaN then y else if y = NaN then x else if f32_lt y x then y else x)"

lemma f32_lt_irrefl [simp]: "\<not> f32_lt x x"
  by (cases x) auto

lemma f32_lt_trans: "f32_lt x y \<Longrightarrow> f32_lt y z \<Longrightarrow> f32_lt x z"
  by (cases x; cases y; cases z) auto

lemma f32_not_lt_trans:
  "\<not> f32_lt x y \<Longrightarrow> \<not> f32_lt y z \<Longrightarrow> y \<noteq> NaN \<Longrightarrow> \<not> f32_lt x z"
  by (cases x; cases y; cases z) auto

lemma f32_lt_NaN [simp]: "\<not> f32_lt x NaN" "\<not> f32_lt NaN x"
  by (cases x; simp)+

section \<open>Slices\<close>

text \<open>\<^verbatim>\<open>v[a..b]\<close> for indices the caller has shown to be in range.\<close>

definition subslice :: "'a list \<Rightarrow> nat \<Rightarrow> nat \<Rightarrow> 'a list" where
  "subslice xs a b = take (b - a) (drop a xs)"

lemma length_subslice [simp]: "b \<le> length xs \<Longrightarrow> length (subslice xs a b) = b - a"
  by (simp add: subslice_def)

lemma subslice_full [simp]: "subslice xs 0 (length xs) = xs"
  by (simp add: subslice_def)

lemma subslice_from: "subslice xs a (length xs) = drop a xs"
  by (simp add: subslice_def)

lemma subslice_append: "a \<le> b \<Longrightarrow> b \<le> c \<Longrightarrow> subslice xs a b @ subslice xs b c = subslice xs a c"
proof -
  assume le: "a \<le> b" "b \<le> c"
  have "drop b xs = drop (b - a) (drop a xs)" using le by simp
  then show ?thesis
    using le take_add [of "b - a" "c - b" "drop a xs"] by (simp add: subslice_def)
qed

section \<open>Lists\<close>

lemma take_nth_append:
  "i < length xs \<Longrightarrow> take i xs @ [xs ! i] = take (Suc i) xs"
  by (simp add: take_Suc_conv_app_nth)

lemma last_map_upt: "a < b \<Longrightarrow> last (map f [a ..< b]) = f (b - 1)"
  by (cases b) (auto simp: last_map)

lemma sum_list_filter_le: "sum_list (map f (filter P xs)) \<le> (sum_list (map f xs) :: nat)"
  by (induction xs) auto

lemma sum_list_filter_split:
  "sum_list (map f xs) =
     (sum_list (map f (filter P xs)) + sum_list (map f (filter (\<lambda>x. \<not> P x) xs)) :: nat)"
  by (induction xs) auto

lemma distinct_map_filter [intro]: "distinct (map f xs) \<Longrightarrow> distinct (map f (filter P xs))"
  by (induction xs) auto

lemma nth_concat_blocks:
  "\<forall>xs\<in>set xss. length xs = n \<Longrightarrow> i < length xss * n \<Longrightarrow> concat xss ! i = xss ! (i div n) ! (i mod n)"
proof (induction xss arbitrary: i)
  case (Cons xs xss)
  show ?case
  proof (cases "i < n")
    case True
    then show ?thesis using Cons.prems by (simp add: nth_append)
  next
    case False
    then obtain k where k: "i = n + k" by (metis le_Suc_ex not_less)
    have "0 < n" using Cons.prems False by (cases n) auto
    moreover have "concat xss ! k = xss ! (k div n) ! (k mod n)" using Cons.prems k by (intro Cons.IH) auto
    ultimately show ?thesis using Cons.prems k by (simp add: nth_append)
  qed
qed simp

lemma length_concat_blocks: "\<forall>xs\<in>set xss. length xs = n \<Longrightarrow> length (concat xss) = length xss * n"
  by (induction xss) auto

section \<open>Association lists with distinct keys\<close>

text \<open>
  A Rust \<^verbatim>\<open>HashMap\<close> whose contents the code iterates over is an
  association list with distinct keys: \<^verbatim>\<open>get\<close> is \<open>map_of\<close>,
  \<^verbatim>\<open>insert\<close> and \<^verbatim>\<open>remove\<close> are the functions below.  The order a
  map is iterated in is not fixed by Rust: where it can be observed, the
  definitions take the order as a parameter.
\<close>

fun al_put :: "'k \<Rightarrow> 'v \<Rightarrow> ('k \<times> 'v) list \<Rightarrow> ('k \<times> 'v) list" where
  "al_put k v [] = [(k, v)]"
| "al_put k v ((k', v') # kvs) = (if k = k' then (k, v) # kvs else (k', v') # al_put k v kvs)"

definition al_del :: "'k \<Rightarrow> ('k \<times> 'v) list \<Rightarrow> ('k \<times> 'v) list" where
  "al_del k kvs = filter (\<lambda>kv. fst kv \<noteq> k) kvs"

abbreviation al_ok :: "('k \<times> 'v) list \<Rightarrow> bool" where
  "al_ok kvs \<equiv> distinct (map fst kvs)"

lemma map_of_al_put [simp]: "map_of (al_put k v kvs) = (map_of kvs)(k \<mapsto> v)"
  by (induction k v kvs rule: al_put.induct) (auto simp: fun_eq_iff)

lemma set_keys_al_put [simp]: "fst ` set (al_put k v kvs) = insert k (fst ` set kvs)"
  by (induction k v kvs rule: al_put.induct) auto

lemma al_ok_put [simp, intro]: "al_ok kvs \<Longrightarrow> al_ok (al_put k v kvs)"
  by (induction k v kvs rule: al_put.induct) auto

lemma map_of_al_del [simp]: "map_of (al_del k kvs) = (map_of kvs)(k := None)"
  by (induction kvs) (auto simp: al_del_def fun_eq_iff)

lemma set_al_del: "set (al_del k kvs) = {kv \<in> set kvs. fst kv \<noteq> k}"
  by (auto simp: al_del_def)

lemma set_keys_al_del [simp]: "fst ` set (al_del k kvs) = fst ` set kvs - {k}"
  by (auto simp: al_del_def)

lemma al_ok_del [simp, intro]: "al_ok kvs \<Longrightarrow> al_ok (al_del k kvs)"
  by (auto simp: al_del_def)

lemma al_put_fresh: "k \<notin> fst ` set kvs \<Longrightarrow> al_put k v kvs = kvs @ [(k, v)]"
  by (induction k v kvs rule: al_put.induct) auto

lemma set_al_put: "al_ok kvs \<Longrightarrow>
  set (al_put k v kvs) = insert (k, v) {kv \<in> set kvs. fst kv \<noteq> k}"
  by (induction k v kvs rule: al_put.induct) (auto simp: image_iff)

lemma al_del_fresh [simp]: "k \<notin> fst ` set kvs \<Longrightarrow> al_del k kvs = kvs"
  by (induction kvs) (auto simp: al_del_def)

lemma length_al_del_less: "k \<in> fst ` set kvs \<Longrightarrow> length (al_del k kvs) < length kvs"
  by (auto simp: al_del_def intro: length_filter_less)

lemma length_al_del:
  "al_ok kvs \<Longrightarrow> k \<in> fst ` set kvs \<Longrightarrow> Suc (length (al_del k kvs)) = length kvs"
proof (induction kvs)
  case (Cons kv kvs)
  then show ?case
    by (cases "fst kv = k")
       (auto simp: al_del_def image_iff intro!: arg_cong [where f = length] filter_True)
qed simp

lemma al_sum_del:
  fixes f :: "'v \<Rightarrow> nat"
  shows "al_ok kvs \<Longrightarrow> map_of kvs k = Some v \<Longrightarrow>
    sum_list (map (f \<circ> snd) (al_del k kvs)) + f v = sum_list (map (f \<circ> snd) kvs)"
proof (induction kvs)
  case (Cons kv kvs)
  show ?case
  proof (cases "fst kv = k")
    case True
    then have "al_del k kvs = kvs" using Cons.prems by auto
    then show ?thesis using True Cons.prems by (auto simp: al_del_def)
  next
    case False
    then show ?thesis using Cons by (auto simp: al_del_def split: if_splits)
  qed
qed simp

lemma al_sum_put_fresh:
  fixes f :: "'v \<Rightarrow> nat"
  shows "map_of kvs k = None \<Longrightarrow>
    sum_list (map (f \<circ> snd) (al_put k v kvs)) = sum_list (map (f \<circ> snd) kvs) + f v"
  by (induction k v kvs rule: al_put.induct) (auto split: if_splits)

section \<open>Lists of lists, updated in one place\<close>

lemma mset_concat_update:
  "s < length xss \<Longrightarrow> mset (concat (xss[s := ys])) + mset (xss ! s) = mset (concat xss) + mset ys"
proof (induction xss arbitrary: s)
  case (Cons xs xss)
  show ?case
  proof (cases s)
    case (Suc t)
    then show ?thesis using Cons.IH [of t] Cons.prems by (simp add: add.assoc)
  qed (simp add: ac_simps)
qed simp

lemma count_concat_update:
  "s < length xss \<Longrightarrow> count (mset (concat (xss[s := ys]))) b + count (mset (xss ! s)) b =
     count (mset (concat xss)) b + count (mset ys) b"
  using mset_concat_update [of s xss ys] by (metis count_union)

lemma count_concat_ge: "s < length xss \<Longrightarrow> count (mset (xss ! s)) b \<le> count (mset (concat xss)) b"
  using count_concat_update [of s xss "[]" b] by simp

lemma in_concat_nth: "s < length xss \<Longrightarrow> i < length (xss ! s) \<Longrightarrow> xss ! s ! i \<in> set (concat xss)"
  by (auto intro!: bexI [of _ "xss ! s"])

lemma length_concat_update:
  "s < length xss \<Longrightarrow> length (concat (xss[s := ys])) + length (xss ! s) = length (concat xss) + length ys"
  using mset_concat_update [of s xss ys] by (metis size_mset size_union)

end
