(* ===== verification/BlockPool.thy ===== *)
theory BlockPool
  imports Prelude
begin

text \<open>
  The host side of the paged KV pool (\<^verbatim>\<open>BlockState\<close> and the paging methods of
  \<^verbatim>\<open>BatchedDecoder\<close> in \<^verbatim>\<open>src/backend/gpu/mod.rs\<close>): allocation with LRU
  reclaim, the per-slot block tables, reference counts and the cross-request
  prefix cache.  Vectors keep the source's order, so \<^verbatim>\<open>free.pop()\<close> takes the
  last element.  \<^verbatim>\<open>u64\<close> clocks and counters are naturals.  The 64-bit hash
  of a block (\<^verbatim>\<open>DefaultHasher\<close>) is the parameter \<open>hash\<close>.
\<close>

section \<open>State\<close>

record pool_cfg =
  block_size :: nat
  n_blocks :: nat
  max_blocks_per_seq :: nat
  m_max :: nat
  max_seq :: nat

record block_state =
  free :: "nat list"
  slot_blocks :: "nat list list"
  table_host :: "nat list"
  refcount :: "nat list"
  cache_map :: "nat \<rightharpoonup> nat"
  block_hash :: "nat option list"
  last_use :: "nat list"
  clock :: nat
  first_fit :: bool
  hits :: nat
  misses :: nat

definition div_ceil :: "nat \<Rightarrow> nat \<Rightarrow> nat" where
  "div_ceil a b = (a + b - 1) div b"

definition fresh_blocks :: "pool_cfg \<Rightarrow> bool \<Rightarrow> block_state" where
  "fresh_blocks c ff = \<lparr>
     free = rev [0 ..< n_blocks c],
     slot_blocks = replicate (m_max c) [],
     table_host = replicate (m_max c * max_blocks_per_seq c) 0,
     refcount = replicate (n_blocks c) 0,
     cache_map = Map.empty,
     block_hash = replicate (n_blocks c) None,
     last_use = replicate (n_blocks c) 0,
     clock = 0, first_fit = ff, hits = 0, misses = 0\<rparr>"

text \<open>\<^verbatim>\<open>new_paged\<close>: the assertion that one full sequence fits is the \<open>None\<close> branch.\<close>

definition new_paged :: "bool \<Rightarrow> nat \<Rightarrow> nat \<Rightarrow> nat \<Rightarrow> nat \<Rightarrow> (pool_cfg \<times> block_state) option" where
  "new_paged ff m ms bsz nb =
    (let mb = div_ceil ms bsz in
     if mb \<le> nb
     then (let c = \<lparr>block_size = bsz, n_blocks = nb, max_blocks_per_seq = mb, m_max = m, max_seq = ms\<rparr>
           in Some (c, fresh_blocks c ff))
     else None)"

section \<open>Allocation\<close>

text \<open>\<^verbatim>\<open>Iterator::min_by_key\<close>: the first of several minima.\<close>

fun min_by_key :: "('a \<Rightarrow> nat) \<Rightarrow> 'a list \<Rightarrow> 'a option" where
  "min_by_key f [] = None"
| "min_by_key f (x # xs) =
    (case min_by_key f xs of
       None \<Rightarrow> Some x
     | Some y \<Rightarrow> Some (if f y < f x then y else x))"

definition reclaimable :: "block_state \<Rightarrow> nat list" where
  "reclaimable bs =
     filter (\<lambda>i. refcount bs ! i = 0 \<and> block_hash bs ! i \<noteq> None) [0 ..< length (refcount bs)]"

definition alloc :: "block_state \<Rightarrow> block_state \<times> nat option" where
  "alloc bs =
    (if free bs \<noteq> []
     then (let b = last (free bs)
           in (bs\<lparr>free := butlast (free bs), refcount := (refcount bs)[b := 1]\<rparr>, Some b))
     else (case min_by_key (if first_fit bs then id else (\<lambda>i. last_use bs ! i)) (reclaimable bs) of
             Some i \<Rightarrow>
               (bs\<lparr>cache_map := (case block_hash bs ! i of Some h \<Rightarrow> (cache_map bs)(h := None)
                                                   | None \<Rightarrow> cache_map bs),
                   block_hash := (block_hash bs)[i := None],
                   refcount := (refcount bs)[i := 1]\<rparr>, Some i)
           | None \<Rightarrow> (bs, None)))"

definition touch :: "block_state \<Rightarrow> nat \<Rightarrow> block_state" where
  "touch bs phys = bs\<lparr>clock := clock bs + 1, last_use := (last_use bs)[phys := clock bs + 1]\<rparr>"

section \<open>Slots\<close>

text \<open>One round of the loop of \<^verbatim>\<open>ensure_blocks\<close>: block \<open>phys\<close> becomes logical block \<open>lb\<close> of a slot.\<close>

definition push_block :: "pool_cfg \<Rightarrow> nat \<Rightarrow> nat \<Rightarrow> nat \<Rightarrow> block_state \<Rightarrow> block_state" where
  "push_block c s lb phys bs = bs\<lparr>
     slot_blocks := (slot_blocks bs)[s := slot_blocks bs ! s @ [phys]],
     table_host := (table_host bs)[s * max_blocks_per_seq c + lb := phys]\<rparr>"

fun ensure_loop :: "pool_cfg \<Rightarrow> nat \<Rightarrow> nat list \<Rightarrow> block_state \<Rightarrow> block_state \<times> bool" where
  "ensure_loop c s [] bs = (bs, True)"
| "ensure_loop c s (lb # lbs) bs =
    (case alloc bs of
       (bs', None) \<Rightarrow> (bs', False)
     | (bs', Some phys) \<Rightarrow> ensure_loop c s lbs (push_block c s lb phys bs'))"

definition ensure_blocks :: "pool_cfg \<Rightarrow> nat \<Rightarrow> nat \<Rightarrow> block_state \<Rightarrow> block_state \<times> bool" where
  "ensure_blocks c s n_positions bs =
    (let need = div_ceil n_positions (block_size c);
         have_n = length (slot_blocks bs ! s)
     in if need \<le> have_n then (bs, True) else ensure_loop c s [have_n ..< need] bs)"

definition drop_ref :: "nat \<Rightarrow> block_state \<Rightarrow> block_state" where
  "drop_ref phys bs =
    (let bs1 = bs\<lparr>refcount := (refcount bs)[phys := refcount bs ! phys - 1]\<rparr>
     in if refcount bs1 ! phys = 0 \<and> block_hash bs1 ! phys = None
        then bs1\<lparr>free := free bs1 @ [phys]\<rparr> else bs1)"

definition free_slot :: "nat \<Rightarrow> block_state \<Rightarrow> block_state" where
  "free_slot s bs = fold drop_ref (slot_blocks bs ! s) (bs\<lparr>slot_blocks := (slot_blocks bs)[s := []]\<rparr>)"

definition free_blocks :: "block_state \<Rightarrow> nat" where
  "free_blocks bs = length (free bs) +
     length (filter (\<lambda>(rc, h). rc = 0 \<and> h \<noteq> None) (zip (refcount bs) (block_hash bs)))"

definition can_fit :: "pool_cfg \<Rightarrow> nat \<Rightarrow> block_state \<Rightarrow> bool" where
  "can_fit c n_positions bs = (div_ceil n_positions (block_size c) \<le> free_blocks bs)"

definition blocks_short :: "pool_cfg \<Rightarrow> nat \<Rightarrow> nat \<Rightarrow> block_state \<Rightarrow> nat" where
  "blocks_short c s n_positions bs = div_ceil n_positions (block_size c) - length (slot_blocks bs ! s)"

definition cache_stats :: "block_state \<Rightarrow> nat \<times> nat" where
  "cache_stats bs = (hits bs, misses bs)"

text \<open>The index into the slot's blocks panics when it is out of range.\<close>

definition phys_pos :: "pool_cfg \<Rightarrow> nat \<Rightarrow> nat \<Rightarrow> block_state \<Rightarrow> nat option" where
  "phys_pos c s pos bs =
    (if s < length (slot_blocks bs) \<and> pos div block_size c < length (slot_blocks bs ! s)
     then Some ((slot_blocks bs ! s ! (pos div block_size c)) * block_size c + pos mod block_size c)
     else None)"

section \<open>The prefix cache\<close>

definition block_of :: "pool_cfg \<Rightarrow> token list \<Rightarrow> nat \<Rightarrow> token list" where
  "block_of c prompt lb = subslice prompt (lb * block_size c) (Suc lb * block_size c)"

fun reuse_loop ::
  "(nat \<Rightarrow> token list \<Rightarrow> nat) \<Rightarrow> pool_cfg \<Rightarrow> token list \<Rightarrow> nat \<Rightarrow> nat list \<Rightarrow> nat \<Rightarrow> nat \<Rightarrow> block_state \<Rightarrow> nat \<times> block_state" where
  "reuse_loop hash c prompt s [] prev cached bs = (cached, bs)"
| "reuse_loop hash c prompt s (lb # lbs) prev cached bs =
    (let h = hash prev (block_of c prompt lb) in
     case cache_map bs h of
       Some phys \<Rightarrow>
         (let bs1 = bs\<lparr>refcount := (refcount bs)[phys := refcount bs ! phys + 1]\<rparr>;
              bs2 = touch bs1 phys
          in reuse_loop hash c prompt s lbs h (cached + 1) (push_block c s lb phys bs2))
     | None \<Rightarrow> (cached, bs))"

definition prefill_prefix_reuse ::
  "(nat \<Rightarrow> token list \<Rightarrow> nat) \<Rightarrow> pool_cfg \<Rightarrow> token list \<Rightarrow> nat \<Rightarrow> block_state \<Rightarrow> (nat \<times> nat) \<times> block_state" where
  "prefill_prefix_reuse hash c prompt s bs =
    (let (cached, bs1) = reuse_loop hash c prompt s [0 ..< (length prompt - 1) div block_size c] 0 0 bs
     in ((cached * block_size c, cached), bs1\<lparr>hits := hits bs1 + cached\<rparr>))"

fun chain_hash :: "(nat \<Rightarrow> token list \<Rightarrow> nat) \<Rightarrow> pool_cfg \<Rightarrow> token list \<Rightarrow> nat list \<Rightarrow> nat \<Rightarrow> nat" where
  "chain_hash hash c prompt [] prev = prev"
| "chain_hash hash c prompt (lb # lbs) prev =
     chain_hash hash c prompt lbs (hash prev (block_of c prompt lb))"

definition register_one :: "nat \<Rightarrow> nat \<Rightarrow> block_state \<Rightarrow> block_state" where
  "register_one h phys bs =
    (if cache_map bs h = None
     then touch (bs\<lparr>cache_map := (cache_map bs)(h \<mapsto> phys), block_hash := (block_hash bs)[phys := Some h]\<rparr>) phys
     else bs)"

fun register_loop ::
  "(nat \<Rightarrow> token list \<Rightarrow> nat) \<Rightarrow> pool_cfg \<Rightarrow> token list \<Rightarrow> nat \<Rightarrow> nat list \<Rightarrow> nat \<Rightarrow> block_state \<Rightarrow> block_state" where
  "register_loop hash c prompt s [] prev bs = bs"
| "register_loop hash c prompt s (lb # lbs) prev bs =
    (let h = hash prev (block_of c prompt lb)
     in register_loop hash c prompt s lbs h (register_one h (slot_blocks bs ! s ! lb) bs))"

definition prefill_register ::
  "(nat \<Rightarrow> token list \<Rightarrow> nat) \<Rightarrow> pool_cfg \<Rightarrow> token list \<Rightarrow> nat \<Rightarrow> nat \<Rightarrow> block_state \<Rightarrow> block_state" where
  "prefill_register hash c prompt s cached bs =
    (let n_full = length prompt div block_size c in
     if n_full \<le> cached then bs
     else register_loop hash c prompt s [cached ..< n_full]
            (chain_hash hash c prompt [0 ..< cached] 0)
            (bs\<lparr>misses := misses bs + (n_full - cached)\<rparr>))"

section \<open>The invariant of the pool\<close>

text \<open>
  A block's reference count is the number of times the slots hold it; the free list
  holds exactly the unreferenced, unregistered blocks, once each; the hash map and the
  per-block hashes are inverse to each other; the block table mirrors the slots.
\<close>

definition pool_inv :: "pool_cfg \<Rightarrow> block_state \<Rightarrow> bool" where
  "pool_inv c bs =
    (length (refcount bs) = n_blocks c \<and> length (block_hash bs) = n_blocks c \<and>
     length (last_use bs) = n_blocks c \<and> length (slot_blocks bs) = m_max c \<and>
     length (table_host bs) = m_max c * max_blocks_per_seq c \<and>
     (\<forall>b<n_blocks c. refcount bs ! b = count (mset (concat (slot_blocks bs))) b) \<and>
     (\<forall>b\<in>set (concat (slot_blocks bs)). b < n_blocks c) \<and>
     distinct (free bs) \<and>
     (\<forall>b. b \<in> set (free bs) \<longleftrightarrow> b < n_blocks c \<and> refcount bs ! b = 0 \<and> block_hash bs ! b = None) \<and>
     (\<forall>h b. cache_map bs h = Some b \<longleftrightarrow> b < n_blocks c \<and> block_hash bs ! b = Some h) \<and>
     (\<forall>s<m_max c. length (slot_blocks bs ! s) \<le> max_blocks_per_seq c \<and>
        (\<forall>lb<length (slot_blocks bs ! s). table_host bs ! (s * max_blocks_per_seq c + lb) = slot_blocks bs ! s ! lb)) \<and>
     (\<forall>b<n_blocks c. last_use bs ! b \<le> clock bs))"

lemma pool_invD:
  assumes "pool_inv c bs"
  shows "length (refcount bs) = n_blocks c" "length (block_hash bs) = n_blocks c"
    "length (last_use bs) = n_blocks c" "length (slot_blocks bs) = m_max c"
    "length (table_host bs) = m_max c * max_blocks_per_seq c"
    "\<And>b. b < n_blocks c \<Longrightarrow> refcount bs ! b = count (mset (concat (slot_blocks bs))) b"
    "\<And>b. b \<in> set (concat (slot_blocks bs)) \<Longrightarrow> b < n_blocks c"
    "distinct (free bs)"
    "\<And>b. b \<in> set (free bs) \<longleftrightarrow> b < n_blocks c \<and> refcount bs ! b = 0 \<and> block_hash bs ! b = None"
    "\<And>h b. cache_map bs h = Some b \<longleftrightarrow> b < n_blocks c \<and> block_hash bs ! b = Some h"
    "\<And>s. s < m_max c \<Longrightarrow> length (slot_blocks bs ! s) \<le> max_blocks_per_seq c"
    "\<And>s lb. s < m_max c \<Longrightarrow> lb < length (slot_blocks bs ! s) \<Longrightarrow>
       table_host bs ! (s * max_blocks_per_seq c + lb) = slot_blocks bs ! s ! lb"
    "\<And>b. b < n_blocks c \<Longrightarrow> last_use bs ! b \<le> clock bs"
  using assms unfolding pool_inv_def by blast+

lemma registered_once:
  assumes "pool_inv c bs" "block_hash bs ! b = Some h" "block_hash bs ! b' = Some h" "b < n_blocks c" "b' < n_blocks c"
  shows "b = b'"
  using pool_invD(10) [OF assms(1), of h b] pool_invD(10) [OF assms(1), of h b'] assms(2-5) by simp

lemma slot_block_range:
  assumes "pool_inv c bs" "s < m_max c" "i < length (slot_blocks bs ! s)"
  shows "slot_blocks bs ! s ! i < n_blocks c"
  using pool_invD(7) [OF assms(1)] in_concat_nth [of s "slot_blocks bs" i] pool_invD(4) [OF assms(1)] assms(2,3)
  by simp

lemma slot_block_ref:
  assumes "pool_inv c bs" "s < m_max c" "i < length (slot_blocks bs ! s)"
  shows "0 < refcount bs ! (slot_blocks bs ! s ! i)"
proof -
  have "slot_blocks bs ! s ! i \<in># mset (concat (slot_blocks bs))"
    using in_concat_nth [of s "slot_blocks bs" i] pool_invD(4) [OF assms(1)] assms(2,3) by simp
  then show ?thesis using pool_invD(6) [OF assms(1) slot_block_range [OF assms]] by simp
qed

lemma pool_inv_fresh: "pool_inv c (fresh_blocks c ff)"
proof -
  have e: "concat (replicate n ([]::nat list)) = []" for n by (induction n) auto
  show ?thesis by (auto simp: pool_inv_def fresh_blocks_def e)
qed

section \<open>Allocation: what a block is taken from\<close>

lemma min_by_key_None [simp]: "min_by_key f xs = None \<longleftrightarrow> xs = []"
  by (cases xs) (auto split: option.splits)

lemma min_by_key_Some:
  "min_by_key f xs = Some x \<Longrightarrow> x \<in> set xs \<and> (\<forall>y\<in>set xs. f x \<le> f y)"
  by (induction xs arbitrary: x) (fastforce split: option.splits if_splits)+

lemma set_reclaimable:
  "i \<in> set (reclaimable bs) \<longleftrightarrow> i < length (refcount bs) \<and> refcount bs ! i = 0 \<and> block_hash bs ! i \<noteq> None"
  by (auto simp: reclaimable_def)

text \<open>What every allocation changes and what it leaves alone.\<close>

definition alloc_post :: "pool_cfg \<Rightarrow> block_state \<Rightarrow> block_state \<Rightarrow> nat \<Rightarrow> bool" where
  "alloc_post c bs bs' b =
    (b < n_blocks c \<and> refcount bs ! b = 0 \<and>
     slot_blocks bs' = slot_blocks bs \<and> table_host bs' = table_host bs \<and>
     refcount bs' = (refcount bs)[b := 1] \<and> block_hash bs' = (block_hash bs)[b := None] \<and>
     (\<forall>h. cache_map bs' h = (if cache_map bs h = Some b then None else cache_map bs h)) \<and>
     distinct (free bs') \<and> set (free bs') = set (free bs) - {b} \<and>
     last_use bs' = last_use bs \<and> clock bs' = clock bs)"

lemma alloc_Some:
  assumes "pool_inv c bs" "alloc bs = (bs', Some b)"
  shows "alloc_post c bs bs' b"
proof (cases "free bs = []")
  case False
  have sp: "free bs = butlast (free bs) @ [b]" and bs': "bs' = bs\<lparr>free := butlast (free bs), refcount := (refcount bs)[b := 1]\<rparr>"
    using assms(2) False by (auto simp: alloc_def Let_def)
  have b: "b < n_blocks c" "refcount bs ! b = 0" "block_hash bs ! b = None"
    using pool_invD(9) [OF assms(1), of b] sp by (metis in_set_conv_decomp)+
  have d: "distinct (butlast (free bs) @ [b])" using pool_invD(8) [OF assms(1)] sp by simp
  have st: "set (butlast (free bs)) = set (free bs) - {b}"
    using d arg_cong [OF sp, of set] by auto
  have nc: "cache_map bs h \<noteq> Some b" for h using pool_invD(10) [OF assms(1), of h b] b by simp
  have "(block_hash bs)[b := None] = block_hash bs" using b(3) by (metis list_update_id)
  then show ?thesis
    unfolding alloc_post_def bs' using b d st nc by simp
next
  case True
  then obtain i where i: "min_by_key (if first_fit bs then id else (\<lambda>i. last_use bs ! i)) (reclaimable bs) = Some i" "i = b"
    using assms(2) by (auto simp: alloc_def split: option.splits)
  have "b \<in> set (reclaimable bs)" using min_by_key_Some [OF i(1)] i(2) by blast
  then have b: "b < n_blocks c" "refcount bs ! b = 0" and "block_hash bs ! b \<noteq> None"
    using pool_invD(1) [OF assms(1)] by (auto simp: set_reclaimable)
  then obtain h where h: "block_hash bs ! b = Some h" by blast
  have ch: "cache_map bs h' = Some b \<longleftrightarrow> h' = h" for h'
    using pool_invD(10) [OF assms(1), of h' b] b h by auto
  have bs': "bs' = bs\<lparr>cache_map := (cache_map bs)(h := None), block_hash := (block_hash bs)[b := None],
      refcount := (refcount bs)[b := 1]\<rparr>"
    using assms(2) True i h by (simp add: alloc_def)
  show ?thesis
    unfolding alloc_post_def bs' using b True ch by simp
qed

lemma alloc_None:
  assumes "pool_inv c bs" "alloc bs = (bs', None)"
  shows "bs' = bs" "\<And>b. b < n_blocks c \<Longrightarrow> 0 < refcount bs ! b"
proof -
  have f: "free bs = []" and r: "reclaimable bs = []" and "bs' = bs"
    using assms(2) by (auto simp: alloc_def Let_def split: if_splits option.splits)
  then show "bs' = bs" by simp
  fix b assume b: "b < n_blocks c"
  have "b \<notin> set (reclaimable bs)" "b \<notin> set (free bs)" using f r by auto
  then show "0 < refcount bs ! b"
    using b pool_invD(1) [OF assms(1)] pool_invD(9) [OF assms(1), of b] by (auto simp: set_reclaimable)
qed

lemma filter_zip_count:
  "length xs = length ys \<Longrightarrow>
   length (filter (\<lambda>(x, y). P x y) (zip xs ys)) = card {i. i < length xs \<and> P (xs ! i) (ys ! i)}"
proof -
  assume l: "length xs = length ys"
  have "length (filter (\<lambda>(x, y). P x y) (zip xs ys)) = card {i. i < length (zip xs ys) \<and> (\<lambda>(x, y). P x y) (zip xs ys ! i)}"
    by (rule length_filter_conv_card)
  also have "{i. i < length (zip xs ys) \<and> (\<lambda>(x, y). P x y) (zip xs ys ! i)} = {i. i < length xs \<and> P (xs ! i) (ys ! i)}"
    using l by auto
  finally show ?thesis .
qed

lemma free_blocks_card:
  assumes "pool_inv c bs"
  shows "free_blocks bs = card {b. b < n_blocks c \<and> refcount bs ! b = 0}"
proof -
  let ?A = "{b. b < n_blocks c \<and> refcount bs ! b = 0 \<and> block_hash bs ! b = None}"
  let ?B = "{b. b < n_blocks c \<and> refcount bs ! b = 0 \<and> block_hash bs ! b \<noteq> None}"
  have "set (free bs) = ?A" using pool_invD(9) [OF assms] by blast
  then have "length (free bs) = card ?A"
    using distinct_card [OF pool_invD(8) [OF assms]] by simp
  moreover have "length (filter (\<lambda>(rc, h). rc = 0 \<and> h \<noteq> None) (zip (refcount bs) (block_hash bs))) = card ?B"
    using filter_zip_count [of "refcount bs" "block_hash bs" "\<lambda>rc h. rc = 0 \<and> h \<noteq> None"]
      pool_invD(1,2) [OF assms] by simp
  moreover have "card (?A \<union> ?B) = card ?A + card ?B" by (rule card_Un_disjoint) auto
  moreover have "?A \<union> ?B = {b. b < n_blocks c \<and> refcount bs ! b = 0}" by auto
  ultimately show ?thesis by (simp add: free_blocks_def)
qed

lemma alloc_None_iff:
  assumes "pool_inv c bs"
  shows "snd (alloc bs) = None \<longleftrightarrow> free_blocks bs = 0"
proof
  assume "snd (alloc bs) = None"
  then have "alloc bs = (fst (alloc bs), None)" by (metis prod.collapse)
  from alloc_None(2) [OF assms this] show "free_blocks bs = 0"
    unfolding free_blocks_card [OF assms] by auto
next
  assume z: "free_blocks bs = 0"
  show "snd (alloc bs) = None"
  proof (cases "snd (alloc bs)")
    case (Some b)
    then have "alloc bs = (fst (alloc bs), Some b)" by (metis prod.collapse)
    from alloc_Some [OF assms this] have "b \<in> {b. b < n_blocks c \<and> refcount bs ! b = 0}"
      by (simp add: alloc_post_def)
    moreover have "{b. b < n_blocks c \<and> refcount bs ! b = 0} = {}"
      using z unfolding free_blocks_card [OF assms] by simp
    ultimately show ?thesis by simp
  qed
qed

section \<open>Every operation keeps the invariant\<close>

lemma table_index_inj:
  fixes s s' lb lb' mb :: nat
  assumes "lb < mb" "lb' < mb" "s * mb + lb = s' * mb + lb'"
  shows "s = s' \<and> lb = lb'"
proof -
  have "s = (s * mb + lb) div mb" "s' = (s' * mb + lb') div mb" using assms(1,2) by auto
  then have "s = s'" using assms(3) by simp
  then show ?thesis using assms(3) by simp
qed

lemma table_index_bound:
  fixes s lb mb m :: nat
  assumes "lb < mb" "s < m"
  shows "s * mb + lb < m * mb"
proof -
  have "s * mb + lb < Suc s * mb" using assms(1) by simp
  also have "\<dots> \<le> m * mb" using assms(2) by (intro mult_le_mono1) simp
  finally show ?thesis .
qed

text \<open>A slot grows by one block: the block is unreferenced before, referenced once more after.\<close>

lemma push_table:
  assumes inv: "pool_inv c bs" and s: "s < m_max c" "length (slot_blocks bs ! s) < max_blocks_per_seq c"
    and sb: "slot_blocks bs' = slot_blocks bs" and tb: "table_host bs' = table_host bs"
    and bs2: "bs2 = push_block c s (length (slot_blocks bs ! s)) b bs'" and s': "s' < m_max c"
  shows "length (slot_blocks bs2 ! s') \<le> max_blocks_per_seq c \<and>
    (\<forall>lb<length (slot_blocks bs2 ! s'). table_host bs2 ! (s' * max_blocks_per_seq c + lb) = slot_blocks bs2 ! s' ! lb)"
proof -
  let ?mb = "max_blocks_per_seq c" and ?n = "length (slot_blocks bs ! s)"
  have sl: "length (slot_blocks bs) = m_max c" "length (table_host bs) = m_max c * ?mb"
    using pool_invD [OF inv] by blast+
  have sb2: "slot_blocks bs2 ! s' = (if s' = s then slot_blocks bs ! s @ [b] else slot_blocks bs ! s')"
    using s s' sl by (simp add: bs2 push_block_def sb)
  have tb2: "table_host bs2 ! (s' * ?mb + lb) = (if s' = s \<and> lb = ?n then b else table_host bs ! (s' * ?mb + lb))"
    if "lb < ?mb" for lb
  proof (cases "s * ?mb + ?n = s' * ?mb + lb")
    case True
    then have "s' = s \<and> lb = ?n" using table_index_inj [OF s(2) that] by metis
    then show ?thesis using table_index_bound [OF s(2) s(1)] sl by (simp add: bs2 push_block_def tb)
  next
    case False
    then show ?thesis by (auto simp: bs2 push_block_def tb)
  qed
  have old: "length (slot_blocks bs ! s') \<le> ?mb" using pool_invD(11) [OF inv s'] .
  show ?thesis
  proof (cases "s' = s")
    case True
    then have sb3: "slot_blocks bs2 ! s' = slot_blocks bs ! s @ [b]" using sb2 by simp
    have "table_host bs2 ! (s' * ?mb + lb) = slot_blocks bs2 ! s' ! lb" if "lb < Suc ?n" for lb
      unfolding sb3 using that s(2) True tb2 [of lb] pool_invD(12) [OF inv s(1), of lb]
      by (cases "lb = ?n") (simp_all add: nth_append)
    then show ?thesis using s(2) unfolding sb3 by simp
  next
    case False
    then show ?thesis using tb2 old pool_invD(12) [OF inv s'] by (simp add: sb2)
  qed
qed

lemma alloc_push_inv:
  assumes inv: "pool_inv c bs" and s: "s < m_max c" "length (slot_blocks bs ! s) < max_blocks_per_seq c"
    and al: "alloc bs = (bs', Some b)"
  shows "pool_inv c (push_block c s (length (slot_blocks bs ! s)) b bs')"
    (is "pool_inv c ?bs2")
proof -
  note ap = alloc_Some [OF inv al, unfolded alloc_post_def]
  note D = pool_invD [OF inv]
  have sl: "length (slot_blocks bs) = m_max c" by (rule D(4))
  have cnt: "count (mset (concat (slot_blocks ?bs2))) b' = count (mset (concat (slot_blocks bs))) b' + (if b' = b then 1 else 0)" for b'
    using count_concat_update [of s "slot_blocks bs" "slot_blocks bs ! s @ [b]" b'] s sl ap
    by (auto simp: push_block_def)
  have set2: "set (concat (slot_blocks ?bs2)) \<subseteq> insert b (set (concat (slot_blocks bs)))"
  proof
    fix x assume "x \<in> set (concat (slot_blocks ?bs2))"
    then have "0 < count (mset (concat (slot_blocks ?bs2))) x" by simp
    then show "x \<in> insert b (set (concat (slot_blocks bs)))"
      unfolding cnt by (cases "x = b") (simp_all del: count_mset)
  qed
  have tab: "\<forall>s'<m_max c. length (slot_blocks ?bs2 ! s') \<le> max_blocks_per_seq c \<and>
      (\<forall>lb<length (slot_blocks ?bs2 ! s'). table_host ?bs2 ! (s' * max_blocks_per_seq c + lb) = slot_blocks ?bs2 ! s' ! lb)"
    using push_table [OF inv s _ _ refl] ap by blast
  have z: "count (mset (concat (slot_blocks bs))) b = 0" using D(6) [of b] ap by simp
  note uniq = registered_once [OF inv]
  have f: "refcount ?bs2 = (refcount bs)[b := 1]" "block_hash ?bs2 = (block_hash bs)[b := None]"
    "free ?bs2 = free bs'" "cache_map ?bs2 = cache_map bs'" "last_use ?bs2 = last_use bs" "clock ?bs2 = clock bs"
    using ap by (auto simp: push_block_def)
  show ?thesis
    unfolding pool_inv_def f
  proof (intro conjI tab)
    show "\<forall>b'<n_blocks c. (refcount bs)[b := 1] ! b' = count (mset (concat (slot_blocks ?bs2))) b'"
      using cnt z D(1) D(6) by (simp add: nth_list_update)
    show "\<forall>b\<in>set (concat (slot_blocks ?bs2)). b < n_blocks c" using set2 D(7) ap by blast
    show "\<forall>b'. (b' \<in> set (free bs')) = (b' < n_blocks c \<and> (refcount bs)[b := 1] ! b' = 0 \<and> (block_hash bs)[b := None] ! b' = None)"
      using ap D(1,2) D(9) by (auto simp: nth_list_update)
    show "\<forall>h b'. (cache_map bs' h = Some b') = (b' < n_blocks c \<and> (block_hash bs)[b := None] ! b' = Some h)"
      using ap D(2) D(10) uniq by (auto simp: nth_list_update)
    show "\<forall>b<n_blocks c. last_use bs ! b \<le> clock bs" using D(13) by blast
  qed (use ap D in \<open>auto simp: push_block_def\<close>)
qed

text \<open>What \<open>ensure_blocks\<close> may change: blocks no slot held.\<close>

definition grows :: "nat \<Rightarrow> block_state \<Rightarrow> block_state \<Rightarrow> bool" where
  "grows s bs bs' =
    ((\<exists>xs. slot_blocks bs' = (slot_blocks bs)[s := slot_blocks bs ! s @ xs] \<and> distinct xs \<and>
        (\<forall>b\<in>set xs. refcount bs ! b = 0 \<and> refcount bs' ! b = 1 \<and> block_hash bs' ! b = None)) \<and>
     (\<forall>h b. cache_map bs' h = Some b \<longrightarrow> cache_map bs h = Some b) \<and>
     (\<forall>b. refcount bs ! b \<noteq> 0 \<longrightarrow> refcount bs' ! b = refcount bs ! b \<and> block_hash bs' ! b = block_hash bs ! b))"

lemma grows_refl: "s < length (slot_blocks bs) \<Longrightarrow> grows s bs bs"
  unfolding grows_def by (intro conjI exI [of _ "[]"]) auto

lemma alloc_push_grows:
  assumes inv: "pool_inv c bs" and al: "alloc bs = (bs', Some b)"
  shows "slot_blocks (push_block c s lb b bs') = (slot_blocks bs)[s := slot_blocks bs ! s @ [b]]"
    and "refcount bs ! b = 0" "refcount (push_block c s lb b bs') = (refcount bs)[b := 1]"
    and "block_hash (push_block c s lb b bs') = (block_hash bs)[b := None]"
    and "cache_map (push_block c s lb b bs') h = Some b' \<Longrightarrow> cache_map bs h = Some b'"
    and "b < n_blocks c"
  using alloc_Some [OF inv al]
  by (auto simp: alloc_post_def push_block_def split: if_splits)

lemma ensure_loop_correct:
  assumes "pool_inv c bs" "s < m_max c" "lo = length (slot_blocks bs ! s)" "hi \<le> max_blocks_per_seq c"
    and "ensure_loop c s [lo ..< hi] bs = (bs', ok)"
  shows "pool_inv c bs' \<and> grows s bs bs' \<and>
    (ok \<longleftrightarrow> hi - lo \<le> free_blocks bs) \<and>
    (ok \<longrightarrow> length (slot_blocks bs' ! s) = max lo hi \<and> free_blocks bs' = free_blocks bs - (hi - lo)) \<and>
    clock bs' = clock bs"
  using assms
proof (induction "hi - lo" arbitrary: lo bs)
  case 0
  then show ?case using grows_refl [of s bs] pool_invD(4) [OF 0(2)] by auto
next
  case (Suc n)
  have up: "[lo ..< hi] = lo # [Suc lo ..< hi]" using Suc(2) by (simp add: upt_conv_Cons)
  note inv = Suc(3)
  have sl: "length (slot_blocks bs) = m_max c" by (rule pool_invD(4) [OF inv])
  have sn: "s < length (slot_blocks bs)" using sl Suc(4) by simp
  show ?case
  proof (cases "snd (alloc bs)")
    case None
    then have al: "alloc bs = (fst (alloc bs), None)" by (metis prod.collapse)
    have "bs' = bs" "\<not> ok" using Suc(7) alloc_None(1) [OF inv al] al unfolding up by (auto split: prod.splits option.splits)
    moreover have "free_blocks bs = 0" using alloc_None_iff [OF inv] None by simp
    ultimately show ?thesis using inv Suc(2) grows_refl [OF sn] by auto
  next
    case (Some b)
    then obtain bs1 where al: "alloc bs = (bs1, Some b)" by (metis prod.collapse)
    let ?bs2 = "push_block c s lo b bs1"
    have lt: "length (slot_blocks bs ! s) < max_blocks_per_seq c" using Suc by simp
    have inv2: "pool_inv c ?bs2" using alloc_push_inv [OF inv Suc(4) lt al] Suc(5) by simp
    have g: "slot_blocks ?bs2 = (slot_blocks bs)[s := slot_blocks bs ! s @ [b]]"
      "refcount bs ! b = 0" "refcount ?bs2 = (refcount bs)[b := 1]" "block_hash ?bs2 = (block_hash bs)[b := None]"
      "\<And>h b'. cache_map ?bs2 h = Some b' \<Longrightarrow> cache_map bs h = Some b'" "b < n_blocks c"
      by (fact alloc_push_grows [OF inv al])+
    have len2: "Suc lo = length (slot_blocks ?bs2 ! s)" using g(1) sn Suc(5) by simp
    have n: "n = hi - Suc lo" using Suc(2) by simp
    have run: "ensure_loop c s [Suc lo ..< hi] ?bs2 = (bs', ok)" using Suc(7) al unfolding up by simp
    note IH = Suc(1) [OF n inv2 Suc(4) len2 Suc(6) run]
    have fb: "free_blocks bs = Suc (free_blocks ?bs2)"
    proof -
      have "{b. b < n_blocks c \<and> refcount bs ! b = 0} = insert b {b. b < n_blocks c \<and> refcount ?bs2 ! b = 0}"
        using g(2,3,6) pool_invD(1) [OF inv] by (auto simp: nth_list_update)
      moreover have "b \<notin> {b. b < n_blocks c \<and> refcount ?bs2 ! b = 0}"
        using g(3,6) pool_invD(1) [OF inv] by simp
      ultimately show ?thesis unfolding free_blocks_card [OF inv] free_blocks_card [OF inv2] by simp
    qed
    obtain xs where xs: "slot_blocks bs' = (slot_blocks ?bs2)[s := slot_blocks ?bs2 ! s @ xs]" "distinct xs"
      "\<forall>b\<in>set xs. refcount ?bs2 ! b = 0 \<and> refcount bs' ! b = 1 \<and> block_hash bs' ! b = None"
      and cm: "\<forall>h b. cache_map bs' h = Some b \<longrightarrow> cache_map ?bs2 h = Some b"
      and rc: "\<forall>b. refcount ?bs2 ! b \<noteq> 0 \<longrightarrow> refcount bs' ! b = refcount ?bs2 ! b \<and> block_hash bs' ! b = block_hash ?bs2 ! b"
      using IH unfolding grows_def by blast
    have rcl: "length (refcount bs) = n_blocks c" "length (block_hash bs) = n_blocks c"
      using pool_invD(1,2) [OF inv] by auto
    have b2: "refcount ?bs2 ! b = 1" "block_hash ?bs2 ! b = None" using g(3,4,6) rcl by auto
    have bx: "b \<notin> set xs" using xs(3) b2 by fastforce
    have "grows s bs bs'"
      unfolding grows_def
    proof (intro conjI exI [of _ "b # xs"])
      show "slot_blocks bs' = (slot_blocks bs)[s := slot_blocks bs ! s @ b # xs]"
        using xs(1) g(1) sn by simp
      show "distinct (b # xs)" using xs(2) bx by simp
      show "\<forall>b\<in>set (b # xs). refcount bs ! b = 0 \<and> refcount bs' ! b = 1 \<and> block_hash bs' ! b = None"
      proof
        fix b' assume "b' \<in> set (b # xs)"
        then consider "b' = b" | "b' \<noteq> b" "b' \<in> set xs" using bx by auto
        then show "refcount bs ! b' = 0 \<and> refcount bs' ! b' = 1 \<and> block_hash bs' ! b' = None"
          using xs(3) g(2,3) b2 rc by cases auto
      qed
      show "\<forall>h b. cache_map bs' h = Some b \<longrightarrow> cache_map bs h = Some b" using cm g(5) by blast
      show "\<forall>b. refcount bs ! b \<noteq> 0 \<longrightarrow> refcount bs' ! b = refcount bs ! b \<and> block_hash bs' ! b = block_hash bs ! b"
      proof (intro allI impI)
        fix b' assume "refcount bs ! b' \<noteq> 0"
        then have "b' \<noteq> b" using g(2) by auto
        then have "refcount ?bs2 ! b' = refcount bs ! b'" "block_hash ?bs2 ! b' = block_hash bs ! b'"
          using g(3,4) by auto
        then show "refcount bs' ! b' = refcount bs ! b' \<and> block_hash bs' ! b' = block_hash bs ! b'"
          using rc \<open>refcount bs ! b' \<noteq> 0\<close> by simp
      qed
    qed
    moreover have "clock ?bs2 = clock bs"
      using alloc_Some [OF inv al] by (simp add: alloc_post_def push_block_def)
    ultimately show ?thesis using IH fb Suc(2) n by auto
  qed
qed

lemma ensure_blocks_correct:
  assumes "pool_inv c bs" "s < m_max c" "div_ceil n (block_size c) \<le> max_blocks_per_seq c"
    and "ensure_blocks c s n bs = (bs', ok)"
  shows "pool_inv c bs'" "grows s bs bs'"
    "ok \<longleftrightarrow> blocks_short c s n bs \<le> free_blocks bs"
    "ok \<Longrightarrow> length (slot_blocks bs' ! s) = max (length (slot_blocks bs ! s)) (div_ceil n (block_size c))"
    "ok \<Longrightarrow> free_blocks bs' = free_blocks bs - blocks_short c s n bs"
proof -
  let ?need = "div_ceil n (block_size c)" and ?have = "length (slot_blocks bs ! s)"
  have "pool_inv c bs' \<and> grows s bs bs' \<and> (ok \<longleftrightarrow> blocks_short c s n bs \<le> free_blocks bs) \<and>
    (ok \<longrightarrow> length (slot_blocks bs' ! s) = max ?have ?need \<and> free_blocks bs' = free_blocks bs - blocks_short c s n bs)"
  proof (cases "?need \<le> ?have")
    case True
    then have "bs' = bs" "ok" using assms(4) by (auto simp: ensure_blocks_def Let_def)
    then show ?thesis using True assms(1,2) grows_refl [of s bs] pool_invD(4) [OF assms(1)]
      by (simp add: blocks_short_def)
  next
    case False
    then have "ensure_loop c s [?have ..< ?need] bs = (bs', ok)"
      using assms(4) by (simp add: ensure_blocks_def Let_def)
    from ensure_loop_correct [OF assms(1,2) refl assms(3) this] False show ?thesis
      by (simp add: blocks_short_def)
  qed
  then show "pool_inv c bs'" "grows s bs bs'" "ok \<longleftrightarrow> blocks_short c s n bs \<le> free_blocks bs"
    "ok \<Longrightarrow> length (slot_blocks bs' ! s) = max ?have ?need"
    "ok \<Longrightarrow> free_blocks bs' = free_blocks bs - blocks_short c s n bs"
    by blast+
qed

text \<open>While a slot is being freed, the references still to be dropped are the multiset \<open>M\<close>.\<close>

definition table_ok :: "pool_cfg \<Rightarrow> block_state \<Rightarrow> bool" where
  "table_ok c bs = (\<forall>s<m_max c. length (slot_blocks bs ! s) \<le> max_blocks_per_seq c \<and>
     (\<forall>lb<length (slot_blocks bs ! s). table_host bs ! (s * max_blocks_per_seq c + lb) = slot_blocks bs ! s ! lb))"

definition pool_core :: "pool_cfg \<Rightarrow> nat multiset \<Rightarrow> block_state \<Rightarrow> bool" where
  "pool_core c M bs =
    (length (refcount bs) = n_blocks c \<and> length (block_hash bs) = n_blocks c \<and>
     length (last_use bs) = n_blocks c \<and> length (slot_blocks bs) = m_max c \<and>
     length (table_host bs) = m_max c * max_blocks_per_seq c \<and>
     (\<forall>b<n_blocks c. refcount bs ! b = count (mset (concat (slot_blocks bs))) b + count M b) \<and>
     (\<forall>b\<in>set (concat (slot_blocks bs)) \<union> set_mset M. b < n_blocks c) \<and>
     distinct (free bs) \<and>
     (\<forall>b. b \<in> set (free bs) \<longleftrightarrow> b < n_blocks c \<and> refcount bs ! b = 0 \<and> block_hash bs ! b = None) \<and>
     (\<forall>h b. cache_map bs h = Some b \<longleftrightarrow> b < n_blocks c \<and> block_hash bs ! b = Some h) \<and>
     (\<forall>b<n_blocks c. last_use bs ! b \<le> clock bs))"

lemma pool_inv_core: "pool_inv c bs \<longleftrightarrow> pool_core c {#} bs \<and> table_ok c bs"
  unfolding pool_inv_def pool_core_def table_ok_def by simp blast

lemma drop_ref_core:
  assumes "pool_core c (add_mset b M) bs"
  shows "pool_core c M (drop_ref b bs)"
proof -
  have b: "b < n_blocks c" and l: "length (refcount bs) = n_blocks c"
    using assms by (auto simp: pool_core_def)
  have r: "refcount bs ! b = Suc (count (mset (concat (slot_blocks bs))) b + count M b)"
    using assms b by (simp add: pool_core_def)
  have nf: "b \<notin> set (free bs)" using assms r by (auto simp: pool_core_def)
  have rc: "\<forall>b'<n_blocks c. (refcount bs)[b := refcount bs ! b - 1] ! b' =
      count (mset (concat (slot_blocks bs))) b' + count M b'"
    using assms r l by (simp add: pool_core_def nth_list_update)
  show ?thesis
  proof (cases "refcount bs ! b = 1 \<and> block_hash bs ! b = None")
    case True
    then have "drop_ref b bs = bs\<lparr>refcount := (refcount bs)[b := refcount bs ! b - 1], free := free bs @ [b]\<rparr>"
      using b l by (simp add: drop_ref_def Let_def)
    then show ?thesis
      using assms rc True nf b l unfolding pool_core_def
      by (auto simp: nth_list_update)
  next
    case False
    then have d: "drop_ref b bs = bs\<lparr>refcount := (refcount bs)[b := refcount bs ! b - 1]\<rparr>"
      using b l r by (auto simp: drop_ref_def Let_def)
    have f: "x \<in> set (free bs) \<longleftrightarrow> x < n_blocks c \<and> (refcount bs)[b := refcount bs ! b - 1] ! x = 0 \<and> block_hash bs ! x = None" for x
      using assms False b l r unfolding pool_core_def by (cases "x = b") auto
    show ?thesis
      using assms rc f unfolding pool_core_def d by (simp add: ball_Un)
  qed
qed

lemma drop_ref_frame [simp]:
  "slot_blocks (drop_ref b bs) = slot_blocks bs" "table_host (drop_ref b bs) = table_host bs"
  "cache_map (drop_ref b bs) = cache_map bs" "block_hash (drop_ref b bs) = block_hash bs"
  "clock (drop_ref b bs) = clock bs" "last_use (drop_ref b bs) = last_use bs"
  by (simp_all add: drop_ref_def Let_def)

lemma fold_drop_ref_frame [simp]:
  "slot_blocks (fold drop_ref xs bs) = slot_blocks bs" "table_host (fold drop_ref xs bs) = table_host bs"
  "cache_map (fold drop_ref xs bs) = cache_map bs" "block_hash (fold drop_ref xs bs) = block_hash bs"
  by (induction xs arbitrary: bs) auto

lemma fold_drop_ref_core: "pool_core c (mset xs + M) bs \<Longrightarrow> pool_core c M (fold drop_ref xs bs)"
  by (induction xs arbitrary: bs) (auto simp: drop_ref_core)

lemma free_slot_frame [simp]:
  "slot_blocks (free_slot s bs) = (slot_blocks bs)[s := []]" "table_host (free_slot s bs) = table_host bs"
  "cache_map (free_slot s bs) = cache_map bs" "block_hash (free_slot s bs) = block_hash bs"
  by (simp_all add: free_slot_def)

lemma free_slot_inv:
  assumes "pool_inv c bs" "s < m_max c"
  shows "pool_inv c (free_slot s bs)"
proof -
  have sl: "s < length (slot_blocks bs)" using pool_invD(4) [OF assms(1)] assms(2) by simp
  have cnt: "count (mset (concat ((slot_blocks bs)[s := []]))) b + count (mset (slot_blocks bs ! s)) b =
      count (mset (concat (slot_blocks bs))) b" for b
    using count_concat_update [OF sl, of "[]" b] by simp
  have "set (concat ((slot_blocks bs)[s := []])) \<union> set (slot_blocks bs ! s) \<subseteq> set (concat (slot_blocks bs))"
    using sl set_update_subset_insert [of "slot_blocks bs" s "[]"] by fastforce
  then have "pool_core c (mset (slot_blocks bs ! s) + {#}) (bs\<lparr>slot_blocks := (slot_blocks bs)[s := []]\<rparr>)"
    using assms(1) cnt unfolding pool_inv_core pool_core_def by (auto simp: subset_iff)
  then have "pool_core c {#} (free_slot s bs)"
    unfolding free_slot_def by (rule fold_drop_ref_core)
  moreover have "table_ok c (free_slot s bs)"
    using assms pool_invD(11,12) [OF assms(1)] sl
    by (auto simp: table_ok_def nth_list_update)
  ultimately show ?thesis by (simp add: pool_inv_core)
qed

lemma touch_frame [simp]:
  "slot_blocks (touch bs b) = slot_blocks bs" "table_host (touch bs b) = table_host bs"
  "cache_map (touch bs b) = cache_map bs" "block_hash (touch bs b) = block_hash bs"
  "refcount (touch bs b) = refcount bs" "free (touch bs b) = free bs" "clock (touch bs b) = Suc (clock bs)"
  "last_use (touch bs b) = (last_use bs)[b := Suc (clock bs)]"
  by (simp_all add: touch_def)

lemma push_block_frame [simp]:
  "refcount (push_block c s lb b bs) = refcount bs" "cache_map (push_block c s lb b bs) = cache_map bs"
  "block_hash (push_block c s lb b bs) = block_hash bs" "free (push_block c s lb b bs) = free bs"
  "last_use (push_block c s lb b bs) = last_use bs" "clock (push_block c s lb b bs) = clock bs"
  "slot_blocks (push_block c s lb b bs) = (slot_blocks bs)[s := slot_blocks bs ! s @ [b]]"
  by (simp_all add: push_block_def)

lemma reuse_push_inv:
  assumes inv: "pool_inv c bs" and s: "s < m_max c" "length (slot_blocks bs ! s) < max_blocks_per_seq c"
    and h: "cache_map bs h = Some b"
  shows "pool_inv c (push_block c s (length (slot_blocks bs ! s)) b
     (touch (bs\<lparr>refcount := (refcount bs)[b := refcount bs ! b + 1]\<rparr>) b))" (is "pool_inv c ?bs2")
proof -
  note D = pool_invD [OF inv]
  have b: "b < n_blocks c" "block_hash bs ! b = Some h" using D(10) [of h b] h by auto
  have tab: "table_ok c ?bs2"
    unfolding table_ok_def using push_table [OF inv s _ _ refl] by simp
  have sl: "s < length (slot_blocks bs)" using D(4) s by simp
  have cnt: "count (mset (concat (slot_blocks ?bs2))) b' = count (mset (concat (slot_blocks bs))) b' + (if b' = b then 1 else 0)" for b'
    using count_concat_update [OF sl, of "slot_blocks bs ! s @ [b]" b'] by auto
  have set2: "set (concat (slot_blocks ?bs2)) \<subseteq> insert b (set (concat (slot_blocks bs)))"
  proof
    fix x assume "x \<in> set (concat (slot_blocks ?bs2))"
    then have "0 < count (mset (concat (slot_blocks ?bs2))) x" by simp
    then show "x \<in> insert b (set (concat (slot_blocks bs)))"
      unfolding cnt by (cases "x = b") (simp_all del: count_mset)
  qed
  have f: "refcount ?bs2 = (refcount bs)[b := refcount bs ! b + 1]" "block_hash ?bs2 = block_hash bs"
    "free ?bs2 = free bs" "cache_map ?bs2 = cache_map bs" "last_use ?bs2 = (last_use bs)[b := Suc (clock bs)]"
    "clock ?bs2 = Suc (clock bs)"
    by simp_all
  have "pool_core c {#} ?bs2"
    unfolding pool_core_def f
  proof (intro conjI)
    show "\<forall>b'<n_blocks c. (refcount bs)[b := refcount bs ! b + 1] ! b' = count (mset (concat (slot_blocks ?bs2))) b' + count {#} b'"
      using cnt D(1) D(6) by (simp add: nth_list_update)
    show "\<forall>b\<in>set (concat (slot_blocks ?bs2)) \<union> set_mset {#}. b < n_blocks c" using set2 D(7) b by auto
    show "\<forall>x. (x \<in> set (free bs)) = (x < n_blocks c \<and> (refcount bs)[b := refcount bs ! b + 1] ! x = 0 \<and> block_hash bs ! x = None)"
      using D(1,9) b by (auto simp: nth_list_update)
    show "\<forall>x<n_blocks c. (last_use bs)[b := Suc (clock bs)] ! x \<le> Suc (clock bs)"
    proof (intro allI impI)
      fix x assume "x < n_blocks c"
      then show "(last_use bs)[b := Suc (clock bs)] ! x \<le> Suc (clock bs)"
        using D(3) D(13) [of x] by (cases "x = b") auto
    qed
  qed (use D in \<open>auto simp: push_block_def\<close>)
  then show ?thesis using tab by (simp add: pool_inv_core)
qed

text \<open>The prefix hashes of the full blocks of a prompt.\<close>

definition prefix_hash :: "(nat \<Rightarrow> token list \<Rightarrow> nat) \<Rightarrow> pool_cfg \<Rightarrow> token list \<Rightarrow> nat \<Rightarrow> nat" where
  "prefix_hash hash c prompt n = chain_hash hash c prompt [0 ..< n] 0"

lemma chain_hash_append:
  "chain_hash hash c prompt (xs @ ys) prev = chain_hash hash c prompt ys (chain_hash hash c prompt xs prev)"
  by (induction xs arbitrary: prev) auto

lemma prefix_hash_Suc: "prefix_hash hash c prompt (Suc n) = hash (prefix_hash hash c prompt n) (block_of c prompt n)"
  by (simp add: prefix_hash_def chain_hash_append)

lemma prefix_hash_0 [simp]: "prefix_hash hash c prompt 0 = 0"
  by (simp add: prefix_hash_def)

lemma reuse_loop_correct:
  assumes "pool_inv c bs" "s < m_max c" "lo = length (slot_blocks bs ! s)" "hi \<le> max_blocks_per_seq c"
    and "reuse_loop hash c prompt s [lo ..< hi] (prefix_hash hash c prompt lo) lo bs = (n, bs')"
  shows "pool_inv c bs' \<and> lo \<le> n \<and> n \<le> max lo hi \<and>
    cache_map bs' = cache_map bs \<and> block_hash bs' = block_hash bs \<and>
    (\<exists>xs. slot_blocks bs' = (slot_blocks bs)[s := slot_blocks bs ! s @ xs] \<and> length xs = n - lo \<and>
       (\<forall>i<length xs. cache_map bs (prefix_hash hash c prompt (Suc (lo + i))) = Some (xs ! i))) \<and>
    (n < hi \<longrightarrow> cache_map bs (prefix_hash hash c prompt (Suc n)) = None) \<and>
    free_blocks bs \<le> free_blocks bs' + (n - lo)"
  using assms
proof (induction "hi - lo" arbitrary: lo bs)
  case 0
  then have "n = lo" "bs' = bs" by auto
  then show ?case using 0 by (auto intro!: exI [of _ "[]"])
next
  case (Suc k)
  have up: "[lo ..< hi] = lo # [Suc lo ..< hi]" using Suc(2) by (simp add: upt_conv_Cons)
  note inv = Suc(3)
  have sn: "s < length (slot_blocks bs)" using pool_invD(4) [OF inv] Suc(4) by simp
  let ?h = "prefix_hash hash c prompt (Suc lo)"
  have h: "hash (prefix_hash hash c prompt lo) (block_of c prompt lo) = ?h" by (simp add: prefix_hash_Suc)
  show ?case
  proof (cases "cache_map bs ?h")
    case None
    then have "n = lo" "bs' = bs" using Suc(7) unfolding up by (auto simp: h Let_def)
    then show ?thesis using None Suc(2) inv by (auto intro!: exI [of _ "[]"])
  next
    case (Some b)
    let ?bs2 = "push_block c s lo b (touch (bs\<lparr>refcount := (refcount bs)[b := refcount bs ! b + 1]\<rparr>) b)"
    have lt: "length (slot_blocks bs ! s) < max_blocks_per_seq c" using Suc by simp
    have inv2: "pool_inv c ?bs2" using reuse_push_inv [OF inv Suc(4) lt Some] Suc(5) by simp
    have len2: "Suc lo = length (slot_blocks ?bs2 ! s)" using sn Suc(5) by simp
    have run: "reuse_loop hash c prompt s [Suc lo ..< hi] (prefix_hash hash c prompt (Suc lo)) (Suc lo) ?bs2 = (n, bs')"
      using Suc(7) Some unfolding up by (simp add: h Let_def)
    have k: "k = hi - Suc lo" using Suc(2) by simp
    note IH = Suc(1) [OF k inv2 Suc(4) len2 Suc(6) run]
    obtain xs where xs: "slot_blocks bs' = (slot_blocks ?bs2)[s := slot_blocks ?bs2 ! s @ xs]" "length xs = n - Suc lo"
      "\<forall>i<length xs. cache_map bs (prefix_hash hash c prompt (Suc (Suc lo + i))) = Some (xs ! i)"
      using IH by auto
    have fb: "free_blocks bs \<le> Suc (free_blocks ?bs2)"
    proof -
      let ?A = "{x. x < n_blocks c \<and> refcount bs ! x = 0}" and ?B = "{x. x < n_blocks c \<and> refcount ?bs2 ! x = 0}"
      have "?A \<subseteq> insert b ?B" by (auto simp: nth_list_update)
      then have "card ?A \<le> card (insert b ?B)" by (intro card_mono) auto
      also have "\<dots> \<le> Suc (card ?B)" by (rule card_insert_le_m1) auto
      finally show ?thesis unfolding free_blocks_card [OF inv] free_blocks_card [OF inv2] .
    qed
    have ex: "\<exists>xs. slot_blocks bs' = (slot_blocks bs)[s := slot_blocks bs ! s @ xs] \<and> length xs = n - lo \<and>
       (\<forall>i<length xs. cache_map bs (prefix_hash hash c prompt (Suc (lo + i))) = Some (xs ! i))"
    proof (intro exI [of _ "b # xs"] conjI allI impI)
      show "slot_blocks bs' = (slot_blocks bs)[s := slot_blocks bs ! s @ b # xs]" using xs(1) sn by simp
      show "length (b # xs) = n - lo" using xs(2) IH by auto
      fix i assume "i < length (b # xs)"
      then show "cache_map bs (prefix_hash hash c prompt (Suc (lo + i))) = Some ((b # xs) ! i)"
        using xs(3) Some by (cases i) auto
    qed
    have r: "Suc lo \<le> n" "n \<le> max (Suc lo) hi" "free_blocks ?bs2 \<le> free_blocks bs' + (n - Suc lo)"
      using IH by auto
    have r': "lo \<le> n" "n \<le> max lo hi" "free_blocks bs \<le> free_blocks bs' + (n - lo)"
      using r fb Suc(2) by auto
    show ?thesis
      by (intro conjI r' ex) (use IH in auto)
  qed
qed

lemma register_one_inv:
  assumes inv: "pool_inv c bs" and b: "b < n_blocks c" "0 < refcount bs ! b" "block_hash bs ! b = None"
  shows "pool_inv c (register_one h b bs)"
proof (cases "cache_map bs h")
  case (Some x)
  then show ?thesis using inv by (simp add: register_one_def)
next
  case None
  note D = pool_invD [OF inv]
  let ?bs2 = "touch (bs\<lparr>cache_map := (cache_map bs)(h \<mapsto> b), block_hash := (block_hash bs)[b := Some h]\<rparr>) b"
  have cm: "\<forall>h' b'. ((cache_map bs)(h \<mapsto> b)) h' = Some b' \<longleftrightarrow> b' < n_blocks c \<and> (block_hash bs)[b := Some h] ! b' = Some h'"
  proof (intro allI)
    fix h' b'
    show "((cache_map bs)(h \<mapsto> b)) h' = Some b' \<longleftrightarrow> b' < n_blocks c \<and> (block_hash bs)[b := Some h] ! b' = Some h'"
      using b D(2) D(10) [of h' b'] D(10) [of h b'] D(10) [of h' b] None
      by (cases "b' = b"; cases "h' = h") auto
  qed
  have lu: "\<forall>x<n_blocks c. (last_use bs)[b := Suc (clock bs)] ! x \<le> Suc (clock bs)"
  proof (intro allI impI)
    fix x assume "x < n_blocks c"
    then show "(last_use bs)[b := Suc (clock bs)] ! x \<le> Suc (clock bs)"
      using D(3) D(13) [of x] by (cases "x = b") auto
  qed
  have fr: "\<forall>x. (x \<in> set (free bs)) = (x < n_blocks c \<and> refcount bs ! x = 0 \<and> (block_hash bs)[b := Some h] ! x = None)"
    using D(2,9) b by (auto simp: nth_list_update)
  have "pool_inv c ?bs2"
    unfolding pool_inv_def touch_frame block_state.simps
    using D cm lu fr by (intro conjI) auto
  then show ?thesis using None by (simp add: register_one_def)
qed

lemma register_one_frame [simp]:
  "slot_blocks (register_one h b bs) = slot_blocks bs" "table_host (register_one h b bs) = table_host bs"
  "refcount (register_one h b bs) = refcount bs" "free (register_one h b bs) = free bs"
  by (simp_all add: register_one_def)

lemma register_loop_frame [simp]:
  "slot_blocks (register_loop hash c p s lbs prev bs) = slot_blocks bs"
  "table_host (register_loop hash c p s lbs prev bs) = table_host bs"
  "refcount (register_loop hash c p s lbs prev bs) = refcount bs"
  "free (register_loop hash c p s lbs prev bs) = free bs"
  by (induction lbs arbitrary: prev bs) (auto simp: Let_def)

text \<open>Registration adds entries, each mapping the prefix hash of a block to the block that holds it.\<close>

lemma register_loop_correct:
  assumes "pool_inv c bs" "s < m_max c" "hi \<le> length (slot_blocks bs ! s)"
    and "\<forall>lb. lo \<le> lb \<and> lb < hi \<longrightarrow> block_hash bs ! (slot_blocks bs ! s ! lb) = None"
    and "\<forall>lb lb'. lo \<le> lb \<and> lb < hi \<and> lo \<le> lb' \<and> lb' < hi \<and> slot_blocks bs ! s ! lb = slot_blocks bs ! s ! lb' \<longrightarrow> lb = lb'"
    and "bs' = register_loop hash c prompt s [lo ..< hi] (prefix_hash hash c prompt lo) bs"
  shows "pool_inv c bs' \<and>
    (\<forall>h b. cache_map bs' h = Some b \<longrightarrow> cache_map bs h = Some b \<or>
       (\<exists>lb. lo \<le> lb \<and> lb < hi \<and> h = prefix_hash hash c prompt (Suc lb) \<and> b = slot_blocks bs ! s ! lb)) \<and>
    (\<forall>h b. cache_map bs h = Some b \<longrightarrow> cache_map bs' h = Some b) \<and>
    (\<forall>lb. lo \<le> lb \<and> lb < hi \<longrightarrow> cache_map bs' (prefix_hash hash c prompt (Suc lb)) \<noteq> None)"
  using assms
proof (induction "hi - lo" arbitrary: lo bs)
  case 0
  then show ?case by auto
next
  case (Suc k)
  have up: "[lo ..< hi] = lo # [Suc lo ..< hi]" using Suc(2) by (simp add: upt_conv_Cons)
  let ?h = "prefix_hash hash c prompt (Suc lo)" and ?b = "slot_blocks bs ! s ! lo"
  let ?bs2 = "register_one ?h ?b bs"
  have lo: "lo < hi" "lo < length (slot_blocks bs ! s)" using Suc(2,5) by auto
  have b: "?b < n_blocks c" "0 < refcount bs ! ?b"
    using slot_block_range [OF Suc(3,4) lo(2)] slot_block_ref [OF Suc(3,4) lo(2)] by auto
  have nh: "block_hash bs ! ?b = None" using Suc(6) lo by blast
  have inv2: "pool_inv c ?bs2" by (rule register_one_inv [OF Suc(3) b nh])
  have k: "k = hi - Suc lo" using Suc(2) by simp
  have nn: "\<forall>lb. Suc lo \<le> lb \<and> lb < hi \<longrightarrow> block_hash ?bs2 ! (slot_blocks ?bs2 ! s ! lb) = None"
  proof (intro allI impI)
    fix lb assume lb: "Suc lo \<le> lb \<and> lb < hi"
    then have "slot_blocks bs ! s ! lb \<noteq> ?b" using Suc(7) lo by (metis Suc_leD not_less_eq_eq order_refl)
    then show "block_hash ?bs2 ! (slot_blocks ?bs2 ! s ! lb) = None"
      using Suc(6) lb by (simp add: register_one_def)
  qed
  have dd: "\<forall>lb lb'. Suc lo \<le> lb \<and> lb < hi \<and> Suc lo \<le> lb' \<and> lb' < hi \<and>
      slot_blocks ?bs2 ! s ! lb = slot_blocks ?bs2 ! s ! lb' \<longrightarrow> lb = lb'"
    using Suc(7) by (simp add: Suc_le_eq)
  have run: "bs' = register_loop hash c prompt s [Suc lo ..< hi] (prefix_hash hash c prompt (Suc lo)) ?bs2"
    using Suc(8) unfolding up by (simp add: prefix_hash_Suc Let_def)
  have "hi \<le> length (slot_blocks ?bs2 ! s)" using Suc(5) by simp
  note IH = Suc(1) [OF k inv2 Suc(4) this nn dd run]
  have c2: "cache_map ?bs2 h = Some b \<Longrightarrow> cache_map bs h = Some b \<or> (h = ?h \<and> b = ?b)" for h b
    by (auto simp: register_one_def split: if_splits)
  have c3: "cache_map bs h = Some b \<Longrightarrow> cache_map ?bs2 h = Some b" for h b
    by (auto simp: register_one_def)
  have c4: "cache_map ?bs2 ?h \<noteq> None" by (auto simp: register_one_def)
  show ?case
  proof (intro conjI allI impI)
    show "pool_inv c bs'" using IH by blast
    fix h b assume "cache_map bs' h = Some b"
    then consider "cache_map ?bs2 h = Some b"
      | lb where "Suc lo \<le> lb" "lb < hi" "h = prefix_hash hash c prompt (Suc lb)" "b = slot_blocks bs ! s ! lb"
      using IH by auto
    then show "cache_map bs h = Some b \<or>
       (\<exists>lb. lo \<le> lb \<and> lb < hi \<and> h = prefix_hash hash c prompt (Suc lb) \<and> b = slot_blocks bs ! s ! lb)"
    proof cases
      case 1
      then show ?thesis using c2 [of h b] lo by blast
    next
      case (2 lb)
      then show ?thesis by (intro disjI2 exI [of _ lb]) simp
    qed
  next
    fix h b assume "cache_map bs h = Some b"
    then show "cache_map bs' h = Some b" using c3 IH by blast
  next
    fix lb assume lb: "lo \<le> lb \<and> lb < hi"
    show "cache_map bs' (prefix_hash hash c prompt (Suc lb)) \<noteq> None"
    proof (cases "lb = lo")
      case True
      then show ?thesis using c4 IH by fastforce
    next
      case False
      then show ?thesis using lb IH by simp
    qed
  qed
qed

section \<open>How much the pool holds\<close>

lemma free_blocks_lower:
  assumes "pool_inv c bs"
  shows "n_blocks c \<le> free_blocks bs + length (concat (slot_blocks bs))"
proof -
  let ?Z = "{b. b < n_blocks c \<and> refcount bs ! b = 0}" and ?U = "set (concat (slot_blocks bs))"
  have "{..<n_blocks c} \<subseteq> ?Z \<union> ?U"
  proof
    fix b assume "b \<in> {..<n_blocks c}"
    then have b: "b < n_blocks c" by simp
    show "b \<in> ?Z \<union> ?U"
    proof (cases "refcount bs ! b = 0")
      case False
      then have "0 < count (mset (concat (slot_blocks bs))) b" using pool_invD(6) [OF assms b] by simp
      then have "b \<in># mset (concat (slot_blocks bs))" by (rule count_greater_zero_iff [THEN iffD1])
      then show ?thesis by simp
    qed (use b in simp)
  qed
  then have "card {..<n_blocks c} \<le> card (?Z \<union> ?U)" by (intro card_mono) auto
  also have "\<dots> \<le> card ?Z + card ?U" by (rule card_Un_le)
  also have "card ?U \<le> length (concat (slot_blocks bs))" by (rule card_length)
  finally show ?thesis unfolding free_blocks_card [OF assms] by simp
qed

text \<open>With the full pool, every slot can still grow to its maximum.\<close>

lemma length_concat_sum: "length (concat xss) = (\<Sum>s<length xss. length (xss ! s))"
  by (simp add: length_concat sum_list_sum_nth atLeast0LessThan)

lemma full_pool_room:
  assumes "pool_inv c bs" "m_max c * max_blocks_per_seq c \<le> n_blocks c"
  shows "(\<Sum>s<m_max c. max_blocks_per_seq c - length (slot_blocks bs ! s)) \<le> free_blocks bs"
proof -
  have l: "length (slot_blocks bs) = m_max c" by (rule pool_invD(4) [OF assms(1)])
  have "(\<Sum>s<m_max c. max_blocks_per_seq c - length (slot_blocks bs ! s)) + length (concat (slot_blocks bs))
      = (\<Sum>s<m_max c. (max_blocks_per_seq c - length (slot_blocks bs ! s)) + length (slot_blocks bs ! s))"
    by (simp add: length_concat_sum l sum.distrib)
  also have "\<dots> = (\<Sum>s<m_max c. max_blocks_per_seq c)"
    using pool_invD(11) [OF assms(1)] by (intro sum.cong) auto
  also have "\<dots> = m_max c * max_blocks_per_seq c" by simp
  finally show ?thesis using assms(2) free_blocks_lower [OF assms(1)] by linarith
qed

section \<open>The properties of the pool\<close>

text \<open>A small pool for the concrete instances: four blocks of two positions, two slots.\<close>

definition demo_cfg :: pool_cfg where
  "demo_cfg = \<lparr>block_size = 2, n_blocks = 4, max_blocks_per_seq = 2, m_max = 2, max_seq = 4\<rparr>"

lemma free_blocks_fresh: "free_blocks (fresh_blocks c ff) = n_blocks c"
proof -
  have "{b. b < n_blocks c \<and> refcount (fresh_blocks c ff) ! b = 0} = {..<n_blocks c}"
    by (auto simp: fresh_blocks_def)
  then show ?thesis by (simp add: free_blocks_card [OF pool_inv_fresh])
qed

lemma below_four: "b < 4 \<longleftrightarrow> b = 0 \<or> b = 1 \<or> b = 2 \<or> b = (3 :: nat)"
  by auto

text \<open>The pool after slot 0 has taken two blocks.\<close>

lemma demo_ensure:
  "ensure_blocks demo_cfg 0 4 (fresh_blocks demo_cfg ff) =
    ((fresh_blocks demo_cfg ff)\<lparr>free := [3, 2], slot_blocks := [[0, 1], []], table_host := [0, 1, 0, 0],
       refcount := [1, 1, 0, 0]\<rparr>, True)"
  by (simp add: ensure_blocks_def fresh_blocks_def demo_cfg_def div_ceil_def alloc_def push_block_def Let_def
      upt_rec)
     (simp add: numeral_2_eq_2 numeral_eq_Suc)

text \<open>
  C30: ensuring room for a sequence succeeds exactly when the blocks it is short of are
  free or reclaimable; it keeps the pool's invariant, appends fresh blocks to that slot
  and leaves every other slot alone; on success nothing is short any more and
  exactly that many blocks are gone from the pool.
\<close>

theorem ensure_blocks_exact:
  assumes "pool_inv c bs" "s < m_max c" "div_ceil n (block_size c) \<le> max_blocks_per_seq c"
  shows "case ensure_blocks c s n bs of (bs', ok) \<Rightarrow>
    pool_inv c bs' \<and> (ok \<longleftrightarrow> blocks_short c s n bs \<le> free_blocks bs) \<and>
    (ok \<longrightarrow> blocks_short c s n bs' = 0 \<and> free_blocks bs' = free_blocks bs - blocks_short c s n bs) \<and>
    (\<exists>xs. slot_blocks bs' = (slot_blocks bs)[s := slot_blocks bs ! s @ xs] \<and> distinct xs \<and>
       (\<forall>b\<in>set xs. refcount bs ! b = 0))"
proof (cases "ensure_blocks c s n bs")
  case (Pair bs' ok)
  note E = ensure_blocks_correct [OF assms Pair]
  have "\<exists>xs. slot_blocks bs' = (slot_blocks bs)[s := slot_blocks bs ! s @ xs] \<and> distinct xs \<and>
       (\<forall>b\<in>set xs. refcount bs ! b = 0)"
    using E(2) unfolding grows_def by blast
  moreover have "ok \<Longrightarrow> blocks_short c s n bs' = 0" using E(4) by (simp add: blocks_short_def)
  ultimately show ?thesis using E(1,3,5) Pair by simp
qed

theorem ensure_blocks_exact_witness:
  "case ensure_blocks demo_cfg 1 3 (fresh_blocks demo_cfg False) of (bs', ok) \<Rightarrow>
     ok \<and> pool_inv demo_cfg bs' \<and> free_blocks bs' = 2"
proof -
  have "free_blocks (fresh_blocks demo_cfg False) = 4" "blocks_short demo_cfg 1 3 (fresh_blocks demo_cfg False) = 2"
    by (simp_all add: free_blocks_fresh) (simp_all add: blocks_short_def fresh_blocks_def demo_cfg_def div_ceil_def)
  then show ?thesis
    using ensure_blocks_exact [OF pool_inv_fresh, of 1 demo_cfg 3 False]
    by (auto simp: demo_cfg_def div_ceil_def split: prod.splits)
qed

text \<open>
  an allocation hands out a block no sequence references.  A free block is taken first; otherwise
  the victim is a registered block, the least recently used one unless first-fit is
  selected, and only its own cache entry is dropped.  Allocation fails exactly
  when every block is referenced.
\<close>

theorem alloc_victim:
  assumes "pool_inv c bs"
  shows "case alloc bs of
      (bs', None) \<Rightarrow> bs' = bs \<and> (\<forall>b<n_blocks c. 0 < refcount bs ! b)
    | (bs', Some b) \<Rightarrow>
        b < n_blocks c \<and> refcount bs ! b = 0 \<and> refcount bs' = (refcount bs)[b := 1] \<and>
        (free bs \<noteq> [] \<longrightarrow> b = last (free bs) \<and> cache_map bs' = cache_map bs) \<and>
        (free bs = [] \<longrightarrow>
           (\<exists>h. block_hash bs ! b = Some h \<and> cache_map bs' = (cache_map bs)(h := None)) \<and>
           (\<forall>b'<n_blocks c. refcount bs ! b' = 0 \<longrightarrow>
              (if first_fit bs then b \<le> b' else last_use bs ! b \<le> last_use bs ! b')))"
proof (cases "alloc bs")
  case (Pair bs' r)
  show ?thesis
  proof (cases r)
    case None
    then show ?thesis using Pair alloc_None [OF assms] by auto
  next
    case (Some b)
    then have al: "alloc bs = (bs', Some b)" using Pair by simp
    note A = alloc_Some [OF assms al, unfolded alloc_post_def]
    have f: "b = last (free bs) \<and> cache_map bs' = cache_map bs" if "free bs \<noteq> []"
      using al that by (auto simp: alloc_def Let_def)
    have g: "(\<exists>h. block_hash bs ! b = Some h \<and> cache_map bs' = (cache_map bs)(h := None)) \<and>
           (\<forall>b'<n_blocks c. refcount bs ! b' = 0 \<longrightarrow>
              (if first_fit bs then b \<le> b' else last_use bs ! b \<le> last_use bs ! b'))" if e: "free bs = []"
    proof -
      let ?key = "if first_fit bs then id else (\<lambda>i. last_use bs ! i)"
      have m: "min_by_key ?key (reclaimable bs) = Some b"
        using al e by (auto simp: alloc_def split: option.splits)
      note M = min_by_key_Some [OF m]
      obtain h where h: "block_hash bs ! b = Some h" using M by (auto simp: set_reclaimable)
      have "cache_map bs' = (cache_map bs)(h := None)" using al e m h by (auto simp: alloc_def)
      moreover have "b' \<in> set (reclaimable bs)" if "b' < n_blocks c" "refcount bs ! b' = 0" for b'
        using that e pool_invD(1) [OF assms] pool_invD(9) [OF assms, of b'] by (auto simp: set_reclaimable)
      ultimately show ?thesis using h M by (auto split: if_splits)
    qed
    show ?thesis using Pair Some A f g by simp
  qed
qed

theorem alloc_victim_witness:
  "alloc \<lparr>free = [], slot_blocks = [[], []], table_host = [0, 0, 0, 0], refcount = [0, 0, 0, 0],
      cache_map = [7 \<mapsto> 0, 8 \<mapsto> 1, 9 \<mapsto> 2, 5 \<mapsto> 3], block_hash = [Some 7, Some 8, Some 9, Some 5],
      last_use = [4, 2, 3, 1], clock = 4, first_fit = False, hits = 0, misses = 4\<rparr> =
   (\<lparr>free = [], slot_blocks = [[], []], table_host = [0, 0, 0, 0], refcount = [0, 0, 0, 1],
      cache_map = [7 \<mapsto> 0, 8 \<mapsto> 1, 9 \<mapsto> 2], block_hash = [Some 7, Some 8, Some 9, None],
      last_use = [4, 2, 3, 1], clock = 4, first_fit = False, hits = 0, misses = 4\<rparr>, Some 3) \<and> 1 \<le> (4 :: nat)"
  (is "alloc ?bs = ?r \<and> _")
proof -
  have inv: "pool_inv demo_cfg ?bs"
    by (auto simp: pool_inv_def demo_cfg_def below_four All_less_Suc2 less_2_cases_iff nth_Cons' split: if_splits)
  have a: "alloc ?bs = ?r"
    by (simp add: alloc_def reclaimable_def upt_rec fun_eq_iff)
  show ?thesis using alloc_victim [OF inv] unfolding a by (simp add: demo_cfg_def)
qed

text \<open>
  freeing a slot keeps the pool's invariant and gives back exactly what it held: its block list
  is empty, every reference count falls by the number of times the slot held the block,
  registered blocks stay in the cache, and no block is lost: what only this slot held
  is available again.
\<close>

theorem free_slot_returns:
  assumes "pool_inv c bs" "s < m_max c"
  shows "pool_inv c (free_slot s bs) \<and> slot_blocks (free_slot s bs) = (slot_blocks bs)[s := []] \<and>
    cache_map (free_slot s bs) = cache_map bs \<and>
    (\<forall>b<n_blocks c. refcount bs ! b = refcount (free_slot s bs) ! b + count (mset (slot_blocks bs ! s)) b) \<and>
    free_blocks (free_slot s bs) = card {b. b < n_blocks c \<and> refcount bs ! b = count (mset (slot_blocks bs ! s)) b}"
proof -
  have l: "s < length (slot_blocks bs)" using pool_invD(4) [OF assms(1)] assms(2) by simp
  note pi = free_slot_inv [OF assms]
  have rc: "refcount bs ! b = refcount (free_slot s bs) ! b + count (mset (slot_blocks bs ! s)) b" if "b < n_blocks c" for b
    using pool_invD(6) [OF assms(1) that] pool_invD(6) [OF pi that] count_concat_update [OF l, of "[]" b] by simp
  then have "{b. b < n_blocks c \<and> refcount (free_slot s bs) ! b = 0} =
      {b. b < n_blocks c \<and> refcount bs ! b = count (mset (slot_blocks bs ! s)) b}" by auto
  then show ?thesis using pi rc by (simp add: free_blocks_card [OF pi])
qed

theorem free_slot_returns_witness:
  "free_blocks (free_slot 0 (fst (ensure_blocks demo_cfg 0 4 (fresh_blocks demo_cfg False)))) = 4"
proof -
  let ?bs = "fst (ensure_blocks demo_cfg 0 4 (fresh_blocks demo_cfg False))"
  have inv: "pool_inv demo_cfg ?bs"
    by (rule ensure_blocks_correct(1) [OF pool_inv_fresh _ _ prod.collapse [symmetric]])
       (simp_all add: demo_cfg_def div_ceil_def)
  have "{b. b < n_blocks demo_cfg \<and> refcount ?bs ! b = count (mset (slot_blocks ?bs ! 0)) b} = {0, 1, 2, 3}"
    unfolding demo_ensure by (auto simp: demo_cfg_def below_four nth_Cons' split: if_splits)
  then show ?thesis using free_slot_returns [OF inv, of 0] by (simp add: demo_cfg_def)
qed

text \<open>
  a pool of \<open>m_max\<close> full sequences never starves: whatever the other slots hold and
  whatever is cached, a slot can always be grown to any length up to \<open>max_seq\<close>.
\<close>

theorem full_pool_never_starves:
  assumes "pool_inv c bs" "m_max c * max_blocks_per_seq c \<le> n_blocks c" "s < m_max c"
    and "div_ceil n (block_size c) \<le> max_blocks_per_seq c"
  shows "snd (ensure_blocks c s n bs)"
proof -
  obtain bs' ok where e: "ensure_blocks c s n bs = (bs', ok)" by fastforce
  have "blocks_short c s n bs \<le> max_blocks_per_seq c - length (slot_blocks bs ! s)"
    using assms(4) by (simp add: blocks_short_def)
  also have "\<dots> \<le> (\<Sum>s<m_max c. max_blocks_per_seq c - length (slot_blocks bs ! s))"
    using assms(3) by (intro member_le_sum) auto
  also have "\<dots> \<le> free_blocks bs" by (rule full_pool_room [OF assms(1,2)])
  finally show ?thesis using ensure_blocks_correct(3) [OF assms(1,3,4) e] e by simp
qed

theorem full_pool_never_starves_witness:
  "snd (ensure_blocks demo_cfg 1 4 (fst (ensure_blocks demo_cfg 0 4 (fresh_blocks demo_cfg True))))"
proof -
  let ?bs = "fst (ensure_blocks demo_cfg 0 4 (fresh_blocks demo_cfg True))"
  have inv: "pool_inv demo_cfg ?bs"
    by (rule ensure_blocks_correct(1) [OF pool_inv_fresh _ _ prod.collapse [symmetric]])
       (simp_all add: demo_cfg_def div_ceil_def)
  show ?thesis by (rule full_pool_never_starves [OF inv]) (simp_all add: demo_cfg_def div_ceil_def)
qed

end
