(* ===== verification/SpecDecode.thy ===== *)
theory SpecDecode
  imports Prelude "HOL-Library.Product_Lexorder"
begin

text \<open>
  Prompt-lookup and tree drafting (\<^verbatim>\<open>src/engine/spec_decode.rs\<close>): the n-gram
  searches, the draft tree and its acceptance walk, and the greedy verification
  of a draft against the logits of the main model.  Slices of the source are
  \<open>subslice\<close>; scans that run backwards recurse downwards on the start index.
\<close>

section \<open>Linear drafts\<close>

fun draft_scan :: "token list \<Rightarrow> token list \<Rightarrow> nat \<Rightarrow> nat \<Rightarrow> token list option" where
  "draft_scan h key k 0 = None"
| "draft_scan h key k (Suc start) =
    (if subslice h start (start + length key) = key
     then (let after = start + length key;
               tk = min k (length h - after)
           in if tk = 0 then draft_scan h key k start
              else Some (subslice h after (after + tk)))
     else draft_scan h key k start)"

definition lookup_draft :: "token list \<Rightarrow> token list \<Rightarrow> nat \<Rightarrow> nat \<Rightarrow> token list option" where
  "lookup_draft h recent l k =
    (if length recent < l \<or> length h < l + 1 \<or> k = 0 then None
     else draft_scan h (drop (length recent - l) recent) k (length h - l))"

text \<open>The lengths \<open>max_len\<close> down to 2, longest first.\<close>

definition draft_lens :: "nat \<Rightarrow> nat list" where
  "draft_lens max_len = rev [2 ..< Suc (max max_len 2)]"

fun first_some :: "('a \<Rightarrow> 'b option) \<Rightarrow> 'a list \<Rightarrow> 'b option" where
  "first_some f [] = None"
| "first_some f (x # xs) = (case f x of Some y \<Rightarrow> Some y | None \<Rightarrow> first_some f xs)"

definition lookup_draft_best ::
  "token list \<Rightarrow> token list \<Rightarrow> nat \<Rightarrow> nat \<Rightarrow> token list option" where
  "lookup_draft_best h recent max_len k =
     first_some (\<lambda>l. lookup_draft h recent l k) (draft_lens max_len)"

text \<open>
  What a draft is supposed to be: the tokens after the latest place, not at the
  very end of the history, where the last \<open>l\<close> tokens of \<open>recent\<close> occur.
\<close>

definition occurs_at :: "token list \<Rightarrow> token list \<Rightarrow> nat \<Rightarrow> bool" where
  "occurs_at h key s = (s + length key < length h \<and> subslice h s (s + length key) = key)"

definition latest_occ :: "token list \<Rightarrow> token list \<Rightarrow> nat \<Rightarrow> bool" where
  "latest_occ h key s = (occurs_at h key s \<and> (\<forall>s' < length h. s < s' \<longrightarrow> \<not> occurs_at h key s'))"

lemma latest_occ_iff: "latest_occ h key s \<longleftrightarrow> occurs_at h key s \<and> (\<forall>s'>s. \<not> occurs_at h key s')"
  unfolding latest_occ_def by (auto simp: occurs_at_def)

lemma latest_occ_unique: "latest_occ h key s \<Longrightarrow> latest_occ h key t \<Longrightarrow> s = t"
proof (rule ccontr)
  assume l: "latest_occ h key s" "latest_occ h key t" and ne: "s \<noteq> t"
  have "s < length h" "t < length h" using l by (auto simp: latest_occ_def occurs_at_def)
  then show False using l ne by (metis latest_occ_def linorder_neqE_nat)
qed

lemma draft_scan_Some:
  assumes "n + length key \<le> length h" "0 < k"
  shows "draft_scan h key k n = Some d \<longleftrightarrow>
    (\<exists>s<n. occurs_at h key s \<and> (\<forall>s'. s < s' \<longrightarrow> s' < n \<longrightarrow> \<not> occurs_at h key s') \<and>
       d = take k (drop (s + length key) h))"
  using assms(1)
proof (induction n)
  case (Suc n)
  have IH: "draft_scan h key k n = Some d \<longleftrightarrow>
    (\<exists>s<n. occurs_at h key s \<and> (\<forall>s'. s < s' \<longrightarrow> s' < n \<longrightarrow> \<not> occurs_at h key s') \<and>
       d = take k (drop (s + length key) h))" using Suc by simp
  have inside: "n + length key < length h" using Suc.prems by simp
  show ?case
  proof (cases "occurs_at h key n")
    case True
    have tk: "subslice h (n + length key) (n + length key + min k (length h - (n + length key)))
        = take k (drop (n + length key) h)" by (simp add: subslice_def min_def)
    have "draft_scan h key k (Suc n) = Some (take k (drop (n + length key) h))"
      using True inside assms(2) tk
      by (simp add: occurs_at_def Let_def) (simp add: min_def split: if_splits)
    then show ?thesis using True by (auto simp: less_Suc_eq)
  next
    case False
    then have "draft_scan h key k (Suc n) = draft_scan h key k n"
      using inside by (simp add: occurs_at_def)
    then have "draft_scan h key k (Suc n) = Some d \<longleftrightarrow> draft_scan h key k n = Some d" by (simp only:)
    also note IH
    finally show ?thesis using False by (auto simp: less_Suc_eq simp del: draft_scan.simps)
  qed
qed simp

lemma lookup_draft_eq_Some:
  "lookup_draft h recent l k = Some d \<longleftrightarrow>
    0 < k \<and> l \<le> length recent \<and>
    (\<exists>s. latest_occ h (drop (length recent - l) recent) s \<and> d = take k (drop (s + l) h))"
proof (cases "length recent < l \<or> length h < l + 1 \<or> k = 0")
  case True
  then show ?thesis by (auto simp: lookup_draft_def latest_occ_def occurs_at_def)
next
  case False
  let ?key = "drop (length recent - l) recent"
  have len: "length ?key = l" using False by simp
  have bnd: "occurs_at h ?key s' \<Longrightarrow> s' < length h - l" for s'
    unfolding occurs_at_def len by linarith
  have "lookup_draft h recent l k = draft_scan h ?key k (length h - l)"
    using False by (simp add: lookup_draft_def)
  then have "lookup_draft h recent l k = Some d \<longleftrightarrow>
    (\<exists>s<length h - l. occurs_at h ?key s \<and> (\<forall>s'. s < s' \<longrightarrow> s' < length h - l \<longrightarrow> \<not> occurs_at h ?key s') \<and>
       d = take k (drop (s + l) h))"
    using False draft_scan_Some [of "length h - l" ?key h k d] by (simp add: len)
  also have "\<dots> \<longleftrightarrow> (\<exists>s. latest_occ h ?key s \<and> d = take k (drop (s + l) h))"
  proof -
    have "s < length h - l \<and> occurs_at h ?key s \<and> (\<forall>s'. s < s' \<longrightarrow> s' < length h - l \<longrightarrow> \<not> occurs_at h ?key s')
      \<longleftrightarrow> latest_occ h ?key s" for s
      unfolding latest_occ_iff using bnd by auto
    then show ?thesis by (intro iff_exI) (simp only: conj_assoc [symmetric])
  qed
  finally show ?thesis using False by simp
qed

lemma latest_occ_ex: "occurs_at h key s \<Longrightarrow> \<exists>t\<ge>s. latest_occ h key t"
proof -
  assume o: "occurs_at h key s"
  define S where "S = {t. t < length h \<and> occurs_at h key t}"
  have fin: "finite S" by (simp add: S_def)
  have s: "s \<in> S" using o by (simp add: S_def occurs_at_def)
  have m: "Max S \<in> S" using fin s by (intro Max_in) auto
  have "\<not> occurs_at h key s'" if "Max S < s'" "s' < length h" for s'
  proof
    assume "occurs_at h key s'"
    then have "s' \<in> S" using that by (simp add: S_def)
    then have "s' \<le> Max S" by (rule Max_ge [OF fin])
    then show False using that(1) by linarith
  qed
  moreover have "occurs_at h key (Max S)" using m unfolding S_def by blast
  ultimately have "latest_occ h key (Max S)" unfolding latest_occ_def by blast
  then show ?thesis using Max_ge [OF fin s] by blast
qed

lemma lookup_draft_eq_None:
  "lookup_draft h recent l k = None \<longleftrightarrow>
    k = 0 \<or> length recent < l \<or> (\<forall>s. \<not> occurs_at h (drop (length recent - l) recent) s)"
proof -
  let ?key = "drop (length recent - l) recent"
  have "lookup_draft h recent l k = None \<longleftrightarrow> (\<forall>d. lookup_draft h recent l k \<noteq> Some d)"
    by auto
  also have "\<dots> \<longleftrightarrow> k = 0 \<or> length recent < l \<or> (\<forall>s. \<not> latest_occ h ?key s)"
    unfolding lookup_draft_eq_Some by (auto simp add: not_less not_le)
  also have "(\<forall>s. \<not> latest_occ h ?key s) \<longleftrightarrow> (\<forall>s. \<not> occurs_at h ?key s)"
    using latest_occ_ex [of h ?key] unfolding latest_occ_iff by blast
  finally show ?thesis .
qed

lemma lookup_draft_bounds:
  assumes "lookup_draft h recent l k = Some d"
  shows "d \<noteq> [] \<and> length d \<le> k \<and> set d \<subseteq> set h"
  using assms
  by (auto simp: lookup_draft_eq_Some latest_occ_def occurs_at_def dest: in_set_takeD in_set_dropD)

lemma first_some_Some:
  "first_some f xs = Some y \<longleftrightarrow>
    (\<exists>us x vs. xs = us @ x # vs \<and> f x = Some y \<and> (\<forall>u\<in>set us. f u = None))"
proof
  show "first_some f xs = Some y \<Longrightarrow>
    \<exists>us x vs. xs = us @ x # vs \<and> f x = Some y \<and> (\<forall>u\<in>set us. f u = None)"
  proof (induction xs)
    case (Cons a xs)
    show ?case
    proof (cases "f a")
      case None
      then obtain us x vs where "xs = us @ x # vs" "f x = Some y" "\<forall>u\<in>set us. f u = None"
        using Cons by auto
      then show ?thesis using None by (intro exI [of _ "a # us"] exI [of _ x] exI [of _ vs]) simp
    next
      case (Some b)
      then show ?thesis using Cons.prems by (intro exI [of _ "[]"]) simp
    qed
  qed simp
next
  assume "\<exists>us x vs. xs = us @ x # vs \<and> f x = Some y \<and> (\<forall>u\<in>set us. f u = None)"
  then obtain us x vs where "xs = us @ x # vs" "f x = Some y" "\<forall>u\<in>set us. f u = None" by auto
  moreover have "\<forall>u\<in>set us. f u = None \<Longrightarrow> f x = Some y \<Longrightarrow>
      first_some f (us @ x # vs) = Some y"
    by (induction us) auto
  ultimately show "first_some f xs = Some y" by simp
qed

lemma first_some_None: "first_some f xs = None \<longleftrightarrow> (\<forall>x\<in>set xs. f x = None)"
  by (induction xs) (auto split: option.splits)

lemma set_draft_lens [simp]: "l \<in> set (draft_lens m) \<longleftrightarrow> 2 \<le> l \<and> l \<le> max m 2"
  by (auto simp: draft_lens_def)

lemma sorted_draft_lens: "sorted_wrt (>) (draft_lens m)"
  by (simp add: draft_lens_def sorted_wrt_rev)

lemma first_some_desc:
  fixes xs :: "nat list"
  assumes "sorted_wrt (>) xs"
  shows "first_some f xs = Some y \<longleftrightarrow>
    (\<exists>x\<in>set xs. f x = Some y \<and> (\<forall>u\<in>set xs. x < u \<longrightarrow> f u = None))"
proof
  assume "first_some f xs = Some y"
  then obtain us x vs where x: "xs = us @ x # vs" "f x = Some y" "\<forall>u\<in>set us. f u = None"
    by (auto simp: first_some_Some)
  have "\<forall>u\<in>set vs. u < x" using assms x(1) by (simp add: sorted_wrt_append)
  then show "\<exists>x\<in>set xs. f x = Some y \<and> (\<forall>u\<in>set xs. x < u \<longrightarrow> f u = None)"
    using x by (intro bexI [of _ x]) auto
next
  assume "\<exists>x\<in>set xs. f x = Some y \<and> (\<forall>u\<in>set xs. x < u \<longrightarrow> f u = None)"
  then obtain x where x: "x \<in> set xs" "f x = Some y" "\<forall>u\<in>set xs. x < u \<longrightarrow> f u = None" by auto
  then obtain us vs where s: "xs = us @ x # vs" by (meson split_list)
  then have "\<forall>u\<in>set us. x < u" using assms by (simp add: sorted_wrt_append)
  then show "first_some f xs = Some y" using x s by (auto simp: first_some_Some)
qed

section \<open>Continuations of an n-gram\<close>

text \<open>
  \<^verbatim>\<open>count\<close> and \<^verbatim>\<open>last_seen\<close> are hash maps.  Only the first is iterated
  over, and the order Rust hands its entries out in is not fixed: \<open>ho\<close> is that order,
  a permutation.  The sort is stable and orders by falling count, then by falling
  last start.
\<close>

fun count_conts ::
  "token list \<Rightarrow> token list \<Rightarrow> nat list \<Rightarrow>
   (token \<times> nat) list \<times> (token \<times> nat) list \<Rightarrow> (token \<times> nat) list \<times> (token \<times> nat) list" where
  "count_conts h key [] acc = acc"
| "count_conts h key (start # ss) (cnts, last_seen) =
    (if subslice h start (start + length key) = key
     then (let nxt = h ! (start + length key);
               c = (case map_of cnts nxt of Some n \<Rightarrow> n | None \<Rightarrow> 0)
           in count_conts h key ss (al_put nxt (c + 1) cnts, al_put nxt start last_seen))
     else count_conts h key ss (cnts, last_seen))"

definition cont_rank :: "(token \<times> nat) list \<Rightarrow> token \<times> nat \<Rightarrow> int \<times> int" where
  "cont_rank last_seen tc = (- int (snd tc), - int (the (map_of last_seen (fst tc))))"

definition ngram_continuations ::
  "((token \<times> nat) list \<Rightarrow> (token \<times> nat) list) \<Rightarrow> token list \<Rightarrow> token list \<Rightarrow> nat \<Rightarrow> (token \<times> nat) list" where
  "ngram_continuations ho h key branch =
    (let l = length key in
     if l = 0 \<or> length h \<le> l \<or> branch = 0 then []
     else (let (cnts, last_seen) = count_conts h key [0 ..< Suc (length h - l - 1)] ([], [])
           in take branch (sort_key (cont_rank last_seen) (ho cnts))))"

fun best_scan ::
  "((token \<times> nat) list \<Rightarrow> (token \<times> nat) list) \<Rightarrow> token list \<Rightarrow> token list \<Rightarrow> nat \<Rightarrow> nat list \<Rightarrow>
   (token \<times> nat) list" where
  "best_scan ho h recent branch [] = []"
| "best_scan ho h recent branch (l # ls) =
    (if length recent < l then best_scan ho h recent branch ls
     else (let c = ngram_continuations ho h (drop (length recent - l) recent) branch
           in if c \<noteq> [] then c else best_scan ho h recent branch ls))"

definition best_continuations ::
  "((token \<times> nat) list \<Rightarrow> (token \<times> nat) list) \<Rightarrow> token list \<Rightarrow> token list \<Rightarrow> nat \<Rightarrow> nat \<Rightarrow>
   (token \<times> nat) list" where
  "best_continuations ho h recent max_len branch = best_scan ho h recent branch (draft_lens max_len)"

section \<open>Draft trees\<close>

record tree_node =
  tn_token :: token
  tn_parent :: nat
  tn_depth :: nat

text \<open>
  \<open>path_after_root\<close> follows the parent links until it meets index 0.  The loop of the
  source has no bound of its own, so it carries fuel here; \<open>None\<close> stands for
  not having come back after that many steps, or for an index out of range.
\<close>

fun path_up :: "tree_node list \<Rightarrow> nat \<Rightarrow> nat \<Rightarrow> token list option" where
  "path_up nodes fuel idx =
    (if idx = 0 then Some []
     else case fuel of
       0 \<Rightarrow> None
     | Suc f \<Rightarrow>
        (if idx < length nodes
         then (case path_up nodes f (tn_parent (nodes ! idx)) of
                 None \<Rightarrow> None
               | Some ts \<Rightarrow> Some (tn_token (nodes ! idx) # ts))
         else None))"

declare path_up.simps [simp del]

definition path_after_root :: "tree_node list \<Rightarrow> nat \<Rightarrow> token list option" where
  "path_after_root nodes idx = map_option rev (path_up nodes (length nodes) idx)"

text \<open>
  Scores are \<^verbatim>\<open>f64\<close> products; \<open>rnd\<close> rounds an exact result to the nearest
  double, as every operation of IEEE 754 does.  \<^verbatim>\<open>max_by\<close> returns the last of
  several maxima.
\<close>

fun max_by_last :: "('a \<Rightarrow> rat) \<Rightarrow> 'a list \<Rightarrow> nat \<Rightarrow> nat \<Rightarrow> rat \<Rightarrow> nat" where
  "max_by_last f [] i bi bv = bi"
| "max_by_last f (x # xs) i bi bv =
    (if f x < bv then max_by_last f xs (Suc i) bi bv else max_by_last f xs (Suc i) i (f x))"

definition best_frontier :: "(rat \<times> nat) list \<Rightarrow> nat" where
  "best_frontier fr = max_by_last fst (tl fr) 1 0 (fst (hd fr))"

fun push_children ::
  "(rat \<Rightarrow> rat) \<Rightarrow> nat \<Rightarrow> rat \<Rightarrow> nat \<Rightarrow> nat \<Rightarrow> (token \<times> nat) list \<Rightarrow>
   tree_node list \<times> (rat \<times> nat) list \<Rightarrow> tree_node list \<times> (rat \<times> nat) list" where
  "push_children rnd max_nodes score idx tot [] nf = nf"
| "push_children rnd max_nodes score idx tot ((tok, cnt) # cs) (nodes, fr) =
    (if max_nodes \<le> length nodes then (nodes, fr)
     else push_children rnd max_nodes score idx tot cs
       (nodes @ [\<lparr>tn_token = tok, tn_parent = idx, tn_depth = tn_depth (nodes ! idx) + 1\<rparr>],
        fr @ [(rnd (score * rnd (of_nat cnt / of_nat tot)), length nodes)]))"

lemma push_children_len:
  "push_children rnd m score idx tot cs (nodes, fr) = (nodes', fr') \<Longrightarrow>
     length nodes' + length fr = length nodes + length fr' \<and> length nodes \<le> length nodes' \<and>
     length nodes' \<le> max (length nodes) m"
proof (induction cs arbitrary: nodes fr)
  case (Cons c cs)
  obtain t n where c: "c = (t, n)" by (cases c)
  show ?case
  proof (cases "m \<le> length nodes")
    case False
    then show ?thesis using Cons.prems Cons.IH [of "nodes @ [\<lparr>tn_token = t, tn_parent = idx, tn_depth = tn_depth (nodes ! idx) + 1\<rparr>]"
        "fr @ [(rnd (score * rnd (of_nat n / of_nat tot)), length nodes)]"] c by simp
  qed (use Cons.prems c in simp)
qed simp

lemma max_by_last_bound: "bi < n + length xs \<Longrightarrow> bi \<le> n \<Longrightarrow> max_by_last f xs n bi bv < n + length xs"
proof (induction xs arbitrary: n bi bv)
  case (Cons x xs)
  show ?case
    using Cons.prems Cons.IH [of bi "Suc n" bv] Cons.IH [of n "Suc n" "f x"]
    by (cases "length xs = 0") (auto split: if_splits)
qed simp

lemma best_frontier_bound: "fr \<noteq> [] \<Longrightarrow> best_frontier fr < length fr"
  using max_by_last_bound [of 0 1 "tl fr" fst "fst (hd fr)"]
  by (cases fr) (auto simp: best_frontier_def)

function tree_loop ::
  "(rat \<Rightarrow> rat) \<Rightarrow> ((token \<times> nat) list \<Rightarrow> (token \<times> nat) list) \<Rightarrow> token list \<Rightarrow> token list \<Rightarrow> nat \<Rightarrow> nat \<Rightarrow> nat \<Rightarrow>
   tree_node list \<Rightarrow> (rat \<times> nat) list \<Rightarrow> tree_node list option" where
  "tree_loop rnd ho h recent max_len branch max_nodes nodes fr =
    (if length nodes < max_nodes \<and> fr \<noteq> [] then
       (let bi = best_frontier fr;
            score = fst (fr ! bi);
            idx = snd (fr ! bi);
            fr' = take bi fr @ drop (Suc bi) fr
        in case path_after_root nodes idx of
             None \<Rightarrow> None
           | Some p \<Rightarrow>
               (let conts = best_continuations ho h (recent @ p) max_len branch;
                    tot = max (sum_list (map snd conts)) 1;
                    nf = push_children rnd max_nodes score idx tot conts (nodes, fr')
                in tree_loop rnd ho h recent max_len branch max_nodes (fst nf) (snd nf)))
     else Some nodes)"
  by pat_completeness auto

termination
proof (relation "measure (\<lambda>(rnd, ho, h, recent, max_len, branch, max_nodes, nodes, fr).
    length fr + (max_nodes - length nodes))", goal_cases)
  case (2 rnd ho h recent max_len branch max_nodes nodes fr bi score idx fr' p conts tot nf)
  obtain n' f' where nf: "nf = (n', f')" by (cases nf)
  have "length n' + length fr' = length nodes + length f' \<and> length nodes \<le> length n' \<and> length n' \<le> max (length nodes) max_nodes"
    using 2 nf push_children_len by metis
  moreover have "Suc (length fr') = length fr"
    using best_frontier_bound [of fr] 2 by simp
  ultimately have "length f' + (max_nodes - length n') < length fr + (max_nodes - length nodes)"
    using 2(1) by linarith
  then show ?case by (simp add: nf del: push_children.simps)
qed simp

declare tree_loop.simps [simp del]

definition lookup_tree ::
  "(rat \<Rightarrow> rat) \<Rightarrow> ((token \<times> nat) list \<Rightarrow> (token \<times> nat) list) \<Rightarrow> token list \<Rightarrow> token list \<Rightarrow> nat \<Rightarrow> nat \<Rightarrow> nat \<Rightarrow>
   tree_node list option" where
  "lookup_tree rnd ho h recent max_len branch max_nodes =
    (if recent = [] then Some []
     else (let tree = [\<lparr>tn_token = last recent, tn_parent = 0, tn_depth = 0\<rparr>]
           in if max_nodes \<le> 1 \<or> branch = 0 then Some tree
              else tree_loop rnd ho h recent max_len branch max_nodes tree [(1, 0)]))"

definition child_of :: "tree_node list \<Rightarrow> nat \<Rightarrow> token \<Rightarrow> nat option" where
  "child_of nodes cur want =
     find (\<lambda>i. i \<noteq> 0 \<and> tn_parent (nodes ! i) = cur \<and> tn_token (nodes ! i) = want) [0 ..< length nodes]"

fun accept_walk :: "tree_node list \<Rightarrow> nat \<Rightarrow> token list \<Rightarrow> nat" where
  "accept_walk nodes cur [] = 0"
| "accept_walk nodes cur (want # ts) =
    (case child_of nodes cur want of
       Some i \<Rightarrow> Suc (accept_walk nodes i ts)
     | None \<Rightarrow> 0)"

definition tree_accept :: "tree_node list \<Rightarrow> token list \<Rightarrow> nat" where
  "tree_accept nodes target = (if nodes = [] then 0 else accept_walk nodes 0 target)"

section \<open>Greedy verification\<close>

fun argmax_scan :: "f32 list \<Rightarrow> nat \<Rightarrow> nat \<Rightarrow> f32 \<Rightarrow> nat" where
  "argmax_scan [] i bi bv = bi"
| "argmax_scan (x # xs) i bi bv =
    (if f32_lt bv x then argmax_scan xs (Suc i) i x else argmax_scan xs (Suc i) bi bv)"

text \<open>The index is cast to \<^verbatim>\<open>u32\<close>.\<close>

definition argmax :: "f32 list \<Rightarrow> token" where
  "argmax v = argmax_scan v 0 0 NegInf mod 2 ^ 32"

record verify_result =
  vr_accepted :: nat
  vr_bonus :: token

text \<open>
  The loop over the drafts: \<open>Inl\<close> is the early return of the first disagreement,
  \<open>Inr\<close> the count when the loop is left.
\<close>

fun verify_loop :: "token list \<Rightarrow> f32 list list \<Rightarrow> nat \<Rightarrow> nat \<Rightarrow> verify_result + nat" where
  "verify_loop [] rows i acc = Inr acc"
| "verify_loop (d # ds) rows i acc =
    (if length rows \<le> i then Inr acc
     else (let arg = argmax (rows ! i)
           in if arg = d then verify_loop ds rows (Suc i) (acc + 1)
              else Inl \<lparr>vr_accepted = acc, vr_bonus = arg\<rparr>))"

definition verify_drafts :: "token list \<Rightarrow> f32 list list \<Rightarrow> verify_result" where
  "verify_drafts drafts rows =
    (case verify_loop drafts rows 0 0 of
       Inl r \<Rightarrow> r
     | Inr acc \<Rightarrow> \<lparr>vr_accepted = acc, vr_bonus = (if rows = [] then 0 else argmax (last rows))\<rparr>)"

section \<open>What the n-gram counts hold\<close>

text \<open>The places below \<open>n\<close> where \<open>key\<close> is followed by \<open>t\<close>.\<close>

definition follow_starts :: "token list \<Rightarrow> token list \<Rightarrow> nat \<Rightarrow> token \<Rightarrow> nat list" where
  "follow_starts h key n t =
     filter (\<lambda>s. subslice h s (s + length key) = key \<and> h ! (s + length key) = t) [0 ..< n]"

lemma follow_starts_Suc:
  "follow_starts h key (Suc n) t =
    (if subslice h n (n + length key) = key \<and> h ! (n + length key) = t
     then follow_starts h key n t @ [n] else follow_starts h key n t)"
  by (simp add: follow_starts_def)

lemma count_conts_append:
  "count_conts h key (ss @ ts) acc = count_conts h key ts (count_conts h key ss acc)"
proof (induction ss arbitrary: acc)
  case (Cons a ss)
  then show ?case by (cases acc) (simp add: Let_def)
qed simp

lemma count_conts_ok:
  "count_conts h key ss (cnts, ls) = (cnts', ls') \<Longrightarrow> al_ok cnts \<Longrightarrow> al_ok cnts'"
  by (induction ss arbitrary: cnts ls) (auto simp: Let_def split: if_splits)

lemma count_conts_inv:
  assumes "count_conts h key [0 ..< n] ([], []) = (cnts, ls)"
  shows "(\<forall>t. map_of cnts t = (if follow_starts h key n t = [] then None
                         else Some (length (follow_starts h key n t)))) \<and>
    (\<forall>t. follow_starts h key n t \<noteq> [] \<longrightarrow> map_of ls t = Some (last (follow_starts h key n t)))"
  using assms
proof (induction n arbitrary: cnts ls)
  case 0
  then show ?case by (simp add: follow_starts_def)
next
  case (Suc n)
  obtain c l where cl: "count_conts h key [0 ..< n] ([], []) = (c, l)" by fastforce
  note IH = Suc.IH [OF cl]
  have "count_conts h key [n] (c, l) = (cnts, ls)"
    using Suc.prems cl by (simp add: count_conts_append)
  then show ?case using IH by (auto simp: follow_starts_Suc Let_def split: if_splits)
qed

lemma follow_starts_bound: "s \<in> set (follow_starts h key n t) \<Longrightarrow> s < n \<and> subslice h s (s + length key) = key \<and> h ! (s + length key) = t"
  by (auto simp: follow_starts_def)

lemma rank_inj:
  assumes "count_conts h key [0 ..< n] ([], []) = (cnts, ls)"
  shows "inj_on (cont_rank ls) (set cnts)"
proof (rule inj_onI)
  fix x y assume xy: "x \<in> set cnts" "y \<in> set cnts" and eq: "cont_rank ls x = cont_rank ls y"
  note inv = count_conts_inv [OF assms]
  have *: "map_of ls (fst z) = Some (last (follow_starts h key n (fst z))) \<and> follow_starts h key n (fst z) \<noteq> []"
    if "z \<in> set cnts" for z
  proof -
    have "al_ok cnts" using count_conts_ok [OF assms] by simp
    then have "map_of cnts (fst z) = Some (snd z)" using that by simp
    then show ?thesis using inv by (metis option.distinct(1))
  qed
  have "last (follow_starts h key n (fst x)) = last (follow_starts h key n (fst y))"
    using eq * [OF xy(1)] * [OF xy(2)] by (simp add: cont_rank_def)
  then have "fst x = fst y"
    using * [OF xy(1)] * [OF xy(2)] follow_starts_bound by (metis last_in_set)
  moreover have "snd x = snd y" using eq by (simp add: cont_rank_def)
  ultimately show "x = y" by (rule prod_eqI)
qed

definition hash_order :: "((token \<times> nat) list \<Rightarrow> (token \<times> nat) list) \<Rightarrow> bool" where
  "hash_order ho = (\<forall>xs. mset (ho xs) = mset xs)"

lemma ngram_ho_irrelevant:
  assumes "hash_order ho"
  shows "ngram_continuations ho h key branch = ngram_continuations id h key branch"
proof -
  obtain cnts ls where c: "count_conts h key [0 ..< Suc (length h - length key - 1)] ([], []) = (cnts, ls)"
    by fastforce
  have m: "mset (ho cnts) = mset cnts" using assms by (simp add: hash_order_def)
  then have s: "set (ho cnts) = set cnts" by (rule mset_eq_setD)
  have "sort_key (cont_rank ls) (ho cnts) = sort_key (cont_rank ls) cnts"
  proof (rule sort_key_inj_key_eq)
    show "mset (ho cnts) = mset (sort_key (cont_rank ls) cnts)" using m by simp
    show "inj_on (cont_rank ls) (set (ho cnts))" using rank_inj [OF c] s by simp
  qed simp
  then show ?thesis using c by (simp add: ngram_continuations_def Let_def del: upt_Suc)
qed

lemma ngram_sound:
  assumes "(t, c) \<in> set (ngram_continuations id h key branch)"
  shows "\<exists>s. occurs_at h key s \<and> h ! (s + length key) = t"
    and "c = length (follow_starts h key (length h - length key) t)" and "0 < c"
proof -
  let ?n = "Suc (length h - length key - 1)"
  obtain cnts ls where cc: "count_conts h key [0 ..< ?n] ([], []) = (cnts, ls)"
    by fastforce
  have g: "length key < length h"
    using assms by (auto simp: ngram_continuations_def Let_def not_le split: if_splits)
  then have n: "?n = length h - length key" by simp
  have "(t, c) \<in> set cnts"
    using assms cc
    by (auto simp: ngram_continuations_def Let_def simp del: upt_Suc dest!: in_set_takeD split: if_splits)
  then have "map_of cnts t = Some c" using count_conts_ok [OF cc] by simp
  then have f: "c = length (follow_starts h key ?n t)" "follow_starts h key ?n t \<noteq> []"
    using count_conts_inv [OF cc] by (auto split: if_splits)
  then show "c = length (follow_starts h key (length h - length key) t)" "0 < c" using n by auto
  obtain s where "s \<in> set (follow_starts h key ?n t)" using f(2) by fastforce
  from follow_starts_bound [OF this]
  show "\<exists>s. occurs_at h key s \<and> h ! (s + length key) = t"
    using g unfolding occurs_at_def n by (intro exI [of _ s]) auto
qed

lemma ngram_distinct: "distinct (map fst (ngram_continuations id h key branch))"
proof -
  obtain cnts ls where cc: "count_conts h key [0 ..< Suc (length h - length key - 1)] ([], []) = (cnts, ls)"
    by fastforce
  have "distinct (map fst cnts)" using count_conts_ok [OF cc] by simp
  then have "distinct (map fst (sort_key (cont_rank ls) cnts))"
    by (metis mset_map mset_sort mset_eq_imp_distinct_iff)
  then show ?thesis
    using cc by (simp add: ngram_continuations_def Let_def take_map [symmetric] del: upt_Suc)
qed

lemma ngram_length: "length (ngram_continuations ho h key branch) \<le> branch"
  by (simp add: ngram_continuations_def Let_def split: prod.split)

lemma best_scan_cases:
  "best_scan ho h recent branch ls = [] \<or>
   (\<exists>l\<in>set ls. l \<le> length recent \<and>
      best_scan ho h recent branch ls = ngram_continuations ho h (drop (length recent - l) recent) branch)"
  by (induction ls) (auto simp: Let_def)

lemma best_distinct: "hash_order ho \<Longrightarrow> distinct (map fst (best_continuations ho h recent ml branch))"
  using best_scan_cases [of ho h recent branch "draft_lens ml"] ngram_distinct
  by (auto simp: best_continuations_def ngram_ho_irrelevant)

lemma best_sound:
  assumes "hash_order ho" "(t, c) \<in> set (best_continuations ho h recent ml branch)"
  shows "\<exists>l\<ge>2. l \<le> length recent \<and> (\<exists>s. occurs_at h (drop (length recent - l) recent) s \<and> h ! (s + l) = t)"
proof -
  obtain l where l: "l \<in> set (draft_lens ml)" "l \<le> length recent"
    "(t, c) \<in> set (ngram_continuations id h (drop (length recent - l) recent) branch)"
    using best_scan_cases [of ho h recent branch "draft_lens ml"] assms
    by (auto simp: best_continuations_def ngram_ho_irrelevant)
  have "length (drop (length recent - l) recent) = l" using l(2) by simp
  then show ?thesis using ngram_sound(1) [OF l(3)] l by (intro exI [of _ l]) auto
qed

section \<open>Well-formed draft trees\<close>

definition tree_wf :: "tree_node list \<Rightarrow> bool" where
  "tree_wf ns =
    (ns \<noteq> [] \<and> tn_parent (ns ! 0) = 0 \<and> tn_depth (ns ! 0) = 0 \<and>
     (\<forall>i<length ns. 0 < i \<longrightarrow> tn_parent (ns ! i) < i \<and> tn_depth (ns ! i) = Suc (tn_depth (ns ! tn_parent (ns ! i)))) \<and>
     (\<forall>i<length ns. \<forall>j<length ns. 0 < i \<longrightarrow> 0 < j \<longrightarrow> i \<noteq> j \<longrightarrow>
        tn_parent (ns ! i) = tn_parent (ns ! j) \<longrightarrow> tn_token (ns ! i) \<noteq> tn_token (ns ! j)))"

lemma tree_wfD [inv_elims]:
  assumes "tree_wf ns"
  shows "ns \<noteq> []"
    and "\<And>i. i < length ns \<Longrightarrow> 0 < i \<Longrightarrow> tn_parent (ns ! i) < i"
    and "\<And>i. i < length ns \<Longrightarrow> 0 < i \<Longrightarrow> tn_depth (ns ! i) = Suc (tn_depth (ns ! tn_parent (ns ! i)))"
    and "tn_depth (ns ! 0) = 0"
    and "\<And>i j. i < length ns \<Longrightarrow> j < length ns \<Longrightarrow> 0 < i \<Longrightarrow> 0 < j \<Longrightarrow>
        tn_parent (ns ! i) = tn_parent (ns ! j) \<Longrightarrow> tn_token (ns ! i) = tn_token (ns ! j) \<Longrightarrow> i = j"
  using assms unfolding tree_wf_def by blast+

lemma path_up_wf:
  assumes "tree_wf ns"
  shows "i < length ns \<Longrightarrow> \<exists>p. length p = tn_depth (ns ! i) \<and> (\<forall>f\<ge>i. path_up ns f i = Some p)"
proof (induction i rule: less_induct)
  case (less i)
  show ?case
  proof (cases "i = 0")
    case True
    then show ?thesis using tree_wfD(4) [OF assms] by (simp add: path_up.simps)
  next
    case False
    let ?j = "tn_parent (ns ! i)"
    have j: "?j < i" using tree_wfD(2) [OF assms less.prems] False by simp
    then obtain q where q: "length q = tn_depth (ns ! ?j)" "\<And>f. ?j \<le> f \<Longrightarrow> path_up ns f ?j = Some q"
      using less.IH [OF j] less.prems by auto
    have "path_up ns f i = Some (tn_token (ns ! i) # q)" if "i \<le> f" for f
    proof -
      have f': "f = Suc (f - 1)" using that False by simp
      have "path_up ns (f - 1) ?j = Some q" using q(2) [of "f - 1"] j that by simp
      then show ?thesis using False less.prems f'
        by (subst path_up.simps) (auto split: nat.split)
    qed
    moreover have "length (tn_token (ns ! i) # q) = tn_depth (ns ! i)"
      using tree_wfD(3) [OF assms less.prems] False q(1) by simp
    ultimately show ?thesis by blast
  qed
qed

lemma path_root [simp]: "path_after_root ns 0 = Some []"
  by (simp add: path_after_root_def path_up.simps)

lemma path_wf_Some:
  "tree_wf ns \<Longrightarrow> i < length ns \<Longrightarrow> \<exists>p. path_after_root ns i = Some p \<and> length p = tn_depth (ns ! i)"
  using path_up_wf [of ns i] by (auto simp: path_after_root_def)

lemma path_child:
  assumes "tree_wf ns" "i < length ns" "0 < i" "path_after_root ns (tn_parent (ns ! i)) = Some p"
  shows "path_after_root ns i = Some (p @ [tn_token (ns ! i)])"
proof -
  let ?j = "tn_parent (ns ! i)"
  have j: "?j < i" using tree_wfD(2) assms by blast
  then obtain q where q: "\<And>f. ?j \<le> f \<Longrightarrow> path_up ns f ?j = Some q"
    using path_up_wf [OF assms(1), of ?j] assms(2) by auto
  have "p = rev q" using assms(4) q [of "length ns"] j assms(2) by (simp add: path_after_root_def)
  moreover obtain n where n: "length ns = Suc n" using assms(2) by (cases "length ns") auto
  moreover have "path_up ns n ?j = Some q" using q [of n] j assms(2) n by simp
  ultimately show ?thesis
    using assms(2,3) by (simp add: path_after_root_def) (subst path_up.simps, simp)
qed

lemma path_up_append:
  "tree_wf ns \<Longrightarrow> i < length ns \<Longrightarrow> path_up (ns @ ms) f i = path_up ns f i"
proof (induction f arbitrary: i)
  case 0
  then show ?case by (simp add: path_up.simps)
next
  case (Suc f)
  show ?case
  proof (cases "i = 0")
    case True
    then show ?thesis by (simp add: path_up.simps)
  next
    case False
    have "tn_parent (ns ! i) < length ns" using tree_wfD(2) [OF Suc.prems] False Suc.prems(2) by simp
    then show ?thesis
      using Suc.IH [OF Suc.prems(1)] Suc.prems(2) False
      by (subst (1 2) path_up.simps) (simp add: nth_append split: option.split)
  qed
qed

lemma path_append:
  assumes "tree_wf ns" "i < length ns"
  shows "path_after_root (ns @ ms) i = path_after_root ns i"
proof -
  obtain p where "\<And>f. i \<le> f \<Longrightarrow> path_up ns f i = Some p" using path_up_wf [OF assms] by auto
  then show ?thesis
    using assms by (simp add: path_after_root_def path_up_append [OF assms])
qed

text \<open>A node is grounded when its token follows, somewhere in the history, an n-gram that ends
  the context extended by the path to its parent.\<close>

definition follows_ngram :: "token list \<Rightarrow> token list \<Rightarrow> token \<Rightarrow> bool" where
  "follows_ngram h ctx t = (\<exists>l\<ge>2. l \<le> length ctx \<and>
     (\<exists>s. occurs_at h (drop (length ctx - l) ctx) s \<and> h ! (s + l) = t))"

definition grounded :: "token list \<Rightarrow> token list \<Rightarrow> tree_node list \<Rightarrow> bool" where
  "grounded h recent ns = (\<forall>i<length ns. 0 < i \<longrightarrow>
     (\<exists>p. path_after_root ns (tn_parent (ns ! i)) = Some p \<and> follows_ngram h (recent @ p) (tn_token (ns ! i))))"

definition loop_inv :: "token list \<Rightarrow> token list \<Rightarrow> tree_node list \<Rightarrow> (rat \<times> nat) list \<Rightarrow> bool" where
  "loop_inv h recent ns fr =
    (tree_wf ns \<and> grounded h recent ns \<and> distinct (map snd fr) \<and> (\<forall>x\<in>set fr. snd x < length ns) \<and>
     (\<forall>i<length ns. 0 < i \<longrightarrow> tn_parent (ns ! i) \<notin> snd ` set fr))"

lemma tree_wf_snoc:
  assumes "tree_wf ns" "idx < length ns"
    and "\<forall>i<length ns. 0 < i \<longrightarrow> tn_parent (ns ! i) = idx \<longrightarrow> tn_token (ns ! i) \<noteq> t"
  shows "tree_wf (ns @ [\<lparr>tn_token = t, tn_parent = idx, tn_depth = Suc (tn_depth (ns ! idx))\<rparr>])"
proof -
  have ne: "ns \<noteq> []" using assms(1) by (rule tree_wfD)
  have par: "tn_parent (ns ! i) < length ns" if "i < length ns" "0 < i" for i
    using tree_wfD(2) [OF assms(1) that] that by simp
  show ?thesis
    unfolding tree_wf_def
  proof (intro conjI allI impI, goal_cases)
    case (4 i)
    then show ?case using assms(2) tree_wfD(2) [OF assms(1), of i] by (cases "i < length ns") (auto simp: nth_append)
  next
    case (5 i)
    then show ?case using assms(2) tree_wfD(3) [OF assms(1), of i] par [of i]
      by (cases "i < length ns") (auto simp: nth_append)
  next
    case (6 i j)
    show ?case
    proof (cases "i < length ns \<and> j < length ns")
      case True
      then show ?thesis using 6 tree_wfD(5) [OF assms(1), of i j] by (auto simp: nth_append)
    next
      case False
      then show ?thesis using 6 assms(3)
        by (cases "i < length ns"; cases "j < length ns") (auto simp: nth_append less_Suc_eq)
    qed
  qed (use ne assms(1) in \<open>auto simp: nth_append tree_wf_def\<close>)
qed

lemma children_inv:
  assumes "tree_wf ns" "grounded h recent ns" "idx < length ns" "path_after_root ns idx = Some p"
    and "distinct (map fst cs)" "\<forall>c\<in>set cs. follows_ngram h (recent @ p) (fst c)"
    and "\<forall>i<length ns. 0 < i \<longrightarrow> tn_parent (ns ! i) = idx \<longrightarrow> tn_token (ns ! i) \<notin> fst ` set cs"
    and "distinct (map snd fr)" "\<forall>x\<in>set fr. snd x < length ns" "idx \<notin> snd ` set fr"
    and "\<forall>i<length ns. 0 < i \<longrightarrow> tn_parent (ns ! i) \<notin> snd ` set fr"
    and "push_children rnd m score idx tot cs (ns, fr) = (ns', fr')"
  shows "loop_inv h recent ns' fr' \<and> ns' ! 0 = ns ! 0"
  using assms
proof (induction cs arbitrary: ns fr)
  case Nil
  then show ?case by (simp add: loop_inv_def)
next
  case (Cons c cs)
  obtain t n where c: "c = (t, n)" by (cases c)
  show ?case
  proof (cases "m \<le> length ns")
    case True
    then show ?thesis using Cons.prems c by (simp add: loop_inv_def)
  next
    case False
    let ?nd = "\<lparr>tn_token = t, tn_parent = idx, tn_depth = Suc (tn_depth (ns ! idx))\<rparr>"
    let ?ns = "ns @ [?nd]"
    let ?fr = "fr @ [(rnd (score * rnd (of_nat n / of_nat tot)), length ns)]"
    have ne: "ns \<noteq> []" using Cons.prems(3) by auto
    have par: "tn_parent (ns ! i) < length ns" if "i < length ns" "0 < i" for i
      using tree_wfD(2) [OF Cons.prems(1) that] that by simp
    have par': "tn_parent (ns ! i) \<noteq> length ns" if "i < length ns" "0 < i" for i
      using par [OF that] by simp
    have wf: "tree_wf ?ns"
      using Cons.prems(7) c by (intro tree_wf_snoc Cons.prems) auto
    have gr: "grounded h recent ?ns"
      unfolding grounded_def
    proof (intro allI impI)
      fix i assume i: "i < length ?ns" "0 < i"
      show "\<exists>p. path_after_root ?ns (tn_parent (?ns ! i)) = Some p \<and> follows_ngram h (recent @ p) (tn_token (?ns ! i))"
      proof (cases "i < length ns")
        case True
        then show ?thesis
          using i(2) Cons.prems(2) par [OF True i(2)]
          by (simp add: grounded_def nth_append path_append [OF Cons.prems(1)])
      next
        case False
        then have "i = length ns" using i by simp
        then show ?thesis
          using Cons.prems(3,4,6) c by (simp add: path_append [OF Cons.prems(1)])
      qed
    qed
    have "loop_inv h recent ns' fr' \<and> ns' ! 0 = ?ns ! 0"
    proof (rule Cons.IH [OF wf gr])
      show "path_after_root ?ns idx = Some p" using Cons.prems(3,4) by (simp add: path_append [OF Cons.prems(1)])
      show "distinct (map fst cs)" "\<forall>c\<in>set cs. follows_ngram h (recent @ p) (fst c)"
        using Cons.prems(5,6) by auto
      show "\<forall>i<length ?ns. 0 < i \<longrightarrow> tn_parent (?ns ! i) = idx \<longrightarrow> tn_token (?ns ! i) \<notin> fst ` set cs"
        using Cons.prems(5,7) c by (auto simp: nth_append less_Suc_eq)
      show "distinct (map snd ?fr)" "\<forall>x\<in>set ?fr. snd x < length ?ns"
        using Cons.prems(8,9) by (auto simp: less_Suc_eq image_iff)
      show "idx \<notin> snd ` set ?fr" using Cons.prems(3,10) by auto
      show "\<forall>i<length ?ns. 0 < i \<longrightarrow> tn_parent (?ns ! i) \<notin> snd ` set ?fr"
        using Cons.prems(3,10,11) par' by (auto simp: nth_append less_Suc_eq)
      show "push_children rnd m score idx tot cs (?ns, ?fr) = (ns', fr')"
        using Cons.prems(12) False c by simp
    qed (use Cons.prems(3) in simp)
    then show ?thesis using ne by (simp add: nth_append)
  qed
qed

lemma tree_loop_inv:
  "hash_order ho \<Longrightarrow> loop_inv h recent ns fr \<Longrightarrow>
    \<exists>t. tree_loop rnd ho h recent ml branch m ns fr = Some t \<and>
        tree_wf t \<and> grounded h recent t \<and> length t \<le> max (length ns) m \<and> t ! 0 = ns ! 0"
proof (induction rnd ho h recent ml branch m ns fr rule: tree_loop.induct)
  case (1 rnd ho h recent ml branch m ns fr)
  show ?case
  proof (cases "length ns < m \<and> fr \<noteq> []")
    case False
    then show ?thesis using 1(3) by (auto simp: tree_loop.simps loop_inv_def)
  next
    case True
    let ?bi = "best_frontier fr"
    let ?idx = "snd (fr ! ?bi)"
    let ?fr = "take ?bi fr @ drop (Suc ?bi) fr"
    have bi: "?bi < length fr" using best_frontier_bound True by blast
    have frs: "fr = take ?bi fr @ fr ! ?bi # drop (Suc ?bi) fr" using bi by (rule id_take_nth_drop)
    have inv: "tree_wf ns" "grounded h recent ns" "distinct (map snd fr)" "\<forall>x\<in>set fr. snd x < length ns"
      "\<forall>i<length ns. 0 < i \<longrightarrow> tn_parent (ns ! i) \<notin> snd ` set fr"
      using 1(3) by (auto simp: loop_inv_def)
    have idx: "?idx < length ns" "?idx \<in> snd ` set fr" using inv(4) bi by auto
    obtain p where p: "path_after_root ns ?idx = Some p" using path_wf_Some [OF inv(1) idx(1)] by auto
    define conts where "conts = best_continuations ho h (recent @ p) ml branch"
    define tot where "tot = max (sum_list (map snd conts)) 1"
    obtain ns' fr' where nf: "push_children rnd m (fst (fr ! ?bi)) ?idx tot conts (ns, ?fr) = (ns', fr')"
      by fastforce
    have dist: "distinct (map snd (take ?bi fr @ fr ! ?bi # drop (Suc ?bi) fr))"
      using inv(3) frs by simp
    have sub: "set ?fr \<subseteq> set fr" by (auto dest: in_set_takeD in_set_dropD)
    have c1: "distinct (map fst conts)" unfolding conts_def by (rule best_distinct [OF 1(2)])
    have c2: "\<forall>c\<in>set conts. follows_ngram h (recent @ p) (fst c)"
      using best_sound [OF 1(2)] unfolding conts_def follows_ngram_def by (metis prod.collapse)
    have c3: "\<forall>i<length ns. 0 < i \<longrightarrow> tn_parent (ns ! i) = ?idx \<longrightarrow> tn_token (ns ! i) \<notin> fst ` set conts"
      using inv(5) idx(2) by metis
    have d: "distinct (map snd ?fr)" "?idx \<notin> snd ` set ?fr"
      using dist by (auto simp del: append_take_drop_id)
    have e: "\<forall>x\<in>set ?fr. snd x < length ns" "\<forall>i<length ns. 0 < i \<longrightarrow> tn_parent (ns ! i) \<notin> snd ` set ?fr"
      using sub inv(4,5) by blast+
    have step: "loop_inv h recent ns' fr' \<and> ns' ! 0 = ns ! 0"
      by (rule children_inv [OF inv(1,2) idx(1) p c1 c2 c3 d(1) e(1) d(2) e(2) nf])
    have len: "length ns' \<le> max (length ns) m" "length ns \<le> length ns'" using push_children_len [OF nf] by auto
    have eq: "tree_loop rnd ho h recent ml branch m ns fr = tree_loop rnd ho h recent ml branch m ns' fr'"
      using True p nf by (subst tree_loop.simps) (simp add: Let_def conts_def tot_def)
    show ?thesis
      using 1(1) [OF True refl refl refl refl p refl refl refl] 1(2) step len nf
      by (auto simp: eq conts_def tot_def)
  qed
qed

section \<open>The acceptance walk\<close>

lemma find_Some_iff': "find P xs = Some x \<Longrightarrow> x \<in> set xs \<and> P x"
  by (auto simp: find_Some_iff)

lemma child_of_Some:
  "tree_wf ns \<Longrightarrow> child_of ns cur want = Some i \<longleftrightarrow>
     0 < i \<and> i < length ns \<and> tn_parent (ns ! i) = cur \<and> tn_token (ns ! i) = want"
proof
  assume "child_of ns cur want = Some i"
  from find_Some_iff' [OF this [unfolded child_of_def]]
  show "0 < i \<and> i < length ns \<and> tn_parent (ns ! i) = cur \<and> tn_token (ns ! i) = want" by auto
next
  assume wf: "tree_wf ns" and i: "0 < i \<and> i < length ns \<and> tn_parent (ns ! i) = cur \<and> tn_token (ns ! i) = want"
  show "child_of ns cur want = Some i"
  proof (cases "child_of ns cur want")
    case None
    then have "\<not> (i \<in> set [0..<length ns] \<and> i \<noteq> 0 \<and> tn_parent (ns ! i) = cur \<and> tn_token (ns ! i) = want)"
      by (auto simp: child_of_def find_None_iff)
    then show ?thesis using i by simp
  next
    case (Some j)
    from find_Some_iff' [OF this [unfolded child_of_def]]
    have "0 < j" "j < length ns" "tn_parent (ns ! j) = cur" "tn_token (ns ! j) = want" by auto
    then have "i = j" using tree_wfD(5) [OF wf, of i j] i by simp
    then show ?thesis using Some by simp
  qed
qed

lemma path_unique:
  assumes wf: "tree_wf ns"
  shows "i < length ns \<Longrightarrow> j < length ns \<Longrightarrow> path_after_root ns i = Some p \<Longrightarrow>
    path_after_root ns j = Some p \<Longrightarrow> i = j"
proof (induction p arbitrary: i j rule: rev_induct)
  case Nil
  have "tn_depth (ns ! k) = 0 \<Longrightarrow> k < length ns \<Longrightarrow> k = 0" for k
    using tree_wfD(3) [OF wf, of k] by (cases k) auto
  then show ?case using Nil path_wf_Some [OF wf, of i] path_wf_Some [OF wf, of j] by auto
next
  case (snoc t p)
  have nz: "0 < i" "0 < j" using snoc.prems(3,4) by (cases i, auto) (cases j, auto)
  have step: "path_after_root ns (tn_parent (ns ! k)) = Some p \<and> tn_token (ns ! k) = t \<and> tn_parent (ns ! k) < length ns"
    if k: "0 < k" "k < length ns" "path_after_root ns k = Some (p @ [t])" for k
  proof -
    have j: "tn_parent (ns ! k) < k" using tree_wfD(2) [OF wf] k by blast
    then obtain q where "path_after_root ns (tn_parent (ns ! k)) = Some q"
      using path_wf_Some [OF wf, of "tn_parent (ns ! k)"] k by auto
    then show ?thesis using path_child [OF wf k(2,1)] k j by auto
  qed
  show ?case
    using step [OF nz(1) snoc.prems(1,3)] step [OF nz(2) snoc.prems(2,4)] snoc.IH
      tree_wfD(5) [OF wf snoc.prems(1,2) nz] by metis
qed

lemma path_snoc_Some:
  assumes wf: "tree_wf ns" and i: "i < length ns" "path_after_root ns i = Some (p @ [t])"
  shows "0 < i \<and> path_after_root ns (tn_parent (ns ! i)) = Some p \<and> tn_token (ns ! i) = t"
proof -
  have nz: "0 < i" using i(2) by (cases i) auto
  have "tn_parent (ns ! i) < i" using tree_wfD(2) [OF wf] i nz by blast
  then obtain q where "path_after_root ns (tn_parent (ns ! i)) = Some q"
    using path_wf_Some [OF wf, of "tn_parent (ns ! i)"] i by auto
  then show ?thesis using path_child [OF wf i(1) nz] i nz by auto
qed

lemma path_prefix_ex:
  assumes wf: "tree_wf ns"
  shows "i < length ns \<Longrightarrow> path_after_root ns i = Some (p @ q) \<Longrightarrow>
    \<exists>j<length ns. path_after_root ns j = Some p"
proof (induction q arbitrary: i rule: rev_induct)
  case (snoc t q)
  have "path_after_root ns i = Some ((p @ q) @ [t])" using snoc.prems(2) by simp
  from path_snoc_Some [OF wf snoc.prems(1) this]
  have "0 < i" "path_after_root ns (tn_parent (ns ! i)) = Some (p @ q)" by auto
  moreover have "tn_parent (ns ! i) < length ns"
    using tree_wfD(2) [OF wf snoc.prems(1)] calculation(1) snoc.prems(1) by simp
  ultimately show ?case using snoc.IH by blast
qed auto

lemma accept_walk_correct:
  assumes wf: "tree_wf ns"
  shows "cur < length ns \<Longrightarrow> path_after_root ns cur = Some p \<Longrightarrow>
    accept_walk ns cur ts \<le> length ts \<and>
    (\<exists>i<length ns. path_after_root ns i = Some (p @ take (accept_walk ns cur ts) ts)) \<and>
    (\<forall>m\<le>length ts. (\<exists>i<length ns. path_after_root ns i = Some (p @ take m ts)) \<longrightarrow> m \<le> accept_walk ns cur ts)"
proof (induction ts arbitrary: cur p)
  case (Cons t ts)
  show ?case
  proof (cases "child_of ns cur t")
    case None
    have "\<not> (\<exists>i<length ns. path_after_root ns i = Some (p @ take m (t # ts)))" if "0 < m" for m
    proof
      assume "\<exists>i<length ns. path_after_root ns i = Some (p @ take m (t # ts))"
      then obtain j where j: "j < length ns" "path_after_root ns j = Some (p @ [t])"
        using path_prefix_ex [OF wf, of _ "p @ [t]" "take (m - 1) ts"] \<open>0 < m\<close> by (cases m) auto
      from path_snoc_Some [OF wf j] have s: "0 < j" "path_after_root ns (tn_parent (ns ! j)) = Some p" "tn_token (ns ! j) = t"
        by auto
      have "tn_parent (ns ! j) = cur"
        using path_unique [OF wf _ Cons.prems(1) s(2) Cons.prems(2)] tree_wfD(2) [OF wf j(1) s(1)] j(1) by simp
      then show False using child_of_Some [OF wf, of cur t j] None s j by simp
    qed
    then show ?thesis using None Cons.prems by (auto simp: not_le intro: ccontr)
  next
    case (Some i)
    then have i: "0 < i" "i < length ns" "tn_parent (ns ! i) = cur" "tn_token (ns ! i) = t"
      using child_of_Some [OF wf] by auto
    have "path_after_root ns i = Some (p @ [t])"
      using path_child [OF wf i(2,1)] i Cons.prems(2) by simp
    from Cons.IH [OF i(2) this]
    have *: "accept_walk ns i ts \<le> length ts"
      "\<exists>j<length ns. path_after_root ns j = Some (p @ t # take (accept_walk ns i ts) ts)"
      "\<And>m. m \<le> length ts \<Longrightarrow> \<exists>j<length ns. path_after_root ns j = Some (p @ t # take m ts) \<Longrightarrow> m \<le> accept_walk ns i ts"
      by auto
    have "m \<le> Suc (accept_walk ns i ts)"
      if "m \<le> Suc (length ts)" "\<exists>j<length ns. path_after_root ns j = Some (p @ take m (t # ts))" for m
      using *(3) [of "m - 1"] that by (cases m) auto
    then show ?thesis using Some * by auto
  qed
qed auto

section \<open>Greedy continuation and verification\<close>

text \<open>The greedy continuation of a context under a model that maps a context to its next token.\<close>

fun greedy :: "(token list \<Rightarrow> token) \<Rightarrow> token list \<Rightarrow> nat \<Rightarrow> token list" where
  "greedy lm ctx 0 = []"
| "greedy lm ctx (Suc n) = lm ctx # greedy lm (ctx @ [lm ctx]) n"

lemma length_greedy [simp]: "length (greedy lm ctx n) = n"
  by (induction n arbitrary: ctx) auto

lemma greedy_append: "greedy lm ctx (m + n) = greedy lm ctx m @ greedy lm (ctx @ greedy lm ctx m) n"
  by (induction m arbitrary: ctx) auto

lemma greedy_Suc_append: "greedy lm ctx (Suc n) = greedy lm ctx n @ [lm (ctx @ greedy lm ctx n)]"
  using greedy_append [of lm ctx n 1] by simp

lemma take_greedy: "take m (greedy lm ctx n) = greedy lm ctx (min m n)"
proof (induction n arbitrary: m ctx)
  case (Suc n)
  then show ?case by (cases m) auto
qed simp

text \<open>The rows a batched forward of the drafts returns.\<close>

definition rows_of :: "(token list \<Rightarrow> f32 list) \<Rightarrow> token list \<Rightarrow> token list \<Rightarrow> f32 list list" where
  "rows_of model ctx drafts = map (\<lambda>i. model (ctx @ take i drafts)) [0 ..< Suc (length drafts)]"

lemma rows_of_nth [simp]: "i \<le> length ds \<Longrightarrow> rows_of model ctx ds ! i = model (ctx @ take i ds)"
  by (simp add: rows_of_def del: upt_Suc)

lemma length_rows_of [simp]: "length (rows_of model ctx ds) = Suc (length ds)"
  by (simp add: rows_of_def)

lemma verify_loop_greedy:
  assumes "length rows = Suc (i + length ds)"
    and "\<forall>j\<le>length ds. rows ! (i + j) = model (ctx @ take j ds)"
  shows "(case verify_loop ds rows i acc of
       Inl r \<Rightarrow> acc \<le> vr_accepted r \<and> vr_accepted r - acc < length ds \<and>
         take (vr_accepted r - acc) ds @ [vr_bonus r] = greedy (argmax \<circ> model) ctx (Suc (vr_accepted r - acc)) \<and>
         vr_bonus r \<noteq> ds ! (vr_accepted r - acc)
     | Inr n \<Rightarrow> n = acc + length ds \<and> ds = greedy (argmax \<circ> model) ctx (length ds))"
  using assms
proof (induction ds arbitrary: i acc ctx)
  case (Cons d ds)
  have r0: "rows ! i = model ctx" using Cons.prems(2) by (auto dest: spec [of _ 0])
  have li: "i < length rows" using Cons.prems(1) by simp
  show ?case
  proof (cases "argmax (model ctx) = d")
    case True
    have "\<forall>j\<le>length ds. rows ! (Suc i + j) = model ((ctx @ [d]) @ take j ds)"
      using Cons.prems(2) by (auto dest: spec [of _ "Suc _"])
    then have IH: "(case verify_loop ds rows (Suc i) (acc + 1) of
       Inl r \<Rightarrow> acc + 1 \<le> vr_accepted r \<and> vr_accepted r - (acc + 1) < length ds \<and>
         take (vr_accepted r - (acc + 1)) ds @ [vr_bonus r] = greedy (argmax \<circ> model) (ctx @ [d]) (Suc (vr_accepted r - (acc + 1))) \<and>
         vr_bonus r \<noteq> ds ! (vr_accepted r - (acc + 1))
     | Inr n \<Rightarrow> n = acc + 1 + length ds \<and> ds = greedy (argmax \<circ> model) (ctx @ [d]) (length ds))"
      using Cons.prems(1) by (intro Cons.IH) auto
    have red: "verify_loop (d # ds) rows i acc = verify_loop ds rows (Suc i) (acc + 1)"
      using True li r0 by simp
    show ?thesis
    proof (cases "verify_loop ds rows (Suc i) (acc + 1)")
      case (Inl r)
      then obtain k where k: "vr_accepted r - acc = Suc k" "vr_accepted r - (acc + 1) = k"
        using IH by (cases "vr_accepted r - acc") auto
      then show ?thesis using IH Inl True red by auto
    next
      case (Inr n)
      then show ?thesis using IH True red by auto
    qed
  next
    case False
    then show ?thesis using li r0 by (simp add: Let_def)
  qed
qed simp

lemma verify_drafts_cases:
  assumes "rows = rows_of model ctx ds" "r = verify_drafts ds rows"
  shows "vr_accepted r \<le> length ds"
    and "take (vr_accepted r) ds @ [vr_bonus r] = greedy (argmax \<circ> model) ctx (Suc (vr_accepted r))"
    and "vr_accepted r < length ds \<Longrightarrow> vr_bonus r \<noteq> ds ! vr_accepted r"
proof -
  have lp: "case verify_loop ds rows 0 0 of
       Inl r \<Rightarrow> 0 \<le> vr_accepted r \<and> vr_accepted r - 0 < length ds \<and>
         take (vr_accepted r - 0) ds @ [vr_bonus r] = greedy (argmax \<circ> model) ctx (Suc (vr_accepted r - 0)) \<and>
         vr_bonus r \<noteq> ds ! (vr_accepted r - 0)
     | Inr n \<Rightarrow> n = 0 + length ds \<and> ds = greedy (argmax \<circ> model) ctx (length ds)"
    using assms(1) by (intro verify_loop_greedy) auto
  have "last rows = model (ctx @ ds)" using assms(1) by (simp add: rows_of_def)
  moreover have "rows \<noteq> []" using assms(1) by (simp add: rows_of_def)
  ultimately have all: "vr_accepted r \<le> length ds \<and>
     take (vr_accepted r) ds @ [vr_bonus r] = greedy (argmax \<circ> model) ctx (Suc (vr_accepted r)) \<and>
     (vr_accepted r < length ds \<longrightarrow> vr_bonus r \<noteq> ds ! vr_accepted r)"
  proof (cases "verify_loop ds rows 0 0")
    case (Inl q)
    then show ?thesis using lp assms(2) by (simp add: verify_drafts_def)
  next
    case (Inr n)
    then have "ds = greedy (argmax \<circ> model) ctx (length ds)" "n = length ds" using lp by auto
    then show ?thesis
      using assms(2) Inr \<open>last rows = _\<close> \<open>rows \<noteq> []\<close>
      by (simp add: verify_drafts_def greedy_Suc_append del: greedy.simps)
  qed
  then show "vr_accepted r \<le> length ds"
    "take (vr_accepted r) ds @ [vr_bonus r] = greedy (argmax \<circ> model) ctx (Suc (vr_accepted r))"
    "vr_accepted r < length ds \<Longrightarrow> vr_bonus r \<noteq> ds ! vr_accepted r"
    by blast+
qed

lemma best_ho_irrelevant:
  "hash_order ho \<Longrightarrow> best_continuations ho h recent ml branch = best_continuations id h recent ml branch"
proof -
  assume ho: "hash_order ho"
  have "best_scan ho h recent branch ls = best_scan id h recent branch ls" for ls
    by (induction ls) (simp_all only: best_scan.simps ngram_ho_irrelevant [OF ho])
  then show ?thesis by (simp add: best_continuations_def)
qed

lemma tree_loop_ho_irrelevant:
  "hash_order ho \<Longrightarrow>
    tree_loop rnd ho h recent ml branch m ns fr = tree_loop rnd id h recent ml branch m ns fr"
proof (induction rnd ho h recent ml branch m ns fr rule: tree_loop.induct)
  case (1 rnd ho h recent ml branch m ns fr)
  note best = best_ho_irrelevant [OF 1(2)]
  show ?case
  proof (cases "length ns < m \<and> fr \<noteq> []")
    case True
    show ?thesis
    proof (cases "path_after_root ns (snd (fr ! best_frontier fr))")
      case None
      then show ?thesis by (subst (1 2) tree_loop.simps) (simp add: Let_def)
    next
      case (Some p)
      note step = 1(1) [OF True refl refl refl refl Some refl refl refl 1(2)]
      show ?thesis
        using True Some step unfolding best
        by (subst (1 2) tree_loop.simps) (simp only: Let_def best if_True option.case)
    qed
  next
    case False
    then show ?thesis by (subst (1 2) tree_loop.simps) (simp only: if_False)
  qed
qed

lemma loop_inv_start:
  "loop_inv h recent [\<lparr>tn_token = t, tn_parent = 0, tn_depth = 0\<rparr>] [(1, 0)]"
  by (simp add: loop_inv_def tree_wf_def grounded_def)

section \<open>The properties of the drafting module\<close>

text \<open>
  prompt lookup returns a draft exactly when, for some n-gram length from 2 up to
  \<open>max_len\<close>, the end of \<open>recent\<close> occurs earlier in the history with something after it;
  the draft is then what follows the latest such occurrence of the longest such n-gram,
  cut to \<open>k\<close> tokens.
\<close>

theorem lookup_draft_best_correct:
  "lookup_draft_best h recent max_len k = Some d \<longleftrightarrow>
    0 < k \<and>
    (\<exists>l\<in>{2..max max_len 2}. l \<le> length recent \<and>
      (\<exists>s. latest_occ h (drop (length recent - l) recent) s \<and> d = take k (drop (s + l) h)) \<and>
      (\<forall>l'\<in>{l<..max max_len 2}. l' \<le> length recent \<longrightarrow>
         (\<forall>s. \<not> occurs_at h (drop (length recent - l') recent) s)))"
proof (cases "k = 0")
  case True
  then show ?thesis
    by (simp add: lookup_draft_best_def first_some_desc [OF sorted_draft_lens] lookup_draft_def)
next
  case False
  have none: "lookup_draft h recent l' k = None \<longleftrightarrow> (l' \<le> length recent \<longrightarrow>
      (\<forall>s. \<not> occurs_at h (drop (length recent - l') recent) s))" for l'
    using False by (auto simp: lookup_draft_eq_None)
  have mem: "set (draft_lens max_len) = {2..max max_len 2}" by auto
  have up: "(\<forall>u\<in>{2..max max_len 2}. l < u \<longrightarrow> P u) = (\<forall>u\<in>{l<..max max_len 2}. P u)"
    if "l \<in> {2..max max_len 2}" for l and P :: "nat \<Rightarrow> bool"
    using that by auto
  have "lookup_draft_best h recent max_len k = Some d \<longleftrightarrow>
    (\<exists>l\<in>{2..max max_len 2}. lookup_draft h recent l k = Some d \<and>
       (\<forall>u\<in>{l<..max max_len 2}. lookup_draft h recent u k = None))"
    unfolding lookup_draft_best_def first_some_desc [OF sorted_draft_lens] mem
    by (intro bex_cong refl conj_cong up)
  then show ?thesis unfolding none lookup_draft_eq_Some using False by simp
qed

theorem lookup_draft_best_correct_witness:
  "lookup_draft_best [99, 1, 2, 3, 70, 80] [5, 2, 3] 3 5 = Some [70, 80] \<and>
   (\<exists>l\<in>{2..max 3 2}. l \<le> 3 \<and> (\<exists>s. latest_occ [99, 1, 2, 3, 70, 80] (drop (3 - l) [5, 2, 3]) s))"
proof -
  have *: "lookup_draft_best [99, 1, 2, 3, 70, 80] [5, 2, 3] 3 5 = Some [70, 80]"
    by (simp add: lookup_draft_best_def draft_lens_def lookup_draft_def subslice_def eval_nat_numeral)
  obtain l where "l \<in> {2..max 3 2}" "l \<le> length [5, 2, 3 :: nat]"
    "\<exists>s. latest_occ [99, 1, 2, 3, 70, 80] (drop (length [5, 2, 3 :: nat] - l) [5, 2, 3]) s"
    using iffD1 [OF lookup_draft_best_correct *] by blast
  then show ?thesis using * by (intro conjI bexI [of _ l]) (simp_all add: numeral_3_eq_3)
qed

text \<open>
  C32: tree drafting terminates with a tree whatever the order the hash map is iterated in
  and however products are rounded; the tree does not depend on that order.  It has at
  most \<open>max_nodes\<close> nodes, its root is the last committed token, every other node has an
  earlier parent, one level up, siblings differ, and every token follows an n-gram
  of the history that ends the context extended by the node's own path.
\<close>

theorem lookup_tree_correct:
  assumes "hash_order ho" "recent \<noteq> []"
  shows "\<exists>t. lookup_tree rnd ho h recent max_len branch max_nodes = Some t \<and>
    lookup_tree rnd id h recent max_len branch max_nodes = Some t \<and>
    tree_wf t \<and> length t \<le> max 1 max_nodes \<and> tn_token (t ! 0) = last recent \<and> grounded h recent t"
proof (cases "max_nodes \<le> 1 \<or> branch = 0")
  case True
  then show ?thesis using assms(2) loop_inv_start [of h recent "last recent"]
    by (simp add: lookup_tree_def loop_inv_def max_def)
next
  case False
  have start: "loop_inv h recent [\<lparr>tn_token = last recent, tn_parent = 0, tn_depth = 0\<rparr>] [(1, 0)]"
    by (rule loop_inv_start)
  show ?thesis
    using False assms(2) tree_loop_inv [OF assms(1) start, of rnd max_len branch max_nodes]
    by (auto simp: lookup_tree_def tree_loop_ho_irrelevant [OF assms(1)])
qed

theorem lookup_tree_correct_witness:
  "\<exists>t. lookup_tree id rev [1, 2, 3, 1, 2, 4] [1, 2] 2 2 4 = Some t \<and> tree_wf t"
  using lookup_tree_correct [of rev "[1, 2]" id "[1, 2, 3, 1, 2, 4]" 2 2 4]
  by (auto simp: hash_order_def)

text \<open>
  on a well-formed tree, acceptance counts exactly the longest prefix of the model's
  continuation that is a path from the root: such a path exists, and no longer prefix is one.
\<close>

theorem tree_accept_longest:
  assumes "tree_wf t"
  shows "tree_accept t target \<le> length target \<and>
    (\<exists>i<length t. path_after_root t i = Some (take (tree_accept t target) target)) \<and>
    (\<forall>m\<le>length target. (\<exists>i<length t. path_after_root t i = Some (take m target)) \<longrightarrow>
       m \<le> tree_accept t target)"
  using accept_walk_correct [OF assms, of 0 "[]" target] tree_wfD(1) [OF assms]
  by (simp add: tree_accept_def)

definition sample_tree :: "tree_node list" where
  "sample_tree = [\<lparr>tn_token = 2, tn_parent = 0, tn_depth = 0\<rparr>, \<lparr>tn_token = 4, tn_parent = 0, tn_depth = 1\<rparr>,
     \<lparr>tn_token = 3, tn_parent = 0, tn_depth = 1\<rparr>, \<lparr>tn_token = 9, tn_parent = 2, tn_depth = 2\<rparr>]"

theorem tree_accept_longest_witness:
  "tree_accept sample_tree [3, 9, 8] = 2 \<and> (\<exists>i<4. path_after_root sample_tree i = Some [3, 9])"
proof -
  have wf: "tree_wf sample_tree"
    by (auto simp: tree_wf_def sample_tree_def less_Suc_eq numeral_eq_Suc)
  have "tree_accept sample_tree [3, 9, 8] = 2"
    by (simp add: tree_accept_def sample_tree_def child_of_def numeral_eq_Suc)
  then show ?thesis
    using tree_accept_longest [OF wf, of "[3, 9, 8]"] by (auto simp: sample_tree_def eval_nat_numeral)
qed

text \<open>
  verifying a draft against the logits of the model commits exactly what greedy
  decoding would have produced: the accepted drafts and the bonus token are the next
  tokens of the greedy continuation, and verification stops only where the draft leaves it.
\<close>

theorem verify_drafts_greedy:
  assumes "rows = rows_of model ctx drafts"
  shows "let r = verify_drafts drafts rows in
    vr_accepted r \<le> length drafts \<and>
    take (vr_accepted r) drafts @ [vr_bonus r] = greedy (argmax \<circ> model) ctx (Suc (vr_accepted r)) \<and>
    (vr_accepted r < length drafts \<longrightarrow> vr_bonus r \<noteq> drafts ! vr_accepted r)"
  using verify_drafts_cases [OF assms refl] by (simp add: Let_def del: greedy.simps)

theorem verify_drafts_greedy_witness:
  "verify_drafts [1, 0] (rows_of (\<lambda>ctx. if last ctx = 1 then [Fin 0, Fin 1] else [Fin 0, Fin (1/2), NaN]) [0] [1, 0])
     = \<lparr>vr_accepted = 1, vr_bonus = 1\<rparr>
   \<and> [1, 1] = greedy (argmax \<circ> (\<lambda>ctx. if last ctx = 1 then [Fin 0, Fin 1] else [Fin 0, Fin (1/2), NaN])) [0] 2"
proof -
  let ?m = "\<lambda>ctx. if last ctx = (1 :: nat) then [Fin 0, Fin 1] else [Fin 0, Fin (1/2), NaN]"
  have v: "verify_drafts [1, 0] (rows_of ?m [0] [1, 0]) = \<lparr>vr_accepted = 1, vr_bonus = 1\<rparr>"
    by (simp add: verify_drafts_def rows_of_def argmax_def)
  show ?thesis
    using verify_drafts_greedy [OF refl, where model = ?m and ctx = "[0]" and drafts = "[1, 0]"] unfolding v Let_def
    by (simp add: v numeral_2_eq_2 del: greedy.simps)
qed

end
