(* ===== verification/Sampling.thy ===== *)
theory Sampling
  imports Prelude "HOL-Library.Word"
begin

text \<open>
  Host-side sampling of the GPU path (\<^verbatim>\<open>src/backend/gpu/sampling.rs\<close>): the
  per-step seed, the uniform draw, and the top-k/top-p sampler over the
  candidates the kernel returns.  Seeds are 32-bit words.  The rounding of
  \<^verbatim>\<open>f32\<close> arithmetic in the sampler is the parameter \<open>ops\<close>; the draw
  itself is computed exactly.
\<close>

unbundle bit_operations_syntax

definition step_seed :: "32 word \<Rightarrow> 32 word \<Rightarrow> 32 word" where
  "step_seed base gen_idx = base + gen_idx * 0x9E3779B1"

record sampling_params =
  sp_temp :: f32
  sp_top_k :: nat
  sp_top_p :: f32

definition greedy_params :: sampling_params where
  "greedy_params = \<lparr>sp_temp = Fin 0, sp_top_k = 0, sp_top_p = Fin 1\<rparr>"

definition temperature_params :: "f32 \<Rightarrow> sampling_params" where
  "temperature_params t = \<lparr>sp_temp = t, sp_top_k = 0, sp_top_p = Fin 1\<rparr>"

definition f32_le :: "f32 \<Rightarrow> f32 \<Rightarrow> bool" where
  "f32_le x y = (x \<noteq> NaN \<and> y \<noteq> NaN \<and> \<not> f32_lt y x)"

definition needs_topk :: "sampling_params \<Rightarrow> bool" where
  "needs_topk p = (0 < sp_top_k p \<or> (f32_lt (Fin 0) (sp_top_p p) \<and> f32_lt (sp_top_p p) (Fin 1)))"

section \<open>The uniform draw\<close>

definition splitmix :: "32 word \<Rightarrow> 64 word" where
  "splitmix seed =
    (let z0 = (ucast seed :: 64 word) * 0x9E3779B97F4A7C15 + 0x9E3779B97F4A7C15;
         z1 = (z0 XOR drop_bit 30 z0) * 0xBF58476D1CE4E5B9;
         z2 = (z1 XOR drop_bit 27 z1) * 0x94D049BB133111EB
     in z2 XOR drop_bit 31 z2)"

text \<open>
  \<^verbatim>\<open>x as f32 + 0.5\<close> for an integer \<open>x\<close> below \<open>2 ^ 24\<close>: exact below \<open>2 ^ 23\<close>,
  from there on rounded to the even neighbour.  The result counts halves.
\<close>

definition plus_half :: "nat \<Rightarrow> nat" where
  "plus_half x = (if x < 2 ^ 23 then 2 * x + 1 else if even x then 2 * x else 2 * (x + 1))"

definition unit_draw :: "64 word \<Rightarrow> rat" where
  "unit_draw z = (of_nat (plus_half (unat (drop_bit 40 z))) / 2) / 16777216"

definition rng01 :: "32 word \<Rightarrow> f32" where
  "rng01 seed = Fin (unit_draw (splitmix seed))"

section \<open>Top-k and nucleus sampling\<close>

record f32_ops =
  f_sub :: "f32 \<Rightarrow> f32 \<Rightarrow> f32"
  f_div :: "f32 \<Rightarrow> f32 \<Rightarrow> f32"
  f_add :: "f32 \<Rightarrow> f32 \<Rightarrow> f32"
  f_mul :: "f32 \<Rightarrow> f32 \<Rightarrow> f32"
  f_exp :: "f32 \<Rightarrow> f32"

definition f_sum :: "f32_ops \<Rightarrow> f32 list \<Rightarrow> f32" where
  "f_sum ops xs = foldl (f_add ops) (Fin 0) xs"

fun nucleus :: "f32_ops \<Rightarrow> f32 \<Rightarrow> f32 list \<Rightarrow> nat \<Rightarrow> f32 \<Rightarrow> nat option" where
  "nucleus ops top_p [] i cum = None"
| "nucleus ops top_p (p # ps) i cum =
    (let cum' = f_add ops cum p
     in if f32_le top_p cum' then Some (i + 1) else nucleus ops top_p ps (i + 1) cum')"

fun draw_index :: "f32_ops \<Rightarrow> f32 \<Rightarrow> f32 list \<Rightarrow> nat \<Rightarrow> f32 \<Rightarrow> nat option" where
  "draw_index ops target [] i acc = None"
| "draw_index ops target (p # ps) i acc =
    (let acc' = f_add ops acc p
     in if f32_le target acc' then Some i else draw_index ops target ps (i + 1) acc')"

text \<open>\<open>None\<close> is the panic of an index that is out of range.\<close>

definition nth_opt :: "'a list \<Rightarrow> nat \<Rightarrow> 'a option" where
  "nth_opt xs i = (if i < length xs then Some (xs ! i) else None)"

definition usable :: "f32 list \<Rightarrow> token list \<Rightarrow> nat" where
  "usable vals idxs = min (length (takeWhile (f32_lt (Fin (- (3 * 10 ^ 37)))) vals)) (length idxs)"

definition topk_cap :: "sampling_params \<Rightarrow> nat \<Rightarrow> nat" where
  "topk_cap params n = (if sp_top_k params = 0 then n else min (sp_top_k params) n)"

definition sample_topk :: "f32_ops \<Rightarrow> f32 list \<Rightarrow> token list \<Rightarrow> sampling_params \<Rightarrow> 32 word \<Rightarrow> token option" where
  "sample_topk ops vals idxs params seed =
    (let n = usable vals idxs in
     if n = 0 then nth_opt idxs 0
     else if f32_le (sp_temp params) (Fin 0) then nth_opt idxs 0
     else
       (let kk = topk_cap params n;
            maxv = vals ! 0;
            raw = map (\<lambda>i. f_exp ops (f_div ops (f_sub ops (vals ! i) maxv) (sp_temp params))) [0 ..< kk];
            z = f_sum ops raw;
            probs = map (\<lambda>p. f_div ops p z) raw;
            cut = (if f32_lt (Fin 0) (sp_top_p params) \<and> f32_lt (sp_top_p params) (Fin 1)
                   then (case nucleus ops (sp_top_p params) probs 0 (Fin 0) of Some c \<Rightarrow> c | None \<Rightarrow> kk)
                   else kk);
            zc = f_sum ops (take cut probs);
            target = f_mul ops (rng01 seed) zc
        in case draw_index ops target (take cut probs) 0 (Fin 0) of
             Some i \<Rightarrow> nth_opt idxs i
           | None \<Rightarrow> nth_opt idxs (cut - 1)))"

section \<open>Bounds\<close>

lemma unat_drop40: "unat (drop_bit 40 (z :: 64 word)) < 2 ^ 24"
proof -
  have "unat z < 2 ^ 64" using unsigned_less [of z, where ?'a = nat] by simp
  then have "unat z div 2 ^ 40 < 2 ^ 24" by (simp add: less_mult_imp_div_less)
  then show ?thesis unfolding unat_drop_bit_eq by (simp add: drop_bit_eq_div)
qed

lemma plus_half_bounds: "x < 2 ^ 24 \<Longrightarrow> 0 < plus_half x \<and> plus_half x \<le> 2 ^ 25"
  by (auto simp: plus_half_def)

lemma nucleus_bound: "nucleus ops tp ps i cum = Some c \<Longrightarrow> i < c \<and> c \<le> i + length ps"
  by (induction ps arbitrary: i cum) (fastforce simp: Let_def split: if_splits)+

lemma draw_bound: "draw_index ops t ps i acc = Some c \<Longrightarrow> i \<le> c \<and> c < i + length ps"
  by (induction ps arbitrary: i acc) (fastforce simp: Let_def split: if_splits)+

lemma plus_half_top: "x < 2 ^ 24 \<Longrightarrow> plus_half x = 2 ^ 25 \<longleftrightarrow> x = 2 ^ 24 - 1"
  unfolding plus_half_def by (simp split: if_split) presburger

text \<open>
  the draw lies in the half-open interval from 0 (excluded) to 1 (included), and it is 1
  exactly when the top 24 bits of the mixed seed are all ones: the sum of the largest
  integer and one half rounds up.
\<close>

theorem rng01_range:
  "\<exists>u. rng01 seed = Fin u \<and> 0 < u \<and> u \<le> 1 \<and> (u = 1 \<longleftrightarrow> unat (drop_bit 40 (splitmix seed)) = 2 ^ 24 - 1)"
proof -
  let ?x = "unat (drop_bit 40 (splitmix seed))"
  have x: "?x < 2 ^ 24" by (rule unat_drop40)
  have b: "0 < plus_half ?x" "plus_half ?x \<le> 2 ^ 25" using plus_half_bounds [OF x] by auto
  have u: "unit_draw (splitmix seed) = of_nat (plus_half ?x) / 2 ^ 25" by (simp add: unit_draw_def)
  have "(of_nat (plus_half ?x) :: rat) \<le> of_nat (2 ^ 25)" using b(2) by (simp only: of_nat_le_iff)
  moreover have "(of_nat (plus_half ?x) = (of_nat (2 ^ 25) :: rat)) \<longleftrightarrow> plus_half ?x = 2 ^ 25"
    by (simp only: of_nat_eq_iff)
  ultimately show ?thesis
    using b(1) plus_half_top [OF x]
    by (intro exI [of _ "of_nat (plus_half ?x) / 2 ^ 25"]) (simp add: rng01_def u)
qed

theorem rng01_one: "rng01 1869153 = Fin 1"
  by (simp add: rng01_def unit_draw_def splitmix_def plus_half_def)

text \<open>
  sampling from a non-empty candidate list never indexes out of range and returns one of the
  first \<open>topk_cap\<close> usable candidates; with temperature at most 0 it returns the first.
\<close>

theorem sample_topk_range:
  assumes "idxs \<noteq> []"
  shows "\<exists>t. sample_topk ops vals idxs params seed = Some t \<and>
    t \<in> set (take (max 1 (topk_cap params (usable vals idxs))) idxs) \<and>
    (f32_le (sp_temp params) (Fin 0) \<longrightarrow> t = hd idxs)"
proof -
  let ?n = "usable vals idxs" and ?kk = "topk_cap params (usable vals idxs)"
  have n: "?n \<le> length idxs" by (simp add: usable_def)
  have pick: "nth_opt idxs i = Some (idxs ! i) \<and> idxs ! i \<in> set (take (max 1 ?kk) idxs)"
    if "i < max 1 ?kk" "i < length idxs" for i
    using that by (auto simp: nth_opt_def in_set_conv_nth intro!: exI [of _ i])
  show ?thesis
  proof (cases "?n = 0 \<or> f32_le (sp_temp params) (Fin 0)")
    case True
    then have "sample_topk ops vals idxs params seed = nth_opt idxs 0"
      by (auto simp: sample_topk_def Let_def)
    then show ?thesis using pick [of 0] assms by (simp add: hd_conv_nth)
  next
    case False
    have kk: "0 < ?kk" "?kk \<le> length idxs" using False n by (auto simp: topk_cap_def)
    define raw where "raw = map (\<lambda>i. f_exp ops (f_div ops (f_sub ops (vals ! i) (vals ! 0)) (sp_temp params))) [0 ..< ?kk]"
    define probs where "probs = map (\<lambda>p. f_div ops p (f_sum ops raw)) raw"
    define cut where "cut = (if f32_lt (Fin 0) (sp_top_p params) \<and> f32_lt (sp_top_p params) (Fin 1)
        then (case nucleus ops (sp_top_p params) probs 0 (Fin 0) of Some c \<Rightarrow> c | None \<Rightarrow> ?kk) else ?kk)"
    define target where "target = f_mul ops (rng01 seed) (f_sum ops (take cut probs))"
    have c: "sample_topk ops vals idxs params seed =
        (case draw_index ops target (take cut probs) 0 (Fin 0) of Some i \<Rightarrow> nth_opt idxs i | None \<Rightarrow> nth_opt idxs (cut - 1))"
      using False unfolding sample_topk_def Let_def target_def cut_def probs_def raw_def
      by (simp only: if_False de_Morgan_disj simp_thms)
    have l: "length probs = ?kk" by (simp add: probs_def raw_def)
    have cut: "0 < cut" "cut \<le> ?kk"
      using kk l unfolding cut_def by (auto split: option.split dest: nucleus_bound)
    show ?thesis
    proof (cases "draw_index ops target (take cut probs) 0 (Fin 0)")
      case None
      then show ?thesis using c pick [of "cut - 1"] cut kk False by auto
    next
      case (Some i)
      then have "i < ?kk" using draw_bound [OF Some] l cut by simp
      then show ?thesis using c pick [of i] Some kk False by auto
    qed
  qed
qed

theorem sample_topk_range_witness:
  "\<exists>t. sample_topk \<lparr>f_sub = \<lambda>_ _. Fin 0, f_div = \<lambda>_ _. Fin (1/2), f_add = \<lambda>x y. y, f_mul = \<lambda>x y. x, f_exp = id\<rparr>
      [Fin 3, Fin 2, Fin 1] [7, 8, 9] \<lparr>sp_temp = Fin 1, sp_top_k = 2, sp_top_p = Fin 1\<rparr> 5 = Some t \<and> t \<in> {7, 8}"
proof -
  have u: "usable [Fin 3, Fin 2, Fin 1] [7, 8, 9] = 3" by (simp add: usable_def)
  show ?thesis
    using sample_topk_range [of "[7, 8, 9]" "\<lparr>f_sub = \<lambda>_ _. Fin 0, f_div = \<lambda>_ _. Fin (1/2), f_add = \<lambda>x y. y, f_mul = \<lambda>x y. x, f_exp = id\<rparr>"
        "[Fin 3, Fin 2, Fin 1]" "\<lparr>sp_temp = Fin 1, sp_top_k = 2, sp_top_p = Fin 1\<rparr>" 5]
    by (auto simp: u topk_cap_def)
qed

end
