(* ===== verification/Decoder.thy ===== *)
theory Decoder
  imports BlockPool SpecDecode Sampling "HOL-Library.Countable"
begin

text \<open>
  The batched decoder over the paged pool (\<^verbatim>\<open>BatchedDecoder\<close> in
  \<^verbatim>\<open>src/backend/gpu/mod.rs\<close>): swap-out and swap-in, the forward over a batch of rows, chunked and
  prefix-cached prefill, and greedy prompt-lookup generation.

  The arithmetic of the kernels is the parameter \<open>lm\<close>: \<open>lm_kv\<close> is the key/value entry a
  row leaves at its position, given the entries of the positions before it and its
  token; \<open>lm_pick\<close> is the token selected from the entries a row attends.  The rows of a batch run
  in order, each writing its entry through the block table and then reading
  positions 0 up to its own through it.  A panic of the source (an assertion, an index out of range)
  is \<open>None\<close>.
\<close>

section \<open>The model behind the decoder\<close>

datatype select =
    SelGreedy
  | SelTemp f32 "32 word"
  | SelTopK sampling_params "32 word"

record 'kv lm =
  lm_kv :: "'kv list \<Rightarrow> token \<Rightarrow> 'kv"
  lm_pick :: "'kv list \<Rightarrow> select \<Rightarrow> token"
  lm_vocab :: nat

text \<open>The entries of a context, and its greedy next token.\<close>

definition kvs :: "'kv lm \<Rightarrow> token list \<Rightarrow> 'kv list" where
  "kvs lm ctx = foldl (\<lambda>ks t. ks @ [lm_kv lm ks t]) [] ctx"

definition next_greedy :: "'kv lm \<Rightarrow> token list \<Rightarrow> token" where
  "next_greedy lm ctx = lm_pick lm (kvs lm ctx) SelGreedy"

record 'kv decoder =
  blocks :: block_state
  mem :: "nat \<Rightarrow> 'kv"

definition prefill_chunk_rows :: nat where
  "prefill_chunk_rows = 128"

definition row_cap :: "pool_cfg \<Rightarrow> nat" where
  "row_cap c = max (m_max c) prefill_chunk_rows"

section \<open>Rows\<close>

type_synonym row = "token \<times> nat \<times> slot"

text \<open>The place the shaders compute from the uploaded table.\<close>

definition table_pos :: "pool_cfg \<Rightarrow> 'kv decoder \<Rightarrow> slot \<Rightarrow> nat \<Rightarrow> nat" where
  "table_pos c d s p =
     (table_host (blocks d) ! (s * max_blocks_per_seq c + p div block_size c)) * block_size c + p mod block_size c"

definition attended :: "pool_cfg \<Rightarrow> 'kv decoder \<Rightarrow> slot \<Rightarrow> nat \<Rightarrow> 'kv list" where
  "attended c d s n = map (\<lambda>p. mem d (table_pos c d s p)) [0 ..< n]"

definition write_inputs_ok :: "pool_cfg \<Rightarrow> 'kv lm \<Rightarrow> row list \<Rightarrow> bool" where
  "write_inputs_ok c lm rows = list_all (\<lambda>(t, p, s). t < lm_vocab lm \<and> p < max_seq c) rows"

fun prepare_paging :: "pool_cfg \<Rightarrow> row list \<Rightarrow> block_state \<Rightarrow> (block_state \<times> nat list) option" where
  "prepare_paging c [] bs = Some (bs, [])"
| "prepare_paging c ((t, p, s) # rows) bs =
    (case ensure_blocks c s (p + 1) bs of
       (bs1, False) \<Rightarrow> None
     | (bs1, True) \<Rightarrow>
         (case phys_pos c s p bs1 of
            None \<Rightarrow> None
          | Some ph \<Rightarrow>
              (case prepare_paging c rows bs1 of
                 None \<Rightarrow> None
               | Some (bs2, phs) \<Rightarrow> Some (bs2, ph # phs))))"

definition run_row :: "pool_cfg \<Rightarrow> 'kv lm \<Rightarrow> row \<Rightarrow> 'kv decoder \<Rightarrow> 'kv decoder \<times> 'kv list" where
  "run_row c lm = (\<lambda>(t, p, s) d.
     (let d1 = d\<lparr>mem := (mem d)(table_pos c d s p := lm_kv lm (attended c d s p) t)\<rparr>
      in (d1, attended c d1 s (p + 1))))"

fun run_rows :: "pool_cfg \<Rightarrow> 'kv lm \<Rightarrow> row list \<Rightarrow> 'kv decoder \<Rightarrow> 'kv decoder \<times> 'kv list list" where
  "run_rows c lm [] d = (d, [])"
| "run_rows c lm (r # rows) d =
    (let (d1, ks) = run_row c lm r d; (d2, kss) = run_rows c lm rows d1 in (d2, ks # kss))"

definition forward_rows :: "pool_cfg \<Rightarrow> 'kv lm \<Rightarrow> row list \<Rightarrow> 'kv decoder \<Rightarrow> ('kv decoder \<times> 'kv list list) option" where
  "forward_rows c lm rows d =
    (if write_inputs_ok c lm rows
     then (case prepare_paging c rows (blocks d) of
             None \<Rightarrow> None
           | Some (bs, phs) \<Rightarrow> Some (run_rows c lm rows (d\<lparr>blocks := bs\<rparr>)))
     else None)"

text \<open>
  \<^verbatim>\<open>step_core\<close> and \<^verbatim>\<open>step_slotted_topk\<close>: at least one row and at most \<open>m_max\<close>, one
  selection per row.
\<close>

definition step_rows ::
  "pool_cfg \<Rightarrow> 'kv lm \<Rightarrow> row list \<Rightarrow> select list \<Rightarrow> 'kv decoder \<Rightarrow> ('kv decoder \<times> token list) option" where
  "step_rows c lm rows sels d =
    (if rows \<noteq> [] \<and> length rows \<le> m_max c \<and> length sels = length rows
     then (case forward_rows c lm rows d of
             None \<Rightarrow> None
           | Some (d1, kss) \<Rightarrow> Some (d1, map2 (lm_pick lm) kss sels))
     else None)"

definition step_slotted ::
  "pool_cfg \<Rightarrow> 'kv lm \<Rightarrow> row list \<Rightarrow> 'kv decoder \<Rightarrow> ('kv decoder \<times> token list) option" where
  "step_slotted c lm rows d = step_rows c lm rows (replicate (length rows) SelGreedy) d"

section \<open>Prefill\<close>

definition samp_select :: "(f32 \<times> 32 word) option \<Rightarrow> select" where
  "samp_select samp = (case samp of None \<Rightarrow> SelGreedy | Some (t, sd) \<Rightarrow> SelTemp t sd)"

definition chunk_rows :: "token list \<Rightarrow> slot \<Rightarrow> nat \<Rightarrow> nat \<Rightarrow> row list" where
  "chunk_rows prompt s start stop = map (\<lambda>p. (prompt ! p, p, s)) [start ..< stop]"

definition prefill_chunk ::
  "pool_cfg \<Rightarrow> 'kv lm \<Rightarrow> token list \<Rightarrow> slot \<Rightarrow> nat \<Rightarrow> (f32 \<times> 32 word) option \<Rightarrow> 'kv decoder \<Rightarrow>
   ('kv decoder \<times> nat \<times> token option) option" where
  "prefill_chunk c lm prompt s start samp d =
    (if start < length prompt
     then (let stop = min (start + row_cap c) (length prompt) in
           case forward_rows c lm (chunk_rows prompt s start stop) d of
             None \<Rightarrow> None
           | Some (d1, kss) \<Rightarrow>
               Some (d1, stop, if stop = length prompt then Some (lm_pick lm (last kss) (samp_select samp)) else None))
     else None)"

text \<open>The loop of \<^verbatim>\<open>prefill_slot_from\<close>: every chunk advances, so \<open>length prompt\<close> rounds are enough.\<close>

fun prefill_loop ::
  "nat \<Rightarrow> pool_cfg \<Rightarrow> 'kv lm \<Rightarrow> token list \<Rightarrow> slot \<Rightarrow> nat \<Rightarrow> (f32 \<times> 32 word) option \<Rightarrow> token \<Rightarrow> 'kv decoder \<Rightarrow>
   ('kv decoder \<times> token) option" where
  "prefill_loop fuel c lm prompt s start samp first d =
    (if start < length prompt
     then (case fuel of
             0 \<Rightarrow> None
           | Suc f \<Rightarrow>
               (case prefill_chunk c lm prompt s start samp d of
                  None \<Rightarrow> None
                | Some (d1, nxt, g) \<Rightarrow>
                    prefill_loop f c lm prompt s nxt samp (case g of Some g0 \<Rightarrow> g0 | None \<Rightarrow> first) d1))
     else Some (d, first))"

declare prefill_loop.simps [simp del]

definition prefill_slot_from ::
  "pool_cfg \<Rightarrow> 'kv lm \<Rightarrow> token list \<Rightarrow> slot \<Rightarrow> nat \<Rightarrow> (f32 \<times> 32 word) option \<Rightarrow> 'kv decoder \<Rightarrow>
   ('kv decoder \<times> token) option" where
  "prefill_slot_from c lm prompt s start_pos samp d =
    (if prompt \<noteq> [] \<and> length prompt \<le> max_seq c \<and> start_pos < length prompt
     then prefill_loop (length prompt) c lm prompt s start_pos samp 0 d else None)"

definition prefill_slot ::
  "pool_cfg \<Rightarrow> 'kv lm \<Rightarrow> token list \<Rightarrow> slot \<Rightarrow> 'kv decoder \<Rightarrow> ('kv decoder \<times> token) option" where
  "prefill_slot c lm prompt s d = prefill_slot_from c lm prompt s 0 None d"

definition prefill_slot_cached ::
  "(nat \<Rightarrow> token list \<Rightarrow> nat) \<Rightarrow> pool_cfg \<Rightarrow> 'kv lm \<Rightarrow> token list \<Rightarrow> slot \<Rightarrow> (f32 \<times> 32 word) option \<Rightarrow>
   'kv decoder \<Rightarrow> ('kv decoder \<times> token \<times> nat) option" where
  "prefill_slot_cached hash c lm prompt s samp d =
    (if prompt \<noteq> [] \<and> length prompt \<le> max_seq c
     then (let ((cached_len, cached_blocks), bs1) = prefill_prefix_reuse hash c prompt s (blocks d) in
           case prefill_slot_from c lm prompt s cached_len samp (d\<lparr>blocks := bs1\<rparr>) of
             None \<Rightarrow> None
           | Some (d1, first) \<Rightarrow>
               Some (d1\<lparr>blocks := prefill_register hash c prompt s cached_blocks (blocks d1)\<rparr>, first, cached_len))
     else None)"

definition release_slot :: "slot \<Rightarrow> 'kv decoder \<Rightarrow> 'kv decoder" where
  "release_slot s d = d\<lparr>blocks := free_slot s (blocks d)\<rparr>"

section \<open>Swapping a sequence's entries to the host and back\<close>

record 'kv host_kv =
  hk_n_pos :: nat
  hk_nb :: nat
  hk_data :: "'kv list"

definition copy_block :: "pool_cfg \<Rightarrow> 'kv decoder \<Rightarrow> nat \<Rightarrow> 'kv list" where
  "copy_block c d b = map (\<lambda>j. mem d (b * block_size c + j)) [0 ..< block_size c]"

definition swap_out :: "pool_cfg \<Rightarrow> slot \<Rightarrow> nat \<Rightarrow> 'kv decoder \<Rightarrow> ('kv decoder \<times> 'kv host_kv) option" where
  "swap_out c s n_pos d =
    (let nb = div_ceil n_pos (block_size c) in
     if nb \<le> length (slot_blocks (blocks d) ! s)
     then Some (release_slot s d,
            \<lparr>hk_n_pos = n_pos, hk_nb = nb,
             hk_data = concat (map (copy_block c d) (take nb (slot_blocks (blocks d) ! s)))\<rparr>)
     else None)"

fun restore_blocks :: "pool_cfg \<Rightarrow> nat list \<Rightarrow> 'kv list \<Rightarrow> 'kv decoder \<Rightarrow> 'kv decoder" where
  "restore_blocks c [] ks d = d"
| "restore_blocks c (b # bl) ks d =
     restore_blocks c bl (drop (block_size c) ks)
       (d\<lparr>mem := (\<lambda>q. if b * block_size c \<le> q \<and> q < Suc b * block_size c \<and> q - b * block_size c < length ks
                      then ks ! (q - b * block_size c) else mem d q)\<rparr>)"

definition swap_in :: "pool_cfg \<Rightarrow> slot \<Rightarrow> 'kv host_kv \<Rightarrow> 'kv decoder \<Rightarrow> 'kv decoder \<times> bool" where
  "swap_in c s hk d =
    (case ensure_blocks c s (hk_n_pos hk) (blocks d) of
       (bs1, False) \<Rightarrow> (d\<lparr>blocks := bs1\<rparr>, False)
     | (bs1, True) \<Rightarrow> (restore_blocks c (take (hk_nb hk) (slot_blocks bs1 ! s)) (hk_data hk) (d\<lparr>blocks := bs1\<rparr>), True))"

section \<open>Prompt-lookup generation\<close>

fun count_accepted :: "token list \<Rightarrow> token list \<Rightarrow> nat" where
  "count_accepted (x # outs) (y # d) = (if x = y then Suc (count_accepted outs d) else 0)"
| "count_accepted outs d = 0"

fun commit_outs :: "token list \<Rightarrow> token \<Rightarrow> nat \<Rightarrow> token list \<Rightarrow> token list" where
  "commit_outs [] eos max_new produced = produced"
| "commit_outs (t # ts) eos max_new produced =
    (if t = eos \<or> max_new \<le> length produced + 1 then produced @ [t]
     else commit_outs ts eos max_new (produced @ [t]))"

text \<open>
  One round of \<^verbatim>\<open>generate_pld\<close>.  The history is the prompt followed by \<open>produced\<close>, and
  \<open>next\<close> is its last token.
\<close>

record pld_state =
  pl_produced :: "token list"
  pl_pos :: nat
  pl_forwards :: nat

definition pld_round ::
  "pool_cfg \<Rightarrow> 'kv lm \<Rightarrow> token list \<Rightarrow> nat \<Rightarrow> token \<Rightarrow> nat \<Rightarrow> nat \<Rightarrow> pld_state \<Rightarrow> 'kv decoder \<Rightarrow>
   (pld_state \<times> 'kv decoder) option" where
  "pld_round c lm prompt max_new eos lookup_len draft_k st d =
    (let hist = prompt @ pl_produced st;
         nxt = last (pl_produced st);
         k = min draft_k (max_new - length (pl_produced st))
     in case lookup_draft_best hist hist lookup_len k of
          Some dr \<Rightarrow>
            (let inp = nxt # dr;
                 rows = map (\<lambda>i. (inp ! i, pl_pos st + i, 0)) [0 ..< length inp]
             in case step_slotted c lm rows d of
                  None \<Rightarrow> None
                | Some (d1, outs) \<Rightarrow>
                    (let accepted = count_accepted outs dr
                     in Some (\<lparr>pl_produced = commit_outs (take (accepted + 1) outs) eos max_new (pl_produced st),
                               pl_pos = pl_pos st + accepted + 1, pl_forwards = pl_forwards st + 1\<rparr>, d1)))
        | None \<Rightarrow>
            (case step_slotted c lm [(nxt, pl_pos st, 0)] d of
               None \<Rightarrow> None
             | Some (d1, outs) \<Rightarrow>
                 Some (\<lparr>pl_produced = pl_produced st @ [outs ! 0], pl_pos = pl_pos st + 1,
                        pl_forwards = pl_forwards st + 1\<rparr>, d1)))"

text \<open>Every round appends a token, so \<open>max_new\<close> rounds are enough (\<open>pld_correct\<close>).\<close>

fun pld_loop ::
  "nat \<Rightarrow> pool_cfg \<Rightarrow> 'kv lm \<Rightarrow> token list \<Rightarrow> nat \<Rightarrow> token \<Rightarrow> nat \<Rightarrow> nat \<Rightarrow> pld_state \<Rightarrow> 'kv decoder \<Rightarrow>
   (pld_state \<times> 'kv decoder) option" where
  "pld_loop fuel c lm prompt max_new eos lookup_len draft_k st d =
    (if length (pl_produced st) < max_new \<and> last (pl_produced st) \<noteq> eos
     then (case fuel of
             0 \<Rightarrow> None
           | Suc f \<Rightarrow>
               (case pld_round c lm prompt max_new eos lookup_len draft_k st d of
                  None \<Rightarrow> None
                | Some (st1, d1) \<Rightarrow> pld_loop f c lm prompt max_new eos lookup_len draft_k st1 d1))
     else Some (st, d))"

declare pld_loop.simps [simp del]

definition generate_pld ::
  "pool_cfg \<Rightarrow> 'kv lm \<Rightarrow> token list \<Rightarrow> nat \<Rightarrow> token \<Rightarrow> nat \<Rightarrow> nat \<Rightarrow> 'kv decoder \<Rightarrow>
   ((token list \<times> nat) \<times> 'kv decoder) option" where
  "generate_pld c lm prompt max_new eos lookup_len draft_k d =
    (if draft_k + 1 \<le> m_max c
     then (case prefill_slot c lm prompt 0 d of
             None \<Rightarrow> None
           | Some (d1, g0) \<Rightarrow>
               (case pld_loop max_new c lm prompt max_new eos lookup_len draft_k
                       \<lparr>pl_produced = [g0], pl_pos = length prompt, pl_forwards = 0\<rparr> d1 of
                  None \<Rightarrow> None
                | Some (st, d2) \<Rightarrow> Some ((pl_produced st, pl_forwards st), d2)))
     else None)"

section \<open>Entries of a context\<close>

lemma kvs_Nil [simp]: "kvs lm [] = []"
  by (simp add: kvs_def)

lemma kvs_snoc [simp]: "kvs lm (ctx @ [t]) = kvs lm ctx @ [lm_kv lm (kvs lm ctx) t]"
  by (simp add: kvs_def)

lemma length_kvs [simp]: "length (kvs lm ctx) = length ctx"
  by (induction ctx rule: rev_induct) auto

lemma take_kvs: "take n (kvs lm ts) = kvs lm (take n ts)"
proof (induction ts rule: rev_induct)
  case (snoc t ts)
  then show ?case by (cases "n \<le> length ts") (auto simp: not_le)
qed simp

lemma kvs_nth_take: "p < n \<Longrightarrow> kvs lm (take n ts) ! p = kvs lm ts ! p"
  by (simp add: take_kvs [symmetric])

lemma kvs_nth_prefix: "take n ts = take n us \<Longrightarrow> p < n \<Longrightarrow> n \<le> length ts \<Longrightarrow> n \<le> length us \<Longrightarrow>
  kvs lm ts ! p = kvs lm us ! p"
  by (metis kvs_nth_take)

section \<open>What the decoder maintains\<close>

text \<open>
  The abstraction: each slot \<open>s\<close> holds the entries of a token list \<open>r s\<close>, and from position
  \<open>base s\<close> on its blocks belong to it alone and are not registered, so that writing there
  touches neither another slot nor a cached prefix.
\<close>

definition loc :: "pool_cfg \<Rightarrow> block_state \<Rightarrow> slot \<Rightarrow> nat \<Rightarrow> nat" where
  "loc c bs s p = (slot_blocks bs ! s ! (p div block_size c)) * block_size c + p mod block_size c"

definition resident :: "pool_cfg \<Rightarrow> 'kv lm \<Rightarrow> 'kv decoder \<Rightarrow> slot \<Rightarrow> token list \<Rightarrow> bool" where
  "resident c lm d s ts = (\<forall>p<length ts. p div block_size c < length (slot_blocks (blocks d) ! s) \<and>
     mem d (loc c (blocks d) s p) = kvs lm ts ! p)"

definition cache_valid ::
  "(nat \<Rightarrow> token list \<Rightarrow> nat) \<Rightarrow> pool_cfg \<Rightarrow> 'kv lm \<Rightarrow> 'kv decoder \<Rightarrow> bool" where
  "cache_valid hash c lm d = (\<forall>h b. cache_map (blocks d) h = Some b \<longrightarrow>
     (\<exists>ts n. length ts = Suc n * block_size c \<and> h = prefix_hash hash c ts (Suc n) \<and>
        (\<forall>j<block_size c. mem d (b * block_size c + j) = kvs lm ts ! (n * block_size c + j))))"

definition excl :: "pool_cfg \<Rightarrow> block_state \<Rightarrow> slot \<Rightarrow> nat \<Rightarrow> bool" where
  "excl c bs s base = (\<forall>lb. base div block_size c \<le> lb \<and> lb < length (slot_blocks bs ! s) \<longrightarrow>
     refcount bs ! (slot_blocks bs ! s ! lb) = 1 \<and> block_hash bs ! (slot_blocks bs ! s ! lb) = None)"

definition cfg_ok :: "pool_cfg \<Rightarrow> bool" where
  "cfg_ok c = (0 < block_size c \<and> max_blocks_per_seq c = div_ceil (max_seq c) (block_size c))"

definition dec_inv ::
  "(nat \<Rightarrow> token list \<Rightarrow> nat) \<Rightarrow> pool_cfg \<Rightarrow> 'kv lm \<Rightarrow> 'kv decoder \<Rightarrow> (slot \<Rightarrow> token list) \<Rightarrow> (slot \<Rightarrow> nat) \<Rightarrow> bool" where
  "dec_inv hash c lm d r base =
    (cfg_ok c \<and> pool_inv c (blocks d) \<and> cache_valid hash c lm d \<and>
     (\<forall>s<m_max c. base s \<le> length (r s) \<and> resident c lm d s (r s) \<and> excl c (blocks d) s (base s)))"

definition no_collision :: "(nat \<Rightarrow> token list \<Rightarrow> nat) \<Rightarrow> bool" where
  "no_collision hash = ((\<forall>a xs b ys. hash a xs = hash b ys \<longrightarrow> a = b \<and> xs = ys) \<and> (\<forall>a xs. hash a xs \<noteq> 0))"

lemma dec_invD:
  assumes "dec_inv hash c lm d r base"
  shows "cfg_ok c" "0 < block_size c" "pool_inv c (blocks d)" "cache_valid hash c lm d"
    "\<And>s. s < m_max c \<Longrightarrow> base s \<le> length (r s)"
    "\<And>s. s < m_max c \<Longrightarrow> resident c lm d s (r s)"
    "\<And>s. s < m_max c \<Longrightarrow> excl c (blocks d) s (base s)"
  using assms unfolding dec_inv_def cfg_ok_def by blast+

lemma div_ceil_le_iff: "0 < b \<Longrightarrow> div_ceil a b \<le> n \<longleftrightarrow> a \<le> n * b"
proof -
  assume b: "0 < b"
  have "div_ceil a b \<le> n \<longleftrightarrow> (a + b - 1) div b < Suc n" by (auto simp: div_ceil_def)
  also have "\<dots> \<longleftrightarrow> a + b - 1 < Suc n * b" using b by (simp add: div_less_iff_less_mult)
  also have "\<dots> \<longleftrightarrow> a \<le> n * b" using b by auto
  finally show ?thesis .
qed

lemma div_lt_div_ceil: "0 < b \<Longrightarrow> p < n \<Longrightarrow> p div b < div_ceil n b"
proof -
  assume b: "0 < b" and p: "p < n"
  have "\<not> div_ceil n b \<le> p div b"
    unfolding div_ceil_le_iff [OF b] using p div_mult_mod_eq [of p b] times_div_less_eq_dividend [of b p]
    by (metis add.commute le_add1 leD le_less_trans mult.commute not_le)
  then show ?thesis by simp
qed

lemma div_ceil_mono: "0 < b \<Longrightarrow> m \<le> n \<Longrightarrow> div_ceil m b \<le> div_ceil n b"
  by (simp add: div_ceil_def div_le_mono)

lemma div_ceil_Suc: "0 < b \<Longrightarrow> div_ceil (Suc p) b = Suc (p div b)"
  by (simp add: div_ceil_def)

lemma cfg_ok_blocks: "cfg_ok c \<Longrightarrow> n \<le> max_seq c \<Longrightarrow> div_ceil n (block_size c) \<le> max_blocks_per_seq c"
  by (simp add: cfg_ok_def div_ceil_mono)

lemma table_pos_loc:
  assumes "pool_inv c (blocks d)" "s < m_max c" "p div block_size c < length (slot_blocks (blocks d) ! s)"
  shows "table_pos c d s p = loc c (blocks d) s p"
  using pool_invD(12) [OF assms] by (simp add: table_pos_def loc_def)

lemma attended_resident:
  assumes "pool_inv c (blocks d)" "s < m_max c" "resident c lm d s ts" "n \<le> length ts"
  shows "attended c d s n = kvs lm (take n ts)"
proof (rule nth_equalityI)
  show "length (attended c d s n) = length (kvs lm (take n ts))" using assms(4) by (simp add: attended_def)
  fix p assume "p < length (attended c d s n)"
  then have p: "p < n" by (simp add: attended_def)
  then have "p < length ts" using assms(4) by simp
  then have "p div block_size c < length (slot_blocks (blocks d) ! s)" "mem d (loc c (blocks d) s p) = kvs lm ts ! p"
    using assms(3) unfolding resident_def by blast+
  then show "attended c d s n ! p = kvs lm (take n ts) ! p"
    using p assms(4) table_pos_loc [OF assms(1,2)] by (simp add: attended_def kvs_nth_take)
qed

text \<open>A block referenced once occurs at one place.\<close>

lemma two_occurrences:
  assumes "i < length xss" "j < length (xss ! i)" "i' < length xss" "j' < length (xss ! i')"
    and "xss ! i ! j = b" "xss ! i' ! j' = b" "(i, j) \<noteq> (i', j')"
  shows "2 \<le> count (mset (concat xss)) b"
proof (cases "i = i'")
  case True
  then have ne: "j \<noteq> j'" using assms(7) by simp
  have "2 \<le> card {k. k < length (xss ! i) \<and> xss ! i ! k = b}"
  proof -
    have "{j, j'} \<subseteq> {k. k < length (xss ! i) \<and> xss ! i ! k = b}" using assms True by auto
    from card_mono [OF _ this] show ?thesis using ne by simp
  qed
  also have "\<dots> = length (filter ((=) b) (xss ! i))" by (simp add: length_filter_conv_card eq_commute)
  also have "\<dots> = count (mset (xss ! i)) b" by (simp add: count_mset count_list_eq_length_filter)
  also have "\<dots> \<le> count (mset (concat xss)) b" by (rule count_concat_ge [OF assms(1)])
  finally show ?thesis .
next
  case False
  have "b \<in># mset (xss ! i)" "b \<in># mset (xss ! i')" using assms nth_mem by (metis set_mset_mset)+
  then have a: "1 \<le> count (mset (xss ! i)) b" and a': "1 \<le> count (mset (xss ! i')) b"
    by (simp_all only: count_greater_zero_iff [symmetric] Suc_le_eq One_nat_def)
  have "count (mset (xss ! i')) b \<le> count (mset (concat (xss[i := []]))) b"
    using count_concat_ge [of i' "xss[i := []]" b] assms(3) False by simp
  moreover have "count (mset (concat (xss[i := []]))) b + count (mset (xss ! i)) b = count (mset (concat xss)) b"
    using count_concat_update [OF assms(1), of "[]" b] by simp
  ultimately show ?thesis using a a' by linarith
qed

lemma sole_owner:
  assumes "pool_inv c bs" "s < m_max c" "lb < length (slot_blocks bs ! s)" "refcount bs ! (slot_blocks bs ! s ! lb) = 1"
    and "s' < m_max c" "lb' < length (slot_blocks bs ! s')" "slot_blocks bs ! s' ! lb' = slot_blocks bs ! s ! lb"
  shows "s' = s \<and> lb' = lb"
proof (rule ccontr)
  assume ne: "\<not> (s' = s \<and> lb' = lb)"
  let ?b = "slot_blocks bs ! s ! lb"
  have l: "length (slot_blocks bs) = m_max c" by (rule pool_invD(4) [OF assms(1)])
  have "2 \<le> count (mset (concat (slot_blocks bs))) ?b"
    by (rule two_occurrences [of s _ lb s' lb']) (use assms l ne in auto)
  moreover have "refcount bs ! ?b = count (mset (concat (slot_blocks bs))) ?b"
    by (rule pool_invD(6) [OF assms(1) slot_block_range [OF assms(1-3)]])
  ultimately show False using assms(4) by simp
qed

lemma place_inj:
  fixes b b' i j n :: nat
  assumes "b * n + i = b' * n + j" "i < n" "j < n"
  shows "b = b' \<and> i = j"
  using table_index_inj [OF assms(2,3,1)] by simp

section \<open>Refinement of the decoder's operations\<close>

lemma dec_inv_grow:
  assumes inv: "dec_inv hash c lm d r base" and g: "grows s (blocks d) bs'" and pi: "pool_inv c bs'" and s: "s < m_max c"
  shows "dec_inv hash c lm (d\<lparr>blocks := bs'\<rparr>) r base"
proof -
  note D = dec_invD [OF inv]
  have l: "length (slot_blocks (blocks d)) = m_max c" by (rule pool_invD(4) [OF D(3)])
  obtain xs where xs: "slot_blocks bs' = (slot_blocks (blocks d))[s := slot_blocks (blocks d) ! s @ xs]"
    "\<forall>b\<in>set xs. refcount bs' ! b = 1 \<and> block_hash bs' ! b = None"
    and cm: "\<And>h b. cache_map bs' h = Some b \<Longrightarrow> cache_map (blocks d) h = Some b"
    and rc: "\<And>b. refcount (blocks d) ! b \<noteq> 0 \<Longrightarrow> refcount bs' ! b = refcount (blocks d) ! b \<and> block_hash bs' ! b = block_hash (blocks d) ! b"
    using g unfolding grows_def by blast
  have sb: "slot_blocks bs' ! s' = (if s' = s then slot_blocks (blocks d) ! s @ xs else slot_blocks (blocks d) ! s')" for s'
    using xs(1) s l by simp
  have res: "resident c lm (d\<lparr>blocks := bs'\<rparr>) s' ts" if "resident c lm d s' ts" for s' ts
    using that unfolding resident_def loc_def by (auto simp: sb nth_append)
  have ex: "excl c bs' s' n" if e: "excl c (blocks d) s' n" and s': "s' < m_max c" for s' n
    unfolding excl_def
  proof (intro allI impI)
    fix lb assume lb: "n div block_size c \<le> lb \<and> lb < length (slot_blocks bs' ! s')"
    show "refcount bs' ! (slot_blocks bs' ! s' ! lb) = 1 \<and> block_hash bs' ! (slot_blocks bs' ! s' ! lb) = None"
    proof (cases "lb < length (slot_blocks (blocks d) ! s')")
      case True
      then have "slot_blocks bs' ! s' ! lb = slot_blocks (blocks d) ! s' ! lb" by (auto simp: sb nth_append)
      then show ?thesis using rc [of "slot_blocks (blocks d) ! s' ! lb"] e lb True unfolding excl_def by auto
    next
      case False
      then have "s' = s" "slot_blocks bs' ! s' ! lb \<in> set xs" using lb by (auto simp: sb nth_append split: if_splits)
      then show ?thesis using bspec [OF xs(2)] by simp
    qed
  qed
  have cv: "cache_valid hash c lm (d\<lparr>blocks := bs'\<rparr>)"
    using D(4) cm unfolding cache_valid_def by simp
  show ?thesis
    unfolding dec_inv_def using D(1,5-7) pi cv res ex by simp
qed

lemma dec_inv_write:
  assumes inv: "dec_inv hash c lm d r base" and s: "s < m_max c" and p: "base s \<le> p"
    and blk: "p div block_size c < length (slot_blocks (blocks d) ! s)" and pr: "p \<le> length (r s)"
  shows "dec_inv hash c lm (d\<lparr>mem := (mem d)(loc c (blocks d) s p := lm_kv lm (kvs lm (take p (r s))) t)\<rparr>)
    (r(s := take p (r s) @ [t])) base" (is "dec_inv _ _ _ ?d ?r _")
proof -
  note D = dec_invD [OF inv]
  let ?b = "slot_blocks (blocks d) ! s ! (p div block_size c)"
  have own: "refcount (blocks d) ! ?b = 1" "block_hash (blocks d) ! ?b = None"
    using D(7) [OF s] p blk D(2) unfolding excl_def by (simp_all add: div_le_mono)
  have away: "s' = s \<and> p' = p" if e: "loc c (blocks d) s' p' = loc c (blocks d) s p" and s': "s' < m_max c"
      and "p' div block_size c < length (slot_blocks (blocks d) ! s')" for s' p'
  proof -
    have m: "p' mod block_size c < block_size c" "p mod block_size c < block_size c" using D(2) by simp_all
    have "slot_blocks (blocks d) ! s' ! (p' div block_size c) = ?b \<and> p' mod block_size c = p mod block_size c"
      by (rule place_inj [OF e [unfolded loc_def] m])
    moreover from sole_owner [OF D(3) s blk own(1) s' that(3)] this
    have "s' = s" "p' div block_size c = p div block_size c" by auto
    ultimately show ?thesis by (metis div_mult_mod_eq)
  qed
  have cv: "cache_valid hash c lm ?d"
    unfolding cache_valid_def
  proof (intro allI impI)
    fix h b assume "cache_map (blocks ?d) h = Some b"
    then have h: "cache_map (blocks d) h = Some b" by simp
    then have "b \<noteq> ?b" using own pool_invD(10) [OF D(3), of h b] by auto
    then have "b * block_size c + j \<noteq> loc c (blocks d) s p" if "j < block_size c" for j
      using place_inj [of b "block_size c" j ?b "p mod block_size c"] that D(2) by (auto simp: loc_def)
    then have "mem ?d (b * block_size c + j) = mem d (b * block_size c + j)" if "j < block_size c" for j
      using that by simp
    then show "\<exists>ts n. length ts = Suc n * block_size c \<and> h = prefix_hash hash c ts (Suc n) \<and>
        (\<forall>j<block_size c. mem ?d (b * block_size c + j) = kvs lm ts ! (n * block_size c + j))"
      using D(4) h unfolding cache_valid_def by metis
  qed
  have res: "resident c lm ?d s' (?r s')" if s': "s' < m_max c" for s'
    unfolding resident_def
  proof (intro allI impI)
    fix p' assume p': "p' < length (?r s')"
    show "p' div block_size c < length (slot_blocks (blocks ?d) ! s') \<and> mem ?d (loc c (blocks ?d) s' p') = kvs lm (?r s') ! p'"
    proof (cases "s' = s \<and> p' = p")
      case True
      then show ?thesis using blk pr by (simp add: nth_append)
    next
      case False
      then have pl: "p' < length (r s')" using p' pr by (auto split: if_splits)
      then have old: "p' div block_size c < length (slot_blocks (blocks d) ! s')" "mem d (loc c (blocks d) s' p') = kvs lm (r s') ! p'"
        using D(6) [OF s'] unfolding resident_def by blast+
      have "loc c (blocks d) s' p' \<noteq> loc c (blocks d) s p" using away [OF _ s' old(1)] False by blast
      moreover have "kvs lm (?r s') ! p' = kvs lm (r s') ! p'"
      proof (cases "s' = s")
        case True
        then have "p' < p" using False p' pr by (auto split: if_splits)
        then show ?thesis using True pr by (simp add: nth_append kvs_nth_take)
      qed simp
      ultimately show ?thesis using old by simp
    qed
  qed
  have b: "base s' \<le> length (?r s')" if "s' < m_max c" for s'
    using D(5) [OF that] p pr by auto
  show ?thesis
    unfolding dec_inv_def using D(1,3,7) cv res b by simp
qed

text \<open>
  The specification of a batch of rows on the slots' token lists: a row at position \<open>p\<close> of slot
  \<open>s\<close> cuts the slot's list at \<open>p\<close>, appends its token and attends the result.
\<close>

fun abs_rows :: "(slot \<Rightarrow> token list) \<Rightarrow> row list \<Rightarrow> (slot \<Rightarrow> token list) \<times> token list list" where
  "abs_rows r [] = (r, [])"
| "abs_rows r ((t, p, s) # rows) =
    (let ts = take p (r s) @ [t]; (r', outs) = abs_rows (r(s := ts)) rows in (r', ts # outs))"

fun rows_ok :: "pool_cfg \<Rightarrow> (slot \<Rightarrow> nat) \<Rightarrow> (slot \<Rightarrow> token list) \<Rightarrow> row list \<Rightarrow> bool" where
  "rows_ok c base r [] = True"
| "rows_ok c base r ((t, p, s) # rows) =
    (s < m_max c \<and> base s \<le> p \<and> p \<le> length (r s) \<and> rows_ok c base (r(s := take p (r s) @ [t])) rows)"

text \<open>The blocks a batch needs are in place.\<close>

definition rows_placed :: "pool_cfg \<Rightarrow> block_state \<Rightarrow> row list \<Rightarrow> bool" where
  "rows_placed c bs rows = (\<forall>(t, p, s)\<in>set rows. p div block_size c < length (slot_blocks bs ! s))"

lemma run_row_frame: "blocks (fst (run_row c lm row d)) = blocks d"
  by (cases row) (simp add: run_row_def Let_def)

lemma run_rows_refine:
  assumes "dec_inv hash c lm d r base" "rows_ok c base r rows" "rows_placed c (blocks d) rows"
  shows "run_rows c lm rows d = (d', kss) \<Longrightarrow>
    dec_inv hash c lm d' (fst (abs_rows r rows)) base \<and> kss = map (kvs lm) (snd (abs_rows r rows)) \<and>
    blocks d' = blocks d"
  using assms
proof (induction rows arbitrary: d r d' kss)
  case (Cons row rows)
  obtain t p s where row: "row = (t, p, s)" by (cases row)
  note inv = Cons.prems(2)
  note D = dec_invD [OF inv]
  have ok: "s < m_max c" "base s \<le> p" "p \<le> length (r s)" "rows_ok c base (r(s := take p (r s) @ [t])) rows"
    using Cons.prems(3) row by auto
  have blk: "p div block_size c < length (slot_blocks (blocks d) ! s)"
    using Cons.prems(4) row by (auto simp: rows_placed_def)
  have att: "attended c d s p = kvs lm (take p (r s))"
    by (rule attended_resident [OF D(3) ok(1) D(6) [OF ok(1)] ok(3)])
  let ?d1 = "d\<lparr>mem := (mem d)(loc c (blocks d) s p := lm_kv lm (kvs lm (take p (r s))) t)\<rparr>"
  let ?r1 = "r(s := take p (r s) @ [t])"
  have inv1: "dec_inv hash c lm ?d1 ?r1 base" by (rule dec_inv_write [OF inv ok(1,2) blk ok(3)])
  have "attended c ?d1 s (p + 1) = kvs lm (take (p + 1) (?r1 s))"
    by (rule attended_resident [OF _ ok(1) dec_invD(6) [OF inv1 ok(1)]]) (use D(3) ok in auto)
  then have rr: "run_row c lm row d = (?d1, kvs lm (take p (r s) @ [t]))"
    using ok(3) table_pos_loc [OF D(3) ok(1) blk] by (simp add: run_row_def row att Let_def)
  obtain d2 kss2 where d2: "run_rows c lm rows ?d1 = (d2, kss2)" by fastforce
  have "rows_placed c (blocks ?d1) rows" using Cons.prems(4) by (auto simp: rows_placed_def)
  note IH = Cons.IH [OF d2 inv1 ok(4) this]
  obtain r2 outs where abs: "abs_rows ?r1 rows = (r2, outs)" by fastforce
  have "d' = d2" "kss = kvs lm (take p (r s) @ [t]) # kss2" using Cons.prems(1) rr d2 by auto
  moreover have "abs_rows r (row # rows) = (r2, (take p (r s) @ [t]) # outs)" using abs row by (simp add: Let_def)
  ultimately show ?case using IH unfolding abs by simp
qed simp

lemma grows_trans_placed:
  assumes "grows s bs bs'" "s < length (slot_blocks bs)"
  shows "length (slot_blocks bs ! s') \<le> length (slot_blocks bs' ! s')"
  using assms unfolding grows_def by (cases "s' = s") auto

lemma prepare_paging_refine:
  assumes "dec_inv hash c lm d r base" "\<forall>(t, p, s)\<in>set rows. s < m_max c \<and> p < max_seq c"
    and "prepare_paging c rows (blocks d) = Some (bs', phs)"
  shows "dec_inv hash c lm (d\<lparr>blocks := bs'\<rparr>) r base \<and> rows_placed c bs' rows \<and>
    (\<forall>s. length (slot_blocks (blocks d) ! s) \<le> length (slot_blocks bs' ! s))"
  using assms
proof (induction rows arbitrary: d phs)
  case Nil
  then have "bs' = blocks d" by simp
  then have "d\<lparr>blocks := bs'\<rparr> = d" by simp
  then show ?case using Nil by (auto simp: rows_placed_def)
next
  case (Cons row rows)
  obtain t p s where row: "row = (t, p, s)" by (cases row)
  note inv = Cons.prems(1)
  note D = dec_invD [OF inv]
  have sp: "s < m_max c" "p < max_seq c" using Cons.prems(2) row by auto
  obtain bs1 phs' where e: "ensure_blocks c s (p + 1) (blocks d) = (bs1, True)"
    and rest: "prepare_paging c rows bs1 = Some (bs', phs')"
    using Cons.prems(3) row by (auto split: prod.splits bool.splits option.splits)
  have need: "div_ceil (p + 1) (block_size c) \<le> max_blocks_per_seq c" using cfg_ok_blocks [OF D(1)] sp by simp
  note E = ensure_blocks_correct [OF D(3) sp(1) need e]
  let ?d1 = "d\<lparr>blocks := bs1\<rparr>"
  have inv1: "dec_inv hash c lm ?d1 r base" by (rule dec_inv_grow [OF inv E(2,1) sp(1)])
  have rest': "prepare_paging c rows (blocks ?d1) = Some (bs', phs')" using rest by simp
  have rp: "\<forall>(t, p, s)\<in>set rows. s < m_max c \<and> p < max_seq c" using Cons.prems(2) by simp
  note IH = Cons.IH [OF inv1 rp rest']
  have m: "length (slot_blocks (blocks d) ! s') \<le> length (slot_blocks bs1 ! s')" for s'
    using grows_trans_placed [OF E(2)] pool_invD(4) [OF D(3)] sp(1) by simp
  have "p div block_size c < length (slot_blocks bs1 ! s)"
    using E(4) div_ceil_Suc [OF D(2), of p] by simp
  then have "p div block_size c < length (slot_blocks bs' ! s)" using IH by (auto intro: less_le_trans)
  then show ?case using IH row m by (auto simp: rows_placed_def intro: order_trans)
qed

definition rows_in_range :: "pool_cfg \<Rightarrow> row list \<Rightarrow> bool" where
  "rows_in_range c rows = (\<forall>(t, p, s)\<in>set rows. s < m_max c \<and> p < max_seq c)"

lemma rows_ok_slots: "rows_ok c base r rows \<Longrightarrow> (t, p, s) \<in> set rows \<Longrightarrow> s < m_max c"
  by (induction rows arbitrary: r) auto

text \<open>A batch that does not panic computes what the specification says.\<close>

lemma forward_rows_refine:
  assumes "dec_inv hash c lm d r base" "rows_ok c base r rows" "forward_rows c lm rows d = Some (d', kss)"
  shows "dec_inv hash c lm d' (fst (abs_rows r rows)) base" "kss = map (kvs lm) (snd (abs_rows r rows))"
    "\<And>s. length (slot_blocks (blocks d) ! s) \<le> length (slot_blocks (blocks d') ! s)"
proof -
  obtain bs phs where w: "write_inputs_ok c lm rows" and pp: "prepare_paging c rows (blocks d) = Some (bs, phs)"
    and rr: "run_rows c lm rows (d\<lparr>blocks := bs\<rparr>) = (d', kss)"
    using assms(3) by (auto simp: forward_rows_def split: if_splits option.splits)
  have rng: "\<forall>(t, p, s)\<in>set rows. s < m_max c \<and> p < max_seq c"
    using w rows_ok_slots [OF assms(2)] by (fastforce simp: write_inputs_ok_def list_all_iff)
  note P = prepare_paging_refine [OF assms(1) rng pp]
  have "rows_placed c (blocks (d\<lparr>blocks := bs\<rparr>)) rows" using P by simp
  note R = run_rows_refine [OF _ assms(2) this rr, OF conjunct1 [OF P]]
  show "dec_inv hash c lm d' (fst (abs_rows r rows)) base" "kss = map (kvs lm) (snd (abs_rows r rows))"
    using R by auto
  show "length (slot_blocks (blocks d) ! s) \<le> length (slot_blocks (blocks d') ! s)" for s
    using R P by simp
qed

section \<open>Batches that do not panic\<close>

text \<open>The slots of \<open>S\<close> can all still grow to a full sequence.\<close>

definition reserved :: "pool_cfg \<Rightarrow> slot set \<Rightarrow> block_state \<Rightarrow> bool" where
  "reserved c S bs = (finite S \<and> (\<Sum>s\<in>S. max_blocks_per_seq c - length (slot_blocks bs ! s)) \<le> free_blocks bs)"

lemma reserved_full:
  assumes "pool_inv c bs" "m_max c * max_blocks_per_seq c \<le> n_blocks c"
  shows "reserved c {..<m_max c} bs"
  using full_pool_room [OF assms] by (simp add: reserved_def)

lemma ensure_reserved:
  assumes inv: "pool_inv c bs" and s: "s < m_max c" "s \<in> S" and n: "div_ceil n (block_size c) \<le> max_blocks_per_seq c"
    and res: "reserved c S bs" and e: "ensure_blocks c s n bs = (bs', ok)"
  shows "ok \<and> reserved c S bs'"
proof -
  note E = ensure_blocks_correct [OF inv s(1) n e]
  let ?mb = "max_blocks_per_seq c" and ?len = "\<lambda>bs s. length (slot_blocks bs ! s)"
  have fin: "finite S" using res by (simp add: reserved_def)
  have sum: "(\<Sum>x\<in>S. f x) = f s + (\<Sum>x\<in>S - {s}. f x)" for f :: "nat \<Rightarrow> nat"
    by (rule sum.remove [OF fin s(2)])
  have short: "blocks_short c s n bs \<le> ?mb - ?len bs s" using n by (simp add: blocks_short_def)
  have r: "(?mb - ?len bs s) + (\<Sum>x\<in>S - {s}. ?mb - ?len bs x) \<le> free_blocks bs"
    using res sum [of "\<lambda>x. ?mb - ?len bs x"] by (simp add: reserved_def)
  have ok: "ok" using E(3) r short by simp
  have other: "?len bs' x = ?len bs x" if "x \<noteq> s" for x
    using E(2) that unfolding grows_def by auto
  have "(\<Sum>x\<in>S - {s}. ?mb - ?len bs' x) = (\<Sum>x\<in>S - {s}. ?mb - ?len bs x)"
    using other by (intro sum.cong) auto
  moreover have "?mb - ?len bs' s + blocks_short c s n bs \<le> ?mb - ?len bs s"
    using E(4) [OF ok] n by (auto simp: blocks_short_def max_def)
  ultimately have "reserved c S bs'"
    using r fin E(5) [OF ok] sum [of "\<lambda>x. ?mb - ?len bs' x"] by (simp add: reserved_def)
  then show ?thesis using ok by simp
qed

lemma prepare_paging_reserved:
  assumes "pool_inv c bs" "cfg_ok c" "reserved c S bs" "\<forall>(t, p, s)\<in>set rows. s \<in> S \<and> s < m_max c \<and> p < max_seq c"
  shows "\<exists>bs' phs. prepare_paging c rows bs = Some (bs', phs) \<and> reserved c S bs'"
  using assms
proof (induction rows arbitrary: bs)
  case (Cons row rows)
  obtain t p s where row: "row = (t, p, s)" by (cases row)
  have sp: "s \<in> S" "s < m_max c" "p < max_seq c" using Cons.prems(4) row by auto
  obtain bs1 ok where e: "ensure_blocks c s (p + 1) bs = (bs1, ok)" by fastforce
  have need: "div_ceil (p + 1) (block_size c) \<le> max_blocks_per_seq c" using cfg_ok_blocks [OF Cons.prems(2)] sp by simp
  note E = ensure_blocks_correct [OF Cons.prems(1) sp(2) need e]
  have ok: "ok" "reserved c S bs1"
    using ensure_reserved [OF Cons.prems(1) sp(2,1) need Cons.prems(3) e] by auto
  have bz: "0 < block_size c" using Cons.prems(2) by (simp add: cfg_ok_def)
  have "p div block_size c < length (slot_blocks bs1 ! s)"
    using E(4) [OF ok(1)] div_ceil_Suc [OF bz, of p] by simp
  moreover have "s < length (slot_blocks bs1)" using pool_invD(4) [OF E(1)] sp by simp
  ultimately obtain ph where "phys_pos c s p bs1 = Some ph" by (simp add: phys_pos_def)
  moreover obtain bs2 phs where "prepare_paging c rows bs1 = Some (bs2, phs)" "reserved c S bs2"
    using Cons.IH [OF E(1) Cons.prems(2) ok(2)] Cons.prems(4) by auto
  ultimately show ?case using e ok(1) row by (auto split: prod.splits)
qed simp

lemma forward_rows_total:
  assumes "pool_inv c (blocks d)" "cfg_ok c" "reserved c S (blocks d)"
    and "\<forall>(t, p, s)\<in>set rows. t < lm_vocab lm \<and> s \<in> S \<and> s < m_max c \<and> p < max_seq c"
  shows "\<exists>d' kss. forward_rows c lm rows d = Some (d', kss) \<and> reserved c S (blocks d')"
proof -
  have "write_inputs_ok c lm rows" using assms(4) by (auto simp: write_inputs_ok_def list_all_iff)
  moreover obtain bs' phs where p: "prepare_paging c rows (blocks d) = Some (bs', phs)" "reserved c S bs'"
    using prepare_paging_reserved [OF assms(1-3), of rows] assms(4) by fastforce
  moreover obtain d' kss where r: "run_rows c lm rows (d\<lparr>blocks := bs'\<rparr>) = (d', kss)" by fastforce
  moreover have "blocks (fst (run_rows c lm rows d0)) = blocks d0" for d0
    by (induction rows arbitrary: d0) (auto split: prod.splits simp: Let_def intro: run_row_frame,
       metis fst_conv run_row_frame)
  from this [of "d\<lparr>blocks := bs'\<rparr>"] have "blocks d' = bs'" using r by simp
  ultimately show ?thesis by (simp add: forward_rows_def)
qed

section \<open>Prefill computes the prompt's entries\<close>

lemma chunk_rows_Suc: "a < b \<Longrightarrow> chunk_rows prompt s a b = (prompt ! a, a, s) # chunk_rows prompt s (Suc a) b"
  by (simp add: chunk_rows_def upt_conv_Cons)

lemma abs_rows_chunk:
  assumes "r s = take a prompt" "a \<le> b" "b \<le> length prompt"
  shows "abs_rows r (chunk_rows prompt s a b) = (r(s := take b prompt), map (\<lambda>p. take (Suc p) prompt) [a ..< b])"
  using assms
proof (induction "b - a" arbitrary: a r)
  case 0
  then have "a = b" by simp
  moreover have "r = r(s := take b prompt)" using 0 \<open>a = b\<close> by (metis fun_upd_triv)
  ultimately show ?case by (simp add: chunk_rows_def)
next
  case (Suc k)
  then have lt: "a < b" by simp
  have app: "take a prompt @ [prompt ! a] = take (Suc a) prompt" using lt Suc.prems(3) by (intro take_nth_append) simp
  have "abs_rows (r(s := take (Suc a) prompt)) (chunk_rows prompt s (Suc a) b) =
      ((r(s := take (Suc a) prompt))(s := take b prompt), map (\<lambda>p. take (Suc p) prompt) [Suc a ..< b])"
    by (rule Suc.hyps(1)) (use Suc lt in auto)
  then show ?case
    using lt Suc.prems app by (simp add: chunk_rows_Suc upt_conv_Cons Let_def del: abs_rows.simps(1))
qed

lemma rows_ok_chunk:
  assumes "r s = take a prompt" "a \<le> b" "b \<le> length prompt" "s < m_max c" "base s \<le> a"
  shows "rows_ok c base r (chunk_rows prompt s a b)"
  using assms
proof (induction "b - a" arbitrary: a r)
  case 0
  then show ?case by (simp add: chunk_rows_def)
next
  case (Suc k)
  then have lt: "a < b" by simp
  have app: "take a prompt @ [prompt ! a] = take (Suc a) prompt" using lt Suc.prems(3) by (intro take_nth_append) simp
  have "rows_ok c base (r(s := take (Suc a) prompt)) (chunk_rows prompt s (Suc a) b)"
    by (rule Suc.hyps(1)) (use Suc lt in auto)
  then show ?case using lt Suc.prems app by (simp add: chunk_rows_Suc)
qed

lemma prefill_chunk_refine:
  assumes inv: "dec_inv hash c lm d r base" and s: "s < m_max c" and a: "r s = take start prompt" "base s \<le> start"
    and run: "prefill_chunk c lm prompt s start samp d = Some (d', nxt, g)"
  shows "dec_inv hash c lm d' (r(s := take nxt prompt)) base \<and> start < nxt \<and> nxt \<le> length prompt \<and>
    g = (if nxt = length prompt then Some (lm_pick lm (kvs lm prompt) (samp_select samp)) else None)"
proof -
  let ?stop = "min (start + row_cap c) (length prompt)"
  obtain kss where st: "start < length prompt" and f: "forward_rows c lm (chunk_rows prompt s start ?stop) d = Some (d', kss)"
    and n: "nxt = ?stop" and g: "g = (if ?stop = length prompt then Some (lm_pick lm (last kss) (samp_select samp)) else None)"
    using run by (auto simp: prefill_chunk_def Let_def split: if_splits option.splits)
  have adv: "start < ?stop" using st by (simp add: row_cap_def prefill_chunk_rows_def)
  have ok: "rows_ok c base r (chunk_rows prompt s start ?stop)"
    by (rule rows_ok_chunk) (use a s adv in auto)
  have ab: "abs_rows r (chunk_rows prompt s start ?stop) = (r(s := take ?stop prompt), map (\<lambda>p. take (Suc p) prompt) [start ..< ?stop])"
    by (rule abs_rows_chunk) (use a adv in auto)
  note F = forward_rows_refine [OF inv ok f]
  have "last kss = kvs lm (take ?stop prompt)"
  proof -
    have "Suc (?stop - 1) = ?stop" using adv by linarith
    then show ?thesis using F(2) unfolding ab by (simp only: snd_conv map_map last_map_upt [OF adv] o_apply)
  qed
  then show ?thesis using F(1) ab n g adv by auto
qed

lemma prefill_loop_refine:
  assumes "dec_inv hash c lm d r base" "s < m_max c" "r s = take start prompt" "base s \<le> start" "start \<le> length prompt"
    and "start < length prompt \<or> first = lm_pick lm (kvs lm prompt) (samp_select samp)"
    and "prefill_loop fuel c lm prompt s start samp first d = Some (d', g)"
  shows "dec_inv hash c lm d' (r(s := prompt)) base \<and> g = lm_pick lm (kvs lm prompt) (samp_select samp)"
  using assms
proof (induction fuel arbitrary: d r start first)
  case 0
  have st: "\<not> start < length prompt"
  proof
    assume "start < length prompt"
    then show False using "0.prems"(7) by (subst (asm) prefill_loop.simps) simp
  qed
  then have "Some (d', g) = Some (d, first)" using "0.prems"(7) by (subst (asm) prefill_loop.simps) simp
  then have "d' = d" "g = first" by simp_all
  moreover have "r s = prompt" using st "0.prems"(3) by simp
  ultimately show ?case using "0.prems"(1,6) st fun_upd_triv [of r s] by simp
next
  case (Suc f)
  show ?case
  proof (cases "start < length prompt")
    case False
    then show ?thesis using Suc.prems fun_upd_triv [of r s] by (simp add: prefill_loop.simps)
  next
    case True
    obtain d1 nxt g1 where ch: "prefill_chunk c lm prompt s start samp d = Some (d1, nxt, g1)"
      and rest: "prefill_loop f c lm prompt s nxt samp (case g1 of Some g0 \<Rightarrow> g0 | None \<Rightarrow> first) d1 = Some (d', g)"
      using Suc.prems(7) True by (subst (asm) prefill_loop.simps) (auto split: option.splits)
    note C = prefill_chunk_refine [OF Suc.prems(1-4) ch]
    have "dec_inv hash c lm d' ((r(s := take nxt prompt))(s := prompt)) base \<and> g = lm_pick lm (kvs lm prompt) (samp_select samp)"
      by (rule Suc.IH [OF conjunct1 [OF C] Suc.prems(2) _ _ _ _ rest]) (use C Suc.prems(4) in auto)
    then show ?thesis by (simp only: fun_upd_upd simp_thms)
  qed
qed

lemma prefill_loop_total:
  assumes "dec_inv hash c lm d r base" "s < m_max c" "r s = take start prompt" "base s \<le> start" "start \<le> length prompt"
    and "reserved c S (blocks d)" "s \<in> S" "length prompt \<le> max_seq c" "set prompt \<subseteq> {..<lm_vocab lm}"
    and "length prompt - start \<le> fuel"
  shows "\<exists>d' g. prefill_loop fuel c lm prompt s start samp first d = Some (d', g) \<and> reserved c S (blocks d')"
  using assms
proof (induction fuel arbitrary: d r start first)
  case 0
  then show ?case by (subst prefill_loop.simps) simp
next
  case (Suc f)
  show ?case
  proof (cases "start < length prompt")
    case False
    then show ?thesis using Suc.prems by (subst prefill_loop.simps) simp
  next
    case True
    let ?stop = "min (start + row_cap c) (length prompt)"
    note D = dec_invD [OF Suc.prems(1)]
    have "\<forall>(t, p, s')\<in>set (chunk_rows prompt s start ?stop). t < lm_vocab lm \<and> s' \<in> S \<and> s' < m_max c \<and> p < max_seq c"
      using Suc.prems by (auto simp: chunk_rows_def subset_iff)
    from forward_rows_total [OF D(3) D(1) Suc.prems(6) this]
    obtain d1 kss where f: "forward_rows c lm (chunk_rows prompt s start ?stop) d = Some (d1, kss)" "reserved c S (blocks d1)"
      by blast
    then obtain g1 where ch: "prefill_chunk c lm prompt s start samp d = Some (d1, ?stop, g1)"
      using True by (simp add: prefill_chunk_def Let_def)
    note C = prefill_chunk_refine [OF Suc.prems(1-4) ch]
    have "\<exists>d' g. prefill_loop f c lm prompt s ?stop samp (case g1 of Some g0 \<Rightarrow> g0 | None \<Rightarrow> first) d1 = Some (d', g) \<and> reserved c S (blocks d')"
      by (rule Suc.IH [OF conjunct1 [OF C] Suc.prems(2)]) (use C Suc.prems f(2) in auto)
    then show ?thesis using ch True by (subst prefill_loop.simps) simp
  qed
qed

section \<open>The prefix cache hands out the right entries\<close>

lemma block_of_take: "Suc n * block_size c \<le> k \<Longrightarrow> block_of c (take k ts) n = block_of c ts n"
  by (simp add: block_of_def subslice_def drop_take min_def)

lemma prefix_hash_cong:
  "(\<And>i. i < n \<Longrightarrow> block_of c p i = block_of c q i) \<Longrightarrow> prefix_hash hash c p n = prefix_hash hash c q n"
  by (induction n) (auto simp: prefix_hash_Suc)

lemma prefix_hash_take: "n * block_size c \<le> k \<Longrightarrow> prefix_hash hash c (take k ts) n = prefix_hash hash c ts n"
proof (rule prefix_hash_cong)
  fix i assume nk: "n * block_size c \<le> k" and i: "i < n"
  have "Suc i * block_size c \<le> n * block_size c" using i by (intro mult_le_mono1) simp
  then show "block_of c (take k ts) i = block_of c ts i" using nk by (intro block_of_take) linarith
qed

lemma take_block: "take (Suc n * block_size c) ts = take (n * block_size c) ts @ block_of c ts n"
  using subslice_append [of 0 "n * block_size c" "Suc n * block_size c" ts] by (simp add: block_of_def subslice_def)

lemma prefix_hash_inj:
  assumes nc: "no_collision hash"
  shows "prefix_hash hash c p n = prefix_hash hash c q m \<Longrightarrow> n = m \<and> take (n * block_size c) p = take (n * block_size c) q"
proof (induction n arbitrary: m)
  case 0
  have ne: "hash a xs \<noteq> 0" for a xs using nc unfolding no_collision_def by blast
  show ?case
  proof (cases m)
    case (Suc k)
    then have "hash (prefix_hash hash c q k) (block_of c q k) = 0" using 0 by (simp add: prefix_hash_Suc)
    then show ?thesis using ne by blast
  qed simp
next
  case (Suc n)
  show ?case
  proof (cases m)
    case 0
    have "hash (prefix_hash hash c p n) (block_of c p n) = 0" using Suc.prems 0 by (simp add: prefix_hash_Suc)
    then show ?thesis using nc unfolding no_collision_def by blast
  next
    case (Suc m')
    have "prefix_hash hash c p n = prefix_hash hash c q m'" "block_of c p n = block_of c q m'"
      using Suc.prems nc unfolding Suc prefix_hash_Suc no_collision_def by blast+
    then show ?thesis using Suc.IH [of m'] Suc take_block [of n c p] take_block [of n c q] by auto
  qed
qed

lemma pool_inv_stats [simp]:
  "pool_inv c (bs\<lparr>hits := x\<rparr>) = pool_inv c bs" "pool_inv c (bs\<lparr>misses := x\<rparr>) = pool_inv c bs"
  by (simp_all add: pool_inv_def)

lemma dec_inv_reuse:
  assumes inv: "dec_inv hash c lm d r base" and nc: "no_collision hash" and s: "s < m_max c"
    and empty: "slot_blocks (blocks d) ! s = []" and len: "prompt \<noteq> []" "length prompt \<le> max_seq c"
    and reuse: "prefill_prefix_reuse hash c prompt s (blocks d) = ((cl, n), bs')"
  shows "dec_inv hash c lm (d\<lparr>blocks := bs'\<rparr>) (r(s := take cl prompt)) (base(s := cl)) \<and>
    cl = n * block_size c \<and> cl < length prompt \<and> length (slot_blocks bs' ! s) = n \<and>
    (\<forall>S. s \<in> S \<longrightarrow> reserved c S (blocks d) \<longrightarrow> reserved c S bs')"
proof -
  note D = dec_invD [OF inv]
  let ?bs = "blocks d" and ?bz = "block_size c" and ?hi = "(length prompt - 1) div block_size c"
  obtain bs1 where rl: "reuse_loop hash c prompt s [0 ..< ?hi] (prefix_hash hash c prompt 0) 0 ?bs = (n, bs1)"
    and bs': "bs' = bs1\<lparr>hits := hits bs1 + n\<rparr>" and cl: "cl = n * ?bz"
    using reuse by (auto simp: prefill_prefix_reuse_def split: prod.splits)
  have hi: "?hi \<le> max_blocks_per_seq c"
  proof -
    have "?hi < div_ceil (length prompt) ?bz" using len(1) D(2) by (intro div_lt_div_ceil) (auto simp: Suc_le_eq)
    then show ?thesis using cfg_ok_blocks [OF D(1) len(2)] by simp
  qed
  have lo: "0 = length (slot_blocks ?bs ! s)" using empty by simp
  note R = reuse_loop_correct [OF D(3) s lo hi rl]
  obtain xs where xs: "slot_blocks bs1 = (slot_blocks ?bs)[s := xs]" "length xs = n"
    "\<And>i. i < n \<Longrightarrow> cache_map ?bs (prefix_hash hash c prompt (Suc i)) = Some (xs ! i)"
    using R empty by auto
  have nl: "n \<le> ?hi" "pool_inv c bs1" "cache_map bs1 = cache_map ?bs" "block_hash bs1 = block_hash ?bs"
    using R by auto
  have l: "length (slot_blocks ?bs) = m_max c" by (rule pool_invD(4) [OF D(3)])
  have sb: "slot_blocks bs1 ! s' = (if s' = s then xs else slot_blocks ?bs ! s')" for s'
    using xs(1) s l by simp
  have nb: "n * ?bz < length prompt"
  proof -
    have "n * ?bz \<le> ?hi * ?bz" using nl(1) by simp
    also have "\<dots> \<le> length prompt - 1" by (rule div_times_less_eq_dividend)
    finally show ?thesis using len(1) by (cases prompt) auto
  qed
  have hash_x: "block_hash ?bs ! (xs ! i) = Some (prefix_hash hash c prompt (Suc i))" if "i < n" for i
    using xs(3) [OF that] pool_invD(10) [OF D(3)] by simp
  have rc: "refcount bs1 ! b = refcount ?bs ! b" if b: "b < n_blocks c" "block_hash ?bs ! b = None" for b
  proof -
    have "b \<notin> set xs" using hash_x b xs(2) by (auto simp: in_set_conv_nth)
    then have "count (mset (concat (slot_blocks bs1))) b = count (mset (concat (slot_blocks ?bs))) b"
      using count_concat_update [of s "slot_blocks ?bs" xs b] s l empty xs(1)
      by (simp add: count_eq_zero_iff)
    then show ?thesis using pool_invD(6) [OF D(3) b(1)] pool_invD(6) [OF nl(2) b(1)] by simp
  qed
  have res: "resident c lm (d\<lparr>blocks := bs1\<rparr>) s (take cl prompt)"
    unfolding resident_def
  proof (intro allI impI)
    fix p assume "p < length (take cl prompt)"
    then have p: "p < n * ?bz" using cl nb by simp
    let ?i = "p div ?bz"
    have i: "?i < n" using p D(2) by (simp add: less_mult_imp_div_less)
    from D(4) [unfolded cache_valid_def] xs(3) [OF i]
    obtain ts k where ts: "length ts = Suc k * ?bz" "prefix_hash hash c prompt (Suc ?i) = prefix_hash hash c ts (Suc k)"
      "\<And>j. j < ?bz \<Longrightarrow> mem d (xs ! ?i * ?bz + j) = kvs lm ts ! (k * ?bz + j)" by meson
    from prefix_hash_inj [OF nc ts(2)] have k: "k = ?i" and tk: "take (Suc ?i * ?bz) prompt = take (Suc ?i * ?bz) ts" by auto
    have pl: "p < Suc ?i * ?bz" using D(2) dividend_less_div_times [of ?bz p] by simp
    have il: "Suc ?i * ?bz \<le> length prompt"
    proof -
      have "Suc ?i * ?bz \<le> n * ?bz" using i by (intro mult_le_mono1) simp
      then show ?thesis using nb by simp
    qed
    have "mem d (xs ! ?i * ?bz + p mod ?bz) = kvs lm ts ! p"
      using ts(3) [of "p mod ?bz"] D(2) k by simp
    also have "\<dots> = kvs lm prompt ! p" using kvs_nth_prefix [OF tk pl il, where lm = lm] ts(1) k by simp
    finally have "mem d (xs ! ?i * ?bz + p mod ?bz) = kvs lm (take cl prompt) ! p"
      using p nb cl by (simp add: kvs_nth_take)
    then show "?i < length (slot_blocks (blocks (d\<lparr>blocks := bs1\<rparr>)) ! s) \<and>
        mem (d\<lparr>blocks := bs1\<rparr>) (loc c (blocks (d\<lparr>blocks := bs1\<rparr>)) s p) = kvs lm (take cl prompt) ! p"
      using i xs(2) by (simp add: sb loc_def)
  qed
  have reso: "resident c lm (d\<lparr>blocks := bs1\<rparr>) s' ts" if "s' \<noteq> s" "resident c lm d s' ts" for s' ts
    using that unfolding resident_def loc_def by (simp add: sb)
  have exo: "excl c bs1 s' b" if s': "s' \<noteq> s" "s' < m_max c" and e: "excl c ?bs s' b" for s' b
    unfolding excl_def
  proof (intro allI impI)
    fix lb assume lb: "b div ?bz \<le> lb \<and> lb < length (slot_blocks bs1 ! s')"
    then have lb': "lb < length (slot_blocks ?bs ! s')" using s' by (simp add: sb)
    have e': "refcount ?bs ! (slot_blocks ?bs ! s' ! lb) = 1" "block_hash ?bs ! (slot_blocks ?bs ! s' ! lb) = None"
      using e lb lb' unfolding excl_def by auto
    then show "refcount bs1 ! (slot_blocks bs1 ! s' ! lb) = 1 \<and> block_hash bs1 ! (slot_blocks bs1 ! s' ! lb) = None"
      using s' rc [OF slot_block_range [OF D(3) s'(2) lb'] e'(2)] nl(4) by (simp add: sb)
  qed
  have exs: "excl c bs1 s cl" using xs(2) cl D(2) by (auto simp: excl_def sb)
  have cv: "cache_valid hash c lm (d\<lparr>blocks := bs1\<rparr>)" using D(4) nl(3) by (simp add: cache_valid_def)
  have inv1: "dec_inv hash c lm (d\<lparr>blocks := bs1\<rparr>) (r(s := take cl prompt)) (base(s := cl))"
    unfolding dec_inv_def
    using D(1) nl(2) cv res reso exo exs D(5-7) nb cl by auto
  then have inv2: "dec_inv hash c lm (d\<lparr>blocks := bs'\<rparr>) (r(s := take cl prompt)) (base(s := cl))"
    unfolding bs' dec_inv_def cache_valid_def resident_def loc_def excl_def by simp
  have rsv: "reserved c S bs'" if S: "s \<in> S" "reserved c S ?bs" for S
  proof -
    have fin: "finite S" using S by (simp add: reserved_def)
    let ?mb = "max_blocks_per_seq c"
    have "(\<Sum>x\<in>S - {s}. ?mb - length (slot_blocks bs1 ! x)) = (\<Sum>x\<in>S - {s}. ?mb - length (slot_blocks ?bs ! x))"
      by (intro sum.cong) (auto simp: sb)
    moreover have "?mb - n + n = ?mb" using nl(1) hi by simp
    ultimately have "(\<Sum>x\<in>S. ?mb - length (slot_blocks bs1 ! x)) + n = (\<Sum>x\<in>S. ?mb - length (slot_blocks ?bs ! x))"
      using sum.remove [OF fin S(1), of "\<lambda>x. ?mb - length (slot_blocks bs1 ! x)"]
        sum.remove [OF fin S(1), of "\<lambda>x. ?mb - length (slot_blocks ?bs ! x)"] empty xs(2)
      by (simp add: sb)
    moreover have "free_blocks ?bs \<le> free_blocks bs1 + n" using R by simp
    ultimately have "reserved c S bs1" using S fin by (simp add: reserved_def)
    then show ?thesis by (simp add: bs' reserved_def free_blocks_def)
  qed
  have "length (slot_blocks bs' ! s) = n" using xs(2) by (simp add: bs' sb)
  then show ?thesis using inv2 cl nb rsv by blast
qed

lemma dec_inv_register:
  assumes inv: "dec_inv hash c lm d r base" and s: "s < m_max c" and rs: "r s = prompt"
    and base: "base s \<le> n * block_size c"
  shows "dec_inv hash c lm (d\<lparr>blocks := prefill_register hash c prompt s n (blocks d)\<rparr>) r (base(s := length prompt))"
    (is "dec_inv _ _ _ (d\<lparr>blocks := ?bs'\<rparr>) _ _")
proof -
  note D = dec_invD [OF inv]
  let ?bs = "blocks d" and ?bz = "block_size c" and ?nf = "length prompt div block_size c"
  have up: "base s div ?bz \<le> ?nf" using D(5) [OF s] rs by (simp add: div_le_mono)
  have exmono: "excl c bs s b \<Longrightarrow> b \<le> b' \<Longrightarrow> excl c bs s b'" for bs b b'
    unfolding excl_def using div_le_mono le_trans by blast
  show ?thesis
  proof (cases "?nf \<le> n")
    case True
    then have "?bs' = ?bs" by (simp add: prefill_register_def Let_def)
    then have "d\<lparr>blocks := ?bs'\<rparr> = d" by simp
    moreover have "excl c ?bs s (length prompt)"
      by (rule exmono [OF D(7) [OF s]]) (use D(5) [OF s] rs in simp)
    ultimately show ?thesis using inv rs unfolding dec_inv_def by auto
  next
    case False
    let ?b0 = "?bs\<lparr>misses := misses ?bs + (?nf - n)\<rparr>"
    have run: "?bs' = register_loop hash c prompt s [n ..< ?nf] (prefix_hash hash c prompt n) ?b0"
      using False by (simp add: prefill_register_def Let_def prefix_hash_def)
    have i0: "pool_inv c ?b0" using D(3) by simp
    have full: "?nf \<le> length (slot_blocks ?b0 ! s)"
    proof (cases "?nf = 0")
      case False
      have "?nf * ?bz \<le> length prompt" by (rule div_times_less_eq_dividend)
      moreover have "0 < ?nf * ?bz" using False D(2) by simp
      ultimately have "?nf * ?bz - 1 < length (r s)" unfolding rs by linarith
      then have "(?nf * ?bz - 1) div ?bz < length (slot_blocks ?bs ! s)" using D(6) [OF s] unfolding resident_def by blast
      moreover have "?nf - 1 \<le> (?nf * ?bz - 1) div ?bz"
        using False D(2) by (simp add: less_eq_div_iff_mult_less_eq diff_mult_distrib)
      ultimately show ?thesis using False by simp
    qed simp
    have bn: "base s div ?bz \<le> n" using div_le_mono [OF base, of ?bz] D(2) by simp
    have ex: "refcount ?bs ! (slot_blocks ?bs ! s ! lb) = 1 \<and> block_hash ?bs ! (slot_blocks ?bs ! s ! lb) = None"
      if "n \<le> lb" "lb < length (slot_blocks ?bs ! s)" for lb
      using D(7) [OF s] that bn unfolding excl_def by auto
    have nh: "\<forall>lb. n \<le> lb \<and> lb < ?nf \<longrightarrow> block_hash ?b0 ! (slot_blocks ?b0 ! s ! lb) = None"
      using ex full by auto
    have dd: "\<forall>lb lb'. n \<le> lb \<and> lb < ?nf \<and> n \<le> lb' \<and> lb' < ?nf \<and> slot_blocks ?b0 ! s ! lb = slot_blocks ?b0 ! s ! lb' \<longrightarrow> lb = lb'"
    proof (intro allI impI)
      fix lb lb' assume a: "n \<le> lb \<and> lb < ?nf \<and> n \<le> lb' \<and> lb' < ?nf \<and> slot_blocks ?b0 ! s ! lb = slot_blocks ?b0 ! s ! lb'"
      then have l: "lb < length (slot_blocks ?bs ! s)" "lb' < length (slot_blocks ?bs ! s)" using full by auto
      have rc: "refcount ?bs ! (slot_blocks ?bs ! s ! lb) = 1" using ex [OF _ l(1)] a by blast
      have "slot_blocks ?b0 ! s ! lb = slot_blocks ?b0 ! s ! lb'" using a by blast
      then have eq: "slot_blocks ?bs ! s ! lb' = slot_blocks ?bs ! s ! lb" by simp
      from sole_owner [OF D(3) s l(1) rc s l(2) eq] show "lb = lb'" by blast
    qed
    note R = register_loop_correct [OF i0 s full nh dd run]
    have sb: "slot_blocks ?bs' = slot_blocks ?bs" "refcount ?bs' = refcount ?bs" unfolding run by simp_all
    have pi: "pool_inv c ?bs'" using R by blast
    have new: "cache_map ?bs h = Some b \<or> (\<exists>lb. n \<le> lb \<and> lb < ?nf \<and> h = prefix_hash hash c prompt (Suc lb) \<and> b = slot_blocks ?bs ! s ! lb)"
      if "cache_map ?bs' h = Some b" for h b
      using R that by fastforce
    have hsh: "block_hash ?bs' ! b = None" if b: "b < n_blocks c" "block_hash ?bs ! b = None"
        "\<And>lb. n \<le> lb \<Longrightarrow> lb < ?nf \<Longrightarrow> b \<noteq> slot_blocks ?bs ! s ! lb" for b
    proof (rule ccontr)
      assume "block_hash ?bs' ! b \<noteq> None"
      then obtain h where "block_hash ?bs' ! b = Some h" by blast
      then have "cache_map ?bs' h = Some b" using pool_invD(10) [OF pi, of h b] b(1) by simp
      from new [OF this] show False using b pool_invD(10) [OF D(3), of h b] by auto
    qed
    have cv: "cache_valid hash c lm (d\<lparr>blocks := ?bs'\<rparr>)"
      unfolding cache_valid_def
    proof (intro allI impI)
      fix h b assume "cache_map (blocks (d\<lparr>blocks := ?bs'\<rparr>)) h = Some b"
      then have "cache_map ?bs' h = Some b" by simp
      from new [OF this] consider "cache_map ?bs h = Some b"
        | lb where "n \<le> lb" "lb < ?nf" "h = prefix_hash hash c prompt (Suc lb)" "b = slot_blocks ?bs ! s ! lb" by blast
      then show "\<exists>ts n. length ts = Suc n * ?bz \<and> h = prefix_hash hash c ts (Suc n) \<and>
          (\<forall>j<?bz. mem (d\<lparr>blocks := ?bs'\<rparr>) (b * ?bz + j) = kvs lm ts ! (n * ?bz + j))"
      proof cases
        case 1
        then show ?thesis using D(4) unfolding cache_valid_def by simp
      next
        case (2 lb)
        have le: "Suc lb * ?bz \<le> length prompt"
        proof -
          have "Suc lb * ?bz \<le> ?nf * ?bz" using 2(2) by (intro mult_le_mono1) simp
          also have "\<dots> \<le> length prompt" by (rule div_times_less_eq_dividend)
          finally show ?thesis .
        qed
        show ?thesis
        proof (intro exI [of _ "take (Suc lb * ?bz) prompt"] exI [of _ lb] conjI allI impI)
          show "length (take (Suc lb * ?bz) prompt) = Suc lb * ?bz" using le by simp
          show "h = prefix_hash hash c (take (Suc lb * ?bz) prompt) (Suc lb)"
            using 2(3) prefix_hash_take [of "Suc lb" c "Suc lb * ?bz" hash prompt] by simp
          fix j assume j: "j < ?bz"
          have p: "lb * ?bz + j < Suc lb * ?bz" "lb * ?bz + j < length (r s)" using j le rs by auto
          have "mem d (loc c ?bs s (lb * ?bz + j)) = kvs lm prompt ! (lb * ?bz + j)"
            using D(6) [OF s] p(2) rs unfolding resident_def by blast
          then show "mem (d\<lparr>blocks := ?bs'\<rparr>) (b * ?bz + j) = kvs lm (take (Suc lb * ?bz) prompt) ! (lb * ?bz + j)"
            using 2(4) j p(1) le by (simp add: loc_def kvs_nth_take)
        qed
      qed
    qed
    have res: "resident c lm (d\<lparr>blocks := ?bs'\<rparr>) s' ts = resident c lm d s' ts" for s' ts
      by (simp add: resident_def loc_def sb)
    have exo: "excl c ?bs' s' b" if s': "s' < m_max c" and e: "excl c ?bs s' b" and w: "s' = s \<Longrightarrow> b = length prompt" for s' b
      unfolding excl_def sb
    proof (intro allI impI conjI)
      fix lb assume lb: "b div ?bz \<le> lb \<and> lb < length (slot_blocks ?bs ! s')"
      let ?x = "slot_blocks ?bs ! s' ! lb"
      have x: "refcount ?bs ! ?x = 1" "block_hash ?bs ! ?x = None" using e lb unfolding excl_def by auto
      show "refcount ?bs ! ?x = 1" by (rule x(1))
      show "block_hash ?bs' ! ?x = None"
      proof (rule hsh [OF slot_block_range [OF D(3) s'] x(2)])
        show "lb < length (slot_blocks ?bs ! s')" using lb by simp
        fix k assume k: "n \<le> k" "k < ?nf"
        show "?x \<noteq> slot_blocks ?bs ! s ! k"
        proof
          assume eq: "?x = slot_blocks ?bs ! s ! k"
          have "k < length (slot_blocks ?bs ! s)" using k full by simp
          from sole_owner [OF D(3) s' _ x(1) s this] eq lb have "s = s'" "k = lb" by auto
          then show False using w lb k by simp
        qed
      qed
    qed
    have "excl c ?bs s (length prompt)"
      by (rule exmono [OF D(7) [OF s]]) (use D(5) [OF s] rs in simp)
    then show ?thesis
      unfolding dec_inv_def using D(1,5-7) pi cv res exo s rs by simp
  qed
qed

lemma dec_inv_release:
  assumes inv: "dec_inv hash c lm d r base" and s: "s < m_max c"
  shows "dec_inv hash c lm (release_slot s d) (r(s := [])) (base(s := 0))"
proof -
  note D = dec_invD [OF inv]
  let ?bs = "blocks d" and ?bs' = "free_slot s (blocks d)"
  have l: "s < length (slot_blocks ?bs)" using pool_invD(4) [OF D(3)] s by simp
  have pi: "pool_inv c ?bs'" by (rule free_slot_inv [OF D(3) s])
  have cv: "cache_valid hash c lm (release_slot s d)" using D(4) by (simp add: cache_valid_def release_slot_def)
  have res: "resident c lm (release_slot s d) s' ts" if "s' \<noteq> s" "resident c lm d s' ts" for s' ts
    using that by (simp add: resident_def loc_def release_slot_def)
  have ex: "excl c ?bs' s' b" if s': "s' \<noteq> s" "s' < m_max c" and e: "excl c ?bs s' b" for s' b
    unfolding excl_def
  proof (intro allI impI)
    fix lb assume lb: "b div block_size c \<le> lb \<and> lb < length (slot_blocks ?bs' ! s')"
    then have lb': "lb < length (slot_blocks ?bs ! s')" "lb < length (slot_blocks ?bs' ! s')" using s' by auto
    let ?x = "slot_blocks ?bs ! s' ! lb"
    have x: "refcount ?bs ! ?x = 1" "block_hash ?bs ! ?x = None" using e lb lb' unfolding excl_def by auto
    have xr: "?x < n_blocks c" by (rule slot_block_range [OF D(3) s'(2) lb'(1)])
    have "refcount ?bs' ! ?x \<le> refcount ?bs ! ?x"
      using pool_invD(6) [OF pi xr] pool_invD(6) [OF D(3) xr] count_concat_update [OF l, of "[]" ?x] by simp
    moreover have "0 < refcount ?bs' ! ?x"
      using slot_block_ref [OF pi s'(2) lb'(2)] s' by simp
    ultimately show "refcount ?bs' ! (slot_blocks ?bs' ! s' ! lb) = 1 \<and> block_hash ?bs' ! (slot_blocks ?bs' ! s' ! lb) = None"
      using x s' by simp
  qed
  have exs: "excl c ?bs' s 0" using l by (simp add: excl_def)
  have rs: "resident c lm (release_slot s d) s []" by (simp add: resident_def)
  show ?thesis
    unfolding dec_inv_def
    using D(1,5-7) pi cv res ex exs rs by (auto simp: release_slot_def)
qed

lemma dec_inv_forget:
  assumes inv: "dec_inv hash c lm d r base" and n: "base s \<le> n"
  shows "dec_inv hash c lm d (r(s := take n (r s))) base"
proof -
  note D = dec_invD [OF inv]
  have "resident c lm d s (take n (r s))" if "s < m_max c"
    using D(6) [OF that] by (simp add: resident_def kvs_nth_take)
  then show ?thesis
    unfolding dec_inv_def using D n by auto
qed

lemma dec_inv_empty_slot:
  assumes "dec_inv hash c lm d r base" "s < m_max c" "slot_blocks (blocks d) ! s = []"
  shows "r s = []" "base s = 0"
proof -
  show r: "r s = []"
    using dec_invD(6) [OF assms(1,2)] assms(3) unfolding resident_def by (cases "r s") auto
  show "base s = 0" using dec_invD(5) [OF assms(1,2)] r by simp
qed

lemma dec_inv_fresh: "cfg_ok c \<Longrightarrow> dec_inv hash c lm \<lparr>blocks = fresh_blocks c ff, mem = m\<rparr> (\<lambda>_. []) (\<lambda>_. 0)"
  by (simp add: dec_inv_def pool_inv_fresh) (auto simp: cache_valid_def resident_def excl_def fresh_blocks_def)

lemma new_paged_ok: "new_paged ff m ms bsz nb = Some (c, bs) \<Longrightarrow> 0 < bsz \<Longrightarrow>
  cfg_ok c \<and> max_blocks_per_seq c \<le> n_blocks c \<and> bs = fresh_blocks c ff"
  by (auto simp: new_paged_def Let_def cfg_ok_def split: if_splits)

lemma prefill_slot_from_correct:
  assumes "dec_inv hash c lm d r base" "s < m_max c" "r s = take start prompt" "base s \<le> start" "start < length prompt"
    and "prefill_slot_from c lm prompt s start samp d = Some (d', g)"
  shows "dec_inv hash c lm d' (r(s := prompt)) base \<and> g = lm_pick lm (kvs lm prompt) (samp_select samp)"
proof -
  have run: "prefill_loop (length prompt) c lm prompt s start samp 0 d = Some (d', g)"
    using assms(6) by (simp add: prefill_slot_from_def split: if_splits)
  show ?thesis by (rule prefill_loop_refine [OF assms(1-4) _ _ run]) (use assms(5) in auto)
qed

lemma prefill_slot_from_total:
  assumes "dec_inv hash c lm d r base" "s < m_max c" "r s = take start prompt" "base s \<le> start" "start < length prompt"
    and "reserved c S (blocks d)" "s \<in> S" "length prompt \<le> max_seq c" "set prompt \<subseteq> {..<lm_vocab lm}"
  shows "\<exists>d' g. prefill_slot_from c lm prompt s start samp d = Some (d', g) \<and> reserved c S (blocks d')"
proof -
  have "\<exists>d' g. prefill_loop (length prompt) c lm prompt s start samp 0 d = Some (d', g) \<and> reserved c S (blocks d')"
    by (rule prefill_loop_total [OF assms(1-4) _ assms(6-9)]) (use assms(5) in auto)
  moreover have "prompt \<noteq> []" using assms(5) by auto
  ultimately show ?thesis using assms(5,8) by (simp add: prefill_slot_from_def)
qed

text \<open>Prefill through the prefix cache leaves what a cold prefill would, and selects the same token.\<close>

lemma prefill_slot_cached_correct:
  assumes inv: "dec_inv hash c lm d r base" and nc: "no_collision hash" and s: "s < m_max c"
    and empty: "slot_blocks (blocks d) ! s = []"
    and run: "prefill_slot_cached hash c lm prompt s samp d = Some (d', g, cl)"
  shows "dec_inv hash c lm d' (r(s := prompt)) (base(s := length prompt))"
    "g = lm_pick lm (kvs lm prompt) (samp_select samp)" "cl < length prompt"
proof -
  obtain n bs1 d1 where len: "prompt \<noteq> []" "length prompt \<le> max_seq c"
    and reuse: "prefill_prefix_reuse hash c prompt s (blocks d) = ((cl, n), bs1)"
    and pf: "prefill_slot_from c lm prompt s cl samp (d\<lparr>blocks := bs1\<rparr>) = Some (d1, g)"
    and d': "d' = d1\<lparr>blocks := prefill_register hash c prompt s n (blocks d1)\<rparr>"
    using run by (auto simp: prefill_slot_cached_def Let_def split: if_splits prod.splits option.splits)
  note U = dec_inv_reuse [OF inv nc s empty len reuse]
  have cl: "cl = n * block_size c" "cl < length prompt" using U by auto
  have "dec_inv hash c lm d1 ((r(s := take cl prompt))(s := prompt)) (base(s := cl)) \<and> g = lm_pick lm (kvs lm prompt) (samp_select samp)"
    by (rule prefill_slot_from_correct [OF conjunct1 [OF U] s _ _ cl(2) pf]) auto
  then have P: "dec_inv hash c lm d1 (r(s := prompt)) (base(s := cl))" and g: "g = lm_pick lm (kvs lm prompt) (samp_select samp)"
    by (simp_all only: fun_upd_upd simp_thms)
  have "dec_inv hash c lm (d1\<lparr>blocks := prefill_register hash c prompt s n (blocks d1)\<rparr>) (r(s := prompt)) ((base(s := cl))(s := length prompt))"
    by (rule dec_inv_register [OF P s]) (use cl in auto)
  then show "dec_inv hash c lm d' (r(s := prompt)) (base(s := length prompt))" by (simp only: d' fun_upd_upd)
  show "g = lm_pick lm (kvs lm prompt) (samp_select samp)" "cl < length prompt" by (fact g, fact cl(2))
qed

lemma prefill_register_frame [simp]:
  "slot_blocks (prefill_register hash c p s n bs) = slot_blocks bs"
  "refcount (prefill_register hash c p s n bs) = refcount bs"
  by (simp_all add: prefill_register_def Let_def)

lemma reserved_register:
  assumes "pool_inv c bs" "pool_inv c (prefill_register hash c p s n bs)" "reserved c S bs"
  shows "reserved c S (prefill_register hash c p s n bs)"
  using assms(3) unfolding reserved_def free_blocks_card [OF assms(1)] free_blocks_card [OF assms(2)] by simp

lemma prefill_slot_cached_total:
  assumes inv: "dec_inv hash c lm d r base" and nc: "no_collision hash" and s: "s < m_max c"
    and empty: "slot_blocks (blocks d) ! s = []"
    and rsv: "reserved c S (blocks d)" "s \<in> S" and len: "prompt \<noteq> []" "length prompt \<le> max_seq c"
    and voc: "set prompt \<subseteq> {..<lm_vocab lm}"
  shows "\<exists>d' g cl. prefill_slot_cached hash c lm prompt s samp d = Some (d', g, cl)"
proof -
  obtain cl n bs1 where reuse: "prefill_prefix_reuse hash c prompt s (blocks d) = ((cl, n), bs1)"
    by (metis prod.collapse)
  note U = dec_inv_reuse [OF inv nc s empty len reuse]
  have rs: "reserved c S (blocks (d\<lparr>blocks := bs1\<rparr>))" using U rsv by simp
  have "\<exists>d' g. prefill_slot_from c lm prompt s cl samp (d\<lparr>blocks := bs1\<rparr>) = Some (d', g) \<and> reserved c S (blocks d')"
    by (rule prefill_slot_from_total [OF conjunct1 [OF U] s _ _ _ rs rsv(2) len(2) voc]) (use U in auto)
  then show ?thesis using len reuse by (auto simp: prefill_slot_cached_def)
qed

section \<open>Prompt-lookup generation is greedy decoding\<close>

text \<open>Greedy decoding of at most \<open>n\<close> tokens, stopping after the end-of-sequence token.\<close>

fun stop_greedy :: "(token list \<Rightarrow> token) \<Rightarrow> token list \<Rightarrow> token \<Rightarrow> nat \<Rightarrow> token list" where
  "stop_greedy g ctx eos 0 = []"
| "stop_greedy g ctx eos (Suc n) =
    (let t = g ctx in if t = eos then [t] else t # stop_greedy g (ctx @ [t]) eos n)"

lemma stop_greedy_full:
  "eos \<notin> set (greedy g ctx n) \<Longrightarrow> stop_greedy g ctx eos n = greedy g ctx n"
  by (induction n arbitrary: ctx) (auto simp: Let_def)

lemma stop_greedy_eos:
  "m \<le> n \<Longrightarrow> 0 < m \<Longrightarrow> eos \<notin> set (butlast (greedy g ctx m)) \<Longrightarrow> last (greedy g ctx m) = eos \<Longrightarrow>
   stop_greedy g ctx eos n = greedy g ctx m"
proof (induction n arbitrary: ctx m)
  case (Suc n)
  obtain k where m: "m = Suc k" using Suc.prems by (cases m) auto
  show ?case
  proof (cases k)
    case 0
    then show ?thesis using Suc.prems m by (simp add: Let_def)
  next
    case (Suc j)
    have ne: "greedy g (ctx @ [g ctx]) k \<noteq> []" using Suc by simp
    have "stop_greedy g (ctx @ [g ctx]) eos n = greedy g (ctx @ [g ctx]) k"
      using Suc.prems(1,3,4) m ne by (intro Suc.IH) (auto simp: Suc)
    then show ?thesis using Suc.prems(3) m ne by (simp add: Let_def)
  qed
qed simp

lemma stop_greedy_done:
  assumes "p = greedy g ctx (length p)" "eos \<notin> set (butlast p)" "0 < length p" "length p \<le> n"
    and "n \<le> length p \<or> last p = eos"
  shows "stop_greedy g ctx eos n = p"
proof (cases "last p = eos")
  case True
  have "stop_greedy g ctx eos n = greedy g ctx (length p)"
    by (rule stop_greedy_eos) (use assms True in \<open>simp_all add: assms(1) [symmetric]\<close>)
  then show ?thesis using assms(1) by simp
next
  case False
  have pe: "p = butlast p @ [last p]" using assms(3) by simp
  have "eos \<notin> set (butlast p @ [last p])" using assms(2) False by simp
  then have "eos \<notin> set p" using pe by simp
  moreover have "n = length p" using assms False by simp
  ultimately show ?thesis using stop_greedy_full [of eos g ctx n] assms(1) by simp
qed

lemma accepted_greedy:
  assumes "length outs = Suc (length d)" "\<And>i. i \<le> length d \<Longrightarrow> outs ! i = g (h @ take i d)"
  shows "count_accepted outs d \<le> length d \<and> take (count_accepted outs d) d = greedy g h (count_accepted outs d) \<and>
    take (Suc (count_accepted outs d)) outs = greedy g h (Suc (count_accepted outs d))"
  using assms
proof (induction d arbitrary: outs h)
  case Nil
  then show ?case using Nil(2) [of 0] by (cases outs) auto
next
  case (Cons y d)
  obtain x outs' where o: "outs = x # outs'" using Cons.prems(1) by (cases outs) auto
  have x: "x = g h" using Cons.prems(2) [of 0] o by simp
  show ?case
  proof (cases "x = y")
    case True
    have "outs' ! i = g ((h @ [y]) @ take i d)" if "i \<le> length d" for i
      using Cons.prems(2) [of "Suc i"] that o by simp
    moreover have "length outs' = Suc (length d)" using Cons.prems(1) o by simp
    ultimately have "count_accepted outs' d \<le> length d \<and> take (count_accepted outs' d) d = greedy g (h @ [y]) (count_accepted outs' d) \<and>
      take (Suc (count_accepted outs' d)) outs' = greedy g (h @ [y]) (Suc (count_accepted outs' d))"
      by (intro Cons.IH)
    then show ?thesis using True o x by simp
  next
    case False
    then show ?thesis using o x by simp
  qed
qed

lemma commit_outs_greedy:
  assumes "ts = greedy g (ctx @ p) (length ts)" "ts \<noteq> []" "p = greedy g ctx (length p)" "eos \<notin> set p" "length p < mx"
  shows "\<exists>n. 0 < n \<and> n \<le> length ts \<and> commit_outs ts eos mx p = p @ take n ts \<and> length p + n \<le> mx \<and>
    eos \<notin> set (butlast (p @ take n ts)) \<and> p @ take n ts = greedy g ctx (length p + n) \<and>
    (n = length ts \<or> last (p @ take n ts) = eos \<or> length p + n = mx)"
  using assms
proof (induction ts arbitrary: p)
  case (Cons t ts)
  have t: "t = g (ctx @ p)" and ts: "ts = greedy g (ctx @ p @ [t]) (length ts)" using Cons.prems(1) by auto
  have pt: "p @ [t] = greedy g ctx (Suc (length p))"
    using Cons.prems(3) t greedy_Suc_append [of g ctx "length p"] by (simp del: greedy.simps)
  show ?case
  proof (cases "t = eos \<or> mx \<le> length p + 1")
    case True
    then show ?thesis using Cons.prems(4,5)
      by (intro exI [of _ 1]) (auto simp: pt [symmetric] butlast_append simp del: greedy.simps)
  next
    case False
    show ?thesis
    proof (cases "ts = []")
      case True
      then show ?thesis using Cons.prems(4,5) False
        by (intro exI [of _ 1]) (auto simp: pt [symmetric] butlast_append simp del: greedy.simps)
    next
      case ne: False
      have "\<exists>n. 0 < n \<and> n \<le> length ts \<and> commit_outs ts eos mx (p @ [t]) = (p @ [t]) @ take n ts \<and> length (p @ [t]) + n \<le> mx \<and>
        eos \<notin> set (butlast ((p @ [t]) @ take n ts)) \<and> (p @ [t]) @ take n ts = greedy g ctx (length (p @ [t]) + n) \<and>
        (n = length ts \<or> last ((p @ [t]) @ take n ts) = eos \<or> length (p @ [t]) + n = mx)"
      proof (rule Cons.IH)
        show "ts = greedy g (ctx @ p @ [t]) (length ts)" by (rule ts)
        show "ts \<noteq> []" by (rule ne)
        show "p @ [t] = greedy g ctx (length (p @ [t]))" by (simp add: pt [symmetric] del: greedy.simps)
        show "eos \<notin> set (p @ [t])" "length (p @ [t]) < mx" using False Cons.prems(4) by auto
      qed
      then obtain n where n: "0 < n" "n \<le> length ts" "length (p @ [t]) + n \<le> mx"
        and co: "commit_outs ts eos mx (p @ [t]) = (p @ [t]) @ take n ts"
        and bl: "eos \<notin> set (butlast ((p @ [t]) @ take n ts))"
        and gr: "(p @ [t]) @ take n ts = greedy g ctx (length (p @ [t]) + n)"
        and fin: "n = length ts \<or> last ((p @ [t]) @ take n ts) = eos \<or> length (p @ [t]) + n = mx" by blast
      have e: "p @ take (Suc n) (t # ts) = (p @ [t]) @ take n ts" by simp
      have c: "commit_outs (t # ts) eos mx p = commit_outs ts eos mx (p @ [t])" using False by simp
      have l: "length p + Suc n = length (p @ [t]) + n" by simp
      show ?thesis
        by (rule exI [of _ "Suc n"], unfold e c l, intro conjI co bl gr n(3)) (use n fin in auto)
    qed
  qed
qed simp

text \<open>The rows of one verification: the last token and the draft, at consecutive positions.\<close>

lemma abs_rows_cut:
  assumes "take a (r s) = take a prompt" "a < b"
  shows "abs_rows r (chunk_rows prompt s a b) = abs_rows (r(s := take a prompt)) (chunk_rows prompt s a b)"
  using assms by (simp add: chunk_rows_Suc)

lemma rows_ok_cut:
  assumes "take a (r s) = take a prompt" "a < b" "a \<le> length (r s)" "a \<le> length prompt"
  shows "rows_ok c base r (chunk_rows prompt s a b) = rows_ok c base (r(s := take a prompt)) (chunk_rows prompt s a b)"
  using assms by (simp add: chunk_rows_Suc)

lemma draft_rows_chunk:
  "map (\<lambda>i. (inp ! i, length ctx + i, s)) [0 ..< length inp] = chunk_rows (ctx @ inp) s (length ctx) (length ctx + length inp)"
  unfolding chunk_rows_def by (rule nth_equalityI) (auto simp: nth_append)

lemma step_slotted_draft:
  assumes inv: "dec_inv hash c lm d r base" and s: "s < m_max c" and b: "base s \<le> length ctx"
    and cut: "take (length ctx) (r s) = ctx" and inp: "inp \<noteq> []"
    and run: "step_slotted c lm (map (\<lambda>i. (inp ! i, length ctx + i, s)) [0 ..< length inp]) d = Some (d', outs)"
  shows "dec_inv hash c lm d' (r(s := ctx @ inp)) base \<and> length outs = length inp \<and>
    (\<forall>i<length inp. outs ! i = next_greedy lm (ctx @ take (Suc i) inp))"
proof -
  let ?rows = "chunk_rows (ctx @ inp) s (length ctx) (length ctx + length inp)"
  let ?r0 = "r(s := take (length ctx) (ctx @ inp))"
  have lt: "length ctx < length ctx + length inp" using inp by simp
  have len: "length ctx \<le> length (r s)" using cut by (metis length_take min.absorb_iff2 min.commute)
  have cut': "take (length ctx) (r s) = take (length ctx) (ctx @ inp)" using cut by simp
  obtain kss where f: "forward_rows c lm ?rows d = Some (d', kss)" and o: "outs = map2 (lm_pick lm) kss (replicate (length ?rows) SelGreedy)"
    using run unfolding step_slotted_def step_rows_def draft_rows_chunk by (auto split: if_splits option.splits)
  have ab: "abs_rows r ?rows = (?r0(s := take (length ctx + length inp) (ctx @ inp)),
      map (\<lambda>p. take (Suc p) (ctx @ inp)) [length ctx ..< length ctx + length inp])"
    unfolding abs_rows_cut [where r = r and s = s and a = "length ctx" and prompt = "ctx @ inp", OF cut' lt]
    by (rule abs_rows_chunk) auto
  have ok: "rows_ok c base r ?rows"
  proof -
    have "rows_ok c base ?r0 ?rows" by (rule rows_ok_chunk) (use s b in auto)
    then show ?thesis
      using rows_ok_cut [where r = r and s = s and a = "length ctx" and prompt = "ctx @ inp", OF cut' lt len] by simp
  qed
  note F = forward_rows_refine [OF inv ok f]
  have k: "kss = map (\<lambda>i. kvs lm (ctx @ take (Suc i) inp)) [0 ..< length inp]"
    unfolding F(2) ab by (rule nth_equalityI) (auto simp del: kvs_snoc)
  have "length ?rows = length inp" by (simp add: chunk_rows_def)
  then have "length outs = length inp \<and> (\<forall>i<length inp. outs ! i = next_greedy lm (ctx @ take (Suc i) inp))"
    unfolding o k by (simp add: next_greedy_def)
  moreover have "dec_inv hash c lm d' (r(s := ctx @ inp)) base" using F(1) unfolding ab by simp
  ultimately show ?thesis by blast
qed

lemma step_slotted_total:
  assumes "dec_inv hash c lm d r base" "reserved c S (blocks d)" "rows \<noteq> []" "length rows \<le> m_max c"
    and "\<forall>(t, p, s)\<in>set rows. t < lm_vocab lm \<and> s \<in> S \<and> s < m_max c \<and> p < max_seq c"
  shows "\<exists>d' outs. step_slotted c lm rows d = Some (d', outs) \<and> reserved c S (blocks d')"
  using forward_rows_total [OF dec_invD(3,1) [OF assms(1)] assms(2,5)] assms(3,4)
  by (auto simp: step_slotted_def step_rows_def)

definition pld_inv ::
  "(nat \<Rightarrow> token list \<Rightarrow> nat) \<Rightarrow> pool_cfg \<Rightarrow> 'kv lm \<Rightarrow> token list \<Rightarrow> nat \<Rightarrow> token \<Rightarrow> pld_state \<Rightarrow> 'kv decoder \<Rightarrow> bool" where
  "pld_inv hash c lm prompt mx eos st d =
    (\<exists>r base. dec_inv hash c lm d r base \<and> base 0 \<le> length prompt \<and> reserved c {0} (blocks d) \<and>
       pl_produced st = greedy (next_greedy lm) prompt (length (pl_produced st)) \<and>
       0 < length (pl_produced st) \<and> length (pl_produced st) \<le> max 1 mx \<and>
       eos \<notin> set (butlast (pl_produced st)) \<and> pl_forwards st < length (pl_produced st) \<and>
       (length (pl_produced st) < mx \<and> last (pl_produced st) \<noteq> eos \<longrightarrow>
          pl_pos st = length prompt + length (pl_produced st) - 1 \<and>
          take (pl_pos st) (r 0) = prompt @ butlast (pl_produced st)))"

lemma greedy_vocab:
  "(\<And>ks sel. lm_pick lm ks sel < lm_vocab lm) \<Longrightarrow> set (greedy (next_greedy lm) ctx n) \<subseteq> {..<lm_vocab lm}"
  by (induction n arbitrary: ctx) (auto simp: next_greedy_def)

lemma draft_bounds:
  "lookup_draft_best h recent ml k = Some d \<Longrightarrow> d \<noteq> [] \<and> length d \<le> k \<and> set d \<subseteq> set h"
  using lookup_draft_bounds unfolding lookup_draft_best_def first_some_Some by blast

lemma pld_round_correct:
  assumes inv: "pld_inv hash c lm prompt mx eos st d"
    and more: "length (pl_produced st) < mx" "last (pl_produced st) \<noteq> eos"
    and pick: "\<And>ks sel. lm_pick lm ks sel < lm_vocab lm" and voc: "set prompt \<subseteq> {..<lm_vocab lm}"
    and m: "draft_k + 1 \<le> m_max c" and fits: "length prompt + mx \<le> max_seq c"
  shows "\<exists>st' d'. pld_round c lm prompt mx eos ll draft_k st d = Some (st', d') \<and>
    pld_inv hash c lm prompt mx eos st' d' \<and> length (pl_produced st) < length (pl_produced st')"
proof -
  define pr where "pr = pl_produced st"
  define g where "g = next_greedy lm"
  define ctx where "ctx = prompt @ butlast pr"
  define nxt where "nxt = last pr"
  obtain r base where di: "dec_inv hash c lm d r base" and b0: "base 0 \<le> length prompt" and rsv: "reserved c {0} (blocks d)"
    and gr: "pr = greedy g prompt (length pr)" and pos: "0 < length pr" and ne: "eos \<notin> set (butlast pr)"
    and fw: "pl_forwards st < length pr" and pp: "pl_pos st = length prompt + length pr - 1"
    and tk: "take (pl_pos st) (r 0) = ctx"
    using inv more unfolding pld_inv_def pr_def g_def ctx_def by blast
  have pc: "pl_pos st = length ctx" using pp pos by (cases pr) (auto simp: ctx_def)
  have prs: "pr = butlast pr @ [nxt]" using pos by (simp add: nxt_def)
  have hist: "prompt @ pr = ctx @ [nxt]" using prs by (simp add: ctx_def)
  have nep: "eos \<notin> set pr" using ne more(2) prs pr_def nxt_def
    by (metis Un_iff empty_iff empty_set set_ConsD set_append)
  have s0: "0 < m_max c" using m by simp
  have hv: "set (prompt @ pr) \<subseteq> {..<lm_vocab lm}"
    using voc greedy_vocab [OF pick, of prompt "length pr"] gr unfolding g_def by (metis Un_least set_append)
  let ?k = "min draft_k (mx - length pr)"
  define dr where "dr = (case lookup_draft_best (prompt @ pr) (prompt @ pr) ll ?k of Some dr \<Rightarrow> dr | None \<Rightarrow> [])"
  have drb: "length dr \<le> ?k" "set dr \<subseteq> set (prompt @ pr)"
    using draft_bounds [of "prompt @ pr" "prompt @ pr" ll ?k]
    unfolding dr_def by (cases "lookup_draft_best (prompt @ pr) (prompt @ pr) ll ?k"; simp)+
  define inp where "inp = nxt # dr"
  define rows where "rows = map (\<lambda>i. (inp ! i, length ctx + i, 0 :: nat)) [0 ..< length inp]"
  have li: "length inp = Suc (length dr)" "inp \<noteq> []" by (simp_all add: inp_def)
  have rl: "length rows \<le> m_max c" "rows \<noteq> []" using drb(1) m li by (simp_all add: rows_def)
  have iv: "set inp \<subseteq> {..<lm_vocab lm}" using drb(2) hv prs by (auto simp: inp_def hist)
  have "\<forall>(t, p, s)\<in>set rows. t < lm_vocab lm \<and> s \<in> {0} \<and> s < m_max c \<and> p < max_seq c"
  proof -
    have "length ctx + i < max_seq c" if "i < length inp" for i
    proof -
      have "length ctx + 1 = length prompt + length pr" using pc pp pos by linarith
      moreover have "length pr < mx" "length dr \<le> mx - length pr" using more(1) drb(1) by (simp_all add: pr_def)
      ultimately show ?thesis using that li(1) fits by linarith
    qed
    then show ?thesis using iv s0 nth_mem by (fastforce simp: rows_def)
  qed
  from step_slotted_total [OF di rsv rl(2,1) this]
  obtain d' outs where run: "step_slotted c lm rows d = Some (d', outs)" and rsv': "reserved c {0} (blocks d')" by blast
  have bc: "base 0 \<le> length ctx" using b0 by (simp add: ctx_def)
  have tkc: "take (length ctx) (r 0) = ctx" using tk pc by simp
  note S = step_slotted_draft [OF di s0 bc tkc li(2) run [unfolded rows_def]]
  have lo: "length outs = Suc (length dr)" using S li by simp
  have on: "outs ! i = g ((prompt @ pr) @ take i dr)" if "i \<le> length dr" for i
  proof -
    have "i < length inp" using that li by simp
    then show ?thesis using S hist by (simp add: inp_def g_def)
  qed
  define acc where "acc = count_accepted outs dr"
  have A: "acc \<le> length dr" "take acc dr = greedy g (prompt @ pr) acc"
    "take (Suc acc) outs = greedy g (prompt @ pr) (Suc acc)"
    using accepted_greedy [OF lo on] unfolding acc_def by auto
  let ?ts = "take (Suc acc) outs"
  have lts: "length ?ts = Suc acc" using A(1) lo by simp
  obtain n where n: "0 < n" "n \<le> Suc acc" "commit_outs ?ts eos mx pr = pr @ take n ?ts" "length pr + n \<le> mx"
      "eos \<notin> set (butlast (pr @ take n ?ts))" "pr @ take n ?ts = greedy g prompt (length pr + n)"
      "n = Suc acc \<or> last (pr @ take n ?ts) = eos \<or> length pr + n = mx"
  proof -
    have "\<exists>n. 0 < n \<and> n \<le> length ?ts \<and> commit_outs ?ts eos mx pr = pr @ take n ?ts \<and> length pr + n \<le> mx \<and>
      eos \<notin> set (butlast (pr @ take n ?ts)) \<and> pr @ take n ?ts = greedy g prompt (length pr + n) \<and>
      (n = length ?ts \<or> last (pr @ take n ?ts) = eos \<or> length pr + n = mx)"
    proof (rule commit_outs_greedy)
      show "?ts = greedy g (prompt @ pr) (length ?ts)" unfolding lts by (rule A(3))
      show "?ts \<noteq> []" using lts by auto
      show "pr = greedy g prompt (length pr)" by (rule gr)
      show "eos \<notin> set pr" by (rule nep)
      show "length pr < mx" using more(1) by (simp add: pr_def)
    qed
    then show thesis using that unfolding lts by blast
  qed
  define pr' where "pr' = pr @ take n ?ts"
  have lp': "length pr' = length pr + n" using n(2) lts by (simp add: pr'_def)
  define st' where "st' = \<lparr>pl_produced = pr', pl_pos = length ctx + acc + 1, pl_forwards = pl_forwards st + 1\<rparr>"
  have inv': "pld_inv hash c lm prompt mx eos st' d'"
    unfolding pld_inv_def st'_def pld_state.simps
  proof (intro exI [of _ "r(0 := ctx @ inp)"] exI [of _ base] conjI impI)
    show "dec_inv hash c lm d' (r(0 := ctx @ inp)) base" using S by blast
    show "base 0 \<le> length prompt" by (rule b0)
    show "reserved c {0} (blocks d')" by (rule rsv')
    show "pr' = greedy (next_greedy lm) prompt (length pr')" using n(6) lp' by (simp add: pr'_def g_def)
    show "0 < length pr'" "length pr' \<le> max 1 mx" "pl_forwards st + 1 < length pr'"
      using lp' n(1,4) fw pos by auto
    show "eos \<notin> set (butlast pr')" using n(5) by (simp add: pr'_def)
    assume c: "length pr' < mx \<and> last pr' \<noteq> eos"
    then have na: "n = Suc acc" using n(7) lp' by (auto simp: pr'_def)
    show "length ctx + acc + 1 = length prompt + length pr' - 1" using na lp' pp pc pos by linarith
    have "butlast pr' = pr @ take acc dr"
    proof -
      have "pr' = pr @ greedy g (prompt @ pr) (Suc acc)" using A(3) na lts by (simp add: pr'_def del: greedy.simps)
      then show ?thesis using A(2) by (simp add: greedy_Suc_append butlast_append del: greedy.simps)
    qed
    then show "take (length ctx + acc + 1) ((r(0 := ctx @ inp)) 0) = prompt @ butlast pr'"
      using A(1) hist by (simp add: inp_def)
  qed
  have "pld_round c lm prompt mx eos ll draft_k st d = Some (st', d')"
  proof (cases "lookup_draft_best (prompt @ pr) (prompt @ pr) ll ?k")
    case (Some x)
    then have x: "x = dr" by (simp add: dr_def)
    have "pld_round c lm prompt mx eos ll draft_k st d =
      Some (\<lparr>pl_produced = commit_outs (take (acc + 1) outs) eos mx pr, pl_pos = length ctx + acc + 1,
             pl_forwards = pl_forwards st + 1\<rparr>, d')"
      using Some run unfolding pld_round_def Let_def pr_def [symmetric] pc x rows_def inp_def nxt_def acc_def
      by simp
    then show ?thesis using n(3) by (simp add: st'_def pr'_def)
  next
    case None
    then have "dr = []" by (simp add: dr_def)
    then have a0: "acc = 0" "rows = [(nxt, length ctx, 0)]" using A(1) by (auto simp: rows_def inp_def)
    have n1: "n = 1" using n(1,2) a0 by simp
    have o0: "take (Suc 0) outs = [outs ! 0]" using lo by (cases outs) auto
    show ?thesis
      using None run a0 n1 o0 unfolding pld_round_def Let_def pr_def [symmetric] pc nxt_def st'_def pr'_def
      by simp
  qed
  moreover have "length (pl_produced st) < length (pl_produced st')"
    using lp' n(1) by (simp add: st'_def pr_def)
  ultimately show ?thesis using inv' by blast
qed

lemma pld_loop_correct:
  assumes pick: "\<And>ks sel. lm_pick lm ks sel < lm_vocab lm" and voc: "set prompt \<subseteq> {..<lm_vocab lm}"
    and m: "draft_k + 1 \<le> m_max c" and fits: "length prompt + mx \<le> max_seq c"
  shows "pld_inv hash c lm prompt mx eos st d \<Longrightarrow> mx - length (pl_produced st) \<le> fuel \<Longrightarrow>
    \<exists>st' d'. pld_loop fuel c lm prompt mx eos ll draft_k st d = Some (st', d') \<and>
      pl_produced st' = stop_greedy (next_greedy lm) prompt eos (max 1 mx) \<and>
      pl_forwards st' < length (pl_produced st')"
proof (induction fuel arbitrary: st d)
  case 0
  then have "\<not> length (pl_produced st) < mx" by simp
  then show ?case using 0(1) stop_greedy_done [of "pl_produced st" "next_greedy lm" prompt eos "max 1 mx"]
    by (subst pld_loop.simps) (auto simp: pld_inv_def)
next
  case (Suc f)
  show ?case
  proof (cases "length (pl_produced st) < mx \<and> last (pl_produced st) \<noteq> eos")
    case False
    then show ?thesis using Suc(2) stop_greedy_done [of "pl_produced st" "next_greedy lm" prompt eos "max 1 mx"]
      by (subst pld_loop.simps) (auto simp: pld_inv_def)
  next
    case True
    obtain st1 d1 where r: "pld_round c lm prompt mx eos ll draft_k st d = Some (st1, d1)"
      "pld_inv hash c lm prompt mx eos st1 d1" "length (pl_produced st) < length (pl_produced st1)"
      using pld_round_correct [OF Suc(2) _ _ pick voc m fits] True by blast
    have "mx - length (pl_produced st1) \<le> f" using r(3) Suc(3) by simp
    from Suc(1) [OF r(2) this] show ?thesis using True r(1) by (subst pld_loop.simps) simp
  qed
qed

lemma generate_pld_correct:
  assumes inv: "dec_inv hash c lm d r base" and b: "base 0 = 0" and rsv: "reserved c {0} (blocks d)"
    and pick: "\<And>ks sel. lm_pick lm ks sel < lm_vocab lm" and voc: "set prompt \<subseteq> {..<lm_vocab lm}"
    and ne: "prompt \<noteq> []" and m: "draft_k + 1 \<le> m_max c" and fits: "length prompt + mx \<le> max_seq c"
  shows "\<exists>n d'. generate_pld c lm prompt mx eos ll draft_k d =
      Some ((stop_greedy (next_greedy lm) prompt eos (max 1 mx), n), d') \<and>
    n < length (stop_greedy (next_greedy lm) prompt eos (max 1 mx))"
proof -
  have s0: "0 < m_max c" using m by simp
  have inv0: "dec_inv hash c lm d (r(0 := take 0 (r 0))) base" using dec_inv_forget [OF inv, of 0 0] b by simp
  obtain d1 g where pf: "prefill_slot_from c lm prompt 0 0 None d = Some (d1, g)" and rs: "reserved c {0} (blocks d1)"
    using prefill_slot_from_total [OF inv0 s0 _ _ _ rsv, of 0 prompt None] b ne voc fits by auto
  have "dec_inv hash c lm d1 ((r(0 := take 0 (r 0)))(0 := prompt)) base \<and> g = lm_pick lm (kvs lm prompt) (samp_select None)"
    by (rule prefill_slot_from_correct [OF inv0 s0 _ _ _ pf]) (use b ne in auto)
  then have P: "dec_inv hash c lm d1 (r(0 := prompt)) base \<and> g = lm_pick lm (kvs lm prompt) (samp_select None)"
    by (simp only: fun_upd_upd)
  let ?st = "\<lparr>pl_produced = [g], pl_pos = length prompt, pl_forwards = 0\<rparr>"
  have "pld_inv hash c lm prompt mx eos ?st d1"
    unfolding pld_inv_def
    by (intro exI [of _ "r(0 := prompt)"] exI [of _ base]) (use P b rs in \<open>auto simp: next_greedy_def samp_select_def\<close>)
  moreover have "mx - length (pl_produced ?st) \<le> mx" by simp
  ultimately obtain st' d2 where "pld_loop mx c lm prompt mx eos ll draft_k ?st d1 = Some (st', d2)"
    "pl_produced st' = stop_greedy (next_greedy lm) prompt eos (max 1 mx)" "pl_forwards st' < length (pl_produced st')"
    using pld_loop_correct [OF pick voc m fits] by blast
  then show ?thesis using m pf by (simp add: generate_pld_def prefill_slot_def)
qed

section \<open>Swapping out and in restores the entries\<close>

text \<open>A host copy holds the entries of a token list.\<close>

definition host_holds :: "pool_cfg \<Rightarrow> 'kv lm \<Rightarrow> 'kv host_kv \<Rightarrow> token list \<Rightarrow> bool" where
  "host_holds c lm hk ts =
    (hk_n_pos hk = length ts \<and> hk_nb hk = div_ceil (length ts) (block_size c) \<and>
     length (hk_data hk) = hk_nb hk * block_size c \<and> (\<forall>p<length ts. hk_data hk ! p = kvs lm ts ! p))"

lemma swap_out_correct:
  assumes inv: "dec_inv hash c lm d r base" and s: "s < m_max c" and n: "n = length ts" "ts = take n (r s)"
  shows "\<exists>hk. swap_out c s n d = Some (release_slot s d, hk) \<and> host_holds c lm hk ts"
proof -
  note D = dec_invD [OF inv]
  let ?bz = "block_size c" and ?bl = "slot_blocks (blocks d) ! s" and ?nb = "div_ceil n (block_size c)"
  have len: "n \<le> length (r s)" using n by (metis length_take min.cobounded1)
  have nb: "?nb \<le> length ?bl"
  proof (cases n)
    case 0
    then show ?thesis using D(2) by (simp add: div_ceil_def)
  next
    case (Suc m)
    then have "m div ?bz < length ?bl" using D(6) [OF s] len unfolding resident_def by auto
    then show ?thesis using Suc div_ceil_Suc [OF D(2), of m] by simp
  qed
  let ?xss = "map (copy_block c d) (take ?nb ?bl)"
  have lx: "\<forall>xs\<in>set ?xss. length xs = ?bz" by (auto simp: copy_block_def)
  have ll: "length ?xss = ?nb" using nb by simp
  have "concat ?xss ! p = kvs lm ts ! p" if p: "p < n" for p
  proof -
    have pb: "p div ?bz < ?nb" using div_lt_div_ceil [OF D(2) p] .
    have "p < ?nb * ?bz" using div_ceil_le_iff [OF D(2), of n ?nb] p by simp
    then have "concat ?xss ! p = ?xss ! (p div ?bz) ! (p mod ?bz)" by (intro nth_concat_blocks [OF lx]) (simp only: ll)
    also have "\<dots> = mem d (?bl ! (p div ?bz) * ?bz + p mod ?bz)"
      using pb nb D(2) by (simp add: copy_block_def)
    also have "\<dots> = kvs lm (r s) ! p" using D(6) [OF s] p len unfolding resident_def loc_def by simp
    also have "\<dots> = kvs lm ts ! p" using n(2) p by (metis kvs_nth_take)
    finally show ?thesis .
  qed
  then show ?thesis
    using nb n(1) length_concat_blocks [OF lx] ll by (simp add: swap_out_def Let_def host_holds_def)
qed

lemma restore_blocks_frame: "blocks (restore_blocks c bl ks d) = blocks d"
  by (induction bl arbitrary: ks d) auto

lemma restore_blocks_out:
  "0 < block_size c \<Longrightarrow> q div block_size c \<notin> set bl \<Longrightarrow> mem (restore_blocks c bl ks d) q = mem d q"
proof (induction bl arbitrary: ks d)
  case (Cons b bl)
  have "\<not> (b * block_size c \<le> q \<and> q < Suc b * block_size c)"
  proof
    assume q: "b * block_size c \<le> q \<and> q < Suc b * block_size c"
    then have "q div block_size c = b"
      using Cons.prems(1) by (intro div_nat_eqI) (auto simp: mult.commute)
    then show False using Cons.prems(2) by simp
  qed
  then show ?case using Cons by auto
qed simp

lemma restore_blocks_in:
  "0 < block_size c \<Longrightarrow> distinct bl \<Longrightarrow> length ks = length bl * block_size c \<Longrightarrow> lb < length bl \<Longrightarrow> j < block_size c \<Longrightarrow>
   mem (restore_blocks c bl ks d) (bl ! lb * block_size c + j) = ks ! (lb * block_size c + j)"
proof (induction bl arbitrary: ks d lb)
  case (Cons b bl)
  show ?case
  proof (cases lb)
    case 0
    have "(b * block_size c + j) div block_size c = b" using Cons.prems(1,5) by simp
    then show ?thesis
      using 0 Cons.prems by (simp add: restore_blocks_out [OF Cons.prems(1)])
  next
    case (Suc k)
    have "mem (restore_blocks c bl (drop (block_size c) ks) d') (bl ! k * block_size c + j) = drop (block_size c) ks ! (k * block_size c + j)" for d'
      using Cons.prems Suc by (intro Cons.IH) auto
    then show ?thesis using Suc Cons.prems by (simp add: add.assoc)
  qed
qed simp

lemma swap_in_correct:
  assumes inv: "dec_inv hash c lm d r base" and s: "s < m_max c" and empty: "slot_blocks (blocks d) ! s = []"
    and hk: "host_holds c lm hk ts" and len: "div_ceil (length ts) (block_size c) \<le> max_blocks_per_seq c"
    and run: "swap_in c s hk d = (d', ok)"
  shows "ok \<longleftrightarrow> div_ceil (length ts) (block_size c) \<le> free_blocks (blocks d)"
    "ok \<Longrightarrow> dec_inv hash c lm d' (r(s := ts)) base"
proof -
  note D = dec_invD [OF inv]
  let ?bz = "block_size c" and ?nb = "div_ceil (length ts) (block_size c)"
  have h: "hk_n_pos hk = length ts" "hk_nb hk = ?nb" "length (hk_data hk) = ?nb * ?bz"
    "\<And>p. p < length ts \<Longrightarrow> hk_data hk ! p = kvs lm ts ! p"
    using hk by (simp_all add: host_holds_def)
  obtain bs1 ok1 where e: "ensure_blocks c s (length ts) (blocks d) = (bs1, ok1)" by fastforce
  note E = ensure_blocks_correct [OF D(3) s len e]
  have okk: "ok = ok1" using run e h by (cases ok1) (auto simp: swap_in_def)
  then show "ok \<longleftrightarrow> ?nb \<le> free_blocks (blocks d)" using E(3) empty by (simp add: blocks_short_def)
  assume ok: ok
  then have ok1: ok1 using okk by simp
  let ?bl = "slot_blocks bs1 ! s" and ?d1 = "d\<lparr>blocks := bs1\<rparr>"
  have lbl: "length ?bl = ?nb" using E(4) [OF ok1] empty by simp
  have d': "d' = restore_blocks c ?bl (hk_data hk) ?d1" using run e ok1 h lbl by (simp add: swap_in_def)
  have inv1: "dec_inv hash c lm ?d1 r base" by (rule dec_inv_grow [OF inv E(2,1) s])
  note D1 = dec_invD [OF inv1]
  have b0: "base s = 0" "r s = []" using dec_inv_empty_slot [OF inv s empty] by auto
  have ex: "refcount bs1 ! (?bl ! lb) = 1 \<and> block_hash bs1 ! (?bl ! lb) = None" if "lb < length ?bl" for lb
    using D1(7) [OF s] b0 that unfolding excl_def by simp
  have sole: "s' = s \<and> lb' = lb" if "s' < m_max c" "lb < length ?bl" "lb' < length (slot_blocks bs1 ! s')"
      "slot_blocks bs1 ! s' ! lb' = ?bl ! lb" for s' lb lb'
    using sole_owner [OF E(1) s that(2) _ that(1,3,4)] ex [OF that(2)] by blast
  have dist: "distinct ?bl"
    unfolding distinct_conv_nth using sole [OF s] by metis
  have out: "mem d' q = mem d q" if "q div ?bz \<notin> set ?bl" for q
    using restore_blocks_out [OF D(2) that, of "hk_data hk" ?d1] by (simp add: d')
  have inn: "mem d' (?bl ! lb * ?bz + j) = hk_data hk ! (lb * ?bz + j)" if "lb < ?nb" "j < ?bz" for lb j
    unfolding d' using restore_blocks_in [OF D(2) dist _ _ that(2), of "hk_data hk" lb] that(1) lbl h(3) by simp
  have bl': "blocks d' = bs1" by (simp add: d' restore_blocks_frame)
  have cv: "cache_valid hash c lm d'"
    unfolding cache_valid_def bl'
  proof (intro allI impI)
    fix h b assume hb: "cache_map bs1 h = Some b"
    have "b \<notin> set ?bl" using ex pool_invD(10) [OF E(1), of h b] hb by (auto simp: in_set_conv_nth)
    then have "mem d' (b * ?bz + j) = mem d (b * ?bz + j)" if "j < ?bz" for j
      using out [of "b * ?bz + j"] that D(2) by simp
    then show "\<exists>ts n. length ts = Suc n * ?bz \<and> h = prefix_hash hash c ts (Suc n) \<and>
        (\<forall>j<?bz. mem d' (b * ?bz + j) = kvs lm ts ! (n * ?bz + j))"
      using D1(4) hb unfolding cache_valid_def by simp
  qed
  have res: "resident c lm d' s' ((r(s := ts)) s')" if s': "s' < m_max c" for s'
    unfolding resident_def bl'
  proof (intro allI impI)
    fix p assume p: "p < length ((r(s := ts)) s')"
    show "p div ?bz < length (slot_blocks bs1 ! s') \<and> mem d' (loc c bs1 s' p) = kvs lm ((r(s := ts)) s') ! p"
    proof (cases "s' = s")
      case True
      have pb: "p div ?bz < ?nb" using p True by (intro div_lt_div_ceil D(2)) simp
      then have "mem d' (loc c bs1 s p) = hk_data hk ! p"
        using inn [OF pb, of "p mod ?bz"] D(2) by (simp add: loc_def)
      then show ?thesis using True p pb lbl h(4) by simp
    next
      case False
      then have old: "p div ?bz < length (slot_blocks bs1 ! s')" "mem ?d1 (loc c bs1 s' p) = kvs lm (r s') ! p"
        using D1(6) [OF s'] p unfolding resident_def by auto
      have "slot_blocks bs1 ! s' ! (p div ?bz) \<notin> set ?bl"
        using sole [OF s' _ old(1)] False by (metis in_set_conv_nth)
      moreover have "loc c bs1 s' p div ?bz = slot_blocks bs1 ! s' ! (p div ?bz)"
        using D(2) by (simp add: loc_def)
      ultimately have "mem d' (loc c bs1 s' p) = mem d (loc c bs1 s' p)" using out by simp
      then show ?thesis using old False by simp
    qed
  qed
  show "dec_inv hash c lm d' (r(s := ts)) base"
    unfolding dec_inv_def bl' using D(1) E(1) cv res D1(5,7) b0 by (auto simp: bl')
qed

section \<open>Which slots an operation touches\<close>

definition only_slots :: "slot set \<Rightarrow> 'kv decoder \<Rightarrow> 'kv decoder \<Rightarrow> bool" where
  "only_slots S d d' = (\<forall>s. s \<notin> S \<longrightarrow> slot_blocks (blocks d') ! s = slot_blocks (blocks d) ! s)"

lemma only_slots_refl [simp, intro]: "only_slots S d d"
  by (simp add: only_slots_def)

lemma only_slots_trans: "only_slots S d d1 \<Longrightarrow> only_slots S d1 d2 \<Longrightarrow> only_slots S d d2"
  by (simp add: only_slots_def)

lemma ensure_loop_other: "s' \<noteq> s \<Longrightarrow> slot_blocks (fst (ensure_loop c s lbs bs)) ! s' = slot_blocks bs ! s'"
proof (induction lbs arbitrary: bs)
  case (Cons lb lbs)
  have a: "slot_blocks (fst (alloc bs)) = slot_blocks bs" by (simp add: alloc_def Let_def split: option.split)
  then show ?case using Cons by (auto split: prod.splits option.splits)
qed simp

lemma ensure_blocks_other: "s' \<noteq> s \<Longrightarrow> slot_blocks (fst (ensure_blocks c s n bs)) ! s' = slot_blocks bs ! s'"
  by (simp add: ensure_blocks_def Let_def ensure_loop_other)

lemma prepare_paging_other:
  "prepare_paging c rows bs = Some (bs', phs) \<Longrightarrow> \<forall>(t, p, s)\<in>set rows. s \<in> S \<Longrightarrow> s' \<notin> S \<Longrightarrow>
    slot_blocks bs' ! s' = slot_blocks bs ! s'"
proof (induction rows arbitrary: bs phs)
  case (Cons row rows)
  obtain t p s where row: "row = (t, p, s)" by (cases row)
  obtain bs1 phs' where e: "ensure_blocks c s (p + 1) bs = (bs1, True)" "prepare_paging c rows bs1 = Some (bs', phs')"
    using Cons.prems(1) row by (auto split: prod.splits bool.splits option.splits)
  have "slot_blocks bs1 ! s' = slot_blocks bs ! s'"
    using ensure_blocks_other [of s' s c "p + 1" bs] e(1) Cons.prems(2,3) row by auto
  then show ?case using Cons.IH [OF e(2)] Cons.prems(2,3) by simp
qed simp

lemma run_rows_blocks: "blocks (fst (run_rows c lm rows d)) = blocks d"
  by (induction rows arbitrary: d)
     (auto split: prod.splits simp: Let_def, metis fst_conv run_row_frame)

lemma forward_rows_other:
  assumes "forward_rows c lm rows d = Some (d', kss)" "\<forall>(t, p, s)\<in>set rows. s \<in> S"
  shows "only_slots S d d'"
proof -
  obtain bs phs where pp: "prepare_paging c rows (blocks d) = Some (bs, phs)"
    and rr: "run_rows c lm rows (d\<lparr>blocks := bs\<rparr>) = (d', kss)"
    using assms(1) by (auto simp: forward_rows_def split: if_splits option.splits)
  have "blocks d' = bs" using run_rows_blocks [of c lm rows "d\<lparr>blocks := bs\<rparr>"] rr by simp
  then show ?thesis using prepare_paging_other [OF pp assms(2)] by (simp add: only_slots_def)
qed

lemma prefill_chunk_other: "prefill_chunk c lm prompt s start samp d = Some (d', nxt, g) \<Longrightarrow> only_slots {s} d d'"
  by (auto simp: prefill_chunk_def Let_def chunk_rows_def split: if_splits option.splits elim!: forward_rows_other)

lemma prefill_loop_other: "prefill_loop fuel c lm prompt s start samp first d = Some (d', g) \<Longrightarrow> only_slots {s} d d'"
proof (induction fuel arbitrary: start first d)
  case 0
  then show ?case by (subst (asm) prefill_loop.simps) (auto split: if_splits)
next
  case (Suc f)
  then show ?case
    by (subst (asm) (2) prefill_loop.simps)
       (fastforce split: if_splits option.splits dest: prefill_chunk_other intro: only_slots_trans)
qed

lemma reuse_loop_other: "s' \<noteq> s \<Longrightarrow> slot_blocks (snd (reuse_loop hash c prompt s lbs prev n bs)) ! s' = slot_blocks bs ! s'"
  by (induction lbs arbitrary: prev n bs) (auto simp: Let_def split: option.split)

lemma prefill_prefix_reuse_other:
  "prefill_prefix_reuse hash c prompt s bs = (x, bs') \<Longrightarrow> s' \<noteq> s \<Longrightarrow> slot_blocks bs' ! s' = slot_blocks bs ! s'"
  using reuse_loop_other [of s' s hash c prompt]
  by (auto simp: prefill_prefix_reuse_def split: prod.splits) (metis snd_conv)

lemma prefill_slot_cached_other:
  "prefill_slot_cached hash c lm prompt s samp d = Some (d', g, cl) \<Longrightarrow> only_slots {s} d d'"
  by (auto simp: prefill_slot_cached_def prefill_slot_from_def only_slots_def
      split: if_splits prod.splits option.splits dest!: prefill_loop_other dest: prefill_prefix_reuse_other)

section \<open>The properties of the decoder\<close>

text \<open>A model whose next token counts modulo 3, and a hash without collisions, for the concrete instances.\<close>

definition demo_lm :: "nat lm" where
  "demo_lm = \<lparr>lm_kv = (\<lambda>ks t. t), lm_pick = (\<lambda>ks sel. (last ks + 1) mod 3), lm_vocab = 3\<rparr>"

definition demo_hash :: "nat \<Rightarrow> token list \<Rightarrow> nat" where
  "demo_hash a xs = Suc (prod_encode (a, list_encode xs))"

definition demo_dec :: "nat decoder" where
  "demo_dec = \<lparr>blocks = fresh_blocks demo_cfg False, mem = (\<lambda>_. 0)\<rparr>"

lemma demo_hash_ok: "no_collision demo_hash"
  by (simp add: no_collision_def demo_hash_def inj_eq [OF inj_list_encode])

lemma demo_cfg_ok: "cfg_ok demo_cfg"
  by (simp add: cfg_ok_def demo_cfg_def div_ceil_def)

lemma demo_dec_inv: "dec_inv hash demo_cfg lm demo_dec (\<lambda>_. []) (\<lambda>_. 0)"
  unfolding demo_dec_def by (rule dec_inv_fresh [OF demo_cfg_ok])

lemma demo_reserved: "s < 2 \<Longrightarrow> reserved demo_cfg {s} (blocks demo_dec)"
  by (simp add: reserved_def demo_dec_def free_blocks_fresh) (simp add: fresh_blocks_def demo_cfg_def)

lemma demo_pick: "lm_pick demo_lm ks sel < lm_vocab demo_lm"
  by (simp add: demo_lm_def)

lemma demo_next: "next_greedy demo_lm (ctx @ [t]) = (t + 1) mod 3"
  by (simp add: next_greedy_def demo_lm_def)





text \<open>
  C31: swapping a sequence out to the host and later in again, into any empty slot of any later decoder
  state that can supply the blocks, restores exactly its entries, and changes no other slot and
  no cached prefix.
\<close>

theorem swap_roundtrip:
  assumes "dec_inv hash c lm d r base" "s < m_max c" "n \<le> length (r s)" "n \<le> max_seq c"
    and "dec_inv hash c lm d2 r2 base2" "s2 < m_max c" "slot_blocks (blocks d2) ! s2 = []"
    and "div_ceil n (block_size c) \<le> free_blocks (blocks d2)"
  shows "\<exists>d1 hk d3. swap_out c s n d = Some (d1, hk) \<and> dec_inv hash c lm d1 (r(s := [])) (base(s := 0)) \<and>
    swap_in c s2 hk d2 = (d3, True) \<and> dec_inv hash c lm d3 (r2(s2 := take n (r s))) base2"
proof -
  have l: "n = length (take n (r s))" using assms(3) by simp
  obtain hk where o: "swap_out c s n d = Some (release_slot s d, hk)" and hh: "host_holds c lm hk (take n (r s))"
    using swap_out_correct [OF assms(1,2) l refl] by blast
  obtain d3 ok where i: "swap_in c s2 hk d2 = (d3, ok)" by fastforce
  have le: "length (take n (r s)) \<le> max_seq c" using assms(4) l by linarith
  note S = swap_in_correct [OF assms(5,6,7) hh cfg_ok_blocks [OF dec_invD(1) [OF assms(1)] le] i]
  have ok: "ok" using S(1) assms(8) l by metis
  then show ?thesis using o i S(2) dec_inv_release [OF assms(1,2)] by auto
qed

lemma demo_prefilled:
  "\<exists>d. dec_inv hash demo_cfg demo_lm d ((\<lambda>_. [])(0 := [0, 1, 2])) (\<lambda>_. 0)"
proof -
  obtain d g where p: "prefill_slot_from demo_cfg demo_lm [0, 1, 2] 0 0 None demo_dec = Some (d, g)"
  proof -
    have "\<exists>d' g. prefill_slot_from demo_cfg demo_lm [0, 1, 2] 0 0 None demo_dec = Some (d', g) \<and> reserved demo_cfg {0} (blocks d')"
      by (rule prefill_slot_from_total [OF demo_dec_inv _ _ _ _ demo_reserved]) (auto simp: demo_cfg_def demo_lm_def)
    then show thesis using that by blast
  qed
  have "dec_inv hash demo_cfg demo_lm d ((\<lambda>_. [])(0 := [0, 1, 2])) (\<lambda>_. 0) \<and> g = lm_pick demo_lm (kvs demo_lm [0, 1, 2]) (samp_select None)"
    by (rule prefill_slot_from_correct [OF demo_dec_inv _ _ _ _ p]) (simp_all add: demo_cfg_def)
  then show ?thesis by blast
qed

theorem swap_roundtrip_witness:
  "\<exists>d d1 hk d3. swap_out demo_cfg 0 3 d = Some (d1, hk) \<and> swap_in demo_cfg 1 hk demo_dec = (d3, True) \<and>
     dec_inv demo_hash demo_cfg demo_lm d3 ((\<lambda>_. [])(1 := [0, 1, 2])) (\<lambda>_. 0)"
proof -
  obtain d where d: "dec_inv demo_hash demo_cfg demo_lm d ((\<lambda>_. [])(0 := [0, 1, 2])) (\<lambda>_. 0)"
    using demo_prefilled by blast
  have p: "(0 :: nat) < m_max demo_cfg" "3 \<le> length (((\<lambda>_. [])(0 := [0, 1, 2 :: nat])) (0 :: nat))" "3 \<le> max_seq demo_cfg"
    "1 < m_max demo_cfg" "slot_blocks (blocks demo_dec) ! 1 = []"
    by (simp_all add: demo_dec_def fresh_blocks_def demo_cfg_def)
  have f: "div_ceil 3 (block_size demo_cfg) \<le> free_blocks (blocks demo_dec)"
    by (simp add: demo_dec_def free_blocks_fresh) (simp add: demo_cfg_def div_ceil_def)
  show ?thesis
    using swap_roundtrip [OF d p(1-3) demo_dec_inv p(4,5) f] by auto
qed

end
