(* ===== verification/Batcher.thy ===== *)
theory Batcher
  imports Decoder
begin

text \<open>
  Continuous batching (\<^verbatim>\<open>src/backend/gpu/batch.rs\<close>): admission, chunked prefill, the decode
  step over all active sequences, preemption by recompute or by swapping to the host, and
  rescheduling.  \<^verbatim>\<open>Vec::pop\<close> takes the last element of a list, \<^verbatim>\<open>VecDeque\<close>
  is a list whose front is its head.  The fields that the three kinds of
  sequence share are the record \<open>request\<close>.  \<open>None\<close> is a panic of the serving thread.
\<close>

section \<open>State\<close>

record request =
  rq_id :: nat
  rq_prompt_len :: nat
  rq_max_tokens :: nat
  rq_eos :: token
  rq_params :: sampling_params
  rq_seed :: "32 word"

record cb_seq =
  cs_req :: request
  cs_slot :: slot
  cs_tokens :: "token list"

record 'kv preempted_seq =
  ps_req :: request
  ps_tokens :: "token list"
  ps_kv :: "'kv host_kv option"

record prefilling_seq =
  pf_req :: request
  pf_slot :: slot
  pf_prompt :: "token list"
  pf_pos :: nat
  pf_cached :: nat

text \<open>What the decoder of a batcher is built from: the block hash, the pool's shape, the model.\<close>

record 'kv gpu =
  g_hash :: "nat \<Rightarrow> token list \<Rightarrow> nat"
  g_cfg :: pool_cfg
  g_lm :: "'kv lm"

record 'kv batcher =
  cb_dec :: "'kv decoder"
  cb_free :: "slot list"
  cb_active :: "cb_seq list"
  cb_preempted :: "'kv preempted_seq list"
  cb_prefilling :: "prefilling_seq list"
  cb_preemptions :: nat
  cb_swap_mode :: bool

type_synonym emission = "nat \<times> token \<times> bool"

definition cs_next :: "cb_seq \<Rightarrow> token" where
  "cs_next q = last (cs_tokens q)"

definition cs_pos :: "cb_seq \<Rightarrow> nat" where
  "cs_pos q = length (cs_tokens q) - 1"

definition gen_index :: "cb_seq \<Rightarrow> nat" where
  "gen_index q = length (cs_tokens q) - rq_prompt_len (cs_req q)"

definition seq_done :: "cb_seq \<Rightarrow> bool" where
  "seq_done q = (cs_next q = rq_eos (cs_req q) \<or> rq_max_tokens (cs_req q) \<le> gen_index q)"

definition fresh_batcher :: "'kv decoder \<Rightarrow> nat \<Rightarrow> bool \<Rightarrow> 'kv batcher" where
  "fresh_batcher d m swap = \<lparr>cb_dec = d, cb_free = rev [0 ..< m], cb_active = [], cb_preempted = [],
     cb_prefilling = [], cb_preemptions = 0, cb_swap_mode = swap\<rparr>"

definition default_block_size :: nat where
  "default_block_size = 16"

text \<open>\<^verbatim>\<open>ContinuousBatcher::with_pool\<close>, and \<^verbatim>\<open>new\<close> with the full pool.\<close>

definition with_pool :: "bool \<Rightarrow> bool \<Rightarrow> (nat \<Rightarrow> 'kv) \<Rightarrow> nat \<Rightarrow> nat \<Rightarrow> nat \<Rightarrow> (pool_cfg \<times> 'kv batcher) option" where
  "with_pool ff swap mem0 m ms nb =
    (case new_paged ff m ms default_block_size nb of
       None \<Rightarrow> None
     | Some (c, bs) \<Rightarrow> Some (c, fresh_batcher \<lparr>blocks = bs, mem = mem0\<rparr> m swap))"

definition new_batcher :: "bool \<Rightarrow> bool \<Rightarrow> (nat \<Rightarrow> 'kv) \<Rightarrow> nat \<Rightarrow> nat \<Rightarrow> (pool_cfg \<times> 'kv batcher) option" where
  "new_batcher ff swap mem0 m ms = with_pool ff swap mem0 m ms (m * div_ceil ms default_block_size)"

definition has_free :: "'kv batcher \<Rightarrow> bool" where
  "has_free b = (cb_free b \<noteq> [])"

definition all_greedy :: "'kv batcher \<Rightarrow> bool" where
  "all_greedy b = list_all (\<lambda>q. \<not> needs_topk (rq_params (cs_req q)) \<and> sp_temp (rq_params (cs_req q)) = Fin 0) (cb_active b)"

section \<open>Cancelling and releasing\<close>

definition give_back :: "slot \<Rightarrow> 'kv batcher \<Rightarrow> 'kv batcher" where
  "give_back s b = b\<lparr>cb_dec := release_slot s (cb_dec b), cb_free := cb_free b @ [s]\<rparr>"

definition cancel :: "nat \<Rightarrow> 'kv batcher \<Rightarrow> 'kv batcher \<times> bool" where
  "cancel i b =
    (case List.extract (\<lambda>q. rq_id (cs_req q) = i) (cb_active b) of
       Some (xs, q, ys) \<Rightarrow> (give_back (cs_slot q) (b\<lparr>cb_active := xs @ ys\<rparr>), True)
     | None \<Rightarrow>
    (case List.extract (\<lambda>q. rq_id (pf_req q) = i) (cb_prefilling b) of
       Some (xs, q, ys) \<Rightarrow> (give_back (pf_slot q) (b\<lparr>cb_prefilling := xs @ ys\<rparr>), True)
     | None \<Rightarrow>
    (case List.extract (\<lambda>q. rq_id (ps_req q) = i) (cb_preempted b) of
       Some (xs, q, ys) \<Rightarrow> (b\<lparr>cb_preempted := xs @ ys\<rparr>, True)
     | None \<Rightarrow> (b, False))))"

section \<open>Admission\<close>

definition prefill_samp :: "sampling_params \<Rightarrow> 32 word \<Rightarrow> (f32 \<times> 32 word) option" where
  "prefill_samp params seed = (if f32_lt (Fin 0) (sp_temp params) then Some (sp_temp params, seed) else None)"

definition admit_params ::
  "'kv gpu \<Rightarrow> request \<Rightarrow> token list \<Rightarrow> 'kv batcher \<Rightarrow> ('kv batcher \<times> (token \<times> bool) option) option" where
  "admit_params g rq prompt b =
    (if \<not> can_fit (g_cfg g) (length prompt) (blocks (cb_dec b)) then Some (b, None)
     else if cb_free b = [] then Some (b, None)
     else
       (let s = last (cb_free b); b1 = b\<lparr>cb_free := butlast (cb_free b)\<rparr>;
            samp = prefill_samp (rq_params rq) (step_seed (rq_seed rq) 0)
        in case prefill_slot_cached (g_hash g) (g_cfg g) (g_lm g) prompt s samp (cb_dec b1) of
             None \<Rightarrow> None
           | Some (d1, t, cached) \<Rightarrow>
               (let b2 = b1\<lparr>cb_dec := d1\<rparr>; fin = (rq_max_tokens rq \<le> 1 \<or> t = rq_eos rq)
                in Some (if fin then give_back s b2
                         else b2\<lparr>cb_active := cb_active b2 @ [\<lparr>cs_req = rq, cs_slot = s, cs_tokens = prompt @ [t]\<rparr>]\<rparr>,
                         Some (t, fin)))))"

definition enqueue_params :: "'kv gpu \<Rightarrow> request \<Rightarrow> token list \<Rightarrow> 'kv batcher \<Rightarrow> 'kv batcher \<times> bool" where
  "enqueue_params g rq prompt b =
    (if prompt = [] \<or> max_seq (g_cfg g) < length prompt then (b, False)
     else if cb_free b = [] \<or> \<not> can_fit (g_cfg g) (length prompt) (blocks (cb_dec b)) then (b, False)
     else
       (let s = last (cb_free b);
            ((cached_len, cached), bs1) = prefill_prefix_reuse (g_hash g) (g_cfg g) prompt s (blocks (cb_dec b))
        in (b\<lparr>cb_free := butlast (cb_free b), cb_dec := (cb_dec b)\<lparr>blocks := bs1\<rparr>,
              cb_prefilling := cb_prefilling b @ [\<lparr>pf_req = rq, pf_slot = s, pf_prompt = prompt, pf_pos = cached_len, pf_cached = cached\<rparr>]\<rparr>,
            True)))"

section \<open>Preemption\<close>

definition preempt_last_active :: "'kv gpu \<Rightarrow> 'kv batcher \<Rightarrow> ('kv batcher \<times> bool) option" where
  "preempt_last_active g b =
    (if cb_active b = [] then Some (b, False)
     else
       (let q = last (cb_active b);
            b1 = b\<lparr>cb_active := butlast (cb_active b), cb_preemptions := cb_preemptions b + 1\<rparr>;
            put = (\<lambda>d kv. b1\<lparr>cb_dec := d, cb_free := cb_free b1 @ [cs_slot q],
                       cb_preempted := cb_preempted b1 @ [\<lparr>ps_req = cs_req q, ps_tokens = cs_tokens q, ps_kv = kv\<rparr>]\<rparr>)
        in if cb_swap_mode b
           then (case swap_out (g_cfg g) (cs_slot q) (length (cs_tokens q) - 1) (cb_dec b1) of
                   None \<Rightarrow> None
                 | Some (d, hk) \<Rightarrow> Some (put d (Some hk), True))
           else Some (put (release_slot (cs_slot q) (cb_dec b1)) None, True)))"

definition preempt_last_prefill :: "'kv batcher \<Rightarrow> 'kv batcher \<times> bool" where
  "preempt_last_prefill b =
    (if length (cb_prefilling b) < 2 then (b, False)
     else
       (let q = last (cb_prefilling b)
        in (b\<lparr>cb_prefilling := butlast (cb_prefilling b), cb_dec := release_slot (pf_slot q) (cb_dec b),
              cb_free := cb_free b @ [pf_slot q], cb_preemptions := cb_preemptions b + 1,
              cb_preempted := cb_preempted b @ [\<lparr>ps_req = pf_req q, ps_tokens = pf_prompt q, ps_kv = None\<rparr>]\<rparr>, True)))"

definition blocks_needed :: "'kv gpu \<Rightarrow> 'kv batcher \<Rightarrow> nat" where
  "blocks_needed g b =
     sum_list (map (\<lambda>q. blocks_short (g_cfg g) (cs_slot q) (length (cs_tokens q)) (blocks (cb_dec b))) (cb_active b))"

text \<open>
  Every round preempts one active sequence, so the number of active sequences bounds the
  rounds.
\<close>

fun make_room_loop :: "nat \<Rightarrow> 'kv gpu \<Rightarrow> 'kv batcher \<Rightarrow> 'kv batcher option" where
  "make_room_loop fuel g b =
    (if 1 < length (cb_active b) \<and> free_blocks (blocks (cb_dec b)) < blocks_needed g b
     then (case fuel of
             0 \<Rightarrow> None
           | Suc f \<Rightarrow>
               (case preempt_last_active g b of
                  None \<Rightarrow> None
                | Some (b1, _) \<Rightarrow> make_room_loop f g b1))
     else Some b)"

declare make_room_loop.simps [simp del]

definition make_room :: "'kv gpu \<Rightarrow> 'kv batcher \<Rightarrow> 'kv batcher option" where
  "make_room g b = make_room_loop (length (cb_active b)) g b"

section \<open>Decoding\<close>

text \<open>The cheapest path that serves every active stream.\<close>

definition batch_selects :: "cb_seq list \<Rightarrow> select list" where
  "batch_selects qs =
    (let seed = (\<lambda>q. step_seed (rq_seed (cs_req q)) (word_of_nat (gen_index q))) in
     if list_ex (\<lambda>q. needs_topk (rq_params (cs_req q))) qs
     then map (\<lambda>q. SelTopK (rq_params (cs_req q)) (seed q)) qs
     else if list_ex (\<lambda>q. f32_lt (Fin 0) (sp_temp (rq_params (cs_req q)))) qs
     then map (\<lambda>q. SelTemp (sp_temp (rq_params (cs_req q))) (seed q)) qs
     else map (\<lambda>q. SelGreedy) qs)"

definition push_token :: "cb_seq \<Rightarrow> token \<Rightarrow> cb_seq" where
  "push_token q t = q\<lparr>cs_tokens := cs_tokens q @ [t]\<rparr>"

definition emission_of :: "cb_seq \<Rightarrow> emission" where
  "emission_of q = (rq_id (cs_req q), cs_next q, seq_done q)"

text \<open>\<^verbatim>\<open>active.retain\<close>: finished sequences give their slots back, in order.\<close>

definition retain_active :: "'kv batcher \<Rightarrow> 'kv batcher" where
  "retain_active b =
     fold (\<lambda>q b1. if seq_done q then give_back (cs_slot q) b1 else b1\<lparr>cb_active := cb_active b1 @ [q]\<rparr>)
       (cb_active b) (b\<lparr>cb_active := []\<rparr>)"

definition decode_active :: "'kv gpu \<Rightarrow> 'kv batcher \<Rightarrow> ('kv batcher \<times> emission list) option" where
  "decode_active g b =
    (if cb_active b = [] then Some (b, [])
     else case make_room g b of
       None \<Rightarrow> None
     | Some b1 \<Rightarrow>
         (let qs = cb_active b1;
              rows = map (\<lambda>q. (cs_next q, cs_pos q, cs_slot q)) qs
          in case step_rows (g_cfg g) (g_lm g) rows (batch_selects qs) (cb_dec b1) of
               None \<Rightarrow> None
             | Some (d1, nexts) \<Rightarrow>
                 (let qs1 = map2 push_token qs nexts
                  in Some (retain_active (b1\<lparr>cb_dec := d1, cb_active := qs1\<rparr>), map emission_of qs1))))"

section \<open>Prefill, one chunk per step\<close>

text \<open>
  \<open>Some (b, True)\<close>: the chunk fits; \<open>Some (b, False)\<close>: it cannot fit yet.  Every round removes a sequence.
\<close>

fun fit_chunk :: "nat \<Rightarrow> 'kv gpu \<Rightarrow> slot \<Rightarrow> nat \<Rightarrow> 'kv batcher \<Rightarrow> ('kv batcher \<times> bool) option" where
  "fit_chunk fuel g s chunk_end b =
    (if free_blocks (blocks (cb_dec b)) < blocks_short (g_cfg g) s chunk_end (blocks (cb_dec b))
     then (case fuel of
             0 \<Rightarrow> None
           | Suc f \<Rightarrow>
               (case preempt_last_active g b of
                  None \<Rightarrow> None
                | Some (b1, True) \<Rightarrow> fit_chunk f g s chunk_end b1
                | Some (b1, False) \<Rightarrow>
                    (case preempt_last_prefill b1 of
                       (b2, True) \<Rightarrow> fit_chunk f g s chunk_end b2
                     | (b2, False) \<Rightarrow> Some (b2, False))))
     else Some (b, True))"

declare fit_chunk.simps [simp del]

definition finish_prefill :: "'kv gpu \<Rightarrow> prefilling_seq \<Rightarrow> token \<Rightarrow> 'kv batcher \<Rightarrow> 'kv batcher \<times> emission list" where
  "finish_prefill g pf t b =
    (let rq = pf_req pf;
         b1 = b\<lparr>cb_prefilling := tl (cb_prefilling b),
                cb_dec := (cb_dec b)\<lparr>blocks := prefill_register (g_hash g) (g_cfg g) (pf_prompt pf) (pf_slot pf) (pf_cached pf) (blocks (cb_dec b))\<rparr>\<rparr>;
         fin = (rq_max_tokens rq \<le> 1 \<or> t = rq_eos rq)
     in (if fin then give_back (pf_slot pf) b1
         else b1\<lparr>cb_active := cb_active b1 @ [\<lparr>cs_req = rq, cs_slot = pf_slot pf, cs_tokens = pf_prompt pf @ [t]\<rparr>]\<rparr>,
         [(rq_id rq, t, fin)]))"

definition advance_prefill :: "'kv gpu \<Rightarrow> 'kv batcher \<Rightarrow> ('kv batcher \<times> emission list) option" where
  "advance_prefill g b =
    (if cb_prefilling b = [] then Some (b, [])
     else
       (let pf = hd (cb_prefilling b);
            chunk_end = min (pf_pos pf + row_cap (g_cfg g)) (rq_prompt_len (pf_req pf))
        in case fit_chunk (length (cb_active b) + length (cb_prefilling b)) g (pf_slot pf) chunk_end b of
             None \<Rightarrow> None
           | Some (b1, False) \<Rightarrow> Some (b1, [])
           | Some (b1, True) \<Rightarrow>
               (let samp = prefill_samp (rq_params (pf_req pf)) (step_seed (rq_seed (pf_req pf)) 0)
                in case prefill_chunk (g_cfg g) (g_lm g) (pf_prompt pf) (pf_slot pf) (pf_pos pf) samp (cb_dec b1) of
                     None \<Rightarrow> None
                   | Some (d1, nxt, g0) \<Rightarrow>
                       (let pf1 = pf\<lparr>pf_pos := nxt\<rparr>;
                            b2 = b1\<lparr>cb_dec := d1, cb_prefilling := pf1 # tl (cb_prefilling b1)\<rparr>
                        in Some (case g0 of None \<Rightarrow> (b2, []) | Some t \<Rightarrow> finish_prefill g pf1 t b2)))))"

section \<open>Rescheduling\<close>

definition one_select :: "sampling_params \<Rightarrow> 32 word \<Rightarrow> select" where
  "one_select params seed =
    (if needs_topk params then SelTopK params seed
     else if f32_lt (Fin 0) (sp_temp params) then SelTemp (sp_temp params) seed else SelGreedy)"

definition decode_one ::
  "'kv gpu \<Rightarrow> token \<Rightarrow> nat \<Rightarrow> slot \<Rightarrow> sampling_params \<Rightarrow> 32 word \<Rightarrow> 'kv decoder \<Rightarrow> ('kv decoder \<times> token) option" where
  "decode_one g tok pos s params seed d =
    (case step_rows (g_cfg g) (g_lm g) [(tok, pos, s)] [one_select params seed] d of
       None \<Rightarrow> None
     | Some (d1, ts) \<Rightarrow> Some (d1, ts ! 0))"

definition resume_one ::
  "'kv gpu \<Rightarrow> 'kv preempted_seq \<Rightarrow> slot \<Rightarrow> 'kv decoder \<Rightarrow> ('kv decoder \<times> token) option" where
  "resume_one g p s d =
    (let rq = ps_req p;
         seed = step_seed (rq_seed rq) (word_of_nat (length (ps_tokens p) - rq_prompt_len rq))
     in case ps_kv p of
          Some hk \<Rightarrow>
            decode_one g (last (ps_tokens p)) (length (ps_tokens p) - 1) s (rq_params rq) seed
              (fst (swap_in (g_cfg g) s hk d))
        | None \<Rightarrow>
            (case prefill_slot_cached (g_hash g) (g_cfg g) (g_lm g) (ps_tokens p) s (prefill_samp (rq_params rq) seed) d of
               None \<Rightarrow> None
             | Some (d1, t, cached) \<Rightarrow> Some (d1, t)))"

fun reschedule_loop :: "nat \<Rightarrow> 'kv gpu \<Rightarrow> 'kv batcher \<Rightarrow> emission list \<Rightarrow> ('kv batcher \<times> emission list) option" where
  "reschedule_loop 0 g b out = Some (b, out)"
| "reschedule_loop (Suc f) g b out =
    (if cb_preempted b \<noteq> [] \<and> cb_free b \<noteq> [] \<and>
        can_fit (g_cfg g) (length (ps_tokens (hd (cb_preempted b)))) (blocks (cb_dec b))
     then
       (let p = hd (cb_preempted b); s = last (cb_free b);
            b1 = b\<lparr>cb_preempted := tl (cb_preempted b), cb_free := butlast (cb_free b)\<rparr>
        in case resume_one g p s (cb_dec b1) of
             None \<Rightarrow> None
           | Some (d1, t) \<Rightarrow>
               (let q = \<lparr>cs_req = ps_req p, cs_slot = s, cs_tokens = ps_tokens p @ [t]\<rparr>;
                    b2 = b1\<lparr>cb_dec := d1\<rparr>
                in reschedule_loop f g
                     (if seq_done q then give_back s b2 else b2\<lparr>cb_active := cb_active b2 @ [q]\<rparr>)
                     (out @ [emission_of q])))
     else Some (b, out))"

text \<open>Every round takes one sequence off the queue, so its length bounds the rounds.\<close>

definition reschedule :: "'kv gpu \<Rightarrow> 'kv batcher \<Rightarrow> ('kv batcher \<times> emission list) option" where
  "reschedule g b = reschedule_loop (length (cb_preempted b)) g b []"

section \<open>The scheduler step\<close>

definition after_decode ::
  "'kv gpu \<Rightarrow> ('kv batcher \<times> emission list) option \<Rightarrow> ('kv batcher \<times> emission list) option" where
  "after_decode g r =
    (case r of
       None \<Rightarrow> None
     | Some (b1, out1) \<Rightarrow>
         (case advance_prefill g b1 of
            None \<Rightarrow> None
          | Some (b2, out2) \<Rightarrow>
              (case reschedule g b2 of
                 None \<Rightarrow> None
               | Some (b3, out3) \<Rightarrow> Some (b3, out1 @ out2 @ out3))))"

definition step :: "'kv gpu \<Rightarrow> 'kv batcher \<Rightarrow> ('kv batcher \<times> emission list) option" where
  "step g b = after_decode g (decode_active g b)"

text \<open>The step with prompt-lookup drafts: one layout entry per active sequence.\<close>

definition pld_draft :: "nat \<Rightarrow> nat \<Rightarrow> cb_seq \<Rightarrow> token list" where
  "pld_draft lookup_len draft_k q =
    (let k = min draft_k (rq_max_tokens (cs_req q) - gen_index q)
     in if 1 \<le> k
        then (case lookup_draft_best (cs_tokens q) (cs_tokens q) lookup_len k of Some d \<Rightarrow> d | None \<Rightarrow> [])
        else [])"

definition pld_rows :: "cb_seq \<Rightarrow> token list \<Rightarrow> row list" where
  "pld_rows q draft =
    (let inp = cs_next q # draft in map (\<lambda>j. (inp ! j, cs_pos q + j, cs_slot q)) [0 ..< length inp])"

fun pld_commit :: "cb_seq \<Rightarrow> token list \<Rightarrow> cb_seq \<times> emission list" where
  "pld_commit q [] = (q, [])"
| "pld_commit q (t # ts) =
    (let q1 = push_token q t
     in if seq_done q1 then (q1, [emission_of q1])
        else (let (q2, es) = pld_commit q1 ts in (q2, emission_of q1 # es)))"

fun pld_apply :: "cb_seq list \<Rightarrow> token list list \<Rightarrow> token list \<Rightarrow> cb_seq list \<times> emission list" where
  "pld_apply (q # qs) (dr # drs) outs =
    (let so = take (Suc (length dr)) outs;
         (q1, es) = pld_commit q (take (Suc (count_accepted so dr)) so);
         (qs1, ess) = pld_apply qs drs (drop (Suc (length dr)) outs)
     in (q1 # qs1, es @ ess))"
| "pld_apply qs drs outs = ([], [])"

definition decode_active_pld ::
  "'kv gpu \<Rightarrow> nat \<Rightarrow> nat \<Rightarrow> 'kv batcher \<Rightarrow> ('kv batcher \<times> emission list) option" where
  "decode_active_pld g lookup_len draft_k b =
    (if cb_active b = [] then Some (b, [])
     else case make_room g b of
       None \<Rightarrow> None
     | Some b1 \<Rightarrow>
         (let qs = cb_active b1;
              drs = map (pld_draft lookup_len draft_k) qs;
              rows = concat (map2 pld_rows qs drs)
          in case step_slotted (g_cfg g) (g_lm g) rows (cb_dec b1) of
               None \<Rightarrow> None
             | Some (d1, outs) \<Rightarrow>
                 (let (qs1, es) = pld_apply qs drs outs
                  in Some (retain_active (b1\<lparr>cb_dec := d1, cb_active := qs1\<rparr>), es))))"

definition step_pld ::
  "'kv gpu \<Rightarrow> nat \<Rightarrow> nat \<Rightarrow> 'kv batcher \<Rightarrow> ('kv batcher \<times> emission list) option" where
  "step_pld g lookup_len draft_k b = after_decode g (decode_active_pld g lookup_len draft_k b)"

section \<open>The contract of the scheduler\<close>

text \<open>
  \<open>P i\<close> is the request and prompt a sequence id was admitted with, \<open>E i\<close> the tokens emitted for it so
  far.  Every live sequence's history is its prompt followed by what was emitted, its slot's entries are those of the
  history without its last token, and the stream of a greedy request is greedy decoding of its prompt.
\<close>

type_synonym requests = "nat \<Rightarrow> request \<times> token list"
type_synonym streams = "nat \<Rightarrow> token list"

definition greedy_request :: "request \<Rightarrow> bool" where
  "greedy_request rq = f32_le (sp_temp (rq_params rq)) (Fin 0)"

text \<open>The kernels treat a temperature of at most 0 as greedy.\<close>

definition greedy_select :: "'kv lm \<Rightarrow> bool" where
  "greedy_select lm =
    ((\<forall>ks t sd. f32_le t (Fin 0) \<longrightarrow> lm_pick lm ks (SelTemp t sd) = lm_pick lm ks SelGreedy) \<and>
     (\<forall>ks p sd. f32_le (sp_temp p) (Fin 0) \<longrightarrow> lm_pick lm ks (SelTopK p sd) = lm_pick lm ks SelGreedy))"

definition unfinished :: "request \<Rightarrow> token list \<Rightarrow> bool" where
  "unfinished rq out = (rq_eos rq \<notin> set out \<and> (out = [] \<or> length out < rq_max_tokens rq))"

definition seq_base_ok :: "requests \<Rightarrow> streams \<Rightarrow> request \<Rightarrow> token list \<Rightarrow> bool" where
  "seq_base_ok P E rq tokens =
    (rq = fst (P (rq_id rq)) \<and> tokens = snd (P (rq_id rq)) @ E (rq_id rq) \<and> snd (P (rq_id rq)) \<noteq> [] \<and>
     rq_prompt_len rq = length (snd (P (rq_id rq))) \<and> unfinished rq (E (rq_id rq)))"

definition act_ok :: "requests \<Rightarrow> streams \<Rightarrow> (slot \<Rightarrow> token list) \<Rightarrow> (slot \<Rightarrow> nat) \<Rightarrow> cb_seq \<Rightarrow> bool" where
  "act_ok P E r base q =
    (seq_base_ok P E (cs_req q) (cs_tokens q) \<and> E (rq_id (cs_req q)) \<noteq> [] \<and>
     base (cs_slot q) \<le> length (cs_tokens q) - 1 \<and>
     take (length (cs_tokens q) - 1) (r (cs_slot q)) = butlast (cs_tokens q))"

definition pf_ok :: "pool_cfg \<Rightarrow> requests \<Rightarrow> streams \<Rightarrow> (slot \<Rightarrow> token list) \<Rightarrow> (slot \<Rightarrow> nat) \<Rightarrow> prefilling_seq \<Rightarrow> bool" where
  "pf_ok c P E r base q =
    (seq_base_ok P E (pf_req q) (pf_prompt q) \<and> E (rq_id (pf_req q)) = [] \<and>
     pf_pos q < length (pf_prompt q) \<and> r (pf_slot q) = take (pf_pos q) (pf_prompt q) \<and>
     base (pf_slot q) = pf_cached q * block_size c \<and> base (pf_slot q) \<le> pf_pos q)"

definition ps_ok :: "pool_cfg \<Rightarrow> 'kv lm \<Rightarrow> requests \<Rightarrow> streams \<Rightarrow> 'kv preempted_seq \<Rightarrow> bool" where
  "ps_ok c lm P E q =
    (seq_base_ok P E (ps_req q) (ps_tokens q) \<and>
     (case ps_kv q of None \<Rightarrow> True
      | Some hk \<Rightarrow> host_holds c lm hk (butlast (ps_tokens q)) \<and>
          div_ceil (length (ps_tokens q) - 1) (block_size c) \<le> max_blocks_per_seq c))"

definition live_ids :: "'kv batcher \<Rightarrow> nat list" where
  "live_ids b = map (\<lambda>q. rq_id (cs_req q)) (cb_active b) @ map (\<lambda>q. rq_id (pf_req q)) (cb_prefilling b) @
     map (\<lambda>q. rq_id (ps_req q)) (cb_preempted b)"

definition all_slots :: "'kv batcher \<Rightarrow> slot list" where
  "all_slots b = cb_free b @ map cs_slot (cb_active b) @ map pf_slot (cb_prefilling b)"

definition slots_ok :: "pool_cfg \<Rightarrow> 'kv batcher \<Rightarrow> bool" where
  "slots_ok c b = (distinct (all_slots b) \<and> set (all_slots b) = {..<m_max c} \<and>
     (\<forall>s\<in>set (cb_free b). slot_blocks (blocks (cb_dec b)) ! s = []))"

text \<open>The tokens the model can ever select.\<close>

definition picks :: "'kv lm \<Rightarrow> token set" where
  "picks lm = {t. \<exists>ks sel. t = lm_pick lm ks sel}"

lemma picks_intro [simp]: "lm_pick lm ks sel \<in> picks lm" "next_greedy lm ctx \<in> picks lm"
  by (auto simp: picks_def next_greedy_def)

definition streams_ok :: "'kv lm \<Rightarrow> requests \<Rightarrow> streams \<Rightarrow> bool" where
  "streams_ok lm P E = (\<forall>i. set (E i) \<subseteq> picks lm \<and>
     rq_eos (fst (P i)) \<notin> set (butlast (E i)) \<and> length (E i) \<le> max 1 (rq_max_tokens (fst (P i))) \<and>
     (greedy_request (fst (P i)) \<longrightarrow> E i = greedy (next_greedy lm) (snd (P i)) (length (E i))))"

definition binv_at ::
  "'kv gpu \<Rightarrow> requests \<Rightarrow> streams \<Rightarrow> (slot \<Rightarrow> token list) \<Rightarrow> (slot \<Rightarrow> nat) \<Rightarrow> 'kv batcher \<Rightarrow> bool" where
  "binv_at g P E r base b =
    (dec_inv (g_hash g) (g_cfg g) (g_lm g) (cb_dec b) r base \<and> slots_ok (g_cfg g) b \<and> distinct (live_ids b) \<and>
     (\<forall>q\<in>set (cb_active b). act_ok P E r base q) \<and> (\<forall>q\<in>set (cb_prefilling b). pf_ok (g_cfg g) P E r base q) \<and>
     (\<forall>q\<in>set (cb_preempted b). ps_ok (g_cfg g) (g_lm g) P E q) \<and> streams_ok (g_lm g) P E)"

definition binv :: "'kv gpu \<Rightarrow> requests \<Rightarrow> streams \<Rightarrow> 'kv batcher \<Rightarrow> bool" where
  "binv g P E b = (\<exists>r base. binv_at g P E r base b)"

lemma binv_atD [inv_elims]:
  assumes "binv_at g P E r base b"
  shows "dec_inv (g_hash g) (g_cfg g) (g_lm g) (cb_dec b) r base" "slots_ok (g_cfg g) b" "distinct (live_ids b)"
    "\<And>q. q \<in> set (cb_active b) \<Longrightarrow> act_ok P E r base q" "\<And>q. q \<in> set (cb_prefilling b) \<Longrightarrow> pf_ok (g_cfg g) P E r base q"
    "\<And>q. q \<in> set (cb_preempted b) \<Longrightarrow> ps_ok (g_cfg g) (g_lm g) P E q" "streams_ok (g_lm g) P E"
  using assms unfolding binv_at_def by blast+

text \<open>A sequence is not affected by what happens to another id or another slot.\<close>

lemma seq_base_ok_other: "rq_id rq \<noteq> i \<Longrightarrow> seq_base_ok P (E(i := x)) rq ts = seq_base_ok P E rq ts"
  by (simp add: seq_base_ok_def)

lemma act_ok_other:
  "cs_slot q \<noteq> s \<Longrightarrow> act_ok P E (r(s := y)) (base(s := z)) q = act_ok P E r base q"
  "rq_id (cs_req q) \<noteq> i \<Longrightarrow> act_ok P (E(i := x)) r base q = act_ok P E r base q"
  by (simp_all add: act_ok_def seq_base_ok_other)

lemma pf_ok_other:
  "pf_slot q \<noteq> s \<Longrightarrow> pf_ok c P E (r(s := y)) (base(s := z)) q = pf_ok c P E r base q"
  "rq_id (pf_req q) \<noteq> i \<Longrightarrow> pf_ok c P (E(i := x)) r base q = pf_ok c P E r base q"
  by (simp_all add: pf_ok_def seq_base_ok_other)

lemma ps_ok_other: "rq_id (ps_req q) \<noteq> i \<Longrightarrow> ps_ok c lm P (E(i := x)) q = ps_ok c lm P E q"
  by (simp add: ps_ok_def seq_base_ok_other)

lemma slots_ok_range: "slots_ok c b \<Longrightarrow> s \<in> set (all_slots b) \<Longrightarrow> s < m_max c"
  by (auto simp: slots_ok_def)

lemma release_other: "only_slots {s} d (release_slot s d)"
  by (simp add: only_slots_def release_slot_def)

lemma release_empty: "s < length (slot_blocks (blocks d)) \<Longrightarrow> slot_blocks (blocks (release_slot s d)) ! s = []"
  by (simp add: release_slot_def)

lemma dec_slots: "dec_inv hash c lm d r base \<Longrightarrow> length (slot_blocks (blocks d)) = m_max c"
  using pool_invD(4) dec_invD(3) by blast

section \<open>Preemption keeps the contract\<close>

lemma preempt_active_inv:
  assumes inv: "binv_at g P E r base b" and ne: "cb_active b \<noteq> []"
  shows "\<exists>b'. preempt_last_active g b = Some (b', True) \<and>
    binv_at g P E (r(cs_slot (last (cb_active b)) := [])) (base(cs_slot (last (cb_active b)) := 0)) b' \<and>
    cb_active b' = butlast (cb_active b) \<and> cb_prefilling b' = cb_prefilling b"
proof -
  note B = binv_atD [OF inv]
  let ?q = "last (cb_active b)" and ?qs = "butlast (cb_active b)" and ?c = "g_cfg g" and ?d = "cb_dec b"
  have sp: "cb_active b = ?qs @ [?q]" using ne by simp
  have qin: "?q \<in> set (cb_active b)" using ne by simp
  let ?s = "cs_slot ?q" and ?ts = "cs_tokens ?q"
  have sin: "?s \<in> set (all_slots b)" using qin by (auto simp: all_slots_def)
  have s: "?s < m_max ?c" by (rule slots_ok_range [OF B(2) sin])
  have aq: "act_ok P E r base ?q" by (rule B(4) [OF qin])
  have tk: "butlast ?ts = take (length ?ts - 1) (r ?s)" using aq by (simp add: act_ok_def)
  have lb: "length ?ts - 1 = length (butlast ?ts)" by simp
  have nb: "div_ceil (length ?ts - 1) (block_size ?c) \<le> max_blocks_per_seq ?c"
  proof -
    note D = dec_invD [OF B(1)]
    have le: "length ?ts - 1 \<le> length (r ?s)" using tk lb by (metis length_take min.cobounded1)
    show ?thesis
    proof (cases "length ?ts - 1")
      case 0
      then show ?thesis using D(2) by (simp add: div_ceil_def)
    next
      case (Suc m)
      then have "m div block_size ?c < length (slot_blocks (blocks ?d) ! ?s)" using D(6) [OF s] le unfolding resident_def by auto
      also have "\<dots> \<le> max_blocks_per_seq ?c" by (rule pool_invD(11) [OF D(3) s])
      finally show ?thesis using Suc div_ceil_Suc [OF D(2), of m] by simp
    qed
  qed
  obtain hk where so: "swap_out ?c ?s (length ?ts - 1) ?d = Some (release_slot ?s ?d, hk)" and hh: "host_holds ?c (g_lm g) hk (butlast ?ts)"
    using swap_out_correct [OF B(1) s lb tk] by blast
  define kv where "kv = (if cb_swap_mode b then Some hk else None)"
  define b' where "b' = b\<lparr>cb_active := ?qs, cb_preemptions := cb_preemptions b + 1, cb_dec := release_slot ?s ?d,
    cb_free := cb_free b @ [?s], cb_preempted := cb_preempted b @ [\<lparr>ps_req = cs_req ?q, ps_tokens = ?ts, ps_kv = kv\<rparr>]\<rparr>"
  have run: "preempt_last_active g b = Some (b', True)"
    using ne so by (simp add: preempt_last_active_def Let_def b'_def kv_def)
  have dinv: "dec_inv (g_hash g) ?c (g_lm g) (cb_dec b') (r(?s := [])) (base(?s := 0))"
    using dec_inv_release [OF B(1) s] by (simp add: b'_def)
  have ds: "distinct (cb_free b @ map cs_slot (?qs @ [?q]) @ map pf_slot (cb_prefilling b))"
    using B(2) sp unfolding slots_ok_def all_slots_def by metis
  have slots: "slots_ok ?c b'"
    unfolding slots_ok_def
  proof (intro conjI ballI)
    show "distinct (all_slots b')" using ds by (auto simp: all_slots_def b'_def)
    have "set (all_slots b') = set (cb_free b @ map cs_slot (?qs @ [?q]) @ map pf_slot (cb_prefilling b))"
      by (auto simp: all_slots_def b'_def)
    then show "set (all_slots b') = {..<m_max ?c}" using B(2) sp unfolding slots_ok_def all_slots_def by metis
    fix x assume x: "x \<in> set (cb_free b')"
    show "slot_blocks (blocks (cb_dec b')) ! x = []"
    proof (cases "x = ?s")
      case True
      then show ?thesis using release_empty [of ?s ?d] dec_slots [OF B(1)] s by (simp add: b'_def)
    next
      case False
      then have "x \<in> set (cb_free b)" using x by (simp add: b'_def)
      then show ?thesis using B(2) release_other [of ?s ?d] False by (simp add: slots_ok_def only_slots_def b'_def)
    qed
  qed
  have ids: "distinct (live_ids b')"
  proof -
    have "distinct (map (\<lambda>q. rq_id (cs_req q)) (?qs @ [?q]) @ map (\<lambda>q. rq_id (pf_req q)) (cb_prefilling b) @ map (\<lambda>q. rq_id (ps_req q)) (cb_preempted b))"
      using B(3) sp unfolding live_ids_def by metis
    then show ?thesis by (auto simp: live_ids_def b'_def)
  qed
  have act: "act_ok P E (r(?s := [])) (base(?s := 0)) q" if "q \<in> set ?qs" for q
  proof -
    have "cs_slot q \<noteq> ?s" using ds imageI [OF that, of cs_slot] by auto
    then show ?thesis using B(4) [of q] that sp by (simp add: act_ok_other in_set_butlastD)
  qed
  have pf: "pf_ok ?c P E (r(?s := [])) (base(?s := 0)) q" if "q \<in> set (cb_prefilling b)" for q
  proof -
    have "pf_slot q \<noteq> ?s" using ds imageI [OF that, of pf_slot] by auto
    then show ?thesis using B(5) [OF that] by (simp add: pf_ok_other)
  qed
  have "ps_ok ?c (g_lm g) P E \<lparr>ps_req = cs_req ?q, ps_tokens = ?ts, ps_kv = kv\<rparr>"
    using aq hh nb by (simp add: ps_ok_def act_ok_def kv_def)
  then have "binv_at g P E (r(?s := [])) (base(?s := 0)) b'"
    unfolding binv_at_def using dinv slots ids act pf B(6,7) by (auto simp: b'_def)
  then show ?thesis using run by (auto simp: b'_def)
qed

lemma preempt_prefill_inv:
  assumes inv: "binv_at g P E r base b" and ne: "2 \<le> length (cb_prefilling b)" and run: "preempt_last_prefill b = (b', ok)"
  shows "ok \<and> binv_at g P E (r(pf_slot (last (cb_prefilling b)) := [])) (base(pf_slot (last (cb_prefilling b)) := 0)) b' \<and>
    cb_prefilling b' = butlast (cb_prefilling b) \<and> cb_active b' = cb_active b"
proof -
  note B = binv_atD [OF inv]
  let ?q = "last (cb_prefilling b)" and ?qs = "butlast (cb_prefilling b)" and ?c = "g_cfg g" and ?d = "cb_dec b"
  have sp: "cb_prefilling b = ?qs @ [?q]" using ne by (cases "cb_prefilling b" rule: rev_cases) auto
  have qin: "?q \<in> set (cb_prefilling b)" using sp by (metis in_set_conv_decomp)
  let ?s = "pf_slot ?q"
  have s: "?s < m_max ?c" by (rule slots_ok_range [OF B(2)]) (use qin in \<open>auto simp: all_slots_def\<close>)
  have pq: "pf_ok ?c P E r base ?q" by (rule B(5) [OF qin])
  have ok: ok and b': "b' = b\<lparr>cb_prefilling := ?qs, cb_dec := release_slot ?s ?d, cb_free := cb_free b @ [?s],
      cb_preemptions := cb_preemptions b + 1,
      cb_preempted := cb_preempted b @ [\<lparr>ps_req = pf_req ?q, ps_tokens = pf_prompt ?q, ps_kv = None\<rparr>]\<rparr>"
    using run ne by (auto simp: preempt_last_prefill_def Let_def)
  have dinv: "dec_inv (g_hash g) ?c (g_lm g) (cb_dec b') (r(?s := [])) (base(?s := 0))"
    using dec_inv_release [OF B(1) s] by (simp add: b')
  have ds: "distinct (cb_free b @ map cs_slot (cb_active b) @ map pf_slot (?qs @ [?q]))"
    using B(2) sp unfolding slots_ok_def all_slots_def by metis
  have slots: "slots_ok ?c b'"
    unfolding slots_ok_def
  proof (intro conjI ballI)
    show "distinct (all_slots b')" using ds by (auto simp: all_slots_def b')
    have "set (all_slots b') = set (cb_free b @ map cs_slot (cb_active b) @ map pf_slot (?qs @ [?q]))"
      by (auto simp: all_slots_def b')
    then show "set (all_slots b') = {..<m_max ?c}" using B(2) sp unfolding slots_ok_def all_slots_def by metis
    fix x assume x: "x \<in> set (cb_free b')"
    show "slot_blocks (blocks (cb_dec b')) ! x = []"
    proof (cases "x = ?s")
      case True
      then show ?thesis using release_empty [of ?s ?d] dec_slots [OF B(1)] s by (simp add: b')
    next
      case False
      then have "x \<in> set (cb_free b)" using x by (simp add: b')
      then show ?thesis using B(2) release_other [of ?s ?d] False by (simp add: slots_ok_def only_slots_def b')
    qed
  qed
  have ids: "distinct (live_ids b')"
  proof -
    have "distinct (map (\<lambda>q. rq_id (cs_req q)) (cb_active b) @ map (\<lambda>q. rq_id (pf_req q)) (?qs @ [?q]) @ map (\<lambda>q. rq_id (ps_req q)) (cb_preempted b))"
      using B(3) sp unfolding live_ids_def by metis
    then show ?thesis by (auto simp: live_ids_def b')
  qed
  have act: "act_ok P E (r(?s := [])) (base(?s := 0)) q" if "q \<in> set (cb_active b)" for q
  proof -
    have "cs_slot q \<noteq> ?s" using ds imageI [OF that, of cs_slot] by auto
    then show ?thesis using B(4) [OF that] by (simp add: act_ok_other)
  qed
  have pf: "pf_ok ?c P E (r(?s := [])) (base(?s := 0)) q" if "q \<in> set ?qs" for q
  proof -
    have "pf_slot q \<noteq> ?s" using ds imageI [OF that, of pf_slot] by auto
    then show ?thesis using B(5) [of q] that sp by (simp add: pf_ok_other in_set_butlastD)
  qed
  have "ps_ok ?c (g_lm g) P E \<lparr>ps_req = pf_req ?q, ps_tokens = pf_prompt ?q, ps_kv = None\<rparr>"
    using pq by (simp add: ps_ok_def pf_ok_def)
  then have "binv_at g P E (r(?s := [])) (base(?s := 0)) b'"
    unfolding binv_at_def using dinv slots ids act pf B(6,7) by (auto simp: b')
  then show ?thesis using ok by (simp add: b')
qed

lemma make_room_loop_inv:
  "binv_at g P E r base b \<Longrightarrow> length (cb_active b) \<le> fuel \<Longrightarrow>
    \<exists>b' r' base'. make_room_loop fuel g b = Some b' \<and> binv_at g P E r' base' b' \<and>
      (length (cb_active b') \<le> 1 \<or> blocks_needed g b' \<le> free_blocks (blocks (cb_dec b'))) \<and>
      (cb_active b \<noteq> [] \<longrightarrow> cb_active b' \<noteq> []) \<and> cb_prefilling b' = cb_prefilling b"
proof (induction fuel arbitrary: b r base)
  case 0
  then show ?case by (subst make_room_loop.simps) auto
next
  case (Suc f)
  show ?case
  proof (cases "1 < length (cb_active b) \<and> free_blocks (blocks (cb_dec b)) < blocks_needed g b")
    case True
    then have ne: "cb_active b \<noteq> []" by auto
    obtain b1 where b1: "preempt_last_active g b = Some (b1, True)"
      "binv_at g P E (r(cs_slot (last (cb_active b)) := [])) (base(cs_slot (last (cb_active b)) := 0)) b1"
      "cb_active b1 = butlast (cb_active b)" "cb_prefilling b1 = cb_prefilling b"
      using preempt_active_inv [OF Suc.prems(1) ne] by blast
    have "length (cb_active b1) \<le> f" "cb_active b1 \<noteq> []"
      using b1(3) Suc.prems(2) True by (auto simp: length_greater_0_conv [symmetric] simp del: length_greater_0_conv)
    from Suc.IH [OF b1(2) this(1)] obtain b' r' base' where "make_room_loop f g b1 = Some b'" "binv_at g P E r' base' b'"
      "length (cb_active b') \<le> 1 \<or> blocks_needed g b' \<le> free_blocks (blocks (cb_dec b'))" "cb_active b' \<noteq> []"
      "cb_prefilling b' = cb_prefilling b"
      using \<open>cb_active b1 \<noteq> []\<close> b1(4) by auto
    moreover have "make_room_loop (Suc f) g b = make_room_loop f g b1"
      using b1(1) True by (subst make_room_loop.simps) simp
    ultimately show ?thesis by auto
  next
    case False
    then show ?thesis using Suc.prems by (subst make_room_loop.simps) (auto simp: not_less)
  qed
qed

lemma make_room_inv:
  assumes "binv_at g P E r base b"
  shows "\<exists>b' r' base'. make_room g b = Some b' \<and> binv_at g P E r' base' b' \<and>
      (length (cb_active b') \<le> 1 \<or> blocks_needed g b' \<le> free_blocks (blocks (cb_dec b'))) \<and>
      (cb_active b \<noteq> [] \<longrightarrow> cb_active b' \<noteq> []) \<and> cb_prefilling b' = cb_prefilling b"
  unfolding make_room_def by (rule make_room_loop_inv [OF assms order_refl])

lemma fit_chunk_inv:
  "binv_at g P E r base b \<Longrightarrow> cb_prefilling b \<noteq> [] \<Longrightarrow> length (cb_active b) + length (cb_prefilling b) \<le> Suc fuel \<Longrightarrow>
    fit_chunk fuel g s n b = Some (b', ok) \<Longrightarrow>
    (\<exists>r' base'. binv_at g P E r' base' b') \<and> cb_prefilling b' \<noteq> [] \<and> hd (cb_prefilling b') = hd (cb_prefilling b)"
proof (induction fuel arbitrary: b r base)
  case 0
  then show ?case by (subst (asm) fit_chunk.simps) (auto split: if_splits)
next
  case (Suc f)
  show ?case
  proof (cases "free_blocks (blocks (cb_dec b)) < blocks_short (g_cfg g) s n (blocks (cb_dec b))")
    case False
    then show ?thesis using Suc.prems by (subst (asm) fit_chunk.simps) auto
  next
    case short: True
    show ?thesis
    proof (cases "cb_active b = []")
      case False
      obtain b1 where b1: "preempt_last_active g b = Some (b1, True)"
        "binv_at g P E (r(cs_slot (last (cb_active b)) := [])) (base(cs_slot (last (cb_active b)) := 0)) b1"
        "cb_active b1 = butlast (cb_active b)" "cb_prefilling b1 = cb_prefilling b"
        using preempt_active_inv [OF Suc.prems(1) False] by blast
      have run: "fit_chunk f g s n b1 = Some (b', ok)"
        using Suc.prems(4) short b1(1) by (subst (asm) fit_chunk.simps) simp
      have ln: "length (cb_active b1) + length (cb_prefilling b1) \<le> Suc f"
      proof -
        have "length (cb_active b) = Suc (length (cb_active b1))" using b1(3) False by (cases "cb_active b" rule: rev_cases) auto
        then show ?thesis using Suc.prems(3) b1(4) by simp
      qed
      have "cb_prefilling b1 \<noteq> []" using b1(4) Suc.prems(2) by simp
      from Suc.IH [OF b1(2) this ln run] show ?thesis using b1(4) by simp
    next
      case True
      then have na: "preempt_last_active g b = Some (b, False)" by (simp add: preempt_last_active_def)
      obtain b2 ok2 where pp: "preempt_last_prefill b = (b2, ok2)" by fastforce
      show ?thesis
      proof (cases "2 \<le> length (cb_prefilling b)")
        case False
        then have "b2 = b" "\<not> ok2" using pp by (auto simp: preempt_last_prefill_def)
        then have "b' = b" using Suc.prems(4) short na pp by (subst (asm) fit_chunk.simps) simp
        then show ?thesis using Suc.prems by auto
      next
        case two: True
        note Q = preempt_prefill_inv [OF Suc.prems(1) two pp]
        have run: "fit_chunk f g s n b2 = Some (b', ok)"
          using Suc.prems(4) short na pp Q by (subst (asm) fit_chunk.simps) simp
        have ne: "cb_prefilling b2 \<noteq> []" "hd (cb_prefilling b2) = hd (cb_prefilling b)"
          using Q two by (cases "cb_prefilling b"; auto split: if_splits)+
        have ln: "length (cb_active b2) + length (cb_prefilling b2) \<le> Suc f"
        proof -
          have "length (cb_prefilling b) = Suc (length (cb_prefilling b2))" using Q two by simp
          then show ?thesis using Suc.prems(3) Q by simp
        qed
        have "\<exists>r' base'. binv_at g P E r' base' b2" using Q by blast
        then obtain r' base' where "binv_at g P E r' base' b2" by blast
        from Suc.IH [OF this ne(1) ln run] show ?thesis using ne(2) by simp
      qed
    qed
  qed
qed

section \<open>Emissions\<close>

definition emit1 :: "streams \<Rightarrow> emission \<Rightarrow> streams" where
  "emit1 E e = (case e of (i, t, fin) \<Rightarrow> E(i := E i @ [t]))"

definition emit :: "streams \<Rightarrow> emission list \<Rightarrow> streams" where
  "emit E es = foldl emit1 E es"

text \<open>
  What every emission promises: the stream was unfinished, the completion flag is set exactly when
  this token finishes it, and a greedy request gets the model's greedy token.
\<close>

definition emit_ok :: "'kv lm \<Rightarrow> requests \<Rightarrow> streams \<Rightarrow> emission \<Rightarrow> bool" where
  "emit_ok lm P E = (\<lambda>(i, t, fin). let rq = fst (P i) in
     unfinished rq (E i) \<and> (fin \<longleftrightarrow> t = rq_eos rq \<or> max 1 (rq_max_tokens rq) \<le> Suc (length (E i))) \<and>
     t \<in> picks lm \<and> (greedy_request rq \<longrightarrow> t = next_greedy lm (snd (P i) @ E i)))"

fun emits_ok :: "'kv lm \<Rightarrow> requests \<Rightarrow> streams \<Rightarrow> emission list \<Rightarrow> bool" where
  "emits_ok lm P E [] = True"
| "emits_ok lm P E (e # es) = (emit_ok lm P E e \<and> emits_ok lm P (emit1 E e) es)"

lemma emit_simps [simp]: "emit E [] = E" "emit E (e # es) = emit (emit1 E e) es" "emit E (es @ fs) = emit (emit E es) fs"
  by (simp_all add: emit_def)

lemma emits_ok_append [simp]: "emits_ok lm P E (es @ fs) = (emits_ok lm P E es \<and> emits_ok lm P (emit E es) fs)"
  by (induction es arbitrary: E) auto

lemma emit_fresh: "i \<notin> fst ` set es \<Longrightarrow> emit E es i = E i"
  by (induction es arbitrary: E) (auto simp: emit1_def split: prod.splits)

lemma emit_in: "distinct (map fst es) \<Longrightarrow> (i, t, fin) \<in> set es \<Longrightarrow> emit E es i = E i @ [t]"
proof (induction es arbitrary: E)
  case (Cons e es)
  show ?case
  proof (cases "e = (i, t, fin)")
    case True
    then have "emit (emit1 E e) es i = emit1 E e i" using Cons.prems by (intro emit_fresh) auto
    then show ?thesis using True by (simp add: emit1_def)
  next
    case False
    then have "(i, t, fin) \<in> set es" using Cons.prems(2) by simp
    moreover have "fst e \<noteq> i" using Cons.prems(1) calculation by (auto simp: image_iff)
    ultimately show ?thesis using Cons.IH [of "emit1 E e"] Cons.prems(1)
      by (auto simp: emit1_def split: prod.splits)
  qed
qed simp

lemma emit_ok_cong: "E (fst e) = E' (fst e) \<Longrightarrow> emit_ok lm P E e = emit_ok lm P E' e"
  by (auto simp: emit_ok_def split: prod.splits)

lemma emits_ok_distinct:
  "distinct (map fst es) \<Longrightarrow> (\<And>e. e \<in> set es \<Longrightarrow> emit_ok lm P E e) \<Longrightarrow> emits_ok lm P E es"
proof (induction es arbitrary: E)
  case (Cons e es)
  have "emit_ok lm P (emit1 E e) e'" if "e' \<in> set es" for e'
  proof -
    have "fst e' \<noteq> fst e" using Cons.prems(1) that by (auto simp: image_iff)
    then have "emit1 E e (fst e') = E (fst e')" by (auto simp: emit1_def split: prod.splits)
    then show ?thesis using emit_ok_cong Cons.prems(2) that by (metis list.set_intros(2))
  qed
  then show ?case using Cons by simp
qed simp

lemma streams_ok_emit1:
  assumes "streams_ok lm P E" "emit_ok lm P E e"
  shows "streams_ok lm P (emit1 E e)"
proof -
  obtain i t fin where e: "e = (i, t, fin)" by (cases e)
  note ok = assms(2) [unfolded e emit_ok_def, simplified Let_def prod.case]
  have old: "set (E j) \<subseteq> picks lm \<and> rq_eos (fst (P j)) \<notin> set (butlast (E j)) \<and> length (E j) \<le> max 1 (rq_max_tokens (fst (P j))) \<and>
      (greedy_request (fst (P j)) \<longrightarrow> E j = greedy (next_greedy lm) (snd (P j)) (length (E j)))" for j
    using assms(1) by (simp add: streams_ok_def)
  have "length (E i @ [t]) \<le> max 1 (rq_max_tokens (fst (P i)))"
    using ok by (auto simp: unfinished_def)
  moreover have "rq_eos (fst (P i)) \<notin> set (butlast (E i @ [t]))" using ok by (simp add: unfinished_def)
  moreover have "set (E i @ [t]) \<subseteq> picks lm" using ok old [of i] by simp
  moreover have "E i @ [t] = greedy (next_greedy lm) (snd (P i)) (length (E i @ [t]))" if "greedy_request (fst (P i))"
    using ok old [of i] that by (simp add: greedy_Suc_append del: greedy.simps)
  ultimately show ?thesis using old by (simp add: streams_ok_def emit1_def e del: greedy.simps)
qed

lemma streams_ok_emit: "streams_ok lm P E \<Longrightarrow> emits_ok lm P E es \<Longrightarrow> streams_ok lm P (emit E es)"
  by (induction es arbitrary: E) (auto simp: streams_ok_emit1)

section \<open>Placing sequences after a token\<close>

definition settle :: "cb_seq \<Rightarrow> 'kv batcher \<Rightarrow> 'kv batcher" where
  "settle q b = (if seq_done q then give_back (cs_slot q) b else b\<lparr>cb_active := cb_active b @ [q]\<rparr>)"

text \<open>A sequence that has just got a token: as an active one, but perhaps finished.\<close>

definition act_half :: "requests \<Rightarrow> streams \<Rightarrow> (slot \<Rightarrow> token list) \<Rightarrow> (slot \<Rightarrow> nat) \<Rightarrow> cb_seq \<Rightarrow> bool" where
  "act_half P E r base q =
    (let rq = cs_req q; i = rq_id rq in
     rq = fst (P i) \<and> cs_tokens q = snd (P i) @ E i \<and> snd (P i) \<noteq> [] \<and> rq_prompt_len rq = length (snd (P i)) \<and>
     E i \<noteq> [] \<and> rq_eos rq \<notin> set (butlast (E i)) \<and> base (cs_slot q) \<le> length (cs_tokens q) - 1 \<and>
     take (length (cs_tokens q) - 1) (r (cs_slot q)) = butlast (cs_tokens q))"

lemma act_half_gen_index: "act_half P E r base q \<Longrightarrow> gen_index q = length (E (rq_id (cs_req q)))"
  by (auto simp: act_half_def Let_def gen_index_def)

lemma act_half_ok: "act_half P E r base q \<Longrightarrow> \<not> seq_done q \<Longrightarrow> act_ok P E r base q"
proof -
  assume h: "act_half P E r base q" and nd: "\<not> seq_done q"
  let ?i = "rq_id (cs_req q)" and ?rq = "cs_req q"
  have e: "E ?i \<noteq> []" "rq_eos ?rq \<notin> set (butlast (E ?i))" "cs_tokens q = snd (P ?i) @ E ?i"
    using h by (auto simp: act_half_def Let_def)
  have "last (E ?i) \<noteq> rq_eos ?rq" using nd e by (simp add: seq_done_def cs_next_def)
  moreover have "set (E ?i) = insert (last (E ?i)) (set (butlast (E ?i)))"
    using e(1) by (metis append_butlast_last_id insert_is_Un list.simps(15) set_append sup_commute empty_set)
  ultimately have "unfinished ?rq (E ?i)"
    using nd e act_half_gen_index [OF h] by (auto simp: unfinished_def seq_done_def)
  then show ?thesis using h by (auto simp: act_half_def act_ok_def seq_base_ok_def Let_def)
qed

lemma act_half_cong:
  "r (cs_slot q) = r' (cs_slot q) \<Longrightarrow> base (cs_slot q) = base' (cs_slot q) \<Longrightarrow>
   act_half P E r base q = act_half P E r' base' q"
  by (simp add: act_half_def)

definition mid_inv ::
  "'kv gpu \<Rightarrow> requests \<Rightarrow> streams \<Rightarrow> (slot \<Rightarrow> token list) \<Rightarrow> (slot \<Rightarrow> nat) \<Rightarrow> cb_seq list \<Rightarrow> 'kv batcher \<Rightarrow> bool" where
  "mid_inv g P E r base qs b =
    (dec_inv (g_hash g) (g_cfg g) (g_lm g) (cb_dec b) r base \<and>
     distinct (map cs_slot qs @ all_slots b) \<and> set (map cs_slot qs @ all_slots b) = {..<m_max (g_cfg g)} \<and>
     (\<forall>s\<in>set (cb_free b). slot_blocks (blocks (cb_dec b)) ! s = []) \<and>
     distinct (map (\<lambda>q. rq_id (cs_req q)) qs @ live_ids b) \<and>
     (\<forall>q\<in>set (cb_active b). act_ok P E r base q) \<and> (\<forall>q\<in>set (cb_prefilling b). pf_ok (g_cfg g) P E r base q) \<and>
     (\<forall>q\<in>set (cb_preempted b). ps_ok (g_cfg g) (g_lm g) P E q) \<and> streams_ok (g_lm g) P E \<and>
     (\<forall>q\<in>set qs. act_half P E r base q))"

lemma mid_inv_Nil: "mid_inv g P E r base [] b = binv_at g P E r base b"
  by (auto simp: mid_inv_def binv_at_def slots_ok_def)

lemma mid_inv_settle:
  assumes inv: "mid_inv g P E r base (q # qs) b"
  shows "\<exists>r' base'. mid_inv g P E r' base' qs (settle q b)"
proof (cases "seq_done q")
  case False
  have "act_ok P E r base q" using act_half_ok [OF _ False] inv by (simp add: mid_inv_def)
  then have "mid_inv g P E r base qs (settle q b)"
    using inv False unfolding mid_inv_def settle_def
    by (auto simp: all_slots_def live_ids_def)
  then show ?thesis by blast
next
  case True
  let ?s = "cs_slot q" and ?c = "g_cfg g" and ?b = "give_back (cs_slot q) b"
  let ?r = "r(?s := [])" and ?base = "base(?s := 0)"
  have di: "dec_inv (g_hash g) ?c (g_lm g) (cb_dec b) r base" using inv by (simp add: mid_inv_def)
  have ds: "distinct (?s # map cs_slot qs @ cb_free b @ map cs_slot (cb_active b) @ map pf_slot (cb_prefilling b))"
    using inv by (simp add: mid_inv_def all_slots_def)
  have s: "?s < m_max ?c" using inv by (auto simp: mid_inv_def)
  have di': "dec_inv (g_hash g) ?c (g_lm g) (cb_dec ?b) ?r ?base"
    using dec_inv_release [OF di s] by (simp add: give_back_def)
  have fr: "slot_blocks (blocks (cb_dec ?b)) ! x = []" if x: "x \<in> set (cb_free ?b)" for x
  proof (cases "x = ?s")
    case True
    then show ?thesis using release_empty [of ?s "cb_dec b"] dec_slots [OF di] s by (simp add: give_back_def)
  next
    case False
    then have "slot_blocks (blocks (cb_dec b)) ! x = []" using x inv by (simp add: mid_inv_def give_back_def)
    then show ?thesis using release_other [of ?s "cb_dec b"] False by (simp add: only_slots_def give_back_def)
  qed
  have ac: "act_ok P E ?r ?base x" if "x \<in> set (cb_active b)" for x
  proof -
    have "cs_slot x \<noteq> ?s" using ds imageI [OF that, of cs_slot] by auto
    then show ?thesis using that inv by (simp add: act_ok_other mid_inv_def)
  qed
  have pf: "pf_ok ?c P E ?r ?base x" if "x \<in> set (cb_prefilling b)" for x
  proof -
    have "pf_slot x \<noteq> ?s" using ds imageI [OF that, of pf_slot] by auto
    then show ?thesis using that inv by (simp add: pf_ok_other mid_inv_def)
  qed
  have ah: "act_half P E ?r ?base x" if "x \<in> set qs" for x
  proof -
    have "cs_slot x \<noteq> ?s" using ds imageI [OF that, of cs_slot] by auto
    then show ?thesis using that inv act_half_cong [of ?r x r ?base base P E] by (simp add: mid_inv_def)
  qed
  have sl: "distinct (map cs_slot qs @ all_slots ?b)" "set (map cs_slot qs @ all_slots ?b) = {..<m_max ?c}"
    using inv by (auto simp: mid_inv_def all_slots_def give_back_def)
  have "mid_inv g P E ?r ?base qs ?b"
    unfolding mid_inv_def using di' sl fr ac pf ah inv by (auto simp: mid_inv_def give_back_def live_ids_def)
  then show ?thesis using True by (auto simp: settle_def)
qed

lemma mid_inv_fold: "mid_inv g P E r base qs b \<Longrightarrow> \<exists>r' base'. binv_at g P E r' base' (fold settle qs b)"
proof (induction qs arbitrary: b r base)
  case Nil
  then show ?case by (auto simp: mid_inv_Nil)
next
  case (Cons q qs)
  then show ?case using mid_inv_settle [OF Cons.prems] by auto
qed

lemma retain_settle: "retain_active b = fold settle (cb_active b) (b\<lparr>cb_active := []\<rparr>)"
  unfolding retain_active_def settle_def ..


lemma settle_frame [simp]: "cb_prefilling (settle q b) = cb_prefilling b" "cb_preempted (settle q b) = cb_preempted b"
  by (simp_all add: settle_def give_back_def)

lemma settle_fold_frame [simp]:
  "cb_prefilling (fold settle qs b) = cb_prefilling b" "cb_preempted (fold settle qs b) = cb_preempted b"
  by (induction qs arbitrary: b) simp_all

section \<open>A decode step keeps the contract\<close>

text \<open>New tokens for the active sequences, their entries being in place.\<close>

lemma mid_inv_decoded:
  assumes inv: "binv_at g P E r base b" and d1: "dec_inv (g_hash g) (g_cfg g) (g_lm g) d1 r' base"
    and sl: "only_slots (cs_slot ` set (cb_active b)) (cb_dec b) d1"
    and rr: "\<And>s. s \<notin> cs_slot ` set (cb_active b) \<Longrightarrow> r' s = r s"
    and same: "map cs_slot qs = map cs_slot (cb_active b)" "map (\<lambda>q. rq_id (cs_req q)) qs = map (\<lambda>q. rq_id (cs_req q)) (cb_active b)"
    and ok: "emits_ok (g_lm g) P E es" and ids: "fst ` set es \<subseteq> (\<lambda>q. rq_id (cs_req q)) ` set (cb_active b)"
    and half: "\<And>q. q \<in> set qs \<Longrightarrow> act_half P (emit E es) r' base q"
  shows "mid_inv g P (emit E es) r' base qs (b\<lparr>cb_dec := d1, cb_active := []\<rparr>)" (is "mid_inv _ _ ?E _ _ _ ?b")
proof -
  note B = binv_atD [OF inv]
  have slots: "distinct (map cs_slot qs @ all_slots ?b)" "set (map cs_slot qs @ all_slots ?b) = {..<m_max (g_cfg g)}"
    using B(2) same(1) by (auto simp: slots_ok_def all_slots_def)
  have fr: "slot_blocks (blocks d1) ! s = []" if s: "s \<in> set (cb_free b)" for s
  proof -
    have "s \<notin> cs_slot ` set (cb_active b)" using B(2) s by (auto simp: slots_ok_def all_slots_def)
    then show ?thesis using sl s B(2) by (simp add: only_slots_def slots_ok_def)
  qed
  have idd: "distinct (map (\<lambda>q. rq_id (cs_req q)) qs @ live_ids ?b)" using B(3) same(2) by (simp add: live_ids_def)
  have keep: "?E i = E i" if "i \<notin> (\<lambda>q. rq_id (cs_req q)) ` set (cb_active b)" for i
    using ids that by (intro emit_fresh) auto
  have pf: "pf_ok (g_cfg g) P ?E r' base q" if q: "q \<in> set (cb_prefilling b)" for q
  proof -
    have "rq_id (pf_req q) \<notin> (\<lambda>q. rq_id (cs_req q)) ` set (cb_active b)" "pf_slot q \<notin> cs_slot ` set (cb_active b)"
      using B(2,3) q by (auto simp: slots_ok_def all_slots_def live_ids_def)
    then show ?thesis using B(5) [OF q] keep rr by (auto simp: pf_ok_def seq_base_ok_def)
  qed
  have ps: "ps_ok (g_cfg g) (g_lm g) P ?E q" if q: "q \<in> set (cb_preempted b)" for q
  proof -
    have "rq_id (ps_req q) \<notin> (\<lambda>q. rq_id (cs_req q)) ` set (cb_active b)"
      using B(3) q by (auto simp: live_ids_def)
    then show ?thesis using B(6) [OF q] keep by (simp add: ps_ok_def seq_base_ok_def)
  qed
  have st: "streams_ok (g_lm g) P ?E" by (rule streams_ok_emit [OF B(7) ok])
  show ?thesis
    unfolding mid_inv_def using d1 slots fr idd pf ps st half by simp
qed

lemma abs_rows_decode:
  assumes "distinct (map cs_slot qs)" "\<forall>q\<in>set qs. act_ok P E r base q" "\<forall>q\<in>set qs. cs_slot q < m_max c"
  defines "rows \<equiv> map (\<lambda>q. (cs_next q, cs_pos q, cs_slot q)) qs"
  shows "rows_ok c base r rows" "snd (abs_rows r rows) = map cs_tokens qs"
    "\<And>q. q \<in> set qs \<Longrightarrow> fst (abs_rows r rows) (cs_slot q) = cs_tokens q"
    "\<And>s. s \<notin> cs_slot ` set qs \<Longrightarrow> fst (abs_rows r rows) s = r s"
proof -
  have "rows_ok c base r rows \<and> snd (abs_rows r rows) = map cs_tokens qs \<and>
    (\<forall>q\<in>set qs. fst (abs_rows r rows) (cs_slot q) = cs_tokens q) \<and>
    (\<forall>s. s \<notin> cs_slot ` set qs \<longrightarrow> fst (abs_rows r rows) s = r s)"
    using assms(1-3) unfolding rows_def
  proof (induction qs arbitrary: r)
    case (Cons q qs)
    have a: "act_ok P E r base q" using Cons.prems(2) by auto
    have ne: "cs_tokens q \<noteq> []" using a by (auto simp: act_ok_def seq_base_ok_def)
    have cut: "take (cs_pos q) (r (cs_slot q)) @ [cs_next q] = cs_tokens q"
      using a ne by (simp add: act_ok_def cs_pos_def cs_next_def)
    have tl: "take (cs_pos q) (r (cs_slot q)) = butlast (cs_tokens q)" using a by (simp add: act_ok_def cs_pos_def)
    have le: "cs_pos q \<le> length (r (cs_slot q))"
      using arg_cong [OF tl, of length] by (simp add: cs_pos_def)
    let ?r = "r(cs_slot q := cs_tokens q)"
    have ai: "act_ok P E ?r base q'" if q': "q' \<in> set qs" for q'
    proof -
      have "cs_slot q' \<noteq> cs_slot q" using Cons.prems(1) imageI [OF q', of cs_slot] by auto
      then show ?thesis using Cons.prems(2) q' by (simp add: act_ok_def)
    qed
    have IH: "rows_ok c base ?r (map (\<lambda>q. (cs_next q, cs_pos q, cs_slot q)) qs) \<and>
        snd (abs_rows ?r (map (\<lambda>q. (cs_next q, cs_pos q, cs_slot q)) qs)) = map cs_tokens qs \<and>
        (\<forall>q\<in>set qs. fst (abs_rows ?r (map (\<lambda>q. (cs_next q, cs_pos q, cs_slot q)) qs)) (cs_slot q) = cs_tokens q) \<and>
        (\<forall>s. s \<notin> cs_slot ` set qs \<longrightarrow> fst (abs_rows ?r (map (\<lambda>q. (cs_next q, cs_pos q, cs_slot q)) qs)) s = ?r s)"
      by (rule Cons.IH) (use ai Cons.prems(1,3) in \<open>auto simp del: fun_upd_apply\<close>)
    have "base (cs_slot q) \<le> cs_pos q" using a by (simp add: act_ok_def cs_pos_def)
    moreover have "cs_slot q \<notin> cs_slot ` set qs" using Cons.prems(1) by simp
    ultimately show ?case using IH cut le Cons.prems(3) by (simp add: split_beta Let_def)
  qed simp
  then show "rows_ok c base r rows" "snd (abs_rows r rows) = map cs_tokens qs"
    "\<And>q. q \<in> set qs \<Longrightarrow> fst (abs_rows r rows) (cs_slot q) = cs_tokens q"
    "\<And>s. s \<notin> cs_slot ` set qs \<Longrightarrow> fst (abs_rows r rows) s = r s" by blast+
qed

lemma f32_le_not_lt: "f32_le x y \<Longrightarrow> \<not> f32_lt y x"
  by (cases x; cases y) (auto simp: f32_le_def)

lemma batch_selects_greedy:
  assumes "greedy_select lm" "i < length qs" "greedy_request (cs_req (qs ! i))"
  shows "lm_pick lm ks (batch_selects qs ! i) = lm_pick lm ks SelGreedy"
  using assms by (simp add: batch_selects_def Let_def greedy_select_def greedy_request_def)

lemma length_batch_selects [simp]: "length (batch_selects qs) = length qs"
  by (simp add: batch_selects_def Let_def)

lemma act_half_push:
  assumes a: "act_ok P E r base q" and r': "r' (cs_slot q) = cs_tokens q"
    and E': "E' (rq_id (cs_req q)) = E (rq_id (cs_req q)) @ [t]"
  shows "act_half P E' r' base (push_token q t)"
proof -
  have h: "cs_req q = fst (P (rq_id (cs_req q)))" "cs_tokens q = snd (P (rq_id (cs_req q))) @ E (rq_id (cs_req q))"
    "snd (P (rq_id (cs_req q))) \<noteq> []" "rq_prompt_len (cs_req q) = length (snd (P (rq_id (cs_req q))))"
    "rq_eos (cs_req q) \<notin> set (E (rq_id (cs_req q)))" "base (cs_slot q) \<le> length (cs_tokens q)"
    using a by (auto simp: act_ok_def seq_base_ok_def unfinished_def)
  then show ?thesis using r' E' by (simp add: act_half_def push_token_def Let_def butlast_append)
qed

lemma emission_push_ok:
  assumes a: "act_ok P E r base q" and t: "t \<in> picks lm"
    and g: "greedy_request (cs_req q) \<Longrightarrow> t = next_greedy lm (cs_tokens q)"
  shows "emit_ok lm P E (emission_of (push_token q t))"
proof -
  have h: "cs_req q = fst (P (rq_id (cs_req q)))" "cs_tokens q = snd (P (rq_id (cs_req q))) @ E (rq_id (cs_req q))"
    "rq_prompt_len (cs_req q) = length (snd (P (rq_id (cs_req q))))" "unfinished (cs_req q) (E (rq_id (cs_req q)))"
    using a by (auto simp: act_ok_def seq_base_ok_def)
  then show ?thesis
    using g t by (auto simp: emit_ok_def emission_of_def push_token_def seq_done_def cs_next_def gen_index_def Let_def max_def)
qed

lemma decode_active_inv:
  assumes inv: "binv_at g P E r base b" and gs: "greedy_select (g_lm g)"
    and run: "decode_active g b = Some (b', es)"
  shows "emits_ok (g_lm g) P E es \<and> (\<exists>r' base'. binv_at g P (emit E es) r' base' b') \<and> cb_prefilling b' = cb_prefilling b"
proof (cases "cb_active b = []")
  case True
  then show ?thesis using run inv by (auto simp: decode_active_def)
next
  case False
  obtain b1 r1 base1 where mr: "make_room g b = Some b1" and inv1: "binv_at g P E r1 base1 b1"
    and pf: "cb_prefilling b1 = cb_prefilling b"
    using make_room_inv [OF inv] by blast
  note B = binv_atD [OF inv1]
  let ?qs = "cb_active b1" and ?lm = "g_lm g"
  let ?rows = "map (\<lambda>q. (cs_next q, cs_pos q, cs_slot q)) ?qs" and ?sels = "batch_selects ?qs"
  obtain d1 nexts where st: "step_rows (g_cfg g) ?lm ?rows ?sels (cb_dec b1) = Some (d1, nexts)"
    and b': "b' = retain_active (b1\<lparr>cb_dec := d1, cb_active := map2 push_token ?qs nexts\<rparr>)"
    and es: "es = map emission_of (map2 push_token ?qs nexts)"
    using run False mr by (auto simp: decode_active_def Let_def split: option.splits)
  obtain kss where fw: "forward_rows (g_cfg g) ?lm ?rows (cb_dec b1) = Some (d1, kss)"
    and nx: "nexts = map2 (lm_pick ?lm) kss ?sels"
    using st by (auto simp: step_rows_def split: if_splits option.splits)
  have dq: "distinct (map cs_slot ?qs)" using B(2) by (simp add: slots_ok_def all_slots_def)
  have sm: "\<forall>q\<in>set ?qs. cs_slot q < m_max (g_cfg g)"
    using slots_ok_range [OF B(2)] by (auto simp: all_slots_def)
  have aq: "\<forall>q\<in>set ?qs. act_ok P E r1 base1 q" using B(4) by blast
  note A = abs_rows_decode [OF dq aq sm]
  note F = forward_rows_refine [OF B(1) A(1) fw]
  let ?r = "fst (abs_rows r1 ?rows)" and ?qs1 = "map2 push_token ?qs nexts"
  have kss: "kss = map (\<lambda>q. kvs ?lm (cs_tokens q)) ?qs" using F(2) A(2) by simp
  have ln: "length nexts = length ?qs" by (simp add: nx kss)
  have ni: "nexts ! i = lm_pick ?lm (kvs ?lm (cs_tokens (?qs ! i))) (?sels ! i)" if "i < length ?qs" for i
    using that by (simp add: nx kss)
  have same: "map cs_slot ?qs1 = map cs_slot ?qs" "map (\<lambda>q. rq_id (cs_req q)) ?qs1 = map (\<lambda>q. rq_id (cs_req q)) ?qs"
    using ln by (auto intro!: nth_equalityI simp: push_token_def)
  have ids: "map fst es = map (\<lambda>q. rq_id (cs_req q)) ?qs1" by (simp add: es emission_of_def)
  have dist: "distinct (map fst es)" using B(3) same(2) ids by (simp add: live_ids_def)
  have eok: "emit_ok ?lm P E e" if e: "e \<in> set es" for e
  proof -
    obtain i where i: "i < length ?qs" "e = emission_of (push_token (?qs ! i) (nexts ! i))"
      using e ln by (auto simp: es in_set_conv_nth)
    show ?thesis
      unfolding i(2)
    proof (rule emission_push_ok [OF B(4)])
      show "?qs ! i \<in> set ?qs" using i(1) by simp
      show "nexts ! i \<in> picks ?lm" using ni [OF i(1)] by simp
      show "nexts ! i = next_greedy ?lm (cs_tokens (?qs ! i))" if "greedy_request (cs_req (?qs ! i))"
        using ni [OF i(1)] batch_selects_greedy [OF gs i(1) that] by (simp add: next_greedy_def)
    qed
  qed
  have eoks: "emits_ok ?lm P E es" by (rule emits_ok_distinct [OF dist eok])
  have half: "act_half P (emit E es) ?r base1 q1" if q1: "q1 \<in> set ?qs1" for q1
  proof -
    obtain i where i: "i < length ?qs" "q1 = push_token (?qs ! i) (nexts ! i)"
      using q1 ln by (auto simp: in_set_conv_nth)
    let ?q = "?qs ! i"
    have qin: "?q \<in> set ?qs" using i(1) by simp
    have "emission_of q1 \<in> set es" using q1 unfolding es by (rule image_eqI [OF refl, THEN subsetD [OF equalityD2 [OF set_map]]])
    moreover have "emission_of q1 = (rq_id (cs_req ?q), nexts ! i, seq_done q1)"
      using i(2) by (simp add: emission_of_def push_token_def cs_next_def)
    ultimately have "emit E es (rq_id (cs_req ?q)) = E (rq_id (cs_req ?q)) @ [nexts ! i]"
      using emit_in [OF dist] by simp
    then show ?thesis unfolding i(2) by (rule act_half_push [where r' = ?r, OF B(4) [OF qin] A(3) [OF qin]])
  qed
  have rows_in: "\<forall>(t, p, s)\<in>set ?rows. s \<in> cs_slot ` set ?qs" by auto
  have idsub: "fst ` set es \<subseteq> (\<lambda>q. rq_id (cs_req q)) ` set ?qs"
    using arg_cong [OF ids, of set] arg_cong [OF same(2), of set] by simp
  have "mid_inv g P (emit E es) ?r base1 ?qs1 (b1\<lparr>cb_dec := d1, cb_active := []\<rparr>)"
    by (rule mid_inv_decoded [OF inv1 F(1) forward_rows_other [OF fw rows_in] A(4) same eoks idsub half])
  then have "\<exists>r' base'. binv_at g P (emit E es) r' base' (fold settle ?qs1 (b1\<lparr>cb_dec := d1, cb_active := []\<rparr>))"
    by (rule mid_inv_fold)
  then show ?thesis using eoks pf b' by (simp add: retain_settle)
qed


section \<open>Prefill, admission and rescheduling keep the contract\<close>

text \<open>The contract of a batcher from which the owner of slot \<open>s\<close> has been taken out; \<open>i\<close> is not live.\<close>

definition hole_inv ::
  "'kv gpu \<Rightarrow> requests \<Rightarrow> streams \<Rightarrow> (slot \<Rightarrow> token list) \<Rightarrow> (slot \<Rightarrow> nat) \<Rightarrow> slot \<Rightarrow> nat \<Rightarrow> 'kv batcher \<Rightarrow> bool" where
  "hole_inv g P E r base s i b =
    (dec_inv (g_hash g) (g_cfg g) (g_lm g) (cb_dec b) r base \<and>
     distinct (s # all_slots b) \<and> set (s # all_slots b) = {..<m_max (g_cfg g)} \<and>
     (\<forall>s\<in>set (cb_free b). slot_blocks (blocks (cb_dec b)) ! s = []) \<and> distinct (i # live_ids b) \<and>
     (\<forall>q\<in>set (cb_active b). act_ok P E r base q) \<and> (\<forall>q\<in>set (cb_prefilling b). pf_ok (g_cfg g) P E r base q) \<and>
     (\<forall>q\<in>set (cb_preempted b). ps_ok (g_cfg g) (g_lm g) P E q) \<and> streams_ok (g_lm g) P E)"

lemma hole_invD:
  assumes "hole_inv g P E r base s i b"
  shows "dec_inv (g_hash g) (g_cfg g) (g_lm g) (cb_dec b) r base" "distinct (s # all_slots b)" "set (s # all_slots b) = {..<m_max (g_cfg g)}"
    "\<And>x. x \<in> set (cb_free b) \<Longrightarrow> slot_blocks (blocks (cb_dec b)) ! x = []" "distinct (i # live_ids b)"
    "\<And>q. q \<in> set (cb_active b) \<Longrightarrow> act_ok P E r base q" "\<And>q. q \<in> set (cb_prefilling b) \<Longrightarrow> pf_ok (g_cfg g) P E r base q"
    "\<And>q. q \<in> set (cb_preempted b) \<Longrightarrow> ps_ok (g_cfg g) (g_lm g) P E q" "streams_ok (g_lm g) P E" "s < m_max (g_cfg g)"
  using assms unfolding hole_inv_def by auto

text \<open>Work on the slot that was taken out does not touch anything else.\<close>

lemma hole_inv_work:
  assumes h: "hole_inv g P E r base s i b" and d1: "dec_inv (g_hash g) (g_cfg g) (g_lm g) d1 r' base'"
    and sl: "only_slots {s} (cb_dec b) d1" and o: "\<And>x. x \<noteq> s \<Longrightarrow> r' x = r x \<and> base' x = base x"
    and E': "\<And>j. j \<noteq> i \<Longrightarrow> E' j = E j" and st: "streams_ok (g_lm g) P E'"
  shows "hole_inv g P E' r' base' s i (b\<lparr>cb_dec := d1\<rparr>)"
proof -
  note H = hole_invD [OF h]
  have a: "act_ok P E' r' base' q" if q: "q \<in> set (cb_active b)" for q
  proof -
    have "cs_slot q \<noteq> s" "rq_id (cs_req q) \<noteq> i" using H(2,5) q by (auto simp: all_slots_def live_ids_def)
    then show ?thesis using H(6) [OF q] o [of "cs_slot q"] E' by (auto simp: act_ok_def seq_base_ok_def)
  qed
  have p: "pf_ok (g_cfg g) P E' r' base' q" if q: "q \<in> set (cb_prefilling b)" for q
  proof -
    have "pf_slot q \<noteq> s" "rq_id (pf_req q) \<noteq> i" using H(2,5) q by (auto simp: all_slots_def live_ids_def)
    then show ?thesis using H(7) [OF q] o E' by (auto simp: pf_ok_def seq_base_ok_def)
  qed
  have ps: "ps_ok (g_cfg g) (g_lm g) P E' q" if q: "q \<in> set (cb_preempted b)" for q
  proof -
    have "rq_id (ps_req q) \<noteq> i" using H(5) q by (auto simp: live_ids_def)
    then show ?thesis using H(8) [OF q] E' by (simp add: ps_ok_def seq_base_ok_def)
  qed
  have fr: "slot_blocks (blocks d1) ! x = []" if x: "x \<in> set (cb_free b)" for x
  proof -
    have "x \<noteq> s" using H(2) x by (auto simp: all_slots_def)
    then show ?thesis using sl H(4) [OF x] by (simp add: only_slots_def)
  qed
  have "all_slots (b\<lparr>cb_dec := d1\<rparr>) = all_slots b" "live_ids (b\<lparr>cb_dec := d1\<rparr>) = live_ids b"
    by (simp_all add: all_slots_def live_ids_def)
  then show ?thesis unfolding hole_inv_def using d1 H(2,3,5) a p ps fr st by simp
qed

lemma hole_release:
  assumes h: "hole_inv g P E r base s i b"
  shows "binv_at g P E (r(s := [])) (base(s := 0)) (give_back s b)"
proof -
  note H = hole_invD [OF h]
  have h': "hole_inv g P E (r(s := [])) (base(s := 0)) s i (b\<lparr>cb_dec := release_slot s (cb_dec b)\<rparr>)"
    by (rule hole_inv_work [OF h dec_inv_release [OF H(1,10)] release_other _ _ H(9)]) auto
  note H' = hole_invD [OF h']
  have "slot_blocks (blocks (release_slot s (cb_dec b))) ! s = []"
    using release_empty [of s "cb_dec b"] dec_slots [OF H(1)] H(10) by simp
  moreover have "slots_ok (g_cfg g) (give_back s b) = (distinct (s # all_slots b) \<and> set (s # all_slots b) = {..<m_max (g_cfg g)} \<and>
      (\<forall>x\<in>set (cb_free b) \<union> {s}. slot_blocks (blocks (release_slot s (cb_dec b))) ! x = []))"
    by (auto simp: slots_ok_def all_slots_def give_back_def)
  ultimately have "slots_ok (g_cfg g) (give_back s b)" using H'(4) H(2,3) by simp
  then show ?thesis unfolding binv_at_def using H' by (simp add: give_back_def live_ids_def)
qed

lemma hole_token:
  assumes h: "hole_inv g P E r base s i b" and d1: "dec_inv (g_hash g) (g_cfg g) (g_lm g) d1 r' base'"
    and sl: "only_slots {s} (cb_dec b) d1" and o: "\<And>x. x \<noteq> s \<Longrightarrow> r' x = r x \<and> base' x = base x"
    and q: "cs_slot q = s" "rq_id (cs_req q) = i" and ok: "emit_ok (g_lm g) P E (emission_of q)"
    and half: "act_half P (emit1 E (emission_of q)) r' base' q"
  shows "binv g P (emit1 E (emission_of q)) (settle q (b\<lparr>cb_dec := d1\<rparr>))"
proof -
  let ?E = "emit1 E (emission_of q)" and ?b = "b\<lparr>cb_dec := d1\<rparr>"
  have "hole_inv g P ?E r' base' s i ?b"
    by (rule hole_inv_work [OF h d1 sl o _ streams_ok_emit1 [OF hole_invD(9) [OF h] ok]])
       (auto simp: emit1_def emission_of_def q)
  then have "mid_inv g P ?E r' base' [q] ?b"
    using half q by (simp add: hole_inv_def mid_inv_def)
  from mid_inv_fold [OF this] show ?thesis by (simp add: binv_def)
qed

text \<open>A first token and the following ones: the history grows by the token of the slot's entries.\<close>

lemma act_half_one:
  assumes "seq_base_ok P E rq ts" "r' s = ts" "base' s \<le> length ts" "E' (rq_id rq) = E (rq_id rq) @ [t]"
  shows "act_half P E' r' base' \<lparr>cs_req = rq, cs_slot = s, cs_tokens = ts @ [t]\<rparr>"
  using assms by (auto simp: act_half_def seq_base_ok_def unfinished_def Let_def butlast_append)

lemma emission_one_ok:
  assumes b: "seq_base_ok P E rq ts" and t: "t \<in> picks lm" and g: "greedy_request rq \<Longrightarrow> t = next_greedy lm ts"
  shows "emit_ok lm P E (emission_of \<lparr>cs_req = rq, cs_slot = s, cs_tokens = ts @ [t]\<rparr>)"
  using b g t by (auto simp: seq_base_ok_def emit_ok_def emission_of_def seq_done_def cs_next_def gen_index_def Let_def max_def)

lemma prefill_samp_greedy: "greedy_request rq \<Longrightarrow> samp_select (prefill_samp (rq_params rq) sd) = SelGreedy"
  by (simp add: greedy_request_def prefill_samp_def samp_select_def f32_le_not_lt)

lemma finish_prefill_settle:
  assumes "seq_base_ok P E (pf_req pf) (pf_prompt pf)" "E (rq_id (pf_req pf)) = []"
  shows "finish_prefill g pf t b =
    (let q = \<lparr>cs_req = pf_req pf, cs_slot = pf_slot pf, cs_tokens = pf_prompt pf @ [t]\<rparr>
     in (settle q (b\<lparr>cb_prefilling := tl (cb_prefilling b), cb_dec := (cb_dec b)\<lparr>blocks :=
          prefill_register (g_hash g) (g_cfg g) (pf_prompt pf) (pf_slot pf) (pf_cached pf) (blocks (cb_dec b))\<rparr>\<rparr>),
         [emission_of q]))"
  using assms
  by (auto simp: finish_prefill_def settle_def emission_of_def seq_done_def cs_next_def gen_index_def seq_base_ok_def Let_def give_back_def)

lemma hole_prefill_head:
  assumes "binv_at g P E r base b" "cb_prefilling b = pf # pfs"
  shows "hole_inv g P E r base (pf_slot pf) (rq_id (pf_req pf)) (b\<lparr>cb_prefilling := pfs\<rparr>)"
proof -
  note B = binv_atD [OF assms(1)]
  show ?thesis
    unfolding hole_inv_def using B assms(2)
    by (auto simp: slots_ok_def all_slots_def live_ids_def)
qed

lemma advance_prefill_inv:
  assumes inv: "binv_at g P E r base b" and run: "advance_prefill g b = Some (b', es)"
  shows "emits_ok (g_lm g) P E es \<and> binv g P (emit E es) b'"
proof (cases "cb_prefilling b")
  case Nil
  then show ?thesis using run inv by (auto simp: advance_prefill_def binv_def)
next
  case (Cons pf rest)
  have ne: "cb_prefilling b \<noteq> []" using Cons by simp
  let ?n = "min (pf_pos pf + row_cap (g_cfg g)) (rq_prompt_len (pf_req pf))" and ?c = "g_cfg g" and ?lm = "g_lm g"
  obtain b1 ok where fc: "fit_chunk (length (cb_active b) + length (cb_prefilling b)) g (pf_slot pf) ?n b = Some (b1, ok)"
    using run Cons by (auto simp: advance_prefill_def Let_def split: option.splits)
  obtain r1 base1 where inv1: "binv_at g P E r1 base1 b1" and hd: "cb_prefilling b1 \<noteq> []" "hd (cb_prefilling b1) = pf"
    using fit_chunk_inv [OF inv ne _ fc] Cons by auto
  show ?thesis
  proof (cases ok)
    case False
    then show ?thesis using run Cons fc inv1 by (auto simp: advance_prefill_def Let_def binv_def)
  next
    case True
    let ?s = "pf_slot pf" and ?pr = "pf_prompt pf"
    obtain pfs where pfs: "cb_prefilling b1 = pf # pfs" using hd by (cases "cb_prefilling b1") auto
    note H = hole_prefill_head [OF inv1 pfs]
    have s: "?s < m_max ?c" by (rule hole_invD(10) [OF H])
    have pok: "pf_ok ?c P E r1 base1 pf" using binv_atD(5) [OF inv1] pfs by simp
    have p: "r1 ?s = take (pf_pos pf) ?pr" "base1 ?s \<le> pf_pos pf" "base1 ?s = pf_cached pf * block_size ?c"
        "E (rq_id (pf_req pf)) = []" "seq_base_ok P E (pf_req pf) ?pr"
      using pok by (auto simp: pf_ok_def)
    obtain sd where samp: "prefill_samp (rq_params (pf_req pf)) (step_seed (rq_seed (pf_req pf)) 0) = sd" by simp
    obtain d1 nxt g0 where pc: "prefill_chunk ?c ?lm ?pr ?s (pf_pos pf) sd (cb_dec b1) = Some (d1, nxt, g0)"
      and b': "(b', es) = (let pf1 = pf\<lparr>pf_pos := nxt\<rparr>; b2 = b1\<lparr>cb_dec := d1, cb_prefilling := pf1 # pfs\<rparr>
         in case g0 of None \<Rightarrow> (b2, []) | Some t \<Rightarrow> finish_prefill g pf1 t b2)"
      using run Cons fc True samp pfs by (auto simp: advance_prefill_def Let_def split: option.splits prod.splits)
    note C = prefill_chunk_refine [OF binv_atD(1) [OF inv1] s p(1,2) pc]
    let ?r = "r1(?s := take nxt ?pr)"
    have only: "only_slots {?s} (cb_dec b1) d1" by (rule prefill_chunk_other [OF pc])
    show ?thesis
    proof (cases "nxt = length ?pr")
      case False
      then have g0: "g0 = None" "nxt < length ?pr" using C by auto
      have h2: "hole_inv g P E ?r base1 ?s (rq_id (pf_req pf)) (b1\<lparr>cb_prefilling := pfs, cb_dec := d1\<rparr>)"
        using hole_inv_work [OF H, of d1 ?r base1 E] C only binv_atD(7) [OF inv1] by simp
      have "pf_ok ?c P E ?r base1 (pf\<lparr>pf_pos := nxt\<rparr>)" using pok g0 C by (auto simp: pf_ok_def)
      then have "binv_at g P E ?r base1 (b1\<lparr>cb_dec := d1, cb_prefilling := pf\<lparr>pf_pos := nxt\<rparr> # pfs\<rparr>)"
        using h2 by (auto simp: hole_inv_def binv_at_def slots_ok_def all_slots_def live_ids_def)
      then show ?thesis using b' g0 by (auto simp: binv_def Let_def)
    next
      case full: True
      obtain t where g0: "g0 = Some t" "t = lm_pick ?lm (kvs ?lm ?pr) (samp_select sd)" using C full by auto
      let ?d2 = "d1\<lparr>blocks := prefill_register (g_hash g) ?c ?pr ?s (pf_cached pf) (blocks d1)\<rparr>"
      let ?q = "\<lparr>cs_req = pf_req pf, cs_slot = ?s, cs_tokens = ?pr @ [t]\<rparr>"
      let ?base = "base1(?s := length ?pr)"
      have d1: "dec_inv (g_hash g) ?c ?lm d1 ?r base1" using C by simp
      have d2: "dec_inv (g_hash g) ?c ?lm ?d2 ?r ?base"
        by (rule dec_inv_register [OF d1 s]) (use full p(3) in auto)
      have only2: "only_slots {?s} (cb_dec (b1\<lparr>cb_prefilling := pfs\<rparr>)) ?d2" using only by (simp add: only_slots_def)
      have eok: "emit_ok ?lm P E (emission_of ?q)"
        by (rule emission_one_ok [OF p(5)]) (use g0(2) prefill_samp_greedy [of "pf_req pf"] samp in \<open>auto simp: next_greedy_def\<close>)
      have half: "act_half P (emit1 E (emission_of ?q)) ?r ?base ?q"
        by (rule act_half_one [OF p(5)]) (use full in \<open>auto simp: emit1_def emission_of_def cs_next_def\<close>)
      have "binv g P (emit1 E (emission_of ?q)) (settle ?q (b1\<lparr>cb_prefilling := pfs, cb_dec := ?d2\<rparr>))"
        using hole_token [OF H d2 only2 _ _ _ eok half] by simp
      moreover have "(b', es) = (settle ?q (b1\<lparr>cb_prefilling := pfs, cb_dec := ?d2\<rparr>), [emission_of ?q])"
        unfolding b' using g0(1) finish_prefill_settle [of P E "pf\<lparr>pf_pos := nxt\<rparr>" g t] p(4,5) by (simp add: Let_def)
      ultimately show ?thesis using eok by simp
    qed
  qed
qed


lemma swap_in_other: "only_slots {s} d (fst (swap_in c s hk d))"
  using ensure_blocks_other [of _ s c "hk_n_pos hk" "blocks d"]
  by (auto simp: swap_in_def only_slots_def restore_blocks_frame split: prod.splits bool.splits)

lemma resume_one_correct:
  assumes inv: "dec_inv (g_hash g) (g_cfg g) (g_lm g) d r base" and nc: "no_collision (g_hash g)" and gs: "greedy_select (g_lm g)"
    and s: "s < m_max (g_cfg g)" and empty: "slot_blocks (blocks d) ! s = []"
    and ps: "ps_ok (g_cfg g) (g_lm g) P E p" and fit: "can_fit (g_cfg g) (length (ps_tokens p)) (blocks d)"
    and run: "resume_one g p s d = Some (d1, t)"
  shows "\<exists>base'. dec_inv (g_hash g) (g_cfg g) (g_lm g) d1 (r(s := ps_tokens p)) (base(s := base')) \<and>
    base' \<le> length (ps_tokens p) \<and> only_slots {s} d d1 \<and>
    t \<in> picks (g_lm g) \<and> (greedy_request (ps_req p) \<longrightarrow> t = next_greedy (g_lm g) (ps_tokens p))"
proof -
  let ?rq = "ps_req p" and ?ts = "ps_tokens p" and ?c = "g_cfg g" and ?lm = "g_lm g"
  let ?sd = "step_seed (rq_seed ?rq) (word_of_nat (length ?ts - rq_prompt_len ?rq))"
  have ne: "?ts \<noteq> []" using ps by (auto simp: ps_ok_def seq_base_ok_def)
  show ?thesis
  proof (cases "ps_kv p")
    case None
    then obtain cl where pf: "prefill_slot_cached (g_hash g) ?c ?lm ?ts s (prefill_samp (rq_params ?rq) ?sd) d = Some (d1, t, cl)"
      using run by (auto simp: resume_one_def Let_def split: option.splits)
    note C = prefill_slot_cached_correct [OF inv nc s empty pf]
    have "greedy_request ?rq \<longrightarrow> t = next_greedy ?lm ?ts" using C(2) by (simp add: prefill_samp_greedy next_greedy_def)
    moreover have "t \<in> picks ?lm" using C(2) by simp
    ultimately show ?thesis using C(1) prefill_slot_cached_other [OF pf] by blast
  next
    case (Some hk)
    obtain d0 ok where si: "swap_in ?c s hk d = (d0, ok)" by fastforce
    have hh: "host_holds ?c ?lm hk (butlast ?ts)" "div_ceil (length (butlast ?ts)) (block_size ?c) \<le> max_blocks_per_seq ?c"
      using ps Some by (auto simp: ps_ok_def)
    note S = swap_in_correct [OF inv s empty hh si]
    have "div_ceil (length (butlast ?ts)) (block_size ?c) \<le> free_blocks (blocks d)"
      using fit div_ceil_mono [OF dec_invD(2) [OF inv], of "length (butlast ?ts)" "length ?ts"] by (simp add: can_fit_def)
    then have inv0: "dec_inv (g_hash g) ?c ?lm d0 (r(s := butlast ?ts)) base" using S by simp
    let ?rows = "[(last ?ts, length ?ts - 1, s)]" and ?sel = "one_select (rq_params ?rq) ?sd"
    obtain kss where fw: "forward_rows ?c ?lm ?rows d0 = Some (d1, kss)" and t: "t = map2 (lm_pick ?lm) kss [?sel] ! 0"
      using run Some si by (auto simp: resume_one_def decode_one_def step_rows_def Let_def split: if_splits option.splits)
    have "base s = 0" by (rule dec_inv_empty_slot(2) [OF inv s empty])
    then have rok: "rows_ok ?c base (r(s := butlast ?ts)) ?rows" using s by simp
    have ab: "abs_rows (r(s := butlast ?ts)) ?rows = (r(s := ?ts), [?ts])" using ne by (simp add: Let_def)
    note F = forward_rows_refine [OF inv0 rok fw, unfolded ab fst_conv snd_conv]
    have "kss = [kvs ?lm ?ts]" using F(2) by simp
    then have "greedy_request ?rq \<longrightarrow> t = next_greedy ?lm ?ts"
      using t gs by (auto simp: one_select_def greedy_request_def greedy_select_def next_greedy_def dest: f32_le_not_lt)
    moreover have "t \<in> picks ?lm" using t \<open>kss = [kvs ?lm ?ts]\<close> by simp
    moreover have "only_slots {s} d0 d1" by (rule forward_rows_other [OF fw]) simp
    moreover have "only_slots {s} d d0" using swap_in_other [of s d ?c hk] si by simp
    moreover have "dec_inv (g_hash g) ?c ?lm d1 (r(s := ?ts)) (base(s := base s))" using F(1) by simp
    moreover have "base s \<le> length ?ts" using \<open>base s = 0\<close> by simp
    ultimately show ?thesis using only_slots_trans by blast
  qed
qed

lemma hole_pop_free:
  assumes "binv_at g P E r base b" "cb_free b \<noteq> []" "i \<notin> set (live_ids b)"
  shows "hole_inv g P E r base (last (cb_free b)) i (b\<lparr>cb_free := butlast (cb_free b)\<rparr>)"
    "slot_blocks (blocks (cb_dec b)) ! last (cb_free b) = []"
proof -
  note B = binv_atD [OF assms(1)]
  let ?fs = "butlast (cb_free b)" and ?s = "last (cb_free b)"
  have sp: "cb_free b = ?fs @ [?s]" using assms(2) by simp
  have d: "distinct ((?fs @ [?s]) @ map cs_slot (cb_active b) @ map pf_slot (cb_prefilling b))"
    "set ((?fs @ [?s]) @ map cs_slot (cb_active b) @ map pf_slot (cb_prefilling b)) = {..<m_max (g_cfg g)}"
    using B(2) sp unfolding slots_ok_def all_slots_def by metis+
  have fr: "slot_blocks (blocks (cb_dec b)) ! x = []" if "x \<in> set (?fs @ [?s])" for x
    using B(2) that sp unfolding slots_ok_def by metis
  have a: "all_slots (b\<lparr>cb_free := ?fs\<rparr>) = ?fs @ map cs_slot (cb_active b) @ map pf_slot (cb_prefilling b)"
    "live_ids (b\<lparr>cb_free := ?fs\<rparr>) = live_ids b" by (simp_all add: all_slots_def live_ids_def)
  show "hole_inv g P E r base ?s i (b\<lparr>cb_free := ?fs\<rparr>)"
    unfolding hole_inv_def a using B assms(3) d fr by auto
  show "slot_blocks (blocks (cb_dec b)) ! ?s = []" using fr by simp
qed

lemma reschedule_loop_settle:
  assumes "cb_preempted b = p # rest" "cb_free b \<noteq> []" "can_fit (g_cfg g) (length (ps_tokens p)) (blocks (cb_dec b))"
  shows "reschedule_loop (Suc f) g b out =
    (let s = last (cb_free b); b1 = b\<lparr>cb_preempted := rest, cb_free := butlast (cb_free b)\<rparr>
     in case resume_one g p s (cb_dec b) of None \<Rightarrow> None
      | Some (d1, t) \<Rightarrow>
          (let q = \<lparr>cs_req = ps_req p, cs_slot = s, cs_tokens = ps_tokens p @ [t]\<rparr>
           in reschedule_loop f g (settle q (b1\<lparr>cb_dec := d1\<rparr>)) (out @ [emission_of q])))"
  using assms by (simp add: Let_def settle_def split: option.split)

lemma resume_step:
  assumes nc: "no_collision (g_hash g)" and gs: "greedy_select (g_lm g)" and inv: "binv_at g P E r base b"
    and pre: "cb_preempted b = p # rest" and fr: "cb_free b \<noteq> []"
    and fit: "can_fit (g_cfg g) (length (ps_tokens p)) (blocks (cb_dec b))"
    and ro: "resume_one g p (last (cb_free b)) (cb_dec b) = Some (d1, t)"
    and q: "q = \<lparr>cs_req = ps_req p, cs_slot = last (cb_free b), cs_tokens = ps_tokens p @ [t]\<rparr>"
  shows "emit_ok (g_lm g) P E (emission_of q) \<and>
    binv g P (emit1 E (emission_of q)) (settle q (b\<lparr>cb_preempted := rest, cb_free := butlast (cb_free b), cb_dec := d1\<rparr>))"
proof -
  let ?b = "b\<lparr>cb_preempted := rest\<rparr>" and ?s = "last (cb_free b)" and ?i = "rq_id (ps_req p)"
  let ?b1 = "b\<lparr>cb_preempted := rest, cb_free := butlast (cb_free b)\<rparr>"
  note B = binv_atD [OF inv]
  have pok: "ps_ok (g_cfg g) (g_lm g) P E p" using B(6) pre by simp
  have invb: "binv_at g P E r base ?b"
    unfolding binv_at_def using B pre by (auto simp: slots_ok_def all_slots_def live_ids_def)
  have "?i \<notin> set (live_ids ?b)" using B(3) pre by (auto simp: live_ids_def)
  then have H: "hole_inv g P E r base ?s ?i ?b1" and em: "slot_blocks (blocks (cb_dec b)) ! ?s = []"
    using hole_pop_free [OF invb, of ?i] fr by simp_all
  have s: "?s < m_max (g_cfg g)" by (rule hole_invD(10) [OF H])
  obtain base' where R: "dec_inv (g_hash g) (g_cfg g) (g_lm g) d1 (r(?s := ps_tokens p)) (base(?s := base'))"
    "base' \<le> length (ps_tokens p)" "only_slots {?s} (cb_dec b) d1"
    "greedy_request (ps_req p) \<longrightarrow> t = next_greedy (g_lm g) (ps_tokens p)" "t \<in> picks (g_lm g)"
    using resume_one_correct [OF B(1) nc gs s em pok fit ro] by auto
  have sb: "seq_base_ok P E (ps_req p) (ps_tokens p)" using pok by (simp add: ps_ok_def)
  have eok: "emit_ok (g_lm g) P E (emission_of q)" unfolding q by (rule emission_one_ok [OF sb R(5)]) (use R(4) in simp)
  have half: "act_half P (emit1 E (emission_of q)) (r(?s := ps_tokens p)) (base(?s := base')) q"
    unfolding q by (rule act_half_one [OF sb]) (use R(2) in \<open>auto simp: emit1_def emission_of_def cs_next_def\<close>)
  have only: "only_slots {?s} (cb_dec ?b1) d1" using R(3) by simp
  have "binv g P (emit1 E (emission_of q)) (settle q (?b1\<lparr>cb_dec := d1\<rparr>))"
    by (rule hole_token [OF H R(1) only _ _ _ eok half]) (auto simp: q)
  then show ?thesis using eok by simp
qed

lemma reschedule_loop_inv:
  assumes nc: "no_collision (g_hash g)" and gs: "greedy_select (g_lm g)"
  shows "binv_at g P E r base b \<Longrightarrow> reschedule_loop f g b out = Some (b', out') \<Longrightarrow>
    \<exists>es. out' = out @ es \<and> emits_ok (g_lm g) P E es \<and> binv g P (emit E es) b'"
proof (induction f arbitrary: b out E r base)
  case 0
  then show ?case by (auto simp: binv_def)
next
  case (Suc f)
  note inv = Suc.prems(1)
  show ?case
  proof (cases "cb_preempted b \<noteq> [] \<and> cb_free b \<noteq> [] \<and>
        can_fit (g_cfg g) (length (ps_tokens (hd (cb_preempted b)))) (blocks (cb_dec b))")
    case False
    then have "b' = b" "out' = out" using Suc.prems(2) by (auto simp: not_le)
    then show ?thesis using inv by (auto simp: binv_def)
  next
    case True
    obtain p rest where pre: "cb_preempted b = p # rest" using True by (cases "cb_preempted b") auto
    have fr: "cb_free b \<noteq> []" and fit: "can_fit (g_cfg g) (length (ps_tokens p)) (blocks (cb_dec b))" using True pre by auto
    obtain d1 t q where ro: "resume_one g p (last (cb_free b)) (cb_dec b) = Some (d1, t)"
      and q: "q = \<lparr>cs_req = ps_req p, cs_slot = last (cb_free b), cs_tokens = ps_tokens p @ [t]\<rparr>"
      and go: "reschedule_loop f g (settle q (b\<lparr>cb_preempted := rest, cb_free := butlast (cb_free b), cb_dec := d1\<rparr>))
         (out @ [emission_of q]) = Some (b', out')"
      using Suc.prems(2) reschedule_loop_settle [OF pre fr fit, of f out]
      by (auto simp: Let_def simp del: reschedule_loop.simps split: option.splits)
    note R = resume_step [OF nc gs inv pre fr fit ro q]
    obtain r2 base2 where "binv_at g P (emit1 E (emission_of q)) r2 base2
        (settle q (b\<lparr>cb_preempted := rest, cb_free := butlast (cb_free b), cb_dec := d1\<rparr>))"
      using R by (auto simp: binv_def)
    from Suc.IH [OF this go] obtain es where "out' = out @ [emission_of q] @ es"
      "emits_ok (g_lm g) P (emit1 E (emission_of q)) es" "binv g P (emit (emit1 E (emission_of q)) es) b'" by auto
    then show ?thesis using R by (intro exI [of _ "emission_of q # es"]) simp
  qed
qed

lemma reschedule_inv:
  assumes "no_collision (g_hash g)" "greedy_select (g_lm g)" "binv g P E b" "reschedule g b = Some (b', es)"
  shows "emits_ok (g_lm g) P E es \<and> binv g P (emit E es) b'"
proof -
  obtain r base where "binv_at g P E r base b" using assms(3) by (auto simp: binv_def)
  from reschedule_loop_inv [OF assms(1,2) this assms(4) [unfolded reschedule_def]] show ?thesis by auto
qed

text \<open>What every kind of step promises of its batcher and its emissions.\<close>

definition step_ok :: "'kv gpu \<Rightarrow> requests \<Rightarrow> streams \<Rightarrow> ('kv batcher \<times> emission list) option \<Rightarrow> bool" where
  "step_ok g P E res = (case res of None \<Rightarrow> True
     | Some (b, es) \<Rightarrow> emits_ok (g_lm g) P E es \<and> binv g P (emit E es) b)"

lemma after_decode_inv:
  assumes nc: "no_collision (g_hash g)" and gs: "greedy_select (g_lm g)" and r: "step_ok g P E res"
  shows "step_ok g P E (after_decode g res)"
proof (cases "after_decode g res")
  case (Some be)
  obtain b1 es1 b2 es2 b3 es3 where run: "res = Some (b1, es1)" "advance_prefill g b1 = Some (b2, es2)"
      "reschedule g b2 = Some (b3, es3)" "be = (b3, es1 @ es2 @ es3)"
    using Some by (auto simp: after_decode_def split: option.splits)
  have 1: "emits_ok (g_lm g) P E es1" "binv g P (emit E es1) b1" using r run by (auto simp: step_ok_def)
  obtain r1 base1 where "binv_at g P (emit E es1) r1 base1 b1" using 1 by (auto simp: binv_def)
  from advance_prefill_inv [OF this run(2)]
  have 2: "emits_ok (g_lm g) P (emit E es1) es2" "binv g P (emit (emit E es1) es2) b2" by auto
  from reschedule_inv [OF nc gs 2(2) run(3)] show ?thesis using 1 2 run(4) Some by (simp add: step_ok_def)
qed (simp add: step_ok_def)

lemma step_inv:
  assumes "no_collision (g_hash g)" "greedy_select (g_lm g)" "binv g P E b"
  shows "step_ok g P E (step g b)"
proof -
  obtain r base where inv: "binv_at g P E r base b" using assms(3) by (auto simp: binv_def)
  have "step_ok g P E (decode_active g b)"
    using decode_active_inv [OF inv assms(2)] by (auto simp: step_ok_def binv_def split: option.split)
  then show ?thesis unfolding step_def by (rule after_decode_inv [OF assms(1,2)])
qed


lemma admit_params_inv:
  assumes nc: "no_collision (g_hash g)" and inv: "binv g P E b"
    and new: "i \<notin> set (live_ids b)" "E i = []" "P i = (rq, prompt)" "rq_id rq = i" "rq_prompt_len rq = length prompt"
    and run: "admit_params g rq prompt b = Some (b', res)"
  shows "(case res of None \<Rightarrow> b' = b | Some (t, fin) \<Rightarrow> emit_ok (g_lm g) P E (i, t, fin) \<and> binv g P (emit1 E (i, t, fin)) b')"
proof (cases "can_fit (g_cfg g) (length prompt) (blocks (cb_dec b)) \<and> cb_free b \<noteq> []")
  case False
  then show ?thesis using run by (auto simp: admit_params_def split: if_splits)
next
  case True
  obtain r base where invb: "binv_at g P E r base b" using inv by (auto simp: binv_def)
  let ?s = "last (cb_free b)" and ?b1 = "b\<lparr>cb_free := butlast (cb_free b)\<rparr>" and ?lm = "g_lm g"
  let ?samp = "prefill_samp (rq_params rq) (step_seed (rq_seed rq) 0)"
  have H: "hole_inv g P E r base ?s i ?b1" and em: "slot_blocks (blocks (cb_dec b)) ! ?s = []"
    using hole_pop_free [OF invb _ new(1)] True by auto
  obtain d1 t cl where pf: "prefill_slot_cached (g_hash g) (g_cfg g) ?lm prompt ?s ?samp (cb_dec b) = Some (d1, t, cl)"
    using run True by (auto simp: admit_params_def Let_def split: option.splits)
  let ?q = "\<lparr>cs_req = rq, cs_slot = ?s, cs_tokens = prompt @ [t]\<rparr>"
  have res: "b' = settle ?q (?b1\<lparr>cb_dec := d1\<rparr>)" "res = Some (t, seq_done ?q)"
    using run True pf new by (auto simp: admit_params_def Let_def settle_def seq_done_def cs_next_def gen_index_def)
  note C = prefill_slot_cached_correct [OF binv_atD(1) [OF invb] nc hole_invD(10) [OF H] em pf]
  have "prompt \<noteq> []" using C(3) by auto
  then have sb: "seq_base_ok P E rq prompt" using new by (simp add: seq_base_ok_def unfinished_def)
  have "greedy_request rq \<Longrightarrow> t = next_greedy ?lm prompt" using C(2) by (simp add: prefill_samp_greedy next_greedy_def)
  moreover have "t \<in> picks ?lm" using C(2) by simp
  ultimately have eok: "emit_ok ?lm P E (emission_of ?q)" by (intro emission_one_ok [OF sb])
  have half: "act_half P (emit1 E (emission_of ?q)) (r(?s := prompt)) (base(?s := length prompt)) ?q"
    by (rule act_half_one [OF sb]) (auto simp: emit1_def emission_of_def cs_next_def)
  have only: "only_slots {?s} (cb_dec ?b1) d1" using prefill_slot_cached_other [OF pf] by simp
  have "binv g P (emit1 E (emission_of ?q)) (settle ?q (?b1\<lparr>cb_dec := d1\<rparr>))"
    by (rule hole_token [OF H C(1) only _ _ _ eok half]) (auto simp: new)
  then show ?thesis using res eok new(4) by (simp add: emission_of_def cs_next_def)
qed

lemma enqueue_params_inv:
  assumes nc: "no_collision (g_hash g)" and inv: "binv g P E b"
    and new: "i \<notin> set (live_ids b)" "E i = []" "P i = (rq, prompt)" "rq_id rq = i" "rq_prompt_len rq = length prompt"
    and run: "enqueue_params g rq prompt b = (b', ok)"
  shows "binv g P E b' \<and> (\<not> ok \<longrightarrow> b' = b) \<and> (ok \<longrightarrow> i \<in> set (live_ids b'))"
proof (cases "prompt \<noteq> [] \<and> length prompt \<le> max_seq (g_cfg g) \<and> cb_free b \<noteq> [] \<and>
    can_fit (g_cfg g) (length prompt) (blocks (cb_dec b))")
  case False
  then have "(b', ok) = (b, False)" using run by (auto simp: enqueue_params_def not_le split: if_splits)
  then show ?thesis using inv by simp
next
  case True
  obtain r base where invb: "binv_at g P E r base b" using inv by (auto simp: binv_def)
  let ?s = "last (cb_free b)" and ?b1 = "b\<lparr>cb_free := butlast (cb_free b)\<rparr>"
  have H: "hole_inv g P E r base ?s i ?b1" and em: "slot_blocks (blocks (cb_dec b)) ! ?s = []"
    using hole_pop_free [OF invb _ new(1)] True by auto
  obtain cl n bs1 where re: "prefill_prefix_reuse (g_hash g) (g_cfg g) prompt ?s (blocks (cb_dec b)) = ((cl, n), bs1)"
    by (metis prod.collapse)
  let ?pf = "\<lparr>pf_req = rq, pf_slot = ?s, pf_prompt = prompt, pf_pos = cl, pf_cached = n\<rparr>"
  let ?d1 = "(cb_dec b)\<lparr>blocks := bs1\<rparr>"
  have b': "b' = ?b1\<lparr>cb_dec := ?d1, cb_prefilling := cb_prefilling b @ [?pf]\<rparr>" "ok"
    using run True re by (auto simp: enqueue_params_def Let_def)
  note R = dec_inv_reuse [OF binv_atD(1) [OF invb] nc hole_invD(10) [OF H] em _ _ re]
  let ?r = "r(?s := take cl prompt)" and ?base = "base(?s := cl)"
  have only: "only_slots {?s} (cb_dec ?b1) ?d1"
    using prefill_prefix_reuse_other [OF re] by (simp add: only_slots_def)
  have h2: "hole_inv g P E ?r ?base ?s i (?b1\<lparr>cb_dec := ?d1\<rparr>)"
    by (rule hole_inv_work [OF H _ only _ _ binv_atD(7) [OF invb]]) (use R True in auto)
  have "pf_ok (g_cfg g) P E ?r ?base ?pf"
    using R True new by (auto simp: pf_ok_def seq_base_ok_def unfinished_def)
  then have "binv_at g P E ?r ?base b'"
    using h2 new(4) by (auto simp: b' hole_inv_def binv_at_def slots_ok_def all_slots_def live_ids_def)
  then show ?thesis using b' new(4) by (auto simp: binv_def live_ids_def)
qed

lemma cancel_inv:
  assumes inv: "binv g P E b" and run: "cancel i b = (b', ok)"
  shows "binv g P E b' \<and> (ok \<longleftrightarrow> i \<in> set (live_ids b)) \<and> set (live_ids b') = set (live_ids b) - {i}"
proof -
  obtain r base where invb: "binv_at g P E r base b" using inv by (auto simp: binv_def)
  note B = binv_atD [OF invb]
  consider (active) xs q ys where "List.extract (\<lambda>q. rq_id (cs_req q) = i) (cb_active b) = Some (xs, q, ys)"
    | (prefill) xs q ys where "List.extract (\<lambda>q. rq_id (cs_req q) = i) (cb_active b) = None"
        "List.extract (\<lambda>q. rq_id (pf_req q) = i) (cb_prefilling b) = Some (xs, q, ys)"
    | (preempted) xs q ys where "List.extract (\<lambda>q. rq_id (cs_req q) = i) (cb_active b) = None"
        "List.extract (\<lambda>q. rq_id (pf_req q) = i) (cb_prefilling b) = None"
        "List.extract (\<lambda>q. rq_id (ps_req q) = i) (cb_preempted b) = Some (xs, q, ys)"
    | (none) "List.extract (\<lambda>q. rq_id (cs_req q) = i) (cb_active b) = None"
        "List.extract (\<lambda>q. rq_id (pf_req q) = i) (cb_prefilling b) = None"
        "List.extract (\<lambda>q. rq_id (ps_req q) = i) (cb_preempted b) = None"
    by (metis option.exhaust prod.collapse)
  then show ?thesis
  proof cases
    case active
    then have sp: "cb_active b = xs @ q # ys" "rq_id (cs_req q) = i" by (auto simp: extract_Some_iff)
    have h: "hole_inv g P E r base (cs_slot q) i (b\<lparr>cb_active := xs @ ys\<rparr>)"
      unfolding hole_inv_def using B sp by (auto simp: slots_ok_def all_slots_def live_ids_def)
    have "b' = give_back (cs_slot q) (b\<lparr>cb_active := xs @ ys\<rparr>)" "ok" using run active by (auto simp: cancel_def)
    then show ?thesis
      using hole_release [OF h] B(3) sp by (auto simp: binv_def live_ids_def give_back_def)
  next
    case prefill
    then have sp: "cb_prefilling b = xs @ q # ys" "rq_id (pf_req q) = i" by (auto simp: extract_Some_iff)
    have h: "hole_inv g P E r base (pf_slot q) i (b\<lparr>cb_prefilling := xs @ ys\<rparr>)"
      unfolding hole_inv_def using B sp by (auto simp: slots_ok_def all_slots_def live_ids_def)
    have "b' = give_back (pf_slot q) (b\<lparr>cb_prefilling := xs @ ys\<rparr>)" "ok" using run prefill by (auto simp: cancel_def)
    then show ?thesis
      using hole_release [OF h] B(3) sp by (auto simp: binv_def live_ids_def give_back_def)
  next
    case preempted
    then have sp: "cb_preempted b = xs @ q # ys" "rq_id (ps_req q) = i" by (auto simp: extract_Some_iff)
    have b': "b' = b\<lparr>cb_preempted := xs @ ys\<rparr>" "ok" using run preempted by (auto simp: cancel_def)
    have "binv_at g P E r base b'"
      unfolding binv_at_def b' using B sp by (auto simp: slots_ok_def all_slots_def live_ids_def)
    then show ?thesis using B(3) sp b' by (auto simp: binv_def live_ids_def)
  next
    case none
    then have "b' = b" "\<not> ok" using run by (auto simp: cancel_def)
    moreover have "i \<notin> set (live_ids b)" using none by (auto simp: extract_None_iff live_ids_def)
    ultimately show ?thesis using inv by auto
  qed
qed

section \<open>The speculative step keeps the contract\<close>

lemma abs_rows_append: "abs_rows r (xs @ ys) =
    (fst (abs_rows (fst (abs_rows r xs)) ys), snd (abs_rows r xs) @ snd (abs_rows (fst (abs_rows r xs)) ys))"
  by (induction xs arbitrary: r rule: list.induct) (auto simp: Let_def split_beta)

lemma length_abs_rows: "length (snd (abs_rows r rows)) = length rows"
  by (induction rows arbitrary: r rule: list.induct) (auto simp: Let_def split_beta)

lemma rows_ok_append: "rows_ok c base r (xs @ ys) = (rows_ok c base r xs \<and> rows_ok c base (fst (abs_rows r xs)) ys)"
  by (induction xs arbitrary: r rule: list.induct) (auto simp: Let_def split_beta)

lemma pld_rows_one:
  assumes a: "act_ok P E r base q" and s: "cs_slot q < m_max c"
  shows "abs_rows r (pld_rows q dr) = (r(cs_slot q := cs_tokens q @ dr), map (\<lambda>j. cs_tokens q @ take j dr) [0 ..< Suc (length dr)])"
    "rows_ok c base r (pld_rows q dr)"
proof -
  let ?ctx = "butlast (cs_tokens q)" and ?inp = "cs_next q # dr" and ?s = "cs_slot q"
  have ne: "cs_tokens q \<noteq> []" using a by (auto simp: act_ok_def seq_base_ok_def)
  have tk: "?ctx @ ?inp = cs_tokens q @ dr" using ne by (simp add: cs_next_def)
  have cut: "take (length ?ctx) (r ?s) = ?ctx" using a by (simp add: act_ok_def)
  have len: "length ?ctx \<le> length (r ?s)" using arg_cong [OF cut, of length] by simp
  let ?rows = "chunk_rows (?ctx @ ?inp) ?s (length ?ctx) (length ?ctx + length ?inp)"
  let ?r0 = "r(?s := take (length ?ctx) (?ctx @ ?inp))"
  have rows: "pld_rows q dr = ?rows"
    unfolding pld_rows_def Let_def cs_pos_def using draft_rows_chunk [of ?inp ?ctx ?s] by simp
  have lt: "length ?ctx < length ?ctx + length ?inp" by simp
  have cut': "take (length ?ctx) (r ?s) = take (length ?ctx) (?ctx @ ?inp)" using cut by simp
  have "abs_rows r ?rows = (?r0(?s := take (length ?ctx + length ?inp) (?ctx @ ?inp)),
      map (\<lambda>p. take (Suc p) (?ctx @ ?inp)) [length ?ctx ..< length ?ctx + length ?inp])"
    unfolding abs_rows_cut [where r = r and s = ?s and a = "length ?ctx" and prompt = "?ctx @ ?inp", OF cut' lt]
    by (rule abs_rows_chunk) auto
  moreover have "map (\<lambda>p. take (Suc p) (?ctx @ ?inp)) [length ?ctx ..< length ?ctx + length ?inp] =
      map (\<lambda>j. cs_tokens q @ take j dr) [0 ..< Suc (length dr)]"
  proof (rule nth_equalityI)
    fix j assume "j < length (map (\<lambda>p. take (Suc p) (?ctx @ ?inp)) [length ?ctx ..< length ?ctx + length ?inp])"
    then have "j < Suc (length dr)" by simp
    moreover have "take (Suc (length ?ctx + j)) (cs_tokens q @ dr) = cs_tokens q @ take j dr"
      using ne by (cases "cs_tokens q" rule: rev_cases) auto
    ultimately show "map (\<lambda>p. take (Suc p) (?ctx @ ?inp)) [length ?ctx ..< length ?ctx + length ?inp] ! j =
      map (\<lambda>j. cs_tokens q @ take j dr) [0 ..< Suc (length dr)] ! j"
      unfolding tk by (simp del: upt_Suc)
  qed simp
  ultimately show "abs_rows r (pld_rows q dr) = (r(?s := cs_tokens q @ dr), map (\<lambda>j. cs_tokens q @ take j dr) [0 ..< Suc (length dr)])"
    unfolding rows tk by simp
  have "rows_ok c base ?r0 ?rows"
    by (rule rows_ok_chunk) (use s a in \<open>auto simp: act_ok_def\<close>)
  moreover have "rows_ok c base r ?rows = rows_ok c base ?r0 ?rows"
    by (rule rows_ok_cut [where r = r and s = ?s and a = "length ?ctx" and prompt = "?ctx @ ?inp", OF cut' lt len]) simp
  ultimately show "rows_ok c base r (pld_rows q dr)" unfolding rows by simp
qed


lemma abs_rows_pld:
  assumes "distinct (map cs_slot qs)" "\<forall>q\<in>set qs. act_ok P E r base q" "\<forall>q\<in>set qs. cs_slot q < m_max c"
    "length drs = length qs"
  shows "rows_ok c base r (concat (map2 pld_rows qs drs)) \<and>
    snd (abs_rows r (concat (map2 pld_rows qs drs))) =
      concat (map2 (\<lambda>q dr. map (\<lambda>j. cs_tokens q @ take j dr) [0 ..< Suc (length dr)]) qs drs) \<and>
    (\<forall>(q, dr)\<in>set (zip qs drs). fst (abs_rows r (concat (map2 pld_rows qs drs))) (cs_slot q) = cs_tokens q @ dr) \<and>
    (\<forall>s. s \<notin> cs_slot ` set qs \<longrightarrow> fst (abs_rows r (concat (map2 pld_rows qs drs))) s = r s)"
  using assms
proof (induction qs arbitrary: r drs)
  case (Cons q qs)
  obtain dr drs' where drs: "drs = dr # drs'" using Cons.prems(4) by (cases drs) auto
  have a: "act_ok P E r base q" "cs_slot q < m_max c" using Cons.prems(2,3) by auto
  note O = pld_rows_one [OF a, of dr]
  let ?r = "r(cs_slot q := cs_tokens q @ dr)" and ?rest = "concat (map2 pld_rows qs drs')"
  have ai: "act_ok P E ?r base q'" if q': "q' \<in> set qs" for q'
  proof -
    have "cs_slot q' \<noteq> cs_slot q" using Cons.prems(1) imageI [OF q', of cs_slot] by auto
    then show ?thesis using Cons.prems(2) q' by (simp add: act_ok_def)
  qed
  have IH: "rows_ok c base ?r ?rest \<and>
    snd (abs_rows ?r ?rest) = concat (map2 (\<lambda>q dr. map (\<lambda>j. cs_tokens q @ take j dr) [0 ..< Suc (length dr)]) qs drs') \<and>
    (\<forall>(q, dr)\<in>set (zip qs drs'). fst (abs_rows ?r ?rest) (cs_slot q) = cs_tokens q @ dr) \<and>
    (\<forall>s. s \<notin> cs_slot ` set qs \<longrightarrow> fst (abs_rows ?r ?rest) s = ?r s)"
    by (rule Cons.IH) (use ai Cons.prems drs in \<open>auto simp del: fun_upd_apply\<close>)
  have new: "cs_slot q \<notin> cs_slot ` set qs" using Cons.prems(1) by simp
  have "concat (map2 pld_rows (q # qs) drs) = pld_rows q dr @ ?rest" by (simp add: drs)
  then show ?case
    using IH O new by (simp add: drs rows_ok_append abs_rows_append del: upt_Suc)
qed simp

text \<open>The tokens of one sequence: the accepted drafts and one more, until a stop.\<close>

lemma act_half_tokens:
  assumes a: "act_ok P E r' base q" and tk: "take (length (cs_tokens q)) (r' (cs_slot q)) = cs_tokens q"
  shows "act_half P (emit1 E (emission_of (push_token q t))) r' base (push_token q t)"
  using assms
  by (auto simp: act_half_def act_ok_def seq_base_ok_def push_token_def unfinished_def emit1_def emission_of_def cs_next_def
      Let_def butlast_append)

lemma pld_commit_ok:
  assumes "act_ok P E r' base q" "r' (cs_slot q) = cs_tokens q @ dr" "length so = Suc (length dr)"
    "\<And>j. j \<le> length dr \<Longrightarrow> so ! j = next_greedy lm (cs_tokens q @ take j dr)"
    "pld_commit q (take (Suc (count_accepted so dr)) so) = (q1, es)"
  shows "emits_ok lm P E es \<and> fst ` set es \<subseteq> {rq_id (cs_req q)} \<and> act_half P (emit E es) r' base q1 \<and>
    cs_slot q1 = cs_slot q \<and> cs_req q1 = cs_req q"
  using assms
proof (induction dr arbitrary: so q E q1 es)
  case Nil
  then obtain x where so: "so = [x]" by (cases so) auto
  have x: "x = next_greedy lm (cs_tokens q)" using Nil.prems(4) [of 0] so by simp
  have es: "q1 = push_token q x" "es = [emission_of (push_token q x)]"
    using Nil.prems(5) so by (auto simp: Let_def split: if_splits)
  have "emit_ok lm P E (emission_of (push_token q x))" by (rule emission_push_ok [OF Nil.prems(1)]) (use x in simp_all)
  moreover have "act_half P (emit1 E (emission_of (push_token q x))) r' base (push_token q x)"
    by (rule act_half_tokens [OF Nil.prems(1)]) (use Nil.prems(2) in simp)
  ultimately show ?case using es by (simp add: emission_of_def push_token_def)
next
  case (Cons y dr)
  obtain x so' where so: "so = x # so'" "length so' = Suc (length dr)" using Cons.prems(3) by (cases so) auto
  let ?q = "push_token q x" and ?e = "emission_of (push_token q x)"
  have x: "x = next_greedy lm (cs_tokens q)" using Cons.prems(4) [of 0] so by simp
  have e: "emit_ok lm P E ?e" by (rule emission_push_ok [OF Cons.prems(1)]) (use x in simp_all)
  have h: "act_half P (emit1 E ?e) r' base ?q"
    by (rule act_half_tokens [OF Cons.prems(1)]) (use Cons.prems(2) in simp)
  have fe: "fst ?e = rq_id (cs_req q)" "cs_slot ?q = cs_slot q" "cs_req ?q = cs_req q" "cs_tokens ?q = cs_tokens q @ [x]"
    by (simp_all add: emission_of_def push_token_def)
  show ?case
  proof (cases "seq_done ?q \<or> x \<noteq> y")
    case True
    then have "q1 = ?q" "es = [?e]" using Cons.prems(5) so by (auto simp: Let_def split: if_splits)
    then show ?thesis using e h fe by simp
  next
    case False
    obtain es' where pc: "pld_commit ?q (take (Suc (count_accepted so' dr)) so') = (q1, es')" and es: "es = ?e # es'"
      using Cons.prems(5) so False by (auto simp: Let_def split: prod.splits)
    have "act_ok P (emit1 E ?e) r' base ?q" by (rule act_half_ok [OF h]) (use False in auto)
    moreover have "r' (cs_slot ?q) = cs_tokens ?q @ dr" using Cons.prems(2) fe False by simp
    moreover have "so' ! j = next_greedy lm (cs_tokens ?q @ take j dr)" if "j \<le> length dr" for j
      using Cons.prems(4) [of "Suc j"] that so fe False by simp
    ultimately have "emits_ok lm P (emit1 E ?e) es' \<and> fst ` set es' \<subseteq> {rq_id (cs_req ?q)} \<and>
        act_half P (emit (emit1 E ?e) es') r' base q1 \<and> cs_slot q1 = cs_slot ?q \<and> cs_req q1 = cs_req ?q"
      by (rule Cons.IH [OF _ _ so(2) _ pc])
    then show ?thesis using e fe es by simp
  qed
qed

lemma act_half_stream: "E (rq_id (cs_req q)) = E' (rq_id (cs_req q)) \<Longrightarrow> act_half P E r base q = act_half P E' r base q"
  by (simp add: act_half_def)

lemma act_ok_stream: "E (rq_id (cs_req q)) = E' (rq_id (cs_req q)) \<Longrightarrow> act_ok P E r base q = act_ok P E' r base q"
  by (simp add: act_ok_def seq_base_ok_def)

lemma pld_apply_ok:
  assumes "distinct (map (\<lambda>q. rq_id (cs_req q)) qs)" "\<forall>(q, dr)\<in>set (zip qs drs). act_ok P E r' base q \<and> r' (cs_slot q) = cs_tokens q @ dr"
    "length drs = length qs"
    "outs = concat (map2 (\<lambda>q dr. map (\<lambda>j. next_greedy lm (cs_tokens q @ take j dr)) [0 ..< Suc (length dr)]) qs drs)"
    "pld_apply qs drs outs = (qs1, es)"
  shows "emits_ok lm P E es \<and> fst ` set es \<subseteq> (\<lambda>q. rq_id (cs_req q)) ` set qs \<and> (\<forall>q\<in>set qs1. act_half P (emit E es) r' base q) \<and>
    map cs_slot qs1 = map cs_slot qs \<and> map (\<lambda>q. rq_id (cs_req q)) qs1 = map (\<lambda>q. rq_id (cs_req q)) qs"
  using assms
proof (induction qs arbitrary: drs outs E qs1 es)
  case (Cons q qs)
  let ?id = "\<lambda>q. rq_id (cs_req q)"
  obtain dr drs' where drs: "drs = dr # drs'" using Cons.prems(3) by (cases drs) auto
  define so where "so = map (\<lambda>j. next_greedy lm (cs_tokens q @ take j dr)) [0 ..< Suc (length dr)]"
  define outs' where "outs' = concat (map2 (\<lambda>q dr. map (\<lambda>j. next_greedy lm (cs_tokens q @ take j dr)) [0 ..< Suc (length dr)]) qs drs')"
  have outs: "outs = so @ outs'" using Cons.prems(4) by (simp add: drs so_def outs'_def del: upt_Suc)
  have lso: "length so = Suc (length dr)" by (simp add: so_def)
  obtain q1 es1 where pc: "pld_commit q (take (Suc (count_accepted so dr)) so) = (q1, es1)" by fastforce
  obtain qs2 es2 where pa: "pld_apply qs drs' outs' = (qs2, es2)" by fastforce
  have res: "qs1 = q1 # qs2" "es = es1 @ es2"
    using Cons.prems(5) pc pa lso by (simp_all add: drs outs Let_def)
  have "act_ok P E r' base q" "r' (cs_slot q) = cs_tokens q @ dr" using Cons.prems(2) drs by auto
  moreover have "so ! j = next_greedy lm (cs_tokens q @ take j dr)" if "j \<le> length dr" for j
    using that by (simp add: so_def del: upt_Suc)
  ultimately have one: "emits_ok lm P E es1 \<and> fst ` set es1 \<subseteq> {?id q} \<and> act_half P (emit E es1) r' base q1 \<and>
      cs_slot q1 = cs_slot q \<and> cs_req q1 = cs_req q"
    by (rule pld_commit_ok [OF _ _ lso _ pc])
  have keep: "emit E es1 (?id q') = E (?id q')" if q': "q' \<in> set qs" for q'
  proof (rule emit_fresh)
    have "?id q' \<noteq> ?id q" using Cons.prems(1) imageI [OF q', of ?id] by auto
    then show "?id q' \<notin> fst ` set es1" using one by auto
  qed
  have "\<forall>(q', dr)\<in>set (zip qs drs'). act_ok P (emit E es1) r' base q' \<and> r' (cs_slot q') = cs_tokens q' @ dr"
  proof (clarify)
    fix q' dr' assume z: "(q', dr') \<in> set (zip qs drs')"
    have "act_ok P E r' base q' \<and> r' (cs_slot q') = cs_tokens q' @ dr'" using Cons.prems(2) z drs by auto
    then show "act_ok P (emit E es1) r' base q' \<and> r' (cs_slot q') = cs_tokens q' @ dr'"
      using keep [OF set_zip_leftD [OF z]] act_ok_stream by metis
  qed
  then have rest: "emits_ok lm P (emit E es1) es2 \<and> fst ` set es2 \<subseteq> ?id ` set qs \<and>
      (\<forall>q\<in>set qs2. act_half P (emit (emit E es1) es2) r' base q) \<and> map cs_slot qs2 = map cs_slot qs \<and> map ?id qs2 = map ?id qs"
    by (intro Cons.IH [OF _ _ _ _ pa]) (use Cons.prems(1,3) drs in \<open>auto simp: outs'_def simp del: upt_Suc\<close>)
  have "?id q \<notin> fst ` set es2" using Cons.prems(1) rest by auto
  then have "emit (emit E es1) es2 (?id q1) = emit E es1 (?id q1)" using one by (simp add: emit_fresh)
  then have "act_half P (emit (emit E es1) es2) r' base q1" using one act_half_stream by metis
  then show ?case using one rest res by auto
qed simp

lemma decode_active_pld_inv:
  assumes inv: "binv_at g P E r base b" and run: "decode_active_pld g ll dk b = Some (b', es)"
  shows "emits_ok (g_lm g) P E es \<and> binv g P (emit E es) b'"
proof (cases "cb_active b = []")
  case True
  then show ?thesis using run inv by (auto simp: decode_active_pld_def binv_def)
next
  case False
  obtain b1 r1 base1 where mr: "make_room g b = Some b1" and inv1: "binv_at g P E r1 base1 b1"
    using make_room_inv [OF inv] by blast
  note B = binv_atD [OF inv1]
  let ?qs = "cb_active b1" and ?lm = "g_lm g"
  define drs where "drs = map (pld_draft ll dk) ?qs"
  let ?rows = "concat (map2 pld_rows ?qs drs)"
  obtain d1 outs qs1 where st: "step_slotted (g_cfg g) ?lm ?rows (cb_dec b1) = Some (d1, outs)"
    and pa: "pld_apply ?qs drs outs = (qs1, es)" and b': "b' = retain_active (b1\<lparr>cb_dec := d1, cb_active := qs1\<rparr>)"
    using run False mr by (auto simp: decode_active_pld_def Let_def drs_def split: option.splits prod.splits)
  obtain kss where fw: "forward_rows (g_cfg g) ?lm ?rows (cb_dec b1) = Some (d1, kss)"
    and o: "outs = map2 (lm_pick ?lm) kss (replicate (length ?rows) SelGreedy)"
    using st by (auto simp: step_slotted_def step_rows_def split: if_splits option.splits)
  have dq: "distinct (map cs_slot ?qs)" "distinct (map (\<lambda>q. rq_id (cs_req q)) ?qs)"
    using B(2,3) by (auto simp: slots_ok_def all_slots_def live_ids_def)
  have sm: "\<forall>q\<in>set ?qs. cs_slot q < m_max (g_cfg g)"
    using slots_ok_range [OF B(2)] by (auto simp: all_slots_def)
  have aq: "\<forall>q\<in>set ?qs. act_ok P E r1 base1 q" using B(4) by blast
  have ld: "length drs = length ?qs" by (simp add: drs_def)
  note A = abs_rows_pld [OF dq(1) aq sm ld]
  note F = forward_rows_refine [OF B(1) conjunct1 [OF A] fw]
  let ?r = "fst (abs_rows r1 ?rows)"
  have lens: "length kss = length ?rows" using F(2) by (simp add: length_abs_rows)
  have "outs = map (\<lambda>ks. lm_pick ?lm ks SelGreedy) kss"
    unfolding o lens [symmetric] by (rule nth_equalityI) auto
  also have "\<dots> = concat (map2 (\<lambda>q dr. map (\<lambda>j. next_greedy ?lm (cs_tokens q @ take j dr)) [0 ..< Suc (length dr)]) ?qs drs)"
    unfolding F(2) conjunct1 [OF conjunct2 [OF A]]
    by (simp add: map_concat comp_def next_greedy_def split_def del: upt_Suc)
  finally have outs: "outs = concat (map2 (\<lambda>q dr. map (\<lambda>j. next_greedy ?lm (cs_tokens q @ take j dr)) [0 ..< Suc (length dr)]) ?qs drs)" .
  have base_ok: "\<forall>(q, dr)\<in>set (zip ?qs drs). act_ok P E ?r base1 q \<and> ?r (cs_slot q) = cs_tokens q @ dr"
  proof (clarify)
    fix q dr assume z: "(q, dr) \<in> set (zip ?qs drs)"
    have r: "?r (cs_slot q) = cs_tokens q @ dr" using A z by blast
    have "act_ok P E r1 base1 q" using B(4) set_zip_leftD [OF z] by blast
    then have "act_ok P E ?r base1 q" using r by (simp add: act_ok_def butlast_conv_take)
    then show "act_ok P E ?r base1 q \<and> ?r (cs_slot q) = cs_tokens q @ dr" using r by blast
  qed
  note R = pld_apply_ok [OF dq(2) base_ok ld outs pa]
  have "\<forall>(t, p, s)\<in>set ?rows. s \<in> cs_slot ` set ?qs"
    by (auto simp: pld_rows_def Let_def dest!: set_zip_leftD)
  then have only: "only_slots (cs_slot ` set ?qs) (cb_dec b1) d1" by (rule forward_rows_other [OF fw])
  have "mid_inv g P (emit E es) ?r base1 qs1 (b1\<lparr>cb_dec := d1, cb_active := []\<rparr>)"
    by (rule mid_inv_decoded [OF inv1 F(1) only]) (use R A in auto)
  from mid_inv_fold [OF this] show ?thesis using R b' by (simp add: retain_settle binv_def)
qed

lemma step_pld_inv:
  assumes "no_collision (g_hash g)" "greedy_select (g_lm g)" "binv g P E b"
  shows "step_ok g P E (step_pld g ll dk b)"
proof -
  obtain r base where inv: "binv_at g P E r base b" using assms(3) by (auto simp: binv_def)
  have "step_ok g P E (decode_active_pld g ll dk b)"
    using decode_active_pld_inv [OF inv] by (auto simp: step_ok_def split: option.split)
  then show ?thesis unfolding step_pld_def by (rule after_decode_inv [OF assms(1,2)])
qed

end
