(* ===== verification/Serving.thy ===== *)
theory Serving
  imports Batcher
begin

text \<open>
  The batcher as a step relation, what is true of every reachable state, when a step cannot panic, and the serving
  thread of \<^verbatim>\<open>GpuBatchServer\<close> that drives it.
\<close>

section \<open>Steps and reachable states\<close>

text \<open>
  A state is the streams emitted so far and the batcher.  \<open>P\<close> says what each id is submitted with;
  ids are not used twice.
\<close>

type_synonym 'kv cb_state = "streams \<times> 'kv batcher"

definition fresh_request :: "requests \<Rightarrow> nat \<Rightarrow> request \<Rightarrow> token list \<Rightarrow> 'kv cb_state \<Rightarrow> bool" where
  "fresh_request P i rq prompt st =
    (i \<notin> set (live_ids (snd st)) \<and> fst st i = [] \<and> P i = (rq, prompt) \<and> rq_id rq = i \<and> rq_prompt_len rq = length prompt)"

inductive cb_step :: "'kv gpu \<Rightarrow> requests \<Rightarrow> 'kv cb_state \<Rightarrow> 'kv cb_state \<Rightarrow> bool" for g P where
  cb_enqueue: "fresh_request P i rq prompt (E, b) \<Longrightarrow> enqueue_params g rq prompt b = (b', ok) \<Longrightarrow> cb_step g P (E, b) (E, b')"
| cb_reject: "fresh_request P i rq prompt (E, b) \<Longrightarrow> admit_params g rq prompt b = Some (b', None) \<Longrightarrow> cb_step g P (E, b) (E, b')"
| cb_admit: "fresh_request P i rq prompt (E, b) \<Longrightarrow> admit_params g rq prompt b = Some (b', Some (t, fin)) \<Longrightarrow>
    cb_step g P (E, b) (emit1 E (i, t, fin), b')"
| cb_decode: "step g b = Some (b', es) \<Longrightarrow> cb_step g P (E, b) (emit E es, b')"
| cb_speculate: "step_pld g ll dk b = Some (b', es) \<Longrightarrow> cb_step g P (E, b) (emit E es, b')"
| cb_cancel: "cancel i b = (b', ok) \<Longrightarrow> cb_step g P (E, b) (E, b')"

inductive_cases cb_stepE: "cb_step g P st st'"

inductive cb_reach :: "'kv gpu \<Rightarrow> requests \<Rightarrow> 'kv batcher \<Rightarrow> 'kv cb_state \<Rightarrow> bool" for g P b0 where
  reach_start: "cb_reach g P b0 (\<lambda>i. [], b0)"
| reach_step: "cb_reach g P b0 st \<Longrightarrow> cb_step g P st st' \<Longrightarrow> cb_reach g P b0 st'"

definition st_inv :: "'kv gpu \<Rightarrow> requests \<Rightarrow> 'kv cb_state \<Rightarrow> bool" where
  "st_inv g P st = binv g P (fst st) (snd st)"

lemma fresh_batcher_inv:
  assumes "with_pool ff swap mem0 m ms nb = Some (c, b0)" "g_cfg g = c"
  shows "binv g P (\<lambda>i. []) b0"
proof -
  obtain bs where np: "new_paged ff m ms default_block_size nb = Some (c, bs)"
    and b0: "b0 = fresh_batcher \<lparr>blocks = bs, mem = mem0\<rparr> m swap"
    using assms(1) by (auto simp: with_pool_def split: option.splits)
  have c: "cfg_ok c" "bs = fresh_blocks c ff" "m_max c = m"
    using new_paged_ok [OF np] np by (auto simp: default_block_size_def new_paged_def Let_def split: if_splits)
  have "dec_inv (g_hash g) c (g_lm g) \<lparr>blocks = bs, mem = mem0\<rparr> (\<lambda>_. []) (\<lambda>_. 0)"
    unfolding c(2) by (rule dec_inv_fresh [OF c(1)])
  then have "binv_at g P (\<lambda>i. []) (\<lambda>_. []) (\<lambda>_. 0) b0"
    using c by (auto simp: binv_at_def b0 fresh_batcher_def assms(2) slots_ok_def all_slots_def live_ids_def streams_ok_def
        fresh_blocks_def)
  then show ?thesis by (auto simp: binv_def)
qed

lemma cb_step_inv:
  assumes nc: "no_collision (g_hash g)" and gs: "greedy_select (g_lm g)"
    and st: "cb_step g P st st'" and inv: "st_inv g P st"
  shows "st_inv g P st'"
  using st inv
proof cases
  case (cb_enqueue i rq prompt E b b' ok)
  then show ?thesis
    using enqueue_params_inv [OF nc, of P E b i rq prompt b' ok] inv by (auto simp: st_inv_def fresh_request_def)
next
  case (cb_reject i rq prompt E b b')
  then show ?thesis
    using admit_params_inv [OF nc, of P E b i rq prompt b' None] inv by (auto simp: st_inv_def fresh_request_def)
next
  case (cb_admit i rq prompt E b b' t fin)
  then show ?thesis
    using admit_params_inv [OF nc, of P E b i rq prompt b' "Some (t, fin)"] inv by (auto simp: st_inv_def fresh_request_def)
next
  case (cb_decode b b' es E)
  then show ?thesis using step_inv [OF nc gs, of P E b] inv by (simp add: st_inv_def step_ok_def)
next
  case (cb_speculate ll dk b b' es E)
  then show ?thesis using step_pld_inv [OF nc gs, of P E b ll dk] inv by (simp add: st_inv_def step_ok_def)
next
  case (cb_cancel i b b' ok E)
  then show ?thesis using cancel_inv [of g P E b i b' ok] inv by (simp add: st_inv_def)
qed

lemma cb_reach_inv:
  assumes "cb_reach g P b0 st" "no_collision (g_hash g)" "greedy_select (g_lm g)" "binv g P (\<lambda>i. []) b0"
  shows "st_inv g P st"
  using assms(1)
proof (induction rule: cb_reach.induct)
  case reach_start
  then show ?case using assms(4) by (simp add: st_inv_def)
next
  case (reach_step st st')
  then show ?case using cb_step_inv [OF assms(2,3)] by blast
qed

section \<open>With the full pool a step does not panic\<close>

text \<open>What the server's callers have to guarantee: every request fits in a slot.\<close>

definition full_pool :: "'kv gpu \<Rightarrow> bool" where
  "full_pool g = (m_max (g_cfg g) * max_blocks_per_seq (g_cfg g) \<le> n_blocks (g_cfg g))"

definition request_fits :: "'kv gpu \<Rightarrow> request \<times> token list \<Rightarrow> bool" where
  "request_fits g rp = (length (snd rp) + rq_max_tokens (fst rp) \<le> max_seq (g_cfg g) \<and> set (snd rp) \<subseteq> {..<lm_vocab (g_lm g)})"

definition picks_in_vocab :: "'kv lm \<Rightarrow> bool" where
  "picks_in_vocab lm = (\<forall>ks sel. lm_pick lm ks sel < lm_vocab lm)"

text \<open>The hypotheses of the totality lemmas, for every id.\<close>

definition no_overload :: "'kv gpu \<Rightarrow> requests \<Rightarrow> bool" where
  "no_overload g P = (full_pool g \<and> picks_in_vocab (g_lm g) \<and> (\<forall>i. request_fits g (P i)))"

lemma tokens_fit:
  assumes "no_overload g P" "streams_ok (g_lm g) P E" "seq_base_ok P E rq ts"
  shows "length ts \<le> max_seq (g_cfg g)" "set ts \<subseteq> {..<lm_vocab (g_lm g)}" "0 < length ts"
proof -
  let ?i = "rq_id rq"
  have q: "rq = fst (P ?i)" using assms(3) by (simp add: seq_base_ok_def)
  have "request_fits g (P ?i)" using assms(1) by (simp add: no_overload_def)
  then have f1: "length (snd (P ?i)) + rq_max_tokens rq \<le> max_seq (g_cfg g)" "set (snd (P ?i)) \<subseteq> {..<lm_vocab (g_lm g)}"
    unfolding request_fits_def q [symmetric] by auto
  have f: "ts = snd (P ?i) @ E ?i" "snd (P ?i) \<noteq> []" "E ?i = [] \<or> length (E ?i) < rq_max_tokens rq"
    using assms(3) by (auto simp: seq_base_ok_def unfinished_def)
  show "length ts \<le> max_seq (g_cfg g)" "0 < length ts" using f f1 by auto
  have "set (E ?i) \<subseteq> picks (g_lm g)" using assms(2) by (simp add: streams_ok_def)
  then have "set (E ?i) \<subseteq> {..<lm_vocab (g_lm g)}"
    using assms(1) by (auto simp: picks_def no_overload_def picks_in_vocab_def)
  then show "set ts \<subseteq> {..<lm_vocab (g_lm g)}" using f f1 by auto
qed

lemma binv_reserved:
  assumes "no_overload g P" "binv_at g P E r base b"
  shows "reserved (g_cfg g) {..<m_max (g_cfg g)} (blocks (cb_dec b))"
  using reserved_full [OF dec_invD(3) [OF binv_atD(1) [OF assms(2)]]] assms(1) by (simp add: no_overload_def full_pool_def)

lemma decode_active_total:
  assumes ov: "no_overload g P" and inv: "binv_at g P E r base b"
  shows "decode_active g b \<noteq> None"
proof (cases "cb_active b = []")
  case True
  then show ?thesis by (simp add: decode_active_def)
next
  case False
  obtain b1 r1 base1 where mr: "make_room g b = Some b1" and inv1: "binv_at g P E r1 base1 b1" and ne: "cb_active b1 \<noteq> []"
    using make_room_inv [OF inv] False by blast
  note B = binv_atD [OF inv1]
  let ?qs = "cb_active b1" and ?c = "g_cfg g"
  let ?rows = "map (\<lambda>q. (cs_next q, cs_pos q, cs_slot q)) ?qs"
  have "\<forall>(t, p, s)\<in>set ?rows. t < lm_vocab (g_lm g) \<and> s \<in> {..<m_max ?c} \<and> s < m_max ?c \<and> p < max_seq ?c"
  proof (clarsimp)
    fix q assume q: "q \<in> set ?qs"
    have "seq_base_ok P E (cs_req q) (cs_tokens q)" using B(4) [OF q] by (simp add: act_ok_def)
    note T = tokens_fit [OF ov B(7) this]
    have "cs_next q \<in> set (cs_tokens q)" using T(3) by (simp add: cs_next_def)
    then have "cs_next q < lm_vocab (g_lm g)" using T(2) by auto
    moreover have "cs_slot q < m_max ?c" using slots_ok_range [OF B(2)] q by (auto simp: all_slots_def)
    ultimately show "cs_next q < lm_vocab (g_lm g) \<and> cs_slot q < m_max ?c \<and> cs_pos q < max_seq ?c"
      using T(1,3) by (cases "cs_tokens q") (auto simp: cs_pos_def)
  qed
  then obtain d1 kss where fw: "forward_rows ?c (g_lm g) ?rows (cb_dec b1) = Some (d1, kss)"
    using forward_rows_total [OF dec_invD(3,1) [OF B(1)] binv_reserved [OF ov inv1]] by blast
  have "length ?qs \<le> m_max ?c"
  proof -
    have "distinct (map cs_slot ?qs)" "set (map cs_slot ?qs) \<subseteq> {..<m_max ?c}"
      using B(2) by (auto simp: slots_ok_def all_slots_def)
    then show ?thesis using card_mono [of "{..<m_max ?c}" "set (map cs_slot ?qs)"] distinct_card [of "map cs_slot ?qs"] by simp
  qed
  then show ?thesis using False mr ne fw by (simp add: decode_active_def step_rows_def Let_def)
qed

lemma fit_chunk_full:
  assumes ov: "no_overload g P" and inv: "binv_at g P E r base b" and s: "s < m_max (g_cfg g)" and n: "n \<le> max_seq (g_cfg g)"
  shows "fit_chunk f g s n b = Some (b, True)"
proof -
  let ?c = "g_cfg g" and ?bs = "blocks (cb_dec b)"
  have "div_ceil n (block_size ?c) \<le> max_blocks_per_seq ?c"
    by (rule cfg_ok_blocks [OF dec_invD(1) [OF binv_atD(1) [OF inv]] n])
  then have "blocks_short ?c s n ?bs \<le> max_blocks_per_seq ?c - length (slot_blocks ?bs ! s)" by (simp add: blocks_short_def)
  also have "\<dots> \<le> (\<Sum>s<m_max ?c. max_blocks_per_seq ?c - length (slot_blocks ?bs ! s))"
    by (rule member_le_sum) (use s in auto)
  also have "\<dots> \<le> free_blocks ?bs" using binv_reserved [OF ov inv] by (simp add: reserved_def)
  finally show ?thesis by (subst fit_chunk.simps) simp
qed

lemma advance_prefill_total:
  assumes ov: "no_overload g P" and inv: "binv_at g P E r base b"
  shows "advance_prefill g b \<noteq> None"
proof (cases "cb_prefilling b")
  case Nil
  then show ?thesis by (simp add: advance_prefill_def)
next
  case (Cons pf rest)
  note B = binv_atD [OF inv]
  let ?c = "g_cfg g" and ?pr = "pf_prompt pf"
  have p: "pf_ok ?c P E r base pf" using B(5) Cons by simp
  then have sb: "seq_base_ok P E (pf_req pf) ?pr" by (simp add: pf_ok_def)
  note T = tokens_fit [OF ov B(7) sb]
  have pl: "rq_prompt_len (pf_req pf) = length ?pr" "pf_pos pf < length ?pr" using p by (auto simp: pf_ok_def seq_base_ok_def)
  have s: "pf_slot pf < m_max ?c" using slots_ok_range [OF B(2)] Cons by (auto simp: all_slots_def)
  let ?n = "min (pf_pos pf + row_cap ?c) (length ?pr)"
  have n: "?n \<le> max_seq ?c" using T(1) by simp
  have "\<forall>(t, p, x)\<in>set (chunk_rows ?pr (pf_slot pf) (pf_pos pf) ?n).
      t < lm_vocab (g_lm g) \<and> x \<in> {..<m_max ?c} \<and> x < m_max ?c \<and> p < max_seq ?c"
  proof (clarsimp simp: chunk_rows_def)
    fix j assume j: "pf_pos pf \<le> j" "j < pf_pos pf + row_cap ?c" "j < length ?pr"
    have "?pr ! j \<in> {..<lm_vocab (g_lm g)}" by (rule subsetD [OF T(2)]) (use j in simp)
    then show "?pr ! j < lm_vocab (g_lm g) \<and> pf_slot pf < m_max ?c \<and> j < max_seq ?c" using T(1) j s by simp
  qed
  then obtain d1 kss where "forward_rows ?c (g_lm g) (chunk_rows ?pr (pf_slot pf) (pf_pos pf) ?n) (cb_dec b) = Some (d1, kss)"
    using forward_rows_total [OF dec_invD(3,1) [OF B(1)] binv_reserved [OF ov inv]] by blast
  then obtain x y z where "prefill_chunk ?c (g_lm g) ?pr (pf_slot pf) (pf_pos pf)
      (prefill_samp (rq_params (pf_req pf)) (step_seed (rq_seed (pf_req pf)) 0)) (cb_dec b) = Some (x, y, z)"
    using pl by (simp add: prefill_chunk_def Let_def)
  then show ?thesis
    using Cons fit_chunk_full [OF ov inv s n] pl by (simp add: advance_prefill_def Let_def)
qed

lemma resume_one_total:
  assumes ov: "no_overload g P" and nc: "no_collision (g_hash g)" and inv: "binv_at g P E r base b" and p: "p \<in> set (cb_preempted b)"
    and s: "s < m_max (g_cfg g)" and em: "slot_blocks (blocks (cb_dec b)) ! s = []"
    and fit: "can_fit (g_cfg g) (length (ps_tokens p)) (blocks (cb_dec b))"
  shows "resume_one g p s (cb_dec b) \<noteq> None"
proof -
  let ?c = "g_cfg g" and ?ts = "ps_tokens p" and ?d = "cb_dec b"
  note B = binv_atD [OF inv]
  have pok: "ps_ok ?c (g_lm g) P E p" by (rule B(6) [OF p])
  then have sb: "seq_base_ok P E (ps_req p) ?ts" by (simp add: ps_ok_def)
  note T = tokens_fit [OF ov B(7) sb]
  show ?thesis
  proof (cases "ps_kv p")
    case None
    have "\<exists>d' g' cl. prefill_slot_cached (g_hash g) ?c (g_lm g) ?ts s samp ?d = Some (d', g', cl)" for samp
      by (rule prefill_slot_cached_total [OF B(1) nc s em binv_reserved [OF ov inv] _ _ T(1,2)]) (use s T(3) in auto)
    then show ?thesis using None by (auto simp: resume_one_def Let_def split: option.split)
  next
    case (Some hk)
    obtain d0 ok where si: "swap_in ?c s hk ?d = (d0, ok)" by fastforce
    have hh: "host_holds ?c (g_lm g) hk (butlast ?ts)" "div_ceil (length (butlast ?ts)) (block_size ?c) \<le> max_blocks_per_seq ?c"
      using pok Some by (auto simp: ps_ok_def)
    note S = swap_in_correct [OF B(1) s em hh si]
    have "div_ceil (length (butlast ?ts)) (block_size ?c) \<le> free_blocks (blocks ?d)"
      using fit div_ceil_mono [OF dec_invD(2) [OF B(1)], of "length (butlast ?ts)" "length ?ts"] by (simp add: can_fit_def)
    then have inv0: "dec_inv (g_hash g) ?c (g_lm g) d0 (r(s := butlast ?ts)) base" using S by simp
    have rv: "reserved ?c {..<m_max ?c} (blocks d0)"
      using reserved_full [OF dec_invD(3) [OF inv0]] ov by (simp add: no_overload_def full_pool_def)
    have "last ?ts \<in> {..<lm_vocab (g_lm g)}" by (rule subsetD [OF T(2)]) (use T(3) in simp)
    moreover have "length ?ts - 1 < max_seq ?c" using T(1,3) by linarith
    ultimately have "\<forall>(t, p, x)\<in>set [(last ?ts, length ?ts - 1, s)]. t < lm_vocab (g_lm g) \<and> x \<in> {..<m_max ?c} \<and> x < m_max ?c \<and> p < max_seq ?c"
      using s by simp
    then obtain d1 kss where "forward_rows ?c (g_lm g) [(last ?ts, length ?ts - 1, s)] d0 = Some (d1, kss)"
      using forward_rows_total [OF dec_invD(3,1) [OF inv0] rv] by blast
    then show ?thesis using Some si s by (simp add: resume_one_def decode_one_def step_rows_def Let_def)
  qed
qed

lemma reschedule_loop_total:
  assumes ov: "no_overload g P" and nc: "no_collision (g_hash g)" and gs: "greedy_select (g_lm g)"
  shows "binv_at g P E r base b \<Longrightarrow> reschedule_loop f g b out \<noteq> None"
proof (induction f arbitrary: b out E r base)
  case (Suc f)
  note inv = Suc.prems
  show ?case
  proof (cases "cb_preempted b \<noteq> [] \<and> cb_free b \<noteq> [] \<and>
        can_fit (g_cfg g) (length (ps_tokens (hd (cb_preempted b)))) (blocks (cb_dec b))")
    case False
    then show ?thesis by auto
  next
    case True
    obtain p rest where pre: "cb_preempted b = p # rest" using True by (cases "cb_preempted b") auto
    have fr: "cb_free b \<noteq> []" and fit: "can_fit (g_cfg g) (length (ps_tokens p)) (blocks (cb_dec b))" using True pre by auto
    have s: "last (cb_free b) < m_max (g_cfg g)"
      using slots_ok_range [OF binv_atD(2) [OF inv]] last_in_set [OF fr] by (simp add: all_slots_def)
    have em: "slot_blocks (blocks (cb_dec b)) ! last (cb_free b) = []"
      using binv_atD(2) [OF inv] last_in_set [OF fr] by (simp add: slots_ok_def)
    obtain d1 t where ro: "resume_one g p (last (cb_free b)) (cb_dec b) = Some (d1, t)"
      using resume_one_total [OF ov nc inv _ s em fit] pre by auto
    note R = resume_step [OF nc gs inv pre fr fit ro refl]
    then show ?thesis
      using Suc.IH reschedule_loop_settle [OF pre fr fit, of f out] ro
      by (auto simp: binv_def Let_def simp del: reschedule_loop.simps)
  qed
qed simp

lemma step_total:
  assumes ov: "no_overload g P" and nc: "no_collision (g_hash g)" and gs: "greedy_select (g_lm g)" and inv: "binv g P E b"
  shows "\<exists>b' es. step g b = Some (b', es)"
proof -
  obtain r base where i0: "binv_at g P E r base b" using inv by (auto simp: binv_def)
  obtain b1 es1 where d: "decode_active g b = Some (b1, es1)" using decode_active_total [OF ov i0] by auto
  obtain r1 base1 where i1: "binv_at g P (emit E es1) r1 base1 b1" using decode_active_inv [OF i0 gs d] by auto
  obtain b2 es2 where a: "advance_prefill g b1 = Some (b2, es2)" using advance_prefill_total [OF ov i1] by auto
  obtain r2 base2 where i2: "binv_at g P (emit (emit E es1) es2) r2 base2 b2"
    using advance_prefill_inv [OF i1 a] by (auto simp: binv_def)
  obtain b3 es3 where "reschedule g b2 = Some (b3, es3)"
    using reschedule_loop_total [OF ov nc gs i2, of "length (cb_preempted b2)" "[]"] by (auto simp: reschedule_def)
  then show ?thesis using d a by (simp add: step_def after_decode_def)
qed


section \<open>When a step does panic\<close>

lemma make_room_one: "length (cb_active b) \<le> 1 \<Longrightarrow> make_room g b = Some b"
  unfolding make_room_def by (subst make_room_loop.simps) simp

lemma single_active_panics:
  assumes inv: "binv g P E b" and q: "cb_active b = [q]"
    and bad: "max_seq (g_cfg g) \<le> cs_pos q \<or>
      free_blocks (blocks (cb_dec b)) < blocks_short (g_cfg g) (cs_slot q) (length (cs_tokens q)) (blocks (cb_dec b))"
  shows "step g b = None"
proof -
  let ?c = "g_cfg g" and ?row = "(cs_next q, cs_pos q, cs_slot q)"
  obtain r base where "binv_at g P E r base b" using inv by (auto simp: binv_def)
  note B = binv_atD [OF this]
  have "forward_rows ?c (g_lm g) [?row] (cb_dec b) = None"
  proof (cases "max_seq ?c \<le> cs_pos q")
    case True
    then show ?thesis by (simp add: forward_rows_def write_inputs_ok_def)
  next
    case False
    have "act_ok P E r base q" using B(4) q by simp
    then have ne: "cs_tokens q \<noteq> []" by (auto simp: act_ok_def seq_base_ok_def)
    have len: "cs_pos q + 1 = length (cs_tokens q)" using ne by (cases "cs_tokens q") (auto simp: cs_pos_def)
    have s: "cs_slot q < m_max ?c" using slots_ok_range [OF B(2)] q by (simp add: all_slots_def)
    have need: "div_ceil (cs_pos q + 1) (block_size ?c) \<le> max_blocks_per_seq ?c"
      by (rule cfg_ok_blocks [OF dec_invD(1) [OF B(1)]]) (use False in simp)
    obtain bs1 ok where e: "ensure_blocks ?c (cs_slot q) (cs_pos q + 1) (blocks (cb_dec b)) = (bs1, ok)" by fastforce
    have "\<not> ok"
      using ensure_blocks_correct(3) [OF dec_invD(3) [OF B(1)] s need e] bad False by (simp add: len [symmetric])
    then show ?thesis using e by (simp add: forward_rows_def)
  qed
  then show ?thesis using q make_room_one [of b g]
    by (simp add: step_def after_decode_def decode_active_def step_rows_def Let_def)
qed


section \<open>The serving thread\<close>

text \<open>
  \<^verbatim>\<open>GpuBatchServer\<close>.  A channel is its number; what was sent on the channels so far is a log, \<open>Some\<close> token
  or \<open>None\<close> for the end of the stream.  The messages waiting in the thread's channel are a list.
\<close>

type_synonym channel = nat

record gen_req =
  gr_prompt :: "token list"
  gr_max_tokens :: nat
  gr_eos :: token
  gr_params :: sampling_params
  gr_seed :: "32 word"
  gr_tok_tx :: channel

datatype cb_msg = Gen gen_req | Swap string channel

record 'kv server =
  sv_cb :: "'kv batcher"
  sv_chans :: "(nat \<times> channel) list"
  sv_next_id :: nat
  sv_log :: "(channel \<times> token option) list"

definition send :: "channel \<Rightarrow> token option \<Rightarrow> 'kv server \<Rightarrow> 'kv server" where
  "send c m sv = sv\<lparr>sv_log := sv_log sv @ [(c, m)]\<rparr>"

definition request_of :: "nat \<Rightarrow> gen_req \<Rightarrow> request" where
  "request_of i r = \<lparr>rq_id = i, rq_prompt_len = length (gr_prompt r), rq_max_tokens = gr_max_tokens r, rq_eos = gr_eos r,
     rq_params = gr_params r, rq_seed = gr_seed r\<rparr>"

definition admit_req :: "'kv gpu \<Rightarrow> gen_req \<Rightarrow> 'kv server \<Rightarrow> 'kv server" where
  "admit_req g r sv =
    (let i = sv_next_id sv;
         (b, ok) = enqueue_params g (request_of i r) (gr_prompt r) (sv_cb sv);
         sv1 = sv\<lparr>sv_next_id := Suc i, sv_cb := b\<rparr>
     in if ok then sv1\<lparr>sv_chans := al_put i (gr_tok_tx r) (sv_chans sv1)\<rparr> else send (gr_tok_tx r) None sv1)"

definition busy :: "'kv batcher \<Rightarrow> bool" where
  "busy b = (0 < length (cb_active b) + length (cb_prefilling b) + length (cb_preempted b))"

text \<open>The loop that fills the free slots; it ends when the queue is empty or a swap is asked for.\<close>

fun fill_slots :: "'kv gpu \<Rightarrow> cb_msg list \<Rightarrow> 'kv server \<Rightarrow> 'kv server \<times> cb_msg list \<times> (string \<times> channel) option" where
  "fill_slots g [] sv = (sv, [], None)"
| "fill_slots g (m # ms) sv =
    (if has_free (sv_cb sv)
     then (case m of Gen r \<Rightarrow> fill_slots g ms (admit_req g r sv) | Swap path ack \<Rightarrow> (sv, ms, Some (path, ack)))
     else (sv, m # ms, None))"

fun deliver :: "emission list \<Rightarrow> 'kv server \<Rightarrow> 'kv server" where
  "deliver [] sv = sv"
| "deliver ((i, t, fin) # es) sv =
    (case map_of (sv_chans sv) i of
       None \<Rightarrow> deliver es sv
     | Some c \<Rightarrow>
         (let sv1 = send c (Some t) sv
          in deliver es (if fin then send c None (sv1\<lparr>sv_chans := al_del i (sv_chans sv1)\<rparr>) else sv1)))"

text \<open>\<open>gone\<close>: the receiver is gone; the list is the map, in the order it is iterated over.\<close>

fun reclaim :: "(channel \<Rightarrow> bool) \<Rightarrow> (nat \<times> channel) list \<Rightarrow> 'kv server \<Rightarrow> 'kv server" where
  "reclaim gone [] sv = sv"
| "reclaim gone ((i, c) # rest) sv =
    reclaim gone rest
      (if gone c then sv\<lparr>sv_cb := fst (cancel i (sv_cb sv)), sv_chans := al_del i (sv_chans sv)\<rparr> else sv)"

datatype 'kv round =
    Again "'kv server" "cb_msg list"
  | Reload string channel "'kv server" "cb_msg list"
  | Waiting
  | Shutdown
  | Panicked

definition recv_first :: "'kv gpu \<Rightarrow> cb_msg list \<Rightarrow> 'kv server \<Rightarrow> 'kv server \<times> cb_msg list \<times> (string \<times> channel) option" where
  "recv_first g q sv =
    (case hd q of Gen r \<Rightarrow> (admit_req g r sv, tl q, None) | Swap path ack \<Rightarrow> (sv, tl q, Some (path, ack)))"

text \<open>
  One turn of the inner loop of \<^verbatim>\<open>serve\<close>.  \<open>pld\<close> is the environment variable, \<open>disc\<close> says that every
  sender is gone, \<open>order\<close> is the order of the iteration over \<^verbatim>\<open>chans\<close>.
\<close>

definition serve_round ::
  "'kv gpu \<Rightarrow> bool \<Rightarrow> bool \<Rightarrow> (channel \<Rightarrow> bool) \<Rightarrow> ((nat \<times> channel) list \<Rightarrow> (nat \<times> channel) list) \<Rightarrow>
   'kv server \<Rightarrow> cb_msg list \<Rightarrow> 'kv round" where
  "serve_round g pld disc gone order sv q =
    (if \<not> busy (sv_cb sv) \<and> q = [] then (if disc then Shutdown else Waiting)
     else case (if busy (sv_cb sv) then (sv, q, None) else recv_first g q sv) of
       (sv1, q1, Some (path, ack)) \<Rightarrow> Reload path ack sv1 q1
     | (sv1, q1, None) \<Rightarrow>
         (case fill_slots g q1 sv1 of
            (sv2, q2, Some (path, ack)) \<Rightarrow> Reload path ack sv2 q2
          | (sv2, q2, None) \<Rightarrow>
              (if \<not> busy (sv_cb sv2)
               then (if disc \<and> has_free (sv_cb sv2) \<and> q2 = [] then Shutdown else Again sv2 q2)
               else case (if pld \<and> all_greedy (sv_cb sv2) then step_pld g 3 7 (sv_cb sv2) else step g (sv_cb sv2)) of
                 None \<Rightarrow> Panicked
               | Some (b, es) \<Rightarrow>
                   (let sv3 = deliver es (sv2\<lparr>sv_cb := b\<rparr>)
                    in Again (reclaim gone (order (sv_chans sv3)) sv3) q2))))"

text \<open>A swap: every stream in flight is ended, and the new model gets a new batcher.\<close>

definition abort_all :: "((nat \<times> channel) list \<Rightarrow> (nat \<times> channel) list) \<Rightarrow> 'kv server \<Rightarrow> 'kv server" where
  "abort_all order sv = (fold (\<lambda>(i, c). send c None) (order (sv_chans sv)) sv)\<lparr>sv_chans := []\<rparr>"

definition reload_server ::
  "((nat \<times> channel) list \<Rightarrow> (nat \<times> channel) list) \<Rightarrow> 'kv batcher \<Rightarrow> 'kv server \<Rightarrow> 'kv server" where
  "reload_server order b sv = (abort_all order sv)\<lparr>sv_cb := b\<rparr>"

section \<open>The protocol of the channels\<close>

definition sent_on :: "channel \<Rightarrow> 'kv server \<Rightarrow> token option list" where
  "sent_on c sv = map snd (filter (\<lambda>cm. fst cm = c) (sv_log sv))"

definition msg_channels :: "cb_msg list \<Rightarrow> channel list" where
  "msg_channels q = concat (map (\<lambda>m. case m of Gen r \<Rightarrow> [gr_tok_tx r] | Swap path ack \<Rightarrow> []) q)"

lemma msg_channels_simps [simp]:
  "msg_channels [] = []" "msg_channels (Gen r # q) = gr_tok_tx r # msg_channels q" "msg_channels (Swap p a # q) = msg_channels q"
  "msg_channels (q @ q') = msg_channels q @ msg_channels q'"
  by (simp_all add: msg_channels_def)

text \<open>A channel in use has not been ended, a waiting request's channel has had nothing, an ended one gets nothing more.\<close>

definition proto :: "'kv server \<Rightarrow> cb_msg list \<Rightarrow> bool" where
  "proto sv q =
    (al_ok (sv_chans sv) \<and> (\<forall>i\<in>fst ` set (sv_chans sv). i < sv_next_id sv) \<and>
     distinct (map snd (sv_chans sv) @ msg_channels q) \<and>
     (\<forall>c\<in>snd ` set (sv_chans sv). None \<notin> set (sent_on c sv)) \<and> (\<forall>c\<in>set (msg_channels q). sent_on c sv = []) \<and>
     (\<forall>c. None \<notin> set (butlast (sent_on c sv))))"

lemma sent_on_send [simp]: "sent_on c (send c' m sv) = sent_on c sv @ (if c' = c then [m] else [])"
  by (simp add: sent_on_def send_def)

lemma send_frame [simp]: "sv_chans (send c m sv) = sv_chans sv" "sv_next_id (send c m sv) = sv_next_id sv" "sv_cb (send c m sv) = sv_cb sv"
  by (simp_all add: send_def)

lemma sent_on_cong [simp]:
  "sent_on c (sv\<lparr>sv_cb := b\<rparr>) = sent_on c sv" "sent_on c (sv\<lparr>sv_chans := cs\<rparr>) = sent_on c sv" "sent_on c (sv\<lparr>sv_next_id := n\<rparr>) = sent_on c sv"
  by (simp_all add: sent_on_def)

lemma proto_cb [simp]: "proto (sv\<lparr>sv_cb := b\<rparr>) q = proto sv q"
  by (simp add: proto_def)

lemma butlast_snocD: "None \<notin> set xs \<Longrightarrow> None \<notin> set (butlast (xs @ [m]))"
  by simp

lemma butlast_two: "butlast (xs @ [a, b]) = xs @ [a]"
  by (simp add: butlast_append)

lemma proto_admit:
  assumes "proto sv (Gen r # q)"
  shows "proto (admit_req g r sv) q"
proof -
  obtain b ok where e: "enqueue_params g (request_of (sv_next_id sv) r) (gr_prompt r) (sv_cb sv) = (b, ok)" by fastforce
  have fresh: "sv_next_id sv \<notin> fst ` set (sv_chans sv)" using assms by (auto simp: proto_def)
  have put: "al_put (sv_next_id sv) (gr_tok_tx r) (sv_chans sv) = sv_chans sv @ [(sv_next_id sv, gr_tok_tx r)]"
    by (rule al_put_fresh [OF fresh])
  show ?thesis
  proof (cases ok)
    case True
    then show ?thesis using assms fresh e put
      by (auto simp: admit_req_def Let_def proto_def less_Suc_eq)
  next
    case False
    then show ?thesis using assms e by (auto simp: admit_req_def Let_def proto_def less_Suc_eq)
  qed
qed

lemma proto_drop: "proto sv (m # q) \<Longrightarrow> proto sv q"
  by (cases m) (auto simp: proto_def)

lemma proto_fill: "proto sv q \<Longrightarrow> fill_slots g q sv = (sv', q', res) \<Longrightarrow> proto sv' q'"
proof (induction q arbitrary: sv)
  case (Cons m q)
  then show ?case using proto_admit [of sv _ q g] proto_drop [of sv m q]
    by (cases m) (auto split: if_splits)
qed simp

lemma al_del_channels:
  assumes "al_ok al" "distinct (map snd al @ cs)" "map_of al i = Some c"
  shows "distinct (map snd (al_del i al) @ cs)" "c \<notin> snd ` set (al_del i al)" "c \<notin> set cs"
    "snd ` set (al_del i al) \<subseteq> snd ` set al"
proof -
  have i: "(i, c) \<in> set al" using assms(3) by (rule map_of_SomeD)
  show "distinct (map snd (al_del i al) @ cs)" using assms(2) by (auto simp: al_del_def)
  show "snd ` set (al_del i al) \<subseteq> snd ` set al" by (auto simp: al_del_def)
  show "c \<notin> set cs" using assms(2) i by (auto simp: image_iff)
  show "c \<notin> snd ` set (al_del i al)"
  proof
    assume "c \<in> snd ` set (al_del i al)"
    then obtain j where j: "(j, c) \<in> set al" "j \<noteq> i" by (auto simp: al_del_def)
    have "inj_on snd (set al)" using assms(2) by (simp add: distinct_map)
    from inj_onD [OF this _ i j(1)] show False using j(2) by simp
  qed
qed

lemma proto_deliver: "proto sv q \<Longrightarrow> proto (deliver es sv) q"
proof (induction es arbitrary: sv)
  case (Cons e es)
  obtain i t fin where e: "e = (i, t, fin)" by (cases e)
  show ?case
  proof (cases "map_of (sv_chans sv) i")
    case None
    then show ?thesis using Cons e by simp
  next
    case (Some c)
    have c: "c \<in> snd ` set (sv_chans sv)" using map_of_SomeD [OF Some] by force
    note P = Cons.prems [unfolded proto_def]
    note D = al_del_channels [OF _ _ Some, of "msg_channels q"]
    have "proto (if fin then send c None (send c (Some t) sv\<lparr>sv_chans := al_del i (sv_chans sv)\<rparr>) else send c (Some t) sv) q"
    proof (cases fin)
      case False
      then show ?thesis using P c D(3) by (auto simp: proto_def)
    next
      case True
      have D2: "c \<notin> snd ` set (al_del i (sv_chans sv))" by (rule D(2)) (use P in auto)
      have d: "\<forall>x\<in>set (al_del i (sv_chans sv)). snd x \<noteq> c \<and> x \<in> set (sv_chans sv)"
        using D2 by (auto simp: al_del_def image_iff)
      have n: "None \<notin> set (sent_on c sv)" using P c by blast
      let ?sv = "send c None (send c (Some t) sv\<lparr>sv_chans := al_del i (sv_chans sv)\<rparr>)"
      have so: "sent_on x ?sv = sent_on x sv @ (if x = c then [Some t, None] else [])" for x by simp
      have "None \<notin> set (butlast (sent_on x ?sv))" for x
        using P n by (auto simp: so butlast_two)
      moreover have "None \<notin> set (sent_on x ?sv)" if "x \<in> snd ` set (sv_chans ?sv)" for x
        using P d that by (auto simp: so)
      moreover have "sent_on x ?sv = []" if "x \<in> set (msg_channels q)" for x
        using P D(3) that by (auto simp: so)
      moreover have "al_ok (sv_chans ?sv)" "\<forall>i\<in>fst ` set (sv_chans ?sv). i < sv_next_id ?sv" using P d by auto
      ultimately show ?thesis using True D(1) P unfolding proto_def by auto
    qed
    then have "proto (deliver es (if fin then send c None (send c (Some t) sv\<lparr>sv_chans := al_del i (sv_chans sv)\<rparr>)
        else send c (Some t) sv)) q" by (rule Cons.IH)
    then show ?thesis using Some e by (cases fin) (simp_all add: Let_def)
  qed
qed simp

lemma proto_reclaim: "proto sv q \<Longrightarrow> proto (reclaim gone al sv) q"
proof (induction gone al sv rule: reclaim.induct)
  case (2 gone i c al sv)
  have "proto (sv\<lparr>sv_cb := b, sv_chans := al_del i (sv_chans sv)\<rparr>) q" for b
    using 2(2) by (auto simp: proto_def al_del_def distinct_map_filter)
  then have "proto (if gone c then sv\<lparr>sv_cb := fst (cancel i (sv_cb sv)), sv_chans := al_del i (sv_chans sv)\<rparr> else sv) q"
    using 2(2) by simp
  then show ?case using 2(1) by simp
qed simp

lemma proto_recv:
  assumes "proto sv q" "q \<noteq> []" "recv_first g q sv = (sv', q', res)"
  shows "proto sv' q'"
proof -
  obtain m ms where q: "q = m # ms" using assms(2) by (cases q) auto
  show ?thesis using assms proto_admit [of sv _ ms g] proto_drop [of sv m ms]
    by (cases m) (auto simp: recv_first_def q)
qed

lemma sent_on_fold_send:
  "sent_on c (fold (\<lambda>(i, c). send c None) al sv) = sent_on c sv @ map (\<lambda>_. None) (filter (\<lambda>ic. snd ic = c) al)"
  "sv_chans (fold (\<lambda>(i, c). send c None) al sv) = sv_chans sv" "sv_next_id (fold (\<lambda>(i, c). send c None) al sv) = sv_next_id sv"
  by (induction al arbitrary: sv) auto

lemma filter_channel_le_one: "distinct (map snd al) \<Longrightarrow> length (filter (\<lambda>ic. snd ic = c) al) \<le> 1"
  by (induction al) (auto simp: filter_empty_conv image_iff)

lemma proto_abort:
  assumes "proto sv q" "mset (order (sv_chans sv)) = mset (sv_chans sv)"
  shows "proto (abort_all order sv) q"
proof -
  let ?al = "order (sv_chans sv)"
  have s: "set ?al = set (sv_chans sv)" by (rule mset_eq_setD [OF assms(2)])
  have dm: "distinct (map snd ?al)"
    using assms(1) mset_eq_imp_distinct_iff [of "map snd ?al" "map snd (sv_chans sv)"] assms(2)
    by (auto simp: proto_def)
  have b: "None \<notin> set (butlast (sent_on c sv @ map (\<lambda>_. None) (filter (\<lambda>ic. snd ic = c) ?al)))" for c
  proof (cases "filter (\<lambda>ic. snd ic = c) ?al")
    case Nil
    then show ?thesis using assms(1) by (simp add: proto_def)
  next
    case (Cons x xs)
    then have "xs = []" using filter_channel_le_one [OF dm, of c] by simp
    moreover have "x \<in> set ?al" "snd x = c" using Cons filter_set [of "\<lambda>ic. snd ic = c" ?al] by (auto dest!: equalityD2)
    ultimately show ?thesis using Cons assms(1) s by (auto simp: proto_def)
  qed
  have w: "sent_on c (abort_all order sv) = []" if c: "c \<in> set (msg_channels q)" for c
  proof -
    have "c \<notin> snd ` set ?al" using assms(1) c s by (auto simp: proto_def)
    then have "filter (\<lambda>ic. snd ic = c) ?al = []" by (auto simp: filter_empty_conv)
    then show ?thesis using assms(1) c by (simp add: abort_all_def sent_on_fold_send proto_def)
  qed
  show ?thesis
    using assms(1) b w by (auto simp: proto_def abort_all_def sent_on_fold_send)
qed

text \<open>The server with its queue, its clients and the models it is given.\<close>

inductive srv_step ::
  "bool \<Rightarrow> ((nat \<times> channel) list \<Rightarrow> (nat \<times> channel) list) \<Rightarrow> 'kv server \<times> cb_msg list \<Rightarrow> 'kv server \<times> cb_msg list \<Rightarrow> bool"
  for pld order where
  srv_submit: "gr_tok_tx r \<notin> snd ` set (sv_chans sv) \<union> set (msg_channels q) \<Longrightarrow> sent_on (gr_tok_tx r) sv = [] \<Longrightarrow>
    srv_step pld order (sv, q) (sv, q @ [Gen r])"
| srv_swap: "srv_step pld order (sv, q) (sv, q @ [Swap path ack])"
| srv_round: "serve_round g pld disc gone order sv q = Again sv' q' \<Longrightarrow> srv_step pld order (sv, q) (sv', q')"
| srv_reload: "serve_round g pld disc gone order sv q = Reload path ack sv' q' \<Longrightarrow>
    srv_step pld order (sv, q) (reload_server order b sv', q')"

inductive_cases srv_stepE: "srv_step pld order st st'"

lemma proto_round:
  assumes p: "proto sv q"
  shows "serve_round g pld disc gone order sv q = Again sv' q' \<Longrightarrow> proto sv' q'"
    "serve_round g pld disc gone order sv q = Reload path ack sv' q' \<Longrightarrow> proto sv' q'"
proof -
  let ?r = "if busy (sv_cb sv) then (sv, q, None) else recv_first g q sv"
  obtain sv1 q1 r1 where 1: "?r = (sv1, q1, r1)" by (metis prod_cases3)
  obtain sv2 q2 r2 where 2: "fill_slots g q1 sv1 = (sv2, q2, r2)" by (metis prod_cases3)
  have p1: "proto sv1 q1" if "busy (sv_cb sv) \<or> q \<noteq> []"
    using that 1 p proto_recv [OF p] by (auto split: if_splits)
  have p2: "proto sv2 q2" if "busy (sv_cb sv) \<or> q \<noteq> []" by (rule proto_fill [OF p1 [OF that] 2])
  note def = serve_round_def [of g pld disc gone order sv q, unfolded 1 prod.case 2]
  show "proto sv' q'" if run: "serve_round g pld disc gone order sv q = Again sv' q'"
  proof -
    have ne: "busy (sv_cb sv) \<or> q \<noteq> []" using run def by (auto split: if_splits)
    have n: "r1 = None" "r2 = None" using run def ne by (auto split: if_splits option.splits)
    have alt: "sv' = sv2 \<and> q' = q2 \<or> (\<exists>b es. q' = q2 \<and>
        sv' = reclaim gone (order (sv_chans (deliver es (sv2\<lparr>sv_cb := b\<rparr>)))) (deliver es (sv2\<lparr>sv_cb := b\<rparr>)))"
      using run def ne unfolding n by (auto simp: Let_def split: if_splits option.splits)
    then show ?thesis
    proof (elim disjE exE conjE)
      show "sv' = sv2 \<Longrightarrow> q' = q2 \<Longrightarrow> proto sv' q'" using p2 [OF ne] by simp
      fix b es
      assume e: "q' = q2" "sv' = reclaim gone (order (sv_chans (deliver es (sv2\<lparr>sv_cb := b\<rparr>)))) (deliver es (sv2\<lparr>sv_cb := b\<rparr>))"
      have "proto (sv2\<lparr>sv_cb := b\<rparr>) q2" using p2 [OF ne] by simp
      then show "proto sv' q'" unfolding e by (intro proto_reclaim proto_deliver)
    qed
  qed
  show "proto sv' q'" if run: "serve_round g pld disc gone order sv q = Reload path ack sv' q'"
  proof -
    have ne: "busy (sv_cb sv) \<or> q \<noteq> []" using run def by (auto split: if_splits)
    have "sv' = sv1 \<and> q' = q1 \<or> sv' = sv2 \<and> q' = q2"
      using run def ne by (auto simp: Let_def split: if_splits option.splits)
    then show ?thesis using p1 [OF ne] p2 [OF ne] by auto
  qed
qed

lemma srv_step_proto:
  assumes st: "srv_step pld order st st'" and o: "\<And>al. mset (order al) = mset al" and p: "proto (fst st) (snd st)"
  shows "proto (fst st') (snd st')"
  using st p
proof cases
  case (srv_submit r sv q)
  then show ?thesis using p by (auto simp: proto_def)
next
  case (srv_swap sv q path ack)
  then show ?thesis using p by (auto simp: proto_def)
next
  case (srv_round g disc gone sv q sv' q')
  then show ?thesis using proto_round(1) [of sv q] p by auto
next
  case (srv_reload g disc gone sv q path ack sv' q' b)
  then have "proto sv' q'" using proto_round(2) [of sv q] p by auto
  then show ?thesis using srv_reload proto_abort [where order = order and sv = sv' and q = q'] o by (simp add: reload_server_def)
qed

lemma srv_run_proto:
  assumes "(srv_step pld order)\<^sup>*\<^sup>* st st'" "\<And>al. mset (order al) = mset al" "proto (fst st) (snd st)"
  shows "proto (fst st') (snd st')"
  using assms(1)
proof (induction rule: rtranclp_induct)
  case (step y z)
  then show ?case using srv_step_proto [OF _ assms(2)] by blast
qed (rule assms(3))


section \<open>The properties of the batcher and its server\<close>

text \<open>A pool for two sequences of at most four tokens, and requests for it.\<close>

definition demo_pool :: "pool_cfg \<times> nat batcher" where
  "demo_pool =
    (let c = \<lparr>block_size = 16, n_blocks = 2, max_blocks_per_seq = 1, m_max = 2, max_seq = 4\<rparr>
     in (c, fresh_batcher \<lparr>blocks = fresh_blocks c False, mem = (\<lambda>_. 0)\<rparr> 2 True))"

definition demo_gpu :: "nat gpu" where
  "demo_gpu = \<lparr>g_hash = demo_hash, g_cfg = fst demo_pool, g_lm = demo_lm\<rparr>"

definition demo_requests :: "token list \<Rightarrow> nat \<Rightarrow> requests" where
  "demo_requests prompt m i =
    (\<lparr>rq_id = i, rq_prompt_len = length prompt, rq_max_tokens = m, rq_eos = 7, rq_params = greedy_params, rq_seed = 0\<rparr>, prompt)"

definition demo_enqueued :: "token list \<Rightarrow> nat \<Rightarrow> nat batcher" where
  "demo_enqueued prompt m = fst (enqueue_params demo_gpu (fst (demo_requests prompt m 0)) prompt (snd demo_pool))"

lemma demo_with_pool: "with_pool False True (\<lambda>_. 0) 2 4 2 = Some (g_cfg demo_gpu, snd demo_pool)"
  by (simp add: with_pool_def new_paged_def div_ceil_def default_block_size_def demo_pool_def demo_gpu_def Let_def)

lemma demo_gpu_simps [simp]: "g_hash demo_gpu = demo_hash" "g_lm demo_gpu = demo_lm"
  by (simp_all add: demo_gpu_def)

lemma demo_greedy_select: "greedy_select demo_lm"
  by (simp add: greedy_select_def demo_lm_def)

lemma demo_greedy: "greedy_request (fst (demo_requests prompt m i))"
  by (simp add: greedy_request_def demo_requests_def greedy_params_def f32_le_def)

lemma demo_reach_enqueued:
  "cb_reach demo_gpu (demo_requests prompt m) (snd demo_pool) (\<lambda>i. [], demo_enqueued prompt m)"
proof -
  obtain b ok where e: "enqueue_params demo_gpu (fst (demo_requests prompt m 0)) prompt (snd demo_pool) = (b, ok)" by fastforce
  have f: "fresh_request (demo_requests prompt m) 0 (fst (demo_requests prompt m 0)) prompt (\<lambda>i. [], snd demo_pool)"
    by (simp add: fresh_request_def live_ids_def demo_pool_def fresh_batcher_def demo_requests_def Let_def)
  show ?thesis
    by (rule cb_reach.reach_step [OF cb_reach.reach_start]) (use cb_enqueue [OF f e] e in \<open>simp add: demo_enqueued_def\<close>)
qed

lemma demo_first_step: "map_option snd (step demo_gpu (demo_enqueued [0] 2)) = Some [(0, 1, False)]"
  by code_simp

lemma demo_reach_first:
  "\<exists>b. step demo_gpu (demo_enqueued [0] 2) = Some (b, [(0, 1, False)]) \<and>
     cb_reach demo_gpu (demo_requests [0] 2) (snd demo_pool) ((\<lambda>i. [])(0 := [1]), b)"
proof -
  obtain b where b: "step demo_gpu (demo_enqueued [0] 2) = Some (b, [(0, 1, False)])"
    using demo_first_step by auto
  have "cb_reach demo_gpu (demo_requests [0] 2) (snd demo_pool) (emit (\<lambda>i. []) [(0, 1, False)], b)"
    by (rule cb_reach.reach_step [OF demo_reach_enqueued cb_decode [OF b]])
  then show ?thesis using b by (simp add: emit1_def)
qed

lemmas reach_inv = cb_reach_inv [unfolded st_inv_def]



text \<open>
  Every token a step emits belongs to an unfinished stream, its completion flag is set exactly when the token is
  the end of sequence or the last one allowed, and a greedy request gets the greedy token; this holds for the
  speculative step too.
\<close>

theorem batch_step_emissions:
  assumes "with_pool ff swap mem0 m ms nb = Some (g_cfg g, b0)" "no_collision (g_hash g)" "greedy_select (g_lm g)"
    and "cb_reach g P b0 (E, b)" "step g b = Some (b', es) \<or> step_pld g ll dk b = Some (b', es)"
  shows "emits_ok (g_lm g) P E es"
proof -
  have "binv g P E b"
    using reach_inv [OF assms(4,2,3) fresh_batcher_inv [OF assms(1) refl]] by simp
  from step_inv [OF assms(2,3) this] step_pld_inv [OF assms(2,3) this, of ll dk] assms(5) show ?thesis
    by (auto simp: step_ok_def)
qed

theorem batch_step_emissions_witness: "emits_ok demo_lm (demo_requests [0] 2) (\<lambda>i. []) [(0, 1, False)]"
proof -
  have h: "no_collision (g_hash demo_gpu)" "greedy_select (g_lm demo_gpu)"
    by (simp_all add: demo_hash_ok demo_greedy_select)
  show ?thesis
    using batch_step_emissions [OF demo_with_pool h demo_reach_enqueued, of "[0]" 2] demo_reach_first by fastforce
qed






lemma demo_long_step:
  "map_option (\<lambda>(b, es). (es, map cs_pos (cb_active b))) (step demo_gpu (demo_enqueued [0, 1, 2, 0] 5)) = Some ([(0, 1, False)], [4])"
  by code_simp


text \<open>
  Cancelling an id removes exactly that id from the live sequences, says whether it was live, and keeps the
  contract: every other stream, slot and block is as it was or free again.
\<close>

theorem batch_cancel:
  assumes "with_pool ff swap mem0 m ms nb = Some (g_cfg g, b0)" "no_collision (g_hash g)" "greedy_select (g_lm g)"
    and "cb_reach g P b0 (E, b)" "cancel i b = (b', ok)"
  shows "binv g P E b' \<and> (ok \<longleftrightarrow> i \<in> set (live_ids b)) \<and> set (live_ids b') = set (live_ids b) - {i}"
  by (rule cancel_inv [OF _ assms(5)])
     (use reach_inv [OF assms(4,2,3) fresh_batcher_inv [OF assms(1) refl]] in simp)

theorem batch_cancel_witness: "set (live_ids (fst (cancel 0 (demo_enqueued [0] 2)))) = {}"
proof -
  have h: "no_collision (g_hash demo_gpu)" "greedy_select (g_lm demo_gpu)"
    by (simp_all add: demo_hash_ok demo_greedy_select)
  obtain b' ok where c: "cancel 0 (demo_enqueued [0] 2) = (b', ok)" by fastforce
  have "live_ids (demo_enqueued [0] 2) = [0]" by code_simp
  with batch_cancel [OF demo_with_pool h demo_reach_enqueued c] show ?thesis using c by simp
qed

text \<open>
  C4: Whatever the clients submit, drop and swap, a client's channel gets tokens and then at most one end of stream,
  and nothing after it, provided clients open a new channel for every request.
\<close>

theorem server_channel_protocol:
  assumes "(srv_step pld order)\<^sup>*\<^sup>* (\<lparr>sv_cb = b0, sv_chans = [], sv_next_id = 0, sv_log = []\<rparr>, []) (sv, q)"
    and "\<And>al. mset (order al) = mset al"
  shows "None \<notin> set (butlast (sent_on c sv)) \<and> (c \<in> snd ` set (sv_chans sv) \<longrightarrow> None \<notin> set (sent_on c sv))"
proof -
  have "proto \<lparr>sv_cb = b0, sv_chans = [], sv_next_id = 0, sv_log = []\<rparr> []" by (simp add: proto_def sent_on_def)
  with srv_run_proto [OF assms(1,2)] have "proto sv q" by simp
  then show ?thesis unfolding proto_def by blast
qed

definition demo_gen :: gen_req where
  "demo_gen = \<lparr>gr_prompt = [0], gr_max_tokens = 1, gr_eos = 7, gr_params = greedy_params, gr_seed = 0, gr_tok_tx = 9\<rparr>"

definition demo_server :: "nat server" where
  "demo_server = \<lparr>sv_cb = snd demo_pool, sv_chans = [], sv_next_id = 0, sv_log = []\<rparr>"

lemma demo_round:
  "(case serve_round demo_gpu False False (\<lambda>c. False) id demo_server [Gen demo_gen] of
     Again sv q \<Rightarrow> Some (sv_log sv, q) | _ \<Rightarrow> None) = Some ([(9, Some 1), (9, None)], [])"
  by code_simp

theorem server_channel_protocol_witness:
  "\<exists>sv. serve_round demo_gpu False False (\<lambda>c. False) id demo_server [Gen demo_gen] = Again sv [] \<and>
     sent_on 9 sv = [Some 1, None] \<and> None \<notin> set (butlast (sent_on 9 sv))"
proof -
  obtain sv where r: "serve_round demo_gpu False False (\<lambda>c. False) id demo_server [Gen demo_gen] = Again sv []"
    and l: "sv_log sv = [(9, Some 1), (9, None)]"
    using demo_round by (auto split: round.splits)
  have 1: "srv_step False id (demo_server, []) (demo_server, [] @ [Gen demo_gen])"
    by (rule srv_submit) (simp_all add: demo_server_def sent_on_def)
  have 2: "srv_step False id (demo_server, [Gen demo_gen]) (sv, [])" by (rule srv_round [OF r])
  have "(srv_step False id)\<^sup>*\<^sup>* (demo_server, []) (sv, [])"
    using 1 2 by (metis append_Nil converse_rtranclp_into_rtranclp r_into_rtranclp)
  from server_channel_protocol [OF this [unfolded demo_server_def]] have "None \<notin> set (butlast (sent_on 9 sv))" by simp
  then show ?thesis using r l by (simp add: sent_on_def)
qed

end
