(* ===== verification/MemoryStore.thy ===== *)
theory MemoryStore
  imports Sampling
begin

text \<open>
  The store of the engine's memories (\<^verbatim>\<open>src/engine/memory_store.rs\<close>): entries under byte, category and count
  budgets, expiry and eviction, the category and tag indexes, the injection vector built from the entries, and the
  ring of inspection traces.  The clock of the store (seconds since it was created) and the order in which its
  hash map is iterated over are parameters; metrics are not modelled.
\<close>

section \<open>State\<close>

type_synonym tensor = "f32 list"

datatype memory_category = Finding | Context | Pattern | Correction | Knowledge | Goal | Task | Status

definition category_str :: "memory_category \<Rightarrow> string" where
  "category_str c = (case c of Finding \<Rightarrow> ''finding'' | Context \<Rightarrow> ''context'' | Pattern \<Rightarrow> ''pattern''
     | Correction \<Rightarrow> ''correction'' | Knowledge \<Rightarrow> ''knowledge'' | Goal \<Rightarrow> ''goal'' | Task \<Rightarrow> ''task'' | Status \<Rightarrow> ''status'')"

record memory_metadata =
  md_source_request_id :: string
  md_layer_captured :: nat
  md_category :: memory_category
  md_tags :: "string list"
  md_text_summary :: string

record memory_entry =
  me_key :: string
  me_vector :: tensor
  me_metadata :: memory_metadata
  me_created_at :: nat
  me_access_count :: nat
  me_relevance :: f32
  me_expires_at :: "nat option"
  me_pinned :: bool
  me_byte_size :: nat

record store_options =
  so_pinned :: bool
  so_ttl_seconds :: "nat option"

definition default_store_options :: store_options where
  "default_store_options = \<lparr>so_pinned = False, so_ttl_seconds = None\<rparr>"

datatype store_error = Oversize | Full

record token_snapshot =
  ts_step :: nat
  ts_token_id :: token
  ts_token_text :: string
  ts_confidence :: f32
  ts_top_alternatives :: "(token \<times> f32) list"

record layer_snapshot =
  ls_layer_idx :: nat
  ls_loop_idx :: nat
  ls_norm :: f32
  ls_hash :: "64 word"
  ls_top_activations :: "(nat \<times> f32) list"
  ls_interpretation :: string

record inspection_trace =
  it_request_id :: string
  it_layers :: "layer_snapshot list"
  it_tokens :: "token_snapshot list"
  it_timestamp :: nat

record store =
  st_entries :: "(string \<times> memory_entry) list"
  st_traces :: "inspection_trace list"
  st_max_entries :: nat
  st_max_traces :: nat
  st_bytes_used :: nat
  st_byte_budget :: nat
  st_category_budgets :: "memory_category \<rightharpoonup> nat"
  st_category_bytes :: "memory_category \<rightharpoonup> nat"
  st_by_category :: "memory_category \<rightharpoonup> string list"
  st_by_tag :: "string \<rightharpoonup> string list"

definition mb :: nat where
  "mb = 1024 * 1024"

definition default_total_budget :: nat where
  "default_total_budget = 256 * 1024 * 1024"

definition default_category_budgets :: "memory_category \<rightharpoonup> nat" where
  "default_category_budgets = map_of
     [(Goal, 16 * mb), (Task, 32 * mb), (Status, 8 * mb), (Context, 128 * mb),
      (Finding, 16 * mb), (Pattern, 16 * mb), (Correction, 16 * mb), (Knowledge, 16 * mb)]"

definition with_budget :: "nat \<Rightarrow> nat \<Rightarrow> nat \<Rightarrow> (memory_category \<rightharpoonup> nat) \<Rightarrow> store" where
  "with_budget max_entries max_traces byte_budget category_budgets =
    \<lparr>st_entries = [], st_traces = [], st_max_entries = max_entries, st_max_traces = max_traces, st_bytes_used = 0,
     st_byte_budget = byte_budget, st_category_budgets = category_budgets, st_category_bytes = Map.empty,
     st_by_category = Map.empty, st_by_tag = Map.empty\<rparr>"

definition new_store :: "nat \<Rightarrow> nat \<Rightarrow> store" where
  "new_store max_entries max_traces = with_budget max_entries max_traces default_total_budget default_category_budgets"

definition is_expired :: "memory_entry \<Rightarrow> nat \<Rightarrow> bool" where
  "is_expired e now = (case me_expires_at e of Some t \<Rightarrow> t \<le> now | None \<Rightarrow> False)"

section \<open>Removing and evicting\<close>

definition index_del :: "'k \<Rightarrow> string \<Rightarrow> ('k \<rightharpoonup> string list) \<Rightarrow> ('k \<rightharpoonup> string list)" where
  "index_del k key ix = (case ix k of None \<Rightarrow> ix | Some ks \<Rightarrow> ix(k \<mapsto> removeAll key ks))"

definition index_add :: "'k \<Rightarrow> string \<Rightarrow> ('k \<rightharpoonup> string list) \<Rightarrow> ('k \<rightharpoonup> string list)" where
  "index_add k key ix = ix(k \<mapsto> List.insert key (case ix k of None \<Rightarrow> [] | Some ks \<Rightarrow> ks))"

definition remove_internal :: "string \<Rightarrow> store \<Rightarrow> store \<times> bool" where
  "remove_internal key st =
    (case map_of (st_entries st) key of
       None \<Rightarrow> (st, False)
     | Some e \<Rightarrow>
         (let cat = md_category (me_metadata e) in
          (st\<lparr>st_entries := al_del key (st_entries st),
              st_bytes_used := st_bytes_used st - me_byte_size e,
              st_category_bytes := (case st_category_bytes st cat of None \<Rightarrow> st_category_bytes st
                                    | Some b \<Rightarrow> (st_category_bytes st)(cat \<mapsto> b - me_byte_size e)),
              st_by_category := index_del cat key (st_by_category st),
              st_by_tag := fold (\<lambda>tag. index_del tag key) (md_tags (me_metadata e)) (st_by_tag st)\<rparr>, True)))"

definition remove :: "string \<Rightarrow> store \<Rightarrow> store \<times> bool" where
  "remove key st = remove_internal key st"

text \<open>\<open>order\<close> is the order of iteration over the entries.\<close>

type_synonym map_order = "(string \<times> memory_entry) list \<Rightarrow> (string \<times> memory_entry) list"

definition drop_one_expired :: "map_order \<Rightarrow> nat \<Rightarrow> store \<Rightarrow> store \<times> bool" where
  "drop_one_expired order now st =
    (case find (\<lambda>(k, e). is_expired e now) (order (st_entries st)) of
       None \<Rightarrow> (st, False)
     | Some (k, e) \<Rightarrow> (fst (remove_internal k st), True))"

text \<open>\<^verbatim>\<open>min_by\<close>: the first of the least, incomparable values counting as equal.\<close>

fun first_min :: "('a \<Rightarrow> f32) \<Rightarrow> 'a list \<Rightarrow> 'a option" where
  "first_min f [] = None"
| "first_min f (x # xs) =
    (case first_min f xs of None \<Rightarrow> Some x | Some y \<Rightarrow> if f32_lt (f y) (f x) then Some y else Some x)"

definition lowest_score_key :: "map_order \<Rightarrow> memory_category option \<Rightarrow> store \<Rightarrow> string option" where
  "lowest_score_key order only st =
    map_option fst
      (first_min (\<lambda>ke. me_relevance (snd ke))
        (filter (\<lambda>(k, e). case only of Some cat \<Rightarrow> md_category (me_metadata e) = cat | None \<Rightarrow> True)
          (filter (\<lambda>(k, e). \<not> me_pinned e) (order (st_entries st)))))"

definition evict_one :: "map_order \<Rightarrow> memory_category option \<Rightarrow> store \<Rightarrow> store \<times> bool" where
  "evict_one order prefer st =
    (case (case prefer of Some cat \<Rightarrow> lowest_score_key order (Some cat) st | None \<Rightarrow> None) of
       Some key \<Rightarrow> (fst (remove_internal key st), True)
     | None \<Rightarrow>
         (case lowest_score_key order None st of
            Some key \<Rightarrow> (fst (remove_internal key st), True)
          | None \<Rightarrow> (st, False)))"

section \<open>Storing\<close>

definition category_budget :: "memory_category \<Rightarrow> store \<Rightarrow> nat" where
  "category_budget cat st = (case st_category_budgets st cat of Some b \<Rightarrow> b | None \<Rightarrow> st_byte_budget st)"

definition category_used :: "memory_category \<Rightarrow> store \<Rightarrow> nat" where
  "category_used cat st = (case st_category_bytes st cat of Some b \<Rightarrow> b | None \<Rightarrow> 0)"

definition fits :: "nat \<Rightarrow> memory_category \<Rightarrow> nat \<Rightarrow> store \<Rightarrow> bool" where
  "fits sz cat cat_budget st =
    (st_bytes_used st + sz \<le> st_byte_budget st \<and> category_used cat st + sz \<le> cat_budget \<and>
     length (st_entries st) < st_max_entries st)"

text \<open>
  The loop that makes room.  Every round removes an entry, so as many rounds as there are entries are enough;
  \<open>None\<close> is \<^verbatim>\<open>StoreError::Full\<close>, with the state it leaves behind.
\<close>

fun make_space :: "nat \<Rightarrow> map_order \<Rightarrow> nat \<Rightarrow> nat \<Rightarrow> memory_category \<Rightarrow> nat \<Rightarrow> store \<Rightarrow> store \<times> bool" where
  "make_space fuel order now sz cat cat_budget st =
    (if fits sz cat cat_budget st then (st, True)
     else case fuel of
       0 \<Rightarrow> (st, False)
     | Suc f \<Rightarrow>
         (case drop_one_expired order now st of
            (st1, True) \<Rightarrow> make_space f order now sz cat cat_budget st1
          | (st1, False) \<Rightarrow>
              (case evict_one order (Some cat) st1 of
                 (st2, True) \<Rightarrow> make_space f order now sz cat cat_budget st2
               | (st2, False) \<Rightarrow> (st2, False))))"

declare make_space.simps [simp del]

definition insert_entry :: "string \<Rightarrow> memory_entry \<Rightarrow> store \<Rightarrow> store" where
  "insert_entry key e st =
    (let cat = md_category (me_metadata e) in
     st\<lparr>st_by_category := index_add cat key (st_by_category st),
        st_by_tag := fold (\<lambda>tag. index_add tag key) (md_tags (me_metadata e)) (st_by_tag st),
        st_bytes_used := st_bytes_used st + me_byte_size e,
        st_category_bytes := (st_category_bytes st)(cat \<mapsto> category_used cat st + me_byte_size e),
        st_entries := al_put key e (st_entries st)\<rparr>)"

definition store_with_options ::
  "map_order \<Rightarrow> nat \<Rightarrow> string \<Rightarrow> tensor \<Rightarrow> memory_metadata \<Rightarrow> store_options \<Rightarrow> store \<Rightarrow> store \<times> (store_error + unit)" where
  "store_with_options order now key vector md options st =
    (let sz = length vector * 4; cat = md_category md; cat_budget = category_budget cat st in
     if cat_budget < sz \<or> st_byte_budget st < sz then (st, Inl Oversize)
     else
       (let st1 = fst (remove_internal key st) in
        case make_space (length (st_entries st1)) order now sz cat cat_budget st1 of
          (st2, False) \<Rightarrow> (st2, Inl Full)
        | (st2, True) \<Rightarrow>
            (insert_entry key
              \<lparr>me_key = key, me_vector = vector, me_metadata = md, me_created_at = now, me_access_count = 0,
               me_relevance = Fin 1, me_expires_at = map_option (\<lambda>t. now + t) (so_ttl_seconds options),
               me_pinned = so_pinned options, me_byte_size = sz\<rparr> st2, Inr ())))"

definition store_default :: "map_order \<Rightarrow> nat \<Rightarrow> string \<Rightarrow> tensor \<Rightarrow> memory_metadata \<Rightarrow> store \<Rightarrow> store" where
  "store_default order now key vector md st = fst (store_with_options order now key vector md default_store_options st)"

section \<open>Reading\<close>

text \<open>\<open>incr\<close> is the rounded sum with 0.1.\<close>

definition get :: "(f32 \<Rightarrow> f32) \<Rightarrow> nat \<Rightarrow> string \<Rightarrow> store \<Rightarrow> store \<times> memory_entry option" where
  "get incr now key st =
    (case map_of (st_entries st) key of
       None \<Rightarrow> (st, None)
     | Some e \<Rightarrow>
         (if is_expired e now then (st, None)
          else (let e1 = e\<lparr>me_access_count := me_access_count e + 1, me_relevance := f32_min (incr (me_relevance e)) (Fin 1)\<rparr>
                in (st\<lparr>st_entries := al_put key e1 (st_entries st)\<rparr>, Some e1))))"

text \<open>The queries: \<open>sorder\<close> is the order of iteration over a set of keys.\<close>

type_synonym set_order = "string list \<Rightarrow> string list"

definition live_of :: "set_order \<Rightarrow> string list \<Rightarrow> nat \<Rightarrow> store \<Rightarrow> memory_entry list" where
  "live_of sorder ks now st = filter (\<lambda>e. \<not> is_expired e now) (List.map_filter (map_of (st_entries st)) (sorder ks))"

definition query_by_category :: "set_order \<Rightarrow> memory_category \<Rightarrow> nat \<Rightarrow> store \<Rightarrow> memory_entry list" where
  "query_by_category sorder cat now st = (case st_by_category st cat of None \<Rightarrow> [] | Some ks \<Rightarrow> live_of sorder ks now st)"

definition query_by_tag :: "set_order \<Rightarrow> string \<Rightarrow> nat \<Rightarrow> store \<Rightarrow> memory_entry list" where
  "query_by_tag sorder tag now st = (case st_by_tag st tag of None \<Rightarrow> [] | Some ks \<Rightarrow> live_of sorder ks now st)"

definition entry_count :: "store \<Rightarrow> nat" where
  "entry_count st = length (st_entries st)"

section \<open>Traces\<close>

text \<open>\<open>None\<close> is the panic of \<^verbatim>\<open>Vec::remove(0)\<close> on an empty vector.\<close>

definition record_trace :: "inspection_trace \<Rightarrow> store \<Rightarrow> store option" where
  "record_trace t st =
    (if st_max_traces st \<le> length (st_traces st)
     then (if st_traces st = [] then None else Some (st\<lparr>st_traces := tl (st_traces st) @ [t]\<rparr>))
     else Some (st\<lparr>st_traces := st_traces st @ [t]\<rparr>))"

definition get_traces :: "nat \<Rightarrow> store \<Rightarrow> inspection_trace list" where
  "get_traces last_n st = drop (length (st_traces st) - last_n) (st_traces st)"

definition get_trace_by_request :: "string \<Rightarrow> store \<Rightarrow> inspection_trace option" where
  "get_trace_by_request rid st = find (\<lambda>t. it_request_id t = rid) (rev (st_traces st))"

section \<open>The injection vector\<close>

record f32_math = f32_ops +
  f_sqrt :: "f32 \<Rightarrow> f32"
  f_of_nat :: "nat \<Rightarrow> f32"
  f_lit :: "rat \<Rightarrow> f32"
  f_to_u64 :: "f32 \<Rightarrow> 64 word"

definition dot :: "f32_math \<Rightarrow> tensor \<Rightarrow> tensor \<Rightarrow> f32" where
  "dot m a b = foldl (f_add m) (Fin 0) (map2 (f_mul m) a b)"

definition vector_norm :: "f32_math \<Rightarrow> tensor \<Rightarrow> f32" where
  "vector_norm m v = f_sqrt m (dot m v v)"

definition cosine_similarity :: "f32_math \<Rightarrow> tensor \<Rightarrow> tensor \<Rightarrow> f32" where
  "cosine_similarity m a b =
    (if length a \<noteq> length b \<or> a = [] then Fin 0
     else
       (let na = vector_norm m a; nb = vector_norm m b
        in if na = Fin 0 \<or> nb = Fin 0 then Fin 0 else f_div m (dot m a b) (f_mul m na nb)))"

text \<open>A stable sort, descending; the comparison of the source is a weight order as long as no score is a NaN.\<close>

fun insert_desc :: "('a \<Rightarrow> f32) \<Rightarrow> 'a \<Rightarrow> 'a list \<Rightarrow> 'a list" where
  "insert_desc f x [] = [x]"
| "insert_desc f x (y # ys) = (if f32_lt (f x) (f y) then y # insert_desc f x ys else x # y # ys)"

definition sort_desc :: "('a \<Rightarrow> f32) \<Rightarrow> 'a list \<Rightarrow> 'a list" where
  "sort_desc f xs = foldr (insert_desc f) xs []"

definition memory_score :: "f32_math \<Rightarrow> nat \<Rightarrow> tensor \<Rightarrow> memory_entry \<Rightarrow> f32" where
  "memory_score m now query e =
    (let recency = f_div m (Fin 1) (f_add m (Fin 1) (f_div m (f_of_nat m (now - me_created_at e)) (Fin 3600)))
     in f_add m (f_add m (f_mul m (cosine_similarity m (me_vector e) query) (f_lit m (7 / 10)))
          (f_mul m (me_relevance e) (f_lit m (2 / 10)))) (f_mul m recency (f_lit m (1 / 10))))"

fun blend :: "f32_math \<Rightarrow> nat \<Rightarrow> (memory_entry \<times> f32) list \<Rightarrow> tensor \<Rightarrow> f32 \<Rightarrow> tensor \<times> f32" where
  "blend m d [] res weight = (res, weight)"
| "blend m d ((e, score) # es) res weight =
    (if length (me_vector e) = d \<and> f32_lt (f_lit m (1 / 10 ^ 6)) (vector_norm m (me_vector e))
     then blend m d es (map2 (\<lambda>r v. f_add m r (f_mul m score v)) res (me_vector e)) (f_add m weight score)
     else blend m d es res weight)"

definition build_injection_vector ::
  "f32_math \<Rightarrow> map_order \<Rightarrow> nat \<Rightarrow> tensor \<Rightarrow> nat \<Rightarrow> f32 \<Rightarrow> store \<Rightarrow> tensor option" where
  "build_injection_vector m order now query max_memories alpha st =
    (let live = filter (\<lambda>e. \<not> is_expired e now) (map snd (order (st_entries st))) in
     if live = [] then None
     else
       (let scored = take max_memories (sort_desc snd (map (\<lambda>e. (e, memory_score m now query e)) live)) in
        if scored = [] then None
        else
          (let d = length (me_vector (fst (hd scored)));
               (res, weight) = blend m d scored (replicate d (Fin 0)) (Fin 0)
           in if f32_lt (Fin 0) weight then Some (map (\<lambda>r. f_mul m (f_div m r weight) alpha) res) else None)))"

definition from_hidden_state :: "f32_math \<Rightarrow> nat \<Rightarrow> nat \<Rightarrow> tensor \<Rightarrow> layer_snapshot" where
  "from_hidden_state m layer loop_idx h =
    \<lparr>ls_layer_idx = layer, ls_loop_idx = loop_idx, ls_norm = vector_norm m h,
     ls_hash = foldl (\<lambda>acc v. acc + f_to_u64 m (f_mul m v (Fin 1000))) 0 (take 64 h),
     ls_top_activations = take 10 (sort_desc snd (zip [0 ..< length h] (map f32_abs h))),
     ls_interpretation = ''''\<rparr>"

section \<open>The invariant of the store\<close>

definition index_get :: "('k \<rightharpoonup> string list) \<Rightarrow> 'k \<Rightarrow> string set" where
  "index_get ix k = (case ix k of None \<Rightarrow> {} | Some ks \<Rightarrow> set ks)"

lemma index_get_del [simp]: "index_get (index_del k key ix) j = (if j = k then index_get ix j - {key} else index_get ix j)"
  by (auto simp: index_get_def index_del_def split: option.splits)

lemma index_get_add [simp]: "index_get (index_add k key ix) j = (if j = k then insert key (index_get ix j) else index_get ix j)"
  by (auto simp: index_get_def index_add_def split: option.splits)

lemma index_get_del_all [simp]:
  "index_get (fold (\<lambda>t. index_del t key) ts ix) j = (if j \<in> set ts then index_get ix j - {key} else index_get ix j)"
  by (induction ts arbitrary: ix) auto

lemma index_get_add_all [simp]:
  "index_get (fold (\<lambda>t. index_add t key) ts ix) j = (if j \<in> set ts then insert key (index_get ix j) else index_get ix j)"
  by (induction ts arbitrary: ix) auto

definition in_category :: "memory_category \<Rightarrow> memory_entry \<Rightarrow> nat" where
  "in_category cat e = (if md_category (me_metadata e) = cat then me_byte_size e else 0)"

definition entry_ok :: "string \<Rightarrow> memory_entry \<Rightarrow> bool" where
  "entry_ok k e = (me_key e = k \<and> me_byte_size e = 4 * length (me_vector e) \<and> me_relevance e = Fin 1)"

definition store_inv :: "store \<Rightarrow> bool" where
  "store_inv st =
    (al_ok (st_entries st) \<and> (\<forall>(k, e)\<in>set (st_entries st). entry_ok k e) \<and>
     st_bytes_used st = sum_list (map (me_byte_size \<circ> snd) (st_entries st)) \<and>
     (\<forall>cat. category_used cat st = sum_list (map (in_category cat \<circ> snd) (st_entries st))) \<and>
     (\<forall>cat. index_get (st_by_category st) cat = {k. \<exists>e. map_of (st_entries st) k = Some e \<and> md_category (me_metadata e) = cat}) \<and>
     (\<forall>tag. index_get (st_by_tag st) tag = {k. \<exists>e. map_of (st_entries st) k = Some e \<and> tag \<in> set (md_tags (me_metadata e))}) \<and>
     st_bytes_used st \<le> st_byte_budget st \<and> (\<forall>cat. category_used cat st \<le> category_budget cat st) \<and>
     length (st_entries st) \<le> st_max_entries st)"

lemma store_invD [inv_elims]:
  assumes "store_inv st"
  shows "al_ok (st_entries st)" "\<And>k e. (k, e) \<in> set (st_entries st) \<Longrightarrow> entry_ok k e"
    "st_bytes_used st = sum_list (map (me_byte_size \<circ> snd) (st_entries st))"
    "\<And>cat. category_used cat st = sum_list (map (in_category cat \<circ> snd) (st_entries st))"
    "\<And>cat. index_get (st_by_category st) cat = {k. \<exists>e. map_of (st_entries st) k = Some e \<and> md_category (me_metadata e) = cat}"
    "\<And>tag. index_get (st_by_tag st) tag = {k. \<exists>e. map_of (st_entries st) k = Some e \<and> tag \<in> set (md_tags (me_metadata e))}"
    "st_bytes_used st \<le> st_byte_budget st" "\<And>cat. category_used cat st \<le> category_budget cat st"
    "length (st_entries st) \<le> st_max_entries st"
  using assms unfolding store_inv_def by auto

definition same_config :: "store \<Rightarrow> store \<Rightarrow> bool" where
  "same_config st st' = (st_traces st' = st_traces st \<and> st_max_entries st' = st_max_entries st \<and> st_max_traces st' = st_max_traces st \<and>
     st_byte_budget st' = st_byte_budget st \<and> st_category_budgets st' = st_category_budgets st)"

lemma same_config_refl [simp]: "same_config st st"
  by (simp add: same_config_def)

lemma same_config_trans: "same_config a b \<Longrightarrow> same_config b c \<Longrightarrow> same_config a c"
  by (simp add: same_config_def)

lemma same_config_budget: "same_config st st' \<Longrightarrow> category_budget cat st' = category_budget cat st"
  by (auto simp: same_config_def category_budget_def split: option.split)

lemma with_budget_inv: "store_inv (with_budget me mt bb cb)"
  by (simp add: store_inv_def with_budget_def category_used_def index_get_def)

lemma remove_internal_entries: "st_entries (fst (remove_internal key st)) = al_del key (st_entries st)"
proof (cases "map_of (st_entries st) key")
  case None
  then have "key \<notin> fst ` set (st_entries st)" by (simp add: map_of_eq_None_iff)
  then show ?thesis using None by (simp add: remove_internal_def)
qed (simp add: remove_internal_def Let_def)

lemma remove_internal_config: "same_config st (fst (remove_internal key st))"
  by (simp add: remove_internal_def same_config_def Let_def split: option.split)

lemma remove_internal_flag: "snd (remove_internal key st) = (key \<in> fst ` set (st_entries st))"
proof (cases "map_of (st_entries st) key")
  case None
  then have "snd (remove_internal key st) = False" by (simp add: remove_internal_def)
  moreover have "key \<notin> fst ` set (st_entries st)" using None by (simp add: map_of_eq_None_iff)
  ultimately show ?thesis by simp
next
  case (Some e)
  then show ?thesis using map_of_SomeD [OF Some] by (force simp: remove_internal_def Let_def)
qed

lemma remove_internal_inv:
  assumes inv: "store_inv st"
  shows "store_inv (fst (remove_internal key st))"
proof (cases "map_of (st_entries st) key")
  case None
  then show ?thesis using inv by (simp add: remove_internal_def)
next
  case (Some e)
  note I = store_invD [OF inv]
  let ?cat = "md_category (me_metadata e)" and ?st = "fst (remove_internal key st)"
  have fields: "st_entries ?st = al_del key (st_entries st)" "st_bytes_used ?st = st_bytes_used st - me_byte_size e"
    "st_by_category ?st = index_del ?cat key (st_by_category st)"
    "st_by_tag ?st = fold (\<lambda>tag. index_del tag key) (md_tags (me_metadata e)) (st_by_tag st)"
    "\<And>cat. category_used cat ?st = (if cat = ?cat then category_used cat st - me_byte_size e else category_used cat st)"
    using Some by (auto simp: remove_internal_def category_used_def Let_def split: option.splits)
  have cfg: "same_config st ?st" by (rule remove_internal_config)
  have sums: "sum_list (map (f \<circ> snd) (al_del key (st_entries st))) = sum_list (map (f \<circ> snd) (st_entries st)) - f e"
    for f :: "memory_entry \<Rightarrow> nat"
    using al_sum_del [OF I(1) Some, of f] by simp
  have used: "category_used cat ?st = sum_list (map (in_category cat \<circ> snd) (st_entries ?st))" for cat
    unfolding fields sums using I(4) [of cat] by (cases "cat = ?cat") (simp_all add: in_category_def)
  have le: "category_used cat ?st \<le> category_used cat st" for cat by (simp add: fields)
  show ?thesis
    unfolding store_inv_def
  proof (intro conjI allI)
    show "al_ok (st_entries ?st)" unfolding fields using I(1) by simp
    show "\<forall>(k, e)\<in>set (st_entries ?st). entry_ok k e" unfolding fields using I(2) by (auto simp: set_al_del)
    show "st_bytes_used ?st = sum_list (map (me_byte_size \<circ> snd) (st_entries ?st))" unfolding fields sums I(3) ..
    show "category_used cat ?st = sum_list (map (in_category cat \<circ> snd) (st_entries ?st))" for cat by (rule used)
    show "index_get (st_by_category ?st) cat = {k. \<exists>e. map_of (st_entries ?st) k = Some e \<and> md_category (me_metadata e) = cat}" for cat
      unfolding fields index_get_del I(5) using Some by auto
    show "index_get (st_by_tag ?st) tag = {k. \<exists>e. map_of (st_entries ?st) k = Some e \<and> tag \<in> set (md_tags (me_metadata e))}" for tag
      unfolding fields index_get_del_all I(6) using Some by auto
    show "st_bytes_used ?st \<le> st_byte_budget ?st" using I(7) cfg unfolding fields by (simp add: same_config_def)
    show "category_used cat ?st \<le> category_budget cat ?st" for cat
      using order_trans [OF le I(8)] by (simp add: same_config_budget [OF cfg])
    show "length (st_entries ?st) \<le> st_max_entries ?st"
      using I(9) cfg unfolding fields by (auto simp: same_config_def al_del_def intro: order_trans [OF length_filter_le])
  qed
qed

lemma first_min_None [simp]: "first_min f xs = None \<longleftrightarrow> xs = []"
  by (cases xs) (auto split: option.splits)

lemma first_min_in: "first_min f xs = Some y \<Longrightarrow> y \<in> set xs"
  by (induction xs arbitrary: y) (auto split: option.splits if_splits)

lemma insert_entry_inv:
  assumes inv: "store_inv st" and new: "key \<notin> fst ` set (st_entries st)" and ok: "entry_ok key e"
    and room: "fits (me_byte_size e) (md_category (me_metadata e)) (category_budget (md_category (me_metadata e)) st) st"
  shows "store_inv (insert_entry key e st)"
proof -
  note I = store_invD [OF inv]
  let ?cat = "md_category (me_metadata e)" and ?st = "insert_entry key e st"
  have none: "map_of (st_entries st) key = None" using new by (simp add: map_of_eq_None_iff)
  have fields: "st_entries ?st = al_put key e (st_entries st)" "st_bytes_used ?st = st_bytes_used st + me_byte_size e"
    "st_by_category ?st = index_add ?cat key (st_by_category st)"
    "st_by_tag ?st = fold (\<lambda>tag. index_add tag key) (md_tags (me_metadata e)) (st_by_tag st)"
    "\<And>cat. category_used cat ?st = category_used cat st + (if cat = ?cat then me_byte_size e else 0)"
    "\<And>cat. category_budget cat ?st = category_budget cat st" "st_byte_budget ?st = st_byte_budget st" "st_max_entries ?st = st_max_entries st"
    by (auto simp: insert_entry_def category_used_def category_budget_def Let_def split: option.split)
  have sums: "sum_list (map (f \<circ> snd) (al_put key e (st_entries st))) = sum_list (map (f \<circ> snd) (st_entries st)) + f e"
    for f :: "memory_entry \<Rightarrow> nat"
    by (rule al_sum_put_fresh [OF none])
  note R = room [unfolded fits_def]
  show ?thesis
    unfolding store_inv_def
  proof (intro conjI allI)
    show "al_ok (st_entries ?st)" unfolding fields using I(1) by simp
    show "\<forall>(k, e)\<in>set (st_entries ?st). entry_ok k e" unfolding fields using I(1,2) ok by (auto simp: set_al_put)
    show "st_bytes_used ?st = sum_list (map (me_byte_size \<circ> snd) (st_entries ?st))" unfolding fields sums I(3) ..
    show "category_used cat ?st = sum_list (map (in_category cat \<circ> snd) (st_entries ?st))" for cat
      unfolding fields sums I(4) by (simp add: in_category_def)
    show "index_get (st_by_category ?st) cat = {k. \<exists>e. map_of (st_entries ?st) k = Some e \<and> md_category (me_metadata e) = cat}" for cat
      unfolding fields index_get_add I(5) using none by auto
    show "index_get (st_by_tag ?st) tag = {k. \<exists>e. map_of (st_entries ?st) k = Some e \<and> tag \<in> set (md_tags (me_metadata e))}" for tag
      unfolding fields index_get_add_all I(6) using none by auto
    show "st_bytes_used ?st \<le> st_byte_budget ?st" unfolding fields using R by simp
    show "category_used cat ?st \<le> category_budget cat ?st" for cat unfolding fields using R I(8) [of cat] by auto
    show "length (st_entries ?st) \<le> st_max_entries ?st" unfolding fields using R al_put_fresh [OF new] by simp
  qed
qed

section \<open>Making room\<close>

definition good_order :: "map_order \<Rightarrow> bool" where
  "good_order order = (\<forall>xs. mset (order xs) = mset xs)"

lemma good_order_set: "good_order order \<Longrightarrow> set (order xs) = set xs"
  unfolding good_order_def by (metis mset_eq_setD)

definition shrunk :: "nat \<Rightarrow> store \<Rightarrow> store \<Rightarrow> bool" where
  "shrunk now st st' =
    (set (st_entries st') \<subseteq> set (st_entries st) \<and> same_config st st' \<and>
     (\<forall>(k, e)\<in>set (st_entries st). me_pinned e \<and> \<not> is_expired e now \<longrightarrow> (k, e) \<in> set (st_entries st')))"

lemma shrunk_refl [simp]: "shrunk now st st"
  by (auto simp: shrunk_def)

lemma shrunk_trans: "shrunk now a b \<Longrightarrow> shrunk now b c \<Longrightarrow> shrunk now a c"
  unfolding shrunk_def by (auto intro: same_config_trans)

lemma shrunk_remove:
  assumes "al_ok (st_entries st)" "(k, e) \<in> set (st_entries st)" "\<not> me_pinned e \<or> is_expired e now"
  shows "shrunk now st (fst (remove_internal k st))"
  unfolding shrunk_def remove_internal_entries
  using assms remove_internal_config [of st k] by (auto simp: set_al_del dest: eq_key_imp_eq_value)

lemma length_remove:
  assumes "al_ok (st_entries st)" "(k, e) \<in> set (st_entries st)"
  shows "length (st_entries (fst (remove_internal k st))) < length (st_entries st)"
  unfolding remove_internal_entries by (rule length_al_del_less) (use assms(2) in force)

lemma drop_one_expired_cases:
  assumes "good_order order" "drop_one_expired order now st = (st', dropped)"
  shows "if dropped then \<exists>k e. (k, e) \<in> set (st_entries st) \<and> is_expired e now \<and> st' = fst (remove_internal k st)
    else st' = st \<and> (\<forall>(k, e)\<in>set (st_entries st). \<not> is_expired e now)"
proof (cases "find (\<lambda>(k, e). is_expired e now) (order (st_entries st))")
  case None
  then have "st' = st" "\<not> dropped" using assms(2) by (auto simp: drop_one_expired_def)
  then show ?thesis using None good_order_set [OF assms(1)] by (auto simp: find_None_iff)
next
  case (Some ke)
  obtain k e where ke: "ke = (k, e)" by (cases ke)
  have "ke \<in> set (order (st_entries st)) \<and> is_expired (snd ke) now"
    using Some by (auto simp: find_Some_iff split_beta)
  then have "(k, e) \<in> set (st_entries st)" "is_expired e now" using good_order_set [OF assms(1)] ke by auto
  moreover have "st' = fst (remove_internal k st)" "dropped" using assms(2) Some ke by (auto simp: drop_one_expired_def)
  ultimately show ?thesis by auto
qed

lemma lowest_score_None:
  assumes "good_order order"
  shows "lowest_score_key order only st = None \<longleftrightarrow>
    (\<forall>(k, e)\<in>set (st_entries st). me_pinned e \<or> (\<exists>cat. only = Some cat \<and> md_category (me_metadata e) \<noteq> cat))"
  unfolding lowest_score_key_def
  by (auto simp: filter_empty_conv good_order_set [OF assms] split: option.splits)

lemma lowest_score_Some:
  assumes "good_order order" "lowest_score_key order only st = Some key"
  shows "\<exists>e. (key, e) \<in> set (st_entries st) \<and> \<not> me_pinned e \<and> (\<forall>cat. only = Some cat \<longrightarrow> md_category (me_metadata e) = cat)"
  using assms(2) unfolding lowest_score_key_def
  by (auto dest!: first_min_in simp: good_order_set [OF assms(1)] split: option.splits)

lemma evict_one_cases:
  assumes "good_order order" "evict_one order (Some cat) st = (st', evicted)"
  shows "if evicted then \<exists>k e. (k, e) \<in> set (st_entries st) \<and> \<not> me_pinned e \<and> st' = fst (remove_internal k st)
    else st' = st \<and> (\<forall>(k, e)\<in>set (st_entries st). me_pinned e)"
proof (cases "lowest_score_key order (Some cat) st")
  case (Some key)
  then show ?thesis using assms(2) lowest_score_Some [OF assms(1) Some] by (auto simp: evict_one_def)
next
  case None
  show ?thesis
  proof (cases "lowest_score_key order None st")
    case (Some key)
    then show ?thesis using assms(2) None lowest_score_Some [OF assms(1) Some] by (auto simp: evict_one_def)
  next
    case none: None
    then show ?thesis using assms(2) None lowest_score_None [OF assms(1), of None st] by (auto simp: evict_one_def)
  qed
qed

lemma make_space_correct:
  assumes ord: "good_order order"
  shows "store_inv st \<Longrightarrow> length (st_entries st) \<le> fuel \<Longrightarrow> make_space fuel order now sz cat cb st = (st', ok) \<Longrightarrow>
    store_inv st' \<and> shrunk now st st' \<and> (ok \<longleftrightarrow> fits sz cat cb st') \<and>
    (\<not> ok \<longrightarrow> (\<forall>(k, e)\<in>set (st_entries st'). me_pinned e \<and> \<not> is_expired e now))"
proof (induction fuel arbitrary: st)
  case 0
  then show ?case by (subst (asm) make_space.simps) (auto split: if_splits)
next
  case (Suc f)
  have gone: ?case
    if k: "(k, e) \<in> set (st_entries st)" "\<not> me_pinned e \<or> is_expired e now"
      and run: "make_space f order now sz cat cb (fst (remove_internal k st)) = (st', ok)" for k e
  proof -
    have al: "al_ok (st_entries st)" by (rule store_invD(1) [OF Suc.prems(1)])
    have "length (st_entries (fst (remove_internal k st))) \<le> f" using length_remove [OF al k(1)] Suc.prems(2) by simp
    from Suc.IH [OF remove_internal_inv [OF Suc.prems(1)] this run] show ?thesis
      using shrunk_trans [OF shrunk_remove [OF al k]] by blast
  qed
  obtain st1 dr where d: "drop_one_expired order now st = (st1, dr)" by fastforce
  note D = drop_one_expired_cases [OF ord d]
  show ?case
  proof (cases "fits sz cat cb st")
    case True
    then show ?thesis using Suc.prems by (subst (asm) make_space.simps) auto
  next
    case nofit: False
    show ?thesis
    proof (cases dr)
      case True
      then obtain k e where "(k, e) \<in> set (st_entries st)" "is_expired e now" "st1 = fst (remove_internal k st)" using D by auto
      moreover have "make_space (Suc f) order now sz cat cb st = make_space f order now sz cat cb st1"
        using nofit d True by (subst make_space.simps) simp
      ultimately show ?thesis using gone [of k e] Suc.prems(3) by auto
    next
      case nodrop: False
      then have st1: "st1 = st" "\<forall>(k, e)\<in>set (st_entries st). \<not> is_expired e now" using D by auto
      obtain st2 ev where e: "evict_one order (Some cat) st = (st2, ev)" by fastforce
      note V = evict_one_cases [OF ord e]
      have run: "(case ev of True \<Rightarrow> make_space f order now sz cat cb st2 | False \<Rightarrow> (st2, False)) = (st', ok)"
        using Suc.prems(3) nofit d nodrop st1(1) e by (subst (asm) make_space.simps) (simp split: bool.splits)
      show ?thesis
      proof (cases ev)
        case True
        then obtain k x where "(k, x) \<in> set (st_entries st)" "\<not> me_pinned x" "st2 = fst (remove_internal k st)" using V by auto
        then show ?thesis using gone [of k x] run True by auto
      next
        case False
        then have "st' = st" "\<not> ok" "\<forall>(k, e)\<in>set (st_entries st). me_pinned e" using V run by auto
        then show ?thesis using Suc.prems(1) nofit st1(2) by auto
      qed
    qed
  qed
qed

section \<open>What the operations do\<close>

definition new_entry :: "nat \<Rightarrow> string \<Rightarrow> tensor \<Rightarrow> memory_metadata \<Rightarrow> store_options \<Rightarrow> memory_entry" where
  "new_entry now key vector md options =
    \<lparr>me_key = key, me_vector = vector, me_metadata = md, me_created_at = now, me_access_count = 0,
     me_relevance = Fin 1, me_expires_at = map_option (\<lambda>t. now + t) (so_ttl_seconds options),
     me_pinned = so_pinned options, me_byte_size = length vector * 4\<rparr>"

lemma new_entry_simps [simp]:
  "me_vector (new_entry now key vector md options) = vector" "me_metadata (new_entry now key vector md options) = md"
  "me_pinned (new_entry now key vector md options) = so_pinned options" "me_byte_size (new_entry now key vector md options) = length vector * 4"
  "me_expires_at (new_entry now key vector md options) = map_option (\<lambda>t. now + t) (so_ttl_seconds options)"
  "me_key (new_entry now key vector md options) = key" "me_created_at (new_entry now key vector md options) = now"
  by (simp_all add: new_entry_def)

lemma shrunk_kept:
  assumes "shrunk now st st'" "al_ok (st_entries st)" "al_ok (st_entries st')"
  shows "map_of (st_entries st') k = Some e \<Longrightarrow> map_of (st_entries st) k = Some e"
    "map_of (st_entries st) k = Some e \<Longrightarrow> me_pinned e \<Longrightarrow> \<not> is_expired e now \<Longrightarrow> map_of (st_entries st') k = Some e"
  using assms unfolding shrunk_def by (auto dest!: map_of_SomeD)

lemma insert_entry_entries: "st_entries (insert_entry key e st) = al_put key e (st_entries st)"
  by (simp add: insert_entry_def Let_def)

lemma insert_entry_config: "same_config st (insert_entry key e st)"
  by (simp add: insert_entry_def Let_def same_config_def)

lemma store_with_options_correct:
  assumes inv: "store_inv st" and ord: "good_order order"
    and run: "store_with_options order now key vector md options st = (st', res)"
  defines "sz \<equiv> length vector * 4" and "cb \<equiv> category_budget (md_category md) st"
  shows "store_inv st'" "same_config st st'"
    "res = Inl Oversize \<longleftrightarrow> cb < sz \<or> st_byte_budget st < sz" "res = Inl Oversize \<Longrightarrow> st' = st"
    "res = Inr () \<Longrightarrow> map_of (st_entries st') key = Some (new_entry now key vector md options)"
    "res = Inl Full \<Longrightarrow> map_of (st_entries st') key = None \<and> \<not> fits sz (md_category md) cb st' \<and>
       (\<forall>(k, e)\<in>set (st_entries st'). me_pinned e \<and> \<not> is_expired e now)"
    "\<And>k e. k \<noteq> key \<Longrightarrow> map_of (st_entries st') k = Some e \<Longrightarrow> map_of (st_entries st) k = Some e"
    "\<And>k e. k \<noteq> key \<Longrightarrow> map_of (st_entries st) k = Some e \<Longrightarrow> me_pinned e \<Longrightarrow> \<not> is_expired e now \<Longrightarrow>
       map_of (st_entries st') k = Some e"
proof -
  let ?st1 = "fst (remove_internal key st)"
  obtain st2 ok where ms: "make_space (length (st_entries ?st1)) order now sz (md_category md) cb ?st1 = (st2, ok)" by fastforce
  note M = make_space_correct [OF ord remove_internal_inv [OF inv] order_refl ms]
  have sh: "shrunk now ?st1 st2" and inv2: "store_inv st2" using M by auto
  note al = store_invD(1)
  have cfg: "same_config st st2" using sh remove_internal_config [of st key] unfolding shrunk_def by (blast intro: same_config_trans)
  have m1: "map_of (st_entries ?st1) = (map_of (st_entries st))(key := None)" by (simp add: remove_internal_entries)
  note K = shrunk_kept [OF sh al [OF remove_internal_inv [OF inv]] al [OF inv2], unfolded m1]
  have none: "map_of (st_entries st2) key = None" using K(1) [of key] by (cases "map_of (st_entries st2) key") auto
  have cb2: "category_budget (md_category md) st2 = cb" using same_config_budget [OF cfg] by (simp add: cb_def)
  let ?e = "new_entry now key vector md options"
  consider (over) "cb < sz \<or> st_byte_budget st < sz" "st' = st" "res = Inl Oversize"
    | (full) "\<not> (cb < sz \<or> st_byte_budget st < sz)" "\<not> ok" "st' = st2" "res = Inl Full"
    | (fine) "\<not> (cb < sz \<or> st_byte_budget st < sz)" "ok" "st' = insert_entry key ?e st2" "res = Inr ()"
    using run ms by (auto simp: store_with_options_def Let_def sz_def cb_def new_entry_def split: if_splits bool.splits)
  then have "store_inv st' \<and> same_config st st' \<and> (res = Inl Oversize \<longleftrightarrow> cb < sz \<or> st_byte_budget st < sz) \<and> (res = Inl Oversize \<longrightarrow> st' = st) \<and>
    (res = Inr () \<longrightarrow> map_of (st_entries st') key = Some ?e) \<and>
    (res = Inl Full \<longrightarrow> map_of (st_entries st') key = None \<and> \<not> fits sz (md_category md) cb st' \<and>
       (\<forall>(k, e)\<in>set (st_entries st'). me_pinned e \<and> \<not> is_expired e now)) \<and>
    (\<forall>k e. k \<noteq> key \<longrightarrow> map_of (st_entries st') k = Some e \<longrightarrow> map_of (st_entries st) k = Some e) \<and>
    (\<forall>k e. k \<noteq> key \<longrightarrow> map_of (st_entries st) k = Some e \<longrightarrow> me_pinned e \<longrightarrow> \<not> is_expired e now \<longrightarrow>
       map_of (st_entries st') k = Some e)"
  proof cases
    case over
    then show ?thesis using inv by simp
  next
    case full
    have "\<forall>k e. k \<noteq> key \<longrightarrow> map_of (st_entries st2) k = Some e \<longrightarrow> map_of (st_entries st) k = Some e"
      using K(1) by (metis fun_upd_other)
    moreover have "\<forall>k e. k \<noteq> key \<longrightarrow> map_of (st_entries st) k = Some e \<longrightarrow> me_pinned e \<longrightarrow> \<not> is_expired e now \<longrightarrow> map_of (st_entries st2) k = Some e"
      using K(2) by simp
    moreover have "\<not> fits sz (md_category md) cb st2" "\<forall>(k, e)\<in>set (st_entries st2). me_pinned e \<and> \<not> is_expired e now"
      using M full(2) by blast+
    moreover have "res \<noteq> Inl Oversize" "res \<noteq> Inr ()" using full(4) by simp_all
    ultimately show ?thesis using full(1) inv2 none cfg unfolding full(3) by blast
  next
    case fine
    have new: "key \<notin> fst ` set (st_entries st2)" using none by (simp add: map_of_eq_None_iff)
    have "store_inv (insert_entry key ?e st2)"
      by (rule insert_entry_inv [OF inv2 new])
         (use M fine(2) cb2 in \<open>simp_all add: entry_ok_def new_entry_def sz_def\<close>)
    moreover have "\<forall>k e. k \<noteq> key \<longrightarrow> map_of (st_entries st') k = Some e \<longrightarrow> map_of (st_entries st) k = Some e"
      using K(1) fine(3) by (metis fun_upd_other insert_entry_entries map_of_al_put)
    moreover have "\<forall>k e. k \<noteq> key \<longrightarrow> map_of (st_entries st) k = Some e \<longrightarrow> me_pinned e \<longrightarrow> \<not> is_expired e now \<longrightarrow> map_of (st_entries st') k = Some e"
      using K(2) fine(3) by (simp add: insert_entry_entries)
    moreover have "map_of (st_entries st') key = Some ?e" using fine(3) by (simp add: insert_entry_entries)
    moreover have "same_config st st'" using same_config_trans [OF cfg insert_entry_config] fine(3) by simp
    moreover have "res \<noteq> Inl Oversize" "res \<noteq> Inl Full" using fine(4) by simp_all
    ultimately show ?thesis using fine(1,3) by blast
  qed
  then show "store_inv st'" "same_config st st'"
    "res = Inl Oversize \<longleftrightarrow> cb < sz \<or> st_byte_budget st < sz" "res = Inl Oversize \<Longrightarrow> st' = st"
    "res = Inr () \<Longrightarrow> map_of (st_entries st') key = Some ?e"
    "res = Inl Full \<Longrightarrow> map_of (st_entries st') key = None \<and> \<not> fits sz (md_category md) cb st' \<and>
       (\<forall>(k, e)\<in>set (st_entries st'). me_pinned e \<and> \<not> is_expired e now)"
    "\<And>k e. k \<noteq> key \<Longrightarrow> map_of (st_entries st') k = Some e \<Longrightarrow> map_of (st_entries st) k = Some e"
    "\<And>k e. k \<noteq> key \<Longrightarrow> map_of (st_entries st) k = Some e \<Longrightarrow> me_pinned e \<Longrightarrow> \<not> is_expired e now \<Longrightarrow>
       map_of (st_entries st') k = Some e" by blast+
qed

text \<open>Restoring a live entry under its key, with the same vector and category, always succeeds.\<close>

lemma store_same_size:
  assumes inv: "store_inv st" and ord: "good_order order" and e: "map_of (st_entries st) key = Some e"
    and v: "length vector = length (me_vector e)" "md_category md = md_category (me_metadata e)"
  shows "snd (store_with_options order now key vector md options st) = Inr ()"
proof -
  note I = store_invD [OF inv]
  let ?cat = "md_category md" and ?st1 = "fst (remove_internal key st)" and ?sz = "length vector * 4"
  note I1 = store_invD [OF remove_internal_inv [OF inv, of key]]
  have sz: "me_byte_size e = ?sz" using I(2) [OF map_of_SomeD [OF e]] v by (simp add: entry_ok_def)
  have b: "st_bytes_used ?st1 + ?sz = st_bytes_used st"
    using al_sum_del [OF I(1) e, of me_byte_size] sz I(3) I1(3) by (simp add: remove_internal_entries)
  have c: "category_used ?cat ?st1 + ?sz = category_used ?cat st"
    using al_sum_del [OF I(1) e, of "in_category ?cat"] sz v I(4) [of ?cat] I1(4) [of ?cat]
    by (simp add: remove_internal_entries in_category_def)
  have l: "length (st_entries ?st1) < st_max_entries ?st1"
    using length_remove [OF I(1) map_of_SomeD [OF e]] I(9) remove_internal_config [of st key] by (simp add: same_config_def)
  have cfg: "st_byte_budget ?st1 = st_byte_budget st" using remove_internal_config [of st key] by (simp add: same_config_def)
  have f: "fits ?sz ?cat (category_budget ?cat st) ?st1"
    using b c l cfg I(7) I(8) [of ?cat] by (simp add: fits_def)
  have "make_space n order now ?sz ?cat (category_budget ?cat st) ?st1 = (?st1, True)" for n
    using f by (subst make_space.simps) simp
  moreover have "\<not> (category_budget ?cat st < ?sz \<or> st_byte_budget st < ?sz)"
    using b c I(7) I(8) [of ?cat] by simp
  ultimately show ?thesis by (simp add: store_with_options_def Let_def)
qed

section \<open>The contract the clients of the store rely on\<close>

locale pinned_store =
  fixes lookup :: "'s \<Rightarrow> string \<Rightarrow> memory_entry option"
    and put :: "string \<Rightarrow> tensor \<Rightarrow> memory_metadata \<Rightarrow> store_options \<Rightarrow> 's \<Rightarrow> 's \<times> (store_error + unit)"
    and ok :: "'s \<Rightarrow> bool"
  assumes put_inv: "ok s \<Longrightarrow> put k v md opts s = (s', res) \<Longrightarrow> ok s'"
    and put_stores: "ok s \<Longrightarrow> put k v md opts s = (s', Inr ()) \<Longrightarrow>
      \<exists>e. lookup s' k = Some e \<and> me_vector e = v \<and> me_metadata e = md \<and> me_pinned e = so_pinned opts \<and>
        (so_ttl_seconds opts = None \<longrightarrow> me_expires_at e = None)"
    and put_keeps: "ok s \<Longrightarrow> put k v md opts s = (s', res) \<Longrightarrow> k' \<noteq> k \<Longrightarrow> lookup s k' = Some e \<Longrightarrow>
      me_pinned e \<Longrightarrow> me_expires_at e = None \<Longrightarrow> lookup s' k' = Some e"
    and put_adds_only: "ok s \<Longrightarrow> put k v md opts s = (s', res) \<Longrightarrow> k' \<noteq> k \<Longrightarrow> lookup s' k' = Some e \<Longrightarrow> lookup s k' = Some e"
    and put_same_size: "ok s \<Longrightarrow> lookup s k = Some e \<Longrightarrow> length v = length (me_vector e) \<Longrightarrow>
      md_category md = md_category (me_metadata e) \<Longrightarrow> snd (put k v md opts s) = Inr ()"
begin

text \<open>A durable entry: pinned, without expiry.\<close>

definition durable :: "'s \<Rightarrow> string \<Rightarrow> tensor \<Rightarrow> memory_metadata \<Rightarrow> bool" where
  "durable s k v md = (\<exists>e. lookup s k = Some e \<and> me_vector e = v \<and> me_metadata e = md \<and> me_pinned e \<and> me_expires_at e = None)"

lemma durable_put_other:
  assumes "ok s" "put k v md opts s = (s', res)" "k' \<noteq> k" "durable s k' v' md'"
  shows "durable s' k' v' md'"
  using assms put_keeps unfolding durable_def by blast

lemma durable_put:
  assumes "ok s" "put k v md \<lparr>so_pinned = True, so_ttl_seconds = None\<rparr> s = (s', Inr ())"
  shows "durable s' k v md"
  using put_stores [OF assms] unfolding durable_def by auto

text \<open>Replacing the metadata of a live entry, within its category, cannot fail.\<close>

lemma retag:
  assumes "ok s" "lookup s k = Some e" "md_category md = md_category (me_metadata e)"
    and "put k (me_vector e) md \<lparr>so_pinned = True, so_ttl_seconds = None\<rparr> s = (s', res)"
  shows "res = Inr ()" "ok s'" "durable s' k (me_vector e) md"
proof -
  show r: "res = Inr ()" using put_same_size [OF assms(1,2) refl assms(3), of "\<lparr>so_pinned = True, so_ttl_seconds = None\<rparr>"] assms(4) by simp
  show "ok s'" by (rule put_inv [OF assms(1,4)])
  show "durable s' k (me_vector e) md" using durable_put [OF assms(1)] assms(4) r by blast
qed

end

definition entry_of :: "store \<Rightarrow> string \<Rightarrow> memory_entry option" where
  "entry_of st k = map_of (st_entries st) k"

definition store_ok :: "map_order \<Rightarrow> store \<Rightarrow> bool" where
  "store_ok order st = (store_inv st \<and> good_order order)"

interpretation ms: pinned_store entry_of "store_with_options order now" "store_ok order" for order now
proof (unfold_locales, goal_cases)
  case (1 s k v md opts s' res)
  then show ?case using store_with_options_correct(1) by (auto simp: store_ok_def)
next
  case (2 s k v md opts s')
  then show ?case using store_with_options_correct(5) [of s order now k v md opts s' "Inr ()"] by (auto simp: store_ok_def entry_of_def)
next
  case (3 s k v md opts s' res k' e)
  then show ?case
    using store_with_options_correct(8) [of s order now k v md opts s' res k' e] by (auto simp: store_ok_def entry_of_def is_expired_def)
next
  case (4 s k v md opts s' res k' e)
  then show ?case using store_with_options_correct(7) [of s order now k v md opts s' res k' e] by (auto simp: store_ok_def entry_of_def)
next
  case (5 s k e v md opts)
  then show ?case using store_same_size [of s order k e v md now opts] by (auto simp: store_ok_def entry_of_def)
qed

lemma set_map_filter_eq: "set (List.map_filter f xs) = {y. \<exists>x\<in>set xs. f x = Some y}"
  by (induction xs) (auto simp: map_filter_simps split: option.splits)

lemma set_live_of:
  assumes "\<And>xs. set (sorder xs) = set xs"
  shows "set (live_of sorder ks now st) = {e. \<exists>k\<in>set ks. entry_of st k = Some e \<and> \<not> is_expired e now}"
  by (auto simp: live_of_def set_map_filter_eq assms entry_of_def)

lemma set_query_by_category:
  assumes "store_inv st" "\<And>xs. set (sorder xs) = set xs"
  shows "set (query_by_category sorder cat now st) =
    {e. \<exists>k. entry_of st k = Some e \<and> md_category (me_metadata e) = cat \<and> \<not> is_expired e now}"
proof -
  have "set (query_by_category sorder cat now st) = {e. \<exists>k\<in>index_get (st_by_category st) cat. entry_of st k = Some e \<and> \<not> is_expired e now}"
    by (simp add: query_by_category_def index_get_def set_live_of [of sorder, OF assms(2)] split: option.split)
  then show ?thesis unfolding store_invD(5) [OF assms(1)] by (auto simp: entry_of_def)
qed

lemma set_query_by_tag:
  assumes "store_inv st" "\<And>xs. set (sorder xs) = set xs"
  shows "set (query_by_tag sorder tag now st) =
    {e. \<exists>k. entry_of st k = Some e \<and> tag \<in> set (md_tags (me_metadata e)) \<and> \<not> is_expired e now}"
proof -
  have "set (query_by_tag sorder tag now st) = {e. \<exists>k\<in>index_get (st_by_tag st) tag. entry_of st k = Some e \<and> \<not> is_expired e now}"
    by (simp add: query_by_tag_def index_get_def set_live_of [of sorder, OF assms(2)] split: option.split)
  then show ?thesis unfolding store_invD(6) [OF assms(1)] by (auto simp: entry_of_def)
qed

lemma al_put_upd:
  "al_ok al \<Longrightarrow> map_of al k = Some v0 \<Longrightarrow> f v = f v0 \<Longrightarrow> map (f \<circ> snd) (al_put k v al) = map (f \<circ> snd) al"
  by (induction k v al rule: al_put.induct) auto

lemma get_correct:
  assumes inv: "store_inv st" and incr: "\<not> f32_lt (incr (Fin 1)) (Fin 1)" and run: "get incr now key st = (st', r)"
  shows "store_inv st'" "\<And>k. k \<noteq> key \<Longrightarrow> entry_of st' k = entry_of st k"
    "r = (case entry_of st key of Some e \<Rightarrow> if is_expired e now then None else Some (e\<lparr>me_access_count := me_access_count e + 1\<rparr>) | None \<Rightarrow> None)"
    "\<And>e. r = Some e \<Longrightarrow> entry_of st' key = Some e" "r = None \<Longrightarrow> st' = st"
proof -
  note I = store_invD [OF inv]
  have "store_inv st' \<and> (\<forall>k. k \<noteq> key \<longrightarrow> entry_of st' k = entry_of st k) \<and>
    r = (case entry_of st key of Some e \<Rightarrow> if is_expired e now then None else Some (e\<lparr>me_access_count := me_access_count e + 1\<rparr>) | None \<Rightarrow> None) \<and>
    (\<forall>e. r = Some e \<longrightarrow> entry_of st' key = Some e) \<and> (r = None \<longrightarrow> st' = st)"
  proof (cases "\<exists>e. map_of (st_entries st) key = Some e \<and> \<not> is_expired e now")
    case False
    then have "st' = st" "r = None" using run by (auto simp: get_def split: option.splits if_splits)
    then show ?thesis using False inv by (auto simp: entry_of_def split: option.splits)
  next
    case True
    then obtain e where e: "map_of (st_entries st) key = Some e" "\<not> is_expired e now" by blast
    have rel: "me_relevance e = Fin 1" using I(2) [OF map_of_SomeD [OF e(1)]] by (simp add: entry_ok_def)
    have one: "f32_min (incr (Fin 1)) (Fin 1) = Fin 1" using incr by (cases "incr (Fin 1)") (auto simp: f32_min_def)
    let ?e = "e\<lparr>me_access_count := me_access_count e + 1\<rparr>"
    have upd: "e\<lparr>me_access_count := n, me_relevance := Fin 1\<rparr> = e\<lparr>me_access_count := n\<rparr>" for n
      using rel by (cases e) simp
    have st': "st' = st\<lparr>st_entries := al_put key ?e (st_entries st)\<rparr>" "r = Some ?e"
      using run e rel one by (auto simp: get_def Let_def upd)
    have m: "map_of (st_entries st') = (map_of (st_entries st))(key \<mapsto> ?e)" by (simp add: st')
    have len: "map (f \<circ> snd) (al_put key ?e (st_entries st)) = map (f \<circ> snd) (st_entries st)" if "f ?e = f e" for f :: "memory_entry \<Rightarrow> nat"
      by (rule al_put_upd [where f = f and v = ?e, OF I(1) e(1) that])
    have l: "length (al_put key ?e (st_entries st)) = length (st_entries st)"
      using arg_cong [OF len [of "\<lambda>_. 0"], of length] by simp
    have used: "category_used cat st' = category_used cat st" for cat by (simp add: st' category_used_def)
    have bud: "category_budget cat st' = category_budget cat st" for cat by (simp add: st' category_budget_def split: option.split)
    have "store_inv st'"
      unfolding store_inv_def used bud
    proof (intro conjI allI)
      show "al_ok (st_entries st')" using I(1) by (simp add: st')
      show "\<forall>(k, e)\<in>set (st_entries st'). entry_ok k e"
        using I(1,2) I(2) [OF map_of_SomeD [OF e(1)]] by (auto simp: st' set_al_put entry_ok_def)
      show "st_bytes_used st' = sum_list (map (me_byte_size \<circ> snd) (st_entries st'))" using I(3) len [of me_byte_size] by (simp add: st')
      show "category_used cat st = sum_list (map (in_category cat \<circ> snd) (st_entries st'))" for cat
        using I(4) [of cat] len [of "in_category cat"] by (simp add: st' in_category_def)
      show "index_get (st_by_category st') cat = {k. \<exists>e. map_of (st_entries st') k = Some e \<and> md_category (me_metadata e) = cat}" for cat
        using I(5) [of cat] e(1) by (auto simp: st')
      show "index_get (st_by_tag st') tag = {k. \<exists>e. map_of (st_entries st') k = Some e \<and> tag \<in> set (md_tags (me_metadata e))}" for tag
        using I(6) [of tag] e(1) by (auto simp: st')
      show "st_bytes_used st' \<le> st_byte_budget st'" using I(7) by (simp add: st')
      show "category_used cat st \<le> category_budget cat st" for cat by (rule I(8))
      show "length (st_entries st') \<le> st_max_entries st'" using I(9) l by (simp add: st')
    qed
    then show ?thesis using e st' m by (simp add: entry_of_def)
  qed
  then show "store_inv st'" "\<And>k. k \<noteq> key \<Longrightarrow> entry_of st' k = entry_of st k"
    "r = (case entry_of st key of Some e \<Rightarrow> if is_expired e now then None else Some (e\<lparr>me_access_count := me_access_count e + 1\<rparr>) | None \<Rightarrow> None)"
    "\<And>e. r = Some e \<Longrightarrow> entry_of st' key = Some e" "r = None \<Longrightarrow> st' = st" by blast+
qed

section \<open>The properties of the store\<close>

definition demo_meta :: "memory_category \<Rightarrow> memory_metadata" where
  "demo_meta cat = \<lparr>md_source_request_id = ''r'', md_layer_captured = 0, md_category = cat, md_tags = [''t''], md_text_summary = ''s''\<rparr>"

definition demo_store :: store where
  "demo_store = fst (store_with_options id 0 ''old'' [Fin 1] (demo_meta Goal) \<lparr>so_pinned = True, so_ttl_seconds = None\<rparr>
     (fst (store_with_options id 0 ''note'' [Fin 1] (demo_meta Context) default_store_options (with_budget 2 1 64 Map.empty))))"

lemma demo_store_inv: "store_inv demo_store"
proof -
  have "good_order id" by (simp add: good_order_def)
  then show ?thesis
    unfolding demo_store_def
    by (metis prod.collapse store_with_options_correct(1) with_budget_inv)
qed

text \<open>
  C10: Storing keeps the accounting, the indexes and the budgets; it fails with \<open>Oversize\<close>, changing nothing, exactly when
  the vector exceeds a budget on its own; otherwise it stores the entry, or fails with \<open>Full\<close>, in which case every
  entry that is not pinned, and the one that had the key, is gone.  Other pinned entries that have not expired are
  never lost.
\<close>

theorem store_result:
  assumes "store_inv st" "good_order order" "store_with_options order now key vector md options st = (st', res)"
  shows "store_inv st' \<and>
    (res = Inl Oversize \<longleftrightarrow> category_budget (md_category md) st < length vector * 4 \<or> st_byte_budget st < length vector * 4) \<and>
    (case res of
       Inr _ \<Rightarrow> entry_of st' key = Some (new_entry now key vector md options)
     | Inl Oversize \<Rightarrow> st' = st
     | Inl Full \<Rightarrow> entry_of st' key = None \<and> (\<forall>k e. entry_of st' k = Some e \<longrightarrow> me_pinned e \<and> \<not> is_expired e now)) \<and>
    (\<forall>k e. k \<noteq> key \<longrightarrow> entry_of st k = Some e \<longrightarrow> me_pinned e \<longrightarrow> \<not> is_expired e now \<longrightarrow> entry_of st' k = Some e)"
proof -
  note S = store_with_options_correct [OF assms]
  have c: "case res of
       Inr _ \<Rightarrow> entry_of st' key = Some (new_entry now key vector md options)
     | Inl Oversize \<Rightarrow> st' = st
     | Inl Full \<Rightarrow> entry_of st' key = None \<and> (\<forall>k e. entry_of st' k = Some e \<longrightarrow> me_pinned e \<and> \<not> is_expired e now)"
  proof (cases res)
    case (Inl er)
    then show ?thesis
    proof (cases er)
      case Full
      then show ?thesis using S(6) Inl by (auto simp: entry_of_def dest: map_of_SomeD)
    qed (use S(4) in simp)
  next
    case (Inr u)
    then show ?thesis using S(5) by (simp add: entry_of_def)
  qed
  show ?thesis using S(1,3) c S(8) by (auto simp: entry_of_def)
qed

theorem store_result_witness:
  "\<exists>st'. store_with_options id 5 ''new'' [Fin 2] (demo_meta Goal) default_store_options demo_store = (st', Inr ()) \<and>
     entry_of st' ''new'' = Some (new_entry 5 ''new'' [Fin 2] (demo_meta Goal) default_store_options) \<and>
     entry_of st' ''old'' = entry_of demo_store ''old'' \<and> entry_of st' ''note'' = None"
proof -
  obtain st' res where r: "store_with_options id 5 ''new'' [Fin 2] (demo_meta Goal) default_store_options demo_store = (st', res)"
    by fastforce
  have g: "good_order id" by (simp add: good_order_def)
  have v: "snd (store_with_options id 5 ''new'' [Fin 2] (demo_meta Goal) default_store_options demo_store) = Inr ()"
    "map fst (st_entries (fst (store_with_options id 5 ''new'' [Fin 2] (demo_meta Goal) default_store_options demo_store))) = [''old'', ''new'']"
    by code_simp+
  have old: "map_option (\<lambda>e. (me_pinned e, is_expired e 5)) (entry_of demo_store ''old'') = Some (True, False)" by code_simp
  then obtain e where e: "entry_of demo_store ''old'' = Some e" "me_pinned e" "\<not> is_expired e 5" by auto
  note T = store_result [OF demo_store_inv g r]
  have "res = Inr ()" using v(1) r by simp
  moreover have "entry_of st' ''old'' = Some e" using T e by simp
  moreover have "''note'' \<notin> fst ` set (st_entries st')" using arg_cong [OF v(2), of set] r by simp
  ultimately show ?thesis using r T e by (simp add: entry_of_def map_of_eq_None_iff)
qed

text \<open>
  A query by category or by tag returns exactly the entries of that category or tag that have not expired: the
  indexes are never out of date.
\<close>

theorem queries_exact:
  assumes "store_inv st" "\<And>xs. set (sorder xs) = set xs"
  shows "set (query_by_category sorder cat now st) =
      {e. \<exists>k. entry_of st k = Some e \<and> md_category (me_metadata e) = cat \<and> \<not> is_expired e now} \<and>
    set (query_by_tag sorder tag now st) =
      {e. \<exists>k. entry_of st k = Some e \<and> tag \<in> set (md_tags (me_metadata e)) \<and> \<not> is_expired e now}"
  using set_query_by_category [of st sorder, OF assms] set_query_by_tag [of st sorder, OF assms] by simp

theorem queries_exact_witness:
  "{e. \<exists>k. entry_of demo_store k = Some e \<and> md_category (me_metadata e) = Goal \<and> \<not> is_expired e 9} =
    {new_entry 0 ''old'' [Fin 1] (demo_meta Goal) \<lparr>so_pinned = True, so_ttl_seconds = None\<rparr>}"
proof -
  have "query_by_category id Goal 9 demo_store =
    [new_entry 0 ''old'' [Fin 1] (demo_meta Goal) \<lparr>so_pinned = True, so_ttl_seconds = None\<rparr>]"
    by code_simp
  then show ?thesis
    using queries_exact [OF demo_store_inv, of id Goal 9] by auto
qed

text \<open>
  Reading an entry returns it with its access counted unless it has expired, and changes nothing else: the relevance score
  is 1 when an entry is stored and stays 1, so that eviction by the lowest score does not depend on use.
\<close>

theorem get_counts_access:
  assumes "store_inv st" "\<not> f32_lt (incr (Fin 1)) (Fin 1)" "get incr now key st = (st', r)"
  shows "store_inv st' \<and>
    r = (case entry_of st key of None \<Rightarrow> None
         | Some e \<Rightarrow> if is_expired e now then None else Some (e\<lparr>me_access_count := me_access_count e + 1\<rparr>)) \<and>
    (\<forall>k. entry_of st' k = (if k = key \<and> r \<noteq> None then r else entry_of st k)) \<and>
    (\<forall>k e. entry_of st' k = Some e \<longrightarrow> me_relevance e = Fin 1)"
proof -
  note G = get_correct [OF assms]
  have "entry_of st' k = (if k = key \<and> r \<noteq> None then r else entry_of st k)" for k
    using G(2) [of k] G(4,5) by (cases r) auto
  moreover have "me_relevance e = Fin 1" if "entry_of st' k = Some e" for k e
    using store_invD(2) [OF G(1)] that by (auto simp: entry_of_def entry_ok_def dest!: map_of_SomeD)
  ultimately show ?thesis using G(1,3) by blast
qed

theorem get_counts_access_witness:
  "map_option me_access_count (snd (get (\<lambda>x. Fin (11 / 10)) 3 ''old'' demo_store)) = Some 1"
proof -
  obtain st' r where r: "get (\<lambda>x. Fin (11 / 10)) 3 ''old'' demo_store = (st', r)" by fastforce
  have "map_option (\<lambda>e. (me_access_count e, is_expired e 3)) (entry_of demo_store ''old'') = Some (0, False)" by code_simp
  then obtain e where "entry_of demo_store ''old'' = Some e" "me_access_count e = 0" "\<not> is_expired e 3" by auto
  with get_counts_access [OF demo_store_inv _ r] show ?thesis using r by simp
qed

text \<open>
  The traces kept are the last \<open>max_traces\<close> ones; recording panics exactly for a store made for no traces at all.
\<close>

theorem record_trace_ring:
  assumes "length (st_traces st) \<le> st_max_traces st"
  shows "record_trace t st =
    (if st_max_traces st = 0 then None
     else Some (st\<lparr>st_traces := drop (Suc (length (st_traces st)) - st_max_traces st) (st_traces st @ [t])\<rparr>))"
proof (cases "st_max_traces st \<le> length (st_traces st)")
  case True
  then show ?thesis using assms by (cases "st_traces st") (auto simp: record_trace_def Suc_diff_le)
next
  case False
  then show ?thesis by (simp add: record_trace_def)
qed

definition demo_trace :: "string \<Rightarrow> inspection_trace" where
  "demo_trace r = \<lparr>it_request_id = r, it_layers = [], it_tokens = [], it_timestamp = 0\<rparr>"

theorem record_trace_ring_witness:
  "record_trace (demo_trace ''b'') (demo_store\<lparr>st_traces := [demo_trace ''a'']\<rparr>) = Some (demo_store\<lparr>st_traces := [demo_trace ''b'']\<rparr>)"
proof -
  have m: "st_max_traces demo_store = 1" by code_simp
  have "length (st_traces (demo_store\<lparr>st_traces := [demo_trace ''a'']\<rparr>)) \<le> st_max_traces (demo_store\<lparr>st_traces := [demo_trace ''a'']\<rparr>)"
    by (simp add: m)
  from record_trace_ring [OF this] show ?thesis by (simp add: m)
qed

end
