(* ===== verification/GoalManager.thy ===== *)
theory GoalManager
  imports MemoryStore
begin

text \<open>
  The goal manager (\<^verbatim>\<open>src/control_plane/goal_manager.rs\<close>): goals, tasks and status as entries of the memory store,
  marked by their tags, and their snapshot on disk.  The encoder, the UUIDs, the clock and the success of file
  operations are parameters; the snapshot file is its parsed contents, since \<^verbatim>\<open>serde_json\<close> is a library.  All reads of the clock
  in one operation give the same second.
\<close>

section \<open>Data\<close>

datatype task_status = Active | Done | Blocked

definition status_tag :: "task_status \<Rightarrow> string" where
  "status_tag s = (case s of Active \<Rightarrow> ''active'' | Done \<Rightarrow> ''done'' | Blocked \<Rightarrow> ''blocked'')"

definition from_tag :: "string \<Rightarrow> task_status option" where
  "from_tag t = (if t = ''active'' then Some Active else if t = ''done'' then Some Done
     else if t = ''blocked'' then Some Blocked else None)"

record goal =
  go_goal_id :: string
  go_text :: string
  go_is_current :: bool

record task =
  ta_task_id :: string
  ta_goal_id :: string
  ta_text :: string
  ta_status :: task_status

record status_entry =
  se_text :: string
  se_goal_id :: string

record goal_state =
  gs_current_goal :: "goal option"
  gs_active_tasks :: "task list"
  gs_latest_status :: "status_entry option"

record persisted_state =
  ps_goals :: "goal list"
  ps_tasks :: "task list"
  ps_status :: "status_entry option"

datatype disk_file = Missing | Unreadable | Corrupt | Saved persisted_state

record goal_env =
  ge_order :: map_order
  ge_sorder :: set_order
  ge_incr :: "f32 \<Rightarrow> f32"
  ge_encoder :: "(string \<Rightarrow> tensor option) option"
  ge_d_model :: nat
  ge_save_path :: bool
  ge_write_ok :: bool

record goal_manager =
  gm_store :: store
  gm_disk :: disk_file

definition tag_current :: string where
  "tag_current = ''current''"

definition status_ttl_seconds :: nat where
  "status_ttl_seconds = 3600"

definition d_model_placeholder :: nat where
  "d_model_placeholder = 4096"

definition pinned_no_ttl :: store_options where
  "pinned_no_ttl = \<lparr>so_pinned = True, so_ttl_seconds = None\<rparr>"

text \<open>\<^verbatim>\<open>strip_prefix\<close> of the first tag that has the prefix.\<close>

definition strip_prefix :: "string \<Rightarrow> string \<Rightarrow> string option" where
  "strip_prefix p s = (if take (length p) s = p then Some (drop (length p) s) else None)"

fun extract_id :: "string list \<Rightarrow> string \<Rightarrow> string option" where
  "extract_id [] p = None"
| "extract_id (t # ts) p = (case strip_prefix p t of Some r \<Rightarrow> Some r | None \<Rightarrow> extract_id ts p)"

definition id_of :: "string list \<Rightarrow> string \<Rightarrow> string" where
  "id_of tags p = (case extract_id tags p of Some r \<Rightarrow> r | None \<Rightarrow> [])"

fun status_of :: "string list \<Rightarrow> task_status" where
  "status_of [] = Active"
| "status_of (t # ts) = (case from_tag t of Some s \<Rightarrow> s | None \<Rightarrow> status_of ts)"

definition encode :: "goal_env \<Rightarrow> string \<Rightarrow> tensor" where
  "encode env text =
    (case ge_encoder env of
       None \<Rightarrow> replicate (ge_d_model env) (Fin 0)
     | Some enc \<Rightarrow>
         (case enc text of
            None \<Rightarrow> replicate (ge_d_model env) (Fin 0)
          | Some v \<Rightarrow> if v \<noteq> [] then v else replicate (ge_d_model env) (Fin 0)))"

section \<open>Reading the goals out of the store\<close>

abbreviation tags_of :: "memory_entry \<Rightarrow> string list" where
  "tags_of e \<equiv> md_tags (me_metadata e)"

definition is_current :: "memory_entry \<Rightarrow> bool" where
  "is_current e = (tag_current \<in> set (tags_of e))"

definition goal_of :: "memory_entry \<Rightarrow> goal" where
  "goal_of e = \<lparr>go_goal_id = id_of (tags_of e) ''goal:'', go_text = md_text_summary (me_metadata e), go_is_current = is_current e\<rparr>"

definition task_of :: "memory_entry \<Rightarrow> task" where
  "task_of e = \<lparr>ta_task_id = id_of (tags_of e) ''task:'', ta_goal_id = id_of (tags_of e) ''goal:'',
     ta_text = md_text_summary (me_metadata e), ta_status = status_of (tags_of e)\<rparr>"

definition status_entry_of :: "memory_entry \<Rightarrow> status_entry" where
  "status_entry_of e = \<lparr>se_text = md_text_summary (me_metadata e), se_goal_id = id_of (tags_of e) ''goal:''\<rparr>"

text \<open>\<^verbatim>\<open>max_by_key\<close>: the last of the greatest.\<close>

fun last_max :: "('a \<Rightarrow> nat) \<Rightarrow> 'a list \<Rightarrow> 'a option" where
  "last_max f [] = None"
| "last_max f (x # xs) = (case last_max f xs of None \<Rightarrow> Some x | Some y \<Rightarrow> if f x \<le> f y then Some y else Some x)"

definition list_goals :: "goal_env \<Rightarrow> nat \<Rightarrow> goal_manager \<Rightarrow> goal list" where
  "list_goals env now gm = map goal_of (query_by_category (ge_sorder env) Goal now (gm_store gm))"

definition current_goal :: "goal_env \<Rightarrow> nat \<Rightarrow> goal_manager \<Rightarrow> goal option" where
  "current_goal env now gm =
    map_option (\<lambda>e. (goal_of e)\<lparr>go_is_current := True\<rparr>)
      (find is_current (query_by_category (ge_sorder env) Goal now (gm_store gm)))"

definition list_tasks :: "goal_env \<Rightarrow> nat \<Rightarrow> string \<Rightarrow> goal_manager \<Rightarrow> task list" where
  "list_tasks env now goal_id gm =
    map (\<lambda>e. (task_of e)\<lparr>ta_goal_id := goal_id\<rparr>)
      (filter (\<lambda>e. md_category (me_metadata e) = Task) (query_by_tag (ge_sorder env) (''goal:'' @ goal_id) now (gm_store gm)))"

definition latest_status :: "goal_env \<Rightarrow> nat \<Rightarrow> goal_manager \<Rightarrow> status_entry option" where
  "latest_status env now gm =
    map_option status_entry_of (last_max me_created_at (query_by_category (ge_sorder env) Status now (gm_store gm)))"

definition get_state :: "goal_env \<Rightarrow> nat \<Rightarrow> goal_manager \<Rightarrow> goal_state" where
  "get_state env now gm =
    (let g = current_goal env now gm in
     \<lparr>gs_current_goal = g,
      gs_active_tasks = (case g of Some g0 \<Rightarrow> filter (\<lambda>t. ta_status t = Active) (list_tasks env now (go_goal_id g0) gm) | None \<Rightarrow> []),
      gs_latest_status = latest_status env now gm\<rparr>)"

definition newline :: string where
  "newline = [CHR 0x0A]"

definition build_prompt_prefix :: "goal_env \<Rightarrow> nat \<Rightarrow> goal_manager \<Rightarrow> string" where
  "build_prompt_prefix env now gm =
    (let s = get_state env now gm in
     if gs_current_goal s = None \<and> gs_active_tasks s = [] \<and> gs_latest_status s = None then []
     else (case gs_current_goal s of Some g \<Rightarrow> ''GOAL: '' @ go_text g @ newline | None \<Rightarrow> []) @
       (if gs_active_tasks s \<noteq> []
        then ''ACTIVE TASKS:'' @ newline @ concat (map (\<lambda>t. ''  - '' @ ta_text t @ newline) (gs_active_tasks s)) else []) @
       (case gs_latest_status s of Some x \<Rightarrow> ''STATUS: '' @ se_text x @ newline | None \<Rightarrow> []) @ newline)"

section \<open>Saving and restoring\<close>

definition snapshot_for_save :: "goal_env \<Rightarrow> nat \<Rightarrow> goal_manager \<Rightarrow> persisted_state" where
  "snapshot_for_save env now gm =
    \<lparr>ps_goals = map goal_of (query_by_category (ge_sorder env) Goal now (gm_store gm)),
     ps_tasks = map task_of (query_by_category (ge_sorder env) Task now (gm_store gm)),
     ps_status = map_option status_entry_of (last_max me_created_at (query_by_category (ge_sorder env) Status now (gm_store gm)))\<rparr>"

definition save :: "goal_env \<Rightarrow> nat \<Rightarrow> goal_manager \<Rightarrow> goal_manager" where
  "save env now gm = (if ge_save_path env \<and> ge_write_ok env then gm\<lparr>gm_disk := Saved (snapshot_for_save env now gm)\<rparr> else gm)"

definition put_entry :: "goal_env \<Rightarrow> nat \<Rightarrow> string \<Rightarrow> tensor \<Rightarrow> memory_metadata \<Rightarrow> store_options \<Rightarrow> store \<Rightarrow> store" where
  "put_entry env now key v md opts st = fst (store_with_options (ge_order env) now key v md opts st)"

definition goal_meta :: "string \<Rightarrow> bool \<Rightarrow> string \<Rightarrow> memory_metadata" where
  "goal_meta gid current text =
    \<lparr>md_source_request_id = ''goal:'' @ gid, md_layer_captured = 0, md_category = Goal,
     md_tags = [''goal:'' @ gid] @ (if current then [tag_current] else []), md_text_summary = text\<rparr>"

definition task_meta :: "string \<Rightarrow> string \<Rightarrow> task_status \<Rightarrow> string \<Rightarrow> memory_metadata" where
  "task_meta tid gid s text =
    \<lparr>md_source_request_id = ''task:'' @ tid, md_layer_captured = 0, md_category = Task,
     md_tags = [''goal:'' @ gid, ''task:'' @ tid, status_tag s], md_text_summary = text\<rparr>"

definition status_meta :: "string \<Rightarrow> string \<Rightarrow> memory_metadata" where
  "status_meta gid text =
    \<lparr>md_source_request_id = ''status:current'', md_layer_captured = 0, md_category = Status,
     md_tags = [''goal:'' @ gid], md_text_summary = text\<rparr>"

definition task_options :: "task_status \<Rightarrow> store_options" where
  "task_options s = (case s of Done \<Rightarrow> \<lparr>so_pinned = False, so_ttl_seconds = None\<rparr> | _ \<Rightarrow> pinned_no_ttl)"

definition restore_goal :: "goal_env \<Rightarrow> nat \<Rightarrow> goal \<Rightarrow> store \<Rightarrow> store" where
  "restore_goal env now g st =
    put_entry env now (''goal:'' @ go_goal_id g) (encode env (go_text g)) (goal_meta (go_goal_id g) (go_is_current g) (go_text g)) pinned_no_ttl st"

definition restore_task :: "goal_env \<Rightarrow> nat \<Rightarrow> task \<Rightarrow> store \<Rightarrow> store" where
  "restore_task env now t st =
    put_entry env now (''task:'' @ ta_task_id t) (encode env (ta_text t)) (task_meta (ta_task_id t) (ta_goal_id t) (ta_status t) (ta_text t))
      (task_options (ta_status t)) st"

definition restore_status :: "goal_env \<Rightarrow> nat \<Rightarrow> status_entry \<Rightarrow> store \<Rightarrow> store" where
  "restore_status env now s st =
    put_entry env now ''status:current'' (encode env (se_text s)) (status_meta (se_goal_id s) (se_text s))
      \<lparr>so_pinned = False, so_ttl_seconds = Some status_ttl_seconds\<rparr> st"

definition restore_all :: "goal_env \<Rightarrow> nat \<Rightarrow> persisted_state \<Rightarrow> store \<Rightarrow> store" where
  "restore_all env now ps st =
    (let st1 = fold (restore_goal env now) (ps_goals ps) st;
         st2 = fold (restore_task env now) (ps_tasks ps) st1
     in case ps_status ps of None \<Rightarrow> st2 | Some s \<Rightarrow> restore_status env now s st2)"

definition reencode_all :: "goal_env \<Rightarrow> nat \<Rightarrow> goal_manager \<Rightarrow> goal_manager" where
  "reencode_all env now gm = gm\<lparr>gm_store := restore_all env now (snapshot_for_save env now gm) (gm_store gm)\<rparr>"

definition load_from_disk :: "goal_env \<Rightarrow> nat \<Rightarrow> goal_manager \<Rightarrow> goal_manager" where
  "load_from_disk env now gm =
    (if \<not> ge_save_path env then gm
     else case gm_disk gm of
       Saved ps \<Rightarrow> gm\<lparr>gm_store := restore_all env now ps (gm_store gm)\<rparr>
     | _ \<Rightarrow> gm)"

section \<open>Goals, tasks and status\<close>

definition clear_current :: "goal_env \<Rightarrow> nat \<Rightarrow> string \<Rightarrow> store \<Rightarrow> store" where
  "clear_current env now key st =
    (case get (ge_incr env) now key st of
       (st1, None) \<Rightarrow> st1
     | (st1, Some e) \<Rightarrow>
         put_entry env now key (me_vector e) ((me_metadata e)\<lparr>md_tags := filter (\<lambda>t. t \<noteq> tag_current) (tags_of e)\<rparr>) pinned_no_ttl st1)"

definition clear_all_current :: "goal_env \<Rightarrow> nat \<Rightarrow> store \<Rightarrow> store" where
  "clear_all_current env now st =
    fold (clear_current env now) (map me_key (filter is_current (query_by_category (ge_sorder env) Goal now st))) st"

definition set_goal :: "goal_env \<Rightarrow> nat \<Rightarrow> string \<Rightarrow> string \<Rightarrow> goal_manager \<Rightarrow> goal_manager \<times> string" where
  "set_goal env now uuid text gm =
    (let st1 = clear_all_current env now (gm_store gm);
         st2 = put_entry env now (''goal:'' @ uuid) (encode env text) (goal_meta uuid True text) pinned_no_ttl st1
     in (save env now (gm\<lparr>gm_store := st2\<rparr>), uuid))"

definition mark_current :: "goal_env \<Rightarrow> nat \<Rightarrow> string \<Rightarrow> store \<Rightarrow> store \<times> bool" where
  "mark_current env now key st =
    (case get (ge_incr env) now key st of
       (st1, None) \<Rightarrow> (st1, False)
     | (st1, Some e) \<Rightarrow>
         (put_entry env now key (me_vector e)
            ((me_metadata e)\<lparr>md_tags := (if tag_current \<in> set (tags_of e) then tags_of e else tags_of e @ [tag_current])\<rparr>)
            pinned_no_ttl st1, True))"

definition set_current :: "goal_env \<Rightarrow> nat \<Rightarrow> string \<Rightarrow> goal_manager \<Rightarrow> goal_manager \<times> bool" where
  "set_current env now goal_id gm =
    (let key = ''goal:'' @ goal_id in
     case get (ge_incr env) now key (gm_store gm) of
       (st0, None) \<Rightarrow> (gm\<lparr>gm_store := st0\<rparr>, False)
     | (st0, Some _) \<Rightarrow>
         (let (st2, ok) = mark_current env now key (clear_all_current env now st0);
              gm1 = gm\<lparr>gm_store := st2\<rparr>
          in (if ok then save env now gm1 else gm1, ok)))"

definition add_task :: "goal_env \<Rightarrow> nat \<Rightarrow> string \<Rightarrow> string \<Rightarrow> string \<Rightarrow> goal_manager \<Rightarrow> goal_manager \<times> string" where
  "add_task env now uuid goal_id text gm =
    (save env now (gm\<lparr>gm_store := put_entry env now (''task:'' @ uuid) (encode env text) (task_meta uuid goal_id Active text)
       pinned_no_ttl (gm_store gm)\<rparr>), uuid)"

definition update_task :: "goal_env \<Rightarrow> nat \<Rightarrow> string \<Rightarrow> task_status \<Rightarrow> goal_manager \<Rightarrow> goal_manager \<times> bool" where
  "update_task env now task_id s gm =
    (let key = ''task:'' @ task_id in
     case get (ge_incr env) now key (gm_store gm) of
       (st0, None) \<Rightarrow> (gm\<lparr>gm_store := st0\<rparr>, False)
     | (st0, Some e) \<Rightarrow>
         (save env now (gm\<lparr>gm_store := put_entry env now key (me_vector e)
            ((me_metadata e)\<lparr>md_tags := filter (\<lambda>t. from_tag t = None) (tags_of e) @ [status_tag s]\<rparr>) (task_options s) st0\<rparr>), True))"

definition set_status :: "goal_env \<Rightarrow> nat \<Rightarrow> string \<Rightarrow> goal_manager \<Rightarrow> goal_manager \<times> bool" where
  "set_status env now text gm =
    (let gid = (case Option.bind (find is_current (query_by_category (ge_sorder env) Goal now (gm_store gm)))
                  (\<lambda>e. extract_id (tags_of e) ''goal:'') of Some g \<Rightarrow> g | None \<Rightarrow> ''none'')
     in (save env now (gm\<lparr>gm_store := put_entry env now ''status:current'' (encode env text) (status_meta gid text)
           \<lparr>so_pinned = False, so_ttl_seconds = Some status_ttl_seconds\<rparr> (gm_store gm)\<rparr>), True))"

section \<open>Switching the current goal\<close>

definition env_ok :: "goal_env \<Rightarrow> bool" where
  "env_ok env = (good_order (ge_order env) \<and> (\<forall>xs. set (ge_sorder env xs) = set xs) \<and> \<not> f32_lt (ge_incr env (Fin 1)) (Fin 1))"

definition goal_entry :: "store \<Rightarrow> string \<Rightarrow> memory_entry option" where
  "goal_entry st k = (case entry_of st k of Some e \<Rightarrow> if md_category (me_metadata e) = Goal then Some e else None | None \<Rightarrow> None)"

text \<open>Goals are pinned and do not expire: what the manager's own operations store.\<close>

definition goals_durable :: "store \<Rightarrow> bool" where
  "goals_durable st = (\<forall>k e. goal_entry st k = Some e \<longrightarrow> me_pinned e \<and> me_expires_at e = None)"

definition goal_core :: "memory_entry \<Rightarrow> tensor \<times> string \<times> string list" where
  "goal_core e = (me_vector e, md_text_summary (me_metadata e), filter (\<lambda>t. t \<noteq> tag_current) (tags_of e))"

definition goal_current :: "store \<Rightarrow> string \<Rightarrow> bool" where
  "goal_current st k = (\<exists>e. goal_entry st k = Some e \<and> is_current e)"

lemma goal_entry_Some: "goal_entry st k = Some e \<longleftrightarrow> entry_of st k = Some e \<and> md_category (me_metadata e) = Goal"
  by (auto simp: goal_entry_def split: option.splits)

text \<open>A pinned entry of the goal category is stored under \<open>key\<close>: the other goals are untouched.\<close>

lemma put_goal:
  assumes inv: "store_inv st" and env: "env_ok env" and gd: "goals_durable st" and cat: "md_category md = Goal"
    and run: "store_with_options (ge_order env) now key v md pinned_no_ttl st = (st', res)"
  shows "store_inv st' \<and> goals_durable st' \<and> (\<forall>k. k \<noteq> key \<longrightarrow> goal_entry st' k = goal_entry st k) \<and>
    (res = Inr () \<longrightarrow> goal_entry st' key = Some (new_entry now key v md pinned_no_ttl)) \<and>
    (res = Inl Full \<longrightarrow> entry_of st' key = None)"
proof -
  have ord: "good_order (ge_order env)" using env by (simp add: env_ok_def)
  note S = store_with_options_correct [OF inv ord run]
  have other: "goal_entry st' k = goal_entry st k" if k: "k \<noteq> key" for k
  proof (cases "goal_entry st k")
    case (Some e)
    then have "entry_of st' k = Some e"
      using S(8) [OF k, of e] gd by (auto simp: goals_durable_def goal_entry_Some entry_of_def is_expired_def)
    then have "goal_entry st' k = Some e" using Some by (simp add: goal_entry_Some)
    then show ?thesis using Some by simp
  next
    case None
    then show ?thesis using S(7) [OF k] by (auto simp: goal_entry_def entry_of_def split: option.splits if_splits)
  qed
  have new: "res = Inr () \<longrightarrow> goal_entry st' key = Some (new_entry now key v md pinned_no_ttl)"
    using S(5) cat by (simp add: goal_entry_def entry_of_def)
  have full: "res = Inl Full \<longrightarrow> entry_of st' key = None" using S(6) by (simp add: entry_of_def)
  have three: "res = Inr () \<or> res = Inl Full \<or> res = Inl Oversize"
  proof (cases res)
    case (Inl er)
    then show ?thesis by (cases er) auto
  qed auto
  have "goals_durable st'"
    unfolding goals_durable_def
  proof (intro allI impI)
    fix k e assume e: "goal_entry st' k = Some e"
    consider "k \<noteq> key" | "k = key" "res = Inr ()" | "k = key" "res = Inl Full" | "k = key" "res = Inl Oversize"
      using three by blast
    then show "me_pinned e \<and> me_expires_at e = None"
    proof cases
      case 1
      then show ?thesis using e other gd by (simp add: goals_durable_def)
    next
      case 2
      then show ?thesis using e new by (auto simp: pinned_no_ttl_def)
    next
      case 3
      then show ?thesis using e full by (simp add: goal_entry_Some)
    next
      case 4
      then show ?thesis using e S(4) gd by (simp add: goals_durable_def)
    qed
  qed
  then show ?thesis using S(1) other new full by blast
qed

lemma get_goals:
  assumes inv: "store_inv st" and env: "env_ok env" and gd: "goals_durable st" and e: "goal_entry st key = Some e"
    and run: "get (ge_incr env) now key st = (st1, r)"
  shows "r = Some (e\<lparr>me_access_count := me_access_count e + 1\<rparr>) \<and> store_inv st1 \<and> goals_durable st1 \<and>
    goal_entry st1 key = r \<and> (\<forall>k. k \<noteq> key \<longrightarrow> goal_entry st1 k = goal_entry st k)"
proof -
  have incr: "\<not> f32_lt (ge_incr env (Fin 1)) (Fin 1)" using env by (simp add: env_ok_def)
  note G = get_correct [OF inv incr run]
  have e': "entry_of st key = Some e" "md_category (me_metadata e) = Goal" "\<not> is_expired e now"
    using e gd by (auto simp: goal_entry_Some goals_durable_def is_expired_def)
  have r: "r = Some (e\<lparr>me_access_count := me_access_count e + 1\<rparr>)" using G(3) e' by simp
  have k1: "goal_entry st1 key = r" using G(4) [OF r] e'(2) r by (simp add: goal_entry_def)
  have k2: "goal_entry st1 k = goal_entry st k" if "k \<noteq> key" for k using G(2) [OF that] by (simp add: goal_entry_def)
  have "goals_durable st1"
    unfolding goals_durable_def
  proof (intro allI impI)
    fix k x assume "goal_entry st1 k = Some x"
    then show "me_pinned x \<and> me_expires_at x = None"
      using gd k1 k2 r e by (cases "k = key") (auto simp: goals_durable_def)
  qed
  then show ?thesis using r G(1) k1 k2 by blast
qed

lemma clear_current_step:
  fixes now :: nat
  assumes inv: "store_inv st" and env: "env_ok env" and gd: "goals_durable st" and e: "goal_entry st key = Some e"
  defines "st' \<equiv> clear_current env now key st"
  shows "store_inv st' \<and> goals_durable st' \<and> (\<forall>k. map_option goal_core (goal_entry st' k) = map_option goal_core (goal_entry st k)) \<and>
    (\<forall>k. goal_current st' k \<longleftrightarrow> goal_current st k \<and> k \<noteq> key)"
proof -
  obtain st1 r where g: "get (ge_incr env) now key st = (st1, r)" by fastforce
  note G = get_goals [OF inv env gd e g]
  let ?e = "e\<lparr>me_access_count := me_access_count e + 1\<rparr>"
  let ?md = "(me_metadata e)\<lparr>md_tags := filter (\<lambda>t. t \<noteq> tag_current) (tags_of e)\<rparr>"
  obtain st2 res where p: "store_with_options (ge_order env) now key (me_vector ?e) ?md pinned_no_ttl st1 = (st2, res)" by fastforce
  have st': "st' = st2" using g G p by (simp add: st'_def clear_current_def put_entry_def)
  have cat: "md_category ?md = Goal" using e by (simp add: goal_entry_Some)
  have ent: "entry_of st1 key = Some ?e" using G by (auto simp: goal_entry_Some)
  have sok: "store_ok (ge_order env) st1" using G env by (simp add: store_ok_def env_ok_def)
  have "res = Inr ()"
    using ms.put_same_size [OF sok ent, of "me_vector ?e" ?md now pinned_no_ttl] p e by (simp add: goal_entry_Some)
  then have P: "store_inv st2 \<and> goals_durable st2 \<and> (\<forall>k. k \<noteq> key \<longrightarrow> goal_entry st2 k = goal_entry st1 k) \<and>
      goal_entry st2 key = Some (new_entry now key (me_vector ?e) ?md pinned_no_ttl)"
    using put_goal [OF _ env _ cat p] G by blast
  have core: "map_option goal_core (goal_entry st2 k) = map_option goal_core (goal_entry st k)" for k
    using P G e by (cases "k = key") (simp_all add: goal_core_def)
  have cur: "goal_current st2 k \<longleftrightarrow> goal_current st k \<and> k \<noteq> key" for k
    using P G e by (cases "k = key") (simp_all add: goal_current_def is_current_def)
  show ?thesis unfolding st' using P core cur by blast
qed

lemma clear_fold:
  assumes env: "env_ok env"
  shows "store_inv st \<Longrightarrow> goals_durable st \<Longrightarrow> (\<forall>key\<in>set keys. goal_entry st key \<noteq> None) \<Longrightarrow>
    store_inv (fold (clear_current env now) keys st) \<and> goals_durable (fold (clear_current env now) keys st) \<and>
    (\<forall>k. map_option goal_core (goal_entry (fold (clear_current env now) keys st) k) = map_option goal_core (goal_entry st k)) \<and>
    (\<forall>k. goal_current (fold (clear_current env now) keys st) k \<longleftrightarrow> goal_current st k \<and> k \<notin> set keys)"
proof (induction keys arbitrary: st)
  case Nil
  then show ?case by simp
next
  case (Cons key keys)
  obtain e where e: "goal_entry st key = Some e" using Cons.prems(3) by auto
  note C = clear_current_step [OF Cons.prems(1) env Cons.prems(2) e, of now]
  have "\<forall>key'\<in>set keys. goal_entry (clear_current env now key st) key' \<noteq> None"
    using C Cons.prems(3) by (metis list.set_intros(2) option.map_disc_iff)
  note IH = Cons.IH [OF conjunct1 [OF C] conjunct1 [OF conjunct2 [OF C]] this]
  show ?case using C IH by auto
qed

lemma live_goal_entry:
  assumes "store_inv st" "env_ok env" "goals_durable st"
  shows "e \<in> set (query_by_category (ge_sorder env) Goal now st) \<longleftrightarrow> (\<exists>k. goal_entry st k = Some e)"
proof -
  have s: "\<And>xs. set (ge_sorder env xs) = set xs" using assms(2) by (simp add: env_ok_def)
  show ?thesis
    unfolding set_query_by_category [of st "ge_sorder env", OF assms(1) s]
    using assms(3) by (auto simp: goal_entry_Some goals_durable_def is_expired_def)
qed

lemma entry_key: "store_inv st \<Longrightarrow> entry_of st k = Some e \<Longrightarrow> me_key e = k"
  using store_invD(2) by (fastforce simp: entry_of_def entry_ok_def dest: map_of_SomeD)

lemma clear_all_correct:
  fixes now :: nat
  assumes "store_inv st" "env_ok env" "goals_durable st"
  defines "st' \<equiv> clear_all_current env now st"
  shows "store_inv st' \<and> goals_durable st' \<and> (\<forall>k. map_option goal_core (goal_entry st' k) = map_option goal_core (goal_entry st k)) \<and>
    (\<forall>k. \<not> goal_current st' k)"
proof -
  let ?keys = "map me_key (filter is_current (query_by_category (ge_sorder env) Goal now st))"
  have k: "goal_entry st key \<noteq> None" if "key \<in> set ?keys" for key
    using that live_goal_entry [OF assms(1-3)] entry_key [OF assms(1)] by (auto simp: goal_entry_Some)
  have c: "key \<in> set ?keys" if cur: "goal_current st key" for key
  proof -
    obtain e where e: "goal_entry st key = Some e" "is_current e" using cur by (auto simp: goal_current_def)
    then have "e \<in> set (filter is_current (query_by_category (ge_sorder env) Goal now st))"
      using live_goal_entry [OF assms(1-3)] by auto
    moreover have "me_key e = key" using e entry_key [OF assms(1)] by (simp add: goal_entry_Some)
    ultimately show ?thesis by force
  qed
  have "\<forall>key\<in>set ?keys. goal_entry st key \<noteq> None" using k by blast
  from clear_fold [OF assms(2,1,3) this, of now] show ?thesis
    unfolding st'_def clear_all_current_def using c by blast
qed

lemma save_store [simp]: "gm_store (save env now gm) = gm_store gm"
  by (simp add: save_def)

lemma strip_prefix_append [simp]: "strip_prefix p (p @ r) = Some r"
  by (simp add: strip_prefix_def)

text \<open>Which goal is found as the current one.\<close>

lemma current_goal_unique:
  assumes inv: "store_inv (gm_store gm)" "env_ok env" "goals_durable (gm_store gm)"
    and only: "\<And>k. goal_current (gm_store gm) k \<Longrightarrow> k = key"
  shows "current_goal env now gm =
    (case goal_entry (gm_store gm) key of
       Some e \<Rightarrow> if is_current e then Some ((goal_of e)\<lparr>go_is_current := True\<rparr>) else None
     | None \<Rightarrow> None)"
proof -
  note L = live_goal_entry [OF inv, of _ now]
  let ?q = "query_by_category (ge_sorder env) Goal now (gm_store gm)"
  have cur: "goal_entry (gm_store gm) key = Some e" if e: "e \<in> set ?q" "is_current e" for e
    using e L only unfolding goal_current_def by blast
  show ?thesis
  proof (cases "\<exists>e. goal_entry (gm_store gm) key = Some e \<and> is_current e")
    case True
    then obtain e where e: "goal_entry (gm_store gm) key = Some e" "is_current e" by blast
    have "find is_current ?q \<noteq> None" using e L by (auto simp: find_None_iff)
    then obtain x where x: "find is_current ?q = Some x" by auto
    then have "x \<in> set ?q \<and> is_current x" by (metis find_Some_iff nth_mem)
    then have "x = e" using cur [of x] e by simp
    then show ?thesis using x e by (simp add: current_goal_def)
  next
    case False
    then have "find is_current ?q = None" using cur unfolding find_None_iff by blast
    then show ?thesis using False by (auto simp: current_goal_def split: option.split)
  qed
qed

section \<open>The properties of the goal manager\<close>

text \<open>
  C21: Setting a goal keeps every other goal, with its text, vector and other tags, takes the current mark off all of
  them, and makes the new goal the current one if the store has room for it; if the store has no room, the manager
  still reports the new id, but no goal is current any more.
\<close>

theorem set_goal_current:
  assumes "store_inv (gm_store gm)" "env_ok env" "goals_durable (gm_store gm)" "goal_entry (gm_store gm) (''goal:'' @ uuid) = None"
    and "set_goal env now uuid text gm = (gm', gid)"
  shows "gid = uuid \<and> store_inv (gm_store gm') \<and> goals_durable (gm_store gm') \<and>
    (\<forall>k. k \<noteq> ''goal:'' @ uuid \<longrightarrow> map_option goal_core (goal_entry (gm_store gm') k) = map_option goal_core (goal_entry (gm_store gm) k)) \<and>
    current_goal env now gm' =
      (if goal_entry (gm_store gm') (''goal:'' @ uuid) = None then None
       else Some \<lparr>go_goal_id = uuid, go_text = text, go_is_current = True\<rparr>)"
proof -
  let ?key = "''goal:'' @ uuid" and ?st1 = "clear_all_current env now (gm_store gm)" and ?md = "goal_meta uuid True text"
  note C = clear_all_correct [OF assms(1-3), of now]
  obtain st2 res where p: "store_with_options (ge_order env) now ?key (encode env text) ?md pinned_no_ttl ?st1 = (st2, res)" by fastforce
  have cat: "md_category ?md = Goal" by (simp add: goal_meta_def)
  note P = put_goal [OF conjunct1 [OF C] assms(2) conjunct1 [OF conjunct2 [OF C]] cat p]
  have gm': "gm_store gm' = st2" "gid = uuid" using assms(5) p by (auto simp: set_goal_def put_entry_def Let_def)
  have none1: "goal_entry ?st1 ?key = None" using C assms(4) by (metis map_option_is_None)
  have core: "map_option goal_core (goal_entry st2 k) = map_option goal_core (goal_entry (gm_store gm) k)" if "k \<noteq> ?key" for k
    using P C that by simp
  have only: "k = ?key" if "goal_current st2 k" for k
    using P C that unfolding goal_current_def by metis
  have inv2: "store_inv (gm_store gm')" "goals_durable (gm_store gm')" using P gm' by simp_all
  note cg = current_goal_unique [OF inv2(1) assms(2) inv2(2), of ?key now, unfolded gm'(1), OF only]
  have "current_goal env now gm' = (if goal_entry st2 ?key = None then None else Some \<lparr>go_goal_id = uuid, go_text = text, go_is_current = True\<rparr>)"
  proof (cases res)
    case (Inr u)
    then have e: "goal_entry st2 ?key = Some (new_entry now ?key (encode env text) ?md pinned_no_ttl)" using P by simp
    have n: "is_current (new_entry now ?key (encode env text) ?md pinned_no_ttl)"
      "(goal_of (new_entry now ?key (encode env text) ?md pinned_no_ttl))\<lparr>go_is_current := True\<rparr> =
        \<lparr>go_goal_id = uuid, go_text = text, go_is_current = True\<rparr>"
      by (simp_all add: is_current_def goal_of_def goal_meta_def id_of_def strip_prefix_def)
    show ?thesis using cg n(1) unfolding e option.case n(2) by simp
  next
    case (Inl er)
    have "goal_entry st2 ?key = None"
    proof (cases er)
      case Full
      then show ?thesis using P Inl by (simp add: goal_entry_def)
    next
      case Oversize
      then show ?thesis
        using none1 store_with_options_correct(4) [OF conjunct1 [OF C] _ p] Inl assms(2) by (simp add: env_ok_def)
    qed
    then show ?thesis using cg by simp
  qed
  then show ?thesis using gm' inv2 core by simp
qed

definition demo_env :: goal_env where
  "demo_env = \<lparr>ge_order = id, ge_sorder = id, ge_incr = (\<lambda>_. Fin (11 / 10)), ge_encoder = None, ge_d_model = 1,
     ge_save_path = True, ge_write_ok = True\<rparr>"

lemma demo_env_ok: "env_ok demo_env"
  by (simp add: env_ok_def demo_env_def good_order_def)

definition demo_gm :: "string list \<Rightarrow> goal_manager" where
  "demo_gm uuids = fold (\<lambda>u gm. fst (set_goal demo_env 0 u u gm)) uuids \<lparr>gm_store = with_budget 4 1 8 Map.empty, gm_disk = Missing\<rparr>"

lemma demo_gm_inv: "store_inv (gm_store (demo_gm [])) \<and> goals_durable (gm_store (demo_gm []))"
  by (simp add: demo_gm_def with_budget_inv goals_durable_def goal_entry_def entry_of_def) (simp add: with_budget_def)

text \<open>A store with room for two goals: the third one takes the mark off the second and is lost.\<close>

theorem set_goal_current_witness:
  "current_goal demo_env 0 (demo_gm [''a'', ''b'']) = Some \<lparr>go_goal_id = ''b'', go_text = ''b'', go_is_current = True\<rparr> \<and>
   current_goal demo_env 0 (demo_gm [''a'', ''b'', ''c'']) = None"
proof -
  have snoc: "demo_gm (us @ [u]) = fst (set_goal demo_env 0 u u (demo_gm us))" for us u by (simp add: demo_gm_def)
  have step: "store_inv (gm_store (demo_gm (us @ [u]))) \<and> goals_durable (gm_store (demo_gm (us @ [u]))) \<and>
      current_goal demo_env 0 (demo_gm (us @ [u])) =
        (if goal_entry (gm_store (demo_gm (us @ [u]))) (''goal:'' @ u) = None then None
         else Some \<lparr>go_goal_id = u, go_text = u, go_is_current = True\<rparr>)"
    if "store_inv (gm_store (demo_gm us)) \<and> goals_durable (gm_store (demo_gm us))" "goal_entry (gm_store (demo_gm us)) (''goal:'' @ u) = None"
    for us u
    using set_goal_current [OF conjunct1 [OF that(1)] demo_env_ok conjunct2 [OF that(1)] that(2), of 0 u] unfolding snoc
    by (metis prod.collapse)
  have n: "map_option me_key (goal_entry (gm_store (demo_gm [])) (''goal:'' @ ''a'')) = None"
    "map_option me_key (goal_entry (gm_store (demo_gm [''a''])) (''goal:'' @ ''b'')) = None"
    "map_option me_key (goal_entry (gm_store (demo_gm [''a'', ''b''])) (''goal:'' @ ''c'')) = None"
    "map_option me_key (goal_entry (gm_store (demo_gm [''a'', ''b''])) (''goal:'' @ ''b'')) = Some ''goal:b''"
    "map_option me_key (goal_entry (gm_store (demo_gm [''a'', ''b'', ''c''])) (''goal:'' @ ''c'')) = None"
    by code_simp+
  note 1 = step [OF demo_gm_inv, of "''a''"]
  note 2 = step [of "[''a'']" "''b''"]
  note 3 = step [of "[''a'', ''b'']" "''c''"]
  show ?thesis using 1 2 3 n by auto
qed

lemma status_of_tags: "status_of (filter (\<lambda>t. from_tag t = None) ts @ [status_tag s]) = s"
proof (induction ts)
  case Nil
  then show ?case by (cases s) (simp_all add: status_tag_def from_tag_def)
qed simp

text \<open>
  Updating a task succeeds exactly when the task is there; the task then has the new status and its old vector, text and other
  tags, and it is pinned unless it is done.
\<close>

theorem update_task_status:
  assumes "store_inv (gm_store gm)" "env_ok env" "update_task env now tid s gm = (gm', ok)"
  shows "(ok \<longleftrightarrow> (\<exists>e. entry_of (gm_store gm) (''task:'' @ tid) = Some e \<and> \<not> is_expired e now)) \<and> store_inv (gm_store gm') \<and>
    (\<not> ok \<longrightarrow> gm' = gm) \<and>
    (ok \<longrightarrow> (\<exists>e e'. entry_of (gm_store gm) (''task:'' @ tid) = Some e \<and> entry_of (gm_store gm') (''task:'' @ tid) = Some e' \<and>
       status_of (tags_of e') = s \<and> me_vector e' = me_vector e \<and>
       md_text_summary (me_metadata e') = md_text_summary (me_metadata e) \<and> me_pinned e' = (s \<noteq> Done)))"
proof -
  let ?key = "''task:'' @ tid"
  have incr: "\<not> f32_lt (ge_incr env (Fin 1)) (Fin 1)" using assms(2) by (simp add: env_ok_def)
  obtain st0 r where g: "get (ge_incr env) now ?key (gm_store gm) = (st0, r)" by fastforce
  note G = get_correct [OF assms(1) incr g]
  show ?thesis
  proof (cases r)
    case None
    then have "gm' = gm" "\<not> ok" using assms(3) g G(5) by (auto simp: update_task_def Let_def)
    then show ?thesis using G(3) None assms(1) by (auto split: option.splits if_splits)
  next
    case (Some e1)
    obtain e where e: "entry_of (gm_store gm) ?key = Some e" "\<not> is_expired e now" "e1 = e\<lparr>me_access_count := me_access_count e + 1\<rparr>"
      using G(3) Some by (auto split: option.splits if_splits)
    let ?md = "(me_metadata e1)\<lparr>md_tags := filter (\<lambda>t. from_tag t = None) (tags_of e1) @ [status_tag s]\<rparr>"
    obtain st2 res where p: "store_with_options (ge_order env) now ?key (me_vector e1) ?md (task_options s) st0 = (st2, res)" by fastforce
    have res: "gm_store gm' = st2" "ok" using assms(3) g Some p by (auto simp: update_task_def put_entry_def Let_def)
    have sok: "store_ok (ge_order env) st0" using G(1) assms(2) by (simp add: store_ok_def env_ok_def)
    have ent: "entry_of st0 ?key = Some e1" using G(4) Some by simp
    have "res = Inr ()"
      using ms.put_same_size [OF sok ent, of "me_vector e1" ?md now "task_options s"] p by simp
    then have "\<exists>e'. entry_of st2 ?key = Some e' \<and> me_vector e' = me_vector e1 \<and> me_metadata e' = ?md \<and> me_pinned e' = so_pinned (task_options s)"
      using ms.put_stores [OF sok] p by blast
    moreover have "so_pinned (task_options s) = (s \<noteq> Done)" by (cases s) (simp_all add: task_options_def pinned_no_ttl_def)
    moreover have "store_inv st2" using ms.put_inv [OF sok p] by (simp add: store_ok_def)
    ultimately show ?thesis using res e status_of_tags by auto
  qed
qed

theorem update_task_status_witness:
  "\<exists>gm'. update_task demo_env 1 ''t'' Done (fst (add_task demo_env 0 ''t'' ''g'' ''x'' (demo_gm []))) = (gm', True) \<and>
     map_option (\<lambda>e. (status_of (tags_of e), me_pinned e)) (entry_of (gm_store gm') ''task:t'') = Some (Done, False)"
proof -
  let ?gm = "fst (add_task demo_env 0 ''t'' ''g'' ''x'' (demo_gm []))"
  obtain gm' ok where u: "update_task demo_env 1 ''t'' Done ?gm = (gm', ok)" by fastforce
  have "good_order (ge_order demo_env)" using demo_env_ok by (simp add: env_ok_def)
  then have inv: "store_inv (gm_store ?gm)"
    using demo_gm_inv by (simp add: add_task_def put_entry_def) (metis prod.collapse store_with_options_correct(1))
  have "map_option (\<lambda>e. is_expired e 1) (entry_of (gm_store ?gm) (''task:'' @ ''t'')) = Some False" by code_simp
  then have ok: "ok" using update_task_status [OF inv demo_env_ok u] by auto
  then show ?thesis using update_task_status [OF inv demo_env_ok u] u by auto
qed

section \<open>Restoring a snapshot\<close>

record restore_item =
  ri_key :: string
  ri_vector :: tensor
  ri_meta :: memory_metadata
  ri_options :: store_options

definition put_item :: "goal_env \<Rightarrow> nat \<Rightarrow> restore_item \<Rightarrow> store \<Rightarrow> store" where
  "put_item env now i st = put_entry env now (ri_key i) (ri_vector i) (ri_meta i) (ri_options i) st"

definition item_entry :: "nat \<Rightarrow> restore_item \<Rightarrow> string \<times> memory_entry" where
  "item_entry now i = (ri_key i, new_entry now (ri_key i) (ri_vector i) (ri_meta i) (ri_options i))"

definition item_bytes :: "restore_item \<Rightarrow> nat" where
  "item_bytes i = 4 * length (ri_vector i)"

definition cat_bytes :: "memory_category \<Rightarrow> restore_item list \<Rightarrow> nat" where
  "cat_bytes cat items = sum_list (map item_bytes (filter (\<lambda>i. md_category (ri_meta i) = cat) items))"

text \<open>Room for all of the items.\<close>

definition room_for :: "restore_item list \<Rightarrow> store \<Rightarrow> bool" where
  "room_for items st =
    (st_bytes_used st + sum_list (map item_bytes items) \<le> st_byte_budget st \<and>
     (\<forall>cat. category_used cat st + cat_bytes cat items \<le> category_budget cat st) \<and>
     length (st_entries st) + length items \<le> st_max_entries st \<and>
     distinct (map ri_key items) \<and> set (map ri_key items) \<inter> fst ` set (st_entries st) = {})"

lemma put_item_room:
  assumes inv: "store_inv st" and room: "room_for (i # items) st"
  shows "st_entries (put_item env now i st) = st_entries st @ [item_entry now i] \<and> store_inv (put_item env now i st) \<and>
    room_for items (put_item env now i st)"
proof -
  let ?cat = "md_category (ri_meta i)" and ?sz = "length (ri_vector i) * 4"
  let ?e = "new_entry now (ri_key i) (ri_vector i) (ri_meta i) (ri_options i)" and ?st = "put_item env now i st"
  have r: "st_bytes_used st + ?sz + sum_list (map item_bytes items) \<le> st_byte_budget st"
    "\<And>cat. category_used cat st + cat_bytes cat (i # items) \<le> category_budget cat st"
    "length (st_entries st) + Suc (length items) \<le> st_max_entries st" "ri_key i \<notin> fst ` set (st_entries st)"
    using room by (auto simp: room_for_def item_bytes_def)
  have cc: "category_used ?cat st + ?sz + cat_bytes ?cat items \<le> category_budget ?cat st"
    using r(2) [of ?cat] by (simp add: cat_bytes_def item_bytes_def)
  have rm: "fst (remove_internal (ri_key i) st) = st"
    using r(4) by (simp add: remove_internal_def map_of_eq_None_iff [THEN iffD2])
  have f: "fits ?sz ?cat (category_budget ?cat st) st" using r cc by (simp add: fits_def)
  have "make_space n (ge_order env) now ?sz ?cat (category_budget ?cat st) st = (st, True)" for n
    using f by (subst make_space.simps) simp
  moreover have "\<not> (category_budget ?cat st < ?sz \<or> st_byte_budget st < ?sz)" using r(1) cc by simp
  ultimately have st: "?st = insert_entry (ri_key i) ?e st"
    by (simp add: put_item_def put_entry_def store_with_options_def rm Let_def new_entry_def)
  have ents: "st_entries ?st = st_entries st @ [item_entry now i]"
    unfolding st insert_entry_entries al_put_fresh [OF r(4)] item_entry_def ..
  have inv': "store_inv ?st"
    unfolding st by (rule insert_entry_inv [OF inv r(4)]) (use f in \<open>simp_all add: entry_ok_def new_entry_def\<close>)
  have cfg: "same_config st ?st" unfolding st by (rule insert_entry_config)
  have used: "category_used cat ?st = category_used cat st + (if cat = ?cat then ?sz else 0)" for cat
    unfolding st by (auto simp: insert_entry_def category_used_def Let_def split: option.split)
  have "category_used cat ?st + cat_bytes cat items \<le> category_budget cat ?st" for cat
    using r(2) [of cat] unfolding used same_config_budget [OF cfg] by (auto simp: cat_bytes_def item_bytes_def)
  moreover have "st_bytes_used ?st + sum_list (map item_bytes items) \<le> st_byte_budget ?st"
    using r(1) cfg unfolding st by (simp add: insert_entry_def Let_def same_config_def)
  moreover have "st_max_entries ?st = st_max_entries st" using cfg by (simp add: same_config_def)
  ultimately have "room_for items ?st" using room ents by (auto simp: room_for_def item_entry_def)
  then show ?thesis using ents inv' by blast
qed

lemma put_items_room:
  "store_inv st \<Longrightarrow> room_for items st \<Longrightarrow>
    st_entries (fold (put_item env now) items st) = st_entries st @ map (item_entry now) items \<and> store_inv (fold (put_item env now) items st)"
proof (induction items arbitrary: st)
  case (Cons i items)
  note P = put_item_room [OF Cons.prems, of env now]
  show ?case using Cons.IH [of "put_item env now i st"] P by simp
qed simp

definition goal_item :: "goal_env \<Rightarrow> goal \<Rightarrow> restore_item" where
  "goal_item env g = \<lparr>ri_key = ''goal:'' @ go_goal_id g, ri_vector = encode env (go_text g),
     ri_meta = goal_meta (go_goal_id g) (go_is_current g) (go_text g), ri_options = pinned_no_ttl\<rparr>"

definition task_item :: "goal_env \<Rightarrow> task \<Rightarrow> restore_item" where
  "task_item env t = \<lparr>ri_key = ''task:'' @ ta_task_id t, ri_vector = encode env (ta_text t),
     ri_meta = task_meta (ta_task_id t) (ta_goal_id t) (ta_status t) (ta_text t), ri_options = task_options (ta_status t)\<rparr>"

definition status_item :: "goal_env \<Rightarrow> status_entry \<Rightarrow> restore_item" where
  "status_item env s = \<lparr>ri_key = ''status:current'', ri_vector = encode env (se_text s),
     ri_meta = status_meta (se_goal_id s) (se_text s), ri_options = \<lparr>so_pinned = False, so_ttl_seconds = Some status_ttl_seconds\<rparr>\<rparr>"

definition items_of :: "goal_env \<Rightarrow> persisted_state \<Rightarrow> restore_item list" where
  "items_of env ps = map (goal_item env) (ps_goals ps) @ map (task_item env) (ps_tasks ps) @
     (case ps_status ps of None \<Rightarrow> [] | Some s \<Rightarrow> [status_item env s])"

lemma restore_all_items: "restore_all env now ps st = fold (put_item env now) (items_of env ps) st"
proof -
  have g: "fold (restore_goal env now) gs st = fold (put_item env now) (map (goal_item env) gs) st" for gs st
    by (induction gs arbitrary: st) (simp_all add: restore_goal_def put_item_def goal_item_def)
  have t: "fold (restore_task env now) ts st = fold (put_item env now) (map (task_item env) ts) st" for ts st
    by (induction ts arbitrary: st) (simp_all add: restore_task_def put_item_def task_item_def)
  show ?thesis
    by (simp add: restore_all_def items_of_def g t Let_def restore_status_def put_item_def status_item_def split: option.split)
qed

lemma goal_of_item: "goal_of (snd (item_entry now (goal_item env g))) = g"
  by (cases g) (auto simp: goal_of_def item_entry_def goal_item_def goal_meta_def id_of_def strip_prefix_def is_current_def tag_current_def)

lemma task_of_item: "task_of (snd (item_entry now (task_item env t))) = t"
proof (cases t)
  case (fields tid gid tx s)
  then show ?thesis
    by (cases s) (simp_all add: task_of_def item_entry_def task_item_def task_meta_def id_of_def strip_prefix_def from_tag_def status_tag_def)
qed

lemma status_of_item: "status_entry_of (snd (item_entry now (status_item env s))) = s"
  by (cases s) (simp add: status_entry_of_def item_entry_def status_item_def status_meta_def id_of_def strip_prefix_def)

lemma item_simps [simp]:
  "md_category (me_metadata (snd (item_entry now (goal_item env g)))) = Goal"
  "md_category (me_metadata (snd (item_entry now (task_item env t)))) = Task"
  "md_category (me_metadata (snd (item_entry now (status_item env s)))) = Status"
  "\<not> is_expired (snd (item_entry now (goal_item env g))) now"
  "\<not> is_expired (snd (item_entry now (task_item env t))) now"
  "\<not> is_expired (snd (item_entry now (status_item env s))) now"
  by (auto simp: item_entry_def goal_item_def task_item_def status_item_def goal_meta_def task_meta_def status_meta_def
      is_expired_def pinned_no_ttl_def task_options_def status_ttl_seconds_def split: task_status.split)

lemma last_max_in: "last_max f xs = Some x \<Longrightarrow> x \<in> set xs"
  by (induction xs arbitrary: x) (auto split: option.splits if_splits)

lemma last_max_None [simp]: "last_max f xs = None \<longleftrightarrow> xs = []"
  by (cases xs) (auto split: option.splits)

text \<open>
  C20: Loading a saved state into an empty store with room for it gives back exactly its goals, with the current mark, its tasks, with
  their status and goal, and its status entry.
\<close>

theorem restore_roundtrip:
  assumes "store_inv (gm_store gm)" "st_entries (gm_store gm) = []" "env_ok env" "ge_save_path env"
    and "room_for (items_of env ps) (gm_store gm)" "gm_disk gm = Saved ps"
  shows "set (ps_goals (snapshot_for_save env now (load_from_disk env now gm))) = set (ps_goals ps) \<and>
    set (ps_tasks (snapshot_for_save env now (load_from_disk env now gm))) = set (ps_tasks ps) \<and>
    ps_status (snapshot_for_save env now (load_from_disk env now gm)) = ps_status ps"
proof -
  let ?st = "gm_store (load_from_disk env now gm)" and ?items = "items_of env ps" and ?e = "\<lambda>i. snd (item_entry now i)"
  have st: "?st = fold (put_item env now) ?items (gm_store gm)"
    using assms(4,6) by (simp add: load_from_disk_def restore_all_items)
  note P = put_items_room [OF assms(1,5), of env now, folded st, unfolded assms(2), simplified]
  have inv: "store_inv ?st" using P by simp
  have ord: "\<And>xs. set (ge_sorder env xs) = set xs" using assms(3) by (simp add: env_ok_def)
  have ent: "(\<exists>k. entry_of ?st k = Some e) \<longleftrightarrow> e \<in> ?e ` set ?items" for e
  proof -
    have "(\<exists>k. entry_of ?st k = Some e) \<longleftrightarrow> e \<in> snd ` set (st_entries ?st)"
      using store_invD(1) [OF inv] by (force simp: entry_of_def dest: map_of_SomeD map_of_is_SomeI)
    then show ?thesis using P by (simp add: image_image)
  qed
  have q: "set (query_by_category (ge_sorder env) cat now ?st) = {e. e \<in> ?e ` set ?items \<and> md_category (me_metadata e) = cat \<and> \<not> is_expired e now}" for cat
    unfolding set_query_by_category [of ?st "ge_sorder env", OF inv ord] using ent by blast
  have qg: "set (query_by_category (ge_sorder env) Goal now ?st) = ?e ` goal_item env ` set (ps_goals ps)"
    unfolding q by (auto simp: items_of_def split: option.splits)
  have qt: "set (query_by_category (ge_sorder env) Task now ?st) = ?e ` task_item env ` set (ps_tasks ps)"
    unfolding q by (auto simp: items_of_def split: option.splits)
  have qs: "set (query_by_category (ge_sorder env) Status now ?st) = ?e ` status_item env ` set_option (ps_status ps)"
    unfolding q by (auto simp: items_of_def split: option.splits)
  have goals: "set (ps_goals (snapshot_for_save env now (load_from_disk env now gm))) = set (ps_goals ps)"
    by (simp add: snapshot_for_save_def qg image_image goal_of_item)
  have tasks: "set (ps_tasks (snapshot_for_save env now (load_from_disk env now gm))) = set (ps_tasks ps)"
    by (simp add: snapshot_for_save_def qt image_image task_of_item)
  have "ps_status (snapshot_for_save env now (load_from_disk env now gm)) = ps_status ps"
  proof (cases "ps_status ps")
    case None
    then have "query_by_category (ge_sorder env) Status now ?st = []" using qs by simp
    then show ?thesis using None by (simp add: snapshot_for_save_def)
  next
    case (Some s)
    then have one: "set (query_by_category (ge_sorder env) Status now ?st) = {?e (status_item env s)}" using qs by simp
    then have "last_max me_created_at (query_by_category (ge_sorder env) Status now ?st) \<noteq> None" by auto
    then obtain x where x: "last_max me_created_at (query_by_category (ge_sorder env) Status now ?st) = Some x"
      by (cases "last_max me_created_at (query_by_category (ge_sorder env) Status now ?st)") (simp del: last_max_None, blast)
    then have "x = ?e (status_item env s)" using last_max_in [OF x] one by simp
    then show ?thesis using x Some by (simp add: snapshot_for_save_def status_of_item)
  qed
  then show ?thesis using goals tasks by blast
qed

definition demo_saved :: persisted_state where
  "demo_saved = \<lparr>ps_goals = [\<lparr>go_goal_id = ''a'', go_text = ''x'', go_is_current = True\<rparr>],
     ps_tasks = [\<lparr>ta_task_id = ''t'', ta_goal_id = ''a'', ta_text = ''y'', ta_status = Blocked\<rparr>], ps_status = None\<rparr>"

theorem restore_roundtrip_witness:
  "set (ps_tasks (snapshot_for_save demo_env 3 (load_from_disk demo_env 3 ((demo_gm [])\<lparr>gm_disk := Saved demo_saved\<rparr>)))) =
    {\<lparr>ta_task_id = ''t'', ta_goal_id = ''a'', ta_text = ''y'', ta_status = Blocked\<rparr>}"
proof -
  let ?gm = "(demo_gm [])\<lparr>gm_disk := Saved demo_saved\<rparr>"
  have st: "gm_store ?gm = with_budget 4 1 8 Map.empty" by (simp add: demo_gm_def)
  have inv: "store_inv (gm_store ?gm)" using demo_gm_inv by simp
  have empty: "st_entries (gm_store ?gm) = []" unfolding st by (simp add: with_budget_def)
  have cats: "cat_bytes cat (items_of demo_env demo_saved) \<le> 8" for cat
    by (cases cat) (simp_all add: cat_bytes_def items_of_def demo_saved_def goal_item_def task_item_def goal_meta_def task_meta_def
        item_bytes_def encode_def demo_env_def)
  have room: "room_for (items_of demo_env demo_saved) (gm_store ?gm)"
    unfolding room_for_def st
    using cats by (simp add: with_budget_def category_used_def category_budget_def items_of_def demo_saved_def
        goal_item_def task_item_def item_bytes_def encode_def demo_env_def)
  have "ge_save_path demo_env" "gm_disk ?gm = Saved demo_saved" by (simp_all add: demo_env_def)
  from restore_roundtrip [OF inv empty demo_env_ok this(1) room this(2), of 3] show ?thesis by (simp add: demo_saved_def)
qed

end
