(* ===== verification/JsonSchema.thy ===== *)
theory JsonSchema
  imports Prelude
begin

text \<open>
  The compiler from JSON schemas to anchored regular expressions
  (\<^verbatim>\<open>src/engine/json_schema.rs\<close>).  The first part is the code: it builds the pattern as a
  string.  The second part says what a pattern means: a syntax tree of regular
  expressions with its printed form, a predicate that excludes trees whose
  printed form would be read differently, and the language of a tree.  The
  third part says which texts are documents of a schema, and the last part proves
  that the compiler prints a tree whose language is exactly those documents.

  \<open>serde_json::to_string\<close> is the parameter \<open>tj\<close>.  Object members are an
  association list in declaration order (the crate is built with
  \<^verbatim>\<open>preserve_order\<close>).  Characters are code points up to 255.
\<close>

datatype jnum = PosInt nat | NegInt int | Float string

datatype json = JNull | JBool bool | JNum jnum | JStr string | JArr "json list" | JObj "(string \<times> json) list"

datatype schema_error =
  Too_deep | Not_object | Unsupported_keyword string | Empty_enum | No_type | No_items | Max_below_min | Unknown_type string | No_tools

definition max_depth :: nat where
  "max_depth = 32"

definition any_json_default_depth :: nat where
  "any_json_default_depth = 5"

section \<open>The compiler\<close>

abbreviation bslash :: string where
  "bslash \<equiv> [CHR 0x5C]"

abbreviation dquote :: string where
  "dquote \<equiv> [CHR 0x22]"

definition STRING :: string where
  \<open>STRING = ''"([^"'' @ bslash @ bslash @ '']|'' @ bslash @ bslash @ ''(["'' @ bslash @ bslash @ ''/bfnrt]|u[0-9a-fA-F]{4}))*"''\<close>

definition NUMBER :: string where
  \<open>NUMBER = ''-?(0|[1-9][0-9]*)('' @ bslash @ ''.[0-9]+)?([eE][+-]?[0-9]+)?''\<close>

definition BOOL :: string where
  "BOOL = ''(true|false)''"

definition NULL :: string where
  "NULL = ''null''"

definition INTEGER :: string where
  "INTEGER = ''-?(0|[1-9][0-9]*)''"

definition SP :: string where
  "SP = '' ?''"

definition meta_chars :: string where
  \<open>meta_chars = bslash @ ''.+*?()|[]{}^$''\<close>

definition esc_char :: "char \<Rightarrow> string" where
  \<open>esc_char c = (if c \<in> set meta_chars then [CHR 0x5C, c] else [c])\<close>

definition esc :: "string \<Rightarrow> string" where
  "esc s = concat (map esc_char s)"

definition literal_regex :: "(json \<Rightarrow> string) \<Rightarrow> json \<Rightarrow> string" where
  "literal_regex tj v = esc (tj v)"

fun join :: "string \<Rightarrow> string list \<Rightarrow> string" where
  "join sep [] = []"
| "join sep [x] = x"
| "join sep (x # y # xs) = x @ sep @ join sep (y # xs)"

definition paren :: "string \<Rightarrow> string" where
  "paren s = ''('' @ s @ '')''"

definition comma :: string where
  "comma = SP @ '','' @ SP"

definition colon :: string where
  "colon = SP @ '':'' @ SP"

definition braces :: "string \<Rightarrow> string" where
  "braces s = bslash @ ''{'' @ SP @ s @ SP @ bslash @ ''}''"

definition brackets :: "string \<Rightarrow> string" where
  "brackets s = bslash @ ''['' @ SP @ s @ SP @ bslash @ '']''"

definition any_array :: "string \<Rightarrow> string" where
  "any_array inner = brackets (paren (inner @ paren (comma @ inner) @ ''*'') @ ''?'')"

definition any_object :: "string \<Rightarrow> string" where
  "any_object v = braces (paren (STRING @ colon @ v @ paren (comma @ STRING @ colon @ v) @ ''*'') @ ''?'')"

fun any_value :: "nat \<Rightarrow> string" where
  "any_value 0 = paren (join ''|'' [STRING, NUMBER, BOOL, NULL])"
| "any_value (Suc d) = (let inner = any_value d in paren (join ''|'' [STRING, NUMBER, BOOL, NULL, any_array inner, any_object inner]))"

definition any_json_regex :: "nat \<Rightarrow> string" where
  "any_json_regex depth = any_value (min depth max_depth)"

definition any_json_regex_default :: string where
  "any_json_regex_default = any_json_regex any_json_default_depth"

definition unsupported_keywords :: "string list" where
  "unsupported_keywords = [''$ref'', ''oneOf'', ''anyOf'', ''allOf'', ''not'', ''patternProperties'', ''if'']"

fun as_u64 :: "json option \<Rightarrow> nat option" where
  "as_u64 (Some (JNum (PosInt n))) = Some n"
| "as_u64 _ = None"

fun as_str :: "json option \<Rightarrow> string option" where
  "as_str (Some (JStr s)) = Some s"
| "as_str _ = None"

fun as_array :: "json option \<Rightarrow> json list option" where
  "as_array (Some (JArr vs)) = Some vs"
| "as_array _ = None"

fun as_object :: "json option \<Rightarrow> (string \<times> json) list option" where
  "as_object (Some (JObj kvs)) = Some kvs"
| "as_object _ = None"

text \<open>The repetition part of an array pattern, from the pattern of an item and the two bounds.\<close>

definition array_body :: "string \<Rightarrow> nat \<Rightarrow> nat option \<Rightarrow> string" where
  "array_body item mn mx =
    (case mx of
      None \<Rightarrow>
        if mn = 0 then paren (item @ paren (comma @ item) @ ''*'') @ ''?''
        else join comma (replicate mn item) @ paren (comma @ item) @ ''*''
    | Some m \<Rightarrow>
        (let alt = paren (join ''|'' (map (\<lambda>count. join comma (replicate count item)) [max mn 1 ..< m + 1]))
         in if mn = 0 then paren alt @ ''?'' else alt))"

definition array_regex :: "(string \<times> json) list \<Rightarrow> string \<Rightarrow> schema_error + string" where
  "array_regex obj item =
    (let mn = (case as_u64 (map_of obj ''minItems'') of Some n \<Rightarrow> n | None \<Rightarrow> 0);
         mx = as_u64 (map_of obj ''maxItems'')
     in case mx of
          Some m \<Rightarrow>
            if m < mn then Inl Max_below_min
            else if m = 0 then Inr (bslash @ ''['' @ SP @ bslash @ '']'')
            else Inr (brackets (array_body item mn mx))
        | None \<Rightarrow> Inr (brackets (array_body item mn mx)))"

lemma map_of_size:
  "map_of kvs k = Some v \<Longrightarrow> size v < size (JObj kvs)"
proof -
  assume "map_of kvs k = Some v"
  then have "(k, v) \<in> set kvs" by (rule map_of_SomeD)
  then show ?thesis by (induction kvs) auto
qed

lemma as_object_size:
  "as_object (map_of kvs k) = Some props \<Longrightarrow> size_list (size_prod (\<lambda>_. 0) size) props < size (JObj kvs)"
proof -
  assume "as_object (map_of kvs k) = Some props"
  then have "map_of kvs k = Some (JObj props)" by (cases "map_of kvs k" rule: as_object.cases) auto
  then show ?thesis by (drule_tac map_of_size) simp
qed

text \<open>\<open>compile\<close> with \<open>compile_array\<close> and \<open>compile_object\<close> in place, and the loop over the properties.\<close>

function (sequential) compile :: "(json \<Rightarrow> string) \<Rightarrow> json \<Rightarrow> nat \<Rightarrow> schema_error + string"
  and compile_props :: "(json \<Rightarrow> string) \<Rightarrow> (string \<times> json) list \<Rightarrow> nat \<Rightarrow> schema_error + string list" where
  "compile tj (JObj obj) depth =
    (if depth > max_depth then Inl Too_deep
     else
       case find (\<lambda>k. map_of obj k \<noteq> None) unsupported_keywords of Some k \<Rightarrow> Inl (Unsupported_keyword k)
       | None \<Rightarrow>
         (case map_of obj ''const'' of Some c \<Rightarrow> Inr (literal_regex tj c)
          | None \<Rightarrow>
            (case as_array (map_of obj ''enum'') of
               Some vals \<Rightarrow> if vals = [] then Inl Empty_enum else Inr (paren (join ''|'' (map (literal_regex tj) vals)))
             | None \<Rightarrow>
               (case as_str (map_of obj ''type'') of None \<Rightarrow> Inl No_type
                | Some ty \<Rightarrow>
                    if ty = ''string'' then
                      (case as_str (map_of obj ''pattern'') of Some p \<Rightarrow> Inr (dquote @ p @ dquote) | None \<Rightarrow> Inr STRING)
                    else if ty = ''integer'' then Inr INTEGER
                    else if ty = ''number'' then Inr NUMBER
                    else if ty = ''boolean'' then Inr BOOL
                    else if ty = ''null'' then Inr NULL
                    else if ty = ''array'' then
                      (case map_of obj ''items'' of None \<Rightarrow> Inl No_items
                       | Some items \<Rightarrow>
                         (case compile tj items (depth + 1) of Inl e \<Rightarrow> Inl e | Inr item \<Rightarrow> array_regex obj item))
                    else if ty = ''object'' then
                      (case as_object (map_of obj ''properties'') of
                         Some props \<Rightarrow>
                           if props = [] then Inr (bslash @ ''{'' @ SP @ bslash @ ''}'')
                           else (case compile_props tj props (depth + 1) of Inl e \<Rightarrow> Inl e
                                 | Inr pairs \<Rightarrow> Inr (braces (join comma pairs)))
                       | None \<Rightarrow> Inr (any_object (any_value (any_json_default_depth - depth - 1))))
                    else Inl (Unknown_type ty)))))"
| "compile tj _ depth = (if depth > max_depth then Inl Too_deep else Inl Not_object)"
| "compile_props tj [] depth = Inr []"
| "compile_props tj ((key, sub) # props) depth =
    (case compile tj sub depth of Inl e \<Rightarrow> Inl e
     | Inr val \<Rightarrow>
       (case compile_props tj props depth of Inl e \<Rightarrow> Inl e
        | Inr pairs \<Rightarrow> Inr ((dquote @ esc key @ dquote @ colon @ val) # pairs)))"
  by pat_completeness auto

termination
  apply (relation "measure (\<lambda>x. case x of Inl (tj, s, d) \<Rightarrow> size s | Inr (tj, kvs, d) \<Rightarrow> size_list (size_prod (\<lambda>_. 0) size) kvs)")
      apply (rule wf_measure)
     apply (simp only: in_measure sum.case prod.case, erule map_of_size)
    apply (simp only: in_measure sum.case prod.case, erule as_object_size)
   apply (simp only: in_measure sum.case prod.case, simp)
  apply (simp only: in_measure sum.case prod.case, simp)
  done

definition schema_to_regex :: "(json \<Rightarrow> string) \<Rightarrow> json \<Rightarrow> schema_error + string" where
  "schema_to_regex tj schema = compile tj schema 0"

definition tool_envelope :: "(json \<Rightarrow> string) \<Rightarrow> string \<Rightarrow> string \<Rightarrow> string" where
  "tool_envelope tj name args =
    braces (dquote @ ''name'' @ dquote @ colon @ literal_regex tj (JStr name) @ comma @ dquote @ ''arguments'' @ dquote @ colon @ args)"

fun tool_alts :: "(json \<Rightarrow> string) \<Rightarrow> (string \<times> json) list \<Rightarrow> schema_error + string list" where
  "tool_alts tj [] = Inr []"
| "tool_alts tj ((name, params) # tools) =
    (case compile tj params 0 of Inl e \<Rightarrow> Inl e
     | Inr args \<Rightarrow> (case tool_alts tj tools of Inl e \<Rightarrow> Inl e | Inr alts \<Rightarrow> Inr (tool_envelope tj name args # alts)))"

definition tool_call_envelope_regex :: "(json \<Rightarrow> string) \<Rightarrow> (string \<times> json) list \<Rightarrow> schema_error + string" where
  "tool_call_envelope_regex tj tools =
    (if tools = [] then Inl No_tools
     else (case tool_alts tj tools of Inl e \<Rightarrow> Inl e | Inr alts \<Rightarrow> Inr (paren (join ''|'' alts))))"

section \<open>What a pattern means\<close>

datatype char_range = One char | Upto char char

datatype rx =
    Chr char | Cls bool "char_range list" | Grp rx | Cat "rx list" | Alt "rx list"
  | Opt rx | Star rx | Plus rx | Times rx nat

fun render_range :: "char_range \<Rightarrow> string" where
  "render_range (One c) = (if c = CHR 0x5C then [c, c] else [c])"
| "render_range (Upto a b) = [a, CHR ''-'', b]"

fun render :: "rx \<Rightarrow> string" where
  "render (Chr c) = esc_char c"
| "render (Cls neg rs) = ''['' @ (if neg then ''^'' else []) @ concat (map render_range rs) @ '']''"
| "render (Grp r) = paren (render r)"
| "render (Cat rs) = concat (map render rs)"
| "render (Alt rs) = join ''|'' (map render rs)"
| "render (Opt r) = render r @ ''?''"
| "render (Star r) = render r @ ''*''"
| "render (Plus r) = render r @ ''+''"
| "render (Times r n) = render r @ ''{'' @ [''0123456789'' ! n] @ ''}''"

text \<open>
  Trees whose printed form reads back as the same tree: a repetition applies to one
  character, a class or a group, and an alternation stands alone or in a group.
\<close>

fun is_alt :: "rx \<Rightarrow> bool" where
  "is_alt (Alt _) = True"
| "is_alt _ = False"

fun is_atom :: "rx \<Rightarrow> bool" where
  "is_atom (Chr _) = True"
| "is_atom (Cls _ _) = True"
| "is_atom (Grp _) = True"
| "is_atom _ = False"

fun range_ok :: "char_range \<Rightarrow> bool" where
  "range_ok (One c) = (c \<notin> {CHR ''^'', CHR '']'', CHR ''['', CHR ''&'', CHR ''~''})"
| "range_ok (Upto a b) = ((of_char a :: nat) \<le> of_char b \<and> {a, b} \<inter> {CHR ''^'', CHR '']'', CHR ''['', CHR 0x5C} = {})"

fun rx_ok :: "rx \<Rightarrow> bool" where
  "rx_ok (Chr c) = True"
| "rx_ok (Cls neg rs) = (rs \<noteq> [] \<and> (\<forall>r \<in> set rs. range_ok r) \<and> One (CHR ''-'') \<notin> set (butlast rs))"
| "rx_ok (Grp r) = rx_ok r"
| "rx_ok (Cat rs) = (\<forall>r \<in> set rs. rx_ok r \<and> \<not> is_alt r)"
| "rx_ok (Alt rs) = (rs \<noteq> [] \<and> (\<forall>r \<in> set rs. rx_ok r \<and> \<not> is_alt r))"
| "rx_ok (Opt r) = (rx_ok r \<and> is_atom r)"
| "rx_ok (Star r) = (rx_ok r \<and> is_atom r)"
| "rx_ok (Plus r) = (rx_ok r \<and> is_atom r)"
| "rx_ok (Times r n) = (rx_ok r \<and> is_atom r \<and> n < 10)"

fun in_range :: "char \<Rightarrow> char_range \<Rightarrow> bool" where
  "in_range c (One d) = (c = d)"
| "in_range c (Upto a b) = ((of_char a :: nat) \<le> of_char c \<and> (of_char c :: nat) \<le> of_char b)"

definition conc :: "string set \<Rightarrow> string set \<Rightarrow> string set" where
  "conc A B = {x @ y |x y. x \<in> A \<and> y \<in> B}"

fun power_of :: "string set \<Rightarrow> nat \<Rightarrow> string set" where
  "power_of A 0 = {[]}"
| "power_of A (Suc n) = conc A (power_of A n)"

fun lang :: "rx \<Rightarrow> string set" where
  "lang (Chr c) = {[c]}"
| "lang (Cls neg rs) = {[c] |c. neg \<noteq> (\<exists>r \<in> set rs. in_range c r)}"
| "lang (Grp r) = lang r"
| "lang (Cat rs) = foldr conc (map lang rs) {[]}"
| "lang (Alt rs) = (\<Union>r \<in> set rs. lang r)"
| "lang (Opt r) = insert [] (lang r)"
| "lang (Star r) = (\<Union>n. power_of (lang r) n)"
| "lang (Plus r) = (\<Union>n. power_of (lang r) (Suc n))"
| "lang (Times r n) = power_of (lang r) n"

section \<open>Which texts are documents of a schema\<close>

definition opt_space :: "string set" where
  "opt_space = {[], '' ''}"

definition digit :: "char \<Rightarrow> bool" where
  "digit c = (48 \<le> (of_char c :: nat) \<and> (of_char c :: nat) \<le> 57)"

definition hex_digit :: "char \<Rightarrow> bool" where
  "hex_digit c = (digit c \<or> (97 \<le> (of_char c :: nat) \<and> (of_char c :: nat) \<le> 102) \<or> (65 \<le> (of_char c :: nat) \<and> (of_char c :: nat) \<le> 70))"

definition string_unit :: "string \<Rightarrow> bool" where
  "string_unit u = ((\<exists>c. u = [c] \<and> c \<noteq> CHR 0x22 \<and> c \<noteq> CHR 0x5C) \<or>
    (\<exists>c \<in> set (dquote @ bslash @ ''/bfnrt''). u = bslash @ [c]) \<or>
    (\<exists>ds. u = bslash @ ''u'' @ ds \<and> length ds = 4 \<and> (\<forall>d \<in> set ds. hex_digit d)))"

definition string_text :: "string set" where
  "string_text = {dquote @ concat us @ dquote |us. \<forall>u \<in> set us. string_unit u}"

definition digits :: "string set" where
  "digits = {ds. ds \<noteq> [] \<and> (\<forall>d \<in> set ds. digit d)}"

definition integer_text :: "string set" where
  "integer_text = {sign @ i |sign i. sign \<in> {[], ''-''} \<and>
    (i = ''0'' \<or> (\<exists>d ds. i = d # ds \<and> digit d \<and> (of_char d :: nat) \<noteq> 48 \<and> (\<forall>d \<in> set ds. digit d)))}"

definition number_text :: "string set" where
  "number_text = {i @ f @ e |i f e. i \<in> integer_text \<and> (f = [] \<or> (\<exists>ds \<in> digits. f = ''.'' @ ds)) \<and>
    (e = [] \<or> (\<exists>c \<in> set ''eE''. \<exists>s \<in> {[], ''+'', ''-''}. \<exists>ds \<in> digits. e = [c] @ s @ ds))}"

text \<open>A comma with at most one space on either side; \<open>listed ws w\<close>: the text \<open>w\<close> is the texts \<open>ws\<close> with separators between them.\<close>

definition separator :: "string set" where
  "separator = {a @ '','' @ b |a b. a \<in> opt_space \<and> b \<in> opt_space}"

inductive listed :: "string list \<Rightarrow> string \<Rightarrow> bool" where
  listed_Nil: "listed [] []"
| listed_one: "listed [x] x"
| listed_more: "listed (y # ys) w \<Longrightarrow> s \<in> separator \<Longrightarrow> listed (x # y # ys) (x @ s @ w)"

inductive_cases listed_NilE: "listed [] w"
inductive_cases listed_oneE: "listed [x] w"
inductive_simps listed_more_iff: "listed (x # y # ys) w"

definition member_text :: "string set \<Rightarrow> string set \<Rightarrow> string set" where
  "member_text ks vs = {k @ a @ '':'' @ b @ v |k a b v. k \<in> ks \<and> v \<in> vs \<and> a \<in> opt_space \<and> b \<in> opt_space}"

definition enclosed :: "char \<Rightarrow> char \<Rightarrow> string set \<Rightarrow> string set" where
  "enclosed l r A = {[l] @ a @ w @ b @ [r] |a w b. w \<in> A \<and> a \<in> opt_space \<and> b \<in> opt_space}"

definition sequence_of :: "string set \<Rightarrow> string set" where
  "sequence_of A = {w. \<exists>ws. set ws \<subseteq> A \<and> listed ws w}"

fun any_doc :: "nat \<Rightarrow> string set" where
  "any_doc 0 = string_text \<union> number_text \<union> {''true'', ''false''} \<union> {''null''}"
| "any_doc (Suc d) = string_text \<union> number_text \<union> {''true'', ''false''} \<union> {''null''} \<union>
    enclosed CHR ''['' CHR '']'' (sequence_of (any_doc d)) \<union>
    enclosed CHR ''{'' CHR ''}'' (sequence_of (member_text string_text (any_doc d)))"

definition any_object_doc :: "nat \<Rightarrow> string set" where
  "any_object_doc d = enclosed CHR ''{'' CHR ''}'' (sequence_of (member_text string_text (any_doc d)))"

definition typed_schema :: "(string \<times> json) list \<Rightarrow> string \<Rightarrow> bool" where
  "typed_schema obj ty = (map_of obj ''const'' = None \<and> as_array (map_of obj ''enum'') = None \<and> as_str (map_of obj ''type'') = Some ty)"

definition min_items :: "(string \<times> json) list \<Rightarrow> nat" where
  "min_items obj = (case as_u64 (map_of obj ''minItems'') of Some n \<Rightarrow> n | None \<Rightarrow> 0)"

definition max_items :: "(string \<times> json) list \<Rightarrow> nat option" where
  "max_items obj = as_u64 (map_of obj ''maxItems'')"

inductive valid :: "(json \<Rightarrow> string) \<Rightarrow> (string \<Rightarrow> rx) \<Rightarrow> json \<Rightarrow> nat \<Rightarrow> string \<Rightarrow> bool" for tj pat where
  v_const: "map_of obj ''const'' = Some c \<Longrightarrow> valid tj pat (JObj obj) d (tj c)"
| v_enum: "map_of obj ''const'' = None \<Longrightarrow> as_array (map_of obj ''enum'') = Some vals \<Longrightarrow> v \<in> set vals \<Longrightarrow>
    valid tj pat (JObj obj) d (tj v)"
| v_string: "typed_schema obj ''string'' \<Longrightarrow> as_str (map_of obj ''pattern'') = None \<Longrightarrow> w \<in> string_text \<Longrightarrow> valid tj pat (JObj obj) d w"
| v_pattern: "typed_schema obj ''string'' \<Longrightarrow> as_str (map_of obj ''pattern'') = Some p \<Longrightarrow> w \<in> lang (pat p) \<Longrightarrow>
    valid tj pat (JObj obj) d (dquote @ w @ dquote)"
| v_integer: "typed_schema obj ''integer'' \<Longrightarrow> w \<in> integer_text \<Longrightarrow> valid tj pat (JObj obj) d w"
| v_number: "typed_schema obj ''number'' \<Longrightarrow> w \<in> number_text \<Longrightarrow> valid tj pat (JObj obj) d w"
| v_boolean: "typed_schema obj ''boolean'' \<Longrightarrow> w \<in> {''true'', ''false''} \<Longrightarrow> valid tj pat (JObj obj) d w"
| v_null: "typed_schema obj ''null'' \<Longrightarrow> valid tj pat (JObj obj) d ''null''"
| v_array: "typed_schema obj ''array'' \<Longrightarrow> map_of obj ''items'' = Some items \<Longrightarrow> max_items obj \<noteq> Some 0 \<Longrightarrow>
    \<forall>x \<in> set ws. valid tj pat items (d + 1) x \<Longrightarrow> min_items obj \<le> length ws \<Longrightarrow>
    (\<forall>m. max_items obj = Some m \<longrightarrow> length ws \<le> m) \<Longrightarrow> listed ws body \<Longrightarrow> w \<in> enclosed CHR ''['' CHR '']'' {body} \<Longrightarrow>
    valid tj pat (JObj obj) d w"
| v_empty_array: "typed_schema obj ''array'' \<Longrightarrow> max_items obj = Some 0 \<Longrightarrow> a \<in> opt_space \<Longrightarrow>
    valid tj pat (JObj obj) d (''['' @ a @ '']'')"
| v_object: "typed_schema obj ''object'' \<Longrightarrow> as_object (map_of obj ''properties'') = Some props \<Longrightarrow> props \<noteq> [] \<Longrightarrow>
    list_all2 (\<lambda>q m. \<exists>v. valid tj pat (snd q) (d + 1) v \<and> m \<in> member_text {dquote @ fst q @ dquote} {v}) props ms \<Longrightarrow>
    listed ms body \<Longrightarrow> w \<in> enclosed CHR ''{'' CHR ''}'' {body} \<Longrightarrow> valid tj pat (JObj obj) d w"
| v_empty_object: "typed_schema obj ''object'' \<Longrightarrow> as_object (map_of obj ''properties'') = Some [] \<Longrightarrow> a \<in> opt_space \<Longrightarrow>
    valid tj pat (JObj obj) d (''{'' @ a @ ''}'')"
| v_any_object: "typed_schema obj ''object'' \<Longrightarrow> as_object (map_of obj ''properties'') = None \<Longrightarrow>
    w \<in> any_object_doc (any_json_default_depth - d - 1) \<Longrightarrow> valid tj pat (JObj obj) d w"

section \<open>Printed forms and languages of the pieces\<close>

text \<open>\<open>denotes p A\<close>: the pattern \<open>p\<close> is the printed form of a tree that stands anywhere and has the language \<open>A\<close>.\<close>

definition denotes :: "string \<Rightarrow> string set \<Rightarrow> bool" where
  "denotes p A = (\<exists>r. render r = p \<and> rx_ok r \<and> \<not> is_alt r \<and> lang r = A)"

definition denotes_atom :: "string \<Rightarrow> string set \<Rightarrow> bool" where
  "denotes_atom p A = (\<exists>r. render r = p \<and> rx_ok r \<and> is_atom r \<and> lang r = A)"

lemma atom_not_alt: "is_atom r \<Longrightarrow> \<not> is_alt r"
  by (cases r) auto

lemma denotes_atomD: "denotes_atom p A \<Longrightarrow> denotes p A"
  by (auto simp: denotes_def denotes_atom_def dest: atom_not_alt)

lemma conc_Nil [simp]: "conc A {[]} = A" "conc {[]} A = A"
  by (auto simp: conc_def)

lemma conc_assoc: "conc (conc A B) C = conc A (conc B C)"
  unfolding conc_def by (auto, metis append_assoc, metis append_assoc)

lemma conc_single: "conc {x} {y} = {x @ y}"
  by (auto simp: conc_def)

lemma denotes_conc: "denotes p A \<Longrightarrow> denotes q B \<Longrightarrow> denotes (p @ q) (conc A B)"
  unfolding denotes_def
proof (elim exE conjE)
  fix r s
  assume r: "render r = p" "rx_ok r" "\<not> is_alt r" "lang r = A" and s: "render s = q" "rx_ok s" "\<not> is_alt s" "lang s = B"
  show "\<exists>r. render r = p @ q \<and> rx_ok r \<and> \<not> is_alt r \<and> lang r = conc A B"
    by (rule exI [of _ "Cat [r, s]"]) (simp add: r s)
qed

lemma denotes_empty: "denotes [] {[]}"
  unfolding denotes_def by (rule exI [of _ "Cat []"]) simp

lemma denotes_char: "denotes_atom (esc_char c) {[c]}"
  unfolding denotes_atom_def by (rule exI [of _ "Chr c"]) simp

lemma denotes_esc: "denotes (esc s) {s}"
proof (induction s)
  case Nil
  then show ?case using denotes_empty by (simp add: esc_def)
next
  case (Cons c s)
  have "denotes (esc_char c @ esc s) (conc {[c]} {s})" by (rule denotes_conc [OF denotes_atomD [OF denotes_char] Cons])
  then show ?case by (simp add: esc_def conc_single)
qed

lemma denotes_plain: "set s \<inter> set meta_chars = {} \<Longrightarrow> denotes s {s}"
proof -
  assume "set s \<inter> set meta_chars = {}"
  then have "esc s = s" by (induction s) (auto simp: esc_def esc_char_def)
  then show ?thesis using denotes_esc [of s] by simp
qed

lemma denotes_meta: "c \<in> set meta_chars \<Longrightarrow> denotes (bslash @ [c]) {[c]}"
  using denotes_atomD [OF denotes_char [of c]] by (simp add: esc_char_def)

lemma denotes_paren: "denotes p A \<Longrightarrow> denotes_atom (paren p) A"
  unfolding denotes_def denotes_atom_def
proof (elim exE conjE)
  fix r assume "render r = p" "rx_ok r" "lang r = A"
  then show "\<exists>r. render r = paren p \<and> rx_ok r \<and> is_atom r \<and> lang r = A" by (intro exI [of _ "Grp r"]) simp
qed

lemma denotes_paren_alt:
  assumes "ps \<noteq> []" "list_all2 denotes ps As"
  shows "denotes_atom (paren (join ''|'' ps)) (\<Union> (set As))"
proof -
  obtain rs where rs: "map render rs = ps" "\<forall>r \<in> set rs. rx_ok r \<and> \<not> is_alt r" "map lang rs = As"
    using assms(2)
  proof (induction ps As arbitrary: thesis rule: list_all2_induct)
    case (Cons p ps A As)
    then obtain rs where "map render rs = ps" "\<forall>r \<in> set rs. rx_ok r \<and> \<not> is_alt r" "map lang rs = As" by blast
    moreover obtain r where "render r = p" "rx_ok r" "\<not> is_alt r" "lang r = A" using Cons(1) by (auto simp: denotes_def)
    ultimately show ?case by (intro Cons(4) [of "r # rs"]) auto
  qed simp
  then show ?thesis using assms(1) unfolding denotes_atom_def
    by (intro exI [of _ "Grp (Alt rs)"]) auto
qed

lemma denotes_opt: "denotes_atom p A \<Longrightarrow> denotes (p @ ''?'') (insert [] A)"
  unfolding denotes_def denotes_atom_def
proof (elim exE conjE)
  fix r assume "render r = p" "rx_ok r" "is_atom r" "lang r = A"
  then show "\<exists>r. render r = p @ ''?'' \<and> rx_ok r \<and> \<not> is_alt r \<and> lang r = insert [] A" by (intro exI [of _ "Opt r"]) simp
qed

lemma denotes_star: "denotes_atom p A \<Longrightarrow> denotes (p @ ''*'') (\<Union>n. power_of A n)"
  unfolding denotes_def denotes_atom_def
proof (elim exE conjE)
  fix r assume "render r = p" "rx_ok r" "is_atom r" "lang r = A"
  then show "\<exists>r. render r = p @ ''*'' \<and> rx_ok r \<and> \<not> is_alt r \<and> lang r = (\<Union>n. power_of A n)" by (intro exI [of _ "Star r"]) simp
qed

lemma denotes_SP: "denotes SP opt_space"
proof -
  have "denotes_atom '' '' {'' ''}" using denotes_char [of "CHR '' ''"] by (simp add: esc_char_def meta_chars_def)
  from denotes_opt [OF this] show ?thesis by (simp add: SP_def opt_space_def)
qed

section \<open>Lists of texts\<close>

lemma conc_mem: "w \<in> conc A B \<longleftrightarrow> (\<exists>x y. w = x @ y \<and> x \<in> A \<and> y \<in> B)"
  by (auto simp: conc_def)

lemma conc3: "w \<in> conc A (conc B C) \<longleftrightarrow> (\<exists>x y z. w = x @ y @ z \<and> x \<in> A \<and> y \<in> B \<and> z \<in> C)"
  unfolding conc_mem by blast

lemma separator_conc: "separator = conc opt_space (conc {'',''} opt_space)"
  by (rule set_eqI) (unfold conc3 separator_def mem_Collect_eq, blast)

lemma denotes_comma: "denotes comma separator"
proof -
  have c: "denotes '','' {'',''}" by (rule denotes_plain) (simp add: meta_chars_def)
  from denotes_conc [OF denotes_SP denotes_conc [OF c denotes_SP]] show ?thesis
    by (simp add: comma_def separator_conc)
qed

definition tail_texts :: "string list \<Rightarrow> string set" where
  "tail_texts ys = foldr (\<lambda>y B. conc separator (conc {y} B)) ys {[]}"

lemma tail_simps [simp]:
  "tail_texts [] = {[]}"
  "tail_texts (y # ys) = conc separator (conc {y} (tail_texts ys))"
  by (simp_all add: tail_texts_def)

lemma tail_Cons_mem: "w \<in> tail_texts (y # ys) \<longleftrightarrow> (\<exists>s t. w = s @ y @ t \<and> s \<in> separator \<and> t \<in> tail_texts ys)"
  unfolding tail_simps conc3 by blast

lemma listed_Cons: "listed (x # ys) w \<longleftrightarrow> (\<exists>t. w = x @ t \<and> t \<in> tail_texts ys)"
proof (induction ys arbitrary: x w)
  case Nil
  then show ?case by (auto intro: listed.intros elim: listed_oneE)
next
  case (Cons y ys)
  have "listed (x # y # ys) w \<longleftrightarrow> (\<exists>s t. s \<in> separator \<and> t \<in> tail_texts ys \<and> w = x @ s @ y @ t)"
    unfolding listed_more_iff Cons.IH by blast
  also have "\<dots> \<longleftrightarrow> (\<exists>t. w = x @ t \<and> t \<in> tail_texts (y # ys))"
    unfolding tail_Cons_mem by blast
  finally show ?case .
qed

lemma listed_Nil_iff [simp]: "listed [] w \<longleftrightarrow> w = []"
  by (auto intro: listed_Nil elim: listed_NilE)

lemma listed_single [simp]: "listed [x] w \<longleftrightarrow> w = x"
  by (auto intro: listed_one elim: listed_oneE)

lemma tail_append: "tail_texts (xs @ ys) = conc (tail_texts xs) (tail_texts ys)"
  by (induction xs) (simp_all add: conc_assoc)

lemma listed_append: "listed (x # xs @ ys) w \<longleftrightarrow> (\<exists>u v. w = u @ v \<and> listed (x # xs) u \<and> v \<in> tail_texts ys)"
  unfolding listed_Cons tail_append conc_mem by (metis append_assoc)

lemma power_tail: "w \<in> power_of (conc separator A) n \<longleftrightarrow> (\<exists>ys. length ys = n \<and> set ys \<subseteq> A \<and> w \<in> tail_texts ys)"
proof (induction n arbitrary: w)
  case (Suc n)
  have "w \<in> power_of (conc separator A) (Suc n) \<longleftrightarrow>
      (\<exists>s y v. w = s @ y @ v \<and> s \<in> separator \<and> y \<in> A \<and> v \<in> power_of (conc separator A) n)"
    unfolding power_of.simps conc_assoc conc3 by blast
  also have "\<dots> \<longleftrightarrow> (\<exists>s y v. w = s @ y @ v \<and> s \<in> separator \<and> y \<in> A \<and> (\<exists>ys. length ys = n \<and> set ys \<subseteq> A \<and> v \<in> tail_texts ys))"
    by (simp only: Suc.IH)
  also have "\<dots> \<longleftrightarrow> (\<exists>y ys. y \<in> A \<and> length ys = n \<and> set ys \<subseteq> A \<and> w \<in> tail_texts (y # ys))"
    unfolding tail_Cons_mem by blast
  also have "\<dots> \<longleftrightarrow> (\<exists>ys. length ys = Suc n \<and> set ys \<subseteq> A \<and> w \<in> tail_texts ys)"
    by (metis (no_types, lifting) length_Suc_conv insert_subset list.simps(15))
  finally show ?case .
qed simp

text \<open>Texts of a list of items with given languages, one after the other.\<close>

definition list_lang :: "string set list \<Rightarrow> string set" where
  "list_lang As = {w. \<exists>ws. list_all2 (\<in>) ws As \<and> listed ws w}"

lemma list_lang_Nil [simp]: "list_lang [] = {[]}"
  by (auto simp: list_lang_def)

lemma list_lang_single [simp]: "list_lang [A] = A"
  by (auto simp: list_lang_def list_all2_Cons2)

lemma list_lang_Cons: "w \<in> list_lang (A # As) \<longleftrightarrow> (\<exists>x ys t. w = x @ t \<and> x \<in> A \<and> list_all2 (\<in>) ys As \<and> t \<in> tail_texts ys)"
  unfolding list_lang_def mem_Collect_eq list_all2_Cons2 using listed_Cons by blast

lemma list_lang_more: "list_lang (A # B # As) = conc A (conc separator (list_lang (B # As)))"
proof (rule set_eqI)
  fix w
  have "w \<in> list_lang (A # B # As) \<longleftrightarrow>
      (\<exists>x y ys t. w = x @ t \<and> x \<in> A \<and> y \<in> B \<and> list_all2 (\<in>) ys As \<and> t \<in> tail_texts (y # ys))"
    unfolding list_lang_Cons list_all2_Cons2 by blast
  also have "\<dots> \<longleftrightarrow>
      (\<exists>x y ys s t. w = x @ s @ y @ t \<and> x \<in> A \<and> y \<in> B \<and> list_all2 (\<in>) ys As \<and> s \<in> separator \<and> t \<in> tail_texts ys)"
    unfolding tail_Cons_mem by blast
  also have "\<dots> \<longleftrightarrow> w \<in> conc A (conc separator (list_lang (B # As)))"
    unfolding conc3 list_lang_Cons by blast
  finally show "w \<in> list_lang (A # B # As) \<longleftrightarrow> w \<in> conc A (conc separator (list_lang (B # As)))" .
qed

lemma denotes_join: "list_all2 denotes ps As \<Longrightarrow> denotes (join comma ps) (list_lang As)"
proof (induction comma ps arbitrary: As rule: join.induct)
  case 1
  then show ?case using denotes_empty by simp
next
  case (2 x)
  then show ?case by (auto simp: list_all2_Cons1)
next
  case (3 x y xs)
  then obtain A B Bs where As: "As = A # B # Bs" "denotes x A" "list_all2 denotes (y # xs) (B # Bs)"
    by (auto simp: list_all2_Cons1)
  show ?case
    using denotes_conc [OF As(2) denotes_conc [OF denotes_comma 3(1) [OF As(3)]]] unfolding As(1) list_lang_more by simp
qed

lemma list_lang_replicate: "list_lang (replicate n A) = {w. \<exists>ws. length ws = n \<and> set ws \<subseteq> A \<and> listed ws w}"
proof -
  have "list_all2 (\<in>) ws (replicate n A) \<longleftrightarrow> length ws = n \<and> set ws \<subseteq> A" for ws
    by (auto simp: list_all2_conv_all_nth subset_eq set_conv_nth)
  then show ?thesis by (simp add: list_lang_def)
qed

lemma union_power_tail: "(\<Union>n. power_of (conc separator A) n) = {w. \<exists>ys. set ys \<subseteq> A \<and> w \<in> tail_texts ys}"
  by (rule set_eqI) (simp add: power_tail)

lemma denotes_repeat:
  assumes "denotes p A"
  shows "denotes (paren (comma @ p) @ ''*'') {w. \<exists>ys. set ys \<subseteq> A \<and> w \<in> tail_texts ys}"
  using denotes_star [OF denotes_paren [OF denotes_conc [OF denotes_comma assms]]] unfolding union_power_tail .

definition listed_texts :: "string set \<Rightarrow> (nat \<Rightarrow> bool) \<Rightarrow> string set" where
  "listed_texts A P = {w. \<exists>ws. set ws \<subseteq> A \<and> P (length ws) \<and> listed ws w}"

lemma sequence_of_eq: "sequence_of A = listed_texts A (\<lambda>n. True)"
  by (simp add: sequence_of_def listed_texts_def)

lemma listed_texts_split:
  assumes "0 < n"
  shows "listed_texts A (\<lambda>m. n \<le> m) = conc (listed_texts A (\<lambda>m. m = n)) {w. \<exists>ys. set ys \<subseteq> A \<and> w \<in> tail_texts ys}"
proof (rule set_eqI)
  fix w
  have "w \<in> listed_texts A (\<lambda>m. n \<le> m) \<longleftrightarrow> (\<exists>xs ys. set xs \<subseteq> A \<and> set ys \<subseteq> A \<and> length xs = n \<and> listed (xs @ ys) w)"
  proof
    assume "w \<in> listed_texts A (\<lambda>m. n \<le> m)"
    then obtain ws where ws: "set ws \<subseteq> A" "n \<le> length ws" "listed ws w" by (auto simp: listed_texts_def)
    then have "set (take n ws) \<subseteq> A" "set (drop n ws) \<subseteq> A" "length (take n ws) = n" "listed (take n ws @ drop n ws) w"
      using set_take_subset [of n ws] set_drop_subset [of n ws] by auto
    then show "\<exists>xs ys. set xs \<subseteq> A \<and> set ys \<subseteq> A \<and> length xs = n \<and> listed (xs @ ys) w" by blast
  next
    assume "\<exists>xs ys. set xs \<subseteq> A \<and> set ys \<subseteq> A \<and> length xs = n \<and> listed (xs @ ys) w"
    then obtain xs ys where "set (xs @ ys) \<subseteq> A" "n \<le> length (xs @ ys)" "listed (xs @ ys) w" by auto
    then show "w \<in> listed_texts A (\<lambda>m. n \<le> m)" unfolding listed_texts_def by blast
  qed
  also have "\<dots> \<longleftrightarrow> (\<exists>u v. w = u @ v \<and> (\<exists>xs. set xs \<subseteq> A \<and> length xs = n \<and> listed xs u) \<and> (\<exists>ys. set ys \<subseteq> A \<and> v \<in> tail_texts ys))"
  proof -
    have "listed (xs @ ys) w \<longleftrightarrow> (\<exists>u v. w = u @ v \<and> listed xs u \<and> v \<in> tail_texts ys)" if "length xs = n" for xs ys
      using that assms listed_append by (cases xs) auto
    then show ?thesis by blast
  qed
  also have "\<dots> \<longleftrightarrow> w \<in> conc (listed_texts A (\<lambda>m. m = n)) {w. \<exists>ys. set ys \<subseteq> A \<and> w \<in> tail_texts ys}"
    by (simp add: conc_mem listed_texts_def)
  finally show "w \<in> listed_texts A (\<lambda>m. n \<le> m) \<longleftrightarrow> w \<in> conc (listed_texts A (\<lambda>m. m = n)) {w. \<exists>ys. set ys \<subseteq> A \<and> w \<in> tail_texts ys}" .
qed

lemma listed_texts_one: "listed_texts A (\<lambda>m. m = Suc 0) = A"
proof -
  have "\<exists>ws. set ws \<subseteq> A \<and> length ws = Suc 0 \<and> listed ws x" if "x \<in> A" for x
    using that by (intro exI [of _ "[x]"]) simp
  then show ?thesis by (auto simp: listed_texts_def length_Suc_conv)
qed

lemma listed_texts_insert: "insert [] (listed_texts A (\<lambda>m. Suc 0 \<le> m \<and> P m)) = listed_texts A (\<lambda>m. m = 0 \<or> P m)" (is "?L = ?R")
proof (rule set_eqI)
  fix w
  have "w \<in> ?R \<longleftrightarrow> w = [] \<or> (\<exists>ws. set ws \<subseteq> A \<and> Suc 0 \<le> length ws \<and> P (length ws) \<and> listed ws w)"
  proof
    assume "w \<in> ?R"
    then obtain ws where "set ws \<subseteq> A" "length ws = 0 \<or> P (length ws)" "listed ws w" by (auto simp: listed_texts_def)
    then show "w = [] \<or> (\<exists>ws. set ws \<subseteq> A \<and> Suc 0 \<le> length ws \<and> P (length ws) \<and> listed ws w)"
      by (cases ws) auto
  next
    assume "w = [] \<or> (\<exists>ws. set ws \<subseteq> A \<and> Suc 0 \<le> length ws \<and> P (length ws) \<and> listed ws w)"
    moreover have "[] \<in> ?R" unfolding listed_texts_def using listed_Nil by (intro CollectI exI [of _ "[]"]) simp
    ultimately show "w \<in> ?R" unfolding listed_texts_def by blast
  qed
  then show "w \<in> ?L \<longleftrightarrow> w \<in> ?R" by (auto simp: listed_texts_def)
qed

lemma denotes_sequence:
  assumes "denotes p A"
  shows "denotes (paren (p @ paren (comma @ p) @ ''*'') @ ''?'') (sequence_of A)"
proof -
  have e: "conc A {w. \<exists>ys. set ys \<subseteq> A \<and> w \<in> tail_texts ys} = listed_texts A (\<lambda>m. Suc 0 \<le> m \<and> True)"
    using listed_texts_split [of "Suc 0" A] by (simp add: listed_texts_one)
  show ?thesis
    using denotes_opt [OF denotes_paren [OF denotes_conc [OF assms denotes_repeat [OF assms]]]]
    unfolding e listed_texts_insert sequence_of_eq by simp
qed

lemma denotes_copies: "denotes p A \<Longrightarrow> denotes (join comma (replicate n p)) (listed_texts A (\<lambda>m. m = n))"
proof -
  assume "denotes p A"
  then have "list_all2 denotes (replicate n p) (replicate n A)" by (simp add: list_all2_conv_all_nth)
  from denotes_join [OF this] show ?thesis
    unfolding list_lang_replicate listed_texts_def by (simp add: conj_ac)
qed

lemma denotes_array_body:
  assumes p: "denotes p A" and mx: "\<forall>m. mx = Some m \<longrightarrow> mn \<le> m \<and> 0 < m"
  shows "denotes (array_body p mn mx) (listed_texts A (\<lambda>n. mn \<le> n \<and> (\<forall>m. mx = Some m \<longrightarrow> n \<le> m)))"
proof (cases mx)
  case None
  show ?thesis
  proof (cases "mn = 0")
    case True
    then show ?thesis using None denotes_sequence [OF p] by (simp add: array_body_def sequence_of_eq)
  next
    case False
    then show ?thesis
      using None denotes_conc [OF denotes_copies [OF p, of mn] denotes_repeat [OF p]] listed_texts_split [of mn A]
      by (simp add: array_body_def)
  qed
next
  case (Some m)
  let ?ns = "[max mn 1 ..< m + 1]"
  have ne: "map (\<lambda>count. join comma (replicate count p)) ?ns \<noteq> []" using mx Some by auto
  have "list_all2 denotes (map (\<lambda>count. join comma (replicate count p)) ?ns) (map (\<lambda>n. listed_texts A (\<lambda>k. k = n)) ?ns)"
    using denotes_copies [OF p] by (simp add: list_all2_conv_all_nth)
  note D = denotes_paren_alt [OF ne this]
  have "\<Union> (set (map (\<lambda>n. listed_texts A (\<lambda>k. k = n)) ?ns)) = (\<Union>n \<in> {max mn 1 ..< m + 1}. listed_texts A (\<lambda>k. k = n))"
    by (simp only: set_map set_upt)
  also have "\<dots> = listed_texts A (\<lambda>n. Suc 0 \<le> n \<and> mn \<le> n \<and> n \<le> m)"
    unfolding listed_texts_def by fastforce
  finally have "\<Union> (set (map (\<lambda>n. listed_texts A (\<lambda>k. k = n)) ?ns)) = listed_texts A (\<lambda>n. Suc 0 \<le> n \<and> mn \<le> n \<and> n \<le> m)" .
  note D = D [unfolded this]
  show ?thesis
  proof (cases "mn = 0")
    case True
    have "denotes (paren (paren (join ''|'' (map (\<lambda>count. join comma (replicate count p)) ?ns))) @ ''?'')
        (listed_texts A (\<lambda>n. n = 0 \<or> (mn \<le> n \<and> n \<le> m)))"
      using denotes_opt [OF denotes_paren [OF denotes_atomD [OF D]]] unfolding listed_texts_insert .
    moreover have "(\<lambda>n. n = 0 \<or> (mn \<le> n \<and> n \<le> m)) = (\<lambda>n. mn \<le> n \<and> (\<forall>k. mx = Some k \<longrightarrow> n \<le> k))"
      using True Some by auto
    ultimately show ?thesis using True Some by (simp add: array_body_def Let_def)
  next
    case False
    have "(\<lambda>n. Suc 0 \<le> n \<and> mn \<le> n \<and> n \<le> m) = (\<lambda>n. mn \<le> n \<and> (\<forall>k. mx = Some k \<longrightarrow> n \<le> k))"
      using False Some by auto
    then show ?thesis using False Some denotes_atomD [OF D] by (simp add: array_body_def Let_def)
  qed
qed

section \<open>The primitive patterns\<close>

lemma conc_chars: "w \<in> conc {[c] |c. P c} B \<longleftrightarrow> (\<exists>c v. w = c # v \<and> P c \<and> v \<in> B)"
proof
  assume "\<exists>c v. w = c # v \<and> P c \<and> v \<in> B"
  then obtain c v where "w = [c] @ v" "P c" "v \<in> B" by auto
  then show "w \<in> conc {[c] |c. P c} B" unfolding conc_mem by blast
qed (auto simp: conc_mem)

lemma conc_insert_Nil: "w \<in> conc (insert [] A) B \<longleftrightarrow> w \<in> B \<or> w \<in> conc A B"
  by (auto simp: conc_mem)

lemma power_chars: "w \<in> power_of {[c] |c. P c} n \<longleftrightarrow> length w = n \<and> (\<forall>c \<in> set w. P c)"
proof (induction n arbitrary: w)
  case (Suc n)
  have "w \<in> power_of {[c] |c. P c} (Suc n) \<longleftrightarrow> (\<exists>c v. w = [c] @ v \<and> P c \<and> length v = n \<and> (\<forall>c \<in> set v. P c))"
    unfolding power_of.simps conc_mem Suc.IH by blast
  then show ?case by (cases w) auto
qed auto

lemma power_units: "w \<in> power_of A n \<longleftrightarrow> (\<exists>us. length us = n \<and> set us \<subseteq> A \<and> w = concat us)"
proof (induction n arbitrary: w)
  case (Suc n)
  have "w \<in> power_of A (Suc n) \<longleftrightarrow> (\<exists>u us. u \<in> A \<and> length us = n \<and> set us \<subseteq> A \<and> w = u @ concat us)"
    unfolding power_of.simps conc_mem Suc.IH by blast
  also have "\<dots> \<longleftrightarrow> (\<exists>us. length us = Suc n \<and> set us \<subseteq> A \<and> w = concat us)"
    unfolding length_Suc_conv by fastforce
  finally show ?case .
qed simp

definition digit_class :: rx where
  "digit_class = Cls False [Upto CHR ''0'' CHR ''9'']"

lemma digit_class [simp]:
  "render digit_class = ''[0-9]''" "rx_ok digit_class" "is_atom digit_class" "lang digit_class = {[c] |c. digit c}"
  by (simp_all add: digit_class_def digit_def)

lemma star_digits: "(\<Union>n. power_of {[c] |c. digit c} n) = {ds. \<forall>d \<in> set ds. digit d}"
  by (rule set_eqI) (simp add: power_chars)

lemma plus_digits: "(\<Union>n. power_of {[c] |c. digit c} (Suc n)) = digits"
proof (rule set_eqI)
  fix w
  have "w \<in> (\<Union>n. power_of {[c] |c. digit c} (Suc n)) \<longleftrightarrow> (\<exists>n. length w = Suc n \<and> (\<forall>c \<in> set w. digit c))"
    by (simp only: UN_iff power_chars) blast
  then show "w \<in> (\<Union>n. power_of {[c] |c. digit c} (Suc n)) \<longleftrightarrow> w \<in> digits"
    by (cases w) (auto simp: digits_def)
qed

definition integer_rx :: "rx list" where
  "integer_rx = [Opt (Chr CHR ''-''), Grp (Alt [Chr CHR ''0'', Cat [Cls False [Upto CHR ''1'' CHR ''9''], Star digit_class]])]"

lemma render_integer: "concat (map render integer_rx) = INTEGER"
  by (simp add: integer_rx_def INTEGER_def paren_def esc_char_def meta_chars_def)

lemma ok_integer: "\<forall>r \<in> set integer_rx. rx_ok r \<and> \<not> is_alt r"
  by (simp add: integer_rx_def)

lemma lang_integer: "foldr conc (map lang integer_rx) X = conc integer_text X"
proof -
  have one: "{[c] |c. (49 \<le> (of_char c :: nat)) \<and> (of_char c :: nat) \<le> 57} = {[c] |c. digit c \<and> (of_char c :: nat) \<noteq> 48}"
    by (auto simp: digit_def)
  have i: "i \<in> insert ''0'' (conc {[c] |c. digit c \<and> (of_char c :: nat) \<noteq> 48} {ds. \<forall>d \<in> set ds. digit d}) \<longleftrightarrow>
      i = ''0'' \<or> (\<exists>d ds. i = d # ds \<and> digit d \<and> (of_char d :: nat) \<noteq> 48 \<and> (\<forall>d \<in> set ds. digit d))" for i
    unfolding insert_iff conc_chars by simp
  have "conc (insert [] {''-''}) (insert ''0'' (conc {[c] |c. digit c \<and> (of_char c :: nat) \<noteq> 48} {ds. \<forall>d \<in> set ds. digit d})) = integer_text"
    by (rule set_eqI, unfold conc_mem i integer_text_def mem_Collect_eq) blast
  then show ?thesis
    unfolding integer_rx_def by (simp add: one star_digits conc_assoc [symmetric])
qed

lemma denotes_integer: "denotes INTEGER integer_text"
  unfolding denotes_def
  by (intro exI [of _ "Cat integer_rx"]) (use lang_integer [of "{[]}"] in \<open>simp add: render_integer ok_integer\<close>)

definition number_rx :: rx where
  "number_rx = Cat (integer_rx @ [Opt (Grp (Cat [Chr CHR ''.'', Plus digit_class])),
     Opt (Grp (Cat [Cls False [One CHR ''e'', One CHR ''E''], Opt (Cls False [One CHR ''+'', One CHR ''-'']), Plus digit_class]))])"

lemma denotes_number: "denotes NUMBER number_text"
proof -
  let ?F = "insert [] (conc {''.''} digits)" and ?E = "insert [] (conc {[c] |c. c = CHR ''e'' \<or> c = CHR ''E''} (conc (insert [] {[c] |c. c = CHR ''+'' \<or> c = CHR ''-''}) digits))"
  have "render number_rx = concat (map render integer_rx) @ ''('' @ bslash @ ''.[0-9]+)?([eE][+-]?[0-9]+)?''"
    by (simp add: number_rx_def paren_def esc_char_def meta_chars_def)
  then have r: "render number_rx = NUMBER" unfolding render_integer by (simp add: INTEGER_def NUMBER_def)
  have ok: "rx_ok number_rx" using ok_integer by (simp add: number_rx_def ball_Un)
  have l: "lang number_rx = conc integer_text (conc ?F ?E)"
    by (simp add: number_rx_def lang_integer plus_digits [unfolded power_of.simps])
  have "conc integer_text (conc ?F ?E) = number_text"
  proof (rule set_eqI)
    fix w
    have f: "f \<in> ?F \<longleftrightarrow> f = [] \<or> (\<exists>ds \<in> digits. f = ''.'' @ ds)" for f by (auto simp: conc_mem)
    have e: "e \<in> ?E \<longleftrightarrow> e = [] \<or> (\<exists>c \<in> set ''eE''. \<exists>s \<in> {[], ''+'', ''-''}. \<exists>ds \<in> digits. e = [c] @ s @ ds)" for e
      unfolding insert_iff conc_chars conc_insert_Nil by auto
    show "w \<in> conc integer_text (conc ?F ?E) \<longleftrightarrow> w \<in> number_text"
      unfolding conc3 f e number_text_def by blast
  qed
  then show ?thesis unfolding denotes_def using r ok l by (intro exI [of _ number_rx]) (simp add: number_rx_def)
qed

definition unit_rx :: rx where
  "unit_rx = Alt [Cls True [One CHR 0x22, One CHR 0x5C],
     Cat [Chr CHR 0x5C, Grp (Alt [Cls False (map One (dquote @ bslash @ ''/bfnrt'')),
       Cat [Chr CHR ''u'', Times (Cls False [Upto CHR ''0'' CHR ''9'', Upto CHR ''a'' CHR ''f'', Upto CHR ''A'' CHR ''F'']) 4]])]]"

definition string_rx :: rx where
  "string_rx = Cat [Chr CHR 0x22, Star (Grp unit_rx), Chr CHR 0x22]"

lemma render_string: "render string_rx = STRING"
  by (simp add: string_rx_def unit_rx_def STRING_def paren_def esc_char_def meta_chars_def)

lemma lang_unit: "u \<in> lang unit_rx \<longleftrightarrow> string_unit u"
proof -
  have hex: "{[c] |c. (48 \<le> (of_char c :: nat) \<and> (of_char c :: nat) \<le> 57) \<or>
      ((97 \<le> (of_char c :: nat) \<and> (of_char c :: nat) \<le> 102) \<or> (65 \<le> (of_char c :: nat) \<and> (of_char c :: nat) \<le> 70))} = {[c] |c. hex_digit c}"
    by (simp add: hex_digit_def digit_def)
  have l: "lang unit_rx = {[c] |c. c \<noteq> CHR 0x22 \<and> c \<noteq> CHR 0x5C} \<union>
      conc {bslash} ({[c] |c. c \<in> set (dquote @ bslash @ ''/bfnrt'')} \<union> conc {''u''} (power_of {[c] |c. hex_digit c} 4))"
    unfolding unit_rx_def by (simp add: hex del: power_of.simps)
  have "u \<in> conc {bslash} ({[c] |c. c \<in> set (dquote @ bslash @ ''/bfnrt'')} \<union> conc {''u''} (power_of {[c] |c. hex_digit c} 4)) \<longleftrightarrow>
      (\<exists>c \<in> set (dquote @ bslash @ ''/bfnrt''). u = bslash @ [c]) \<or> (\<exists>ds. u = bslash @ ''u'' @ ds \<and> length ds = 4 \<and> (\<forall>d \<in> set ds. hex_digit d))"
    unfolding conc_mem Un_iff power_chars by blast
  then show ?thesis unfolding l Un_iff string_unit_def by blast
qed

lemma denotes_string: "denotes STRING string_text"
proof -
  have "(\<Union>n. power_of (lang unit_rx) n) = {concat us |us. \<forall>u \<in> set us. string_unit u}"
  proof (rule set_eqI)
    fix w
    have "w \<in> (\<Union>n. power_of (lang unit_rx) n) \<longleftrightarrow> (\<exists>us. set us \<subseteq> lang unit_rx \<and> w = concat us)"
      unfolding UN_iff power_units by blast
    then show "w \<in> (\<Union>n. power_of (lang unit_rx) n) \<longleftrightarrow> w \<in> {concat us |us. \<forall>u \<in> set us. string_unit u}"
      unfolding subset_eq lang_unit by blast
  qed
  then have l: "lang string_rx = conc {dquote} (conc {concat us |us. \<forall>u \<in> set us. string_unit u} {dquote})"
    by (simp add: string_rx_def)
  have "conc {dquote} (conc {concat us |us. \<forall>u \<in> set us. string_unit u} {dquote}) = string_text"
    by (rule set_eqI) (unfold conc3 string_text_def mem_Collect_eq, blast)
  moreover have "rx_ok string_rx \<and> \<not> is_alt string_rx" by (simp add: string_rx_def unit_rx_def)
  ultimately show ?thesis unfolding denotes_def using render_string l by blast
qed

lemma denotes_bool: "denotes BOOL {''true'', ''false''}"
proof -
  have "denotes ''true'' {''true''}" "denotes ''false'' {''false''}"
    by (rule denotes_plain, simp add: meta_chars_def)+
  then have "denotes_atom (paren (join ''|'' [''true'', ''false''])) (\<Union> (set [{''true''}, {''false''}]))"
    by (intro denotes_paren_alt) simp_all
  moreover have "BOOL = paren (join ''|'' [''true'', ''false''])" by (simp add: BOOL_def paren_def)
  ultimately show ?thesis using denotes_atomD by (simp add: insert_commute)
qed

lemma denotes_null: "denotes NULL {''null''}"
  unfolding NULL_def by (rule denotes_plain) (simp add: meta_chars_def)

section \<open>Brackets, members and arbitrary values\<close>

lemma denotes_enclosed:
  assumes "denotes p A" "l \<in> set meta_chars" "r \<in> set meta_chars"
  shows "denotes (bslash @ [l] @ SP @ p @ SP @ bslash @ [r]) (enclosed l r A)"
proof -
  have "denotes ((bslash @ [l]) @ SP @ p @ SP @ (bslash @ [r])) (conc {[l]} (conc opt_space (conc A (conc opt_space {[r]}))))"
    by (intro denotes_conc denotes_meta denotes_SP assms)
  moreover have "conc {[l]} (conc opt_space (conc A (conc opt_space {[r]}))) = enclosed l r A"
  proof (rule set_eqI)
    fix w
    have c5: "w \<in> conc A1 (conc A2 (conc A3 (conc A4 A5))) \<longleftrightarrow>
        (\<exists>x1 x2 x3 x4 x5. w = x1 @ x2 @ x3 @ x4 @ x5 \<and> x1 \<in> A1 \<and> x2 \<in> A2 \<and> x3 \<in> A3 \<and> x4 \<in> A4 \<and> x5 \<in> A5)" for A1 A2 A3 A4 A5
      unfolding conc_mem by blast
    show "w \<in> conc {[l]} (conc opt_space (conc A (conc opt_space {[r]}))) \<longleftrightarrow> w \<in> enclosed l r A"
      unfolding c5 enclosed_def mem_Collect_eq by blast
  qed
  ultimately show ?thesis by simp
qed

lemma denotes_brackets: "denotes p A \<Longrightarrow> denotes (brackets p) (enclosed CHR ''['' CHR '']'' A)"
  using denotes_enclosed [of p A "CHR ''[''" "CHR '']''"] by (simp add: brackets_def meta_chars_def)

lemma denotes_braces: "denotes p A \<Longrightarrow> denotes (braces p) (enclosed CHR ''{'' CHR ''}'' A)"
  using denotes_enclosed [of p A "CHR ''{''" "CHR ''}''"] by (simp add: braces_def meta_chars_def)

lemma denotes_member: "denotes k K \<Longrightarrow> denotes v V \<Longrightarrow> denotes (k @ colon @ v) (member_text K V)"
proof -
  assume kv: "denotes k K" "denotes v V"
  have "denotes '':'' {'':''}" by (rule denotes_plain) (simp add: meta_chars_def)
  with kv have "denotes (k @ SP @ '':'' @ SP @ v) (conc K (conc opt_space (conc {'':''} (conc opt_space V))))"
    by (intro denotes_conc denotes_SP)
  moreover have "conc K (conc opt_space (conc {'':''} (conc opt_space V))) = member_text K V"
  proof (rule set_eqI)
    fix w
    have "w \<in> conc K (conc opt_space (conc {'':''} (conc opt_space V))) \<longleftrightarrow>
        (\<exists>x a c b y. w = x @ a @ c @ b @ y \<and> x \<in> K \<and> a \<in> opt_space \<and> c \<in> {'':''} \<and> b \<in> opt_space \<and> y \<in> V)"
      unfolding conc_mem by blast
    then show "w \<in> conc K (conc opt_space (conc {'':''} (conc opt_space V))) \<longleftrightarrow> w \<in> member_text K V"
      unfolding member_text_def by blast
  qed
  ultimately show ?thesis by (simp add: colon_def)
qed

lemma denotes_any_object: "denotes v (any_doc d) \<Longrightarrow> denotes (any_object v) (any_object_doc d)"
  unfolding any_object_def any_object_doc_def
  using denotes_braces [OF denotes_sequence [OF denotes_member [OF denotes_string, of v "any_doc d"]]] by simp

lemma denotes_any_array: "denotes v A \<Longrightarrow> denotes (any_array v) (enclosed CHR ''['' CHR '']'' (sequence_of A))"
  unfolding any_array_def by (intro denotes_brackets denotes_sequence)

lemma denotes_any_value: "denotes_atom (any_value d) (any_doc d)"
proof (induction d)
  case 0
  have "denotes_atom (any_value 0) (\<Union> (set [string_text, number_text, {''true'', ''false''}, {''null''}]))"
    unfolding any_value.simps
    by (intro denotes_paren_alt) (simp_all add: denotes_string denotes_number denotes_bool denotes_null)
  then show ?case by (simp add: Un_assoc)
next
  case (Suc d)
  note inner = denotes_atomD [OF Suc]
  have "denotes_atom (any_value (Suc d)) (\<Union> (set [string_text, number_text, {''true'', ''false''}, {''null''},
      enclosed CHR ''['' CHR '']'' (sequence_of (any_doc d)), any_object_doc d]))"
    unfolding any_value.simps Let_def
    by (intro denotes_paren_alt)
       (simp_all add: denotes_string denotes_number denotes_bool denotes_null denotes_any_array [OF inner] denotes_any_object [OF inner])
  then show ?case by (simp add: Un_assoc any_object_doc_def)
qed

section \<open>The compiler denotes the documents of the schema\<close>

inductive_simps valid_obj: "valid tj pat (JObj obj) d w"

fun patterns :: "json \<Rightarrow> string set" where
  "patterns (JObj kvs) = {p. (''pattern'', JStr p) \<in> set kvs} \<union> (\<Union>kv \<in> set kvs. patterns (snd kv))"
| "patterns (JArr vs) = (\<Union>v \<in> set vs. patterns v)"
| "patterns _ = {}"

text \<open>\<open>pat\<close> reads the \<^verbatim>\<open>pattern\<close> strings of a schema, which the compiler embeds as they are.\<close>

definition patterns_ok :: "(string \<Rightarrow> rx) \<Rightarrow> json \<Rightarrow> bool" where
  "patterns_ok pat s = (\<forall>p \<in> patterns s. render (pat p) = p \<and> rx_ok (pat p) \<and> \<not> is_alt (pat p))"

lemma as_strD: "as_str v = Some s \<Longrightarrow> v = Some (JStr s)"
  by (cases v rule: as_str.cases) auto

lemma as_objectD: "as_object v = Some kvs \<Longrightarrow> v = Some (JObj kvs)"
  by (cases v rule: as_object.cases) auto

lemma patterns_ok_sub: "patterns_ok pat (JObj obj) \<Longrightarrow> map_of obj k = Some v \<Longrightarrow> patterns_ok pat v"
  by (fastforce simp: patterns_ok_def dest: map_of_SomeD)

lemma patterns_ok_prop: "patterns_ok pat (JObj props) \<Longrightarrow> q \<in> set props \<Longrightarrow> patterns_ok pat (snd q)"
  by (auto simp: patterns_ok_def)

lemma pattern_denotes:
  "patterns_ok pat (JObj obj) \<Longrightarrow> as_str (map_of obj ''pattern'') = Some p \<Longrightarrow> denotes p (lang (pat p))"
  unfolding denotes_def
  by (intro exI [of _ "pat p"]) (auto simp: patterns_ok_def dest!: as_strD map_of_SomeD)

lemma denotes_quote: "denotes dquote {dquote}"
  by (rule denotes_plain) (simp add: meta_chars_def)

lemma denotes_quoted: "denotes p A \<Longrightarrow> denotes (dquote @ p @ dquote) {dquote @ w @ dquote |w. w \<in> A}"
proof -
  assume "denotes p A"
  from denotes_conc [OF denotes_quote denotes_conc [OF this denotes_quote]]
  have "denotes (dquote @ p @ dquote) (conc {dquote} (conc A {dquote}))" .
  moreover have "conc {dquote} (conc A {dquote}) = {dquote @ w @ dquote |w. w \<in> A}"
    by (rule set_eqI) (unfold conc3 mem_Collect_eq, blast)
  ultimately show ?thesis by simp
qed

lemma denotes_literals: "denotes_atom (paren (join ''|'' (map (literal_regex tj) vals))) (tj ` set vals)" if "vals \<noteq> []"
proof -
  have "list_all2 denotes (map (literal_regex tj) vals) (map (\<lambda>v. {tj v}) vals)"
    by (simp add: list_all2_conv_all_nth literal_regex_def denotes_esc)
  from denotes_paren_alt [OF _ this] that show ?thesis by (simp add: UNION_singleton_eq_range)
qed

lemma valid_types:
  "typed_schema obj ''integer'' \<Longrightarrow> {w. valid tj pat (JObj obj) d w} = integer_text"
  "typed_schema obj ''number'' \<Longrightarrow> {w. valid tj pat (JObj obj) d w} = number_text"
  "typed_schema obj ''boolean'' \<Longrightarrow> {w. valid tj pat (JObj obj) d w} = {''true'', ''false''}"
  "typed_schema obj ''null'' \<Longrightarrow> {w. valid tj pat (JObj obj) d w} = {''null''}"
  by (auto simp: valid_obj typed_schema_def)

lemma valid_string:
  "typed_schema obj ''string'' \<Longrightarrow> {w. valid tj pat (JObj obj) d w} =
    (case as_str (map_of obj ''pattern'') of None \<Rightarrow> string_text | Some p \<Rightarrow> {dquote @ w @ dquote |w. w \<in> lang (pat p)})"
  by (auto simp: valid_obj typed_schema_def split: option.split)

lemma enclosed_in: "w \<in> enclosed l r A \<longleftrightarrow> (\<exists>x. x \<in> A \<and> w \<in> enclosed l r {x})"
  by (auto simp: enclosed_def)

lemma valid_array:
  assumes "typed_schema obj ''array''" "map_of obj ''items'' = Some items"
  shows "{w. valid tj pat (JObj obj) d w} =
    (if max_items obj = Some 0 then {''['' @ a @ '']'' |a. a \<in> opt_space}
     else enclosed CHR ''['' CHR '']'' (listed_texts {x. valid tj pat items (d + 1) x}
       (\<lambda>n. min_items obj \<le> n \<and> (\<forall>m. max_items obj = Some m \<longrightarrow> n \<le> m))))"
proof (cases "max_items obj = Some 0")
  case True
  then show ?thesis using assms by (auto simp: valid_obj typed_schema_def)
next
  case False
  have "valid tj pat (JObj obj) d w \<longleftrightarrow> (\<exists>ws body. (\<forall>x \<in> set ws. valid tj pat items (d + 1) x) \<and> min_items obj \<le> length ws \<and>
      (\<forall>m. max_items obj = Some m \<longrightarrow> length ws \<le> m) \<and> listed ws body \<and> w \<in> enclosed CHR ''['' CHR '']'' {body})" for w
    using assms False by (simp add: valid_obj typed_schema_def)
  moreover have "w \<in> enclosed CHR ''['' CHR '']'' (listed_texts {x. valid tj pat items (d + 1) x}
        (\<lambda>n. min_items obj \<le> n \<and> (\<forall>m. max_items obj = Some m \<longrightarrow> n \<le> m))) \<longleftrightarrow>
      (\<exists>ws body. (\<forall>x \<in> set ws. valid tj pat items (d + 1) x) \<and> min_items obj \<le> length ws \<and>
      (\<forall>m. max_items obj = Some m \<longrightarrow> length ws \<le> m) \<and> listed ws body \<and> w \<in> enclosed CHR ''['' CHR '']'' {body})" for w
    unfolding enclosed_in [of w _ _ "listed_texts _ _"] unfolding listed_texts_def mem_Collect_eq subset_eq by blast
  ultimately show ?thesis using False by (simp add: set_eq_iff)
qed

lemma valid_object:
  assumes "typed_schema obj ''object''"
  shows "{w. valid tj pat (JObj obj) d w} =
    (case as_object (map_of obj ''properties'') of None \<Rightarrow> any_object_doc (any_json_default_depth - d - 1)
     | Some props \<Rightarrow>
       if props = [] then {''{'' @ a @ ''}'' |a. a \<in> opt_space}
       else enclosed CHR ''{'' CHR ''}'' (list_lang (map (\<lambda>q. {m. \<exists>v. valid tj pat (snd q) (d + 1) v \<and> m \<in> member_text {dquote @ fst q @ dquote} {v}}) props)))"
proof (cases "as_object (map_of obj ''properties'')")
  case None
  then show ?thesis using assms by (auto simp: valid_obj typed_schema_def)
next
  case (Some props)
  show ?thesis
  proof (cases "props = []")
    case True
    then show ?thesis using assms Some by (auto simp: valid_obj typed_schema_def)
  next
    case False
    have "valid tj pat (JObj obj) d w \<longleftrightarrow> (\<exists>ms body. list_all2 (\<lambda>q m. \<exists>v. valid tj pat (snd q) (d + 1) v \<and> m \<in> member_text {dquote @ fst q @ dquote} {v}) props ms \<and>
        listed ms body \<and> w \<in> enclosed CHR ''{'' CHR ''}'' {body})" for w
      using assms Some False by (simp add: valid_obj typed_schema_def)
    moreover have "list_all2 (\<in>) ms (map F props) \<longleftrightarrow> list_all2 (\<lambda>q m. m \<in> F q) props ms" for ms :: "string list" and F
      by (auto simp: list_all2_conv_all_nth)
    ultimately show ?thesis using Some False by (auto simp: list_lang_def enclosed_def)
  qed
qed

lemma array_regex_correct:
  assumes "typed_schema obj ''array''" "map_of obj ''items'' = Some items"
    and "denotes item {x. valid tj pat items (d + 1) x}" "array_regex obj item = Inr p"
  shows "denotes p {w. valid tj pat (JObj obj) d w}"
proof -
  let ?A = "{x. valid tj pat items (d + 1) x}"
  have ar: "array_regex obj item =
      (case max_items obj of
         Some m \<Rightarrow> if m < min_items obj then Inl Max_below_min else if m = 0 then Inr (bslash @ ''['' @ SP @ bslash @ '']'')
           else Inr (brackets (array_body item (min_items obj) (max_items obj)))
       | None \<Rightarrow> Inr (brackets (array_body item (min_items obj) (max_items obj))))"
    unfolding array_regex_def Let_def min_items_def max_items_def by (rule refl)
  show ?thesis
  proof (cases "max_items obj = Some 0")
    case True
    have "denotes ((bslash @ ''['') @ SP @ bslash @ '']'') (conc {''[''} (conc opt_space {'']''}))"
      by (intro denotes_conc denotes_meta denotes_SP) (simp_all add: meta_chars_def)
    moreover have "conc {''[''} (conc opt_space {'']''}) = {''['' @ a @ '']'' |a. a \<in> opt_space}"
      by (rule set_eqI) (unfold conc3 mem_Collect_eq, blast)
    moreover have "p = (bslash @ ''['') @ SP @ bslash @ '']''" using assms(4) True ar by (simp split: if_splits)
    ultimately show ?thesis using valid_array [OF assms(1,2), of tj pat d] True by simp
  next
    case False
    then have p: "p = brackets (array_body item (min_items obj) (max_items obj))"
      and mx: "\<forall>m. max_items obj = Some m \<longrightarrow> min_items obj \<le> m \<and> 0 < m"
      using assms(4) ar by (auto split: option.splits if_splits)
    show ?thesis
      using denotes_brackets [OF denotes_array_body [OF assms(3) mx]] valid_array [OF assms(1,2), of tj pat d] False p by simp
  qed
qed

lemma object_regex_correct:
  assumes "typed_schema obj ''object''" "as_object (map_of obj ''properties'') = Some props" "props \<noteq> []"
    and "list_all2 (\<lambda>p q. denotes p {m. \<exists>v. valid tj pat (snd q) (d + 1) v \<and> m \<in> member_text {dquote @ fst q @ dquote} {v}}) pairs props"
  shows "denotes (braces (join comma pairs)) {w. valid tj pat (JObj obj) d w}"
proof -
  have "list_all2 denotes pairs (map (\<lambda>q. {m. \<exists>v. valid tj pat (snd q) (d + 1) v \<and> m \<in> member_text {dquote @ fst q @ dquote} {v}}) props)"
    using assms(4) by (simp add: list_all2_conv_all_nth)
  from denotes_braces [OF denotes_join [OF this]] show ?thesis
    using valid_object [OF assms(1), of tj pat d] assms(2,3) by simp
qed

lemma empty_object_correct:
  assumes "typed_schema obj ''object''" "as_object (map_of obj ''properties'') = Some []"
  shows "denotes (bslash @ ''{'' @ SP @ bslash @ ''}'') {w. valid tj pat (JObj obj) d w}"
proof -
  have "denotes ((bslash @ ''{'') @ SP @ bslash @ ''}'') (conc {''{''} (conc opt_space {''}''}))"
    by (intro denotes_conc denotes_meta denotes_SP) (simp_all add: meta_chars_def)
  moreover have "conc {''{''} (conc opt_space {''}''}) = {''{'' @ a @ ''}'' |a. a \<in> opt_space}"
    by (rule set_eqI) (unfold conc3 mem_Collect_eq, blast)
  ultimately show ?thesis using valid_object [OF assms(1), of tj pat d] assms(2) by simp
qed

lemma const_enum_correct:
  "map_of obj ''const'' = Some c \<Longrightarrow> denotes (literal_regex tj c) {w. valid tj pat (JObj obj) d w}"
  "map_of obj ''const'' = None \<Longrightarrow> as_array (map_of obj ''enum'') = Some vals \<Longrightarrow> vals \<noteq> [] \<Longrightarrow>
    denotes (paren (join ''|'' (map (literal_regex tj) vals))) {w. valid tj pat (JObj obj) d w}"
proof -
  assume "map_of obj ''const'' = Some c"
  then have "{w. valid tj pat (JObj obj) d w} = {tj c}" by (auto simp: valid_obj typed_schema_def)
  then show "denotes (literal_regex tj c) {w. valid tj pat (JObj obj) d w}" using denotes_esc by (simp add: literal_regex_def)
next
  assume e: "map_of obj ''const'' = None" "as_array (map_of obj ''enum'') = Some vals" "vals \<noteq> []"
  then have "{w. valid tj pat (JObj obj) d w} = tj ` set vals" by (auto simp: valid_obj typed_schema_def)
  then show "denotes (paren (join ''|'' (map (literal_regex tj) vals))) {w. valid tj pat (JObj obj) d w}"
    using denotes_atomD [OF denotes_literals [OF e(3)]] by simp
qed

lemma member_correct:
  assumes "denotes val {w. valid tj pat s d w}"
  shows "denotes (dquote @ esc k @ dquote @ colon @ val) {m. \<exists>v. valid tj pat s d v \<and> m \<in> member_text {dquote @ k @ dquote} {v}}"
proof -
  have "denotes (dquote @ esc k @ dquote) {dquote @ k @ dquote}" using denotes_quoted [OF denotes_esc, of k] by simp
  from denotes_member [OF this assms]
  have "denotes (dquote @ esc k @ dquote @ colon @ val) (member_text {dquote @ k @ dquote} {w. valid tj pat s d w})" by simp
  moreover have "member_text {dquote @ k @ dquote} {w. valid tj pat s d w} = {m. \<exists>v. valid tj pat s d v \<and> m \<in> member_text {dquote @ k @ dquote} {v}}"
    unfolding member_text_def by blast
  ultimately show ?thesis by simp
qed

lemma typed_correct:
  assumes "patterns_ok pat (JObj obj)"
  shows "typed_schema obj ''string'' \<Longrightarrow>
      denotes (case as_str (map_of obj ''pattern'') of Some p \<Rightarrow> dquote @ p @ dquote | None \<Rightarrow> STRING) {w. valid tj pat (JObj obj) d w}"
    "typed_schema obj ''integer'' \<Longrightarrow> denotes INTEGER {w. valid tj pat (JObj obj) d w}"
    "typed_schema obj ''number'' \<Longrightarrow> denotes NUMBER {w. valid tj pat (JObj obj) d w}"
    "typed_schema obj ''boolean'' \<Longrightarrow> denotes BOOL {w. valid tj pat (JObj obj) d w}"
    "typed_schema obj ''null'' \<Longrightarrow> denotes NULL {w. valid tj pat (JObj obj) d w}"
    "typed_schema obj ''object'' \<Longrightarrow> as_object (map_of obj ''properties'') = None \<Longrightarrow>
      denotes (any_object (any_value (any_json_default_depth - d - 1))) {w. valid tj pat (JObj obj) d w}"
proof -
  assume s: "typed_schema obj ''string''"
  show "denotes (case as_str (map_of obj ''pattern'') of Some p \<Rightarrow> dquote @ p @ dquote | None \<Rightarrow> STRING) {w. valid tj pat (JObj obj) d w}"
    unfolding valid_string [OF s]
    using denotes_string denotes_quoted [OF pattern_denotes [OF assms]] by (simp split: option.split)
next
  assume "typed_schema obj ''object''" "as_object (map_of obj ''properties'') = None"
  then show "denotes (any_object (any_value (any_json_default_depth - d - 1))) {w. valid tj pat (JObj obj) d w}"
    using valid_object [of obj tj pat d] denotes_any_object [OF denotes_atomD [OF denotes_any_value]] by simp
qed (simp_all add: valid_types denotes_integer denotes_number denotes_bool denotes_null)

lemma compile_correct:
  "compile tj s d = Inr p \<Longrightarrow> patterns_ok pat s \<Longrightarrow> denotes p {w. valid tj pat s d w}"
  "compile_props tj props d = Inr pairs \<Longrightarrow> (\<forall>q \<in> set props. patterns_ok pat (snd q)) \<Longrightarrow>
    list_all2 (\<lambda>p q. denotes p {m. \<exists>v. valid tj pat (snd q) d v \<and> m \<in> member_text {dquote @ fst q @ dquote} {v}}) pairs props"
proof (induction tj s d and tj props d arbitrary: p and pairs rule: compile_compile_props.induct)
  case (1 tj obj depth)
  have run: "\<not> depth > max_depth" "find (\<lambda>k. map_of obj k \<noteq> None) unsupported_keywords = None"
    using 1(3) by (auto split: if_splits option.splits)
  show ?case
  proof (cases "map_of obj ''const''")
    case (Some c)
    then show ?thesis using 1(3) run const_enum_correct(1) [OF Some, of tj pat depth] by auto
  next
    case no_const: None
    show ?thesis
    proof (cases "as_array (map_of obj ''enum'')")
      case (Some vals)
      then show ?thesis using 1(3) run no_const const_enum_correct(2) [OF no_const Some, of tj pat depth] by (auto split: if_splits)
    next
      case no_enum: None
      then obtain ty where ty: "as_str (map_of obj ''type'') = Some ty"
        using 1(3) run no_const by (auto split: option.splits)
      then have typed: "typed_schema obj ty" using no_const no_enum by (simp add: typed_schema_def)
      note D = 1(3) [unfolded compile.simps no_const no_enum ty run(2) option.case if_not_P [OF run(1)]]
      note IH = 1(1,2) [OF run(1,2) no_const no_enum ty]
      consider "ty = ''string''" | "ty = ''integer''" | "ty = ''number''" | "ty = ''boolean''" | "ty = ''null''" | "ty = ''array''" | "ty = ''object''"
        using D by (auto split: if_splits)
      then show ?thesis
      proof cases
        case 6
        then obtain items item where it: "map_of obj ''items'' = Some items" "compile tj items (depth + 1) = Inr item" "array_regex obj item = Inr p"
          using D by (auto split: option.splits sum.splits)
        have "denotes item {w. valid tj pat items (depth + 1) w}"
          using 6 IH(1) it patterns_ok_sub [OF 1(4) it(1)] by simp
        then show ?thesis using array_regex_correct [OF typed [unfolded 6] it(1) _ it(3)] by simp
      next
        case 7
        note typed = typed [unfolded 7]
        show ?thesis
        proof (cases "as_object (map_of obj ''properties'')")
          case None
          then have "p = any_object (any_value (any_json_default_depth - depth - 1))" using D 7 by simp
          then show ?thesis using typed_correct(6) [OF 1(4) typed None, of depth tj] by (simp only:)
        next
          case (Some props)
          show ?thesis
          proof (cases "props = []")
            case True
            then show ?thesis using D 7 Some empty_object_correct [OF typed] by simp
          next
            case False
            then obtain pairs where pr: "compile_props tj props (depth + 1) = Inr pairs" "p = braces (join comma pairs)"
              using D 7 Some by (auto split: sum.splits)
            have "patterns_ok pat (JObj props)"
              using patterns_ok_sub [OF 1(4), of "''properties''" "JObj props"] as_objectD [OF Some] by simp
            then have "\<forall>q \<in> set props. patterns_ok pat (snd q)" using patterns_ok_prop by blast
            then show ?thesis
              using object_regex_correct [OF typed Some False] IH(2) 7 Some False pr by simp
          qed
        qed
      qed (use D typed typed_correct [OF 1(4)] in \<open>auto split: option.splits\<close>)
    qed
  qed
next
  case (4 tj key sub props depth)
  then obtain val pairs' where v: "compile tj sub depth = Inr val" "compile_props tj props depth = Inr pairs'"
    "pairs = (dquote @ esc key @ dquote @ colon @ val) # pairs'" by (auto split: sum.splits)
  then show ?case using 4 member_correct by simp
qed (simp_all split: if_splits)

section \<open>What the compiler promises\<close>

text \<open>
  C7: When a schema compiles, the pattern is the printed form of a well-formed regular expression whose language is exactly the set of
  documents of the schema: constants and enumerations as they are serialised, strings, numbers, arrays within their item bounds, objects
  with every declared property in declaration order, and arbitrary objects of bounded depth.
\<close>

theorem schema_regex_correct:
  assumes "schema_to_regex tj schema = Inr p" "patterns_ok pat schema"
  shows "\<exists>r. render r = p \<and> rx_ok r \<and> \<not> is_alt r \<and> lang r = {w. valid tj pat schema 0 w}"
  using compile_correct(1) [OF assms(1) [unfolded schema_to_regex_def] assms(2)] by (simp add: denotes_def)

definition demo_schema :: json where
  "demo_schema = JObj [(''type'', JStr ''array''), (''items'', JObj [(''type'', JStr ''boolean'')]), (''maxItems'', JNum (PosInt 2))]"

lemma demo_schema_ok: "patterns_ok pat demo_schema"
  by (simp add: patterns_ok_def demo_schema_def)

theorem schema_regex_correct_witness:
  "\<exists>p r. schema_to_regex (\<lambda>_. []) demo_schema = Inr p \<and> render r = p \<and> lang r = {w. valid (\<lambda>_. []) (\<lambda>_. Cat []) demo_schema 0 w}"
proof -
  have "\<exists>p. schema_to_regex (\<lambda>_. []) demo_schema = Inr p"
    by (simp add: schema_to_regex_def demo_schema_def max_depth_def unsupported_keywords_def array_regex_def Let_def)
  then obtain p where p: "schema_to_regex (\<lambda>_. []) demo_schema = Inr p" by blast
  from schema_regex_correct [OF p demo_schema_ok, of "\<lambda>_. Cat []"] p show ?thesis by blast
qed

text \<open>A tool call: the name is pinned to the tool whose parameter schema the arguments satisfy.\<close>

definition tool_call_text :: "(json \<Rightarrow> string) \<Rightarrow> (string \<Rightarrow> rx) \<Rightarrow> string \<times> json \<Rightarrow> string set" where
  "tool_call_text tj pat tool = enclosed CHR ''{'' CHR ''}'' (list_lang
    [member_text {dquote @ ''name'' @ dquote} {tj (JStr (fst tool))},
     member_text {dquote @ ''arguments'' @ dquote} {w. valid tj pat (snd tool) 0 w}])"

lemma tool_envelope_denotes:
  assumes "denotes args {w. valid tj pat params 0 w}"
  shows "denotes (tool_envelope tj name args) (tool_call_text tj pat (name, params))"
proof -
  have n: "denotes (dquote @ ''name'' @ dquote) {dquote @ ''name'' @ dquote}" "denotes (dquote @ ''arguments'' @ dquote) {dquote @ ''arguments'' @ dquote}"
    by (rule denotes_plain, simp add: meta_chars_def)+
  have "list_all2 denotes [(dquote @ ''name'' @ dquote) @ colon @ literal_regex tj (JStr name), (dquote @ ''arguments'' @ dquote) @ colon @ args]
      [member_text {dquote @ ''name'' @ dquote} {tj (JStr name)}, member_text {dquote @ ''arguments'' @ dquote} {w. valid tj pat params 0 w}]"
    using denotes_member [OF n(1) denotes_esc [of "tj (JStr name)"]] denotes_member [OF n(2) assms] by (simp add: literal_regex_def)
  from denotes_braces [OF denotes_join [OF this]] show ?thesis
    by (simp add: tool_envelope_def tool_call_text_def)
qed

lemma tool_alts_denote:
  "tool_alts tj tools = Inr alts \<Longrightarrow> \<forall>t \<in> set tools. patterns_ok pat (snd t) \<Longrightarrow> list_all2 denotes alts (map (tool_call_text tj pat) tools)"
proof (induction tj tools arbitrary: alts rule: tool_alts.induct)
  case (2 tj name params tools)
  then obtain args alts' where a: "compile tj params 0 = Inr args" "tool_alts tj tools = Inr alts'" "alts = tool_envelope tj name args # alts'"
    by (auto split: sum.splits)
  have "denotes args {w. valid tj pat params 0 w}" using compile_correct(1) [OF a(1)] 2(3) by simp
  then show ?case using 2 a tool_envelope_denotes by simp
qed simp

text \<open>
  The envelope of a forced tool call matches exactly the calls of one of the tools, by its own name and with arguments that satisfy
  its own parameter schema; an empty tool list is refused.
\<close>

theorem tool_envelope_correct:
  assumes "tool_call_envelope_regex tj tools = Inr p" "\<forall>t \<in> set tools. patterns_ok pat (snd t)"
  shows "tools \<noteq> [] \<and> (\<exists>r. render r = p \<and> rx_ok r \<and> lang r = (\<Union>t \<in> set tools. tool_call_text tj pat t))"
proof -
  obtain alts where a: "tools \<noteq> []" "tool_alts tj tools = Inr alts" "p = paren (join ''|'' alts)"
    using assms(1) by (auto simp: tool_call_envelope_regex_def split: if_splits sum.splits)
  note D = tool_alts_denote [OF a(2) assms(2)]
  have "alts \<noteq> []" using D a(1) by (auto simp: list_all2_conv_all_nth)
  from denotes_paren_alt [OF this D] show ?thesis using a by (auto simp: denotes_atom_def)
qed

theorem tool_envelope_correct_witness:
  "\<exists>p r. tool_call_envelope_regex (\<lambda>_. ''x'') [(''f'', demo_schema)] = Inr p \<and> render r = p \<and>
    lang r = tool_call_text (\<lambda>_. ''x'') (\<lambda>_. Cat []) (''f'', demo_schema)"
proof -
  have "\<exists>p. tool_call_envelope_regex (\<lambda>_. ''x'') [(''f'', demo_schema)] = Inr p"
    by (simp add: tool_call_envelope_regex_def demo_schema_def max_depth_def unsupported_keywords_def array_regex_def Let_def)
  then obtain p where p: "tool_call_envelope_regex (\<lambda>_. ''x'') [(''f'', demo_schema)] = Inr p" by blast
  from tool_envelope_correct [OF p, of "\<lambda>_. Cat []"] p demo_schema_ok show ?thesis by auto
qed

text \<open>The schemas the compiler descends into.\<close>

inductive subschema :: "json \<Rightarrow> nat \<Rightarrow> json \<Rightarrow> bool" where
  sub_self: "subschema s 0 s"
| sub_items: "typed_schema obj ''array'' \<Longrightarrow> map_of obj ''items'' = Some items \<Longrightarrow> subschema items n s' \<Longrightarrow> subschema (JObj obj) (Suc n) s'"
| sub_property: "typed_schema obj ''object'' \<Longrightarrow> as_object (map_of obj ''properties'') = Some props \<Longrightarrow> q \<in> set props \<Longrightarrow>
    subschema (snd q) n s' \<Longrightarrow> subschema (JObj obj) (Suc n) s'"

lemma compile_props_each: "compile_props tj props d = Inr pairs \<Longrightarrow> q \<in> set props \<Longrightarrow> \<exists>p. compile tj (snd q) d = Inr p"
proof (induction props arbitrary: pairs)
  case (Cons kv props)
  then show ?case by (cases kv) (auto split: sum.splits)
qed simp

lemma compile_Inr: "compile tj s d = Inr p \<Longrightarrow> d \<le> max_depth \<and> (\<exists>obj. s = JObj obj \<and> (\<forall>k \<in> set unsupported_keywords. map_of obj k = None))"
  by (cases s) (auto split: if_splits option.splits simp: find_None_iff)

text \<open>
  When a schema compiles, every schema nested in it was compiled as well, without an unsupported keyword, and lies at most 32 levels
  deep: nothing is dropped silently and the pattern cannot grow without bound.
\<close>

theorem schema_depth_bounded:
  assumes "schema_to_regex tj schema = Inr p" "subschema schema n s"
  shows "n \<le> 32 \<and> (\<exists>q. compile tj s n = Inr q) \<and>
    (\<exists>obj. s = JObj obj \<and> (\<forall>k \<in> set unsupported_keywords. map_of obj k = None))"
proof -
  have "\<exists>q. compile tj s (d + n) = Inr q" if "subschema r n s" "compile tj r d = Inr p" for r d p
    using that
  proof (induction arbitrary: d p rule: subschema.induct)
    case (sub_items obj items n s')
    then obtain item where "compile tj items (d + 1) = Inr item"
      by (auto simp: typed_schema_def split: if_splits option.splits sum.splits)
    then show ?case using sub_items.IH by fastforce
  next
    case (sub_property obj props q n s')
    then have "props \<noteq> []" by auto
    then obtain pairs where "compile_props tj props (d + 1) = Inr pairs"
      using sub_property by (auto simp: typed_schema_def split: if_splits option.splits sum.splits)
    then obtain p' where "compile tj (snd q) (d + 1) = Inr p'" using compile_props_each sub_property(3) by blast
    then show ?case using sub_property.IH by fastforce
  qed auto
  then obtain q where "compile tj s n = Inr q" using assms by (fastforce simp: schema_to_regex_def)
  then show ?thesis using compile_Inr [of tj s n q] by (simp add: max_depth_def)
qed

theorem schema_depth_bounded_witness:
  "\<exists>q. compile (\<lambda>_. []) (JObj [(''type'', JStr ''boolean'')]) 1 = Inr q"
proof -
  have "\<exists>p. schema_to_regex (\<lambda>_. []) demo_schema = Inr p"
    by (simp add: schema_to_regex_def demo_schema_def max_depth_def unsupported_keywords_def array_regex_def Let_def)
  then obtain p where p: "schema_to_regex (\<lambda>_. []) demo_schema = Inr p" by blast
  have "subschema demo_schema (Suc 0) (JObj [(''type'', JStr ''boolean'')])"
    unfolding demo_schema_def by (rule sub_items) (auto simp: typed_schema_def intro: sub_self)
  from schema_depth_bounded [OF p this] show ?thesis by simp
qed

end
