(* ===== verification/Grammar.thy ===== *)
theory Grammar
  imports Sampling JsonSchema
begin

text \<open>
  Constrained decoding (\<^verbatim>\<open>src/engine/logit_fsm.rs\<close>): the byte automaton of a
  grammar, the search for states from which a match is still reachable with its
  memo tables, the token mask, and the state that follows the sampled tokens;
  and the part of \<^verbatim>\<open>src/backend/candle/tokenizer.rs\<close> that feeds it (the
  byte table and the stop tokens).

  The automaton itself is built by the \<^verbatim>\<open>regex-automata\<close> package: it is the
  record \<open>dfa\<close> of the functions the code calls on it.  Its state identifiers are
  32-bit words, so the search below ends.  The tokenizer is a record of the functions
  called on the \<^verbatim>\<open>tokenizers\<close> package.
\<close>

type_synonym byte = "8 word"
type_synonym state_id = "32 word"

record dfa =
  dfa_start :: state_id
  dfa_next :: "state_id \<Rightarrow> byte \<Rightarrow> state_id"
  dfa_eoi :: "state_id \<Rightarrow> state_id"
  dfa_dead :: "state_id \<Rightarrow> bool"
  dfa_quit :: "state_id \<Rightarrow> bool"
  dfa_match :: "state_id \<Rightarrow> bool"

record byte_table =
  bt_bytes :: "byte list option list"
  bt_eos :: token

section \<open>Walking the automaton\<close>

definition stuck_state :: "dfa \<Rightarrow> state_id \<Rightarrow> bool" where
  "stuck_state d s = (dfa_dead d s \<or> dfa_quit d s)"

fun walk :: "dfa \<Rightarrow> state_id \<Rightarrow> byte list \<Rightarrow> state_id option" where
  "walk d s [] = Some s"
| "walk d s (b # bs) = (let s' = dfa_next d s b in if stuck_state d s' then None else walk d s' bs)"

definition is_accept :: "dfa \<Rightarrow> state_id \<Rightarrow> bool" where
  "is_accept d s = dfa_match d (dfa_eoi d s)"

definition all_bytes :: "byte list" where
  "all_bytes = map word_of_nat [0 ..< 256]"

text \<open>One byte of the inner loop: the successors of the state, the stack, the seen states.\<close>

definition visit_byte ::
  "dfa \<Rightarrow> state_id \<Rightarrow> byte \<Rightarrow> state_id list \<times> state_id list \<times> state_id set \<Rightarrow> state_id list \<times> state_id list \<times> state_id set" where
  "visit_byte d u b = (\<lambda>(outs, stack, seen).
    (let v = dfa_next d u b in
     if stuck_state d v then (outs, stack, seen)
     else (if v \<in> set outs then outs else outs @ [v], if v \<in> seen then stack else v # stack, insert v seen)))"

definition visit :: "dfa \<Rightarrow> state_id \<Rightarrow> state_id list \<Rightarrow> state_id set \<Rightarrow> state_id list \<times> state_id list \<times> state_id set" where
  "visit d u stack seen = fold (visit_byte d u) all_bytes ([], stack, seen)"

definition succs :: "dfa \<Rightarrow> state_id \<Rightarrow> state_id set" where
  "succs d u = {v. \<exists>b. v = dfa_next d u b \<and> \<not> stuck_state d v}"

lemma set_all_bytes [simp]: "set all_bytes = UNIV"
proof -
  have "b \<in> word_of_nat ` {0 ..< 256}" for b :: byte
    using unsigned_less [of b, where ?'a = nat] by (intro image_eqI [of _ _ "unat b"]) simp_all
  then show ?thesis unfolding all_bytes_def set_map set_upt by blast
qed

lemma visit_byte_apply:
  "visit_byte d u b (outs, stack, seen) =
    (if stuck_state d (dfa_next d u b) then (outs, stack, seen)
     else (if dfa_next d u b \<in> set outs then outs else outs @ [dfa_next d u b],
       if dfa_next d u b \<in> seen then stack else dfa_next d u b # stack, insert (dfa_next d u b) seen))"
  by (simp add: visit_byte_def Let_def)

lemma visit_bytes:
  "fold (visit_byte d u) bs (outs, stack, seen) = (outs', stack', seen') \<Longrightarrow>
   set outs' = set outs \<union> {v. \<exists>b \<in> set bs. v = dfa_next d u b \<and> \<not> stuck_state d v} \<and>
   seen' = seen \<union> {v. \<exists>b \<in> set bs. v = dfa_next d u b \<and> \<not> stuck_state d v} \<and>
   (\<exists>new. stack' = new @ stack \<and> set new = seen' - seen \<and> distinct new)"
proof (induction bs arbitrary: outs stack seen)
  case (Cons b bs)
  let ?v = "dfa_next d u b"
  show ?case
  proof (cases "stuck_state d ?v")
    case True
    then have "fold (visit_byte d u) bs (outs, stack, seen) = (outs', stack', seen')"
      using Cons.prems by (simp add: visit_byte_apply)
    then show ?thesis using Cons.IH [of outs stack seen] True by auto
  next
    case False
    let ?outs = "if ?v \<in> set outs then outs else outs @ [?v]"
    let ?stack = "if ?v \<in> seen then stack else ?v # stack"
    have f: "fold (visit_byte d u) bs (?outs, ?stack, insert ?v seen) = (outs', stack', seen')"
      using Cons.prems False by (simp only: visit_byte_apply fold_simps if_False)
    have IH1: "set outs' = set ?outs \<union> {v. \<exists>b \<in> set bs. v = dfa_next d u b \<and> \<not> stuck_state d v}"
      and IH2: "seen' = insert ?v seen \<union> {v. \<exists>b \<in> set bs. v = dfa_next d u b \<and> \<not> stuck_state d v}"
      and IH3: "\<exists>new. stack' = new @ ?stack \<and> set new = seen' - insert ?v seen \<and> distinct new"
      using Cons.IH [OF f] by blast+
    from IH3 obtain new where new: "stack' = new @ ?stack" "set new = seen' - insert ?v seen" "distinct new" by blast
    have "\<exists>new'. stack' = new' @ stack \<and> set new' = seen' - seen \<and> distinct new'"
    proof (cases "?v \<in> seen")
      case True
      then show ?thesis using new by (auto simp: insert_absorb)
    next
      case out: False
      have "?v \<in> seen'" using IH2 by auto
      then show ?thesis using new out by (intro exI [of _ "new @ [?v]"]) auto
    qed
    moreover have "set outs' = set outs \<union> {v. \<exists>b' \<in> set (b # bs). v = dfa_next d u b' \<and> \<not> stuck_state d v}"
      unfolding IH1 using False by auto
    moreover have "seen' = seen \<union> {v. \<exists>b' \<in> set (b # bs). v = dfa_next d u b' \<and> \<not> stuck_state d v}"
      unfolding IH2 using False by auto
    ultimately show ?thesis by blast
  qed
qed auto

lemma visit_correct:
  assumes "visit d u stack seen = (outs, stack', seen')"
  shows "set outs = succs d u" "seen' = seen \<union> succs d u"
    "\<exists>new. stack' = new @ stack \<and> set new = seen' - seen \<and> distinct new"
proof -
  have e: "{v. \<exists>b \<in> set all_bytes. v = dfa_next d u b \<and> \<not> stuck_state d v} = succs d u" by (simp add: succs_def)
  have f: "fold (visit_byte d u) all_bytes ([], stack, seen) = (outs, stack', seen')" using assms by (simp add: visit_def)
  note V = visit_bytes [OF f, unfolded e]
  show "set outs = succs d u" "seen' = seen \<union> succs d u" using V by simp_all
  show "\<exists>new. stack' = new @ stack \<and> set new = seen' - seen \<and> distinct new" using V by (elim conjE) assumption
qed

section \<open>Which states can still reach a match\<close>

text \<open>The depth-first search: the states seen and, for each of them, its successors.\<close>

function explore ::
  "dfa \<Rightarrow> state_id list \<Rightarrow> state_id set \<Rightarrow> (state_id \<times> state_id list) list \<Rightarrow> state_id set \<times> (state_id \<times> state_id list) list" where
  "explore d [] seen succ = (seen, succ)"
| "explore d (u # stack) seen succ =
    (case visit d u stack seen of (outs, stack', seen') \<Rightarrow> explore d stack' seen' (al_put u outs succ))"
  by pat_completeness auto

lemma visit_measure:
  assumes "visit d u stack seen = (outs, stack', seen')"
  shows "card (- seen') + length stack' = card (- seen) + length stack"
proof -
  obtain new where new: "stack' = new @ stack" "set new = seen' - seen" "distinct new"
    using visit_correct(3) [OF assms] by blast
  have "seen \<subseteq> seen'" using visit_correct(2) [OF assms] by simp
  then have "- seen = - seen' \<union> (seen' - seen)" by blast
  then have "card (- seen) = card (- seen') + card (seen' - seen)" using card_Un_disjoint [of "- seen'" "seen' - seen"] by auto
  moreover have "card (seen' - seen) = length new" using distinct_card [OF new(3)] new(2) by simp
  ultimately show ?thesis using new(1) by simp
qed

termination explore
  by (relation "measure (\<lambda>(d, stack, seen, succ). card (- seen) + length stack)")
     (simp_all, metis visit_measure lessI add_Suc_right)

text \<open>One pass over the successor map, in the order the hash map yields, and the passes until nothing changes.\<close>

definition live_edge :: "state_id \<times> state_id list \<Rightarrow> state_id set \<times> bool \<Rightarrow> state_id set \<times> bool" where
  "live_edge = (\<lambda>(u, outs) (live, changed).
    if u \<notin> live \<and> (\<exists>v \<in> set outs. v \<in> live) then (insert u live, True) else (live, changed))"

definition live_pass :: "(state_id \<times> state_id list) list \<Rightarrow> state_id set \<Rightarrow> state_id set \<times> bool" where
  "live_pass succ live = fold live_edge succ (live, False)"

lemma live_edge_apply: "live_edge p (live, changed) =
    (if fst p \<notin> live \<and> (\<exists>v \<in> set (snd p). v \<in> live) then (insert (fst p) live, True) else (live, changed))"
  by (simp add: live_edge_def split_beta)

lemma live_pass_grows:
  "fold live_edge succ (live, ch) = (live', ch') \<Longrightarrow> live \<subseteq> live' \<and> (ch' \<longrightarrow> ch \<or> live \<subset> live')"
proof (induction succ arbitrary: live ch)
  case (Cons p succ)
  show ?case
  proof (cases "fst p \<notin> live \<and> (\<exists>v \<in> set (snd p). v \<in> live)")
    case True
    then have "fold live_edge succ (insert (fst p) live, True) = (live', ch')"
      using Cons.prems by (simp only: fold_simps live_edge_apply simp_thms if_True)
    from Cons.IH [OF this] show ?thesis using True by blast
  next
    case False
    then have "fold live_edge succ (live, ch) = (live', ch')"
      using Cons.prems by (simp only: fold_simps live_edge_apply if_False)
    from Cons.IH [OF this] show ?thesis .
  qed
qed simp

function live_loop :: "(state_id \<times> state_id list) list \<Rightarrow> state_id set \<Rightarrow> state_id set" where
  "live_loop succ live = (case live_pass succ live of (live', changed) \<Rightarrow> if changed then live_loop succ live' else live')"
  by pat_completeness auto

lemma live_pass_measure: "live_pass succ live = (live', True) \<Longrightarrow> card (- live') < card (- live)"
  using live_pass_grows [of succ live False live' True] by (intro psubset_card_mono) (auto simp: live_pass_def)

termination live_loop
  by (relation "measure (\<lambda>(succ, live). card (- live))") (simp_all, metis live_pass_measure)

declare live_loop.simps [simp del]

type_synonym succ_order = "(state_id \<times> state_id list) list \<Rightarrow> (state_id \<times> state_id list) list"

definition is_live :: "dfa \<Rightarrow> succ_order \<Rightarrow> state_id \<Rightarrow> (state_id \<rightharpoonup> bool) \<Rightarrow> bool \<times> (state_id \<rightharpoonup> bool)" where
  "is_live d ord s cache =
    (case cache s of Some v \<Rightarrow> (v, cache)
     | None \<Rightarrow>
       (case explore d [s] {s} [] of (seen, succ) \<Rightarrow>
          let live = live_loop (ord succ) (Set.filter (is_accept d) seen)
          in (s \<in> live, \<lambda>u. if u \<in> seen then Some (u \<in> live) else cache u)))"

section \<open>The engine: masks and state\<close>

record regex_engine =
  rx_dfa :: dfa
  rx_state :: state_id
  rx_table :: byte_table
  rx_masks :: "state_id \<rightharpoonup> bool list"
  rx_lives :: "state_id \<rightharpoonup> bool"

fun mask_bytes :: "dfa \<Rightarrow> succ_order \<Rightarrow> state_id \<Rightarrow> byte list option list \<Rightarrow> (state_id \<rightharpoonup> bool) \<Rightarrow> bool list \<times> (state_id \<rightharpoonup> bool)" where
  "mask_bytes d ord s [] cache = ([], cache)"
| "mask_bytes d ord s (tb # tbs) cache =
    (let (ok, cache1) =
       (case tb of None \<Rightarrow> (False, cache)
        | Some b \<Rightarrow> (case walk d s b of None \<Rightarrow> (False, cache) | Some t \<Rightarrow> is_live d ord t cache));
         (oks, cache2) = mask_bytes d ord s tbs cache1
     in (ok # oks, cache2))"

definition allowed_mask :: "succ_order \<Rightarrow> state_id \<Rightarrow> regex_engine \<Rightarrow> bool list \<times> regex_engine" where
  "allowed_mask ord s rx =
    (case rx_masks rx s of Some m \<Rightarrow> (m, rx)
     | None \<Rightarrow>
       (case mask_bytes (rx_dfa rx) ord s (bt_bytes (rx_table rx)) (rx_lives rx) of (m, cache) \<Rightarrow>
          (m, rx\<lparr>rx_lives := cache, rx_masks := (rx_masks rx)(s \<mapsto> m)\<rparr>)))"

record logit_fsm =
  lf_grammar :: string
  lf_banned :: "token list"
  lf_regex :: "regex_engine option"

definition ban_token :: "token \<Rightarrow> f32 list \<Rightarrow> f32 list" where
  "ban_token t logits = (if t < length logits then logits[t := NegInf] else logits)"

definition token_ok :: "bool list \<Rightarrow> bool \<Rightarrow> token \<Rightarrow> token \<Rightarrow> bool" where
  "token_ok allowed accepting eos t =
    (if t = eos then accepting \<or> \<not> (\<exists>a \<in> set allowed. a) else t < length allowed \<and> allowed ! t)"

definition apply_mask :: "succ_order \<Rightarrow> f32 list \<Rightarrow> logit_fsm \<Rightarrow> f32 list \<times> logit_fsm" where
  "apply_mask ord logits f =
    (let logits1 = fold ban_token (lf_banned f) logits in
     case lf_regex f of None \<Rightarrow> (logits1, f)
     | Some rx \<Rightarrow>
       (let (allowed, rx1) = allowed_mask ord (rx_state rx) rx;
            accepting = is_accept (rx_dfa rx) (rx_state rx)
        in (map (\<lambda>(t, l). if token_ok allowed accepting (bt_eos (rx_table rx)) t then l else NegInf) (zip [0 ..< length logits1] logits1),
            f\<lparr>lf_regex := Some rx1\<rparr>)))"

definition advance :: "token \<Rightarrow> logit_fsm \<Rightarrow> logit_fsm" where
  "advance t f =
    (case lf_regex f of None \<Rightarrow> f
     | Some rx \<Rightarrow>
       if t = bt_eos (rx_table rx) then f
       else if t < length (bt_bytes (rx_table rx)) then
         (case bt_bytes (rx_table rx) ! t of None \<Rightarrow> f
          | Some b \<Rightarrow> (case walk (rx_dfa rx) (rx_state rx) b of
              Some s \<Rightarrow> f\<lparr>lf_regex := Some (rx\<lparr>rx_state := s\<rparr>)\<rparr>
            | None \<Rightarrow> f))
       else f)"

definition is_active :: "logit_fsm \<Rightarrow> bool" where
  "is_active f = (lf_banned f \<noteq> [] \<or> lf_regex f \<noteq> None)"

section \<open>Compiling a grammar\<close>

text \<open>
  \<^verbatim>\<open>str::trim\<close>, \<^verbatim>\<open>strip_prefix\<close>, \<^verbatim>\<open>split(',')\<close> and \<^verbatim>\<open>parse::<u32>\<close> on strings of code points up
  to 255.  Building the automaton (which can refuse a pattern) and parsing JSON text are parameters.
\<close>

definition white :: "char \<Rightarrow> bool" where
  "white c = (let n = (of_char c :: nat) in (9 \<le> n \<and> n \<le> 13) \<or> n = 32 \<or> n = 133 \<or> n = 160)"

definition trim :: "string \<Rightarrow> string" where
  "trim s = rev (dropWhile white (rev (dropWhile white s)))"

definition strip :: "string \<Rightarrow> string \<Rightarrow> string option" where
  "strip p s = (if take (length p) s = p then Some (drop (length p) s) else None)"

fun split_at :: "char \<Rightarrow> string \<Rightarrow> string list" where
  "split_at sep [] = [[]]"
| "split_at sep (c # cs) =
    (if c = sep then [] # split_at sep cs
     else (case split_at sep cs of [] \<Rightarrow> [[c]] | p # ps \<Rightarrow> (c # p) # ps))"

definition digit_value :: "char \<Rightarrow> nat" where
  "digit_value c = of_char c - 48"

definition parse_u32 :: "string \<Rightarrow> nat option" where
  "parse_u32 s =
    (let ds = (case s of c # cs \<Rightarrow> if c = CHR ''+'' then cs else s | [] \<Rightarrow> s);
         n = foldl (\<lambda>acc c. 10 * acc + digit_value c) 0 ds
     in if ds = [] \<or> \<not> (\<forall>c \<in> set ds. digit c) \<or> n \<ge> 2 ^ 32 then None else Some n)"

definition mode_name :: "string \<Rightarrow> string option" where
  "mode_name grammar = find (\<lambda>mode. strip (mode @ '':'') grammar \<noteq> None) [''regex'', ''json_schema'', ''json'', ''bnf'']"

datatype grammar_error =
  Bad_pattern | Needs_table string | Invalid_schema | Schema_error schema_error | Not_implemented string

record grammar_env =
  ge_build :: "string \<Rightarrow> dfa option"
  ge_parse :: "string \<Rightarrow> json option"
  ge_to_json :: "json \<Rightarrow> string"

definition fresh_engine :: "dfa \<Rightarrow> byte_table \<Rightarrow> regex_engine" where
  "fresh_engine d table = \<lparr>rx_dfa = d, rx_state = dfa_start d, rx_table = table, rx_masks = Map.empty, rx_lives = Map.empty\<rparr>"

definition compile_engine :: "grammar_env \<Rightarrow> string \<Rightarrow> byte_table \<Rightarrow> grammar_error + regex_engine" where
  "compile_engine env pattern table =
    (case ge_build env pattern of None \<Rightarrow> Inl Bad_pattern | Some d \<Rightarrow> Inr (fresh_engine d table))"

definition regex_grammar :: "grammar_env \<Rightarrow> string \<Rightarrow> string \<Rightarrow> byte_table \<Rightarrow> grammar_error + logit_fsm" where
  "regex_grammar env trimmed pattern table =
    (case compile_engine env pattern table of Inl e \<Rightarrow> Inl e
     | Inr rx \<Rightarrow> Inr \<lparr>lf_grammar = trimmed, lf_banned = [], lf_regex = Some rx\<rparr>)"

definition compile_grammar :: "grammar_env \<Rightarrow> string \<Rightarrow> byte_table option \<Rightarrow> grammar_error + logit_fsm" where
  "compile_grammar env grammar table =
    (let trimmed = trim grammar in
     case strip ''ban:'' trimmed of
       Some rest \<Rightarrow> Inr \<lparr>lf_grammar = trimmed, lf_banned = List.map_filter (parse_u32 \<circ> trim) (split_at CHR '','' rest), lf_regex = None\<rparr>
     | None \<Rightarrow>
       (case strip ''regex:'' trimmed of
          Some pattern \<Rightarrow> (case table of None \<Rightarrow> Inl (Needs_table ''regex'') | Some t \<Rightarrow> regex_grammar env trimmed pattern t)
        | None \<Rightarrow>
          (case strip ''json_schema:'' trimmed of
             Some text \<Rightarrow>
               (case table of None \<Rightarrow> Inl (Needs_table ''json_schema'')
                | Some t \<Rightarrow>
                  (case ge_parse env (trim text) of None \<Rightarrow> Inl Invalid_schema
                   | Some schema \<Rightarrow>
                     (case schema_to_regex (ge_to_json env) schema of Inl e \<Rightarrow> Inl (Schema_error e)
                      | Inr pattern \<Rightarrow> regex_grammar env trimmed pattern t)))
           | None \<Rightarrow>
             (case strip ''json:'' trimmed of
                Some _ \<Rightarrow> (case table of None \<Rightarrow> Inl (Needs_table ''json'') | Some t \<Rightarrow> regex_grammar env trimmed any_json_regex_default t)
              | None \<Rightarrow>
                if trimmed \<noteq> [] then Inl (Not_implemented (case mode_name trimmed of Some m \<Rightarrow> m | None \<Rightarrow> ''unknown''))
                else Inr \<lparr>lf_grammar = trimmed, lf_banned = [], lf_regex = None\<rparr>))))"

definition new_fsm :: "grammar_env \<Rightarrow> string \<Rightarrow> logit_fsm" where
  "new_fsm env grammar =
    (case compile_grammar env grammar None of Inr f \<Rightarrow> f
     | Inl _ \<Rightarrow> \<lparr>lf_grammar = trim grammar, lf_banned = [], lf_regex = None\<rparr>)"

definition unsupported_mode :: "logit_fsm \<Rightarrow> string option" where
  "unsupported_mode f =
    (case mode_name (lf_grammar f) of None \<Rightarrow> None
     | Some m \<Rightarrow> if m \<in> {''regex'', ''json_schema'', ''json''} then None else Some m)"

section \<open>The tables of the tokenizer\<close>

record tokenizer =
  tk_size :: nat
  tk_id :: "string \<Rightarrow> token option"
  tk_decode :: "token list \<Rightarrow> byte list option"

text \<open>\<^verbatim>\<open>U+FFFD\<close>, as it stands in UTF-8.\<close>

definition replacement :: "byte list" where
  "replacement = [0xEF, 0xBF, 0xBD]"

definition token_bytes_table :: "tokenizer \<Rightarrow> byte list option list" where
  "token_bytes_table tk = map (\<lambda>i. case tk_decode tk [i] of
      Some s \<Rightarrow> if s \<noteq> [] \<and> \<not> sublist replacement s then Some s else None
    | None \<Rightarrow> None) [0 ..< tk_size tk]"

definition or_else :: "'a option \<Rightarrow> 'a option \<Rightarrow> 'a option" where
  "or_else x y = (case x of None \<Rightarrow> y | Some _ \<Rightarrow> x)"

definition eos_token_id :: "tokenizer \<Rightarrow> token option" where
  "eos_token_id tk = or_else (or_else (tk_id tk ''</s>'') (tk_id tk ''<|end_of_text|>'')) (tk_id tk ''<|eot_id|>'')"

definition add_stop :: "tokenizer \<Rightarrow> string \<Rightarrow> token list \<Rightarrow> token list" where
  "add_stop tk name ids = (case tk_id tk name of Some i \<Rightarrow> if i \<in> set ids then ids else ids @ [i] | None \<Rightarrow> ids)"

definition stop_token_ids :: "tokenizer \<Rightarrow> token list" where
  "stop_token_ids tk =
    (let ids = fold (add_stop tk) [''<|eot_id|>'', ''<|eom_id|>'', ''<|im_end|>'', ''<|end|>'', ''<|endoftext|>'']
           (case eos_token_id tk of Some e \<Rightarrow> [e] | None \<Rightarrow> [])
     in if ids = [] then [128001] else ids)"

section \<open>The search finds exactly the states from which a match is reachable\<close>

definition live :: "dfa \<Rightarrow> state_id \<Rightarrow> bool" where
  "live d s = (\<exists>bs t. walk d s bs = Some t \<and> is_accept d t)"

lemma walk_append: "walk d s (xs @ ys) = (case walk d s xs of None \<Rightarrow> None | Some t \<Rightarrow> walk d t ys)"
  by (induction xs arbitrary: s) (simp_all add: Let_def)

lemma walk_step: "v \<in> succs d u \<Longrightarrow> \<exists>b. walk d u [b] = Some v"
  by (auto simp: succs_def Let_def)

lemma live_iff: "live d u \<longleftrightarrow> is_accept d u \<or> (\<exists>v \<in> succs d u. live d v)"
proof
  assume "live d u"
  then obtain bs t where w: "walk d u bs = Some t" "is_accept d t" by (auto simp: live_def)
  then show "is_accept d u \<or> (\<exists>v \<in> succs d u. live d v)"
  proof (cases bs)
    case (Cons b bs')
    then have "dfa_next d u b \<in> succs d u" "live d (dfa_next d u b)"
      using w by (auto simp: succs_def live_def Let_def split: if_splits)
    then show ?thesis by blast
  qed simp
next
  assume "is_accept d u \<or> (\<exists>v \<in> succs d u. live d v)"
  then show "live d u"
  proof
    assume "is_accept d u"
    then have "walk d u [] = Some u \<and> is_accept d u" by simp
    then show ?thesis unfolding live_def by blast
  next
    assume "\<exists>v \<in> succs d u. live d v"
    then obtain v bs t b where "walk d v bs = Some t" "is_accept d t" "walk d u [b] = Some v"
      using walk_step unfolding live_def by meson
    then have "walk d u ([b] @ bs) = Some t \<and> is_accept d t" unfolding walk_append by simp
    then show ?thesis unfolding live_def by blast
  qed
qed

lemma live_accept: "is_accept d u \<Longrightarrow> live d u"
  using live_iff by blast

definition search_inv :: "dfa \<Rightarrow> state_id list \<Rightarrow> state_id set \<Rightarrow> (state_id \<times> state_id list) list \<Rightarrow> bool" where
  "search_inv d stack seen succ = (set stack \<subseteq> seen \<and> fst ` set succ \<subseteq> seen \<and> seen \<subseteq> set stack \<union> fst ` set succ \<and> al_ok succ \<and>
    (\<forall>(u, outs) \<in> set succ. set outs = succs d u \<and> set outs \<subseteq> seen))"

lemma explore_inv:
  "search_inv d stack seen succ \<Longrightarrow> explore d stack seen succ = (seen', succ') \<Longrightarrow> search_inv d [] seen' succ' \<and> seen \<subseteq> seen'"
proof (induction d stack seen succ rule: explore.induct)
  case (2 d u stack seen succ)
  obtain outs stack1 seen1 where v: "visit d u stack seen = (outs, stack1, seen1)" by (cases "visit d u stack seen") auto
  note V = visit_correct [OF v]
  note J = 2(2) [unfolded search_inv_def]
  note I = conjunct1 [OF J] conjunct1 [OF conjunct2 [OF J]] conjunct1 [OF conjunct2 [OF conjunct2 [OF J]]]
    conjunct1 [OF conjunct2 [OF conjunct2 [OF conjunct2 [OF J]]]] conjunct2 [OF conjunct2 [OF conjunct2 [OF conjunct2 [OF J]]]]
  have s1: "set stack1 = set stack \<union> (seen1 - seen)" "seen \<subseteq> seen1" using V by auto
  have "search_inv d stack1 seen1 (al_put u outs succ)"
    unfolding search_inv_def
  proof (intro conjI)
    show "set stack1 \<subseteq> seen1" using s1 I(1) by auto
    show "fst ` set (al_put u outs succ) \<subseteq> seen1" using s1 I(1,2) by auto
    show "seen1 \<subseteq> set stack1 \<union> fst ` set (al_put u outs succ)" using s1 I(3) by auto
    show "al_ok (al_put u outs succ)" using I(4) by simp
    show "\<forall>(u, outs) \<in> set (al_put u outs succ). set outs = succs d u \<and> set outs \<subseteq> seen1"
    proof (clarify, intro conjI)
      fix w ws
      assume "(w, ws) \<in> set (al_put u outs succ)"
      then consider "w = u" "ws = outs" | "(w, ws) \<in> set succ" using set_al_put [OF I(4), of u outs] by auto
      then have c: "set ws = succs d w \<and> set ws \<subseteq> seen1"
      proof cases
        case 2
        then have "set ws = succs d w" "set ws \<subseteq> seen" using I(5) by auto
        then show ?thesis using s1(2) by simp
      qed (use V in simp)
      show "set ws = succs d w" by (rule conjunct1 [OF c])
      show "set ws \<subseteq> seen1" by (rule conjunct2 [OF c])
    qed
  qed
  moreover have "explore d stack1 seen1 (al_put u outs succ) = (seen', succ')" using 2(3) v by simp
  ultimately have "search_inv d [] seen' succ' \<and> seen1 \<subseteq> seen'" by (rule 2(1) [OF v [symmetric] refl])
  then show ?case using s1(2) by (blast dest: subset_trans)
qed simp

lemma live_pass_sound:
  "\<forall>(u, outs) \<in> set succ. set outs = succs d u \<Longrightarrow> \<forall>v \<in> live0. live d v \<Longrightarrow>
   fold live_edge succ (live0, ch) = (live', ch') \<Longrightarrow> \<forall>v \<in> live'. live d v"
proof (induction succ arbitrary: live0 ch)
  case (Cons p succ)
  let ?grow = "fst p \<notin> live0 \<and> (\<exists>v \<in> set (snd p). v \<in> live0)"
  have f: "fold live_edge succ (if ?grow then (insert (fst p) live0, True) else (live0, ch)) = (live', ch')"
    using Cons.prems(3) by (simp only: fold_simps live_edge_apply)
  show ?case
  proof (cases ?grow)
    case True
    have "set (snd p) = succs d (fst p)" using Cons.prems(1) by (auto simp: split_beta)
    then have "live d (fst p)" using True Cons.prems(2) live_iff [of d "fst p"] by blast
    then have l: "\<forall>v \<in> insert (fst p) live0. live d v" using Cons.prems(2) by blast
    have t: "\<forall>(u, outs) \<in> set succ. set outs = succs d u" using Cons.prems(1) by simp
    show ?thesis using Cons.IH [OF t l] f unfolding if_P [OF True] by blast
  next
    case False
    have "fold live_edge succ (live0, ch) = (live', ch')" using f unfolding if_not_P [OF False] .
    then show ?thesis using Cons.IH [of live0 ch] Cons.prems(1,2) by simp
  qed
qed simp

lemma if_cases_pair: "(if b then (x, True) else (y, True)) = (if b then x else y, True)"
  by simp

lemma fold_live_edge_True: "fold live_edge xs (l, True) = (l', c) \<Longrightarrow> c"
proof (induction xs arbitrary: l)
  case (Cons p xs)
  have "live_edge p (l, True) = (if fst p \<notin> l \<and> (\<exists>v \<in> set (snd p). v \<in> l) then (insert (fst p) l) else l, True)"
    unfolding live_edge_apply by (rule if_cases_pair)
  then show ?case using Cons by (simp only: fold_simps)
qed simp

lemma live_pass_fix:
  "fold live_edge succ (live0, ch) = (live', False) \<Longrightarrow> live' = live0 \<and> (\<forall>(u, outs) \<in> set succ. set outs \<inter> live0 \<noteq> {} \<longrightarrow> u \<in> live0)"
proof (induction succ)
  case (Cons p succ)
  let ?grow = "fst p \<notin> live0 \<and> (\<exists>v \<in> set (snd p). v \<in> live0)"
  have f: "fold live_edge succ (if ?grow then (insert (fst p) live0, True) else (live0, ch)) = (live', False)"
    using Cons.prems by (simp only: fold_simps live_edge_apply)
  have no: "\<not> ?grow"
  proof
    assume g: ?grow
    show False using fold_live_edge_True [OF f [unfolded if_P [OF g]]] .
  qed
  have "live' = live0 \<and> (\<forall>(u, outs) \<in> set succ. set outs \<inter> live0 \<noteq> {} \<longrightarrow> u \<in> live0)"
    by (rule Cons.IH [OF f [unfolded if_not_P [OF no]]])
  moreover have "set (snd p) \<inter> live0 \<noteq> {} \<longrightarrow> fst p \<in> live0" using no by blast
  ultimately show ?case by (simp add: split_beta)
qed simp

lemma live_loop_correct:
  assumes "\<forall>(u, outs) \<in> set succ. set outs = succs d u"
  shows "\<forall>v \<in> live0. live d v \<Longrightarrow> live0 \<subseteq> live_loop succ live0 \<and> (\<forall>v \<in> live_loop succ live0. live d v) \<and>
    (\<forall>(u, outs) \<in> set succ. set outs \<inter> live_loop succ live0 \<noteq> {} \<longrightarrow> u \<in> live_loop succ live0)"
  using assms
proof (induction succ live0 rule: live_loop.induct)
  case (1 succ live0)
  obtain live1 ch where p: "live_pass succ live0 = (live1, ch)" by (cases "live_pass succ live0") auto
  note p' = p [unfolded live_pass_def]
  have s: "\<forall>v \<in> live1. live d v" using live_pass_sound [OF 1(3,2) p'] .
  have g: "live0 \<subseteq> live1" using live_pass_grows [OF p'] by simp
  show ?case
  proof (cases ch)
    case True
    then have r: "live_loop succ live0 = live_loop succ live1" using p by (subst live_loop.simps) simp
    show ?thesis using 1(1) [OF p [symmetric] True s 1(3)] g unfolding r by blast
  next
    case False
    then have r: "live_loop succ live0 = live1" using p by (subst live_loop.simps) simp
    have "live1 = live0 \<and> (\<forall>(u, outs) \<in> set succ. set outs \<inter> live0 \<noteq> {} \<longrightarrow> u \<in> live0)"
      using live_pass_fix p' False by simp
    then show ?thesis using s unfolding r by simp
  qed
qed

lemma seen_walk:
  "\<forall>u \<in> seen. succs d u \<subseteq> seen \<Longrightarrow> u \<in> seen \<Longrightarrow> walk d u bs = Some t \<Longrightarrow> t \<in> seen"
proof (induction bs arbitrary: u)
  case (Cons b bs)
  then have "dfa_next d u b \<in> succs d u" "walk d (dfa_next d u b) bs = Some t"
    by (auto simp: succs_def Let_def split: if_splits)
  then show ?case using Cons by blast
qed simp

lemma live_closed:
  assumes "\<forall>u \<in> seen. succs d u \<subseteq> seen" "\<forall>u \<in> seen. is_accept d u \<longrightarrow> u \<in> L"
    and "\<forall>u \<in> seen. succs d u \<inter> L \<noteq> {} \<longrightarrow> u \<in> L"
  shows "u \<in> seen \<Longrightarrow> walk d u bs = Some t \<Longrightarrow> is_accept d t \<Longrightarrow> u \<in> L"
proof (induction bs arbitrary: u)
  case (Cons b bs)
  then have "dfa_next d u b \<in> succs d u" "walk d (dfa_next d u b) bs = Some t"
    by (auto simp: succs_def Let_def split: if_splits)
  then show ?case using Cons assms(1,3) by blast
qed (use assms(2) in simp)

definition live_cache_ok :: "dfa \<Rightarrow> (state_id \<rightharpoonup> bool) \<Rightarrow> bool" where
  "live_cache_ok d cache = (\<forall>s v. cache s = Some v \<longrightarrow> v = live d s)"

definition good_succ_order :: "succ_order \<Rightarrow> bool" where
  "good_succ_order ord = (\<forall>xs. set (ord xs) = set xs)"

lemma is_live_result:
  assumes "live_cache_ok d cache" "good_succ_order ord" "is_live d ord s cache = (v, cache')"
  shows "v = live d s" "live_cache_ok d cache'"
proof -
  have core: "v = live d s \<and> live_cache_ok d cache'" if "cache s = None"
  proof -
    obtain seen succ where e: "explore d [s] {s} [] = (seen, succ)" by (cases "explore d [s] {s} []") auto
    have "search_inv d [s] {s} []" by (simp add: search_inv_def)
    note I = explore_inv [OF this e]
    have keys: "fst ` set succ = seen" and sc: "\<forall>(u, outs) \<in> set succ. set outs = succs d u \<and> set outs \<subseteq> seen" and s: "s \<in> seen"
      using I by (auto simp: search_inv_def)
    define L where "L = live_loop (ord succ) (Set.filter (is_accept d) seen)"
    have so: "\<forall>(u, outs) \<in> set (ord succ). set outs = succs d u" using sc assms(2) by (auto simp: good_succ_order_def)
    have acc: "\<forall>v \<in> Set.filter (is_accept d) seen. live d v" using live_accept by simp
    note LL = live_loop_correct [OF so acc, folded L_def]
    have cl: "\<forall>u \<in> seen. succs d u \<subseteq> seen" using keys sc by (fastforce simp: image_iff)
    have bk: "\<forall>u \<in> seen. succs d u \<inter> L \<noteq> {} \<longrightarrow> u \<in> L"
      using LL sc keys assms(2) unfolding good_succ_order_def by (fastforce simp: image_iff)
    have L: "u \<in> L \<longleftrightarrow> live d u" if "u \<in> seen" for u
    proof
      assume "live d u"
      then obtain bs t where "walk d u bs = Some t" "is_accept d t" by (auto simp: live_def)
      then show "u \<in> L" using live_closed [OF cl _ bk that] LL by (auto simp: subset_eq)
    qed (use LL in blast)
    have "v = (s \<in> L)" "cache' = (\<lambda>u. if u \<in> seen then Some (u \<in> L) else cache u)"
      using assms(3) unfolding is_live_def that option.case e prod.case Let_def L_def [symmetric] by simp_all
    then show ?thesis using L s assms(1) by (auto simp: live_cache_ok_def)
  qed
  have "v = live d s \<and> live_cache_ok d cache'"
  proof (cases "cache s")
    case (Some w)
    then have "v = w" "cache' = cache" using assms(3) unfolding is_live_def Some option.case by simp_all
    then show ?thesis using assms(1) Some by (simp add: live_cache_ok_def)
  qed (rule core)
  then show "v = live d s" "live_cache_ok d cache'" by simp_all
qed

section \<open>The mask\<close>

text \<open>The memo tables of an engine hold true entries.\<close>

definition viable :: "dfa \<Rightarrow> byte_table \<Rightarrow> state_id \<Rightarrow> token \<Rightarrow> bool" where
  "viable d table s t =
    (t < length (bt_bytes table) \<and> (\<exists>b s'. bt_bytes table ! t = Some b \<and> walk d s b = Some s' \<and> live d s'))"

definition engine_ok :: "regex_engine \<Rightarrow> bool" where
  "engine_ok rx = (live_cache_ok (rx_dfa rx) (rx_lives rx) \<and>
    (\<forall>s m. rx_masks rx s = Some m \<longrightarrow> m = map (viable (rx_dfa rx) (rx_table rx) s) [0 ..< length (bt_bytes (rx_table rx))]))"

definition bytes_viable :: "dfa \<Rightarrow> state_id \<Rightarrow> byte list option \<Rightarrow> bool" where
  "bytes_viable d s tb = (\<exists>b s'. tb = Some b \<and> walk d s b = Some s' \<and> live d s')"

lemma mask_bytes_correct:
  "live_cache_ok d cache \<Longrightarrow> good_succ_order ord \<Longrightarrow> mask_bytes d ord s tbs cache = (m, cache') \<Longrightarrow>
   m = map (bytes_viable d s) tbs \<and> live_cache_ok d cache'"
proof (induction tbs arbitrary: cache m cache')
  case (Cons tb tbs)
  define one where "one = (case tb of None \<Rightarrow> (False, cache)
      | Some b \<Rightarrow> (case walk d s b of None \<Rightarrow> (False, cache) | Some t \<Rightarrow> is_live d ord t cache))"
  obtain ok cache1 where o: "one = (ok, cache1)" by (cases one) auto
  have 1: "ok = bytes_viable d s tb \<and> live_cache_ok d cache1"
  proof (cases "tb = None \<or> walk d s (the tb) = None")
    case True
    then show ?thesis using o Cons.prems(1) by (auto simp: one_def bytes_viable_def split: option.splits)
  next
    case False
    then obtain b t where b: "tb = Some b" "walk d s b = Some t" by auto
    then have "is_live d ord t cache = (ok, cache1)" using o by (simp add: one_def)
    from is_live_result [OF Cons.prems(1,2) this] show ?thesis using b by (simp add: bytes_viable_def)
  qed
  obtain oks cache2 where r: "mask_bytes d ord s tbs cache1 = (oks, cache2)" by (cases "mask_bytes d ord s tbs cache1") auto
  have "m = ok # oks" "cache' = cache2"
    using Cons.prems(3) o r by (simp_all add: one_def [symmetric])
  then show ?case using Cons.IH [OF conjunct2 [OF 1] Cons.prems(2) r] 1 by simp
qed simp

lemma bytes_viable_nth: "t < length (bt_bytes table) \<Longrightarrow> bytes_viable d s (bt_bytes table ! t) = viable d table s t"
  by (auto simp: bytes_viable_def viable_def)

lemma map_viable: "map (bytes_viable d s) (bt_bytes table) = map (viable d table s) [0 ..< length (bt_bytes table)]"
  by (rule nth_equalityI) (auto simp: bytes_viable_nth)

lemma allowed_mask_correct:
  assumes "engine_ok rx" "good_succ_order ord" "allowed_mask ord s rx = (m, rx')"
  shows "m = map (viable (rx_dfa rx) (rx_table rx) s) [0 ..< length (bt_bytes (rx_table rx))]"
    and "engine_ok rx'" "rx_dfa rx' = rx_dfa rx" "rx_table rx' = rx_table rx" "rx_state rx' = rx_state rx"
proof -
  have "m = map (viable (rx_dfa rx) (rx_table rx) s) [0 ..< length (bt_bytes (rx_table rx))] \<and> engine_ok rx' \<and>
    rx_dfa rx' = rx_dfa rx \<and> rx_table rx' = rx_table rx \<and> rx_state rx' = rx_state rx"
  proof (cases "rx_masks rx s")
    case None
    obtain m1 cache where c: "mask_bytes (rx_dfa rx) ord s (bt_bytes (rx_table rx)) (rx_lives rx) = (m1, cache)"
      by (cases "mask_bytes (rx_dfa rx) ord s (bt_bytes (rx_table rx)) (rx_lives rx)") auto
    have "live_cache_ok (rx_dfa rx) (rx_lives rx)" using assms(1) by (simp add: engine_ok_def)
    note M = mask_bytes_correct [OF this assms(2) c, unfolded map_viable]
    show ?thesis using assms(1,3) None c M by (auto simp: allowed_mask_def engine_ok_def split: if_splits)
  next
    case (Some m1)
    then show ?thesis using assms(1,3) by (auto simp: allowed_mask_def engine_ok_def)
  qed
  then show "m = map (viable (rx_dfa rx) (rx_table rx) s) [0 ..< length (bt_bytes (rx_table rx))]"
    "engine_ok rx'" "rx_dfa rx' = rx_dfa rx" "rx_table rx' = rx_table rx" "rx_state rx' = rx_state rx" by simp_all
qed

lemma length_ban [simp]: "length (fold ban_token ts logits) = length logits"
  by (induction ts arbitrary: logits) (simp_all add: ban_token_def)

lemma nth_ban: "t < length logits \<Longrightarrow> fold ban_token ts logits ! t = (if t \<in> set ts then NegInf else logits ! t)"
  by (induction ts arbitrary: logits) (auto simp: ban_token_def nth_list_update)

section \<open>Decoding under the mask\<close>

definition sampled :: "succ_order \<Rightarrow> f32 list \<Rightarrow> logit_fsm \<Rightarrow> token \<Rightarrow> logit_fsm \<Rightarrow> bool" where
  "sampled ord logits f t f' =
    (case apply_mask ord logits f of (m, f1) \<Rightarrow> t < length m \<and> m ! t \<noteq> NegInf \<and> f' = advance t f1)"

text \<open>Any sequence of tokens drawn one after the other from masked logits.\<close>

inductive decode_run :: "succ_order \<Rightarrow> logit_fsm \<Rightarrow> token list \<Rightarrow> logit_fsm \<Rightarrow> bool" for ord f where
  run_Nil: "decode_run ord f [] f"
| run_snoc: "decode_run ord f ts f1 \<Longrightarrow> sampled ord logits f1 t f2 \<Longrightarrow> decode_run ord f (ts @ [t]) f2"

inductive_cases run_NilE: "decode_run ord f [] f'"
inductive_cases run_snocE: "decode_run ord f (ts @ [t]) f'"

definition text_of :: "byte_table \<Rightarrow> token list \<Rightarrow> byte list" where
  "text_of table ts = concat (map (\<lambda>t. case bt_bytes table ! t of Some b \<Rightarrow> b | None \<Rightarrow> []) ts)"

lemma token_viable: "t < n \<Longrightarrow> map P [0 ..< n] ! t = P t"
  by simp

lemma sampled_cases:
  assumes "lf_regex f = Some rx" "engine_ok rx" "good_succ_order ord" "sampled ord logits f t f'"
  shows "\<exists>rx'. t \<notin> set (lf_banned f) \<and> lf_banned f' = lf_banned f \<and> lf_regex f' = Some rx' \<and> engine_ok rx' \<and>
    rx_dfa rx' = rx_dfa rx \<and> rx_table rx' = rx_table rx \<and>
    (t = bt_eos (rx_table rx) \<longrightarrow>
      (is_accept (rx_dfa rx) (rx_state rx) \<or> (\<forall>u. \<not> viable (rx_dfa rx) (rx_table rx) (rx_state rx) u))) \<and>
    (t \<noteq> bt_eos (rx_table rx) \<longrightarrow> (\<exists>b. bt_bytes (rx_table rx) ! t = Some b \<and>
      walk (rx_dfa rx) (rx_state rx) b = Some (rx_state rx') \<and> live (rx_dfa rx) (rx_state rx')))"
proof -
  let ?s = "rx_state rx" and ?d = "rx_dfa rx" and ?tb = "rx_table rx"
  let ?n = "length (bt_bytes ?tb)"
  obtain m rx1 where a: "allowed_mask ord ?s rx = (m, rx1)" by (cases "allowed_mask ord ?s rx") auto
  note A = allowed_mask_correct [OF assms(2,3) a]
  let ?L = "fold ban_token (lf_banned f) logits"
  let ?f1 = "f\<lparr>lf_regex := Some rx1\<rparr>"
  have ap: "apply_mask ord logits f =
      (map (\<lambda>(t, l). if token_ok m (is_accept ?d ?s) (bt_eos ?tb) t then l else NegInf) (zip [0 ..< length ?L] ?L), ?f1)"
    using assms(1) a by (simp add: apply_mask_def Let_def)
  have t: "t < length logits" "f' = advance t ?f1"
    using assms(4) by (simp_all add: sampled_def ap)
  have nt: "(if token_ok m (is_accept ?d ?s) (bt_eos ?tb) t then ?L ! t else NegInf) \<noteq> NegInf"
    using assms(4) t(1) unfolding sampled_def ap prod.case by (simp add: nth_map nth_zip del: if_split)
  then have ok: "token_ok m (is_accept ?d ?s) (bt_eos ?tb) t" and ban: "?L ! t \<noteq> NegInf" by (metis (full_types))+
  have nb: "t \<notin> set (lf_banned f)" using ban nth_ban [OF t(1), of "lf_banned f"] by auto
  have any: "(\<exists>a \<in> set m. a) \<longleftrightarrow> (\<exists>u. viable ?d ?tb ?s u)"
    unfolding A(1) viable_def by (simp add: Bex_def)
  show ?thesis
  proof (cases "t = bt_eos ?tb")
    case True
    then have "f' = ?f1" using t(2) A(4) by (simp add: advance_def)
    have "is_accept ?d ?s \<or> \<not> (\<exists>a \<in> set m. a)" using ok True by (simp add: token_ok_def)
    then have "is_accept ?d ?s \<or> (\<forall>u. \<not> viable ?d ?tb ?s u)" using any by blast
    then show ?thesis
      using nb A(2-4) True \<open>f' = ?f1\<close> by (intro exI [of _ rx1]) simp
  next
    case False
    then have "t < ?n" "viable ?d ?tb ?s t" using ok A(1) by (auto simp: token_ok_def)
    then obtain b s' where b: "bt_bytes ?tb ! t = Some b" "walk ?d ?s b = Some s'" "live ?d s'" by (auto simp: viable_def)
    then have f': "f' = f\<lparr>lf_regex := Some (rx1\<lparr>rx_state := s'\<rparr>)\<rparr>"
      using t(2) A(3,4,5) False \<open>t < ?n\<close> by (simp add: advance_def)
    have "engine_ok (rx1\<lparr>rx_state := s'\<rparr>)" using A(2) by (simp add: engine_ok_def)
    then show ?thesis using nb A(3,4) False b f' by (intro exI [of _ "rx1\<lparr>rx_state := s'\<rparr>"]) simp
  qed
qed

lemma text_of_snoc: "text_of table (ts @ [t]) = text_of table ts @ (case bt_bytes table ! t of Some b \<Rightarrow> b | None \<Rightarrow> [])"
  by (simp add: text_of_def)

lemma decode_run_text:
  assumes "decode_run ord f ts f'" "lf_regex f = Some rx" "engine_ok rx" "good_succ_order ord"
  shows "bt_eos (rx_table rx) \<notin> set ts \<longrightarrow> (\<exists>rx'. lf_regex f' = Some rx' \<and> engine_ok rx' \<and> rx_dfa rx' = rx_dfa rx \<and> rx_table rx' = rx_table rx \<and>
    lf_banned f' = lf_banned f \<and> set ts \<inter> set (lf_banned f) = {} \<and>
    walk (rx_dfa rx) (rx_state rx) (text_of (rx_table rx) ts) = Some (rx_state rx') \<and> (ts \<noteq> [] \<longrightarrow> live (rx_dfa rx) (rx_state rx')))"
  using assms(1)
proof (induction rule: decode_run.induct)
  case run_Nil
  then show ?case using assms(2,3) by (auto simp: text_of_def)
next
  case (run_snoc ts f1 logits t f2)
  show ?case
  proof
    assume eos: "bt_eos (rx_table rx) \<notin> set (ts @ [t])"
    then obtain rx1 where R: "lf_regex f1 = Some rx1" "engine_ok rx1" "rx_dfa rx1 = rx_dfa rx" "rx_table rx1 = rx_table rx"
      "lf_banned f1 = lf_banned f" "set ts \<inter> set (lf_banned f) = {}"
      "walk (rx_dfa rx) (rx_state rx) (text_of (rx_table rx) ts) = Some (rx_state rx1)" using run_snoc.IH by auto
    have "t \<noteq> bt_eos (rx_table rx1)" using eos R(4) by auto
    then obtain rx2 b where S: "t \<notin> set (lf_banned f1)" "lf_banned f2 = lf_banned f1" "lf_regex f2 = Some rx2" "engine_ok rx2"
      "rx_dfa rx2 = rx_dfa rx1" "rx_table rx2 = rx_table rx1"
      and b: "bt_bytes (rx_table rx1) ! t = Some b" "walk (rx_dfa rx1) (rx_state rx1) b = Some (rx_state rx2)" "live (rx_dfa rx1) (rx_state rx2)"
      using sampled_cases [OF R(1,2) assms(4) run_snoc.hyps(2)] by blast
    note b = b [unfolded R(3,4)]
    then show "\<exists>rx'. lf_regex f2 = Some rx' \<and> engine_ok rx' \<and> rx_dfa rx' = rx_dfa rx \<and> rx_table rx' = rx_table rx \<and>
      lf_banned f2 = lf_banned f \<and> set (ts @ [t]) \<inter> set (lf_banned f) = {} \<and>
      walk (rx_dfa rx) (rx_state rx) (text_of (rx_table rx) (ts @ [t])) = Some (rx_state rx') \<and>
      (ts @ [t] \<noteq> [] \<longrightarrow> live (rx_dfa rx) (rx_state rx'))"
      using R S b by (intro exI [of _ rx2]) (simp add: text_of_snoc walk_append)
  qed
qed

definition byte_complete :: "byte_table \<Rightarrow> bool" where
  "byte_complete table = (\<forall>b. \<exists>t < length (bt_bytes table). bt_bytes table ! t = Some [b])"

lemma byte_complete_viable:
  assumes "byte_complete table" "live d s" "\<not> is_accept d s"
  shows "\<exists>u. viable d table s u"
proof -
  obtain v where v: "v \<in> succs d s" "live d v" using assms(2,3) live_iff [of d s] by blast
  then obtain b where "walk d s [b] = Some v" using walk_step by blast
  then show ?thesis using assms(1) v(2) by (fastforce simp: byte_complete_def viable_def)
qed

definition demo_dfa :: dfa where
  "demo_dfa = \<lparr>dfa_start = 1, dfa_next = (\<lambda>s b. if s = 1 \<and> b = 97 then 2 else 0), dfa_eoi = (\<lambda>s. if s = 2 then 3 else 0),
     dfa_dead = (\<lambda>s. s = 0), dfa_quit = (\<lambda>s. False), dfa_match = (\<lambda>s. s = 3)\<rparr>"

definition demo_table :: byte_table where
  "demo_table = \<lparr>bt_bytes = map (\<lambda>i. Some [word_of_nat i]) [0 ..< 256], bt_eos = 256\<rparr>"

definition regex_fsm :: "dfa \<Rightarrow> byte_table \<Rightarrow> logit_fsm" where
  "regex_fsm d table = \<lparr>lf_grammar = ''regex:a'', lf_banned = [], lf_regex = Some (fresh_engine d table)\<rparr>"

lemma fresh_engine_ok: "engine_ok (fresh_engine d table)"
  by (simp add: engine_ok_def live_cache_ok_def fresh_engine_def)

lemma demo_byte_complete: "byte_complete demo_table"
  unfolding byte_complete_def
proof
  fix b :: byte
  have "unat b < 256" using unsigned_less [of b, where ?'a = nat] by simp
  then show "\<exists>t < length (bt_bytes demo_table). bt_bytes demo_table ! t = Some [b]"
    by (intro exI [of _ "unat b"]) (simp add: demo_table_def del: upt_conv_Cons_Cons upt_rec_numeral)
qed

text \<open>
  C8: Tokens drawn one after the other under the mask of a regex grammar spell a text the automaton can still extend to a match, and
  none of them is banned.  The end of sequence can be drawn next only when the text is a complete match or when no token of the
  vocabulary is viable; the second never happens when the vocabulary has every single byte and the grammar matches something.
\<close>

theorem constrained_text:
  assumes "decode_run ord f ts f'" "lf_regex f = Some rx" "engine_ok rx" "good_succ_order ord"
    and "bt_eos (rx_table rx) \<notin> set ts"
  shows "\<exists>s. walk (rx_dfa rx) (rx_state rx) (text_of (rx_table rx) ts) = Some s \<and> set ts \<inter> set (lf_banned f) = {} \<and>
    (ts \<noteq> [] \<longrightarrow> live (rx_dfa rx) s) \<and>
    (\<forall>logits f''. sampled ord logits f' (bt_eos (rx_table rx)) f'' \<longrightarrow>
      is_accept (rx_dfa rx) s \<or> (\<forall>u. \<not> viable (rx_dfa rx) (rx_table rx) s u)) \<and>
    (\<forall>logits f''. byte_complete (rx_table rx) \<and> live (rx_dfa rx) (rx_state rx) \<and>
      sampled ord logits f' (bt_eos (rx_table rx)) f'' \<longrightarrow> is_accept (rx_dfa rx) s)"
proof -
  obtain rx' where R: "lf_regex f' = Some rx'" "engine_ok rx'" "rx_dfa rx' = rx_dfa rx" "rx_table rx' = rx_table rx"
    "set ts \<inter> set (lf_banned f) = {}" "walk (rx_dfa rx) (rx_state rx) (text_of (rx_table rx) ts) = Some (rx_state rx')"
    "ts \<noteq> [] \<longrightarrow> live (rx_dfa rx) (rx_state rx')"
    using decode_run_text [OF assms(1-4)] assms(5) by blast
  have eos: "is_accept (rx_dfa rx) (rx_state rx') \<or> (\<forall>u. \<not> viable (rx_dfa rx) (rx_table rx) (rx_state rx') u)"
    if "sampled ord logits f' (bt_eos (rx_table rx)) f''" for logits f''
    using sampled_cases [OF R(1,2) assms(4) that] unfolding R(3,4) by blast
  have "rx_state rx' = rx_state rx" if "ts = []" using R(6) that by (simp add: text_of_def)
  then have "live (rx_dfa rx) (rx_state rx')" if "live (rx_dfa rx) (rx_state rx)" using R(7) that by (cases "ts = []") auto
  then show ?thesis using R(5-7) eos byte_complete_viable by blast
qed

lemma demo_walk: "walk demo_dfa 1 [97] = Some 2" "live demo_dfa 1" "is_accept demo_dfa 2"
proof -
  show w: "walk demo_dfa 1 [97] = Some 2" by (simp add: demo_dfa_def stuck_state_def Let_def)
  show a: "is_accept demo_dfa 2" by (simp add: is_accept_def demo_dfa_def)
  show "live demo_dfa 1" unfolding live_def using w a by blast
qed

section \<open>From a grammar to the generated text\<close>

lemma strip_mode: "strip (mode @ '':'') g = Some r \<Longrightarrow> mode \<in> {''regex'', ''json_schema'', ''json''} \<Longrightarrow>
  mode_name g \<in> {Some ''regex'', Some ''json_schema'', Some ''json''}"
  by (auto simp: mode_name_def)

lemma strip_take: "strip p g = Some r \<Longrightarrow> take (length p) g = p"
  by (auto simp: strip_def split: if_splits)

lemma ban_no_mode: "strip ''ban:'' g = Some r \<Longrightarrow> mode_name g = None"
proof -
  assume "strip ''ban:'' g = Some r"
  from strip_take [OF this] have "take 4 g = ''ban:''" by (simp add: numeral_eq_Suc)
  then obtain rest where "g = ''ban:'' @ rest" by (metis append_take_drop_id)
  then show "mode_name g = None" by (simp add: mode_name_def strip_def)
qed

lemma compile_engine_ok: "compile_engine env pattern table = Inr rx \<Longrightarrow>
  \<exists>d. ge_build env pattern = Some d \<and> rx = fresh_engine d table"
  by (auto simp: compile_engine_def split: option.splits)

lemma regex_grammar_result: "regex_grammar env g pattern table = Inr f \<Longrightarrow>
  \<exists>d. ge_build env pattern = Some d \<and> f = \<lparr>lf_grammar = g, lf_banned = [], lf_regex = Some (fresh_engine d table)\<rparr>"
  by (auto simp: regex_grammar_def dest!: compile_engine_ok split: sum.splits)

definition pattern_of :: "grammar_env \<Rightarrow> string \<Rightarrow> string \<Rightarrow> bool" where
  "pattern_of env g pattern =
    (strip ''regex:'' g = Some pattern \<or>
     (\<exists>txt schema. strip ''json_schema:'' g = Some txt \<and> ge_parse env (trim txt) = Some schema \<and>
        schema_to_regex (ge_to_json env) schema = Inr pattern) \<or>
     (strip ''json:'' g \<noteq> None \<and> pattern = any_json_regex_default))"

lemma compile_grammar_regex:
  assumes "compile_grammar env g table = Inr f" "lf_regex f = Some rx"
  shows "\<exists>t d pattern. table = Some t \<and> pattern_of env (trim g) pattern \<and> ge_build env pattern = Some d \<and>
    rx = fresh_engine d t \<and> lf_banned f = [] \<and> mode_name (trim g) \<in> {Some ''regex'', Some ''json_schema'', Some ''json''} \<and> lf_grammar f = trim g"
proof -
  let ?g = "trim g"
  have no_ban: "strip ''ban:'' ?g = None" using assms by (auto simp: compile_grammar_def Let_def split: option.splits)
  obtain t where t: "table = Some t" using assms no_ban
    by (auto simp: compile_grammar_def Let_def split: option.splits if_splits)
  obtain pattern mode r where p: "regex_grammar env ?g pattern t = Inr f" "pattern_of env ?g pattern"
    "strip (mode @ '':'') ?g = Some r" "mode \<in> {''regex'', ''json_schema'', ''json''}"
  proof (cases "strip ''regex:'' ?g")
    case (Some pattern)
    then show ?thesis using that [of pattern "''regex''" pattern] assms no_ban t
      by (simp add: compile_grammar_def Let_def pattern_of_def)
  next
    case no_regex: None
    show ?thesis
    proof (cases "strip ''json_schema:'' ?g")
      case (Some tx)
      then obtain schema pattern where "ge_parse env (trim tx) = Some schema" "schema_to_regex (ge_to_json env) schema = Inr pattern"
        "regex_grammar env ?g pattern t = Inr f"
        using assms no_ban no_regex t by (auto simp: compile_grammar_def Let_def split: option.splits sum.splits)
      then show ?thesis using that [of pattern "''json_schema''" tx] Some by (simp add: pattern_of_def)
    next
      case None
      then obtain r where "strip ''json:'' ?g = Some r" "regex_grammar env ?g any_json_regex_default t = Inr f"
        using assms no_ban no_regex t by (auto simp: compile_grammar_def Let_def split: option.splits if_splits)
      then show ?thesis using that [of any_json_regex_default "''json''" r] by (simp add: pattern_of_def)
    qed
  qed
  from regex_grammar_result [OF p(1)] obtain d where d: "ge_build env pattern = Some d"
    "f = \<lparr>lf_grammar = ?g, lf_banned = [], lf_regex = Some (fresh_engine d t)\<rparr>" by blast
  then show ?thesis using t p(2) strip_mode [OF p(3,4)] assms(2) by auto
qed

text \<open>
  A grammar that compiles is either inactive or a plain list of banned tokens, or an engine in its start state with true (empty) memo
  tables, built from the pattern the grammar names; no grammar of an unimplemented mode compiles, and without a byte table no constraint
  on the text does.
\<close>

theorem grammar_compile_result:
  assumes "compile_grammar env g table = Inr f"
  shows "unsupported_mode f = None \<and>
    (case lf_regex f of
       None \<Rightarrow> strip ''ban:'' (trim g) \<noteq> None \<or> (trim g = [] \<and> \<not> is_active f)
     | Some rx \<Rightarrow> engine_ok rx \<and> (\<exists>t d pattern. table = Some t \<and> pattern_of env (trim g) pattern \<and> ge_build env pattern = Some d \<and>
         rx = fresh_engine d t))"
proof (cases "lf_regex f")
  case None
  have "strip ''ban:'' (trim g) \<noteq> None \<or> (trim g = [] \<and> f = \<lparr>lf_grammar = [], lf_banned = [], lf_regex = None\<rparr>)"
    using assms None by (auto simp: compile_grammar_def regex_grammar_def Let_def split: option.splits sum.splits if_splits)
  moreover have "lf_grammar f = trim g" if "strip ''ban:'' (trim g) \<noteq> None"
    using assms that by (auto simp: compile_grammar_def Let_def)
  moreover have "mode_name [] = None" by (simp add: mode_name_def strip_def)
  ultimately show ?thesis using None ban_no_mode by (auto simp: unsupported_mode_def is_active_def)
next
  case (Some rx)
  from compile_grammar_regex [OF assms Some] show ?thesis
    using Some fresh_engine_ok by (auto simp: unsupported_mode_def)
qed

definition demo_env :: grammar_env where
  "demo_env = \<lparr>ge_build = (\<lambda>p. Some demo_dfa), ge_parse = (\<lambda>s. None), ge_to_json = (\<lambda>v. [])\<rparr>"

theorem grammar_compile_result_witness:
  "compile_grammar demo_env '' regex:a '' (Some demo_table) = Inr (regex_fsm demo_dfa demo_table) \<and>
   unsupported_mode (regex_fsm demo_dfa demo_table) = None"
proof -
  have "compile_grammar demo_env '' regex:a '' (Some demo_table) = Inr (regex_fsm demo_dfa demo_table)"
    by (simp add: compile_grammar_def trim_def white_def strip_def regex_grammar_def compile_engine_def demo_env_def regex_fsm_def)
  with grammar_compile_result [OF this] show ?thesis by simp
qed

text \<open>
  The documented behaviour of the automaton builder, on texts of code points up to 255: the automaton of a pattern accepts exactly the
  UTF-8 encodings of the texts in the language of the pattern.
\<close>

definition utf8_char :: "char \<Rightarrow> byte list" where
  "utf8_char c = (let n = (of_char c :: nat) in
    if n < 128 then [word_of_nat n] else [word_of_nat (192 + n div 64), word_of_nat (128 + n mod 64)])"

definition utf8 :: "string \<Rightarrow> byte list" where
  "utf8 s = concat (map utf8_char s)"

definition accepts_text :: "dfa \<Rightarrow> byte list \<Rightarrow> bool" where
  "accepts_text d text = (case walk d (dfa_start d) text of Some s \<Rightarrow> is_accept d s | None \<Rightarrow> False)"

definition builder_ok :: "grammar_env \<Rightarrow> bool" where
  "builder_ok env = (\<forall>r d. rx_ok r \<longrightarrow> ge_build env (render r) = Some d \<longrightarrow>
    (\<forall>w. accepts_text d (utf8 w) \<longleftrightarrow> w \<in> lang r))"

text \<open>The engine a schema compiles to accepts the documents of the schema.\<close>

lemma schema_engine:
  assumes "compile_grammar env (''json_schema:'' @ txt) (Some table) = Inr f" "trim (''json_schema:'' @ txt) = ''json_schema:'' @ txt"
    and "ge_parse env (trim txt) = Some schema" "patterns_ok pat schema" "builder_ok env"
  obtains d where "lf_regex f = Some (fresh_engine d table)" "\<And>w. accepts_text d (utf8 w) \<longleftrightarrow> valid (ge_to_json env) pat schema 0 w"
proof -
  let ?g = "''json_schema:'' @ txt"
  have st: "strip ''ban:'' ?g = None" "strip ''regex:'' ?g = None" "strip ''json_schema:'' ?g = Some txt" by (simp_all add: strip_def)
  then obtain pattern where p: "schema_to_regex (ge_to_json env) schema = Inr pattern" "regex_grammar env ?g pattern table = Inr f"
    using assms(1,3) unfolding compile_grammar_def assms(2) Let_def by (auto split: sum.splits)
  obtain d where d: "ge_build env pattern = Some d" "lf_regex f = Some (fresh_engine d table)"
    using regex_grammar_result [OF p(2)] by auto
  obtain r where r: "render r = pattern" "rx_ok r" "lang r = {w. valid (ge_to_json env) pat schema 0 w}"
    using compile_correct(1) [OF p(1) [unfolded schema_to_regex_def] assms(4)] by (auto simp: denotes_def)
  have "accepts_text d (utf8 w) \<longleftrightarrow> valid (ge_to_json env) pat schema 0 w" for w
    using assms(5) r d(1) by (auto simp: builder_ok_def)
  with d(2) that show ?thesis
    by blast
qed

text \<open>Where a masked run stands when the end of sequence can be drawn.\<close>

lemma run_to_eos:
  assumes "lf_regex f = Some (fresh_engine d table)" "good_succ_order ord"
    and "decode_run ord f ts f'" "bt_eos table \<notin> set ts" "sampled ord logits f' (bt_eos table) f''"
  obtains s where "walk d (dfa_start d) (text_of table ts) = Some s" "is_accept d s \<or> (\<forall>u. \<not> viable d table s u)"
    "byte_complete table \<Longrightarrow> live d (dfa_start d) \<Longrightarrow> is_accept d s"
proof -
  let ?rx = "fresh_engine d table"
  have rx: "rx_dfa ?rx = d" "rx_table ?rx = table" "rx_state ?rx = dfa_start d" by (simp_all add: fresh_engine_def)
  obtain rx' where R: "lf_regex f' = Some rx'" "engine_ok rx'" "rx_dfa rx' = d" "rx_table rx' = table"
    "walk d (dfa_start d) (text_of table ts) = Some (rx_state rx')" "ts \<noteq> [] \<longrightarrow> live d (rx_state rx')"
    using decode_run_text [OF assms(3,1) fresh_engine_ok assms(2)] assms(4) unfolding rx by blast
  have eos: "is_accept d (rx_state rx') \<or> (\<forall>u. \<not> viable d table (rx_state rx') u)"
    using sampled_cases [OF R(1,2) assms(2,5)] unfolding R(3,4) by blast
  have "is_accept d (rx_state rx')" if "byte_complete table" "live d (dfa_start d)"
  proof -
    have "live d (rx_state rx')" using R(5,6) that(2) by (cases "ts = []") (simp_all add: text_of_def)
    then show ?thesis using byte_complete_viable [OF that(1)] eos by blast
  qed
  with R(5) eos that show ?thesis
    by blast
qed

lemma accepts_live: "accepts_text d bs \<Longrightarrow> live d (dfa_start d)"
  by (auto simp: accepts_text_def live_def split: option.splits)


text \<open>A builder that knows the pattern \<^verbatim>\<open>a\<close> only.\<close>

definition a_env :: grammar_env where
  "a_env = \<lparr>ge_build = (\<lambda>p. if p = ''a'' then Some demo_dfa else None),
     ge_parse = (\<lambda>s. if s = ''{}'' then Some (JObj [(''const'', JNull)]) else None), ge_to_json = (\<lambda>v. ''a'')\<rparr>"

lemma lang_of_empty: "render r = [] \<Longrightarrow> rx_ok r \<Longrightarrow> lang r = {[]}"
proof (induction r)
  case (Cat rs)
  then have "\<forall>r \<in> set rs. lang r = {[]}" by auto
  then show ?case by (induction rs) simp_all
next
  case (Alt rs)
  then obtain r rs' where rs: "rs = r # rs'" by (cases rs) auto
  then have "rs' = []" using Alt.prems(1) by (cases rs') auto
  then show ?case using Alt rs by simp
qed (auto simp: paren_def esc_char_def split: if_splits)

lemma lang_of_a: "render r = ''a'' \<Longrightarrow> rx_ok r \<Longrightarrow> lang r = {''a''}"
proof (induction r)
  case (Chr c)
  then show ?case by (auto simp: esc_char_def split: if_splits)
next
  case (Cat rs)
  have "concat (map render rs) = ''a'' \<Longrightarrow> \<forall>r \<in> set rs. rx_ok r \<and> (render r = ''a'' \<longrightarrow> lang r = {''a''}) \<Longrightarrow> foldr conc (map lang rs) {[]} = {''a''}" for rs
  proof (induction rs)
    case (Cons r rs)
    have split: "render r = [] \<and> concat (map render rs) = ''a'' \<or> render r = ''a'' \<and> concat (map render rs) = []"
      using Cons.prems(1) by (auto simp: append_eq_Cons_conv)
    have e: "foldr conc (map lang rs) {[]} = {[]}" if "concat (map render rs) = []"
      using that Cons.prems(2) lang_of_empty by (induction rs) auto
    from split show ?case
    proof
      assume a: "render r = [] \<and> concat (map render rs) = ''a''"
      have "lang r = {[]}" using lang_of_empty [of r] a Cons.prems(2) by simp
      moreover have "foldr conc (map lang rs) {[]} = {''a''}" using Cons.IH a Cons.prems(2) by simp
      ultimately show ?thesis by (simp only: list.map foldr_Cons o_apply conc_Nil)
    next
      assume a: "render r = ''a'' \<and> concat (map render rs) = []"
      have "lang r = {''a''}" using a Cons.prems(2) by simp
      moreover have "foldr conc (map lang rs) {[]} = {[]}" using e a by blast
      ultimately show ?thesis by (simp only: list.map foldr_Cons o_apply conc_Nil)
    qed
  qed simp
  then show ?case using Cat by auto
next
  case (Alt rs)
  then obtain r rs' where rs: "rs = r # rs'" by (cases rs) auto
  have "rs' = []"
  proof (cases rs')
    case (Cons r' rs'')
    then have "render (Alt rs) = render r @ ''|'' @ join ''|'' (map render rs')" using rs by simp
    then have "CHR ''|'' \<in> set (render (Alt rs))" by simp
    then show ?thesis using Alt.prems(1) by simp
  qed
  then show ?case using Alt rs by simp
qed (auto simp: paren_def append_eq_Cons_conv Cons_eq_append_conv dest: arg_cong [where f = rev])

lemma demo_dfa_text: "accepts_text demo_dfa x \<longleftrightarrow> x = [97]"
proof -
  have dead: "stuck_state demo_dfa 0" "\<And>b. dfa_next demo_dfa 2 b = 0" "\<And>b. b \<noteq> 97 \<Longrightarrow> dfa_next demo_dfa 1 b = 0"
    "dfa_next demo_dfa 1 97 = 2" "\<not> stuck_state demo_dfa 2" "dfa_start demo_dfa = 1" "\<not> is_accept demo_dfa 1" "is_accept demo_dfa 2"
    by (simp_all add: demo_dfa_def stuck_state_def is_accept_def)
  show ?thesis
  proof (cases x)
    case Nil
    then show ?thesis using dead by (simp add: accepts_text_def)
  next
    case (Cons b y)
    then show ?thesis using dead by (cases "b = 97"; cases y) (simp_all add: accepts_text_def Let_def)
  qed
qed

lemma utf8_a: "utf8 w = [97] \<longleftrightarrow> w = ''a''"
proof (cases w)
  case (Cons c cs)
  have "utf8_char c \<noteq> []" by (simp add: utf8_char_def Let_def)
  moreover have "utf8_char c = [97] \<longleftrightarrow> c = CHR ''a''"
  proof -
    have "(word_of_nat (of_char c) :: byte) = 97 \<longleftrightarrow> (of_char c :: nat) = 97" if "(of_char c :: nat) < 128"
      using that by (simp add: word_unat_eq_iff unat_of_nat)
    moreover have "(of_char c :: nat) = 97 \<longleftrightarrow> c = CHR ''a''"
      using of_char_eq_iff [of c "CHR ''a''", where ?'a = nat] by simp
    ultimately show ?thesis by (auto simp: utf8_char_def Let_def)
  qed
  ultimately show ?thesis using Cons by (cases cs) (auto simp: utf8_def utf8_char_def Let_def append_eq_Cons_conv)
qed (simp add: utf8_def)

lemma sampled_ex:
  assumes "lf_regex f = Some rx" "engine_ok rx" "good_succ_order ord" "lf_banned f = []" "t < length logits" "logits ! t \<noteq> NegInf"
    and "if t = bt_eos (rx_table rx) then is_accept (rx_dfa rx) (rx_state rx) else viable (rx_dfa rx) (rx_table rx) (rx_state rx) t"
  shows "\<exists>f'. sampled ord logits f t f'"
proof -
  obtain m rx1 where a: "allowed_mask ord (rx_state rx) rx = (m, rx1)" by (cases "allowed_mask ord (rx_state rx) rx") auto
  note A = allowed_mask_correct [OF assms(2,3) a]
  have "token_ok m (is_accept (rx_dfa rx) (rx_state rx)) (bt_eos (rx_table rx)) t"
    using assms(7) A(1) by (auto simp: token_ok_def viable_def split: if_splits)
  then show ?thesis using assms(1,4-6) a by (simp add: sampled_def apply_mask_def Let_def)
qed

lemma a_builder_ok: "builder_ok a_env"
  unfolding builder_ok_def
proof (intro allI impI)
  fix r d w
  assume "rx_ok r" "ge_build a_env (render r) = Some d"
  then have "lang r = {''a''}" "d = demo_dfa" using lang_of_a by (auto simp: a_env_def split: if_splits)
  then show "accepts_text d (utf8 w) \<longleftrightarrow> w \<in> lang r" by (simp add: demo_dfa_text utf8_a)
qed

lemma demo_bytes: "bt_bytes demo_table ! 97 = Some [97]" "97 < length (bt_bytes demo_table)"
  unfolding demo_table_def byte_table.simps length_map length_upt by (simp_all add: nth_map_upt del: upt_rec_numeral)

lemma demo_viable: "viable demo_dfa demo_table 1 97"
proof -
  have "live demo_dfa 2" using demo_walk(3) live_accept by blast
  then show ?thesis using demo_bytes demo_walk(1) by (auto simp: viable_def)
qed

lemma demo_run:
  assumes "lf_regex f = Some (fresh_engine demo_dfa demo_table)" "lf_banned f = []" "good_succ_order ord"
  shows "\<exists>f1 f2. sampled ord (replicate 257 (Fin 0)) f 97 f1 \<and> sampled ord (replicate 257 (Fin 0)) f1 256 f2"
proof -
  let ?rx = "fresh_engine demo_dfa demo_table" and ?L = "replicate 257 (Fin 0)"
  have rx: "rx_dfa ?rx = demo_dfa" "rx_table ?rx = demo_table" "rx_state ?rx = 1" "bt_eos demo_table = 256"
    by (simp_all add: fresh_engine_def demo_table_def demo_dfa_def)
  obtain f1 where s1: "sampled ord ?L f 97 f1"
    using sampled_ex [of f ?rx ord 97 ?L] assms fresh_engine_ok demo_viable by (auto simp: rx)
  obtain rx1 where R: "lf_banned f1 = []" "lf_regex f1 = Some rx1" "engine_ok rx1" "rx_dfa rx1 = demo_dfa" "rx_table rx1 = demo_table"
    "\<exists>b. bt_bytes demo_table ! 97 = Some b \<and> walk demo_dfa 1 b = Some (rx_state rx1)"
    using sampled_cases [OF assms(1) fresh_engine_ok assms(3) s1] assms(2) by (auto simp: rx)
  have "rx_state rx1 = 2" using R(6) demo_walk(1) demo_bytes by simp
  then obtain f2 where "sampled ord ?L f1 256 f2"
    using sampled_ex [of f1 rx1 ord 256 ?L] R assms(3) demo_walk(3) by (auto simp: rx)
  then show ?thesis using s1 by blast
qed

theorem constrained_text_witness:
  "\<exists>f1 logits f2. decode_run (\<lambda>xs. xs) (regex_fsm demo_dfa demo_table) [97] f1 \<and> sampled (\<lambda>xs. xs) logits f1 256 f2 \<and>
    is_accept demo_dfa 2"
proof -
  let ?o = "\<lambda>xs. xs" and ?f = "regex_fsm demo_dfa demo_table" and ?rx = "fresh_engine demo_dfa demo_table"
  have rx: "rx_table ?rx = demo_table" "rx_dfa ?rx = demo_dfa" "rx_state ?rx = 1" "bt_eos demo_table = 256"
    by (simp_all add: fresh_engine_def demo_dfa_def demo_table_def)
  have f: "lf_regex ?f = Some ?rx" "lf_banned ?f = []" by (simp_all add: regex_fsm_def)
  have o: "good_succ_order ?o" by (simp add: good_succ_order_def)
  obtain f1 f2 where s: "sampled ?o (replicate 257 (Fin 0)) ?f 97 f1" "sampled ?o (replicate 257 (Fin 0)) f1 256 f2"
    using demo_run [OF f o] by blast
  have run: "decode_run ?o ?f ([] @ [97]) f1" by (rule run_snoc [OF run_Nil s(1)])
  have "text_of demo_table ([] @ [97]) = [97]" "bt_eos demo_table \<notin> set ([] @ [97])" by (simp_all add: text_of_def demo_bytes rx(4))
  then have "is_accept demo_dfa 2"
    using constrained_text [OF run f(1) fresh_engine_ok o, unfolded rx] s(2) demo_byte_complete demo_walk by (auto simp: rx)
  then show ?thesis using run s(2) by auto
qed


text \<open>
  C9: The search with its memo table ends for every automaton, answers whether some byte string leads from the state to a match without
  passing a dead state, leaves only true entries in the table, and does not depend on the order the hash map is iterated in.
\<close>

theorem live_search_exact:
  assumes "live_cache_ok d cache" "good_succ_order ord"
  shows "(fst (is_live d ord s cache) \<longleftrightarrow> (\<exists>bs t. walk d s bs = Some t \<and> is_accept d t)) \<and>
    live_cache_ok d (snd (is_live d ord s cache)) \<and>
    (\<forall>ord'. good_succ_order ord' \<longrightarrow> fst (is_live d ord' s cache) = fst (is_live d ord s cache))"
proof -
  have R: "fst (is_live d ord' s cache) = live d s \<and> live_cache_ok d (snd (is_live d ord' s cache))" if "good_succ_order ord'" for ord'
    by (cases "is_live d ord' s cache") (use is_live_result [OF assms(1) that] in auto)
  show ?thesis using R assms(2) unfolding live_def by simp
qed

theorem live_search_exact_witness:
  "fst (is_live demo_dfa (\<lambda>xs. xs) 1 Map.empty)"
proof -
  have "live_cache_ok demo_dfa Map.empty" "good_succ_order (\<lambda>xs. xs)" by (simp_all add: live_cache_ok_def good_succ_order_def)
  from live_search_exact [OF this, of 1] demo_walk(2) show ?thesis by (simp only: live_def simp_thms)
qed

end
