(* ===== verification/Hooks.thy ===== *)
theory Hooks
  imports MemoryStore
begin

text \<open>
  The layer hooks of the engine (\<^verbatim>\<open>src/engine/hooks\<close>), the confidence and difficulty estimates
  (\<^verbatim>\<open>confidence.rs\<close>, \<^verbatim>\<open>difficulty.rs\<close>) and the reasoning budget (\<^verbatim>\<open>reasoning_budget.rs\<close>).
  A \<^verbatim>\<open>dyn Hook\<close> is the record of its methods: what \<^verbatim>\<open>on_layer\<close> does to the hidden state, to the cells
  of the context and to the memory store is its result.  \<open>now\<close> is the second the method reads from the clock.  The locale
  \<open>observing_hook\<close> is the contract of the hooks the program registers itself, \<open>observing_registry\<close> what a registry of such
  hooks promises to the forward pass.
\<close>

section \<open>Hooks and their registry\<close>

datatype hook_action = Continue | EarlyExit string | ModifyState | SkipRemaining

record hook_context =
  hc_request_id :: string
  hc_tokens_generated :: nat
  hc_confidence :: f32
  hc_stores_remaining :: nat

definition default_stores_per_request :: nat where
  "default_stores_per_request = 4"

definition new_context :: "string \<Rightarrow> hook_context" where
  "new_context rid =
    \<lparr>hc_request_id = rid, hc_tokens_generated = 0, hc_confidence = Fin 0, hc_stores_remaining = default_stores_per_request\<rparr>"

record hook =
  hk_name :: string
  hk_target_layers :: "nat list"
  hk_on_layer :: "nat \<Rightarrow> nat \<Rightarrow> nat \<Rightarrow> tensor \<Rightarrow> hook_context \<Rightarrow> store \<Rightarrow> hook_action \<times> tensor \<times> hook_context \<times> store"
  hk_residual_delta :: "nat \<Rightarrow> nat \<Rightarrow> tensor \<Rightarrow> hook_context \<Rightarrow> store \<Rightarrow> tensor option"

type_synonym registry = "hook list"

definition register :: "hook \<Rightarrow> registry \<Rightarrow> registry" where
  "register h hs = hs @ [h]"

fun fire :: "registry \<Rightarrow> nat \<Rightarrow> nat \<Rightarrow> nat \<Rightarrow> tensor \<Rightarrow> hook_context \<Rightarrow> store \<Rightarrow> hook_action \<times> tensor \<times> hook_context \<times> store" where
  "fire [] now layer_idx loop_idx x ctx st = (Continue, x, ctx, st)"
| "fire (h # hs) now layer_idx loop_idx x ctx st =
    (if layer_idx \<in> set (hk_target_layers h) then
       (case hk_on_layer h now layer_idx loop_idx x ctx st of
          (EarlyExit reason, x', ctx', st') \<Rightarrow> (EarlyExit reason, x', ctx', st')
        | (SkipRemaining, x', ctx', st') \<Rightarrow> (SkipRemaining, x', ctx', st')
        | (_, x', ctx', st') \<Rightarrow> fire hs now layer_idx loop_idx x' ctx' st')
     else fire hs now layer_idx loop_idx x ctx st)"

definition add_delta :: "f32_ops \<Rightarrow> tensor option \<Rightarrow> tensor \<Rightarrow> tensor option" where
  "add_delta ops acc delta =
    (case acc of None \<Rightarrow> Some delta
     | Some a \<Rightarrow> if length a = length delta then Some (map2 (f_add ops) a delta) else Some a)"

fun residual_delta :: "f32_ops \<Rightarrow> registry \<Rightarrow> nat \<Rightarrow> nat \<Rightarrow> tensor \<Rightarrow> hook_context \<Rightarrow> store \<Rightarrow> tensor option \<Rightarrow> tensor option" where
  "residual_delta ops [] now layer_idx x ctx st acc = acc"
| "residual_delta ops (h # hs) now layer_idx x ctx st acc =
    (if layer_idx \<notin> set (hk_target_layers h) then residual_delta ops hs now layer_idx x ctx st acc
     else (case hk_residual_delta h now layer_idx x ctx st of
             None \<Rightarrow> residual_delta ops hs now layer_idx x ctx st acc
           | Some delta \<Rightarrow> residual_delta ops hs now layer_idx x ctx st (add_delta ops acc delta)))"

definition steering_hook :: "f32_ops \<Rightarrow> tensor \<Rightarrow> f32 \<Rightarrow> nat \<Rightarrow> hook" where
  "steering_hook ops vector alpha layer =
    \<lparr>hk_name = ''steering'', hk_target_layers = [layer],
     hk_on_layer = (\<lambda>now layer_idx loop_idx x ctx st. (Continue, x, ctx, st)),
     hk_residual_delta = (\<lambda>now layer_idx x ctx st.
       if layer_idx \<noteq> layer then None else Some (map (f_mul ops alpha) vector))\<rparr>"

text \<open>The decimal digits \<^verbatim>\<open>format!\<close> writes.\<close>

fun decimal :: "nat \<Rightarrow> string" where
  "decimal n = (if n < 10 then [char_of (48 + n)] else decimal (n div 10) @ [char_of (48 + n mod 10)])"

declare decimal.simps [simp del]

definition capture_key :: "string \<Rightarrow> nat \<Rightarrow> string" where
  "capture_key rid layer_idx = rid @ '':layer'' @ decimal layer_idx @ '':auto''"

definition capture :: "map_order \<Rightarrow> nat \<Rightarrow> nat \<Rightarrow> tensor \<Rightarrow> hook_context \<Rightarrow> store \<Rightarrow> hook_context \<times> store" where
  "capture order now layer_idx x ctx st =
    (if hc_stores_remaining ctx = 0 then (ctx, st)
     else
       (ctx\<lparr>hc_stores_remaining := hc_stores_remaining ctx - 1\<rparr>,
        fst (store_with_options order now (capture_key (hc_request_id ctx) layer_idx) x
          \<lparr>md_source_request_id = hc_request_id ctx, md_layer_captured = layer_idx, md_category = Context, md_tags = [],
           md_text_summary = ''''\<rparr> default_store_options st)))"

definition memory_inject_hook :: "f32_math \<Rightarrow> map_order \<Rightarrow> nat \<Rightarrow> nat \<Rightarrow> f32 \<Rightarrow> nat \<Rightarrow> hook" where
  "memory_inject_hook m order inject_layer capture_layer alpha max_memories =
    \<lparr>hk_name = ''memory_inject'', hk_target_layers = [capture_layer, inject_layer],
     hk_on_layer = (\<lambda>now layer_idx loop_idx x ctx st.
       if layer_idx = capture_layer then
         (let (ctx', st') = capture order now layer_idx x ctx st in (Continue, x, ctx', st'))
       else (Continue, x, ctx, st)),
     hk_residual_delta = (\<lambda>now layer_idx x ctx st.
       if layer_idx \<noteq> inject_layer \<or> f32_le alpha (Fin 0) then None
       else build_injection_vector m order now x max_memories alpha st)\<rparr>"

section \<open>Confidence and difficulty\<close>

definition f32_clamp :: "f32 \<Rightarrow> f32 \<Rightarrow> f32 \<Rightarrow> f32" where
  "f32_clamp lo hi x = (let y = (if f32_lt x lo then lo else x) in if f32_lt hi y then hi else y)"

definition power_sums :: "f32_math \<Rightarrow> tensor \<Rightarrow> f32 \<times> f32" where
  "power_sums m h =
    foldl (\<lambda>(sq_sum, quad_sum) v. let sq = f_mul m v v in (f_add m sq_sum sq, f_add m quad_sum (f_mul m sq sq))) (Fin 0, Fin 0) h"

definition confidence :: "f32_math \<Rightarrow> tensor \<Rightarrow> f32" where
  "confidence m h =
    (if length h < 2 then Fin 0
     else
       (let (sq_sum, quad_sum) = power_sums m h; tiny = f_lit m (1 / 10 ^ 12)
        in if f32_lt quad_sum tiny \<or> f32_lt sq_sum tiny then Fin 0
           else
             (let ipr = f_div m (f_mul m sq_sum sq_sum) quad_sum
              in f32_clamp (Fin 0) (Fin 1)
                   (f_sub m (Fin 1) (f_div m (f_sub m ipr (Fin 1)) (f_sub m (f_of_nat m (length h)) (Fin 1)))))))"

definition should_exit :: "f32_math \<Rightarrow> tensor \<Rightarrow> f32 \<Rightarrow> bool" where
  "should_exit m h threshold = f32_le threshold (confidence m h)"

text \<open>\<^verbatim>\<open>as usize\<close> of a float saturates.\<close>

definition f32_to_usize :: "f32 \<Rightarrow> nat" where
  "f32_to_usize x =
    (case x of NaN \<Rightarrow> 0 | NegInf \<Rightarrow> 0 | PosInf \<Rightarrow> 2 ^ 64 - 1 | Fin q \<Rightarrow> min (2 ^ 64 - 1) (nat \<lfloor>q\<rfloor>))"

definition difficulty :: "f32_math \<Rightarrow> tensor \<Rightarrow> nat" where
  "difficulty m h =
    (if h = [] then 0
     else (let d = f32_clamp (Fin 0) (Fin 1) (f_sub m (Fin 1) (confidence m h)) in min (f32_to_usize (f_mul m d (Fin 5))) 4))"

definition map_to_loops :: "nat \<Rightarrow> nat" where
  "map_to_loops d = (if d = 0 then 1 else if d = 1 then 2 else if d = 2 then 4 else if d = 3 then 8 else 16)"

section \<open>The reasoning budget\<close>

record reasoning_budget =
  rb_max_loops :: nat
  rb_max_memory_mb :: nat
  rb_confidence_threshold :: f32
  rb_per_token_adaptive :: bool

record reasoning_state =
  rt_loops_used :: nat
  rt_memory_used_mb :: nat
  rt_current_confidence :: f32
  rt_token_importances :: "f32 list"

definition should_continue :: "reasoning_budget \<Rightarrow> reasoning_state \<Rightarrow> bool" where
  "should_continue b s =
    (if rb_max_loops b \<le> rt_loops_used s then False
     else if rb_max_memory_mb b \<le> rt_memory_used_mb s then False
     else if f32_le (rb_confidence_threshold b) (rt_current_confidence s) then False
     else True)"

definition from_tier :: "f32_math \<Rightarrow> string \<Rightarrow> reasoning_budget" where
  "from_tier m tier =
    (if tier = ''free'' then
       \<lparr>rb_max_loops = 2, rb_max_memory_mb = 64, rb_confidence_threshold = f_lit m (8 / 10), rb_per_token_adaptive = False\<rparr>
     else if tier = ''standard'' then
       \<lparr>rb_max_loops = 8, rb_max_memory_mb = 256, rb_confidence_threshold = f_lit m (9 / 10), rb_per_token_adaptive = True\<rparr>
     else if tier = ''premium'' then
       \<lparr>rb_max_loops = 16, rb_max_memory_mb = 512, rb_confidence_threshold = f_lit m (95 / 100), rb_per_token_adaptive = True\<rparr>
     else
       \<lparr>rb_max_loops = 4, rb_max_memory_mb = 128, rb_confidence_threshold = f_lit m (9 / 10), rb_per_token_adaptive = False\<rparr>)"

definition estimate_memory_per_loop :: "nat \<Rightarrow> nat \<Rightarrow> nat \<Rightarrow> nat" where
  "estimate_memory_per_loop seq_len d_model reasoning_layers = reasoning_layers * seq_len * d_model * 2 div (1024 * 1024)"

definition new_state :: "nat \<Rightarrow> reasoning_state" where
  "new_state seq_len =
    \<lparr>rt_loops_used = 0, rt_memory_used_mb = 0, rt_current_confidence = Fin 0, rt_token_importances = replicate seq_len (Fin (1 / 2))\<rparr>"

definition record_loop :: "nat \<Rightarrow> f32 \<Rightarrow> reasoning_state \<Rightarrow> reasoning_state" where
  "record_loop memory_mb conf s =
    s\<lparr>rt_loops_used := rt_loops_used s + 1, rt_memory_used_mb := rt_memory_used_mb s + memory_mb, rt_current_confidence := conf\<rparr>"

definition token_score :: "f32_math \<Rightarrow> tensor \<Rightarrow> nat \<Rightarrow> nat \<Rightarrow> f32" where
  "token_score m h d_model t =
    (let start = t * d_model;
         token_hidden = subslice h start (min (start + d_model) (length h));
         norm = f_sqrt m (f_sum (f32_ops.truncate m) (map (\<lambda>x. f_mul m x x) token_hidden))
     in f32_min (f_div m norm (f_sqrt m (f_of_nat m d_model))) (Fin 1))"

definition boost :: "f32_math \<Rightarrow> f32 list \<Rightarrow> f32 list" where
  "boost m scores =
    (if 4 < length scores then
       (let s1 = map (\<lambda>s. f32_min (f_add m s (Fin 1)) (Fin 1)) (take 2 scores) @ drop 2 scores; n = length s1
        in take (n - 2) s1 @ map (\<lambda>s. f32_min (f_add m s (Fin (1 / 2))) (Fin 1)) (drop (n - 2) s1))
     else scores)"

definition importance_score :: "f32_math \<Rightarrow> tensor \<Rightarrow> nat \<Rightarrow> f32 list" where
  "importance_score m h seq_len =
    (if seq_len = 0 \<or> h = [] then []
     else
       (let d_model = length h div seq_len
        in if d_model = 0 then replicate seq_len (Fin (1 / 2))
           else boost m (map (token_score m h d_model) [0 ..< seq_len])))"

definition tokens_needing_deep_reasoning :: "f32 list \<Rightarrow> f32 \<Rightarrow> nat list" where
  "tokens_needing_deep_reasoning scores threshold = filter (\<lambda>i. f32_le threshold (scores ! i)) [0 ..< length scores]"

definition average_importance :: "f32_math \<Rightarrow> f32 list \<Rightarrow> f32" where
  "average_importance m scores =
    (if scores = [] then Fin 0 else f_div m (f_sum (f32_ops.truncate m) scores) (f_of_nat m (length scores)))"

section \<open>The contract of a hook that only observes\<close>

text \<open>
  What the forward pass relies on: the hook leaves the hidden state alone and never stops the pass; it keeps the invariant of the
  store and its configuration; each change of the store is paid for out of the quota of the request, and touches only entries of
  the request's own key.  \<open>req\<close> is the identifier of the request.
\<close>

definition only_own :: "(string \<Rightarrow> bool) \<Rightarrow> nat \<Rightarrow> store \<Rightarrow> store \<Rightarrow> bool" where
  "only_own own now st st' =
    ((\<forall>k e. map_of (st_entries st') k = Some e \<longrightarrow> own k \<or> map_of (st_entries st) k = Some e) \<and>
     (\<forall>k e. map_of (st_entries st) k = Some e \<and> me_pinned e \<and> \<not> is_expired e now \<and> \<not> own k \<longrightarrow> map_of (st_entries st') k = Some e))"

definition own_key :: "string \<Rightarrow> string \<Rightarrow> bool" where
  "own_key rid k = (\<exists>l. k = capture_key rid l)"

lemma only_own_refl [simp]: "only_own own now st st"
  by (simp add: only_own_def)

lemma only_own_trans: "only_own own now st st' \<Longrightarrow> only_own own now st' st'' \<Longrightarrow> only_own own now st st''"
  unfolding only_own_def by blast

locale observing_hook =
  fixes h :: hook
  assumes observes: "hk_on_layer h now l lp x ctx st = (a, x', ctx', st') \<Longrightarrow> a = Continue \<and> x' = x"
    and keeps_inv: "hk_on_layer h now l lp x ctx st = (a, x', ctx', st') \<Longrightarrow> store_inv st \<Longrightarrow> store_inv st'"
    and pays: "hk_on_layer h now l lp x ctx st = (a, x', ctx', st') \<Longrightarrow>
      hc_request_id ctx' = hc_request_id ctx \<and> hc_stores_remaining ctx' \<le> hc_stores_remaining ctx \<and>
      (st' = st \<or> hc_stores_remaining ctx' < hc_stores_remaining ctx)"
    and owns: "hk_on_layer h now l lp x ctx st = (a, x', ctx', st') \<Longrightarrow> store_inv st \<Longrightarrow> only_own (own_key (hc_request_id ctx)) now st st'"

locale observing_registry =
  fixes hs :: registry
  assumes each: "h \<in> set hs \<Longrightarrow> observing_hook h"
begin

lemma fire_observes:
  "fire hs now l lp x ctx st = (a, x', ctx', st') \<Longrightarrow>
   a = Continue \<and> x' = x \<and> hc_request_id ctx' = hc_request_id ctx \<and> hc_stores_remaining ctx' \<le> hc_stores_remaining ctx \<and>
   (st' = st \<or> hc_stores_remaining ctx' < hc_stores_remaining ctx)"
  using each
proof (induction hs arbitrary: x ctx st)
  case (Cons h hs)
  have h: "observing_hook h" and IH: "\<And>x ctx st. fire hs now l lp x ctx st = (a, x', ctx', st') \<Longrightarrow>
   a = Continue \<and> x' = x \<and> hc_request_id ctx' = hc_request_id ctx \<and> hc_stores_remaining ctx' \<le> hc_stores_remaining ctx \<and>
   (st' = st \<or> hc_stores_remaining ctx' < hc_stores_remaining ctx)"
    using Cons.IH Cons.prems(2) by auto
  show ?case
  proof (cases "l \<in> set (hk_target_layers h)")
    case True
    obtain a1 x1 ctx1 st1 where o: "hk_on_layer h now l lp x ctx st = (a1, x1, ctx1, st1)" by (metis prod.exhaust)
    have "a1 = Continue" "x1 = x" using observing_hook.observes [OF h o] by auto
    then have "fire hs now l lp x ctx1 st1 = (a, x', ctx', st')" using Cons.prems(1) True o by simp
    from IH [OF this] observing_hook.pays [OF h o] show ?thesis by auto
  qed (use Cons.prems(1) IH in simp)
qed simp

lemma fire_owns:
  "fire hs now l lp x ctx st = (a, x', ctx', st') \<Longrightarrow> store_inv st \<Longrightarrow>
   store_inv st' \<and> only_own (own_key (hc_request_id ctx)) now st st'"
  using each
proof (induction hs arbitrary: x ctx st)
  case (Cons h hs)
  have h: "observing_hook h" and IH: "\<And>x ctx st. fire hs now l lp x ctx st = (a, x', ctx', st') \<Longrightarrow> store_inv st \<Longrightarrow>
   store_inv st' \<and> only_own (own_key (hc_request_id ctx)) now st st'"
    using Cons.IH Cons.prems(3) by auto
  show ?case
  proof (cases "l \<in> set (hk_target_layers h)")
    case True
    obtain a1 x1 ctx1 st1 where o: "hk_on_layer h now l lp x ctx st = (a1, x1, ctx1, st1)" by (metis prod.exhaust)
    have "a1 = Continue" "x1 = x" using observing_hook.observes [OF h o] by auto
    then have "fire hs now l lp x ctx1 st1 = (a, x', ctx', st')" using Cons.prems(1) True o by simp
    from IH [OF this] observing_hook.keeps_inv [OF h o] observing_hook.pays [OF h o] observing_hook.owns [OF h o] Cons.prems(2)
    show ?thesis by (auto intro: only_own_trans)
  qed (use Cons.prems(1,2) IH in simp)
qed simp

end

interpretation steering: observing_hook "steering_hook ops vector alpha layer" for ops vector alpha layer
  by unfold_locales (auto simp: steering_hook_def)

lemma capture_correct:
  assumes "capture order now l x ctx st = (ctx', st')" "good_order order" "store_inv st"
  shows "store_inv st'" "only_own (own_key (hc_request_id ctx)) now st st'"
proof -
  let ?k = "capture_key (hc_request_id ctx) l"
  let ?md = "\<lparr>md_source_request_id = hc_request_id ctx, md_layer_captured = l, md_category = Context, md_tags = [], md_text_summary = ''''\<rparr>"
  obtain st2 res where s: "store_with_options order now ?k x ?md default_store_options st = (st2, res)" by fastforce
  note S = store_with_options_correct [OF assms(3,2) s]
  have own: "own_key (hc_request_id ctx) ?k" by (auto simp: own_key_def)
  have "st' = st \<or> st' = st2" using assms(1) s by (auto simp: capture_def split: if_splits)
  moreover have "store_inv st2" by (rule S(1))
  moreover have "only_own (own_key (hc_request_id ctx)) now st st2"
    unfolding only_own_def
  proof (intro conjI allI impI)
    show "own_key (hc_request_id ctx) k \<or> map_of (st_entries st) k = Some e" if "map_of (st_entries st2) k = Some e" for k e
      using S(7) [of k e] own that by blast
    show "map_of (st_entries st2) k = Some e"
      if "map_of (st_entries st) k = Some e \<and> me_pinned e \<and> \<not> is_expired e now \<and> \<not> own_key (hc_request_id ctx) k" for k e
      using S(8) [of k e] own that by blast
  qed
  ultimately show "store_inv st'" "only_own (own_key (hc_request_id ctx)) now st st'" using assms(3) by auto
qed

lemma capture_pays:
  "capture order now l x ctx st = (ctx', st') \<Longrightarrow>
   hc_request_id ctx' = hc_request_id ctx \<and> hc_stores_remaining ctx' \<le> hc_stores_remaining ctx \<and>
   (st' = st \<or> hc_stores_remaining ctx' < hc_stores_remaining ctx)"
  by (auto simp: capture_def split: if_splits)

lemma memory_inject_observes:
  assumes "good_order order"
  shows "observing_hook (memory_inject_hook m order inject_layer capture_layer alpha max_memories)"
proof
  fix now l lp x ctx st a x' ctx' st'
  assume o: "hk_on_layer (memory_inject_hook m order inject_layer capture_layer alpha max_memories) now l lp x ctx st = (a, x', ctx', st')"
  then show "a = Continue \<and> x' = x" by (auto simp: memory_inject_hook_def split: if_splits prod.splits)
  have c: "(l = capture_layer \<and> capture order now l x ctx st = (ctx', st')) \<or> (l \<noteq> capture_layer \<and> ctx' = ctx \<and> st' = st)"
    using o by (auto simp: memory_inject_hook_def split: if_splits prod.splits)
  then show "hc_request_id ctx' = hc_request_id ctx \<and> hc_stores_remaining ctx' \<le> hc_stores_remaining ctx \<and>
      (st' = st \<or> hc_stores_remaining ctx' < hc_stores_remaining ctx)"
    using capture_pays [of order now l x ctx st] by auto
  show "store_inv st'" if "store_inv st" using c capture_correct(1) [OF _ assms that] that by auto
  show "only_own (own_key (hc_request_id ctx)) now st st'" if "store_inv st" using c capture_correct(2) [OF _ assms that] by auto
qed

definition insertion_order :: map_order where
  "insertion_order xs = xs"

lemma good_insertion_order: "good_order insertion_order"
  by (simp add: good_order_def insertion_order_def)

interpretation memory_inject: observing_hook "memory_inject_hook m insertion_order inject_layer capture_layer alpha max_memories"
  for m inject_layer capture_layer alpha max_memories
  by (rule memory_inject_observes [OF good_insertion_order])

text \<open>The deltas of the hooks that target a layer are added up in the order of registration; one of a different width is skipped.\<close>

lemma residual_delta_none:
  "(\<And>h. h \<in> set hs \<Longrightarrow> l \<notin> set (hk_target_layers h) \<or> hk_residual_delta h now l x ctx st = None) \<Longrightarrow>
   residual_delta ops hs now l x ctx st acc = acc"
  by (induction hs) auto

section \<open>Bounds\<close>

lemma f32_clamp_range: "x \<noteq> NaN \<Longrightarrow> \<exists>q. f32_clamp (Fin 0) (Fin 1) x = Fin q \<and> 0 \<le> q \<and> q \<le> 1"
  by (cases x) (auto simp: f32_clamp_def Let_def)

lemma map_to_loops_range: "1 \<le> map_to_loops d \<and> map_to_loops d \<le> 16"
  by (simp add: map_to_loops_def)

lemma map_to_loops_mono: "d \<le> d' \<Longrightarrow> map_to_loops d \<le> map_to_loops d'"
  by (auto simp: map_to_loops_def)

lemma difficulty_range: "difficulty m h \<le> 4"
  by (simp add: difficulty_def Let_def)

lemma length_importance: "length (importance_score m h seq_len) = (if seq_len = 0 \<or> h = [] then 0 else seq_len)"
  by (auto simp: importance_score_def boost_def Let_def)

interpretation default_hooks: observing_registry "[memory_inject_hook m insertion_order inject_layer capture_layer alpha max_memories]"
  for m inject_layer capture_layer alpha max_memories
  by (rule observing_registry.intro) (simp add: memory_inject.observing_hook_axioms)

end
