(* ===== verification/DecodeControl.thy ===== *)
theory DecodeControl
  imports MemoryStore "HOL-Library.Sublist"
begin

text \<open>
  The CPU sampler (\<^verbatim>\<open>src/engine/sampler.rs\<close>) and the per-request decode control
  (\<^verbatim>\<open>src/engine/decode_ctrl.rs\<close>): penalties, logit bias, seeded draws and stop strings.

  The draw \<^verbatim>\<open>random_range(0.0..1.0)\<close> is an argument of the sampler; a seeded generator is a
  record of the functions called on the \<^verbatim>\<open>rand\<close> package.  The counts of a control are a hash
  map: the order it is iterated in is an argument.  NaNs are taken to be positive in
  \<^verbatim>\<open>total_cmp\<close>.  Strings are lists of bytes.
\<close>

section \<open>The sampler\<close>

record sampler_config =
  sc_temperature :: f32
  sc_top_k :: nat
  sc_top_p :: f32
  sc_min_p :: f32

definition default_sampler :: sampler_config where
  "default_sampler = \<lparr>sc_temperature = Fin 1, sc_top_k = 50, sc_top_p = Fin (9 / 10), sc_min_p = Fin 0\<rparr>"

definition u32_of :: "nat \<Rightarrow> token" where
  "u32_of i = i mod 2 ^ 32"

text \<open>\<^verbatim>\<open>max_by\<close> keeps the later element unless the earlier one is greater.\<close>

fun max_by_index :: "f32 list \<Rightarrow> nat \<Rightarrow> nat \<times> f32 \<Rightarrow> nat \<times> f32" where
  "max_by_index [] i best = best"
| "max_by_index (l # ls) i best = max_by_index ls (i + 1) (if f32_lt l (snd best) then best else (i, l))"

definition greedy_index :: "f32 list \<Rightarrow> nat" where
  "greedy_index logits = (case logits of [] \<Rightarrow> 0 | l # ls \<Rightarrow> fst (max_by_index ls 1 (0, l)))"

definition scale_temperature :: "f32_math \<Rightarrow> f32 \<Rightarrow> f32 list \<Rightarrow> f32 list" where
  "scale_temperature m temp logits = (if temp \<noteq> Fin 1 then map (\<lambda>l. f_div m l temp) logits else logits)"

definition total_lt :: "f32 \<Rightarrow> f32 \<Rightarrow> bool" where
  "total_lt x y = (f32_lt x y \<or> (x \<noteq> NaN \<and> y = NaN))"

fun insert_total :: "nat \<times> f32 \<Rightarrow> (nat \<times> f32) list \<Rightarrow> (nat \<times> f32) list" where
  "insert_total x [] = [x]"
| "insert_total x (y # ys) = (if total_lt (snd x) (snd y) then y # insert_total x ys else x # y # ys)"

definition sort_total :: "(nat \<times> f32) list \<Rightarrow> (nat \<times> f32) list" where
  "sort_total xs = foldr insert_total xs []"

definition indexed :: "f32 list \<Rightarrow> (nat \<times> f32) list" where
  "indexed xs = zip [0 ..< length xs] xs"

definition filter_top_k :: "nat \<Rightarrow> f32 list \<Rightarrow> f32 list" where
  "filter_top_k k logits =
    (if 0 < k \<and> k < length logits then
       (let threshold = snd (sort_total (indexed logits) ! (k - 1))
        in map (\<lambda>l. if f32_lt l threshold then NegInf else l) logits)
     else logits)"

definition f32_max :: "f32 \<Rightarrow> f32 \<Rightarrow> f32" where
  "f32_max x y = (if x = NaN then y else if y = NaN then x else if f32_lt x y then y else x)"

definition softmax :: "f32_math \<Rightarrow> f32 list \<Rightarrow> f32 list" where
  "softmax m logits =
    (let mx = foldl f32_max NegInf logits;
         s = foldl (f_add m) (Fin 0) (map (\<lambda>l. f_exp m (f_sub m l mx)) logits)
     in map (\<lambda>l. f_div m (f_exp m (f_sub m l mx)) s) logits)"

definition filter_min_p :: "f32_math \<Rightarrow> f32 \<Rightarrow> f32 list \<Rightarrow> f32 list" where
  "filter_min_p m min_p probs =
    (if f32_lt (Fin 0) min_p then
       (let cutoff = f_mul m min_p (foldl f32_max (Fin 0) probs);
            kept = foldl (\<lambda>acc p. if f32_lt p cutoff then acc else f_add m acc p) (Fin 0) probs;
            probs1 = map (\<lambda>p. if f32_lt p cutoff then Fin 0 else p) probs
        in if f32_lt (Fin 0) kept then map (\<lambda>p. f_div m p kept) probs1 else probs1)
     else probs)"

fun nucleus_fill :: "f32_math \<Rightarrow> f32 \<Rightarrow> (nat \<times> f32) list \<Rightarrow> f32 \<Rightarrow> f32 list \<Rightarrow> f32 list" where
  "nucleus_fill m top_p [] cum filtered = filtered"
| "nucleus_fill m top_p ((i, p) # ps) cum filtered =
    (if f32_le top_p cum then filtered else nucleus_fill m top_p ps (f_add m cum p) (filtered[i := p]))"

definition filter_top_p :: "f32_math \<Rightarrow> f32 \<Rightarrow> f32 list \<Rightarrow> f32 list" where
  "filter_top_p m top_p probs =
    (if f32_lt top_p (Fin 1) then
       (let filtered = nucleus_fill m top_p (sort_total (indexed probs)) (Fin 0) (replicate (length probs) (Fin 0));
            s = foldl (f_add m) (Fin 0) filtered
        in if f32_lt (Fin 0) s then map (\<lambda>p. f_div m p s) filtered else probs)
     else probs)"

text \<open>The draw: the first index at which the running sum reaches \<open>r\<close>.\<close>

fun draw_from :: "f32_math \<Rightarrow> f32 \<Rightarrow> f32 list \<Rightarrow> nat \<Rightarrow> f32 \<Rightarrow> nat option" where
  "draw_from m r [] i cum = None"
| "draw_from m r (p # ps) i cum =
    (let cum' = f_add m cum p in if f32_le r cum' then Some i else draw_from m r ps (i + 1) cum')"

definition final_probs :: "f32_math \<Rightarrow> sampler_config \<Rightarrow> f32 list \<Rightarrow> f32 list" where
  "final_probs m cfg logits =
    filter_top_p m (sc_top_p cfg) (filter_min_p m (sc_min_p cfg)
      (softmax m (filter_top_k (sc_top_k cfg) (scale_temperature m (sc_temperature cfg) logits))))"

text \<open>\<open>None\<close> is the underflow of \<^verbatim>\<open>probs.len() - 1\<close> on an empty vector.\<close>

definition sample_with_rng :: "f32_math \<Rightarrow> f32 list \<Rightarrow> sampler_config \<Rightarrow> f32 \<Rightarrow> token option" where
  "sample_with_rng m logits cfg r =
    (if f32_le (sc_temperature cfg) (Fin 0) then Some (u32_of (greedy_index logits))
     else
       (let probs = final_probs m cfg logits in
        case draw_from m r probs 0 (Fin 0) of Some i \<Rightarrow> Some (u32_of i)
        | None \<Rightarrow> if probs = [] then None else Some (u32_of (length probs - 1))))"

section \<open>The decode control\<close>

record penalty_config =
  pc_repeat :: f32
  pc_presence :: f32
  pc_frequency :: f32

definition default_penalties :: penalty_config where
  "default_penalties = \<lparr>pc_repeat = Fin 1, pc_presence = Fin 0, pc_frequency = Fin 0\<rparr>"

definition penalties_active :: "penalty_config \<Rightarrow> bool" where
  "penalties_active p = (pc_repeat p \<noteq> Fin 1 \<or> pc_presence p \<noteq> Fin 0 \<or> pc_frequency p \<noteq> Fin 0)"

record 'r decode_control =
  dc_penalties :: penalty_config
  dc_bias :: "(token \<times> f32) list"
  dc_counts :: "(token \<times> nat) list"
  dc_rng :: "'r option"
  dc_stops :: "string list"
  dc_window :: nat

record 'r rng_ops =
  rg_seed :: "nat \<Rightarrow> 'r"
  rg_unit :: "'r \<Rightarrow> f32 \<times> 'r"

definition longest :: "string list \<Rightarrow> nat" where
  "longest stops = foldr (\<lambda>s n. max (length s) n) stops 0"

definition new_control :: "'r rng_ops \<Rightarrow> penalty_config \<Rightarrow> (token \<times> f32) list \<Rightarrow> nat option \<Rightarrow> string list \<Rightarrow> 'r decode_control" where
  "new_control rg pen bias seed stops =
    \<lparr>dc_penalties = pen, dc_bias = bias, dc_counts = [], dc_rng = map_option (rg_seed rg) seed, dc_stops = stops,
     dc_window = 8 + longest stops\<rparr>"

definition passthrough :: "'r rng_ops \<Rightarrow> 'r decode_control" where
  "passthrough rg = new_control rg default_penalties [] None []"

definition bump :: "token \<Rightarrow> (token \<times> nat) list \<Rightarrow> (token \<times> nat) list" where
  "bump t counts = al_put t ((case map_of counts t of Some n \<Rightarrow> n | None \<Rightarrow> 0) + 1) counts"

definition observe_prompt_tail :: "token list \<Rightarrow> nat \<Rightarrow> 'r decode_control \<Rightarrow> 'r decode_control" where
  "observe_prompt_tail prompt last_n c =
    (if \<not> penalties_active (dc_penalties c) then c
     else c\<lparr>dc_counts := fold bump (take last_n (rev prompt)) (dc_counts c)\<rparr>)"

definition modifies_logits :: "'r decode_control \<Rightarrow> bool" where
  "modifies_logits c = (penalties_active (dc_penalties c) \<or> dc_bias c \<noteq> [])"

definition add_bias :: "f32_math \<Rightarrow> token \<times> f32 \<Rightarrow> f32 list \<Rightarrow> f32 list" where
  "add_bias m tb logits =
    (if fst tb < length logits then logits[fst tb := f_add m (logits ! fst tb) (snd tb)] else logits)"

definition penalise :: "f32_math \<Rightarrow> penalty_config \<Rightarrow> nat \<Rightarrow> f32 \<Rightarrow> f32" where
  "penalise m p cnt l =
    (let l1 = (if pc_repeat p \<noteq> Fin 1
               then (if f32_lt (Fin 0) l then f_div m l (pc_repeat p) else f_mul m l (pc_repeat p)) else l)
     in f_sub m l1 (f_add m (f_mul m (pc_frequency p) (f_of_nat m cnt)) (pc_presence p)))"

definition penalise_token :: "f32_math \<Rightarrow> penalty_config \<Rightarrow> token \<times> nat \<Rightarrow> f32 list \<Rightarrow> f32 list" where
  "penalise_token m p tc logits =
    (if fst tc < length logits then logits[fst tc := penalise m p (snd tc) (logits ! fst tc)] else logits)"

type_synonym count_order = "(token \<times> nat) list \<Rightarrow> (token \<times> nat) list"

definition adjust_logits :: "f32_math \<Rightarrow> count_order \<Rightarrow> 'r decode_control \<Rightarrow> f32 list \<Rightarrow> f32 list" where
  "adjust_logits m order c logits =
    (let biased = fold (add_bias m) (dc_bias c) logits in
     if penalties_active (dc_penalties c) then fold (penalise_token m (dc_penalties c)) (order (dc_counts c)) biased else biased)"

text \<open>\<open>thread_r\<close> is the draw of the thread generator, used when the request has no seed.\<close>

definition sample_token ::
  "f32_math \<Rightarrow> 'r rng_ops \<Rightarrow> count_order \<Rightarrow> f32 \<Rightarrow> f32 list \<Rightarrow> sampler_config \<Rightarrow> 'r decode_control \<Rightarrow> token option \<times> 'r decode_control" where
  "sample_token m rg order thread_r logits cfg c =
    (let ls = (if modifies_logits c then adjust_logits m order c logits else logits) in
     case dc_rng c of
       Some s \<Rightarrow>
         if f32_le (sc_temperature cfg) (Fin 0) then (sample_with_rng m ls cfg (Fin 0), c)
         else (let (r, s') = rg_unit rg s in (sample_with_rng m ls cfg r, c\<lparr>dc_rng := Some s'\<rparr>))
     | None \<Rightarrow> (sample_with_rng m ls cfg thread_r, c))"

definition observe :: "token \<Rightarrow> 'r decode_control \<Rightarrow> 'r decode_control" where
  "observe t c = (if penalties_active (dc_penalties c) then c\<lparr>dc_counts := bump t (dc_counts c)\<rparr> else c)"

definition has_stops :: "'r decode_control \<Rightarrow> bool" where
  "has_stops c = (dc_stops c \<noteq> [])"

definition stop_hit_in :: "string \<Rightarrow> 'r decode_control \<Rightarrow> bool" where
  "stop_hit_in window c = (\<exists>s \<in> set (dc_stops c). sublist s window)"

text \<open>\<^verbatim>\<open>str::find\<close>: the index of the first occurrence.\<close>

fun find_sub :: "string \<Rightarrow> string \<Rightarrow> nat option" where
  "find_sub s [] = (if s = [] then Some 0 else None)"
| "find_sub s (c # cs) = (if prefix s (c # cs) then Some 0 else map_option Suc (find_sub s cs))"

definition earliest :: "string list \<Rightarrow> string \<Rightarrow> nat option" where
  "earliest stops text = fold (\<lambda>s cut. case find_sub s text of None \<Rightarrow> cut
     | Some i \<Rightarrow> Some (case cut of None \<Rightarrow> i | Some c \<Rightarrow> min c i)) stops None"

definition truncate_at_stop :: "string \<Rightarrow> 'r decode_control \<Rightarrow> string \<times> bool" where
  "truncate_at_stop text c = (case earliest (dc_stops c) text of None \<Rightarrow> (text, False) | Some i \<Rightarrow> (take i text, True))"

section \<open>The index that is drawn\<close>

lemma max_by_index_correct:
  "NaN \<notin> set ls \<Longrightarrow> snd best \<noteq> NaN \<Longrightarrow> max_by_index ls i best = (j, v) \<Longrightarrow>
   v \<noteq> NaN \<and> \<not> f32_lt v (snd best) \<and> (\<forall>l \<in> set ls. \<not> f32_lt v l) \<and>
   ((j, v) = best \<or> (\<exists>k < length ls. j = i + k \<and> v = ls ! k))"
proof (induction ls arbitrary: i best)
  case (Cons l ls)
  let ?b = "if f32_lt l (snd best) then best else (i, l)"
  have b: "snd ?b \<noteq> NaN" using Cons.prems(1,2) by auto
  have IH: "v \<noteq> NaN" "\<not> f32_lt v (snd ?b)" "\<forall>l \<in> set ls. \<not> f32_lt v l" "(j, v) = ?b \<or> (\<exists>k < length ls. j = i + 1 + k \<and> v = ls ! k)"
    using Cons.IH [of ?b "i + 1"] Cons.prems b by auto
  have "\<not> f32_lt v l" "\<not> f32_lt v (snd best)"
    using IH(2) Cons.prems(1,2) by (auto split: if_splits dest: f32_lt_trans f32_not_lt_trans [of v l "snd best"])
  moreover have "(j, v) = best \<or> (\<exists>k < Suc (length ls). j = i + k \<and> v = (l # ls) ! k)"
    using IH(4) by (fastforce split: if_splits)
  ultimately show ?case using IH by auto
qed simp

lemma greedy_index_correct:
  assumes "logits \<noteq> []"
  shows "greedy_index logits < length logits"
    and "NaN \<notin> set logits \<Longrightarrow> \<forall>l \<in> set logits. \<not> f32_lt (logits ! greedy_index logits) l"
proof -
  obtain l ls where logits: "logits = l # ls" using assms by (cases logits) auto
  have bound: "fst (max_by_index ls i best) = fst best \<or> (i \<le> fst (max_by_index ls i best) \<and> fst (max_by_index ls i best) < i + length ls)" for i best
  proof (induction ls arbitrary: i best)
    case (Cons a ls)
    then show ?case using Cons.IH [of "i + 1" "if f32_lt a (snd best) then best else (i, a)"] by (cases "f32_lt a (snd best)") auto
  qed simp
  show "greedy_index logits < length logits" using bound [of 1 "(0, l)"] by (auto simp: greedy_index_def logits)
  assume nan: "NaN \<notin> set logits"
  obtain j v where m: "max_by_index ls 1 (0, l) = (j, v)" by (cases "max_by_index ls 1 (0, l)") auto
  note M = max_by_index_correct [OF _ _ m]
  have "v = logits ! j" using M nan by (auto simp: logits)
  then show "\<forall>l \<in> set logits. \<not> f32_lt (logits ! greedy_index logits) l"
    using M nan m by (auto simp: greedy_index_def logits)
qed

lemma set_insert_total [simp]: "set (insert_total x xs) = insert x (set xs)"
  by (induction xs) auto

lemma set_sort_total [simp]: "set (sort_total xs) = set xs"
  by (induction xs) (simp_all add: sort_total_def)

lemma length_filters [simp]:
  "length (scale_temperature m t xs) = length xs" "length (filter_top_k k xs) = length xs" "length (softmax m xs) = length xs"
  "length (filter_min_p m q xs) = length xs"
  by (simp_all add: scale_temperature_def filter_top_k_def softmax_def filter_min_p_def Let_def)

lemma length_nucleus [simp]: "length (nucleus_fill m q ps cum filtered) = length filtered"
  by (induction m q ps cum filtered rule: nucleus_fill.induct) simp_all

lemma length_top_p [simp]: "length (filter_top_p m q xs) = length xs"
  by (simp add: filter_top_p_def Let_def)

lemma length_final [simp]: "length (final_probs m cfg logits) = length logits"
  by (simp add: final_probs_def)

lemma draw_from_range: "draw_from m r ps i cum = Some j \<Longrightarrow> i \<le> j \<and> j < i + length ps"
  by (induction ps arbitrary: i cum) (fastforce simp: Let_def split: if_splits)+

text \<open>The documented arithmetic of single precision zeros and infinities, as far as the argument below needs it.\<close>

definition ieee_zero :: "f32_math \<Rightarrow> bool" where
  "ieee_zero m = ((\<forall>x. f_add m x (Fin 0) = x) \<and> (\<forall>x > 0. f_div m NegInf (Fin x) = NegInf) \<and>
    (\<forall>x. f_sub m NegInf (Fin x) = NegInf) \<and> f_exp m NegInf = Fin 0 \<and> (\<forall>s. f32_lt (Fin 0) s \<longrightarrow> f_div m (Fin 0) s = Fin 0))"

text \<open>The softmax is defined: the largest logit is finite and the sum of the exponentials is positive.\<close>

definition softmax_defined :: "f32_math \<Rightarrow> f32 list \<Rightarrow> bool" where
  "softmax_defined m logits = (\<exists>mx. foldl f32_max NegInf logits = Fin mx \<and>
    f32_lt (Fin 0) (foldl (f_add m) (Fin 0) (map (\<lambda>l. f_exp m (f_sub m l (Fin mx))) logits)))"

definition scaled_logits :: "f32_math \<Rightarrow> sampler_config \<Rightarrow> f32 list \<Rightarrow> f32 list" where
  "scaled_logits m cfg logits = filter_top_k (sc_top_k cfg) (scale_temperature m (sc_temperature cfg) logits)"

lemma softmax_masked:
  "ieee_zero m \<Longrightarrow> softmax_defined m ls \<Longrightarrow> i < length ls \<Longrightarrow> ls ! i = NegInf \<Longrightarrow> softmax m ls ! i = Fin 0"
  by (auto simp: softmax_defined_def softmax_def ieee_zero_def Let_def)

lemma min_p_masked: "ieee_zero m \<Longrightarrow> i < length ps \<Longrightarrow> ps ! i = Fin 0 \<Longrightarrow> filter_min_p m q ps ! i = Fin 0"
  by (auto simp: filter_min_p_def ieee_zero_def Let_def)

lemma nucleus_values:
  "i < length filtered \<Longrightarrow> nucleus_fill m q ps cum filtered ! i = filtered ! i \<or> (i, nucleus_fill m q ps cum filtered ! i) \<in> set ps"
proof (induction m q ps cum filtered rule: nucleus_fill.induct)
  case (2 m q i' p ps cum filtered)
  then show ?case by (cases "i = i'") (auto split: if_splits)
qed simp

lemma top_p_masked: "ieee_zero m \<Longrightarrow> i < length ps \<Longrightarrow> ps ! i = Fin 0 \<Longrightarrow> filter_top_p m q ps ! i = Fin 0"
proof -
  assume a: "ieee_zero m" "i < length ps" "ps ! i = Fin 0"
  have "nucleus_fill m q (sort_total (indexed ps)) (Fin 0) (replicate (length ps) (Fin 0)) ! i = Fin 0"
    using nucleus_values [of i "replicate (length ps) (Fin 0)" m q "sort_total (indexed ps)" "Fin 0"] a
    by (auto simp: indexed_def set_zip)
  then show ?thesis using a by (auto simp: filter_top_p_def ieee_zero_def Let_def)
qed

lemma scaled_masked:
  assumes "ieee_zero m" "sc_temperature cfg = Fin q" "0 < q" "i < length logits" "logits ! i = NegInf"
  shows "scaled_logits m cfg logits ! i = NegInf"
  using assms by (auto simp: scaled_logits_def scale_temperature_def filter_top_k_def ieee_zero_def Let_def)

lemma final_masked:
  assumes "ieee_zero m" "sc_temperature cfg = Fin q" "0 < q" "softmax_defined m (scaled_logits m cfg logits)"
    and "i < length logits" "logits ! i = NegInf"
  shows "final_probs m cfg logits ! i = Fin 0"
proof -
  let ?s = "scaled_logits m cfg logits"
  have l: "length ?s = length logits" by (simp add: scaled_logits_def)
  have "softmax m ?s ! i = Fin 0" using softmax_masked [OF assms(1,4)] scaled_masked [OF assms(1,2,3,5,6)] assms(5) l by simp
  then show ?thesis
    unfolding final_probs_def scaled_logits_def [symmetric]
    using assms(1,5) l by (intro top_p_masked min_p_masked) simp_all
qed

lemma draw_from_positive:
  "\<forall>x. f_add m x (Fin 0) = x \<Longrightarrow> \<not> f32_le r cum \<Longrightarrow> draw_from m r ps i cum = Some j \<Longrightarrow> ps ! (j - i) \<noteq> Fin 0"
proof (induction ps arbitrary: i cum)
  case (Cons p ps)
  show ?case
  proof (cases "f32_le r (f_add m cum p)")
    case True
    then have "j = i" "p \<noteq> Fin 0" using Cons.prems by (auto simp: Let_def)
    then show ?thesis by simp
  next
    case False
    then have d: "draw_from m r ps (i + 1) (f_add m cum p) = Some j" using Cons.prems by (simp add: Let_def)
    have "j - i = Suc (j - (i + 1))" using draw_from_range [OF d] by arith
    then show ?thesis using Cons.IH [OF Cons.prems(1) False d] by simp
  qed
qed simp

text \<open>
  C38: The sampler returns an index of the logits.  At temperature 0 no other logit is larger.  At a positive temperature, a draw above
  0 that the running sum reaches never selects a masked token; only when rounding leaves the sum below the draw is the last index
  returned whatever its logit.
\<close>

theorem sampler_in_range:
  assumes "logits \<noteq> []" "length logits \<le> 2 ^ 32" "ieee_zero m" "f32_lt (Fin 0) r"
  shows "\<exists>t. sample_with_rng m logits cfg r = Some t \<and> t < length logits \<and>
    (f32_le (sc_temperature cfg) (Fin 0) \<and> NaN \<notin> set logits \<longrightarrow> (\<forall>l \<in> set logits. \<not> f32_lt (logits ! t) l)) \<and>
    ((\<exists>q > 0. sc_temperature cfg = Fin q) \<and> softmax_defined m (scaled_logits m cfg logits) \<longrightarrow>
      logits ! t \<noteq> NegInf \<or> (t = length logits - 1 \<and> draw_from m r (final_probs m cfg logits) 0 (Fin 0) = None))"
proof (cases "f32_le (sc_temperature cfg) (Fin 0)")
  case True
  have g: "greedy_index logits < length logits" by (rule greedy_index_correct(1) [OF assms(1)])
  then have "u32_of (greedy_index logits) = greedy_index logits" using assms(2) by (simp add: u32_of_def)
  moreover have "\<not> (\<exists>q > 0. sc_temperature cfg = Fin q)" using True by (auto simp: f32_le_def)
  ultimately show ?thesis
    using True g greedy_index_correct(2) [OF assms(1)]
    by (intro exI [of _ "greedy_index logits"]) (simp add: sample_with_rng_def, blast)
next
  case False
  let ?ps = "final_probs m cfg logits"
  have l: "length ?ps = length logits" "?ps \<noteq> []" using length_final [of m cfg logits] assms(1) by (simp, metis length_0_conv)
  have id: "u32_of i = i" if "i < length logits" for i using that assms(2) by (simp add: u32_of_def)
  show ?thesis
  proof (cases "draw_from m r ?ps 0 (Fin 0)")
    case None
    then have "sample_with_rng m logits cfg r = Some (length logits - 1)"
      using False l id [of "length logits - 1"] assms(1) by (simp add: sample_with_rng_def Let_def)
    then show ?thesis using None False assms(1) by simp
  next
    case (Some i)
    have i: "i < length logits" using draw_from_range [OF Some] l(1) by simp
    then have s: "sample_with_rng m logits cfg r = Some i" using False Some id by (simp add: sample_with_rng_def Let_def)
    have "\<not> f32_le r (Fin 0)" using assms(4) by (cases r) (auto simp: f32_le_def)
    then have "?ps ! i \<noteq> Fin 0" using draw_from_positive [OF _ _ Some] assms(3) by (simp add: ieee_zero_def)
    then have "logits ! i \<noteq> NegInf" if "0 < q" "sc_temperature cfg = Fin q" "softmax_defined m (scaled_logits m cfg logits)" for q
      using final_masked [OF assms(3) that(2,1,3) i] by auto
    then show ?thesis using s i False by auto
  qed
qed

text \<open>A draw of exactly 0 selects the first token, masked or not.\<close>

theorem sampler_zero_draw:
  assumes "ieee_zero m" "sc_temperature cfg = Fin q" "0 < q" "softmax_defined m (scaled_logits m cfg logits)"
    and "logits \<noteq> []" "logits ! 0 = NegInf"
  shows "sample_with_rng m logits cfg (Fin 0) = Some 0"
proof -
  have "final_probs m cfg logits ! 0 = Fin 0" using final_masked [OF assms(1-4) _ assms(6)] assms(5) by simp
  moreover obtain p ps where "final_probs m cfg logits = p # ps"
    using length_final [of m cfg logits] assms(5) by (cases "final_probs m cfg logits") auto
  ultimately have "draw_from m (Fin 0) (final_probs m cfg logits) 0 (Fin 0) = Some 0"
    using assms(1) by (simp add: ieee_zero_def f32_le_def)
  then show ?thesis using assms(2,3) by (simp add: sample_with_rng_def Let_def f32_le_def u32_of_def)
qed

definition demo_math :: f32_math where
  "demo_math = \<lparr>
     f_sub = (\<lambda>x y. case (x, y) of (Fin a, Fin b) \<Rightarrow> Fin (a - b) | (x, _) \<Rightarrow> x),
     f_div = (\<lambda>x y. case (x, y) of (Fin a, Fin b) \<Rightarrow> Fin (a / b) | (Fin a, _) \<Rightarrow> Fin 0 | (x, _) \<Rightarrow> x),
     f_add = (\<lambda>x y. case (x, y) of (Fin a, Fin b) \<Rightarrow> Fin (a + b) | (Fin a, y) \<Rightarrow> y | (x, _) \<Rightarrow> x),
     f_mul = (\<lambda>x y. case (x, y) of (Fin a, Fin b) \<Rightarrow> Fin (a * b) | (x, _) \<Rightarrow> x),
     f_exp = (\<lambda>x. case x of NegInf \<Rightarrow> Fin 0 | _ \<Rightarrow> Fin 1),
     f_sqrt = id, f_of_nat = (\<lambda>n. Fin (of_nat n)), f_lit = Fin, f_to_u64 = (\<lambda>_. 0)\<rparr>"

lemma demo_math_ieee: "ieee_zero demo_math"
  by (auto simp: ieee_zero_def demo_math_def split: f32.split)

definition demo_cfg1 :: sampler_config where
  "demo_cfg1 = \<lparr>sc_temperature = Fin 1, sc_top_k = 0, sc_top_p = Fin 1, sc_min_p = Fin 0\<rparr>"

lemma demo_softmax: "softmax_defined demo_math (scaled_logits demo_math demo_cfg1 [NegInf, Fin 0])"
  by (simp add: softmax_defined_def scaled_logits_def scale_temperature_def filter_top_k_def demo_cfg1_def f32_max_def demo_math_def)

lemma demo_probs: "draw_from demo_math (Fin (1 / 2)) (final_probs demo_math demo_cfg1 [NegInf, Fin 0]) 0 (Fin 0) = Some 1"
  by (simp add: final_probs_def scale_temperature_def filter_top_k_def softmax_def filter_min_p_def filter_top_p_def demo_cfg1_def
      f32_max_def demo_math_def f32_le_def Let_def)

theorem sampler_in_range_witness:
  "sample_with_rng demo_math [NegInf, Fin 0] demo_cfg1 (Fin (1 / 2)) = Some 1"
proof -
  obtain t where t: "sample_with_rng demo_math [NegInf, Fin 0] demo_cfg1 (Fin (1 / 2)) = Some t" "t < 2" "[NegInf, Fin 0] ! t \<noteq> NegInf"
    using sampler_in_range [of "[NegInf, Fin 0]" demo_math "Fin (1 / 2)" demo_cfg1] demo_math_ieee demo_softmax demo_probs
    by (auto simp: demo_cfg1_def)
  then show ?thesis by (cases t) auto
qed

section \<open>Adjusting the logits\<close>

definition good_count_order :: "count_order \<Rightarrow> bool" where
  "good_count_order order = (\<forall>xs. mset (order xs) = mset xs)"

definition control_ok :: "'r decode_control \<Rightarrow> bool" where
  "control_ok c = al_ok (dc_counts c)"

lemma control_ok_steps:
  "control_ok (new_control rg pen bias seed stops)"
  "control_ok c \<Longrightarrow> control_ok (observe t c)"
  "control_ok c \<Longrightarrow> control_ok (observe_prompt_tail prompt n c)"
  "control_ok c \<Longrightarrow> control_ok (snd (sample_token m rg order r logits cfg c))"
proof -
  have bump: "al_ok (fold bump ts counts)" if "al_ok counts" for ts and counts :: "(token \<times> nat) list"
    using that by (induction ts arbitrary: counts) (simp_all add: bump_def)
  show "control_ok (new_control rg pen bias seed stops)" by (simp add: control_ok_def new_control_def)
  show "control_ok c \<Longrightarrow> control_ok (observe t c)" by (simp add: control_ok_def observe_def bump_def)
  show "control_ok c \<Longrightarrow> control_ok (observe_prompt_tail prompt n c)" using bump by (simp add: control_ok_def observe_prompt_tail_def)
  show "control_ok c \<Longrightarrow> control_ok (snd (sample_token m rg order r logits cfg c))"
    by (auto simp: control_ok_def sample_token_def Let_def split: option.split prod.split)
qed

lemma length_add_bias [simp]: "length (fold (add_bias m) bs logits) = length logits"
  by (induction bs arbitrary: logits) (simp_all add: add_bias_def)

lemma nth_add_bias: "t < length logits \<Longrightarrow>
  fold (add_bias m) bs logits ! t = foldl (f_add m) (logits ! t) (map snd (filter (\<lambda>tb. fst tb = t) bs))"
  by (induction bs arbitrary: logits) (auto simp: add_bias_def nth_list_update)

lemma penalise_other: "t \<notin> fst ` set counts \<Longrightarrow> t < length logits \<Longrightarrow> fold (penalise_token m p) counts logits ! t = logits ! t"
  by (induction counts arbitrary: logits) (auto simp: penalise_token_def nth_list_update)

lemma length_penalise [simp]: "length (fold (penalise_token m p) counts logits) = length logits"
  by (induction counts arbitrary: logits) (simp_all add: penalise_token_def)

lemma nth_penalise: "al_ok counts \<Longrightarrow> t < length logits \<Longrightarrow>
  fold (penalise_token m p) counts logits ! t = (case map_of counts t of None \<Rightarrow> logits ! t | Some n \<Rightarrow> penalise m p n (logits ! t))"
proof (induction counts arbitrary: logits)
  case (Cons tc counts)
  obtain u n where tc: "tc = (u, n)" by (cases tc)
  show ?case
  proof (cases "u = t")
    case True
    then have "t \<notin> fst ` set counts" using Cons.prems(1) tc by auto
    moreover have "penalise_token m p tc logits = logits[t := penalise m p n (logits ! t)]"
      using True tc Cons.prems(2) by (simp add: penalise_token_def)
    ultimately show ?thesis using True tc Cons.prems(2) penalise_other [of t counts] by simp
  next
    case False
    have "t < length (penalise_token m p tc logits)" "penalise_token m p tc logits ! t = logits ! t"
      using False tc Cons.prems(2) by (auto simp: penalise_token_def)
    then show ?thesis using Cons.IH Cons.prems(1) False tc by (simp split: option.split)
  qed
qed simp

lemma count_order_map: "good_count_order order \<Longrightarrow> al_ok counts \<Longrightarrow> al_ok (order counts) \<and> map_of (order counts) = map_of counts"
proof -
  assume o: "good_count_order order" "al_ok counts"
  then have m: "mset (order counts) = mset counts" by (simp add: good_count_order_def)
  then have "mset (map fst (order counts)) = mset (map fst counts)" by (metis mset_map)
  then have d: "al_ok (order counts)" using o(2) by (metis mset_eq_imp_distinct_iff)
  have "set (order counts) = set counts" using m by (metis set_mset_mset)
  then show ?thesis using d o(2) map_of_inject_set [OF d o(2)] by simp
qed

text \<open>
  The adjusted logit of a token is its logit with its biases added in order and, when the token has been counted, the repetition
  penalty (towards minus infinity from either sign) and the frequency and presence penalties applied once; the order of the hash map
  does not matter and the logits of other tokens are unchanged.
\<close>

theorem adjust_logits_exact:
  assumes "control_ok c" "good_count_order order" "t < length logits"
  shows "adjust_logits m order c logits ! t =
    (let l = foldl (f_add m) (logits ! t) (map snd (filter (\<lambda>tb. fst tb = t) (dc_bias c))) in
     if penalties_active (dc_penalties c)
     then (case map_of (dc_counts c) t of None \<Rightarrow> l | Some n \<Rightarrow> penalise m (dc_penalties c) n l) else l) \<and>
    length (adjust_logits m order c logits) = length logits"
proof -
  have "al_ok (order (dc_counts c)) \<and> map_of (order (dc_counts c)) = map_of (dc_counts c)"
    using count_order_map assms(1,2) by (simp add: control_ok_def)
  then show ?thesis using assms(3) by (simp add: adjust_logits_def nth_penalise nth_add_bias Let_def split: option.split)
qed

theorem adjust_logits_exact_witness:
  "adjust_logits demo_math rev (observe 1 (new_control \<lparr>rg_seed = id, rg_unit = \<lambda>s. (Fin 0, s)\<rparr>
     \<lparr>pc_repeat = Fin 2, pc_presence = Fin 0, pc_frequency = Fin 0\<rparr> [(1, Fin 4)] None [])) [Fin 1, Fin 2] ! 1 = Fin 3"
proof -
  let ?c = "observe 1 (new_control \<lparr>rg_seed = id, rg_unit = \<lambda>s. (Fin 0, s)\<rparr>
     \<lparr>pc_repeat = Fin 2, pc_presence = Fin 0, pc_frequency = Fin 0\<rparr> [(1, Fin 4)] None [])"
  have "control_ok ?c" by (intro control_ok_steps)
  moreover have "good_count_order rev" by (simp add: good_count_order_def)
  ultimately show ?thesis
    using adjust_logits_exact [of ?c rev 1 "[Fin 1, Fin 2]" demo_math]
    by (simp add: observe_def new_control_def penalties_active_def bump_def penalise_def demo_math_def Let_def)
qed

section \<open>Stop strings\<close>

definition occurs_at :: "string \<Rightarrow> string \<Rightarrow> nat \<Rightarrow> bool" where
  "occurs_at s tx i = (i \<le> length tx \<and> take (length s) (drop i tx) = s)"

lemma prefix_take: "prefix s xs \<longleftrightarrow> take (length s) xs = s"
  by (metis append_eq_conv_conj append_take_drop_id prefix_def)

lemma find_sub_Some: "find_sub s tx = Some i \<Longrightarrow> occurs_at s tx i \<and> (\<forall>j < i. \<not> occurs_at s tx j)"
proof (induction tx arbitrary: i)
  case (Cons c cs)
  show ?case
  proof (cases "prefix s (c # cs)")
    case True
    then show ?thesis using Cons.prems by (simp add: occurs_at_def prefix_take)
  next
    case False
    then obtain k where k: "find_sub s cs = Some k" "i = Suc k" using Cons.prems by auto
    have "\<not> occurs_at s (c # cs) j" if "j < i" for j
      using that Cons.IH [OF k(1)] k(2) False by (cases j) (auto simp: occurs_at_def prefix_take)
    then show ?thesis using Cons.IH [OF k(1)] k(2) by (auto simp: occurs_at_def)
  qed
qed (auto simp: occurs_at_def split: if_splits)

lemma find_sub_None: "find_sub s tx = None \<Longrightarrow> \<not> occurs_at s tx j"
proof (induction tx arbitrary: j)
  case (Cons c cs)
  then show ?case by (cases j) (auto simp: occurs_at_def prefix_take split: if_splits)
qed (auto simp: occurs_at_def split: if_splits)

lemma earliest_step:
  "fold (\<lambda>s cut. case find_sub s tx of None \<Rightarrow> cut | Some i \<Rightarrow> Some (case cut of None \<Rightarrow> i | Some c \<Rightarrow> min c i)) stops best = res \<Longrightarrow>
   (case res of
      None \<Rightarrow> best = None \<and> (\<forall>s \<in> set stops. find_sub s tx = None)
    | Some i \<Rightarrow> (best = Some i \<or> (\<exists>s \<in> set stops. find_sub s tx = Some i)) \<and> (\<forall>c. best = Some c \<longrightarrow> i \<le> c) \<and>
        (\<forall>s \<in> set stops. \<forall>j. find_sub s tx = Some j \<longrightarrow> i \<le> j))"
proof (induction stops arbitrary: best)
  case (Cons s stops)
  show ?case
  proof (cases "find_sub s tx")
    case None
    then show ?thesis using Cons.IH [of best] Cons.prems by (auto split: option.splits)
  next
    case (Some i)
    then show ?thesis
      using Cons.IH [of "Some (case best of None \<Rightarrow> i | Some c \<Rightarrow> min c i)"] Cons.prems
      by (cases best) (auto split: option.splits simp: min_def split: if_splits)
  qed
qed (auto split: option.splits)

lemma earliest_correct:
  "earliest stops tx = None \<Longrightarrow> \<forall>s \<in> set stops. \<forall>j. \<not> occurs_at s tx j"
  "earliest stops tx = Some i \<Longrightarrow> (\<exists>s \<in> set stops. occurs_at s tx i) \<and> (\<forall>s \<in> set stops. \<forall>j < i. \<not> occurs_at s tx j)"
proof -
  assume "earliest stops tx = None"
  then have "\<forall>s \<in> set stops. find_sub s tx = None" using earliest_step [of tx stops None None] by (simp add: earliest_def)
  then show "\<forall>s \<in> set stops. \<forall>j. \<not> occurs_at s tx j" using find_sub_None by blast
next
  assume "earliest stops tx = Some i"
  then have E: "\<exists>s \<in> set stops. find_sub s tx = Some i" "\<forall>s \<in> set stops. \<forall>j. find_sub s tx = Some j \<longrightarrow> i \<le> j"
    using earliest_step [of tx stops None "Some i"] by (simp_all add: earliest_def)
  have "\<not> occurs_at s tx j" if "s \<in> set stops" "j < i" for s j
  proof (cases "find_sub s tx")
    case None
    then show ?thesis by (rule find_sub_None)
  next
    case (Some k)
    then have "i \<le> k" using E(2) that(1) by blast
    then show ?thesis using find_sub_Some [OF Some] that(2) by simp
  qed
  then show "(\<exists>s \<in> set stops. occurs_at s tx i) \<and> (\<forall>s \<in> set stops. \<forall>j < i. \<not> occurs_at s tx j)"
    using E(1) find_sub_Some by blast
qed

lemma sublist_occurs: "sublist s tx \<longleftrightarrow> (\<exists>j. occurs_at s tx j)"
proof
  assume "sublist s tx"
  then obtain ps ss where "tx = ps @ s @ ss" by (auto simp: sublist_def)
  then have "occurs_at s tx (length ps)" by (simp add: occurs_at_def)
  then show "\<exists>j. occurs_at s tx j" by blast
next
  assume "\<exists>j. occurs_at s tx j"
  then obtain j where "take (length s) (drop j tx) = s" by (auto simp: occurs_at_def)
  then have "prefix s (drop j tx)" by (simp add: prefix_take)
  then show "sublist s tx" by (metis append_take_drop_id prefix_def sublist_def)
qed

lemma longest_ge: "s \<in> set stops \<Longrightarrow> length s \<le> longest stops"
  by (induction stops) (auto simp: longest_def)

lemma length_pieces: "\<forall>p \<in> set ps. p \<noteq> [] \<Longrightarrow> length ps \<le> length (concat ps)"
proof (induction ps)
  case (Cons p ps)
  then show ?case by (cases p) auto
qed simp

lemma truncate_correct:
  assumes "c = new_control rg pen bias seed stops"
  shows "(let (kept, cut) = truncate_at_stop tx c in
      cut = stop_hit_in tx c \<and> (\<not> cut \<longrightarrow> kept = tx) \<and>
      (cut \<longrightarrow> (\<exists>s \<in> set stops. \<exists>rest. tx = kept @ s @ rest) \<and> ([] \<notin> set stops \<longrightarrow> \<not> stop_hit_in kept c) \<and> ([] \<in> set stops \<longrightarrow> kept = [])))"
proof -
  have stops: "dc_stops c = stops" "dc_window c = 8 + longest stops" by (simp_all add: assms new_control_def)
  have hit: "stop_hit_in x c \<longleftrightarrow> (\<exists>s \<in> set stops. \<exists>j. occurs_at s x j)" for x
    by (simp add: stop_hit_in_def stops sublist_occurs)
  show ?thesis
  proof (cases "earliest stops tx")
    case None
    then show ?thesis using earliest_correct(1) [OF None] by (simp add: truncate_at_stop_def stops hit)
  next
    case (Some i)
    note E = earliest_correct(2) [OF Some]
    then obtain s where s: "s \<in> set stops" "occurs_at s tx i" by blast
    have cutat: "tx = take i tx @ s @ drop (length s) (drop i tx)"
      using s(2) by (metis append_take_drop_id occurs_at_def)
    have none: "\<not> occurs_at u (take i tx) j" if "u \<in> set stops" "u \<noteq> []" for u j
    proof
      assume o: "occurs_at u (take i tx) j"
      then have t: "take (length u) (drop j (take i tx)) = u" by (simp add: occurs_at_def)
      have "length u \<le> length (drop j (take i tx))" using arg_cong [OF t, of length] by simp
      then have l: "length u \<le> min (length tx) i - j" by simp
      have "0 < length u" using that(2) by simp
      then have "0 < min (length tx) i - j" using l by (rule order.strict_trans2)
      then have j: "j < i" "j \<le> length tx" "length u \<le> i - j" using l by auto
      have "take (length u) (drop j tx) = u" using t j(3) by (simp add: drop_take min_def)
      then have "occurs_at u tx j" using j(2) by (simp add: occurs_at_def)
      moreover note j(1)
      ultimately show False using E that(1) by blast
    qed
    have zero: "i = 0" if "[] \<in> set stops"
    proof (rule ccontr)
      assume "i \<noteq> 0"
      moreover have "occurs_at [] tx 0" by (simp add: occurs_at_def)
      ultimately show False using E that by blast
    qed
    show ?thesis using Some s cutat none zero by (auto simp: truncate_at_stop_def stops hit)
  qed
qed

lemma window_correct:
  assumes "c = new_control rg pen bias seed stops" "\<forall>p \<in> set pieces. p \<noteq> []"
    and "stop_hit_in (concat (pieces @ [p])) c" "\<not> stop_hit_in (concat pieces) c"
  shows "stop_hit_in (concat (drop (length (pieces @ [p]) - dc_window c) (pieces @ [p]))) c"
proof -
  have stops: "dc_stops c = stops" "dc_window c = 8 + longest stops" by (simp_all add: assms(1) new_control_def)
  have hit: "stop_hit_in x c \<longleftrightarrow> (\<exists>s \<in> set stops. sublist s x)" for x by (simp add: stop_hit_in_def stops)
  let ?k = "length (pieces @ [p]) - dc_window c"
  obtain s ps ss where s: "s \<in> set stops" "concat pieces @ p = ps @ s @ ss" using assms(3) by (auto simp: hit sublist_def)
  have late: "length (concat pieces) < length ps + length s"
  proof (rule ccontr)
    assume "\<not> ?thesis"
    then have "take (length ps + length s) (concat pieces @ p) = take (length ps + length s) (concat pieces)" by simp
    then have "ps @ s = take (length ps + length s) (concat pieces)" unfolding s(2) by simp
    then have "sublist s (concat pieces)" by (metis append_take_drop_id sublist_appendI append.assoc)
    then show False using assms(4) s(1) hit by blast
  qed
  show "stop_hit_in (concat (drop ?k (pieces @ [p]))) c"
  proof (cases "length pieces < dc_window c")
    case True
    then show ?thesis using assms(3) by simp
  next
    case False
    let ?tail = "drop ?k pieces"
    have k: "?k \<le> length pieces" "length ?tail = dc_window c - 1" using False stops(2) by auto
    have "length ?tail \<le> length (concat ?tail)" using assms(2) by (intro length_pieces) (meson in_set_dropD)
    then have long: "length s \<le> length (concat ?tail)" using longest_ge [OF s(1)] k(2) stops(2) by simp
    have cc: "concat pieces = concat (take ?k pieces) @ concat ?tail" by (metis append_take_drop_id concat_append)
    have "length (concat (take ?k pieces)) \<le> length ps" using late long arg_cong [OF cc, of length] by simp
    then obtain ps' where "ps = concat (take ?k pieces) @ ps'"
      using s(2) unfolding cc by (metis append.assoc append_eq_append_conv_if append_take_drop_id)
    then have "concat ?tail @ p = ps' @ s @ ss" using s(2) unfolding cc by simp
    then show ?thesis using k(1) s(1) by (auto simp: hit sublist_def)
  qed
qed

text \<open>
  The text is cut exactly when a stop string occurs in it, at the start of the earliest occurrence, and no stop string occurs in
  what is kept (an empty stop string cuts everything).  And a stop string that the last token completes lies inside the window of tail
  tokens that is decoded again, as long as every token of the window adds at least one byte.
\<close>

theorem stop_strings:
  assumes "c = new_control rg pen bias seed stops"
  shows "(let (kept, cut) = truncate_at_stop tx c in
      cut = stop_hit_in tx c \<and> (\<not> cut \<longrightarrow> kept = tx) \<and>
      (cut \<longrightarrow> (\<exists>s \<in> set stops. \<exists>rest. tx = kept @ s @ rest) \<and> ([] \<notin> set stops \<longrightarrow> \<not> stop_hit_in kept c) \<and> ([] \<in> set stops \<longrightarrow> kept = []))) \<and>
    ((\<forall>p \<in> set pieces. p \<noteq> []) \<and> stop_hit_in (concat (pieces @ [p])) c \<and> \<not> stop_hit_in (concat pieces) c \<longrightarrow>
      stop_hit_in (concat (drop (length (pieces @ [p]) - dc_window c) (pieces @ [p]))) c)"
  using truncate_correct [OF assms] window_correct [OF assms] by blast

theorem stop_strings_witness:
  "stop_hit_in ''xEN'' (new_control \<lparr>rg_seed = id, rg_unit = \<lambda>s. (Fin 0, s)\<rparr> default_penalties [] None [''EN'']) \<and>
   truncate_at_stop ''xENy'' (new_control \<lparr>rg_seed = id, rg_unit = \<lambda>s. (Fin 0, s)\<rparr> default_penalties [] None [''EN'']) = (''x'', True)"
proof -
  let ?c = "new_control \<lparr>rg_seed = id, rg_unit = \<lambda>s. (Fin 0, s)\<rparr> default_penalties [] None [''EN'']"
  have hit: "stop_hit_in (concat ([''xE''] @ [''N''])) ?c" "\<not> stop_hit_in (concat [''xE'']) ?c" "\<not> stop_hit_in ''x'' ?c" "stop_hit_in ''xENy'' ?c"
    by (simp_all add: stop_hit_in_def new_control_def sublist_Cons_right)
  obtain kept was_cut where t: "truncate_at_stop ''xENy'' ?c = (kept, was_cut)" by (cases "truncate_at_stop ''xENy'' ?c") auto
  note ok = stop_strings [of ?c "\<lparr>rg_seed = id, rg_unit = \<lambda>s. (Fin 0, s)\<rparr>" default_penalties "[]" None "[''EN'']" "''xENy''" "[''xE'']" "''N''"]
  have w: "stop_hit_in ''xEN'' ?c" using ok hit(1,2) by (simp add: new_control_def)
  have "was_cut" "\<exists>rest. ''xENy'' = kept @ ''EN'' @ rest" using ok t hit(4) by auto
  moreover have "kept = ''x''" if "''xENy'' = kept @ ''EN'' @ rest" for rest
    using that by (cases kept) (auto simp: Cons_eq_append_conv)
  ultimately show ?thesis using t w by auto
qed

end
