(* ===== verification/Runner.thy ===== *)
theory Runner
  imports Hooks DecodeControl
begin

text \<open>
  The per-layer inference runner (\<^verbatim>\<open>src/engine/runner.rs\<close>) and the observer that feeds the hooks from the push-style forward
  pass (\<^verbatim>\<open>src/engine/runner_observer.rs\<close>).  The back end is a record of the methods of the trait \<^verbatim>\<open>Backend\<close>, with
  its state passed along and its errors as the left values of a sum; sampling is a function of the step and the logits, where
  \<open>None\<close> is its panic; \<open>clock\<close> gives the second the hooks of a layer read.
\<close>

record 'b backend_ops =
  be_embed :: "'b \<Rightarrow> token list \<Rightarrow> string + tensor"
  be_n_layers :: "'b \<Rightarrow> nat"
  be_forward :: "'b \<Rightarrow> nat \<Rightarrow> tensor \<Rightarrow> nat \<Rightarrow> 'b \<times> (string + tensor)"
  be_logits :: "'b \<Rightarrow> tensor \<Rightarrow> string + tensor"

record runner =
  ru_hooks :: registry
  ru_d_model :: nat
  ru_reasoning_layers :: nat
  ru_enable_inspection :: bool
  ru_eos_tokens :: "token list"

definition zone1_layers :: nat where
  "zone1_layers = 8"

definition default_registry :: "f32_math \<Rightarrow> map_order \<Rightarrow> nat \<Rightarrow> registry" where
  "default_registry m order reasoning_layers =
    register (memory_inject_hook m order (zone1_layers - 1) (zone1_layers + reasoning_layers - 1) (f_lit m (3 / 10)) 5) []"

definition new_runner :: "f32_math \<Rightarrow> map_order \<Rightarrow> nat \<Rightarrow> nat \<Rightarrow> runner" where
  "new_runner m order d_model reasoning_layers =
    \<lparr>ru_hooks = default_registry m order reasoning_layers, ru_d_model = d_model, ru_reasoning_layers = reasoning_layers,
     ru_enable_inspection = False, ru_eos_tokens = []\<rparr>"

definition with_eos_tokens :: "token list \<Rightarrow> runner \<Rightarrow> runner" where
  "with_eos_tokens eos ru = ru\<lparr>ru_eos_tokens := eos\<rparr>"

text \<open>\<open>with_memory\<close> drops every registered hook and registers the default one on the new store.\<close>

definition with_memory :: "f32_math \<Rightarrow> map_order \<Rightarrow> runner \<Rightarrow> runner" where
  "with_memory m order ru = ru\<lparr>ru_hooks := default_registry m order (ru_reasoning_layers ru)\<rparr>"

definition with_inspection :: "bool \<Rightarrow> runner \<Rightarrow> runner" where
  "with_inspection enabled ru = ru\<lparr>ru_enable_inspection := enabled\<rparr>"

section \<open>The three zones\<close>

record 'b pass =
  pa_backend :: 'b
  pa_hidden :: tensor
  pa_snapshots :: "layer_snapshot list"
  pa_context :: hook_context
  pa_store :: store

definition snapshot :: "f32_math \<Rightarrow> bool \<Rightarrow> nat \<Rightarrow> nat \<Rightarrow> 'b pass \<Rightarrow> 'b pass" where
  "snapshot m insp layer_idx loop_idx p =
    (if insp then p\<lparr>pa_snapshots := pa_snapshots p @ [from_hidden_state m layer_idx loop_idx (pa_hidden p)]\<rparr> else p)"

fun forward_zone :: "'b backend_ops \<Rightarrow> f32_math \<Rightarrow> bool \<Rightarrow> nat \<Rightarrow> nat list \<Rightarrow> 'b pass \<Rightarrow> 'b pass \<times> (string + unit)" where
  "forward_zone be m insp seq_len [] p = (p, Inr ())"
| "forward_zone be m insp seq_len (l # ls) p =
    (case be_forward be (pa_backend p) l (pa_hidden p) seq_len of
       (b, Inl e) \<Rightarrow> (p\<lparr>pa_backend := b\<rparr>, Inl e)
     | (b, Inr h) \<Rightarrow> forward_zone be m insp seq_len ls (snapshot m insp l 0 (p\<lparr>pa_backend := b, pa_hidden := h\<rparr>)))"

fun reason_zone ::
  "'b backend_ops \<Rightarrow> f32_math \<Rightarrow> registry \<Rightarrow> (nat \<Rightarrow> nat \<Rightarrow> nat) \<Rightarrow> bool \<Rightarrow> nat \<Rightarrow> nat \<Rightarrow> nat list \<Rightarrow> 'b pass \<Rightarrow> 'b pass \<times> (string + bool)" where
  "reason_zone be m hs clock insp seq_len loop_idx [] p = (p, Inr False)"
| "reason_zone be m hs clock insp seq_len loop_idx (l # ls) p =
    (case be_forward be (pa_backend p) l (pa_hidden p) seq_len of
       (b, Inl e) \<Rightarrow> (p\<lparr>pa_backend := b\<rparr>, Inl e)
     | (b, Inr h) \<Rightarrow>
         (let ctx = (pa_context p)\<lparr>hc_confidence := confidence m h\<rparr>;
              (action, h', ctx', st') = fire hs (clock loop_idx l) l loop_idx h ctx (pa_store p);
              p' = p\<lparr>pa_backend := b, pa_hidden := h', pa_context := ctx', pa_store := st'\<rparr>
          in case action of
               EarlyExit reason \<Rightarrow> (p', Inr True)
             | _ \<Rightarrow> reason_zone be m hs clock insp seq_len loop_idx ls (snapshot m insp l loop_idx p')))"

fun reason_loops ::
  "'b backend_ops \<Rightarrow> f32_math \<Rightarrow> registry \<Rightarrow> (nat \<Rightarrow> nat \<Rightarrow> nat) \<Rightarrow> bool \<Rightarrow> nat \<Rightarrow> reasoning_budget \<Rightarrow> nat \<Rightarrow> nat list \<Rightarrow>
   nat list \<Rightarrow> reasoning_state \<Rightarrow> 'b pass \<Rightarrow> 'b pass \<times> (string + reasoning_state \<times> bool)" where
  "reason_loops be m hs clock insp seq_len budget mem layers [] rs p = (p, Inr (rs, False))"
| "reason_loops be m hs clock insp seq_len budget mem layers (lp # lps) rs p =
    (if \<not> should_continue budget rs then (p, Inr (rs, False))
     else
       (case reason_zone be m hs clock insp seq_len lp layers p of
          (p', Inl e) \<Rightarrow> (p', Inl e)
        | (p', Inr True) \<Rightarrow> (p', Inr (rs, True))
        | (p', Inr False) \<Rightarrow>
            reason_loops be m hs clock insp seq_len budget mem layers lps (record_loop mem (confidence m (pa_hidden p')) rs) p'))"

definition f32_ceil :: "f32 \<Rightarrow> f32" where
  "f32_ceil x = (case x of Fin q \<Rightarrow> Fin (of_int \<lceil>q\<rceil>) | _ \<Rightarrow> x)"

definition n_loops_needed :: "f32_math \<Rightarrow> reasoning_budget \<Rightarrow> f32 list \<Rightarrow> tensor \<Rightarrow> nat" where
  "n_loops_needed m budget importances hidden =
    (if rb_per_token_adaptive budget then
       (let ratio = f_div m (f_of_nat m (length (filter (f32_le (f_lit m (7 / 10))) importances)))
              (f_of_nat m (max (length importances) 1));
            adaptive = f32_to_usize (f32_ceil (f_mul m ratio (f_of_nat m (rb_max_loops budget))))
        in min (max adaptive 1) (rb_max_loops budget))
     else max (min (map_to_loops (difficulty m hidden)) (rb_max_loops budget)) 1)"

section \<open>Decoding\<close>

type_synonym step_sampler = "nat \<Rightarrow> tensor \<Rightarrow> token option"

fun run_layers :: "'b backend_ops \<Rightarrow> nat \<Rightarrow> nat list \<Rightarrow> 'b \<Rightarrow> tensor \<Rightarrow> 'b \<times> (string + tensor)" where
  "run_layers be seq_len [] b h = (b, Inr h)"
| "run_layers be seq_len (l # ls) b h =
    (case be_forward be b l h seq_len of (b', Inl e) \<Rightarrow> (b', Inl e) | (b', Inr h') \<Rightarrow> run_layers be seq_len ls b' h')"

fun decode_loop ::
  "'b backend_ops \<Rightarrow> step_sampler \<Rightarrow> token list \<Rightarrow> nat \<Rightarrow> nat \<Rightarrow> nat \<Rightarrow> token list \<Rightarrow> token list \<Rightarrow> tensor \<Rightarrow> 'b \<Rightarrow>
   ('b \<times> (string + token list)) option" where
  "decode_loop be sampler eos n_layers max_tokens 0 all_tokens out logits b = Some (b, Inr out)"
| "decode_loop be sampler eos n_layers max_tokens (Suc k) all_tokens out logits b =
    (case sampler (length out) logits of
       None \<Rightarrow> None
     | Some t \<Rightarrow>
         (let out' = out @ [t]; all' = all_tokens @ [t] in
          if t \<in> set eos \<or> length out' = max_tokens then Some (b, Inr out')
          else
            (case be_embed be b all' of
               Inl e \<Rightarrow> Some (b, Inl e)
             | Inr h \<Rightarrow>
                 (case run_layers be (length all') [0 ..< n_layers] b h of
                    (b', Inl e) \<Rightarrow> Some (b', Inl e)
                  | (b', Inr h') \<Rightarrow>
                      (case be_logits be b' h' of
                         Inl e \<Rightarrow> Some (b', Inl e)
                       | Inr lg \<Rightarrow> decode_loop be sampler eos n_layers max_tokens k all' out' lg b')))))"

record generation_result =
  gr_tokens :: "token list"
  gr_reasoning_loops_used :: nat
  gr_reasoning_memory_mb :: nat
  gr_early_exit :: bool
  gr_avg_token_importance :: f32
  gr_inspection_trace :: "inspection_trace option"

text \<open>The trace is kept by the store as well; recording it panics for a store that keeps no traces.\<close>

definition finish_trace :: "bool \<Rightarrow> string \<Rightarrow> nat \<Rightarrow> layer_snapshot list \<Rightarrow> store \<Rightarrow> (store \<times> inspection_trace option) option" where
  "finish_trace insp rid timestamp snaps st =
    (if insp then
       (let t = \<lparr>it_request_id = rid, it_layers = snaps, it_tokens = [], it_timestamp = timestamp\<rparr>
        in map_option (\<lambda>st'. (st', Some t)) (record_trace t st))
     else Some (st, None))"

record 'b generate_env =
  en_backend_ops :: "'b backend_ops"
  en_math :: f32_math
  en_clock :: "nat \<Rightarrow> nat \<Rightarrow> nat"
  en_timestamp :: nat
  en_sampler :: step_sampler

definition zone3_and_decode ::
  "'b generate_env \<Rightarrow> runner \<Rightarrow> token list \<Rightarrow> nat \<Rightarrow> nat list \<Rightarrow> nat \<Rightarrow> 'b pass \<Rightarrow> ('b pass \<times> (string + token list)) option" where
  "zone3_and_decode en ru prompt max_tokens layers n_layers p =
    (case forward_zone (en_backend_ops en) (en_math en) (ru_enable_inspection ru) (length prompt) layers p of
       (p', Inl e) \<Rightarrow> Some (p', Inl e)
     | (p', Inr _) \<Rightarrow>
         (case be_logits (en_backend_ops en) (pa_backend p') (pa_hidden p') of
            Inl e \<Rightarrow> Some (p', Inl e)
          | Inr logits \<Rightarrow>
              map_option (\<lambda>(b, res). (p'\<lparr>pa_backend := b\<rparr>, res))
                (decode_loop (en_backend_ops en) (en_sampler en) (ru_eos_tokens ru) n_layers max_tokens max_tokens prompt [] logits
                  (pa_backend p'))))"

definition encode_zone ::
  "'b generate_env \<Rightarrow> runner \<Rightarrow> token list \<Rightarrow> string \<Rightarrow> nat \<Rightarrow> 'b \<Rightarrow> store \<Rightarrow> 'b pass \<times> (string + unit)" where
  "encode_zone en ru prompt rid encode_end b st =
    (let p0 = \<lparr>pa_backend = b, pa_hidden = [], pa_snapshots = [], pa_context = new_context rid, pa_store = st\<rparr> in
     case be_embed (en_backend_ops en) b prompt of
       Inl e \<Rightarrow> (p0, Inl e)
     | Inr h \<Rightarrow> forward_zone (en_backend_ops en) (en_math en) (ru_enable_inspection ru) (length prompt) [0 ..< encode_end] (p0\<lparr>pa_hidden := h\<rparr>))"

definition run_reasoning ::
  "'b generate_env \<Rightarrow> runner \<Rightarrow> token list \<Rightarrow> reasoning_budget \<Rightarrow> f32 list \<Rightarrow> nat list \<Rightarrow> 'b pass \<Rightarrow> 'b pass \<times> (string + reasoning_state \<times> bool)" where
  "run_reasoning en ru prompt budget importances layers p =
    reason_loops (en_backend_ops en) (en_math en) (ru_hooks ru) (en_clock en) (ru_enable_inspection ru) (length prompt) budget
      (estimate_memory_per_loop (length prompt) (ru_d_model ru) (ru_reasoning_layers ru)) layers
      [0 ..< n_loops_needed (en_math en) budget importances (pa_hidden p)]
      ((new_state (length prompt))\<lparr>rt_token_importances := importances\<rparr>) p"

definition generate ::
  "'b generate_env \<Rightarrow> runner \<Rightarrow> token list \<Rightarrow> nat \<Rightarrow> reasoning_budget \<Rightarrow> string \<Rightarrow> 'b \<Rightarrow> store \<Rightarrow>
   ('b \<times> store \<times> (string + generation_result)) option" where
  "generate en ru prompt max_tokens budget rid b st =
    (let n_layers = be_n_layers (en_backend_ops en) b;
         encode_end = min zone1_layers n_layers;
         reason_end = min (encode_end + ru_reasoning_layers ru) n_layers
     in case encode_zone en ru prompt rid encode_end b st of
          (p1, Inl e) \<Rightarrow> Some (pa_backend p1, pa_store p1, Inl e)
        | (p1, Inr _) \<Rightarrow>
            (let importances = importance_score (en_math en) (pa_hidden p1) (length prompt)
             in case run_reasoning en ru prompt budget importances [encode_end ..< reason_end] p1 of
                  (p2, Inl e) \<Rightarrow> Some (pa_backend p2, pa_store p2, Inl e)
                | (p2, Inr (rs, early_exit)) \<Rightarrow>
                    (case zone3_and_decode en ru prompt max_tokens [reason_end ..< n_layers] n_layers p2 of
                       None \<Rightarrow> None
                     | Some (p3, Inl e) \<Rightarrow> Some (pa_backend p3, pa_store p3, Inl e)
                     | Some (p3, Inr out) \<Rightarrow>
                         (case finish_trace (ru_enable_inspection ru) rid (en_timestamp en) (pa_snapshots p3) (pa_store p3) of
                            None \<Rightarrow> None
                          | Some (st', trace) \<Rightarrow>
                              Some (pa_backend p3, st', Inr
                                \<lparr>gr_tokens = out, gr_reasoning_loops_used = rt_loops_used rs, gr_reasoning_memory_mb = rt_memory_used_mb rs,
                                 gr_early_exit = early_exit, gr_avg_token_importance = average_importance (en_math en) importances,
                                 gr_inspection_trace = trace\<rparr>)))))"

section \<open>The observer\<close>

record 'h observer_env =
  oe_pool :: "'h \<Rightarrow> tensor option"
  oe_broadcast_add :: "'h \<Rightarrow> tensor \<Rightarrow> 'h option"
  oe_math :: f32_math

record runner_observer =
  ro_hooks :: registry
  ro_context :: hook_context
  ro_enable_inspection :: bool
  ro_layer_snapshots :: "layer_snapshot list"
  ro_token_snapshots :: "token_snapshot list"
  ro_last_hidden :: tensor
  ro_last_confidence :: f32
  ro_early_exit_signal :: bool
  ro_early_exit_reason :: "string option"

definition new_observer :: "registry \<Rightarrow> string \<Rightarrow> runner_observer" where
  "new_observer hs rid =
    \<lparr>ro_hooks = hs, ro_context = new_context rid, ro_enable_inspection = False, ro_layer_snapshots = [], ro_token_snapshots = [],
     ro_last_hidden = [], ro_last_confidence = Fin 0, ro_early_exit_signal = False, ro_early_exit_reason = None\<rparr>"

definition apply_residual_delta ::
  "'h observer_env \<Rightarrow> nat \<Rightarrow> nat \<Rightarrow> 'h \<Rightarrow> tensor \<Rightarrow> runner_observer \<Rightarrow> store \<Rightarrow> 'h option" where
  "apply_residual_delta oe now layer_idx hidden pooled ro st =
    (case residual_delta (f32_ops.truncate (oe_math oe)) (ro_hooks ro) now layer_idx pooled (ro_context ro) st None of
       None \<Rightarrow> None
     | Some delta \<Rightarrow> oe_broadcast_add oe hidden delta)"

definition on_layer ::
  "'h observer_env \<Rightarrow> nat \<Rightarrow> nat \<Rightarrow> 'h \<Rightarrow> runner_observer \<Rightarrow> store \<Rightarrow> runner_observer \<times> store \<times> 'h option" where
  "on_layer oe now layer_idx hidden ro st =
    (case oe_pool oe hidden of
       None \<Rightarrow> (ro, st, None)
     | Some pooled \<Rightarrow>
         (let conf = confidence (oe_math oe) pooled;
              ctx = (ro_context ro)\<lparr>hc_confidence := conf\<rparr>;
              (action, staging, ctx', st') = fire (ro_hooks ro) now layer_idx 0 pooled ctx st;
              ro1 = ro\<lparr>ro_context := ctx', ro_last_confidence := conf\<rparr>;
              ro2 = (case action of EarlyExit reason \<Rightarrow> ro1\<lparr>ro_early_exit_signal := True, ro_early_exit_reason := Some reason\<rparr> | _ \<Rightarrow> ro1);
              ro3 = (if ro_enable_inspection ro
                     then ro2\<lparr>ro_layer_snapshots := ro_layer_snapshots ro2 @ [from_hidden_state (oe_math oe) layer_idx 0 pooled]\<rparr> else ro2)
          in (ro3\<lparr>ro_last_hidden := pooled\<rparr>, st', apply_residual_delta oe now layer_idx hidden pooled ro3 st')))"

definition take_inspection_trace :: "nat \<Rightarrow> runner_observer \<Rightarrow> runner_observer \<times> inspection_trace option" where
  "take_inspection_trace now ro =
    (if \<not> ro_enable_inspection ro then (ro, None)
     else
       (let ro' = ro\<lparr>ro_layer_snapshots := [], ro_token_snapshots := []\<rparr>
        in if ro_layer_snapshots ro = [] \<and> ro_token_snapshots ro = [] then (ro', None)
           else (ro', Some \<lparr>it_request_id = hc_request_id (ro_context ro), it_layers = ro_layer_snapshots ro,
                   it_tokens = ro_token_snapshots ro, it_timestamp = now\<rparr>)))"

definition record_token :: "f32_math \<Rightarrow> nat \<Rightarrow> token \<Rightarrow> string \<Rightarrow> f32 list \<Rightarrow> nat \<Rightarrow> runner_observer \<Rightarrow> runner_observer" where
  "record_token m step_idx t text_of_t logits top_k ro =
    (if \<not> ro_enable_inspection ro then ro
     else
       (let mx = foldl f32_max NegInf logits;
            exps = map (\<lambda>x. f_exp m (f_sub m x mx)) logits;
            total_exp = f_sum (f32_ops.truncate m) exps;
            probs = (if f32_lt (Fin 0) total_exp then map (\<lambda>e. f_div m e total_exp) exps else exps);
            conf = (if t < length probs then probs ! t else Fin 0)
        in ro\<lparr>ro_token_snapshots := ro_token_snapshots ro @
             [\<lparr>ts_step = step_idx, ts_token_id = t, ts_token_text = text_of_t, ts_confidence = conf,
               ts_top_alternatives = take top_k (sort_desc snd (zip (map u32_of [0 ..< length probs]) probs))\<rparr>]\<rparr>))"

section \<open>The observer reads, it does not steer\<close>

text \<open>With hooks that only observe, a layer leaves the exit signal as it was; the pass is edited only by the residual deltas.\<close>

lemma on_layer_frame:
  assumes "observing_registry (ro_hooks ro)" "on_layer oe now l hidden ro st = (ro', st', edit)"
  shows "ro_hooks ro' = ro_hooks ro \<and> ro_early_exit_signal ro' = ro_early_exit_signal ro \<and>
    ro_token_snapshots ro' = ro_token_snapshots ro \<and>
    (case oe_pool oe hidden of None \<Rightarrow> edit = None \<and> st' = st
     | Some pooled \<Rightarrow> ro_last_hidden ro' = pooled \<and> ro_last_confidence ro' = confidence (oe_math oe) pooled)"
proof (cases "oe_pool oe hidden")
  case None
  then show ?thesis using assms(2) by (auto simp: on_layer_def)
next
  case (Some pooled)
  let ?ctx = "(ro_context ro)\<lparr>hc_confidence := confidence (oe_math oe) pooled\<rparr>"
  obtain a x ctx' st1 where fire: "fire (ro_hooks ro) now l 0 pooled ?ctx st = (a, x, ctx', st1)" by (metis prod.exhaust)
  have "a = Continue" using observing_registry.fire_observes [OF assms(1) fire] by simp
  then show ?thesis using assms(2) Some fire by (cases "ro_enable_inspection ro") (auto simp: on_layer_def Let_def)
qed

text \<open>Draining the trace leaves nothing to drain.\<close>

lemma take_trace_once:
  "take_inspection_trace now ro = (ro', t) \<Longrightarrow> ro_enable_inspection ro \<Longrightarrow> snd (take_inspection_trace now' ro') = None"
  by (auto simp: take_inspection_trace_def Let_def split: if_splits)

section \<open>The forward pass as one sequence of layers\<close>

text \<open>
  The documented contract of the per-layer surface of a back end: every call is a standalone causal pass, so its result does not
  depend on the calls before it.
\<close>

definition stateless ::
  "'b backend_ops \<Rightarrow> (nat \<Rightarrow> tensor \<Rightarrow> nat \<Rightarrow> string + tensor) \<Rightarrow> (token list \<Rightarrow> string + tensor) \<Rightarrow> (tensor \<Rightarrow> string + tensor) \<Rightarrow> nat \<Rightarrow> bool" where
  "stateless be f e g n =
    ((\<forall>b l h k. snd (be_forward be b l h k) = f l h k) \<and> (\<forall>b ts. be_embed be b ts = e ts) \<and>
     (\<forall>b h. be_logits be b h = g h) \<and> (\<forall>b. be_n_layers be b = n))"

fun layers_from :: "(nat \<Rightarrow> tensor \<Rightarrow> nat \<Rightarrow> string + tensor) \<Rightarrow> nat \<Rightarrow> nat list \<Rightarrow> tensor \<Rightarrow> string + tensor" where
  "layers_from f k [] h = Inr h"
| "layers_from f k (l # ls) h = (case f l h k of Inl er \<Rightarrow> Inl er | Inr h' \<Rightarrow> layers_from f k ls h')"

lemma layers_from_append:
  "layers_from f k (ls @ ls') h = (case layers_from f k ls h of Inl er \<Rightarrow> Inl er | Inr h' \<Rightarrow> layers_from f k ls' h')"
  by (induction ls arbitrary: h) (auto split: sum.splits)

definition logits_of ::
  "(nat \<Rightarrow> tensor \<Rightarrow> nat \<Rightarrow> string + tensor) \<Rightarrow> (token list \<Rightarrow> string + tensor) \<Rightarrow> (tensor \<Rightarrow> string + tensor) \<Rightarrow> nat list \<Rightarrow> token list \<Rightarrow> string + tensor" where
  "logits_of f e g ls ts =
    (case e ts of Inl er \<Rightarrow> Inl er
     | Inr h \<Rightarrow> (case layers_from f (length ts) ls h of Inl er \<Rightarrow> Inl er | Inr h' \<Rightarrow> g h'))"

lemma statelessD:
  "stateless be f e g n \<Longrightarrow> be_forward be b l h k = (b', r) \<Longrightarrow> f l h k = r"
  unfolding stateless_def by (metis snd_conv)

lemma snapshot_simps [simp]:
  "pa_hidden (snapshot m insp l lp p) = pa_hidden p" "pa_store (snapshot m insp l lp p) = pa_store p"
  "pa_context (snapshot m insp l lp p) = pa_context p" "pa_backend (snapshot m insp l lp p) = pa_backend p"
  by (simp_all add: snapshot_def)

lemma forward_zone_layers:
  assumes "stateless be f e g n"
  shows "forward_zone be m insp k ls p = (p', r) \<Longrightarrow>
    pa_store p' = pa_store p \<and> pa_context p' = pa_context p \<and> (r = Inr () \<longrightarrow> layers_from f k ls (pa_hidden p) = Inr (pa_hidden p'))"
proof (induction ls arbitrary: p)
  case (Cons l ls)
  obtain b r1 where f: "be_forward be (pa_backend p) l (pa_hidden p) k = (b, r1)" by fastforce
  show ?case
  proof (cases r1)
    case (Inr h)
    then show ?thesis using Cons f statelessD [OF assms f] by force
  qed (use Cons.prems f in auto)
qed simp

lemma reason_zone_layers:
  assumes "stateless be f e g n" "observing_registry hs"
  shows "reason_zone be m hs clock insp k lp ls p = (p', Inr ex) \<Longrightarrow> \<not> ex \<and> layers_from f k ls (pa_hidden p) = Inr (pa_hidden p')"
proof (induction ls arbitrary: p)
  case (Cons l ls)
  obtain b r1 where f: "be_forward be (pa_backend p) l (pa_hidden p) k = (b, r1)" by fastforce
  then obtain h where r: "r1 = Inr h" using Cons.prems by (cases r1) auto
  let ?ctx = "(pa_context p)\<lparr>hc_confidence := confidence m h\<rparr>"
  obtain a h' ctx' st' where fire: "fire hs (clock lp l) l lp h ?ctx (pa_store p) = (a, h', ctx', st')" by (metis prod.exhaust)
  have "a = Continue" "h' = h" using observing_registry.fire_observes [OF assms(2) fire] by auto
  then have "reason_zone be m hs clock insp k lp ls
      (snapshot m insp l lp (p\<lparr>pa_backend := b, pa_hidden := h, pa_context := ctx', pa_store := st'\<rparr>)) = (p', Inr ex)"
    using Cons.prems f r fire by (simp add: Let_def)
  from Cons.IH [OF this] show ?case using statelessD [OF assms(1) f] r by simp
qed simp

lemma reason_loops_layers:
  assumes "stateless be f e g n" "observing_registry hs"
  shows "reason_loops be m hs clock insp k budget mem layers lps rs p = (p', Inr (rs', ex)) \<Longrightarrow>
    \<not> ex \<and> rt_loops_used rs \<le> rt_loops_used rs' \<and>
    layers_from f k (concat (replicate (rt_loops_used rs' - rt_loops_used rs) layers)) (pa_hidden p) = Inr (pa_hidden p')"
proof (induction lps arbitrary: rs p)
  case (Cons lp lps)
  show ?case
  proof (cases "should_continue budget rs")
    case True
    obtain p1 r1 where z: "reason_zone be m hs clock insp k lp layers p = (p1, r1)" by fastforce
    then obtain ex1 where r1: "r1 = Inr ex1" using Cons.prems True by (cases r1) auto
    have Z: "\<not> ex1" "layers_from f k layers (pa_hidden p) = Inr (pa_hidden p1)" using reason_zone_layers [OF assms] z r1 by blast+
    let ?rs = "record_loop mem (confidence m (pa_hidden p1)) rs"
    have "reason_loops be m hs clock insp k budget mem layers lps ?rs p1 = (p', Inr (rs', ex))" using Cons.prems True z r1 Z(1) by auto
    note IH = Cons.IH [OF this]
    have "rt_loops_used ?rs \<le> rt_loops_used rs'" using IH by blast
    then have "rt_loops_used rs' - rt_loops_used rs = Suc (rt_loops_used rs' - rt_loops_used ?rs)"
      by (simp add: record_loop_def Suc_diff_Suc)
    then show ?thesis using IH Z(2) by (simp add: layers_from_append record_loop_def)
  qed (use Cons.prems in auto)
qed auto

lemma reason_loops_budget:
  "reason_loops be m hs clock insp k budget mem layers lps rs p = (p', Inr (rs', ex)) \<Longrightarrow>
   \<exists>n \<le> length lps. rt_loops_used rs' = rt_loops_used rs + n \<and> rt_memory_used_mb rs' = rt_memory_used_mb rs + n * mem \<and>
     (0 < n \<longrightarrow> rt_loops_used rs' \<le> rb_max_loops budget \<and> rt_memory_used_mb rs + (n - 1) * mem < rb_max_memory_mb budget)"
proof (induction lps arbitrary: rs p)
  case (Cons lp lps)
  show ?case
  proof (cases "should_continue budget rs")
    case True
    then have c: "rt_loops_used rs < rb_max_loops budget" "rt_memory_used_mb rs < rb_max_memory_mb budget"
      by (auto simp: should_continue_def split: if_splits)
    obtain p1 r1 where z: "reason_zone be m hs clock insp k lp layers p = (p1, r1)" by fastforce
    then obtain ex1 where r1: "r1 = Inr ex1" using Cons.prems True by (cases r1) auto
    show ?thesis
    proof (cases ex1)
      case True
      then have "rs' = rs" using Cons.prems \<open>should_continue budget rs\<close> z r1 by auto
      then show ?thesis by (intro exI [of _ 0]) simp
    next
      case False
      let ?rs = "record_loop mem (confidence m (pa_hidden p1)) rs"
      have "reason_loops be m hs clock insp k budget mem layers lps ?rs p1 = (p', Inr (rs', ex))" using Cons.prems True z r1 False by auto
      from Cons.IH [OF this] obtain n where n: "n \<le> length lps" "rt_loops_used rs' = rt_loops_used rs + Suc n"
        "rt_memory_used_mb rs' = rt_memory_used_mb rs + Suc n * mem"
        "0 < n \<longrightarrow> rt_loops_used rs' \<le> rb_max_loops budget \<and> rt_memory_used_mb rs + mem + (n - 1) * mem < rb_max_memory_mb budget"
        by (auto simp: record_loop_def)
      have "rt_loops_used rs' \<le> rb_max_loops budget" using n(2,4) c(1) by (cases n) auto
      moreover have "rt_memory_used_mb rs + n * mem < rb_max_memory_mb budget" using n(4) c(2) by (cases n) auto
      ultimately show ?thesis using n(1-3) by (intro exI [of _ "Suc n"]) simp
    qed
  qed (use Cons.prems in auto)
qed auto

section \<open>Decoding\<close>

definition decoded ::
  "step_sampler \<Rightarrow> (token list \<Rightarrow> string + tensor) \<Rightarrow> token list \<Rightarrow> nat \<Rightarrow> token list \<Rightarrow> bool" where
  "decoded sampler logits_at eos max_tokens toks =
    ((\<forall>i < length toks. \<exists>lg. logits_at (take i toks) = Inr lg \<and> sampler i lg = Some (toks ! i)) \<and>
     (\<forall>i. Suc i < length toks \<longrightarrow> toks ! i \<notin> set eos) \<and> length toks \<le> max_tokens \<and>
     (length toks = max_tokens \<or> toks \<noteq> [] \<and> last toks \<in> set eos))"

lemma run_layers_from:
  assumes "stateless be f e g n"
  shows "run_layers be k ls b h = (b', r) \<Longrightarrow> layers_from f k ls h = r"
proof (induction ls arbitrary: b h)
  case (Cons l ls)
  obtain b1 r1 where f: "be_forward be b l h k = (b1, r1)" by fastforce
  then show ?case using Cons statelessD [OF assms f] by (auto split: sum.splits)
qed simp

lemma decode_loop_correct:
  assumes s: "stateless be f e g n"
    and "decode_loop be sampler eos n max_tokens k (prompt @ out) out lg b = Some (b', Inr toks)"
    and "length out + k = max_tokens" "set out \<inter> set eos = {}" "logits_at out = Inr lg"
    and "\<forall>i < length out. \<exists>lg. logits_at (take i out) = Inr lg \<and> sampler i lg = Some (out ! i)"
    and at: "\<And>ts. ts \<noteq> [] \<Longrightarrow> logits_at ts = logits_of f e g [0 ..< n] (prompt @ ts)"
  shows "decoded sampler logits_at eos max_tokens toks"
  using assms(2-6)
proof (induction k arbitrary: out lg b)
  case 0
  then have "toks = out" "length out = max_tokens" by simp_all
  moreover have "\<forall>i < length out. out ! i \<notin> set eos" using 0(3) nth_mem by blast
  ultimately show ?case unfolding decoded_def using 0(5) by auto
next
  case (Suc k)
  obtain t where t: "sampler (length out) lg = Some t" using Suc.prems(1) by (auto split: option.splits)
  let ?out = "out @ [t]"
  have steps: "\<forall>i < length ?out. \<exists>lg. logits_at (take i ?out) = Inr lg \<and> sampler i lg = Some (?out ! i)"
    using Suc.prems(4,5) t by (auto simp: less_Suc_eq nth_append)
  show ?case
  proof (cases "t \<in> set eos \<or> length ?out = max_tokens")
    case True
    then have toks: "toks = ?out" using Suc.prems(1) t by (auto split: if_splits)
    have "\<forall>i. Suc i < length ?out \<longrightarrow> ?out ! i \<notin> set eos"
      using Suc.prems(3) by (auto simp: nth_append disjoint_iff)
    then show ?thesis unfolding toks decoded_def using steps True Suc.prems(2) by auto
  next
    case False
    let ?all = "prompt @ ?out"
    have e: "be_embed be b ts = e ts" "be_logits be b h = g h" for b ts h using s by (auto simp: stateless_def)
    obtain h where h: "e ?all = Inr h" using Suc.prems(1) t False by (auto simp: e Let_def split: sum.splits)
    obtain b1 r1 where rl: "run_layers be (length ?all) [0 ..< n] b h = (b1, r1)" by fastforce
    obtain h1 where h1: "r1 = Inr h1" using Suc.prems(1) t False h rl by (auto simp: e Let_def split: sum.splits)
    obtain lg1 where lg1: "g h1 = Inr lg1" using Suc.prems(1) t False h rl h1 by (auto simp: e Let_def split: sum.splits)
    have rec: "decode_loop be sampler eos n max_tokens k (prompt @ ?out) ?out lg1 b1 = Some (b', Inr toks)"
      using Suc.prems(1) t False h rl h1 lg1 by (auto simp: e Let_def)
    have "logits_at ?out = Inr lg1"
      using at [of ?out] h h1 lg1 run_layers_from [OF s rl] by (simp add: logits_of_def)
    then show ?thesis using Suc.IH [OF rec] Suc.prems(2,3) steps False by auto
  qed
qed

lemma zones_cover: "e \<le> r \<Longrightarrow> r \<le> n \<Longrightarrow> [0 ..< e] @ [e ..< r] @ [r ..< n] = [0 ..< n]"
  by (metis append_assoc le0 le_trans upt_add_eq_append le_add_diff_inverse)

section \<open>What a run does to the memory store\<close>

lemma only_own_later: "now \<le> later \<Longrightarrow> only_own own now st st' \<Longrightarrow> only_own own later st st'"
  unfolding only_own_def is_expired_def by (fastforce split: option.splits)

lemma reason_zone_store:
  assumes "observing_registry hs" "\<forall>lp l. clock lp l \<le> later"
  shows "reason_zone be m hs clock insp k lp ls p = (p', r) \<Longrightarrow> store_inv (pa_store p) \<Longrightarrow>
    store_inv (pa_store p') \<and> hc_request_id (pa_context p') = hc_request_id (pa_context p) \<and>
    only_own (own_key (hc_request_id (pa_context p))) later (pa_store p) (pa_store p')"
proof (induction ls arbitrary: p)
  case (Cons l ls)
  obtain b r1 where f: "be_forward be (pa_backend p) l (pa_hidden p) k = (b, r1)" by fastforce
  show ?case
  proof (cases r1)
    case (Inl er)
    then show ?thesis using Cons.prems f by auto
  next
    case (Inr h)
    let ?ctx = "(pa_context p)\<lparr>hc_confidence := confidence m h\<rparr>"
    obtain a h' ctx' st' where fire: "fire hs (clock lp l) l lp h ?ctx (pa_store p) = (a, h', ctx', st')" by (metis prod.exhaust)
    have O: "a = Continue" "h' = h" "hc_request_id ctx' = hc_request_id (pa_context p)"
      using observing_registry.fire_observes [OF assms(1) fire] by auto
    have W: "store_inv st'" "only_own (own_key (hc_request_id (pa_context p))) (clock lp l) (pa_store p) st'"
      using observing_registry.fire_owns [OF assms(1) fire Cons.prems(2)] by auto
    let ?p = "snapshot m insp l lp (p\<lparr>pa_backend := b, pa_hidden := h, pa_context := ctx', pa_store := st'\<rparr>)"
    have "reason_zone be m hs clock insp k lp ls ?p = (p', r)" using Cons.prems f Inr fire O by (simp add: Let_def)
    from Cons.IH [OF this] W(1) O(3) only_own_later [OF _ W(2), of later] assms(2) show ?thesis
      by (auto intro: only_own_trans)
  qed
qed simp

lemma reason_loops_store:
  assumes "observing_registry hs" "\<forall>lp l. clock lp l \<le> later"
  shows "reason_loops be m hs clock insp k budget mem layers lps rs p = (p', r) \<Longrightarrow> store_inv (pa_store p) \<Longrightarrow>
    store_inv (pa_store p') \<and> only_own (own_key (hc_request_id (pa_context p))) later (pa_store p) (pa_store p')"
proof (induction lps arbitrary: rs p)
  case (Cons lp lps)
  show ?case
  proof (cases "should_continue budget rs")
    case True
    obtain p1 r1 where z: "reason_zone be m hs clock insp k lp layers p = (p1, r1)" by fastforce
    note Z = reason_zone_store [OF assms z Cons.prems(2)]
    consider "p' = p1" | "r1 = Inr False"
      using Cons.prems(1) True z by (cases r1) (auto split: bool.splits)
    then show ?thesis
    proof cases
      case 2
      then have "reason_loops be m hs clock insp k budget mem layers lps (record_loop mem (confidence m (pa_hidden p1)) rs) p1 = (p', r)"
        using Cons.prems(1) True z by simp
      from Cons.IH [OF this] Z show ?thesis by (auto intro: only_own_trans)
    qed (use Z in simp)
  qed (use Cons.prems in auto)
qed simp

lemma encode_zone_frame:
  assumes "stateless (en_backend_ops en) f e g n" "encode_zone en ru prompt rid k b st = (p, Inr u)"
  shows "pa_store p = st" "hc_request_id (pa_context p) = rid"
    "\<exists>h. e prompt = Inr h \<and> layers_from f (length prompt) [0 ..< k] h = Inr (pa_hidden p)"
proof -
  obtain h where h: "e prompt = Inr h" using assms by (auto simp: encode_zone_def stateless_def Let_def split: sum.splits)
  let ?p = "\<lparr>pa_backend = b, pa_hidden = h, pa_snapshots = [], pa_context = new_context rid, pa_store = st\<rparr>"
  have "forward_zone (en_backend_ops en) (en_math en) (ru_enable_inspection ru) (length prompt) [0 ..< k] ?p = (p, Inr ())"
    using assms h by (simp add: encode_zone_def stateless_def Let_def)
  from forward_zone_layers [OF assms(1) this] h
  show "pa_store p = st" "hc_request_id (pa_context p) = rid" "\<exists>h. e prompt = Inr h \<and> layers_from f (length prompt) [0 ..< k] h = Inr (pa_hidden p)"
    by (auto simp: new_context_def)
qed

lemma zone3_correct:
  assumes "stateless (en_backend_ops en) f e g n" "zone3_and_decode en ru prompt mx ls n p = Some (p', Inr toks)"
  shows "pa_store p' = pa_store p"
    "\<exists>h lg. layers_from f (length prompt) ls (pa_hidden p) = Inr h \<and> g h = Inr lg \<and>
      decoded (en_sampler en) (\<lambda>ts. if ts = [] then Inr lg else logits_of f e g [0 ..< n] (prompt @ ts)) (ru_eos_tokens ru) mx toks"
proof -
  obtain p1 r1 where z: "forward_zone (en_backend_ops en) (en_math en) (ru_enable_inspection ru) (length prompt) ls p = (p1, r1)" by fastforce
  have r1: "r1 = Inr ()" using assms(2) z by (cases r1) (auto simp: zone3_and_decode_def)
  note Z = forward_zone_layers [OF assms(1) z]
  have lgs: "be_logits (en_backend_ops en) b h = g h" for b h using assms(1) by (simp add: stateless_def)
  obtain lg where lg: "g (pa_hidden p1) = Inr lg" using assms(2) z r1 by (auto simp: zone3_and_decode_def lgs split: sum.splits)
  obtain b' where d: "decode_loop (en_backend_ops en) (en_sampler en) (ru_eos_tokens ru) n mx mx (prompt @ []) [] lg (pa_backend p1) = Some (b', Inr toks)"
    "p' = p1\<lparr>pa_backend := b'\<rparr>"
    using assms(2) z r1 lg by (auto simp: zone3_and_decode_def lgs)
  show "pa_store p' = pa_store p" using Z d(2) by simp
  have "decoded (en_sampler en) (\<lambda>ts. if ts = [] then Inr lg else logits_of f e g [0 ..< n] (prompt @ ts)) (ru_eos_tokens ru) mx toks"
    by (rule decode_loop_correct [OF assms(1) d(1)]) simp_all
  then show "\<exists>h lg. layers_from f (length prompt) ls (pa_hidden p) = Inr h \<and> g h = Inr lg \<and>
      decoded (en_sampler en) (\<lambda>ts. if ts = [] then Inr lg else logits_of f e g [0 ..< n] (prompt @ ts)) (ru_eos_tokens ru) mx toks"
    using Z r1 lg by auto
qed

text \<open>The stages of a run that returns a result.\<close>

lemma generate_stages:
  assumes "generate en ru prompt mx budget rid b st = Some (b', st', Inr res)" "stateless (en_backend_ops en) f e g n"
  defines "ee \<equiv> min zone1_layers n"
  defines "re \<equiv> min (ee + ru_reasoning_layers ru) n"
  obtains p1 p2 p3 rs importances where
    "encode_zone en ru prompt rid ee b st = (p1, Inr ())"
    "run_reasoning en ru prompt budget importances [ee ..< re] p1 = (p2, Inr (rs, gr_early_exit res))"
    "zone3_and_decode en ru prompt mx [re ..< n] n p2 = Some (p3, Inr (gr_tokens res))"
    "gr_reasoning_loops_used res = rt_loops_used rs" "gr_reasoning_memory_mb res = rt_memory_used_mb rs"
    "st_entries st' = st_entries (pa_store p3)"
proof -
  have n: "be_n_layers (en_backend_ops en) b = n" using assms(2) by (simp add: stateless_def)
  obtain p1 r1 where 1: "encode_zone en ru prompt rid ee b st = (p1, r1)" by fastforce
  then have r1: "r1 = Inr ()" using assms(1) n by (cases r1) (auto simp: generate_def ee_def Let_def)
  let ?imp = "importance_score (en_math en) (pa_hidden p1) (length prompt)"
  obtain p2 r2 where 2: "run_reasoning en ru prompt budget ?imp [ee ..< re] p1 = (p2, r2)" by fastforce
  then obtain rs ex where r2: "r2 = Inr (rs, ex)"
    using assms(1) n 1 r1 by (cases r2) (auto simp: generate_def ee_def re_def Let_def)
  obtain p3 r3 where 3: "zone3_and_decode en ru prompt mx [re ..< n] n p2 = Some (p3, r3)"
    using assms(1) n 1 r1 2 r2 by (auto simp: generate_def ee_def re_def Let_def split: option.splits)
  then obtain out where r3: "r3 = Inr out"
    using assms(1) n 1 r1 2 r2 by (cases r3) (auto simp: generate_def ee_def re_def Let_def)
  obtain st2 tr where t: "finish_trace (ru_enable_inspection ru) rid (en_timestamp en) (pa_snapshots p3) (pa_store p3) = Some (st2, tr)"
    using assms(1) n 1 r1 2 r2 3 r3 by (auto simp: generate_def ee_def re_def Let_def split: option.splits)
  have res: "st' = st2" "gr_early_exit res = ex" "gr_tokens res = out" "gr_reasoning_loops_used res = rt_loops_used rs"
    "gr_reasoning_memory_mb res = rt_memory_used_mb rs"
    using assms(1) n 1 r1 2 r2 3 r3 t by (auto simp: generate_def ee_def re_def Let_def)
  have "st_entries st2 = st_entries (pa_store p3)"
    using t by (auto simp: finish_trace_def record_trace_def Let_def split: if_splits)
  then show ?thesis using that 1 r1 2 r2 3 r3 res by auto
qed

section \<open>What a run promises\<close>

text \<open>The layers a run goes through for its first token: the middle zone \<open>loops\<close> times.\<close>

definition schedule :: "nat \<Rightarrow> nat \<Rightarrow> nat \<Rightarrow> nat list" where
  "schedule n reasoning_layers loops =
    (let ee = min zone1_layers n; re = min (ee + reasoning_layers) n
     in [0 ..< ee] @ concat (replicate loops [ee ..< re]) @ [re ..< n])"

lemma schedule_once: "schedule n reasoning_layers (Suc 0) = [0 ..< n]"
  by (simp add: schedule_def Let_def zones_cover)

text \<open>
  C36: On a back end whose per-layer calls are standalone passes, with hooks that only observe, a run that returns is exact decoding:
  the first token is sampled from the logits of the prompt after the zones, the middle zone repeated as often as the run reports, each
  later token from the plain forward pass over everything generated so far, up to a stop token or the limit.  With one loop the
  zones are the plain forward pass.
\<close>

theorem runner_generates:
  assumes "generate en ru prompt mx budget rid b st = Some (b', st', Inr res)"
    and "stateless (en_backend_ops en) f e g n" "observing_registry (ru_hooks ru)"
  shows "\<not> gr_early_exit res \<and>
    decoded (en_sampler en)
      (\<lambda>ts. if ts = [] then logits_of f e g (schedule n (ru_reasoning_layers ru) (gr_reasoning_loops_used res)) prompt
        else logits_of f e g [0 ..< n] (prompt @ ts)) (ru_eos_tokens ru) mx (gr_tokens res) \<and>
    (gr_reasoning_loops_used res = 1 \<longrightarrow> schedule n (ru_reasoning_layers ru) (gr_reasoning_loops_used res) = [0 ..< n])"
proof -
  define ee where "ee = min zone1_layers n"
  define re where "re = min (ee + ru_reasoning_layers ru) n"
  let ?L = "gr_reasoning_loops_used res"
  obtain p1 p2 p3 rs imp where P: "encode_zone en ru prompt rid ee b st = (p1, Inr ())"
    "run_reasoning en ru prompt budget imp [ee ..< re] p1 = (p2, Inr (rs, gr_early_exit res))"
    "zone3_and_decode en ru prompt mx [re ..< n] n p2 = Some (p3, Inr (gr_tokens res))" "?L = rt_loops_used rs"
    using generate_stages [OF assms(1,2)] unfolding ee_def re_def by metis
  obtain h where h: "e prompt = Inr h" "layers_from f (length prompt) [0 ..< ee] h = Inr (pa_hidden p1)"
    using encode_zone_frame(3) [OF assms(2) P(1)] by blast
  have R: "\<not> gr_early_exit res" "layers_from f (length prompt) (concat (replicate ?L [ee ..< re])) (pa_hidden p1) = Inr (pa_hidden p2)"
    using reason_loops_layers [OF assms(2,3) P(2) [unfolded run_reasoning_def]] P(4) by (auto simp: new_state_def)
  obtain h3 lg where Z: "layers_from f (length prompt) [re ..< n] (pa_hidden p2) = Inr h3" "g h3 = Inr lg"
    "decoded (en_sampler en) (\<lambda>ts. if ts = [] then Inr lg else logits_of f e g [0 ..< n] (prompt @ ts)) (ru_eos_tokens ru) mx (gr_tokens res)"
    using zone3_correct(2) [OF assms(2) P(3)] by blast
  have "logits_of f e g (schedule n (ru_reasoning_layers ru) ?L) prompt = Inr lg"
    using h R(2) Z(1,2) by (simp add: logits_of_def schedule_def Let_def layers_from_append ee_def re_def)
  then show ?thesis using R(1) Z(3) by (simp add: schedule_once cong: if_cong)
qed


definition demo_backend :: "unit backend_ops" where
  "demo_backend =
    \<lparr>be_embed = (\<lambda>b ts. Inr (map (\<lambda>t. Fin (of_nat t)) ts)), be_n_layers = (\<lambda>b. 2),
     be_forward = (\<lambda>b l h k. (b, Inr (map (f_mul demo_math (Fin 2)) h))), be_logits = (\<lambda>b h. Inr h)\<rparr>"

definition demo_generate_env :: "unit generate_env" where
  "demo_generate_env =
    \<lparr>en_backend_ops = demo_backend, en_math = demo_math, en_clock = (\<lambda>lp l. 0), en_timestamp = 0,
     en_sampler = (\<lambda>i lg. Some (greedy_index lg))\<rparr>"

definition demo_runner :: runner where
  "demo_runner = with_eos_tokens [2] (new_runner demo_math insertion_order 1 8)"

definition demo_budget :: reasoning_budget where
  "demo_budget = \<lparr>rb_max_loops = 1, rb_max_memory_mb = 1, rb_confidence_threshold = Fin 1, rb_per_token_adaptive = False\<rparr>"

lemma demo_stateless:
  "stateless demo_backend (\<lambda>l h k. Inr (map (f_mul demo_math (Fin 2)) h)) (\<lambda>ts. Inr (map (\<lambda>t. Fin (of_nat t)) ts)) Inr 2"
  by (simp add: stateless_def demo_backend_def)

lemma demo_observing: "observing_registry (ru_hooks demo_runner)"
  using default_hooks.observing_registry_axioms
  by (simp add: demo_runner_def new_runner_def default_registry_def register_def with_eos_tokens_def)

lemma demo_generate:
  "\<exists>res. generate demo_generate_env demo_runner [1, 0, 4] 5 demo_budget ''r'' () st = Some ((), st, Inr res) \<and> gr_tokens res = [2] \<and>
     gr_reasoning_loops_used res = 1"
proof -
  have n: "n_loops_needed demo_math demo_budget imp h = 1" for imp h
    using map_to_loops_range by (simp add: n_loops_needed_def demo_budget_def max_def min_def)
  have u: "[0 ..< 2] = [0, 1 :: nat]" by (simp add: upt_rec)
  have dbl: "f_mul demo_math (Fin 2) (Fin q) = Fin (2 * q)" for q by (simp add: demo_math_def)
  have five: "5 = Suc 4" by simp
  show ?thesis
    by (simp add: decode_loop.simps(2) [where k = 4, folded five] u dbl Let_def demo_budget_def f32_le_def greedy_index_def generate_def demo_generate_env_def demo_backend_def demo_runner_def new_runner_def with_eos_tokens_def
      encode_zone_def snapshot_def zone1_layers_def run_reasoning_def n [unfolded demo_budget_def One_nat_def] should_continue_def new_state_def record_loop_def
      zone3_and_decode_def finish_trace_def)
qed

theorem runner_generates_witness:
  "\<exists>res. generate demo_generate_env demo_runner [1, 0, 4] 5 demo_budget ''r'' () demo_store = Some ((), demo_store, Inr res) \<and> gr_tokens res = [2] \<and>
    \<not> gr_early_exit res \<and> schedule 2 8 (gr_reasoning_loops_used res) = [0 ..< 2]"
proof -
  obtain res where r: "generate demo_generate_env demo_runner [1, 0, 4] 5 demo_budget ''r'' () demo_store = Some ((), demo_store, Inr res)"
    "gr_tokens res = [2]" "gr_reasoning_loops_used res = 1"
    using demo_generate by blast
  have s: "stateless (en_backend_ops demo_generate_env) (\<lambda>l h k. Inr (map (f_mul demo_math (Fin 2)) h)) (\<lambda>ts. Inr (map (\<lambda>t. Fin (of_nat t)) ts)) Inr 2"
    using demo_stateless by (simp add: demo_generate_env_def)
  have "ru_reasoning_layers demo_runner = 8" by (simp add: demo_runner_def with_eos_tokens_def new_runner_def)
  with runner_generates [OF r(1) s demo_observing] r show ?thesis by auto
qed


end
