(* ===== verification/Uncertainty.thy ===== *)
theory Uncertainty
  imports DecodeControl
begin

text \<open>
  What is reported about a generation beside its text: the log-probabilities of the API (\<^verbatim>\<open>src/engine/logprobs.rs\<close>) and
  the uncertainty detector (\<^verbatim>\<open>src/engine/hallucination.rs\<close>).  The natural logarithm joins the arithmetic parameters.
\<close>

record f32_log = f32_math +
  f_ln :: "f32 \<Rightarrow> f32"

section \<open>Log-probabilities\<close>

record token_logprobs =
  tl_token_id :: token
  tl_logprob :: f32
  tl_top :: "(token \<times> f32) list"

record logprobs_collector =
  lc_top_n :: nat
  lc_entries :: "token_logprobs list"

definition new_collector :: "nat \<Rightarrow> logprobs_collector" where
  "new_collector top_n = \<lparr>lc_top_n = min top_n 20, lc_entries = []\<rparr>"

definition f32_ge :: "f32 \<Rightarrow> f32 \<Rightarrow> bool" where
  "f32_ge x y = f32_le y x"

text \<open>
  \<^verbatim>\<open>partition_point\<close> of a predicate; on a list where the predicate holds on a prefix only, which is what its documentation asks
  for, the binary search finds the length of that prefix.
\<close>

definition insert_top :: "token \<times> f32 \<Rightarrow> (token \<times> f32) list \<Rightarrow> (token \<times> f32) list" where
  "insert_top x ts =
    (let pos = length (takeWhile (\<lambda>y. f32_ge (snd y) (snd x)) ts) in take pos ts @ x # drop pos ts)"

definition keep_top :: "nat \<Rightarrow> (token \<times> f32) list \<Rightarrow> token \<times> f32 \<Rightarrow> (token \<times> f32) list" where
  "keep_top n ts x =
    (if length ts < n then insert_top x ts
     else if f32_lt (snd (ts ! (n - 1))) (snd x) then insert_top x (butlast ts)
     else ts)"

definition log_sum_exp :: "f32_log \<Rightarrow> f32 list \<Rightarrow> f32" where
  "log_sum_exp m logits =
    (let mx = foldl f32_max NegInf logits
     in f_add m mx (f_ln m (f_sum (f32_ops.truncate m) (map (\<lambda>l. f_exp m (f_sub m l mx)) logits))))"

definition top_logprobs :: "f32_log \<Rightarrow> nat \<Rightarrow> f32 list \<Rightarrow> (token \<times> f32) list" where
  "top_logprobs m top_n logits =
    (if top_n = 0 then []
     else (let lse = log_sum_exp m logits
           in foldl (keep_top top_n) [] (map (\<lambda>i. (u32_of i, f_sub m (logits ! i) lse)) [0 ..< length logits])))"

definition observe_logprobs :: "f32_log \<Rightarrow> f32 list \<Rightarrow> token \<Rightarrow> logprobs_collector \<Rightarrow> logprobs_collector" where
  "observe_logprobs m logits chosen lc =
    lc\<lparr>lc_entries := lc_entries lc @
      [\<lparr>tl_token_id = chosen,
        tl_logprob = (if chosen < length logits then f_sub m (logits ! chosen) (log_sum_exp m logits) else NegInf),
        tl_top = top_logprobs m (lc_top_n lc) logits\<rparr>]\<rparr>"

section \<open>Uncertainty\<close>

record token_uncertainty =
  tu_token :: token
  tu_entropy :: f32
  tu_max_prob :: f32
  tu_margin :: f32
  tu_chosen_logprob :: f32

record detector_config =
  dt_entropy_threshold :: f32
  dt_max_prob_threshold :: f32

record hallucination_report =
  hr_risk_score :: f32
  hr_mean_entropy :: f32
  hr_normalized_entropy :: f32
  hr_risky_fraction :: f32
  hr_peak_token :: "nat option"
  hr_n_tokens :: nat
  hr_per_token :: "token_uncertainty list"

record detector =
  dt_cfg :: detector_config
  dt_vocab :: nat
  dt_tokens :: "token_uncertainty list"
  dt_risky :: nat

definition default_detector_config :: "f32_math \<Rightarrow> detector_config" where
  "default_detector_config m = \<lparr>dt_entropy_threshold = Fin 2, dt_max_prob_threshold = f_lit m (4 / 10)\<rparr>"

definition clamp_unit :: "f32 \<Rightarrow> f32" where
  "clamp_unit x = (let y = (if f32_lt x (Fin 0) then Fin 0 else x) in if f32_lt (Fin 1) y then Fin 1 else y)"

definition risk :: "f32_log \<Rightarrow> token_uncertainty \<Rightarrow> f32" where
  "risk m t = clamp_unit (f_sub m (Fin 1) (tu_max_prob t))"

definition flagged :: "f32 \<Rightarrow> hallucination_report \<Rightarrow> bool" where
  "flagged risk_threshold r = f32_le risk_threshold (hr_risk_score r)"

definition new_detector :: "detector_config \<Rightarrow> detector" where
  "new_detector cfg = \<lparr>dt_cfg = cfg, dt_vocab = 0, dt_tokens = [], dt_risky = 0\<rparr>"

text \<open>The scan for the entropy and the two largest probabilities.\<close>

definition scan_step :: "f32_log \<Rightarrow> f32 \<Rightarrow> f32 \<Rightarrow> f32 \<Rightarrow> f32 \<times> f32 \<times> f32 \<Rightarrow> f32 \<Rightarrow> f32 \<times> f32 \<times> f32" where
  "scan_step m mx recip ln_sum acc l =
    (case acc of (entropy, top1, top2) \<Rightarrow>
       (let p = f_mul m (f_exp m (f_sub m l mx)) recip;
            entropy' = (if f32_lt (Fin 0) p then f_sub m entropy (f_mul m p (f_sub m (f_sub m l mx) ln_sum)) else entropy)
        in if f32_lt top1 p then (entropy', p, top1)
           else if f32_lt top2 p then (entropy', top1, p) else (entropy', top1, top2)))"

definition token_uncertainty_of :: "f32_log \<Rightarrow> f32 list \<Rightarrow> token \<Rightarrow> token_uncertainty" where
  "token_uncertainty_of m logits chosen =
    (if logits = [] then
       \<lparr>tu_token = chosen, tu_entropy = Fin 0, tu_max_prob = Fin 0, tu_margin = Fin 0, tu_chosen_logprob = NegInf\<rparr>
     else
       (let mx = foldl f32_max NegInf logits;
            s = foldl (f_add m) (Fin 0) (map (\<lambda>l. f_exp m (f_sub m l mx)) logits);
            recip = f_div m (Fin 1) s;
            ln_sum = f_ln m s;
            (entropy, top1, top2) = foldl (scan_step m mx recip ln_sum) (Fin 0, NegInf, NegInf) logits;
            chosen_p = (if chosen < length logits then f_mul m (f_exp m (f_sub m (logits ! chosen) mx)) recip else Fin 0)
        in \<lparr>tu_token = chosen, tu_entropy = f32_max entropy (Fin 0), tu_max_prob = f32_max top1 (Fin 0),
            tu_margin = f32_max (f_sub m top1 top2) (Fin 0),
            tu_chosen_logprob = (if f32_lt (Fin 0) chosen_p then f_ln m chosen_p else NegInf)\<rparr>))"

definition observe_detector :: "f32_log \<Rightarrow> f32 list \<Rightarrow> token \<Rightarrow> detector \<Rightarrow> detector" where
  "observe_detector m logits chosen d =
    (let u = token_uncertainty_of m logits chosen
     in d\<lparr>dt_vocab := length logits,
          dt_risky := (if f32_lt (dt_entropy_threshold (dt_cfg d)) (tu_entropy u) \<or> f32_lt (tu_max_prob u) (dt_max_prob_threshold (dt_cfg d))
                       then dt_risky d + 1 else dt_risky d),
          dt_tokens := dt_tokens d @ [u]\<rparr>)"

definition report :: "f32_log \<Rightarrow> detector \<Rightarrow> hallucination_report" where
  "report m d =
    (let n = length (dt_tokens d) in
     if n = 0 then
       \<lparr>hr_risk_score = Fin 0, hr_mean_entropy = Fin 0, hr_normalized_entropy = Fin 0, hr_risky_fraction = Fin 0,
        hr_peak_token = None, hr_n_tokens = 0, hr_per_token = []\<rparr>
     else
       (let mean_entropy = f_div m (f_sum (f32_ops.truncate m) (map tu_entropy (dt_tokens d))) (f_of_nat m n);
            risk_score = f_div m (f_sum (f32_ops.truncate m) (map (risk m) (dt_tokens d))) (f_of_nat m n);
            ln_vocab = f_ln m (f_of_nat m (max (dt_vocab d) 2))
        in \<lparr>hr_risk_score = risk_score, hr_mean_entropy = mean_entropy,
            hr_normalized_entropy = clamp_unit (f_div m mean_entropy ln_vocab),
            hr_risky_fraction = f_div m (f_of_nat m (dt_risky d)) (f_of_nat m n),
            hr_peak_token = Some (greedy_index (map tu_entropy (dt_tokens d))),
            hr_n_tokens = n, hr_per_token = dt_tokens d\<rparr>))"

section \<open>The alternatives are the best ones\<close>

fun insert_after :: "token \<times> f32 \<Rightarrow> (token \<times> f32) list \<Rightarrow> (token \<times> f32) list" where
  "insert_after x [] = [x]"
| "insert_after x (z # zs) = (if f32_le (snd x) (snd z) then z # insert_after x zs else x # z # zs)"

lemma insert_after_split: "insert_after x ts = takeWhile (\<lambda>y. f32_le (snd x) (snd y)) ts @ x # dropWhile (\<lambda>y. f32_le (snd x) (snd y)) ts"
  by (induction ts) auto

lemma insert_top_after: "insert_top x ts = insert_after x ts"
  by (induction ts) (auto simp: insert_top_def f32_ge_def Let_def)

lemma f32_cases_le: "a \<noteq> NaN \<Longrightarrow> b \<noteq> NaN \<Longrightarrow> f32_le a b \<longleftrightarrow> \<not> f32_lt b a"
  by (simp add: f32_le_def)

lemma insert_swap:
  "snd x \<noteq> NaN \<Longrightarrow> snd y \<noteq> NaN \<Longrightarrow> \<forall>z \<in> set zs. snd z \<noteq> NaN \<Longrightarrow>
   insert_desc snd y (insert_after x zs) = insert_after x (insert_desc snd y zs)"
proof (induction zs)
  case Nil
  then show ?case by (simp add: f32_le_def)
next
  case (Cons z zs)
  then have n: "snd z \<noteq> NaN" "snd x \<noteq> NaN" "snd y \<noteq> NaN" by auto
  have t: "\<not> f32_lt (snd z) (snd x) \<Longrightarrow> \<not> f32_lt (snd y) (snd z) \<Longrightarrow> \<not> f32_lt (snd y) (snd x)"
    using f32_not_lt_trans [of "snd y" "snd z" "snd x"] n by blast
  have t': "f32_lt (snd z) (snd x) \<Longrightarrow> f32_lt (snd y) (snd z) \<Longrightarrow> f32_lt (snd y) (snd x)" by (rule f32_lt_trans)
  show ?case using Cons t t' n by (auto simp: f32_cases_le)
qed

lemma set_insert_desc [simp]: "set (insert_desc f x ys) = insert x (set ys)"
  by (induction ys) auto

lemma set_sort_desc [simp]: "set (sort_desc f xs) = set xs"
  by (induction xs) (simp_all add: sort_desc_def)

lemma sort_desc_snoc:
  "\<forall>z \<in> set (xs @ [x]). snd z \<noteq> NaN \<Longrightarrow> sort_desc snd (xs @ [x]) = insert_after x (sort_desc snd xs)"
proof (induction xs)
  case Nil
  show ?case by (simp add: sort_desc_def)
next
  case (Cons y xs)
  have "sort_desc snd ((y # xs) @ [x]) = insert_desc snd y (insert_after x (sort_desc snd xs))"
    using Cons by (simp add: sort_desc_def)
  also have "\<dots> = insert_after x (insert_desc snd y (sort_desc snd xs))"
    using Cons.prems by (intro insert_swap) auto
  finally show ?case by (simp add: sort_desc_def)
qed

lemma insert_desc_sorted:
  "\<forall>z \<in> set (x # ys). f z \<noteq> NaN \<Longrightarrow> sorted_wrt (\<lambda>a b. \<not> f32_lt (f a) (f b)) ys \<Longrightarrow>
   sorted_wrt (\<lambda>a b. \<not> f32_lt (f a) (f b)) (insert_desc f x ys)"
proof (induction ys)
  case (Cons y ys)
  show ?case
  proof (cases "f32_lt (f x) (f y)")
    case True
    then have "\<not> f32_lt (f y) (f x)" by (metis f32_lt_irrefl f32_lt_trans)
    then show ?thesis using Cons True by auto
  next
    case False
    have "\<not> f32_lt (f x) (f z)" if "z \<in> set ys" for z
      using f32_not_lt_trans [of "f x" "f y" "f z"] False that Cons.prems by auto
    then show ?thesis using Cons.prems False by auto
  qed
qed simp

lemma sort_desc_sorted: "\<forall>z \<in> set xs. f z \<noteq> NaN \<Longrightarrow> sorted_wrt (\<lambda>a b. \<not> f32_lt (f a) (f b)) (sort_desc f xs)"
proof (induction xs)
  case (Cons x xs)
  have "sort_desc f (x # xs) = insert_desc f x (sort_desc f xs)" by (simp add: sort_desc_def)
  then show ?case using insert_desc_sorted [of x "sort_desc f xs" f] Cons by auto
qed (simp add: sort_desc_def)

lemma takeWhile_of_take: "takeWhile P (take n xs) = take n (takeWhile P xs)"
  by (induction xs arbitrary: n) (auto simp: take_Cons split: nat.split)

lemma keep_top_take:
  assumes "0 < n" "snd x \<noteq> NaN" "\<forall>z \<in> set s. snd z \<noteq> NaN" "sorted_wrt (\<lambda>a b. \<not> f32_lt (snd a) (snd b)) s"
  shows "keep_top n (take n s) x = take n (insert_after x s)"
proof -
  let ?P = "\<lambda>y. f32_le (snd x) (snd y)"
  let ?pos = "length (takeWhile ?P s)"
  have ins: "insert_after x s = take ?pos s @ x # drop ?pos s"
    by (simp add: insert_after_split takeWhile_eq_take [symmetric] dropWhile_eq_drop [symmetric])
  have pl: "?pos \<le> length s" by (rule length_takeWhile_le)
  consider (short) "length s < n" | (worse) "n \<le> length s" "f32_lt (snd (s ! (n - 1))) (snd x)" | (better) "n \<le> length s" "\<not> f32_lt (snd (s ! (n - 1))) (snd x)"
    by linarith
  then show ?thesis
  proof cases
    case short
    then show ?thesis using pl by (simp add: keep_top_def insert_top_after ins)
  next
    case worse
    have pos: "?pos \<le> n - 1"
    proof (rule ccontr)
      assume "\<not> ?pos \<le> n - 1"
      then have "?P (s ! (n - 1))" using nth_mem [of "n - 1" "takeWhile ?P s"] set_takeWhileD takeWhile_nth [of "n - 1" ?P s] by fastforce
      then show False using worse(2) by (simp add: f32_le_def)
    qed
    have tw: "takeWhile ?P (take (n - 1) s) = take ?pos s"
    proof -
      have "takeWhile ?P (take (n - 1) s) = take (n - 1) (takeWhile ?P s)" by (rule takeWhile_of_take)
      then show ?thesis using pos by (simp add: takeWhile_eq_take [symmetric])
    qed
    have b: "butlast (take n s) = take (n - 1) s" using worse(1) by (simp add: butlast_take)
    have "keep_top n (take n s) x = insert_after x (take (n - 1) s)"
      using worse assms(1) by (simp add: keep_top_def insert_top_after b)
    also have "\<dots> = take ?pos s @ x # drop ?pos (take (n - 1) s)"
      using tw pl pos by (simp add: insert_after_split dropWhile_eq_drop min_def)
    also have "\<dots> = take n (insert_after x s)"
      using pos pl assms(1) by (simp add: ins drop_take take_Cons' min_def)
    finally show ?thesis .
  next
    case better
    have "?P (s ! i)" if "i < n" for i
    proof -
      have "\<not> f32_lt (snd (s ! i)) (snd (s ! (n - 1)))"
        using sorted_wrt_nth_less [OF assms(4), of i "n - 1"] that better(1) by (cases "i = n - 1") auto
      then have "\<not> f32_lt (snd (s ! i)) (snd x)"
        using f32_not_lt_trans [of "snd (s ! i)" "snd (s ! (n - 1))" "snd x"] better assms(1,3) by auto
      then show ?thesis using assms(2,3) that better(1) by (simp add: f32_cases_le)
    qed
    then have "n \<le> ?pos" using better(1) by (intro length_takeWhile_less_P_nth) auto
    then show ?thesis using better pl assms(1) by (simp add: keep_top_def ins)
  qed
qed

lemma foldl_keep_top:
  assumes "0 < n" "\<forall>z \<in> set xs. snd z \<noteq> NaN"
  shows "foldl (keep_top n) [] xs = take n (sort_desc snd xs)"
  using assms(2)
proof (induction xs rule: rev_induct)
  case Nil
  show ?case by (simp add: sort_desc_def)
next
  case (snoc x xs)
  have "foldl (keep_top n) [] (xs @ [x]) = keep_top n (take n (sort_desc snd xs)) x" using snoc by simp
  also have "\<dots> = take n (insert_after x (sort_desc snd xs))"
    using snoc.prems sort_desc_sorted [of xs snd] by (intro keep_top_take) (auto simp: assms(1))
  also have "\<dots> = take n (sort_desc snd (xs @ [x]))" using sort_desc_snoc [OF snoc.prems] by simp
  finally show ?case .
qed

text \<open>
  The bounded list of alternatives, kept by insertion while scanning the vocabulary, is what a full stable sort would give: the
  \<open>top_n\<close> (at most 20) largest log-probabilities in descending order, the smaller token id first among equal ones.
\<close>

theorem top_logprobs_exact:
  assumes "\<forall>l \<in> set logits. f_sub m l (log_sum_exp m logits) \<noteq> NaN"
  shows "top_logprobs m n logits =
    take n (sort_desc snd (map (\<lambda>i. (u32_of i, f_sub m (logits ! i) (log_sum_exp m logits))) [0 ..< length logits]))"
proof (cases "n = 0")
  case False
  have "\<forall>z \<in> set (map (\<lambda>i. (u32_of i, f_sub m (logits ! i) (log_sum_exp m logits))) [0 ..< length logits]). snd z \<noteq> NaN"
    using assms by auto
  then show ?thesis using False by (simp add: top_logprobs_def Let_def foldl_keep_top)
qed (simp add: top_logprobs_def)

definition demo_log :: f32_log where
  "demo_log = f32_math.extend demo_math (f32_log.fields (\<lambda>x. Fin 0))"

lemma demo_log_simps: "f_sub demo_log (Fin a) (Fin b) = Fin (a - b)" "f_add demo_log (Fin a) (Fin b) = Fin (a + b)" "f_ln demo_log x = Fin 0"
  by (simp_all add: demo_log_def demo_math_def f32_math.extend_def f32_log.fields_def)

lemma demo_lse: "log_sum_exp demo_log [Fin 1, Fin 3, Fin 2] = Fin 3"
  by (simp add: log_sum_exp_def Let_def f32_max_def demo_log_simps)

theorem top_logprobs_exact_witness:
  "top_logprobs demo_log 2 [Fin 1, Fin 3, Fin 2] = [(1, Fin 0), (2, Fin (-1))]"
proof -
  have u: "[0 ..< length [Fin 1, Fin 3, Fin 2]] = [0, 1, 2]" by (simp add: upt_rec)
  show ?thesis
    by (subst top_logprobs_exact, simp add: demo_lse demo_log_simps, unfold u)
      (simp add: demo_lse demo_log_simps sort_desc_def u32_of_def)
qed

end
