(* ===== verification/Q4kRepack.thy ===== *)
theory Q4kRepack
  imports Sampling
begin

text \<open>
  The 4-bit weight layout of the CPU back end (\<^verbatim>\<open>src/backend/candle/q4k_repack.rs\<close>): eight rows of 256
  weights interleaved for the vector kernels, the way back, and the decoding of half precision scales.  Arrays are
  lists with their length in \<open>block_ok\<close>; bytes are 8-bit words, \<^verbatim>\<open>f16\<close> values their 16-bit patterns and
  \<^verbatim>\<open>f32::from_bits\<close> gives the rational a pattern stands for.
\<close>

unbundle bit_operations_syntax

type_synonym u8 = "8 word"
type_synonym u16 = "16 word"
type_synonym u32 = "32 word"

definition qk_k :: nat where "qk_k = 256"
definition k_scale_size :: nat where "k_scale_size = 12"
definition block_interleave :: nat where "block_interleave = 8"

record block_q4k =
  bk_d :: u16
  bk_dmin :: u16
  bk_scales :: "u8 list"
  bk_qs :: "u8 list"

record block_q4kx8 =
  bx_d :: "u16 list"
  bx_dmin :: "u16 list"
  bx_scales :: "u8 list"
  bx_qs :: "u8 list"

definition block_ok :: "block_q4k \<Rightarrow> bool" where
  "block_ok b = (length (bk_scales b) = k_scale_size \<and> length (bk_qs b) = qk_k div 2)"

definition blocks_ok :: "block_q4k list \<Rightarrow> bool" where
  "blocks_ok bs = (length bs = 8 \<and> (\<forall>b \<in> set bs. block_ok b))"

section \<open>Repacking\<close>

definition pack_row :: "u8 list \<Rightarrow> u8 list \<Rightarrow> u8 list" where
  "pack_row s m =
    map (\<lambda>k. (s ! k AND 63) OR push_bit 2 (s ! (k + 4) AND 48)) [0 ..< 4] @
    map (\<lambda>k. (m ! k AND 63) OR push_bit 2 (m ! (k + 4) AND 48)) [0 ..< 4] @
    map (\<lambda>k. (s ! (k + 4) AND 15) OR push_bit 4 (m ! (k + 4) AND 15)) [0 ..< 4]"

definition low_half :: "block_q4k list \<Rightarrow> nat \<Rightarrow> u8 list" where
  "low_half input i =
    pack_row (map (\<lambda>b. bk_scales b ! i AND 63) input) (map (\<lambda>b. bk_scales b ! (i + 4) AND 63) input)"

definition high_half :: "block_q4k list \<Rightarrow> nat \<Rightarrow> u8 list" where
  "high_half input i =
    pack_row
      (map (\<lambda>b. drop_bit 2 (bk_scales b ! i AND 192) OR (bk_scales b ! (i + 8) AND 15)) input)
      (map (\<lambda>b. drop_bit 2 (bk_scales b ! (i + 4) AND 192) OR drop_bit 4 (bk_scales b ! (i + 8) AND 240)) input)"

definition repack_q4_k_to_q4_kx8 :: "block_q4k list \<Rightarrow> block_q4kx8" where
  "repack_q4_k_to_q4_kx8 input =
    \<lparr>bx_d = map bk_d input,
     bx_dmin = map bk_dmin input,
     bx_scales = concat (map (low_half input) [0 ..< 4]) @ concat (map (high_half input) [0 ..< 4]),
     bx_qs = concat (map (\<lambda>i.
       let src_offset = i div 8 * block_interleave
       in subslice (bk_qs (input ! (i mod 8))) src_offset (src_offset + block_interleave)) [0 ..< qk_k * 4 div block_interleave])\<rparr>"

section \<open>The way back\<close>

text \<open>\<^verbatim>\<open>dst[off..off + src.len()].copy_from_slice(src)\<close>.\<close>

definition copy_slice :: "'a list \<Rightarrow> nat \<Rightarrow> 'a list \<Rightarrow> 'a list" where
  "copy_slice dst off src = take off dst @ src @ drop (off + length src) dst"

definition unpack_row :: "u8 list \<Rightarrow> nat \<Rightarrow> u8 list \<times> u8 list" where
  "unpack_row scales row_off =
    (map (\<lambda>r. scales ! (row_off + r) AND 0x3F) [0 ..< 4] @
     map (\<lambda>r. drop_bit 2 (scales ! (row_off + (r - 4)) AND 0xC0) OR (scales ! (row_off + 8 + (r - 4)) AND 0x0F)) [4 ..< 8],
     map (\<lambda>r. scales ! (row_off + 4 + r) AND 0x3F) [0 ..< 4] @
     map (\<lambda>r. drop_bit 2 (scales ! (row_off + 4 + (r - 4)) AND 0xC0) OR
       drop_bit 4 (scales ! (row_off + 8 + (r - 4)) AND 0xF0)) [4 ..< 8])"

definition write_scale :: "nat \<Rightarrow> u8 \<Rightarrow> u8 \<Rightarrow> u8 list \<Rightarrow> u8 list" where
  "write_scale sb ls lm out =
    (if sb < 4 then
       (let out1 = out[sb := (out ! sb AND 0xC0) OR (ls AND 0x3F)]
        in out1[sb + 4 := (out1 ! (sb + 4) AND 0xC0) OR (lm AND 0x3F)])
     else
       (let out1 = out[sb + 4 := (ls AND 0x0F) OR push_bit 4 (lm AND 0x0F)];
            out2 = out1[sb - 4 := (out1 ! (sb - 4) AND 0x3F) OR push_bit 6 (drop_bit 4 ls)]
        in out2[sb := (out2 ! sb AND 0x3F) OR push_bit 6 (drop_bit 4 lm)]))"

definition halves :: "(nat \<times> nat) list" where
  "halves = concat (map (\<lambda>(sb_base, byte_base). map (\<lambda>i. (sb_base + i, byte_base + i * 12)) [0 ..< 4]) [(0, 0), (4, 48)])"

definition unpack_scales :: "u8 list \<Rightarrow> u8 list list" where
  "unpack_scales scales =
    fold (\<lambda>(sb, row_off) out.
      let (s, m) = unpack_row scales row_off
      in map (\<lambda>r. write_scale sb (s ! r) (m ! r) (out ! r)) [0 ..< 8]) halves (replicate 8 (replicate k_scale_size 0))"

definition unpack_qs :: "u8 list \<Rightarrow> u8 list list" where
  "unpack_qs qs =
    fold (\<lambda>i out.
      let dst_offset = i * block_interleave
      in out[i mod 8 := copy_slice (out ! (i mod 8)) (i div 8 * block_interleave)
           (subslice qs dst_offset (dst_offset + block_interleave))])
      [0 ..< qk_k * 4 div block_interleave] (replicate 8 (replicate (qk_k div 2) 0))"

definition reverse_repack_q4_kx8 :: "block_q4kx8 \<Rightarrow> block_q4k list" where
  "reverse_repack_q4_kx8 rp =
    (let scales = unpack_scales (bx_scales rp); qs = unpack_qs (bx_qs rp)
     in map (\<lambda>r. \<lparr>bk_d = bx_d rp ! r, bk_dmin = bx_dmin rp ! r, bk_scales = scales ! r, bk_qs = qs ! r\<rparr>) [0 ..< 8])"

section \<open>Half precision\<close>

text \<open>The loop that normalises a subnormal; it does not end for the pattern 0, which the caller excludes.\<close>

partial_function (option) renormalise :: "u32 \<Rightarrow> int \<Rightarrow> (u32 \<times> int) option" where
  "renormalise m e = (if m AND 0x400 = 0 then renormalise (push_bit 1 m) (e - 1) else Some (m, e))"

definition f32_bits :: "u16 \<Rightarrow> u32 option" where
  "f32_bits bits =
    (let sign = ucast (drop_bit 15 bits AND 1) :: u32;
         exponent = drop_bit 10 bits AND 0x1F;
         frac = bits AND 0x3FF
     in if exponent = 0 then
          (if frac = 0 then Some (push_bit 31 sign)
           else (case renormalise (ucast frac) (- 14) of None \<Rightarrow> None
                 | Some (m, e) \<Rightarrow> Some (push_bit 31 sign OR push_bit 23 (word_of_int (e + 127)) OR push_bit 13 (m AND 0x3FF))))
        else if exponent = 0x1F then Some (push_bit 31 sign OR push_bit 23 0xFF OR push_bit 13 (ucast frac))
        else Some (push_bit 31 sign OR push_bit 23 (word_of_int (uint exponent - 15 + 127)) OR push_bit 13 (ucast frac)))"

text \<open>\<^verbatim>\<open>f32::from_bits\<close>: the value of an IEEE 754 binary32 pattern.\<close>

definition f32_from_bits :: "u32 \<Rightarrow> f32" where
  "f32_from_bits w =
    (let e = unat (drop_bit 23 w AND 0xFF); f = unat (w AND 0x7FFFFF); s = (if bit w 31 then -1 else 1)
     in if e = 255 then (if f \<noteq> 0 then NaN else if bit w 31 then NegInf else PosInf)
        else if e = 0 then Fin (s * of_nat f / 2 ^ 149)
        else Fin (s * of_nat (2 ^ 23 + f) * 2 ^ e / 2 ^ 150))"

definition f16_to_f32 :: "u16 \<Rightarrow> f32 option" where
  "f16_to_f32 bits = map_option f32_from_bits (f32_bits bits)"

text \<open>The value of a binary16 pattern, as IEEE 754 defines it.\<close>

definition f16_value :: "u16 \<Rightarrow> f32" where
  "f16_value w =
    (let e = unat w div 2 ^ 10 mod 2 ^ 5; f = unat w mod 2 ^ 10; s = (if bit w 15 then -1 else 1)
     in if e = 31 then (if f \<noteq> 0 then NaN else if bit w 15 then NegInf else PosInf)
        else if e = 0 then Fin (s * of_nat f / 2 ^ 24)
        else Fin (s * of_nat (2 ^ 10 + f) * 2 ^ e / 2 ^ 25))"

section \<open>Sub-block scales\<close>

definition decode_q4k_scale_min :: "nat \<Rightarrow> u8 list \<Rightarrow> u8 \<times> u8" where
  "decode_q4k_scale_min j scales =
    (if j < 4 then (scales ! j AND 0x3F, scales ! (j + 4) AND 0x3F)
     else
       (let sc_lo = scales ! (j + 4) AND 0x0F;
            sc_hi = drop_bit 2 (scales ! (j - 4) AND 0xC0);
            mn_lo = drop_bit 4 (scales ! (j + 4) AND 0xF0);
            mn_hi = drop_bit 2 (scales ! j AND 0xC0)
        in (sc_hi OR sc_lo, mn_hi OR mn_lo)))"

section \<open>The repacking loses nothing\<close>

lemma below8: "n < 8 \<Longrightarrow> P 0 \<Longrightarrow> P 1 \<Longrightarrow> P 2 \<Longrightarrow> P 3 \<Longrightarrow> P 4 \<Longrightarrow> P 5 \<Longrightarrow> P 6 \<Longrightarrow> P 7 \<Longrightarrow> P (n::nat)"
  by (auto simp: numeral_eq_Suc less_Suc_eq)

lemma u8_eqI:
  "bit x 0 = bit y 0 \<Longrightarrow> bit x 1 = bit y 1 \<Longrightarrow> bit x 2 = bit y 2 \<Longrightarrow> bit x 3 = bit y 3 \<Longrightarrow>
   bit x 4 = bit y 4 \<Longrightarrow> bit x 5 = bit y 5 \<Longrightarrow> bit x 6 = bit y 6 \<Longrightarrow> bit x 7 = bit y 7 \<Longrightarrow> x = (y :: u8)"
  by (rule bit_word_eqI) (simp, erule below8, simp_all)

lemma pack_bits:
  "((x AND 63) OR push_bit 2 (y AND 48)) AND 63 = x AND (63 :: u8)"
  "drop_bit 2 (((x AND 63) OR push_bit 2 (y AND 48)) AND 192) OR ((y AND 15) OR push_bit 4 (z AND 15)) AND 15 = y AND (63 :: u8)"
  "drop_bit 2 (((x AND 63) OR push_bit 2 (y AND 48)) AND 192) OR drop_bit 4 (((z AND 15) OR push_bit 4 (y AND 15)) AND 240) = y AND (63 :: u8)"
  by (rule u8_eqI; simp add: bit_simps)+

lemma scale_bits:
  "(x AND 63) AND 63 = x AND (63 :: u8)"
  "(drop_bit 2 (x AND 192) OR (y AND 15)) AND 63 = drop_bit 2 (x AND 192) OR (y AND (15 :: u8))"
  "(drop_bit 2 (x AND 192) OR drop_bit 4 (y AND 240)) AND 63 = drop_bit 2 (x AND 192) OR drop_bit 4 (y AND (240 :: u8))"
  "(x AND 63) OR push_bit 6 (drop_bit 4 (drop_bit 2 (x AND 192) OR (y AND 15))) = (x :: u8)"
  "(x AND 63) OR push_bit 6 (drop_bit 4 (drop_bit 2 (x AND 192) OR drop_bit 4 (y AND 240))) = (x :: u8)"
  "(drop_bit 2 (x AND 192) OR (y AND 15)) AND 15 OR push_bit 4 ((drop_bit 2 (z AND 192) OR drop_bit 4 (y AND 240)) AND 15) = (y :: u8)"
  by (rule u8_eqI; simp add: bit_simps)+

lemmas keep_shifts = push_bit_and push_bit_or drop_bit_and drop_bit_or

lemma upt_small: "[0 ..< 4] = [0, 1, 2, 3]" "[4 ..< 8] = [4, 5, 6, 7]" "[0 ..< 8] = [0, 1, 2, 3, 4, 5, 6, 7]"
  by (simp_all add: upt_rec)

lemma unpack_pack:
  assumes "\<And>k. k < 12 \<Longrightarrow> scales ! (off + k) = pack_row s m ! k"
  shows "unpack_row scales off = (map (\<lambda>r. s ! r AND 63) [0 ..< 8], map (\<lambda>r. m ! r AND 63) [0 ..< 8])"
proof -
  have row: "pack_row s m =
    [(s ! 0 AND 63) OR push_bit 2 (s ! 4 AND 48), (s ! 1 AND 63) OR push_bit 2 (s ! 5 AND 48),
     (s ! 2 AND 63) OR push_bit 2 (s ! 6 AND 48), (s ! 3 AND 63) OR push_bit 2 (s ! 7 AND 48),
     (m ! 0 AND 63) OR push_bit 2 (m ! 4 AND 48), (m ! 1 AND 63) OR push_bit 2 (m ! 5 AND 48),
     (m ! 2 AND 63) OR push_bit 2 (m ! 6 AND 48), (m ! 3 AND 63) OR push_bit 2 (m ! 7 AND 48),
     (s ! 4 AND 15) OR push_bit 4 (m ! 4 AND 15), (s ! 5 AND 15) OR push_bit 4 (m ! 5 AND 15),
     (s ! 6 AND 15) OR push_bit 4 (m ! 6 AND 15), (s ! 7 AND 15) OR push_bit 4 (m ! 7 AND 15)]"
    by (simp add: pack_row_def upt_small numeral_eq_Suc)
  have at: "scales ! off = pack_row s m ! 0" "scales ! Suc off = pack_row s m ! 1" using assms [of 0] assms [of 1] by simp_all
  note at' = at assms [of 2, simplified] assms [of 3, simplified] assms [of 4, simplified] assms [of 5, simplified] assms [of 6, simplified]
    assms [of 7, simplified] assms [of 8, simplified] assms [of 9, simplified] assms [of 10, simplified] assms [of 11, simplified]
  show ?thesis
    unfolding unpack_row_def upt_small using at'
    by (simp add: row add.assoc pack_bits del: keep_shifts)
qed

lemma fold_pointwise:
  "length out = n \<Longrightarrow> fold (\<lambda>x out. map (\<lambda>r. f x r (out ! r)) [0 ..< n]) xs out = map (\<lambda>r. fold (\<lambda>x. f x r) xs (out ! r)) [0 ..< n]"
proof (induction xs arbitrary: out)
  case Nil
  then show ?case by (auto intro: nth_equalityI)
next
  case (Cons x xs)
  then show ?case by simp
qed

lemma write_decoded:
  assumes "length b = 12"
  shows "fold (\<lambda>sb. write_scale sb (fst (decode_q4k_scale_min sb b)) (snd (decode_q4k_scale_min sb b))) [0 ..< 8] (replicate 12 0) = b"
proof -
  obtain b0 b1 b2 b3 b4 b5 b6 b7 b8 b9 b10 b11 where b: "b = [b0, b1, b2, b3, b4, b5, b6, b7, b8, b9, b10, b11]"
    using assms by (auto simp: numeral_eq_Suc length_Suc_conv)
  have "replicate 12 (0 :: u8) = [0, 0, 0, 0, 0, 0, 0, 0, 0, 0, 0, 0]" by (simp add: numeral_eq_Suc)
  then show ?thesis unfolding b upt_small
    by (simp add: write_scale_def decode_q4k_scale_min_def Let_def scale_bits del: keep_shifts)
qed

lemma halves_eq: "halves = map (\<lambda>sb. (sb, sb * 12)) [0 ..< 8]"
  by (simp add: halves_def upt_small)

lemma repack_scales:
  assumes "length ins = 8"
  shows "bx_scales (repack_q4_k_to_q4_kx8 ins) =
    concat (map (\<lambda>sb. pack_row (map (\<lambda>b. fst (decode_q4k_scale_min sb (bk_scales b))) ins)
      (map (\<lambda>b. snd (decode_q4k_scale_min sb (bk_scales b))) ins)) [0 ..< 8])"
  by (simp add: repack_q4_k_to_q4_kx8_def low_half_def high_half_def decode_q4k_scale_min_def upt_small Let_def)

lemma length_pack_row [simp]: "length (pack_row s m) = 12"
  by (simp add: pack_row_def)

lemma decode_six:
  "fst (decode_q4k_scale_min sb b) AND 63 = fst (decode_q4k_scale_min sb b)"
  "snd (decode_q4k_scale_min sb b) AND 63 = snd (decode_q4k_scale_min sb b)"
  by (simp_all add: decode_q4k_scale_min_def Let_def scale_bits del: keep_shifts)

lemma unpack_row_repacked:
  assumes "length ins = 8" "sb < 8"
  shows "unpack_row (bx_scales (repack_q4_k_to_q4_kx8 ins)) (sb * 12) =
    (map (\<lambda>r. fst (decode_q4k_scale_min sb (bk_scales (ins ! r)))) [0 ..< 8],
     map (\<lambda>r. snd (decode_q4k_scale_min sb (bk_scales (ins ! r)))) [0 ..< 8])"
proof -
  let ?s = "map (\<lambda>b. fst (decode_q4k_scale_min sb (bk_scales b))) ins" and ?m = "map (\<lambda>b. snd (decode_q4k_scale_min sb (bk_scales b))) ins"
  have "unpack_row (bx_scales (repack_q4_k_to_q4_kx8 ins)) (sb * 12) = (map (\<lambda>r. ?s ! r AND 63) [0 ..< 8], map (\<lambda>r. ?m ! r AND 63) [0 ..< 8])"
  proof (rule unpack_pack)
    fix k :: nat
    assume k: "k < 12"
    have "sb * 12 + k < 8 * 12" using assms(2) k by linarith
    then show "bx_scales (repack_q4_k_to_q4_kx8 ins) ! (sb * 12 + k) = pack_row ?s ?m ! k"
      unfolding repack_scales [OF assms(1)] using assms(2) k by (subst nth_concat_blocks [where n = 12]) simp_all
  qed
  then show ?thesis using assms(1) by (simp add: decode_six)
qed

lemma unpack_scales_repacked:
  assumes "blocks_ok ins"
  shows "unpack_scales (bx_scales (repack_q4_k_to_q4_kx8 ins)) = map bk_scales ins"
proof -
  let ?dec = "\<lambda>sb r. decode_q4k_scale_min sb (bk_scales (ins ! r))"
  have len: "length ins = 8" using assms by (simp add: blocks_ok_def)
  have "unpack_scales (bx_scales (repack_q4_k_to_q4_kx8 ins)) =
    fold (\<lambda>sb out. map (\<lambda>r. write_scale sb (fst (?dec sb r)) (snd (?dec sb r)) (out ! r)) [0 ..< 8]) [0 ..< 8] (replicate 8 (replicate 12 0))"
    unfolding unpack_scales_def halves_eq fold_map k_scale_size_def
    by (rule fold_cong) (auto simp: unpack_row_repacked [OF len])
  also have "\<dots> = map (\<lambda>r. bk_scales (ins ! r)) [0 ..< 8]"
    using assms by (subst fold_pointwise) (auto simp: blocks_ok_def block_ok_def k_scale_size_def intro!: write_decoded)
  finally show ?thesis using len by (metis (no_types, lifting) map_map map_nth comp_def map_eq_conv)
qed

lemma copy_slice_append: "length a = off \<Longrightarrow> copy_slice (a @ b) off src = a @ src @ drop (length src) b"
  by (simp add: copy_slice_def)

lemma round_robin_Suc:
  assumes "r < 8"
  shows "(n + 8 - r) div 8 = (if n mod 8 = r then Suc (n div 8) else (n + 7 - r) div 8)"
    and "n mod 8 = r \<Longrightarrow> (n + 7 - r) div 8 = n div 8"
proof -
  define q m where "q = n div 8" and "m = n mod 8"
  have n: "n = q * 8 + m" "m < 8" by (simp_all add: q_def m_def)
  have a: "(q * 8 + k) div 8 = q + k div 8" for k :: nat by simp
  have "n + 8 - r = q * 8 + (m + 8 - r)" "n + 7 - r = q * 8 + (m + 7 - r)" using n assms by simp_all
  then have d: "(n + 8 - r) div 8 = q + (m + 8 - r) div 8" "(n + 7 - r) div 8 = q + (m + 7 - r) div 8" by (simp_all only: a)
  have "(m + 8 - r) div 8 = (if r \<le> m then 1 else 0)" "(m + 7 - r) div 8 = (if r < m then 1 else 0)"
    using n(2) assms by (auto simp: div_eq_dividend_iff intro!: div_nat_eqI)
  then show "(n + 8 - r) div 8 = (if n mod 8 = r then Suc (n div 8) else (n + 7 - r) div 8)"
    and "n mod 8 = r \<Longrightarrow> (n + 7 - r) div 8 = n div 8"
    using d by (auto simp: q_def [symmetric] m_def [symmetric])
qed

lemma unpack_qs_prefix:
  assumes "blocks_ok ins" "n \<le> 128" "\<And>i. i < 128 \<Longrightarrow> subslice qs (i * 8) (i * 8 + 8) = subslice (bk_qs (ins ! (i mod 8))) (i div 8 * 8) (i div 8 * 8 + 8)"
  shows "fold (\<lambda>i out. out[i mod 8 := copy_slice (out ! (i mod 8)) (i div 8 * 8) (subslice qs (i * 8) (i * 8 + 8))]) [0 ..< n] (replicate 8 (replicate 128 0)) =
    map (\<lambda>r. let k = (n + 7 - r) div 8 * 8 in take k (bk_qs (ins ! r)) @ replicate (128 - k) 0) [0 ..< 8]"
  using assms(2)
proof (induction n)
  case 0
  show ?case by (rule nth_equalityI) (simp_all add: Let_def)
next
  case (Suc n)
  let ?q = "bk_qs (ins ! (n mod 8))" and ?c = "n div 8 * 8"
  have q: "length ?q = 128" using assms(1) by (auto simp: blocks_ok_def block_ok_def qk_k_def)
  have c: "?c + 8 \<le> 128" using Suc.prems by presburger
  have t: "take (?c + 8) ?q = take ?c ?q @ subslice ?q ?c (?c + 8)" by (simp add: subslice_def take_add)
  have cp: "copy_slice (take ?c ?q @ replicate (128 - ?c) 0) ?c (subslice ?q ?c (?c + 8)) = take (?c + 8) ?q @ replicate (128 - (?c + 8)) 0"
    using q c by (subst copy_slice_append) (simp_all add: t)
  have sl: "subslice qs (n * 8) (n * 8 + 8) = subslice ?q ?c (?c + 8)" using assms(3) [of n] Suc.prems by simp
  have e: "(n + 7 - n mod 8) div 8 = n div 8" by (rule round_robin_Suc(2)) simp_all
  show ?case
  proof (rule nth_equalityI)
    fix r
    assume "r < length (fold (\<lambda>i out. out[i mod 8 := copy_slice (out ! (i mod 8)) (i div 8 * 8) (subslice qs (i * 8) (i * 8 + 8))]) [0 ..< Suc n] (replicate 8 (replicate 128 0)))"
    then have r: "r < 8" using Suc by simp
    show "fold (\<lambda>i out. out[i mod 8 := copy_slice (out ! (i mod 8)) (i div 8 * 8) (subslice qs (i * 8) (i * 8 + 8))]) [0 ..< Suc n] (replicate 8 (replicate 128 0)) ! r =
      map (\<lambda>r. let k = (Suc n + 7 - r) div 8 * 8 in take k (bk_qs (ins ! r)) @ replicate (128 - k) 0) [0 ..< 8] ! r"
    proof (cases "n mod 8 = r")
      case True
      then show ?thesis
        using Suc r cp e sl by (simp add: Let_def round_robin_Suc(1) [OF r] add.commute)
    next
      case False
      then show ?thesis using Suc r by (simp add: Let_def round_robin_Suc(1) [OF r] add.commute)
    qed
  qed (use Suc in simp)
qed

lemma unpack_qs_repacked:
  assumes "blocks_ok ins"
  shows "unpack_qs (bx_qs (repack_q4_k_to_q4_kx8 ins)) = map bk_qs ins"
proof -
  let ?chunk = "\<lambda>i. subslice (bk_qs (ins ! (i mod 8))) (i div 8 * 8) (i div 8 * 8 + 8)"
  have len: "length ins = 8" "\<And>r. r < 8 \<Longrightarrow> length (bk_qs (ins ! r)) = 128"
    using assms by (auto simp: blocks_ok_def block_ok_def qk_k_def)
  have qs: "bx_qs (repack_q4_k_to_q4_kx8 ins) = concat (map ?chunk [0 ..< 128])"
    by (simp add: repack_q4_k_to_q4_kx8_def qk_k_def block_interleave_def Let_def)
  have n: "i div 8 * 8 + 8 \<le> 128" if "i < 128" for i :: nat using that by presburger
  have l8: "length (?chunk i) = 8" if "i < 128" for i using n [OF that] len(2) by simp
  have sl: "subslice (bx_qs (repack_q4_k_to_q4_kx8 ins)) (i * 8) (i * 8 + 8) = ?chunk i" if i: "i < 128" for i
  proof (rule nth_equalityI)
    have lc: "length (concat (map ?chunk [0 ..< 128])) = 1024" using l8 by (subst length_concat_blocks [where n = 8]) auto
    show "length (subslice (bx_qs (repack_q4_k_to_q4_kx8 ins)) (i * 8) (i * 8 + 8)) = length (?chunk i)"
      using i l8 [OF i] by (simp add: qs lc)
    fix k
    assume "k < length (subslice (bx_qs (repack_q4_k_to_q4_kx8 ins)) (i * 8) (i * 8 + 8))"
    then have k: "k < 8" using i by (simp add: qs lc)
    have "i * 8 + k < 128 * 8" using i k by linarith
    then have "concat (map ?chunk [0 ..< 128]) ! (i * 8 + k) = ?chunk i ! k"
      using l8 k i by (subst nth_concat_blocks [where n = 8]) auto
    then show "subslice (bx_qs (repack_q4_k_to_q4_kx8 ins)) (i * 8) (i * 8 + 8) ! k = ?chunk i ! k"
      using i k lc by (simp add: qs subslice_def)
  qed
  have "unpack_qs (bx_qs (repack_q4_k_to_q4_kx8 ins)) = map (\<lambda>r. bk_qs (ins ! r)) [0 ..< 8]"
    using unpack_qs_prefix [OF assms order.refl sl] len
    by (simp add: unpack_qs_def qk_k_def block_interleave_def Let_def cong: map_cong)
  then show ?thesis using len(1) by (metis (no_types, lifting) map_map map_nth comp_def map_eq_conv)
qed

lemma reverse_repack_repack:
  assumes "blocks_ok ins"
  shows "reverse_repack_q4_kx8 (repack_q4_k_to_q4_kx8 ins) = ins"
proof -
  have len: "length ins = 8" using assms by (simp add: blocks_ok_def)
  have d: "bx_d (repack_q4_k_to_q4_kx8 ins) = map bk_d ins" "bx_dmin (repack_q4_k_to_q4_kx8 ins) = map bk_dmin ins"
    by (simp_all add: repack_q4_k_to_q4_kx8_def)
  show ?thesis
    by (rule nth_equalityI)
      (simp_all add: reverse_repack_q4_kx8_def unpack_scales_repacked [OF assms] unpack_qs_repacked [OF assms] d len)
qed

section \<open>Half precision is converted exactly\<close>

lemma renormalise_steps:
  "k \<le> 10 \<Longrightarrow> 2 ^ (10 - k) \<le> n \<Longrightarrow> n < 2 ^ (11 - k) \<Longrightarrow>
   renormalise (word_of_nat n) e = Some (word_of_nat (n * 2 ^ k), e - int k)"
proof (induction k arbitrary: n e)
  case 0
  then have n: "1024 \<le> n" "n < 2048" by simp_all
  have "n div 2 ^ 10 = 1" using n by (intro div_nat_eqI) simp_all
  then have "bit n 10" by (simp add: bit_iff_odd)
  then have "bit ((word_of_nat n :: u32) AND 0x400) 10" by (simp add: bit_simps)
  then have "(word_of_nat n :: u32) AND 0x400 \<noteq> 0" by (metis bit_0_eq bot_apply bot_bool_def)
  then show ?case by (subst renormalise.simps) simp
next
  case (Suc k)
  have le: "k \<le> 10" "(2::nat) ^ (10 - k) = 2 * 2 ^ (10 - Suc k)" "(2::nat) ^ (11 - k) = 2 * 2 ^ (11 - Suc k)"
    using Suc.prems(1) by (simp_all flip: power_Suc add: Suc_diff_Suc Suc_diff_le)
  have "n < 2 ^ 10" using Suc.prems(3) power_increasing [of "11 - Suc k" 10 "2::nat"] by simp
  then have "\<not> bit n 10" by (simp add: bit_iff_odd)
  have z: "(word_of_nat n :: u32) AND 0x400 = 0"
  proof (rule bit_word_eqI)
    fix i
    have "(0x400 :: u32) = push_bit 10 1" by (simp add: push_bit_eq_mult)
    then have "bit (0x400 :: u32) i \<Longrightarrow> i = 10" by (simp only: bit_push_bit_iff bit_1_iff) simp
    then show "bit ((word_of_nat n :: u32) AND 0x400) i = bit 0 i" using \<open>\<not> bit n 10\<close> by (auto simp: bit_simps)
  qed
  have "push_bit 1 (word_of_nat n :: u32) = word_of_nat (n * 2)" by (simp add: push_bit_eq_mult)
  then have "renormalise (word_of_nat n) e = renormalise (word_of_nat (n * 2)) (e - 1)"
    using z by (subst renormalise.simps) simp
  also have "\<dots> = Some (word_of_nat (n * 2 * 2 ^ k), e - 1 - int k)"
    using Suc.prems le by (intro Suc.IH) simp_all
  finally show ?case by (simp add: algebra_simps)
qed

text \<open>The three fields of a pattern that was put together from its sign, its exponent and its fraction.\<close>

lemma f32_fields:
  fixes e f :: nat and s :: u32
  assumes "s = 0 \<or> s = 1" "e < 256" "f < 2 ^ 23"
  shows "bit (push_bit 31 s OR push_bit 23 (word_of_nat e) OR word_of_nat f :: u32) 31 = (s = 1)"
    and "unat (drop_bit 23 (push_bit 31 s OR push_bit 23 (word_of_nat e) OR word_of_nat f :: u32) AND 0xFF) = e"
    and "unat ((push_bit 31 s OR push_bit 23 (word_of_nat e) OR word_of_nat f :: u32) AND 0x7FFFFF) = f"
proof -
  let ?w = "push_bit 31 s OR push_bit 23 (word_of_nat e) OR word_of_nat f :: u32"
  have be: "\<not> bit e n" if "8 \<le> n" for n
    using assms(2) power_increasing [OF that, of "2::nat"] by (simp add: bit_iff_odd)
  have bf: "\<not> bit f n" if "23 \<le> n" for n
    using assms(3) power_increasing [OF that, of "2::nat"] by (simp add: bit_iff_odd)
  have bs: "bit s n = (s = 1 \<and> n = 0)" for n using assms(1) by (auto simp: bit_simps)
  have "(0xFF :: u32) = mask 8" "(0x7FFFFF :: u32) = mask 23" by (simp_all add: mask_eq_exp_minus_1)
  then have m: "x AND 0xFF = take_bit 8 x" "x AND 0x7FFFFF = take_bit 23 x" for x :: u32 by (simp_all only: take_bit_eq_mask)
  show "bit ?w 31 = (s = 1)" using be [of 8] bf [of 31] by (auto simp: bit_simps bs)
  have "take_bit 8 (drop_bit 23 ?w) = word_of_nat e"
  proof (rule bit_word_eqI)
    fix n
    assume "n < LENGTH(32)"
    then show "bit (take_bit 8 (drop_bit 23 ?w)) n = bit (word_of_nat e :: u32) n"
      using be [of n] bf [of "n + 23"] by (cases "n < 8") (auto simp: bit_simps bs add.commute)
  qed
  then show "unat (drop_bit 23 ?w AND 0xFF) = e" using assms(2) by (simp only: m) (simp add: unat_of_nat)
  have "take_bit 23 ?w = word_of_nat f"
  proof (rule bit_word_eqI)
    fix n
    assume "n < LENGTH(32)"
    then show "bit (take_bit 23 ?w) n = bit (word_of_nat f :: u32) n"
      using bf [of n] by (cases "n < 23") (auto simp: bit_simps bs)
  qed
  then show "unat (?w AND 0x7FFFFF) = f" using assms(3) by (simp only: m) (simp add: unat_of_nat)
qed

lemma f16_fields:
  fixes b :: u16
  shows "unat (drop_bit 10 b AND 0x1F) = unat b div 2 ^ 10 mod 2 ^ 5" "unat (b AND 0x3FF) = unat b mod 2 ^ 10"
    "(ucast (drop_bit 15 b AND 1) :: u32) = (if bit b 15 then 1 else 0)"
proof -
  have "(0x1F :: u16) = mask 5" "(0x3FF :: u16) = mask 10" by (simp_all add: mask_eq_exp_minus_1)
  then have "drop_bit 10 b AND 0x1F = take_bit 5 (drop_bit 10 b)" "b AND 0x3FF = take_bit 10 b"
    by (simp_all only: take_bit_eq_mask)
  then show "unat (drop_bit 10 b AND 0x1F) = unat b div 2 ^ 10 mod 2 ^ 5" "unat (b AND 0x3FF) = unat b mod 2 ^ 10"
    by (simp_all only: unsigned_take_bit_eq unat_drop_bit_eq) (simp_all only: take_bit_eq_mod drop_bit_eq_div)
  show "(ucast (drop_bit 15 b AND 1) :: u32) = (if bit b 15 then 1 else 0)"
  proof (rule bit_word_eqI)
    fix n
    show "bit (ucast (drop_bit 15 b AND 1) :: u32) n = bit (if bit b 15 then 1 else 0 :: u32) n"
      by (cases n) (auto simp: bit_simps)
  qed
qed

lemma unat_inv: "word_of_nat (unat w) = w"
  by simp

lemma fields_value:
  assumes "e < 255" "0 < e" "f < 2 ^ 23" "s = (if bit b 15 then 1 else (0 :: u32))"
  shows "f32_from_bits (push_bit 31 s OR push_bit 23 (word_of_nat e) OR word_of_nat f) =
    Fin ((if bit b 15 then -1 else 1) * of_nat (2 ^ 23 + f) * 2 ^ e / 2 ^ 150)"
proof -
  have "s = 0 \<or> s = 1" "e < 256" using assms by auto
  note F = f32_fields [OF this assms(3)]
  show ?thesis unfolding f32_from_bits_def F Let_def using assms by simp
qed

lemma f16_to_f32_correct: "f16_to_f32 b = Some (f16_value b)"
proof -
  let ?s = "if bit b 15 then 1 else (0 :: u32)" and ?sg = "if bit b 15 then -1 else (1 :: rat)"
  define e f where ef: "e = unat b div 2 ^ 10 mod 2 ^ 5" "f = unat b mod 2 ^ 10"
  have e: "drop_bit 10 b AND 0x1F = word_of_nat e" "e < 32" and f: "b AND 0x3FF = word_of_nat f" "f < 1024"
    unfolding ef f16_fields(1,2) [symmetric] by (simp_all only: unat_inv) (simp_all add: f16_fields)
  have e0: "(word_of_nat e :: u16) = word_of_nat k \<longleftrightarrow> e = k" if "k < 32" for k
    using e(2) that by (simp add: word_unat_eq_iff unat_of_nat)
  have f0: "(word_of_nat f :: u16) = 0 \<longleftrightarrow> f = 0" "(ucast (word_of_nat f :: u16) :: u32) = word_of_nat f"
    using f(2) by (simp_all add: word_unat_eq_iff unat_of_nat unsigned_ucast_eq take_bit_nat_eq_self)
  have pf: "push_bit 13 (word_of_nat k :: u32) = word_of_nat (k * 2 ^ 13)" for k by (simp add: push_bit_eq_mult)
  have fv: "f16_value b = (if e = 31 then (if f \<noteq> 0 then NaN else if bit b 15 then NegInf else PosInf)
    else if e = 0 then Fin (?sg * of_nat f / 2 ^ 24) else Fin (?sg * of_nat (2 ^ 10 + f) * 2 ^ e / 2 ^ 25))"
    by (simp only: f16_value_def Let_def ef)
  note V = f16_to_f32_def f32_bits_def f16_fields(3) e(1) f(1) f0 Let_def pf
  consider "e = 0" "f = 0" | "e = 0" "0 < f" | "e = 31" | "0 < e" "e < 31" using e(2) by linarith
  then show ?thesis
  proof cases
    case 1
    have "f32_from_bits (push_bit 31 ?s) = Fin 0" using f32_fields [of ?s 0 0] by (simp add: f32_from_bits_def)
    then show ?thesis using 1 by (simp add: V fv)
  next
    case 2
    obtain j where j: "2 ^ j \<le> f" "f < 2 ^ (j + 1)" using ex_power_ivl1 [of 2 f] 2 by auto
    have "(2::nat) ^ j < 2 ^ 10" using j(1) f(2) by simp
    then have j9: "j \<le> 9" using power_less_imp_less_exp [of "2::nat" j 10] by simp
    define k where "k = 10 - j"
    have k: "k \<le> 10" "10 - k = j" "11 - k = j + 1" using j9 by (simp_all add: k_def)
    define g where "g = f * 2 ^ k"
    have r: "renormalise (word_of_nat f) (- 14) = Some (word_of_nat (g), - 14 - int k)"
      unfolding g_def by (rule renormalise_steps) (use j k in simp_all)
    have p10: "(2::nat) ^ j * 2 ^ k = 1024" "(2::nat) ^ (j + 1) * 2 ^ k = 2048"
      using j9 by (simp_all add: k_def flip: power_add)
    have fk: "1024 \<le> g" "g < 2048"
      using mult_le_mono1 [OF j(1), of "2 ^ k"] mult_less_mono1 [OF j(2), of "2 ^ k"] unfolding p10 g_def [symmetric] by simp_all
    have "(0x3FF :: u32) = mask 10" by (simp add: mask_eq_exp_minus_1)
    then have "(word_of_nat (g) :: u32) AND 0x3FF = take_bit 10 (word_of_nat (g))" by (simp only: take_bit_eq_mask)
    also have "\<dots> = word_of_nat (g - 1024)"
    proof -
      have "unat (take_bit 10 (word_of_nat g :: u32)) = g mod 1024"
        by (simp only: unsigned_take_bit_eq unat_of_nat) (use fk in \<open>simp add: take_bit_eq_mod\<close>)
      also have "\<dots> = g - 1024" using fk by (simp add: le_mod_geq)
      also have "\<dots> = unat (word_of_nat (g - 1024) :: u32)" by (simp only: unat_of_nat) (use fk in simp)
      finally show ?thesis by (simp only: word_unat_eq_iff)
    qed
    finally have m: "(word_of_nat (g) :: u32) AND 0x3FF = word_of_nat (g - 1024)" .
    have "- 14 - int k + 127 = int (113 - k)" using k(1) by (simp add: of_nat_diff)
    then have x: "word_of_int (- 14 - int k + 127) = (word_of_nat (113 - k) :: u32)" by (simp only: of_int_of_nat_eq)
    have "f32_from_bits (push_bit 31 ?s OR push_bit 23 (word_of_nat (113 - k)) OR word_of_nat ((g - 1024) * 2 ^ 13)) =
      Fin (?sg * of_nat (2 ^ 23 + (g - 1024) * 2 ^ 13) * 2 ^ (113 - k) / 2 ^ 150)"
      using k(1) fk(2) by (intro fields_value) auto
    also have "2 ^ 23 + (g - 1024) * 2 ^ 13 = f * 2 ^ (k + 13)"
      using fk(1) by (simp add: diff_mult_distrib power_add mult.assoc) (simp add: g_def)
    also have "?sg * of_nat (f * 2 ^ (k + 13)) * 2 ^ (113 - k) / 2 ^ 150 = ?sg * of_nat f / (2 ^ 24 :: rat)"
    proof -
      have "(2::rat) ^ (k + 13) * 2 ^ (113 - k) = 2 ^ 126" unfolding power_add [symmetric] using k(1) by simp
      moreover have "?sg * of_nat (f * 2 ^ (k + 13)) * 2 ^ (113 - k) = ?sg * of_nat f * (2 ^ (k + 13) * 2 ^ (113 - k))"
        by (simp only: of_nat_mult of_nat_power of_nat_numeral mult.assoc)
      ultimately have "?sg * of_nat (f * 2 ^ (k + 13)) * 2 ^ (113 - k) = ?sg * of_nat f * 2 ^ 126" by (simp only:)
      then show ?thesis by (simp only:) simp
    qed
    finally have v: "f32_from_bits (push_bit 31 ?s OR push_bit 23 (word_of_nat (113 - k)) OR word_of_nat ((g - 1024) * 2 ^ 13)) = f16_value b"
      using 2 by (simp add: fv)
    have nf: "(f = 0) = False" "((word_of_nat e :: u16) = 0) = True" using 2 by simp_all
    have "f32_bits b = Some (push_bit 31 ?s OR push_bit 23 (word_of_nat (113 - k)) OR word_of_nat ((g - 1024) * 2 ^ 13))"
      unfolding f32_bits_def Let_def f16_fields(3) e(1) f(1) f0
      by (simp only: nf simp_thms if_True if_False r option.case prod.case m x pf)
    then show ?thesis unfolding f16_to_f32_def by (simp only: option.map v)
  next
    case 3
    have "f32_from_bits (push_bit 31 ?s OR push_bit 23 (word_of_nat 255) OR word_of_nat (f * 2 ^ 13)) = f16_value b"
      using f32_fields [of ?s 255 "f * 2 ^ 13"] f(2) 3 by (simp add: f32_from_bits_def fv)
    then show ?thesis using 3 e0 [of 0] e0 [of 31] by (simp add: V)
  next
    case 4
    have x: "word_of_int (uint (word_of_nat e :: u16) - 15 + 127) = (word_of_nat (e + 112) :: u32)"
      using e(2) by (simp add: uint_nat unat_of_nat)
    have "f32_from_bits (push_bit 31 ?s OR push_bit 23 (word_of_nat (e + 112)) OR word_of_nat (f * 2 ^ 13)) =
      Fin (?sg * of_nat (2 ^ 23 + f * 2 ^ 13) * 2 ^ (e + 112) / 2 ^ 150)"
      using 4 f(2) by (intro fields_value) auto
    also have "?sg * of_nat (2 ^ 23 + f * 2 ^ 13) * 2 ^ (e + 112) / 2 ^ 150 = ?sg * of_nat (2 ^ 10 + f) * 2 ^ e / (2 ^ 25 :: rat)"
      by (simp add: power_add field_simps)
    finally have v: "f32_from_bits (push_bit 31 ?s OR push_bit 23 (word_of_nat (e + 112)) OR word_of_nat (f * 2 ^ 13)) = f16_value b"
      using 4 by (simp add: fv)
    have ne: "((word_of_nat e :: u16) = 0) = False" "((word_of_nat e :: u16) = 0x1F) = False" using 4 e0 [of 0] e0 [of 31] by simp_all
    have "f32_bits b = Some (push_bit 31 ?s OR push_bit 23 (word_of_nat (e + 112)) OR word_of_nat (f * 2 ^ 13))"
      unfolding f32_bits_def Let_def f16_fields(3) e(1) f(1) f0 by (simp only: ne if_False x pf)
    then show ?thesis unfolding f16_to_f32_def by (simp only: option.map v)
  qed
qed

section \<open>What the layout promises\<close>

text \<open>
  C33: Repacking eight rows into the interleaved layout loses nothing: unpacking gives back exactly the rows, scales, mins and quants.
\<close>

theorem repack_roundtrip:
  assumes "blocks_ok ins"
  shows "reverse_repack_q4_kx8 (repack_q4_k_to_q4_kx8 ins) = ins"
  using assms by (rule reverse_repack_repack)

definition demo_block :: "nat \<Rightarrow> block_q4k" where
  "demo_block n = \<lparr>bk_d = 0x3C00, bk_dmin = word_of_nat n, bk_scales = replicate 12 (word_of_nat (200 + n)), bk_qs = replicate 128 (word_of_nat (n * 37))\<rparr>"

lemma demo_block_ok: "block_ok (demo_block n)" "blocks_ok (map demo_block [0 ..< 8])"
  by (auto simp: block_ok_def blocks_ok_def demo_block_def k_scale_size_def qk_k_def)

theorem repack_roundtrip_witness:
  "bk_dmin (reverse_repack_q4_kx8 (repack_q4_k_to_q4_kx8 (map demo_block [0 ..< 8])) ! 5) = 5"
  by (subst repack_roundtrip [OF demo_block_ok(2)]) (simp add: demo_block_def)

text \<open>
  The conversion of a half precision pattern ends for every pattern, subnormals included, and is exact: the single precision
  pattern has the value IEEE 754 gives to the half precision one, infinities and NaNs included.
\<close>

theorem f16_to_f32_exact: "f16_to_f32 b = Some (f16_value b)"
  by (rule f16_to_f32_correct)

end
