(* ===== verification/Q4kProducts.thy ===== *)
theory Q4kProducts
  imports Q4kRepack
begin

text \<open>
  The computations on the 4-bit layout (\<^verbatim>\<open>src/backend/candle/q4k_repack.rs\<close>): the dequantisation of a row, the
  two 8-bit quantisers of activations, and the scalar reference of the matrix products with their dispatchers.  Arithmetic on
  \<^verbatim>\<open>f32\<close> is the parameter \<open>ops\<close>; casts and rounding to an integer are exact and written out.  The vector kernels
  are not modelled: what dispatches to them takes the kernel as a parameter.
\<close>

unbundle bit_operations_syntax

section \<open>Dequantisation and the scalar products\<close>

definition f32_of_u8 :: "u8 \<Rightarrow> f32" where
  "f32_of_u8 b = Fin (of_nat (unat b))"

definition dequantize_chunk :: "f32_ops \<Rightarrow> block_q4k \<Rightarrow> f32 \<Rightarrow> f32 \<Rightarrow> nat \<Rightarrow> f32 list" where
  "dequantize_chunk ops b d dmin c =
    (let j = 64 * c;
         q_chunk = subslice (bk_qs b) (j div 2) (j div 2 + 32);
         (sc, m) = decode_q4k_scale_min (2 * c) (bk_scales b);
         d1 = f_mul ops d (f32_of_u8 sc);
         m1 = f_mul ops dmin (f32_of_u8 m);
         (sc, m) = decode_q4k_scale_min (2 * c + 1) (bk_scales b);
         d2 = f_mul ops d (f32_of_u8 sc);
         m2 = f_mul ops dmin (f32_of_u8 m)
     in map (\<lambda>q. f_sub ops (f_mul ops d1 (f32_of_u8 (q AND 0x0F))) m1) q_chunk @
        map (\<lambda>q. f_sub ops (f_mul ops d2 (f32_of_u8 (drop_bit 4 q))) m2) q_chunk)"

definition dequantize_q4k_block :: "f32_ops \<Rightarrow> block_q4k \<Rightarrow> f32 list option" where
  "dequantize_q4k_block ops b =
    (case (f16_to_f32 (bk_d b), f16_to_f32 (bk_dmin b)) of
       (Some d, Some dmin) \<Rightarrow> Some (concat (map (dequantize_chunk ops b d dmin) [0 ..< qk_k div 64]))
     | _ \<Rightarrow> None)"

record block_q8k =
  q8_d :: f32
  q8_qs :: "u8 list"
  q8_bsums :: "u16 list"

definition f32_of_i8 :: "u8 \<Rightarrow> f32" where
  "f32_of_i8 b = Fin (of_int (sint b))"

definition row_dot :: "f32_ops \<Rightarrow> f32 list \<Rightarrow> u8 list \<Rightarrow> f32" where
  "row_dot ops row qs = foldl (\<lambda>s i. f_add ops s (f_mul ops (row ! i) (f32_of_i8 (qs ! i)))) (Fin 0) [0 ..< qk_k]"

definition accumulate :: "f32_ops \<Rightarrow> f32 \<Rightarrow> block_q4k \<Rightarrow> block_q8k \<Rightarrow> f32 option" where
  "accumulate ops out b a =
    map_option (\<lambda>row. f_add ops out (f_mul ops (row_dot ops row (q8_qs a)) (q8_d a))) (dequantize_q4k_block ops b)"

fun gemv_blocks :: "f32_ops \<Rightarrow> (block_q4kx8 \<times> block_q8k) list \<Rightarrow> f32 list \<Rightarrow> f32 list option" where
  "gemv_blocks ops [] out = Some out"
| "gemv_blocks ops ((wblk, ablk) # rest) out =
    (let rows = reverse_repack_q4_kx8 wblk
     in case those (map (\<lambda>r. accumulate ops (out ! r) (rows ! r) ablk) [0 ..< 8]) of
          None \<Rightarrow> None
        | Some out' \<Rightarrow> gemv_blocks ops rest out')"

definition gemv_q4_k_8x8_q8_k_scalar :: "f32_ops \<Rightarrow> block_q4kx8 list \<Rightarrow> block_q8k list \<Rightarrow> f32 list option" where
  "gemv_q4_k_8x8_q8_k_scalar ops weights activation =
    (if length weights \<noteq> length activation then None
     else gemv_blocks ops (zip weights activation) (replicate 8 (Fin 0)))"

section \<open>Quantising activations\<close>

definition f32_round :: "f32 \<Rightarrow> f32" where
  "f32_round x = (case x of Fin q \<Rightarrow> Fin (of_int (if 0 \<le> q then \<lfloor>q + 1 / 2\<rfloor> else - \<lfloor>1 / 2 - q\<rfloor>)) | _ \<Rightarrow> x)"

definition round_ties_even :: "f32 \<Rightarrow> f32" where
  "round_ties_even x =
    (case x of
       Fin q \<Rightarrow>
         Fin (of_int
           (let f = \<lfloor>q\<rfloor>; r = q - of_int f
            in if r < 1 / 2 then f else if 1 / 2 < r then f + 1 else if even f then f else f + 1))
     | _ \<Rightarrow> x)"

text \<open>The casts \<^verbatim>\<open>as i8\<close> and \<^verbatim>\<open>as i32\<close> of a float: a NaN becomes 0, the rest saturates and rounds towards 0.\<close>

definition truncate :: "rat \<Rightarrow> int" where
  "truncate q = (if 0 \<le> q then \<lfloor>q\<rfloor> else \<lceil>q\<rceil>)"

definition saturate :: "int \<Rightarrow> int \<Rightarrow> f32 \<Rightarrow> int" where
  "saturate lo hi x = (case x of NaN \<Rightarrow> 0 | NegInf \<Rightarrow> lo | PosInf \<Rightarrow> hi | Fin q \<Rightarrow> max lo (min hi (truncate q)))"

definition clamp_int :: "int \<Rightarrow> int \<Rightarrow> int \<Rightarrow> int" where
  "clamp_int lo hi x = max lo (min hi x)"

text \<open>The largest magnitude of a block and the value that has it, the first one when there are several.\<close>

definition amax_scan :: "f32 list \<Rightarrow> f32 \<times> f32" where
  "amax_scan chunk =
    foldl (\<lambda>(amax, mx) v. if f32_lt amax (f32_abs v) then (f32_abs v, v) else (amax, mx)) (Fin 0, Fin 0) chunk"

definition group_sum :: "u8 list \<Rightarrow> nat \<Rightarrow> int" where
  "group_sum qs g = (\<Sum>k \<leftarrow> [0 ..< 16]. sint (qs ! (g * 16 + k)))"

definition quantize_block :: "f32_ops \<Rightarrow> f32 list \<Rightarrow> block_q8k" where
  "quantize_block ops chunk =
    (let (amax, mx) = amax_scan chunk
     in if amax = Fin 0 then \<lparr>q8_d = Fin 0, q8_qs = replicate qk_k 0, q8_bsums = replicate (qk_k div 16) 0\<rparr>
        else
          (let iscale = f_div ops (Fin (-128)) mx;
               qs = map (\<lambda>v. word_of_int (saturate (-128) 127 (f32_min (f32_round (f_mul ops v iscale)) (Fin 127)))) chunk
           in \<lparr>q8_d = f_div ops (Fin 1) iscale, q8_qs = qs,
               q8_bsums = map (\<lambda>g. word_of_int (group_sum qs g)) [0 ..< qk_k div 16]\<rparr>))"

definition quantize_q8_k :: "f32_ops \<Rightarrow> f32 list \<Rightarrow> nat \<Rightarrow> block_q8k list option" where
  "quantize_q8_k ops x len_y =
    (if length x mod qk_k \<noteq> 0 \<or> len_y \<noteq> length x div qk_k then None
     else Some (map (\<lambda>bi. quantize_block ops (subslice x (bi * qk_k) ((bi + 1) * qk_k))) [0 ..< len_y]))"

record block_q8kx4 =
  b4_d :: "f32 list"
  b4_qs :: "u8 list"
  b4_bsums :: "u16 list"

definition dst_index :: "nat \<Rightarrow> nat \<Rightarrow> nat" where
  "dst_index row j = j div 8 * 32 + row * 8 + j mod 8"

definition iscale_4x8 :: "f32_ops \<Rightarrow> f32 \<Rightarrow> f32 \<Rightarrow> f32" where
  "iscale_4x8 ops max_abs max_signed =
    (if max_abs = Fin 0 then Fin 0
     else if f32_lt (Fin 0) max_signed then f_div ops (Fin (-127)) max_abs
     else f_div ops (Fin 127) max_abs)"

definition quantize_row :: "f32_ops \<Rightarrow> f32 list \<Rightarrow> nat \<Rightarrow> block_q8kx4 \<Rightarrow> block_q8kx4" where
  "quantize_row ops chunk row y =
    (let (max_abs, max_signed) = amax_scan chunk;
         iscale = iscale_4x8 ops max_abs max_signed
     in \<lparr>b4_d = (b4_d y)[row := (if max_abs \<noteq> Fin 0 then f_div ops (Fin 1) iscale else Fin 0)],
         b4_qs = fold (\<lambda>j qs. qs[dst_index row j := word_of_int (clamp_int (-128) 127
            (saturate (- (2 ^ 31)) (2 ^ 31 - 1) (round_ties_even (f_mul ops (chunk ! j) iscale))))]) [0 ..< qk_k] (b4_qs y),
         b4_bsums = b4_bsums y\<rparr>)"

definition bsum_4x8 :: "u8 list \<Rightarrow> nat \<Rightarrow> nat \<Rightarrow> u16" where
  "bsum_4x8 qs row g =
    word_of_int (clamp_int (- (2 ^ 15)) (2 ^ 15 - 1) (\<Sum>k \<leftarrow> [0 ..< 16]. sint (qs ! dst_index row (g * 16 + k))))"

definition quantize_4_rows :: "f32_ops \<Rightarrow> f32 list \<Rightarrow> nat \<Rightarrow> nat \<Rightarrow> block_q8kx4 \<Rightarrow> block_q8kx4" where
  "quantize_4_rows ops x k i y =
    (let y1 = fold (\<lambda>row. let start = row * k + i * qk_k in quantize_row ops (subslice x start (start + qk_k)) row) [0 ..< 4] y
     in y1\<lparr>b4_bsums := fold (\<lambda>(row, g) bs. bs[row * 16 + g := bsum_4x8 (b4_qs y1) row g])
          (List.product [0 ..< 4] [0 ..< 16]) (replicate (qk_k div 4) 0)\<rparr>)"

definition quantize_mat_q8_k_4x8_scalar :: "f32_ops \<Rightarrow> f32 list \<Rightarrow> block_q8kx4 list \<Rightarrow> nat \<Rightarrow> block_q8kx4 list option" where
  "quantize_mat_q8_k_4x8_scalar ops x y k =
    (if k mod qk_k \<noteq> 0 \<or> length x \<noteq> 4 * k \<or> length y \<noteq> k div qk_k then None
     else Some (map (\<lambda>i. quantize_4_rows ops x k i (y ! i)) [0 ..< k div qk_k]))"

section \<open>Matrix products\<close>

type_synonym gemv = "block_q4kx8 list \<Rightarrow> block_q8k list \<Rightarrow> f32 list option"

definition gemv_q4_k_8x8_q8_k :: "bool \<Rightarrow> gemv \<Rightarrow> f32_ops \<Rightarrow> gemv" where
  "gemv_q4_k_8x8_q8_k has_avx2 avx2 ops = (if has_avx2 then avx2 else gemv_q4_k_8x8_q8_k_scalar ops)"

definition put_tile :: "gemv \<Rightarrow> block_q4kx8 list \<Rightarrow> block_q8k list \<Rightarrow> nat \<Rightarrow> f32 list option \<Rightarrow> f32 list option" where
  "put_tile gemv w act base out =
    (case out of None \<Rightarrow> None
     | Some o' \<Rightarrow> map_option (copy_slice o' base) (gemv w act))"

definition gemm_q4_k_8x8_q8_k :: "gemv \<Rightarrow> block_q4kx8 list \<Rightarrow> block_q8k list \<Rightarrow> f32 list \<Rightarrow> nat \<Rightarrow> nat \<Rightarrow> nat \<Rightarrow> f32 list option" where
  "gemm_q4_k_8x8_q8_k gemv weights activation output nr nc nb =
    (let ncb = nc div 8
     in if nc mod 8 \<noteq> 0 \<or> length weights \<noteq> ncb * nb \<or> length activation \<noteq> nr * nb \<or> length output \<noteq> nr * nc then None
        else
          fold (\<lambda>(row, cb). put_tile gemv (subslice weights (cb * nb) ((cb + 1) * nb))
                 (subslice activation (row * nb) ((row + 1) * nb)) (row * nc + cb * 8))
            (List.product [0 ..< nr] [0 ..< ncb]) (Some output))"

text \<open>The groups are the tasks of a thread pool: \<open>tasks\<close> is the order in which they write their tiles.\<close>

definition matvec_q4k_8x8_par :: "gemv \<Rightarrow> nat list \<Rightarrow> block_q4kx8 list \<Rightarrow> block_q8k list \<Rightarrow> f32 list \<Rightarrow> nat \<Rightarrow> nat \<Rightarrow> f32 list option" where
  "matvec_q4k_8x8_par gemv tasks blocks act output n_groups nb =
    (if length blocks \<noteq> n_groups * nb \<or> length act \<noteq> nb \<or> length output \<noteq> n_groups * 8 then None
     else fold (\<lambda>g. put_tile gemv (subslice blocks (g * nb) ((g + 1) * nb)) act (g * 8)) tasks (Some output))"

section \<open>Products over the interleaved layout\<close>

text \<open>Weight \<open>i\<close> of a block, as the format defines it.\<close>

definition weight_at :: "f32_ops \<Rightarrow> block_q4k \<Rightarrow> nat \<Rightarrow> f32" where
  "weight_at ops b i =
    (let c = i div 64;
         high = (32 \<le> i mod 64);
         q = bk_qs b ! (32 * c + i mod 32);
         nibble = (if high then drop_bit 4 q else q AND 0x0F);
         (sc, m) = decode_q4k_scale_min (2 * c + (if high then 1 else 0)) (bk_scales b)
     in f_sub ops (f_mul ops (f_mul ops (f16_value (bk_d b)) (f32_of_u8 sc)) (f32_of_u8 nibble))
          (f_mul ops (f16_value (bk_dmin b)) (f32_of_u8 m)))"

lemma dequantize_weights:
  assumes "block_ok b"
  shows "dequantize_q4k_block ops b = Some (map (weight_at ops b) [0 ..< qk_k])"
proof -
  let ?ch = "dequantize_chunk ops b (f16_value (bk_d b)) (f16_value (bk_dmin b))"
  have q: "length (bk_qs b) = 128" using assms by (simp add: block_ok_def qk_k_def)
  have l: "length (?ch c) = 64" if "c < 4" for c
    using that q by (simp add: dequantize_chunk_def Let_def split: prod.splits)
  have e32: "(c * 64 + k) mod 32 = k mod 32" for c k :: nat
  proof -
    have "c * 64 + k = k + 2 * c * 32" by simp
    then show ?thesis by (simp only: mod_mult_self1)
  qed
  have at: "?ch c ! k = weight_at ops b (c * 64 + k)" if "c < 4" "k < 64" for c k
  proof (cases "k < 32")
    case True
    then have "(c * 64 + k) div 64 = c" "(c * 64 + k) mod 64 = k" "(c * 64 + k) mod 32 = k" by (simp_all add: e32)
    then show ?thesis
      using that True q by (simp add: dequantize_chunk_def weight_at_def Let_def nth_append subslice_def mult.commute split: prod.splits)
  next
    case False
    have "(c * 64 + k) mod 32 = k - 32" using False that(2) by (simp add: e32 le_mod_geq)
    then have "(c * 64 + k) div 64 = c" "(c * 64 + k) mod 64 = k" "(c * 64 + k) mod 32 = k - 32" using that(2) by simp_all
    then show ?thesis
      using that False q by (simp add: dequantize_chunk_def weight_at_def Let_def nth_append subslice_def mult.commute split: prod.splits)
  qed
  have "concat (map ?ch [0 ..< 4]) = map (weight_at ops b) [0 ..< 256]"
  proof (rule nth_equalityI)
    show "length (concat (map ?ch [0 ..< 4])) = length (map (weight_at ops b) [0 ..< 256])"
      using l by (subst length_concat_blocks [where n = 64]) auto
  next
    fix i
    assume "i < length (concat (map ?ch [0 ..< 4]))"
    then have i: "i < 256" using l by (subst (asm) length_concat_blocks [where n = 64]) auto
    then have "i div 64 < 4" by (intro less_mult_imp_div_less) simp
    then have "concat (map ?ch [0 ..< 4]) ! i = ?ch (i div 64) ! (i mod 64)"
      using l i by (subst nth_concat_blocks [where n = 64]) auto
    also have "\<dots> = weight_at ops b (i div 64 * 64 + i mod 64)" using \<open>i div 64 < 4\<close> by (intro at) simp_all
    finally show "concat (map ?ch [0 ..< 4]) ! i = map (weight_at ops b) [0 ..< 256] ! i" using i by simp
  qed
  then show ?thesis by (simp add: dequantize_q4k_block_def f16_to_f32_correct qk_k_def)
qed

text \<open>The product of a row of blocks with an activation, in the order the scalar kernel adds it up.\<close>

definition row_product :: "f32_ops \<Rightarrow> block_q4k list \<Rightarrow> block_q8k list \<Rightarrow> f32 \<Rightarrow> f32" where
  "row_product ops bs acts start =
    foldl (\<lambda>s (b, a). f_add ops s (f_mul ops (row_dot ops (map (weight_at ops b) [0 ..< qk_k]) (q8_qs a)) (q8_d a)))
      start (zip bs acts)"

lemma row_product_simps [simp]:
  "row_product ops [] acts s = s" "row_product ops bs [] s = s"
  "row_product ops (b # bs) (a # acts) s =
    row_product ops bs acts (f_add ops s (f_mul ops (row_dot ops (map (weight_at ops b) [0 ..< qk_k]) (q8_qs a)) (q8_d a)))"
  by (simp_all add: row_product_def)

lemma those_map_Some: "(\<And>x. x \<in> set xs \<Longrightarrow> f x = Some (g x)) \<Longrightarrow> those (map f xs) = Some (map g xs)"
  by (induction xs) auto

lemma gemv_blocks_repacked:
  "\<forall>c \<in> set cs. blocks_ok c \<Longrightarrow> length out = 8 \<Longrightarrow>
   gemv_blocks ops (zip (map repack_q4_k_to_q4_kx8 cs) acts) out = Some (map (\<lambda>r. row_product ops (map (\<lambda>c. c ! r) cs) acts (out ! r)) [0 ..< 8])"
proof (induction cs arbitrary: acts out)
  case Nil
  then show ?case by (auto intro: nth_equalityI)
next
  case (Cons c cs)
  show ?case
  proof (cases acts)
    case Nil
    then show ?thesis using Cons.prems by (auto intro: nth_equalityI)
  next
    case (Cons a as)
    have ok: "blocks_ok c" "\<forall>c \<in> set cs. blocks_ok c" using Cons.prems by auto
    have "those (map (\<lambda>r. accumulate ops (out ! r) (c ! r) a) [0 ..< 8]) =
      Some (map (\<lambda>r. f_add ops (out ! r) (f_mul ops (row_dot ops (map (weight_at ops (c ! r)) [0 ..< qk_k]) (q8_qs a)) (q8_d a))) [0 ..< 8])"
      by (rule those_map_Some) (use ok(1) in \<open>auto simp: accumulate_def dequantize_weights blocks_ok_def\<close>)
    then show ?thesis
      using Cons.IH [OF ok(2)] by (simp add: Cons reverse_repack_repack [OF ok(1)] Let_def)
  qed
qed

section \<open>Tiles are written side by side\<close>

lemma length_copy_slice [simp]: "off + length src \<le> length dst \<Longrightarrow> length (copy_slice dst off src) = length dst"
  by (simp add: copy_slice_def)

lemma nth_copy_slice:
  "off + length src \<le> length dst \<Longrightarrow> i < length dst \<Longrightarrow>
   copy_slice dst off src ! i = (if off \<le> i \<and> i < off + length src then src ! (i - off) else dst ! i)"
  by (auto simp: copy_slice_def nth_append min_def)

lemma put_tiles:
  assumes "\<And>t. t \<in> set ts \<Longrightarrow> gemv (w t) (a t) = Some (tile t)" "\<And>t. t \<in> set ts \<Longrightarrow> length (tile t) = 8"
    and "\<And>t. t \<in> set ts \<Longrightarrow> idx t < n" "inj_on idx (set ts)" "length out = n * 8"
  shows "\<exists>out'. fold (\<lambda>t. put_tile gemv (w t) (a t) (idx t * 8)) ts (Some out) = Some out' \<and> length out' = n * 8 \<and>
    (\<forall>t \<in> set ts. \<forall>r < 8. out' ! (idx t * 8 + r) = tile t ! r) \<and>
    (\<forall>i < n * 8. i div 8 \<notin> idx ` set ts \<longrightarrow> out' ! i = out ! i)"
  using assms
proof (induction ts arbitrary: out)
  case Nil
  then show ?case by simp
next
  case (Cons t ts)
  let ?o = "copy_slice out (idx t * 8) (tile t)"
  have t: "gemv (w t) (a t) = Some (tile t)" "length (tile t) = 8" "idx t < n" using Cons.prems by auto
  then have room: "idx t * 8 + length (tile t) \<le> length out" using Cons.prems(5) by simp
  then have lo: "length ?o = n * 8" using Cons.prems(5) by simp
  have "inj_on idx (set ts)" using Cons.prems(4) by (simp add: inj_on_def)
  then obtain out' where IH: "fold (\<lambda>t. put_tile gemv (w t) (a t) (idx t * 8)) ts (Some ?o) = Some out'" "length out' = n * 8"
    "\<forall>t \<in> set ts. \<forall>r < 8. out' ! (idx t * 8 + r) = tile t ! r" "\<forall>i < n * 8. i div 8 \<notin> idx ` set ts \<longrightarrow> out' ! i = ?o ! i"
    using Cons.IH [of ?o] Cons.prems lo by auto
  have at: "out' ! (idx t * 8 + r) = tile t ! r" if "r < 8" for r
  proof (cases "t \<in> set ts")
    case False
    then have "idx t \<notin> idx ` set ts" using Cons.prems(4) by (auto simp: inj_on_def)
    moreover have "(idx t * 8 + r) div 8 = idx t" using that by simp
    ultimately have "out' ! (idx t * 8 + r) = ?o ! (idx t * 8 + r)" using IH(4) that t(3) by simp
    then show ?thesis using room that t by (simp add: nth_copy_slice)
  qed (use IH(3) that in blast)
  have other: "out' ! i = out ! i" if i: "i < n * 8" "i div 8 \<notin> idx ` set (t # ts)" for i
  proof -
    have "\<not> (idx t * 8 \<le> i \<and> i < idx t * 8 + 8)"
    proof
      assume "idx t * 8 \<le> i \<and> i < idx t * 8 + 8"
      then have "i div 8 = idx t" by (intro div_nat_eqI) auto
      then show False using i by simp
    qed
    then show ?thesis using IH(4) i room t(2) Cons.prems(5) by (auto simp: nth_copy_slice)
  qed
  show ?case
  proof (intro exI [of _ out'] conjI allI impI ballI)
    show "fold (\<lambda>t. put_tile gemv (w t) (a t) (idx t * 8)) (t # ts) (Some out) = Some out'"
      using IH(1) t(1) by (simp add: put_tile_def)
    show "length out' = n * 8" by (rule IH(2))
    show "out' ! (idx u * 8 + r) = tile u ! r" if "u \<in> set (t # ts)" "r < 8" for u r
      using that at IH(3) by (cases "u = t") auto
    show "out' ! i = out ! i" if "i < n * 8" "i div 8 \<notin> idx ` set (t # ts)" for i
      by (rule other [OF that])
  qed
qed

text \<open>A weight matrix as it is stored: eight rows to a group, the blocks of a group side by side.\<close>

definition packed :: "(nat \<Rightarrow> nat \<Rightarrow> block_q4k) \<Rightarrow> nat \<Rightarrow> nat \<Rightarrow> block_q4kx8 list" where
  "packed w ncb nb =
    concat (map (\<lambda>g. map (\<lambda>c. repack_q4_k_to_q4_kx8 (map (\<lambda>r. w (g * 8 + r) c) [0 ..< 8])) [0 ..< nb]) [0 ..< ncb])"

definition product :: "f32_ops \<Rightarrow> (nat \<Rightarrow> nat \<Rightarrow> block_q4k) \<Rightarrow> nat \<Rightarrow> block_q8k list \<Rightarrow> nat \<Rightarrow> f32" where
  "product ops w nb acts n = row_product ops (map (w n) [0 ..< nb]) acts (Fin 0)"

definition matrix_ok :: "(nat \<Rightarrow> nat \<Rightarrow> block_q4k) \<Rightarrow> nat \<Rightarrow> nat \<Rightarrow> bool" where
  "matrix_ok w nc nb = (\<forall>n < nc. \<forall>c < nb. block_ok (w n c))"

lemma subslice_concat:
  "\<forall>xs \<in> set xss. length xs = n \<Longrightarrow> i < length xss \<Longrightarrow> subslice (concat xss) (i * n) ((i + 1) * n) = xss ! i"
proof (induction xss arbitrary: i)
  case (Cons xs xss)
  then show ?case by (cases i) (auto simp: subslice_def)
qed simp

lemma length_packed: "length (packed w ncb nb) = ncb * nb"
  unfolding packed_def by (subst length_concat_blocks [where n = nb]) auto

lemma gemv_packed:
  assumes "matrix_ok w (ncb * 8) nb" "g < ncb" "length acts = nb"
  shows "gemv_q4_k_8x8_q8_k_scalar ops (subslice (packed w ncb nb) (g * nb) ((g + 1) * nb)) acts =
    Some (map (\<lambda>r. product ops w nb acts (g * 8 + r)) [0 ..< 8])"
proof -
  let ?cs = "map (\<lambda>c. map (\<lambda>r. w (g * 8 + r) c) [0 ..< 8]) [0 ..< nb]"
  have s: "subslice (packed w ncb nb) (g * nb) ((g + 1) * nb) = map repack_q4_k_to_q4_kx8 ?cs"
    unfolding packed_def using assms(2) by (subst subslice_concat) simp_all
  have "g * 8 + r < ncb * 8" if "r < 8" for r
  proof -
    have "g * 8 + 8 \<le> ncb * 8" using assms(2) by simp
    then show ?thesis using that by linarith
  qed
  then have ok: "\<forall>c \<in> set ?cs. blocks_ok c" using assms(1) by (auto simp: blocks_ok_def matrix_ok_def)
  have "gemv_blocks ops (zip (map repack_q4_k_to_q4_kx8 ?cs) acts) (replicate 8 (Fin 0)) =
    Some (map (\<lambda>r. row_product ops (map (\<lambda>c. c ! r) ?cs) acts (replicate 8 (Fin 0) ! r)) [0 ..< 8])"
    by (rule gemv_blocks_repacked [OF ok]) simp
  also have "map (\<lambda>r. row_product ops (map (\<lambda>c. c ! r) ?cs) acts (replicate 8 (Fin 0) ! r)) [0 ..< 8] =
    map (\<lambda>r. product ops w nb acts (g * 8 + r)) [0 ..< 8]"
    by (rule map_cong) (simp_all add: product_def comp_def)
  finally show ?thesis unfolding gemv_q4_k_8x8_q8_k_scalar_def s using assms(3) by simp
qed

lemma split8: "(n :: nat) < nc * 8 \<Longrightarrow> n div 8 < nc \<and> n = n div 8 * 8 + n mod 8"
  by (simp add: less_mult_imp_div_less)

lemma digits_unique:
  assumes "b < n" "b' < n" "a * n + b = a' * n + (b' :: nat)"
  shows "a = a' \<and> b = b'"
proof -
  have "(a * n + b) div n = a" "(a' * n + b') div n = a'" using assms(1,2) by simp_all
  then have "a = a'" unfolding assms(3) by simp
  then show ?thesis using assms(3) by simp
qed

lemma gemm_packed:
  assumes "matrix_ok w (ncb * 8) nb" "length acts = nr * nb" "length out = nr * (ncb * 8)"
  shows "\<exists>out'. gemm_q4_k_8x8_q8_k (gemv_q4_k_8x8_q8_k_scalar ops) (packed w ncb nb) acts out nr (ncb * 8) nb = Some out' \<and>
    length out' = nr * (ncb * 8) \<and>
    (\<forall>row < nr. \<forall>n < ncb * 8. out' ! (row * (ncb * 8) + n) = product ops w nb (subslice acts (row * nb) ((row + 1) * nb)) n)"
proof -
  let ?idx = "\<lambda>(row, cb). row * ncb + cb" and ?act = "\<lambda>row. subslice acts (row * nb) ((row + 1) * nb)"
  let ?ts = "List.product [0 ..< nr] [0 ..< ncb]"
  let ?tile = "\<lambda>(row, cb). map (\<lambda>r. product ops w nb (?act row) (cb * 8 + r)) [0 ..< 8]"
  have act: "length (?act row) = nb" if "row < nr" for row
  proof -
    have "(row + 1) * nb \<le> length acts" using that assms(2) by (simp add: mult_le_mono1 Suc_leI del: mult_Suc)
    then show ?thesis by simp
  qed
  have "row * ncb + cb < nr * ncb" if "row < nr" "cb < ncb" for row cb
  proof -
    have "Suc row * ncb \<le> nr * ncb" using that(1) by (intro mult_le_mono1) simp
    then show ?thesis using that(2) by simp
  qed
  moreover have "inj_on ?idx (set ?ts)"
  proof (rule inj_onI, clarsimp)
    fix a b a' b'
    assume "b < ncb" "b' < ncb" "a * ncb + b = a' * ncb + b'"
    then show "a = a' \<and> b = b'" by (rule digits_unique)
  qed
  ultimately obtain out' where P: "fold (\<lambda>t. put_tile (gemv_q4_k_8x8_q8_k_scalar ops)
      (case t of (row, cb) \<Rightarrow> subslice (packed w ncb nb) (cb * nb) ((cb + 1) * nb)) (case t of (row, cb) \<Rightarrow> ?act row) (?idx t * 8)) ?ts (Some out) = Some out'"
    "length out' = nr * ncb * 8" "\<forall>t \<in> set ?ts. \<forall>r < 8. out' ! (?idx t * 8 + r) = ?tile t ! r"
    using put_tiles [of ?ts "gemv_q4_k_8x8_q8_k_scalar ops" "\<lambda>t. case t of (row, cb) \<Rightarrow> subslice (packed w ncb nb) (cb * nb) ((cb + 1) * nb)"
        "\<lambda>t. case t of (row, cb) \<Rightarrow> ?act row" ?tile ?idx "nr * ncb" out] assms gemv_packed [OF assms(1)] act
    by (auto simp: mult.assoc)
  have "(\<lambda>(row, cb). put_tile (gemv_q4_k_8x8_q8_k_scalar ops) (subslice (packed w ncb nb) (cb * nb) ((cb + 1) * nb)) (?act row) (row * (ncb * 8) + cb * 8)) =
    (\<lambda>t. put_tile (gemv_q4_k_8x8_q8_k_scalar ops)
      (case t of (row, cb) \<Rightarrow> subslice (packed w ncb nb) (cb * nb) ((cb + 1) * nb)) (case t of (row, cb) \<Rightarrow> ?act row) (?idx t * 8))"
    by (auto simp: fun_eq_iff algebra_simps)
  then have g: "gemm_q4_k_8x8_q8_k (gemv_q4_k_8x8_q8_k_scalar ops) (packed w ncb nb) acts out nr (ncb * 8) nb = Some out'"
    using P(1) assms(2,3) by (simp add: gemm_q4_k_8x8_q8_k_def length_packed)
  have "out' ! (row * (ncb * 8) + n) = product ops w nb (?act row) n" if rn: "row < nr" "n < ncb * 8" for row n
  proof -
    have n: "n div 8 < ncb" "n = n div 8 * 8 + n mod 8" using split8 [OF rn(2)] by blast+
    have "out' ! (?idx (row, n div 8) * 8 + n mod 8) = ?tile (row, n div 8) ! (n mod 8)"
      by (rule P(3) [rule_format]) (use rn n(1) in simp_all)
    moreover have "?idx (row, n div 8) * 8 + n mod 8 = row * (ncb * 8) + n" by (simp add: algebra_simps)
    ultimately have "out' ! (row * (ncb * 8) + n) = ?tile (row, n div 8) ! (n mod 8)" by (simp only:)
    then show ?thesis by simp
  qed
  then show ?thesis using g P(2) by (simp add: mult.assoc)
qed

lemma matvec_packed:
  assumes "matrix_ok w (ncb * 8) nb" "length acts = nb" "length out = ncb * 8" "mset tasks = mset [0 ..< ncb]"
  shows "matvec_q4k_8x8_par (gemv_q4_k_8x8_q8_k_scalar ops) tasks (packed w ncb nb) acts out ncb nb =
    Some (map (product ops w nb acts) [0 ..< ncb * 8])"
proof -
  have ts: "set tasks = {0 ..< ncb}" using mset_eq_setD [OF assms(4)] by simp
  obtain out' where P: "fold (\<lambda>g. put_tile (gemv_q4_k_8x8_q8_k_scalar ops) (subslice (packed w ncb nb) (g * nb) ((g + 1) * nb)) acts (g * 8)) tasks (Some out) = Some out'"
    "length out' = ncb * 8" "\<forall>g \<in> set tasks. \<forall>r < 8. out' ! (g * 8 + r) = map (\<lambda>r. product ops w nb acts (g * 8 + r)) [0 ..< 8] ! r"
    using put_tiles [of tasks "gemv_q4_k_8x8_q8_k_scalar ops" "\<lambda>g. subslice (packed w ncb nb) (g * nb) ((g + 1) * nb)" "\<lambda>g. acts"
        "\<lambda>g. map (\<lambda>r. product ops w nb acts (g * 8 + r)) [0 ..< 8]" id ncb out] assms gemv_packed [OF assms(1)] ts
    by auto
  have "out' = map (product ops w nb acts) [0 ..< ncb * 8]"
  proof (rule nth_equalityI)
    fix n
    assume "n < length out'"
    then have n: "n < ncb * 8" using P(2) by simp
    have "out' ! (n div 8 * 8 + n mod 8) = map (\<lambda>r. product ops w nb acts (n div 8 * 8 + r)) [0 ..< 8] ! (n mod 8)"
      by (rule P(3) [rule_format]) (use split8 [OF n] ts in auto)
    then show "out' ! n = map (product ops w nb acts) [0 ..< ncb * 8] ! n" using n by simp
  qed (simp add: P(2))
  then show ?thesis using P(1) assms by (simp add: matvec_q4k_8x8_par_def length_packed)
qed

section \<open>The quantisers\<close>

lemma sint_i8: "- 128 \<le> v \<Longrightarrow> v \<le> 127 \<Longrightarrow> sint (word_of_int v :: u8) = v"
  by (simp add: sint_sbintrunc' signed_take_bit_int_eq_self)

lemma sint_i16: "- 32768 \<le> v \<Longrightarrow> v \<le> 32767 \<Longrightarrow> sint (word_of_int v :: u16) = v"
  by (simp add: sint_sbintrunc' signed_take_bit_int_eq_self)

lemma sint_u8_range: "- 128 \<le> sint (b :: u8)" "sint (b :: u8) \<le> 127"
  using sint_ge [of b] sint_lt [of b] by simp_all

lemma sum16_range: "- 2048 \<le> (\<Sum>k \<leftarrow> [0 ..< 16]. sint (f k :: u8))" "(\<Sum>k \<leftarrow> [0 ..< 16]. sint (f k :: u8)) \<le> 2047"
proof -
  have "- 128 * int (length xs) \<le> (\<Sum>k \<leftarrow> xs. sint (f k))" "(\<Sum>k \<leftarrow> xs. sint (f k)) \<le> 127 * int (length xs)" for xs :: "nat list"
  proof (induction xs)
    case (Cons x xs)
    {
      case 1
      then show ?case using Cons.IH(1) sint_u8_range(1) [of "f x"] by (simp add: algebra_simps)
    next
      case 2
      then show ?case using Cons.IH(2) sint_u8_range(2) [of "f x"] by (simp add: algebra_simps)
    }
  qed simp_all
  from this [of "[0 ..< 16]"] show "- 2048 \<le> (\<Sum>k \<leftarrow> [0 ..< 16]. sint (f k :: u8))" "(\<Sum>k \<leftarrow> [0 ..< 16]. sint (f k :: u8)) \<le> 2047"
    by simp_all
qed

lemma saturate_range: "lo \<le> 0 \<Longrightarrow> 0 \<le> hi \<Longrightarrow> lo \<le> saturate lo hi x \<and> saturate lo hi x \<le> hi"
  by (auto simp: saturate_def split: f32.splits)

lemma quantize_block_ok:
  assumes "length chunk = qk_k" "g < 16"
  shows "length (q8_qs (quantize_block ops chunk)) = qk_k" "length (q8_bsums (quantize_block ops chunk)) = 16"
    and "sint (q8_bsums (quantize_block ops chunk) ! g) = group_sum (q8_qs (quantize_block ops chunk)) g"
proof -
  have i: "g * 16 + k < 256" if "k < 16" for k using assms(2) that by linarith
  have w: "sint (word_of_int (group_sum qs g) :: u16) = group_sum qs g" for qs
    using sum16_range [of "\<lambda>k. qs ! (g * 16 + k)"] by (intro sint_i16) (auto simp: group_sum_def)
  have z: "group_sum (replicate 256 0) g = 0"
  proof -
    have "map (\<lambda>k. sint ((replicate 256 0 :: u8 list) ! (g * 16 + k))) [0 ..< 16] = replicate 16 0"
      by (rule nth_equalityI) (simp_all add: i)
    then show ?thesis unfolding group_sum_def by (simp add: sum_list_replicate)
  qed
  show "length (q8_qs (quantize_block ops chunk)) = qk_k" "length (q8_bsums (quantize_block ops chunk)) = 16"
    using assms(1) by (simp_all add: quantize_block_def qk_k_def Let_def split: prod.splits)
  show "sint (q8_bsums (quantize_block ops chunk) ! g) = group_sum (q8_qs (quantize_block ops chunk)) g"
    using assms w z by (simp add: quantize_block_def qk_k_def Let_def split: prod.splits)
qed

lemma fold_updates:
  assumes "inj_on f (set ks)" "\<forall>i \<in> set ks. f i < length xs"
  shows "length (fold (\<lambda>i xs. xs[f i := g i]) ks xs) = length xs"
    and "i \<in> set ks \<Longrightarrow> fold (\<lambda>i xs. xs[f i := g i]) ks xs ! f i = g i"
    and "p \<notin> f ` set ks \<Longrightarrow> fold (\<lambda>i xs. xs[f i := g i]) ks xs ! p = xs ! p"
  using assms
proof (induction ks arbitrary: xs i p)
  case (Cons a as)
  {
    case 1
    then show ?case using Cons.IH(1) [where xs = "xs[f a := g a]"] by simp
  next
    case 2
    show ?case
    proof (cases "i \<in> set as")
      case True
      then show ?thesis using Cons.IH(2) [where xs = "xs[f a := g a]"] 2 by simp
    next
      case False
      then have i: "i = a" using 2(1) by simp
      then have "f a \<notin> f ` set as" using 2(2) False by (auto simp: inj_on_def)
      then show ?thesis using Cons.IH(3) [where p = "f a" and xs = "xs[f a := g a]"] 2 i by simp
    qed
  next
    case 3
    then show ?case using Cons.IH(3) [where p = p and xs = "xs[f a := g a]"] by auto
  }
qed auto

lemma dst_index_bits: "row < 4 \<Longrightarrow> dst_index row j div 32 = j div 8 \<and> dst_index row j mod 32 div 8 = row \<and> dst_index row j mod 8 = j mod 8"
proof -
  assume r: "row < 4"
  define q m where "q = j div 8" and "m = j mod 8"
  have m: "m < 8" by (simp add: m_def)
  have low: "row * 8 + m < 32" using r m by simp
  have d: "dst_index row j = q * 32 + (row * 8 + m)" by (simp add: dst_index_def q_def m_def)
  have "dst_index row j div 32 = q" "dst_index row j mod 32 = row * 8 + m" using low by (simp_all add: d)
  moreover have "(row * 8 + m) div 8 = row" using m by simp
  moreover have "dst_index row j mod 8 = m" using m by (simp add: d) presburger
  ultimately show ?thesis by (simp add: q_def m_def)
qed

lemma dst_index_inj: "row < 4 \<Longrightarrow> row' < 4 \<Longrightarrow> dst_index row j = dst_index row' j' \<longleftrightarrow> row = row' \<and> j = j'"
  using dst_index_bits [of row j] dst_index_bits [of row' j'] by (metis mult_div_mod_eq)

lemma dst_index_bound: "row < 4 \<Longrightarrow> j < 256 \<Longrightarrow> dst_index row j < 1024"
proof -
  assume a: "row < 4" "j < 256"
  then have "j div 8 \<le> 31" by (simp add: less_mult_imp_div_less flip: less_Suc_eq_le)
  moreover have "j mod 8 \<le> 7" by (simp flip: less_Suc_eq_le)
  ultimately show ?thesis using a by (simp add: dst_index_def)
qed

definition quant_4x8 :: "f32_ops \<Rightarrow> f32 list \<Rightarrow> nat \<Rightarrow> u8" where
  "quant_4x8 ops chunk j =
    (let (amax, mx) = amax_scan chunk
     in word_of_int (clamp_int (-128) 127 (saturate (- (2 ^ 31)) (2 ^ 31 - 1) (round_ties_even (f_mul ops (chunk ! j) (iscale_4x8 ops amax mx))))))"

definition scale_4x8 :: "f32_ops \<Rightarrow> f32 list \<Rightarrow> f32" where
  "scale_4x8 ops chunk =
    (let (amax, mx) = amax_scan chunk
     in if amax \<noteq> Fin 0 then f_div ops (Fin 1) (iscale_4x8 ops amax mx) else Fin 0)"

lemma quantize_row_eq:
  "quantize_row ops chunk row y =
    \<lparr>b4_d = (b4_d y)[row := scale_4x8 ops chunk],
     b4_qs = fold (\<lambda>j qs. qs[dst_index row j := quant_4x8 ops chunk j]) [0 ..< 256] (b4_qs y),
     b4_bsums = b4_bsums y\<rparr>"
  by (simp add: quantize_row_def quant_4x8_def scale_4x8_def qk_k_def Let_def split: prod.splits)

lemma quantize_row_at:
  assumes "row < 4" "length (b4_d y) = 4" "length (b4_qs y) = 1024"
  shows "length (b4_d (quantize_row ops chunk row y)) = 4" "length (b4_qs (quantize_row ops chunk row y)) = 1024"
    and "b4_d (quantize_row ops chunk row y) ! row = scale_4x8 ops chunk"
    and "j < 256 \<Longrightarrow> b4_qs (quantize_row ops chunk row y) ! dst_index row j = quant_4x8 ops chunk j"
    and "row' < 4 \<Longrightarrow> row' \<noteq> row \<Longrightarrow> b4_d (quantize_row ops chunk row y) ! row' = b4_d y ! row' \<and>
      (\<forall>j < 256. b4_qs (quantize_row ops chunk row y) ! dst_index row' j = b4_qs y ! dst_index row' j)"
proof -
  have i: "inj_on (dst_index row) (set [0 ..< 256])" using assms(1) by (auto simp: inj_on_def dst_index_inj)
  have b: "\<forall>j \<in> set [0 ..< 256]. dst_index row j < length (b4_qs y)" using assms dst_index_bound by auto
  note U = fold_updates [OF i b, where g = "quant_4x8 ops chunk"]
  show "length (b4_d (quantize_row ops chunk row y)) = 4" "length (b4_qs (quantize_row ops chunk row y)) = 1024"
    "b4_d (quantize_row ops chunk row y) ! row = scale_4x8 ops chunk"
    using U(1) assms by (simp_all add: quantize_row_eq)
  show "b4_qs (quantize_row ops chunk row y) ! dst_index row j = quant_4x8 ops chunk j" if "j < 256"
    using U(2) [of j] that by (simp add: quantize_row_eq)
  show "b4_d (quantize_row ops chunk row y) ! row' = b4_d y ! row' \<and>
      (\<forall>j < 256. b4_qs (quantize_row ops chunk row y) ! dst_index row' j = b4_qs y ! dst_index row' j)" if "row' < 4" "row' \<noteq> row"
  proof -
    have "dst_index row' j \<notin> dst_index row ` set [0 ..< 256]" for j using assms(1) that by (auto simp: dst_index_inj)
    then show ?thesis using U(3) that by (simp add: quantize_row_eq)
  qed
qed

lemma quantize_rows_at:
  "n \<le> 4 \<Longrightarrow> length (b4_d y) = 4 \<Longrightarrow> length (b4_qs y) = 1024 \<Longrightarrow>
   (let z = fold (\<lambda>row. quantize_row ops (ch row) row) [0 ..< n] y
    in length (b4_d z) = 4 \<and> length (b4_qs z) = 1024 \<and>
      (\<forall>row < n. b4_d z ! row = scale_4x8 ops (ch row) \<and> (\<forall>j < 256. b4_qs z ! dst_index row j = quant_4x8 ops (ch row) j)))"
proof (induction n)
  case (Suc n)
  define z where "z = fold (\<lambda>row. quantize_row ops (ch row) row) [0 ..< n] y"
  have z: "length (b4_d z) = 4" "length (b4_qs z) = 1024"
    "\<forall>row < n. b4_d z ! row = scale_4x8 ops (ch row) \<and> (\<forall>j < 256. b4_qs z ! dst_index row j = quant_4x8 ops (ch row) j)"
    using Suc by (simp_all add: z_def Let_def)
  have n: "n < 4" using Suc.prems(1) by simp
  note Q = quantize_row_at [OF n z(1,2), where ops = ops and chunk = "ch n"]
  have f: "fold (\<lambda>row. quantize_row ops (ch row) row) [0 ..< Suc n] y = quantize_row ops (ch n) n z"
    by (simp add: z_def)
  show ?case
    unfolding f Let_def
  proof (intro conjI allI impI)
    fix row j :: nat
    assume "row < Suc n"
    then consider "row = n" | "row < n" "row < 4" "row \<noteq> n" using n by linarith
    note cases = this
    show "b4_d (quantize_row ops (ch n) n z) ! row = scale_4x8 ops (ch row)"
      using cases by cases (use Q(3,5) z(3) in auto)
    show "b4_qs (quantize_row ops (ch n) n z) ! dst_index row j = quant_4x8 ops (ch row) j" if "j < 256"
      using cases by cases (use Q(4,5) z(3) that in auto)
  qed (use Q in simp_all)
qed (simp add: Let_def)

lemma quantize_4_rows_at:
  assumes "length (b4_d y) = 4" "length (b4_qs y) = 1024" "row < 4"
    and ch_def: "ch = (\<lambda>row. subslice x (row * k + i * 256) (row * k + i * 256 + 256))"
  shows "b4_d (quantize_4_rows ops x k i y) ! row = scale_4x8 ops (ch row)"
    and "j < 256 \<Longrightarrow> b4_qs (quantize_4_rows ops x k i y) ! dst_index row j = quant_4x8 ops (ch row) j"
    and "g < 16 \<Longrightarrow> sint (b4_bsums (quantize_4_rows ops x k i y) ! (row * 16 + g)) =
      (\<Sum>m \<leftarrow> [0 ..< 16]. sint (b4_qs (quantize_4_rows ops x k i y) ! dst_index row (g * 16 + m)))"
proof -
  define z where "z = fold (\<lambda>row. quantize_row ops (ch row) row) [0 ..< 4] y"
  have z: "\<forall>row < 4. b4_d z ! row = scale_4x8 ops (ch row) \<and> (\<forall>j < 256. b4_qs z ! dst_index row j = quant_4x8 ops (ch row) j)"
    using quantize_rows_at [OF order.refl assms(1,2), of ops ch] unfolding Let_def z_def by blast
  let ?bs = "fold (\<lambda>(row, g) bs. bs[row * 16 + g := bsum_4x8 (b4_qs z) row g]) (List.product [0 ..< 4] [0 ..< 16]) (replicate 64 0)"
  have e: "quantize_4_rows ops x k i y = z\<lparr>b4_bsums := ?bs\<rparr>"
    by (simp add: quantize_4_rows_def z_def ch_def qk_k_def Let_def)
  show "b4_d (quantize_4_rows ops x k i y) ! row = scale_4x8 ops (ch row)" using z assms(3) by (simp add: e)
  show "b4_qs (quantize_4_rows ops x k i y) ! dst_index row j = quant_4x8 ops (ch row) j" if "j < 256"
    using z assms(3) that by (simp add: e)
  have inj: "inj_on (\<lambda>(row, g). row * 16 + g) (set (List.product [0 ..< 4] [0 ..< 16 :: nat]))"
    unfolding inj_on_def set_product by (auto dest: digits_unique)
  have bound: "\<forall>t \<in> set (List.product [0 ..< 4] [0 ..< 16 :: nat]). (\<lambda>(row, g). row * 16 + g) t < length (replicate 64 (0 :: u16))"
    by auto
  have fold_eq: "(\<lambda>(row, g) bs. bs[row * 16 + g := bsum_4x8 (b4_qs z) row g]) =
    (\<lambda>t bs. bs[(\<lambda>(row, g). row * 16 + g) t := (\<lambda>(row, g). bsum_4x8 (b4_qs z) row g) t])"
    by (auto simp: fun_eq_iff)
  show "sint (b4_bsums (quantize_4_rows ops x k i y) ! (row * 16 + g)) =
      (\<Sum>m \<leftarrow> [0 ..< 16]. sint (b4_qs (quantize_4_rows ops x k i y) ! dst_index row (g * 16 + m)))" if g: "g < 16"
  proof -
    have "?bs ! (row * 16 + g) = bsum_4x8 (b4_qs z) row g"
      using fold_updates(2) [OF inj bound, where g = "\<lambda>(row, g). bsum_4x8 (b4_qs z) row g" and i = "(row, g)"] g assms(3)
      by (simp add: fold_eq)
    moreover have "sint (bsum_4x8 (b4_qs z) row g) = (\<Sum>m \<leftarrow> [0 ..< 16]. sint (b4_qs z ! dst_index row (g * 16 + m)))"
      using sum16_range [of "\<lambda>m. b4_qs z ! dst_index row (g * 16 + m)"]
      unfolding bsum_4x8_def by (subst sint_i16) (auto simp: clamp_int_def)
    ultimately show ?thesis by (simp add: e)
  qed
qed

section \<open>What the kernels promise\<close>

text \<open>
  C34: Products over the interleaved layout are the products of the original rows: entry \<open>n\<close> of output row \<open>row\<close> of the scalar matrix
  product adds up, block by block, the dequantised weights of weight row \<open>n\<close> times the activations of row \<open>row\<close>, whatever the output
  buffer held before; and the threaded matrix-vector product gives the same entries in whatever order its tasks run.
\<close>

theorem q4k_products:
  assumes "matrix_ok w (ncb * 8) nb" "length acts = nr * nb" "length out = nr * (ncb * 8)"
  shows "(\<exists>out'. gemm_q4_k_8x8_q8_k (gemv_q4_k_8x8_q8_k_scalar ops) (packed w ncb nb) acts out nr (ncb * 8) nb = Some out' \<and>
      length out' = nr * (ncb * 8) \<and>
      (\<forall>row < nr. \<forall>n < ncb * 8. out' ! (row * (ncb * 8) + n) = product ops w nb (subslice acts (row * nb) ((row + 1) * nb)) n)) \<and>
    (\<forall>tasks. nr = 1 \<and> mset tasks = mset [0 ..< ncb] \<longrightarrow>
      matvec_q4k_8x8_par (gemv_q4_k_8x8_q8_k_scalar ops) tasks (packed w ncb nb) acts out ncb nb =
        Some (map (product ops w nb acts) [0 ..< ncb * 8]))"
  using gemm_packed [OF assms] matvec_packed [OF assms(1)] assms(2,3) by simp

theorem q4k_products_witness:
  "\<forall>a ops. matvec_q4k_8x8_par (gemv_q4_k_8x8_q8_k_scalar ops) [1, 0] (packed (\<lambda>n c. demo_block n) 2 1) [a] (replicate 16 (Fin 7)) 2 1 =
    Some (map (product ops (\<lambda>n c. demo_block n) 1 [a]) [0 ..< 16])"
proof (intro allI)
  fix a ops
  have "matrix_ok (\<lambda>n c. demo_block n) (2 * 8) 1" by (simp add: matrix_ok_def demo_block_ok)
  moreover have "mset [1, 0] = mset [0 ..< 2]" by (simp add: upt_rec)
  ultimately show "matvec_q4k_8x8_par (gemv_q4_k_8x8_q8_k_scalar ops) [1, 0] (packed (\<lambda>n c. demo_block n) 2 1) [a] (replicate 16 (Fin 7)) 2 1 =
      Some (map (product ops (\<lambda>n c. demo_block n) 1 [a]) [0 ..< 16])"
    using q4k_products [of "\<lambda>n c. demo_block n" 2 1 "[a]" 1 "replicate 16 (Fin 7)" ops] by simp
qed

text \<open>The shape of a \<^verbatim>\<open>BlockQ8K\<close>: its group sums are the sums of its quants.\<close>

definition q8_ok :: "block_q8k \<Rightarrow> bool" where
  "q8_ok y = (length (q8_qs y) = qk_k \<and> length (q8_bsums y) = 16 \<and> (\<forall>g < 16. sint (q8_bsums y ! g) = group_sum (q8_qs y) g))"


text \<open>
  The four-row quantiser overwrites every entry of its blocks: entry \<open>j\<close> of row \<open>row\<close> of block \<open>i\<close> lies at
  \<open>dst_index row j\<close> and holds the rounded, clamped product of the input with the scale of its row, and the sums of sixteen are exact.
\<close>

theorem quantize_4x8_exact:
  assumes "k mod 256 = 0" "length x = 4 * k" "length y = k div 256" "i < k div 256" "row < 4"
    and "\<forall>b \<in> set y. length (b4_d b) = 4 \<and> length (b4_qs b) = 1024"
  shows "\<exists>ys chunk. quantize_mat_q8_k_4x8_scalar ops x y k = Some ys \<and> length ys = k div 256 \<and>
    chunk = subslice x (row * k + i * 256) (row * k + i * 256 + 256) \<and> length chunk = 256 \<and>
    b4_d (ys ! i) ! row = scale_4x8 ops chunk \<and>
    (\<forall>j < 256. b4_qs (ys ! i) ! dst_index row j = quant_4x8 ops chunk j) \<and>
    (\<forall>g < 16. sint (b4_bsums (ys ! i) ! (row * 16 + g)) = (\<Sum>m \<leftarrow> [0 ..< 16]. sint (b4_qs (ys ! i) ! dst_index row (g * 16 + m))))"
proof -
  have y: "length (b4_d (y ! i)) = 4" "length (b4_qs (y ! i)) = 1024" using assms(3,4,6) by auto
  note Q = quantize_4_rows_at [OF y assms(5) refl, where ops = ops and x = x and k = k and i = i]
  have "(i + 1) * 256 \<le> k div 256 * 256" using assms(4) by (intro mult_le_mono1) simp
  then have "i * 256 + 256 \<le> k" using assms(1) by simp
  moreover have "(row + 1) * k \<le> 4 * k" using assms(5) by (intro mult_le_mono1) simp
  then have "row * k + k \<le> 4 * k" by simp
  ultimately have "row * k + i * 256 + 256 \<le> length x" unfolding assms(2) by linarith
  then have "length (subslice x (row * k + i * 256) (row * k + i * 256 + 256)) = 256" by simp
  then show ?thesis using Q assms(1-4) by (simp add: quantize_mat_q8_k_4x8_scalar_def qk_k_def)
qed

theorem quantize_4x8_exact_witness:
  "\<forall>ops. \<exists>ys. quantize_mat_q8_k_4x8_scalar ops (replicate 1024 (Fin 1)) [\<lparr>b4_d = replicate 4 (Fin 0), b4_qs = replicate 1024 9, b4_bsums = []\<rparr>] 256 = Some ys \<and>
    b4_qs (ys ! 0) ! dst_index 3 255 = quant_4x8 ops (replicate 256 (Fin 1)) 255"
proof
  fix ops
  let ?y = "[\<lparr>b4_d = replicate 4 (Fin 0), b4_qs = replicate 1024 (9 :: u8), b4_bsums = []\<rparr>]"
  have s: "subslice (replicate 1024 (Fin 1)) (3 * 256 + 0 * 256) (3 * 256 + 0 * 256 + 256) = replicate 256 (Fin 1)"
    by (simp add: subslice_def)
  show "\<exists>ys. quantize_mat_q8_k_4x8_scalar ops (replicate 1024 (Fin 1)) ?y 256 = Some ys \<and>
    b4_qs (ys ! 0) ! dst_index 3 255 = quant_4x8 ops (replicate 256 (Fin 1)) 255"
    using quantize_4x8_exact [of 256 "replicate 1024 (Fin 1)" ?y 0 3 ops] unfolding s by auto
qed


end
