(* ===== verification/KvCache.thy ===== *)
theory KvCache
  imports SpecDecode MemoryStore
begin

text \<open>
  The CPU back end and its key/value cache: \<^verbatim>\<open>src/src/backend/candle/backend.rs\<close> and the forward passes of
  \<^verbatim>\<open>src/src/backend/candle/quantized_llama_fork.rs\<close>. A cache is modelled per layer, as the list of its rows: one row holds the
  key and the value of one position. The tensor products are code of the candle library; they are the fields of \<open>block\<close> and
  \<open>llama\<close>, as functions of one position and the rows it sees (which leaves out that batched and single products may round
  differently). The lemmas show when the rows in the cache are those of a pass from scratch, which is what every reuse of the
  cache relies on, and what a pass does when they are not.
\<close>

section \<open>The model weights\<close>

record 'r block =
  bl_norm :: "tensor \<Rightarrow> tensor"
  bl_kv :: "tensor \<Rightarrow> nat \<Rightarrow> 'r"
  bl_attend :: "tensor \<Rightarrow> nat \<Rightarrow> 'r list \<Rightarrow> tensor"
  bl_ffn :: "tensor \<Rightarrow> tensor"

record 'r llama =
  ll_embed :: "token \<Rightarrow> tensor option"
  ll_blocks :: "'r block list"
  ll_add :: "tensor \<Rightarrow> tensor \<Rightarrow> tensor"
  ll_head :: "tensor \<Rightarrow> f32 list"
  ll_max_seq :: nat
  ll_append_ok :: "nat \<Rightarrow> nat \<Rightarrow> bool"

type_synonym 'r caches = "'r list list"

definition embed_rows :: "'r llama \<Rightarrow> token list \<Rightarrow> tensor list option" where
  "embed_rows L ts = (if list_all (\<lambda>t. ll_embed L t \<noteq> None) ts then Some (map (the \<circ> ll_embed L) ts) else None)"

text \<open>
  The causal mask is a rectangle of the new positions against all of them; \<open>Some kv_len\<close> is its width. A single position has no
  mask and sees the whole cache.
\<close>

definition causal_mask :: "nat \<Rightarrow> nat \<Rightarrow> nat option" where
  "causal_mask seq_len index_pos = (if seq_len = 1 then None else Some (index_pos + seq_len))"

definition visible :: "nat option \<Rightarrow> nat \<Rightarrow> nat \<Rightarrow> 'r list \<Rightarrow> 'r list" where
  "visible msk seq_len i kv = (case msk of None \<Rightarrow> kv | Some kv_len \<Rightarrow> take (kv_len - seq_len + i + 1) kv)"

text \<open>
  The rotary tables end at \<open>ll_max_seq\<close>, the cache of the library refuses what does not fit, and a mask whose width is not the
  length of the cache cannot be broadcast; in the last case the rows have been appended already.
\<close>

definition forward_attn ::
  "'r llama \<Rightarrow> 'r block \<Rightarrow> nat option \<Rightarrow> nat \<Rightarrow> tensor list \<Rightarrow> 'r list \<Rightarrow> tensor list option \<times> 'r list" where
  "forward_attn L b msk index_pos xs kv =
    (let n = length xs in
     if ll_max_seq L < index_pos + n then (None, kv)
     else if \<not> ll_append_ok L (length kv) n then (None, kv)
     else (let kv' = kv @ map (\<lambda>i. bl_kv b (xs ! i) (index_pos + i)) [0 ..< n] in
       if (case msk of None \<Rightarrow> False | Some w \<Rightarrow> w \<noteq> length kv') then (None, kv')
       else (Some (map (\<lambda>i. bl_attend b (xs ! i) (index_pos + i) (visible msk n i kv')) [0 ..< n]), kv')))"

definition residual :: "'r llama \<Rightarrow> 'r block \<Rightarrow> tensor \<Rightarrow> tensor \<Rightarrow> tensor" where
  "residual L b attn x = (let y = ll_add L attn x in ll_add L (bl_ffn b y) y)"

definition block_pass ::
  "'r llama \<Rightarrow> 'r block \<Rightarrow> nat option \<Rightarrow> nat \<Rightarrow> tensor list \<Rightarrow> 'r list \<Rightarrow> tensor list option \<times> 'r list" where
  "block_pass L b msk index_pos xs kv =
    (case forward_attn L b msk index_pos (map (bl_norm b) xs) kv of
       (None, kv') \<Rightarrow> (None, kv')
     | (Some as, kv') \<Rightarrow> (Some (map (\<lambda>i. residual L b (as ! i) (xs ! i)) [0 ..< length xs]), kv'))"

section \<open>The passes over the layers\<close>

text \<open>A callback may return a new residual stream; \<open>'s\<close> is what it keeps.\<close>

type_synonym 's on_layer = "nat \<Rightarrow> tensor list \<Rightarrow> 's \<Rightarrow> tensor list option \<times> 's"

fun layer_loop ::
  "'r llama \<Rightarrow> 's on_layer \<Rightarrow> nat option \<Rightarrow> nat \<Rightarrow> nat \<Rightarrow> 'r block list \<Rightarrow> 'r caches \<Rightarrow> tensor list \<Rightarrow> 's \<Rightarrow> tensor list option \<times> 'r caches \<times> 's" where
  "layer_loop L cb msk index_pos l (b # bs) (kv # kvs) xs s =
    (case block_pass L b msk index_pos xs kv of
       (None, kv') \<Rightarrow> (None, kv' # kvs, s)
     | (Some ys, kv') \<Rightarrow>
         (let (modified, s1) = cb l ys s;
              (r, kvs', s2) = layer_loop L cb msk index_pos (Suc l) bs kvs (case modified of None \<Rightarrow> ys | Some zs \<Rightarrow> zs) s1
          in (r, kv' # kvs', s2)))"
| "layer_loop L cb msk index_pos l bs kvs xs s = (Some xs, kvs, s)"

definition forward_with_callback ::
  "'r llama \<Rightarrow> 's on_layer \<Rightarrow> token list \<Rightarrow> nat \<Rightarrow> 'r caches \<Rightarrow> 's \<Rightarrow> f32 list option \<times> 'r caches \<times> 's" where
  "forward_with_callback L cb ts index_pos kvs s =
    (case embed_rows L ts of None \<Rightarrow> (None, kvs, s)
     | Some xs \<Rightarrow>
         (let (r, kvs', s') = layer_loop L cb (causal_mask (length ts) index_pos) index_pos 0 (ll_blocks L) kvs xs s
          in (map_option (\<lambda>ys. ll_head L (last ys)) r, kvs', s')))"

definition no_callback :: "unit on_layer" where
  "no_callback l xs s = (None, ())"

text \<open>The pass that stops at a layer: the caches of the layers above it do not get the new position.\<close>

fun exit_loop ::
  "'r llama \<Rightarrow> (nat \<Rightarrow> tensor list \<Rightarrow> bool) \<Rightarrow> nat option \<Rightarrow> nat \<Rightarrow> nat \<Rightarrow> nat \<Rightarrow> 'r block list \<Rightarrow> 'r caches \<Rightarrow> tensor list \<Rightarrow> (tensor list \<times> nat) option \<times> 'r caches" where
  "exit_loop L should_exit msk index_pos last_layer l (b # bs) (kv # kvs) xs =
    (case block_pass L b msk index_pos xs kv of
       (None, kv') \<Rightarrow> (None, kv' # kvs)
     | (Some ys, kv') \<Rightarrow>
         if l < last_layer \<and> should_exit l ys then (Some (ys, l), kv' # kvs)
         else (let (r, kvs') = exit_loop L should_exit msk index_pos last_layer (Suc l) bs kvs ys in (r, kv' # kvs')))"
| "exit_loop L should_exit msk index_pos last_layer l bs kvs xs = (Some (xs, last_layer), kvs)"

definition forward_with_early_exit ::
  "'r llama \<Rightarrow> (nat \<Rightarrow> tensor list \<Rightarrow> bool) \<Rightarrow> token list \<Rightarrow> nat \<Rightarrow> 'r caches \<Rightarrow> (f32 list \<times> nat) option \<times> 'r caches" where
  "forward_with_early_exit L should_exit ts index_pos kvs =
    (case embed_rows L ts of None \<Rightarrow> (None, kvs)
     | Some xs \<Rightarrow>
         (let (r, kvs') = exit_loop L should_exit (causal_mask (length ts) index_pos) index_pos (length (ll_blocks L) - 1) 0 (ll_blocks L) kvs xs
          in (map_option (\<lambda>(ys, l). (ll_head L (last ys), l)) r, kvs')))"

definition forward_all_positions :: "'r llama \<Rightarrow> token list \<Rightarrow> nat \<Rightarrow> 'r caches \<Rightarrow> f32 list list option \<times> 'r caches" where
  "forward_all_positions L ts index_pos kvs =
    (case embed_rows L ts of None \<Rightarrow> (None, kvs)
     | Some xs \<Rightarrow>
         (let (r, kvs', _) = layer_loop L no_callback (causal_mask (length ts) index_pos) index_pos 0 (ll_blocks L) kvs xs ()
          in (map_option (map (ll_head L)) r, kvs')))"

text \<open>The diagnostic pass records the winner of every layer; here the callback keeps them.\<close>

definition forward_per_layer_argmax :: "'r llama \<Rightarrow> token list \<Rightarrow> nat \<Rightarrow> 'r caches \<Rightarrow> (f32 list \<times> token list) option \<times> 'r caches" where
  "forward_per_layer_argmax L ts index_pos kvs =
    (case forward_with_callback L (\<lambda>l ys top1. (None, top1 @ [argmax (ll_head L (last ys))])) ts index_pos kvs [] of
       (r, kvs', top1) \<Rightarrow> (map_option (\<lambda>logits. (logits, top1)) r, kvs'))"

definition clear_kv_cache :: "'r caches \<Rightarrow> 'r caches" where
  "clear_kv_cache kvs = map (\<lambda>kv. []) kvs"

definition truncate_kv_cache :: "nat \<Rightarrow> 'r caches \<Rightarrow> 'r caches" where
  "truncate_kv_cache n kvs = map (\<lambda>kv. if length kv \<le> n then kv else if n = 0 then [] else take n kv) kvs"

text \<open>One block as a standalone pass: its cache is emptied before and after it. \<open>None\<close> is the error of a layer out of range.\<close>

definition forward_one_layer :: "'r llama \<Rightarrow> nat \<Rightarrow> tensor list \<Rightarrow> 'r caches \<Rightarrow> tensor list option \<times> 'r caches" where
  "forward_one_layer L l xs kvs =
    (if l < length (ll_blocks L)
     then (case block_pass L (ll_blocks L ! l) (causal_mask (length xs) 0) 0 xs [] of
         (None, kv') \<Rightarrow> (None, kvs[l := kv'])
       | (Some ys, kv') \<Rightarrow> (Some ys, kvs[l := []]))
     else (None, kvs))"

definition logits_from_hidden :: "'r llama \<Rightarrow> tensor list \<Rightarrow> f32 list" where
  "logits_from_hidden L xs = ll_head L (last xs)"

section \<open>The back end\<close>

datatype zllm_error =
    Config_error string
  | Model_error string
  | Memory_error string
  | Backend_error string
  | Hook_error string
  | Early_exit_error string
  | Io_error string

record 'r candle =
  cb_model :: "'r llama option"
  cb_n_layers :: nat
  cb_hidden_size :: nat
  cb_index_pos :: nat
  cb_max_seq_cap :: nat
  cb_kv :: "'r caches"

definition default_max_seq_cap :: nat where
  "default_max_seq_cap = 32768"

definition new_candle :: "'r candle" where
  "new_candle = \<lparr>cb_model = None, cb_n_layers = 0, cb_hidden_size = 0, cb_index_pos = 0, cb_max_seq_cap = default_max_seq_cap,
     cb_kv = []\<rparr>"

definition position :: "'r candle \<Rightarrow> nat" where
  "position B = cb_index_pos B"

definition reset_position :: "'r candle \<Rightarrow> 'r candle" where
  "reset_position B = B\<lparr>cb_index_pos := 0, cb_kv := (case cb_model B of None \<Rightarrow> cb_kv B | Some L \<Rightarrow> clear_kv_cache (cb_kv B))\<rparr>"

text \<open>The tensor operations of the truncation stay inside the cache they read, so the error of \<^verbatim>\<open>truncate_to\<close> does not arise.\<close>

definition truncate_to :: "nat \<Rightarrow> 'r candle \<Rightarrow> 'r candle" where
  "truncate_to n B = B\<lparr>cb_index_pos := n, cb_kv := (case cb_model B of None \<Rightarrow> cb_kv B | Some L \<Rightarrow> truncate_kv_cache n (cb_kv B))\<rparr>"

definition set_max_seq_cap :: "nat \<Rightarrow> 'r candle \<Rightarrow> 'r candle" where
  "set_max_seq_cap cap B = B\<lparr>cb_max_seq_cap := max cap 512\<rparr>"

definition max_seq :: "'r candle \<Rightarrow> nat" where
  "max_seq B = (case cb_model B of None \<Rightarrow> 0 | Some L \<Rightarrow> ll_max_seq L)"

text \<open>
  Reading the file is a parameter: from the path and the cap, the weights and the two hyperparameters, or the error.
\<close>

type_synonym 'r loader = "string \<Rightarrow> nat \<Rightarrow> string + ('r llama \<times> nat \<times> nat)"

definition load_model :: "'r loader \<Rightarrow> string \<Rightarrow> 'r candle \<Rightarrow> (zllm_error + unit) \<times> 'r candle" where
  "load_model loader path B =
    (case loader path (cb_max_seq_cap B) of
       Inl e \<Rightarrow> (Inl (Model_error e), B)
     | Inr (L, n_layers, n_embd) \<Rightarrow>
         (Inr (), B\<lparr>cb_model := Some L, cb_n_layers := n_layers, cb_hidden_size := n_embd, cb_index_pos := 0,
                    cb_kv := replicate (length (ll_blocks L)) []\<rparr>))"

definition unload_model :: "'r candle \<Rightarrow> 'r candle" where
  "unload_model B = B\<lparr>cb_model := None, cb_index_pos := 0, cb_kv := []\<rparr>"

function pieces :: "nat \<Rightarrow> 'a list \<Rightarrow> 'a list list" where
  "pieces n xs = (if n = 0 \<or> xs = [] then [] else take n xs # pieces n (drop n xs))"
  by pat_completeness auto
termination
  by (relation "measure (length \<circ> snd)") auto

declare pieces.simps [simp del]

text \<open>The prompt goes through the model in chunks; the first chunk that fails ends the pass.\<close>

fun forward_pieces ::
  "'r llama \<Rightarrow> 's on_layer \<Rightarrow> token list list \<Rightarrow> f32 list option \<Rightarrow> 'r candle \<Rightarrow> 's \<Rightarrow> (zllm_error + f32 list option) \<times> 'r candle \<times> 's" where
  "forward_pieces L cb [] last_logits B s = (Inr last_logits, B, s)"
| "forward_pieces L cb (piece # ps) last_logits B s =
    (case forward_with_callback L cb piece (cb_index_pos B) (cb_kv B) s of
       (None, kvs, s') \<Rightarrow> (Inl (Backend_error ''forward pass''), B\<lparr>cb_kv := kvs\<rparr>, s')
     | (Some logits, kvs, s') \<Rightarrow>
         forward_pieces L cb ps (Some logits) (B\<lparr>cb_kv := kvs, cb_index_pos := cb_index_pos B + length piece\<rparr>) s')"

text \<open>\<open>chunk\<close> is \<^verbatim>\<open>ZLLM_PREFILL_CHUNK\<close>.\<close>

definition forward_logits_with_observer ::
  "nat option \<Rightarrow> 's on_layer \<Rightarrow> token list \<Rightarrow> 'r candle \<Rightarrow> 's \<Rightarrow> (zllm_error + f32 list) \<times> 'r candle \<times> 's" where
  "forward_logits_with_observer chunk cb ts B s =
    (case cb_model B of
       None \<Rightarrow> (Inl (Model_error ''model not loaded''), B, s)
     | Some L \<Rightarrow>
         if ts = [] then (Inl (Backend_error ''forward_logits: empty input''), B, s)
         else (case forward_pieces L cb (pieces (max (case chunk of Some n \<Rightarrow> n | None \<Rightarrow> 512) 16) ts) None B s of
             (Inl e, B', s') \<Rightarrow> (Inl e, B', s')
           | (Inr last_logits, B', s') \<Rightarrow> (Inr (the last_logits), B', s')))"

definition forward_logits :: "nat option \<Rightarrow> token list \<Rightarrow> 'r candle \<Rightarrow> (zllm_error + f32 list) \<times> 'r candle" where
  "forward_logits chunk ts B = (case forward_logits_with_observer chunk no_callback ts B () of (r, B', _) \<Rightarrow> (r, B'))"

definition forward_logits_early_exit ::
  "(nat \<Rightarrow> tensor list \<Rightarrow> bool) \<Rightarrow> token list \<Rightarrow> 'r candle \<Rightarrow> (zllm_error + f32 list \<times> nat) \<times> 'r candle" where
  "forward_logits_early_exit should_exit ts B =
    (case cb_model B of
       None \<Rightarrow> (Inl (Model_error ''model not loaded''), B)
     | Some L \<Rightarrow>
         (case forward_with_early_exit L should_exit ts (cb_index_pos B) (cb_kv B) of
            (None, kvs) \<Rightarrow> (Inl (Backend_error ''forward pass''), B\<lparr>cb_kv := kvs\<rparr>)
          | (Some r, kvs) \<Rightarrow> (Inr r, B\<lparr>cb_kv := kvs, cb_index_pos := cb_index_pos B + length ts\<rparr>)))"

definition forward_all_logits :: "token list \<Rightarrow> 'r candle \<Rightarrow> (zllm_error + f32 list list) \<times> 'r candle" where
  "forward_all_logits ts B =
    (case cb_model B of
       None \<Rightarrow> (Inl (Model_error ''model not loaded''), B)
     | Some L \<Rightarrow>
         (case forward_all_positions L ts (cb_index_pos B) (cb_kv B) of
            (None, kvs) \<Rightarrow> (Inl (Backend_error ''forward pass''), B\<lparr>cb_kv := kvs\<rparr>)
          | (Some rows, kvs) \<Rightarrow> (Inr rows, B\<lparr>cb_kv := kvs, cb_index_pos := cb_index_pos B + length ts\<rparr>)))"

definition backend_per_layer_argmax :: "token list \<Rightarrow> 'r candle \<Rightarrow> (zllm_error + f32 list \<times> token list) \<times> 'r candle" where
  "backend_per_layer_argmax ts B =
    (case cb_model B of
       None \<Rightarrow> (Inl (Model_error ''model not loaded''), B)
     | Some L \<Rightarrow>
         (case forward_per_layer_argmax L ts (cb_index_pos B) (cb_kv B) of
            (None, kvs) \<Rightarrow> (Inl (Backend_error ''forward pass''), B\<lparr>cb_kv := kvs\<rparr>)
          | (Some r, kvs) \<Rightarrow> (Inr r, B\<lparr>cb_kv := kvs, cb_index_pos := cb_index_pos B + length ts\<rparr>)))"

text \<open>\<^verbatim>\<open>max_by\<close> with incomparable values equal: the last of the greatest.\<close>

fun argmax_last :: "f32 list \<Rightarrow> nat \<Rightarrow> nat \<Rightarrow> f32 \<Rightarrow> nat" where
  "argmax_last [] i bi bv = bi"
| "argmax_last (x # xs) i bi bv = (if f32_lt x bv then argmax_last xs (Suc i) bi bv else argmax_last xs (Suc i) i x)"

definition argmax_token :: "f32 list \<Rightarrow> token" where
  "argmax_token logits = (case logits of [] \<Rightarrow> 0 | x # xs \<Rightarrow> argmax_last xs 1 0 x mod 2 ^ 32)"

definition generate_token :: "nat option \<Rightarrow> token list \<Rightarrow> 'r candle \<Rightarrow> (zllm_error + token) \<times> 'r candle" where
  "generate_token chunk ts B = (case forward_logits chunk ts B of (Inl e, B') \<Rightarrow> (Inl e, B') | (Inr l, B') \<Rightarrow> (Inr (argmax_token l), B'))"

section \<open>The layer by layer surface\<close>

text \<open>The operations of \<^verbatim>\<open>trait Backend\<close> work on flat tensors: the hidden vectors of the positions one after the other.\<close>

definition candle_embed_tokens :: "token list \<Rightarrow> 'r candle \<Rightarrow> zllm_error + tensor" where
  "candle_embed_tokens ts B =
    (case cb_model B of
       None \<Rightarrow> Inl (Model_error ''model not loaded'')
     | Some L \<Rightarrow>
         if ts = [] then Inl (Backend_error ''embed_tokens: empty token slice'')
         else (case embed_rows L ts of None \<Rightarrow> Inl (Backend_error ''embedding lookup'') | Some xs \<Rightarrow> Inr (concat xs)))"

definition split_rows :: "nat \<Rightarrow> nat \<Rightarrow> tensor \<Rightarrow> tensor list" where
  "split_rows n hs h = map (\<lambda>i. take hs (drop (i * hs) h)) [0 ..< n]"

definition candle_forward_layer :: "nat \<Rightarrow> tensor \<Rightarrow> nat \<Rightarrow> 'r candle \<Rightarrow> (zllm_error + tensor) \<times> 'r candle" where
  "candle_forward_layer l h seq_len B =
    (if seq_len = 0 \<or> length h \<noteq> seq_len * cb_hidden_size B then (Inl (Backend_error ''forward_layer: hidden len''), B)
     else (case cb_model B of
         None \<Rightarrow> (Inl (Model_error ''model not loaded''), B)
       | Some L \<Rightarrow>
           (case forward_one_layer L l (split_rows seq_len (cb_hidden_size B) h) (cb_kv B) of
              (None, kvs) \<Rightarrow> (Inl (Backend_error ''layer forward''), B\<lparr>cb_kv := kvs\<rparr>)
            | (Some ys, kvs) \<Rightarrow> (Inr (concat ys), B\<lparr>cb_kv := kvs\<rparr>))))"

definition candle_compute_logits :: "tensor \<Rightarrow> 'r candle \<Rightarrow> zllm_error + tensor" where
  "candle_compute_logits h B =
    (case cb_model B of
       None \<Rightarrow> Inl (Model_error ''model not loaded'')
     | Some L \<Rightarrow>
         if cb_hidden_size B = 0 \<or> h = [] \<or> length h mod cb_hidden_size B \<noteq> 0
         then Inl (Backend_error ''compute_logits: hidden len'')
         else Inr (logits_from_hidden L (split_rows (length h div cb_hidden_size B) (cb_hidden_size B) h)))"

section \<open>A pass from scratch\<close>

text \<open>A callback that only observes leaves the residual stream alone.\<close>

definition observing :: "'s on_layer \<Rightarrow> bool" where
  "observing cb = (\<forall>l xs s. fst (cb l xs s) = None)"

lemma observing_no_callback [simp]: "observing no_callback"
  by (simp add: observing_def no_callback_def)

text \<open>The specification: the rows and the outputs of a block over a whole context, without a cache.\<close>

definition ref_rows :: "'r block \<Rightarrow> tensor list \<Rightarrow> 'r list" where
  "ref_rows b xs = map (\<lambda>i. bl_kv b (bl_norm b (xs ! i)) i) [0 ..< length xs]"

definition ref_block :: "'r llama \<Rightarrow> 'r block \<Rightarrow> tensor list \<Rightarrow> tensor list" where
  "ref_block L b xs = map (\<lambda>i. residual L b (bl_attend b (bl_norm b (xs ! i)) i (take (Suc i) (ref_rows b xs))) (xs ! i)) [0 ..< length xs]"

fun ref_layers :: "'r llama \<Rightarrow> 'r block list \<Rightarrow> tensor list \<Rightarrow> tensor list" where
  "ref_layers L [] xs = xs"
| "ref_layers L (b # bs) xs = ref_layers L bs (ref_block L b xs)"

fun ref_caches :: "'r llama \<Rightarrow> 'r block list \<Rightarrow> tensor list \<Rightarrow> 'r caches" where
  "ref_caches L [] xs = []"
| "ref_caches L (b # bs) xs = ref_rows b xs # ref_caches L bs (ref_block L b xs)"

definition embedded :: "'r llama \<Rightarrow> token list \<Rightarrow> tensor list" where
  "embedded L ts = map (the \<circ> ll_embed L) ts"

text \<open>The logits of the next token after a context.\<close>

definition model_logits :: "'r llama \<Rightarrow> token list \<Rightarrow> f32 list" where
  "model_logits L ts = ll_head L (last (ref_layers L (ll_blocks L) (embedded L ts)))"

text \<open>The caches are those of the context \<open>ts\<close>.\<close>

definition kv_of :: "'r llama \<Rightarrow> token list \<Rightarrow> 'r caches" where
  "kv_of L ts = ref_caches L (ll_blocks L) (embedded L ts)"

lemma length_ref [simp]: "length (ref_rows b xs) = length xs" "length (ref_block L b xs) = length xs"
  by (simp_all add: ref_rows_def ref_block_def)

lemma length_ref_layers [simp]: "length (ref_layers L bs xs) = length xs"
  by (induction bs arbitrary: xs) auto

lemma take_ref_rows: "take n (ref_rows b xs) = ref_rows b (take n xs)"
  by (rule nth_equalityI) (auto simp: ref_rows_def)

lemma take_ref_block: "take n (ref_block L b xs) = ref_block L b (take n xs)"
proof (rule nth_equalityI)
  show "length (take n (ref_block L b xs)) = length (ref_block L b (take n xs))"
    by simp
next
  fix i
  assume i: "i < length (take n (ref_block L b xs))"
  then have "take (Suc i) (ref_rows b (take n xs)) = take (Suc i) (ref_rows b xs)"
    by (simp add: take_ref_rows flip: take_ref_rows)
  then show "take n (ref_block L b xs) ! i = ref_block L b (take n xs) ! i"
    using i by (simp add: ref_block_def)
qed

lemma take_ref_layers: "take n (ref_layers L bs xs) = ref_layers L bs (take n xs)"
  by (induction bs arbitrary: xs) (auto simp: take_ref_block)

lemma truncate_eq_take: "truncate_kv_cache n kvs = map (take n) kvs"
  by (auto simp: truncate_kv_cache_def)

lemma truncate_ref_caches: "truncate_kv_cache n (ref_caches L bs xs) = ref_caches L bs (take n xs)"
  by (induction bs arbitrary: xs) (auto simp: truncate_eq_take take_ref_rows take_ref_block)

lemma truncate_kv_of: "truncate_kv_cache n (kv_of L ts) = kv_of L (take n ts)"
  by (simp add: kv_of_def truncate_ref_caches embedded_def take_map)

lemma ref_block_split: "ref_block L b (xs @ ys) = ref_block L b xs @ drop (length xs) (ref_block L b (xs @ ys))"
  using append_take_drop_id [of "length xs" "ref_block L b (xs @ ys)"] by (simp add: take_ref_block)

text \<open>A pass over new positions on top of the rows of the old ones is the rest of the pass over all of them.\<close>

lemma forward_attn_ref:
  assumes "ys \<noteq> []" "length xs + length ys \<le> ll_max_seq L" "ll_append_ok L (length xs) (length ys)"
  shows "forward_attn L b (causal_mask (length ys) (length xs)) (length xs) (map (bl_norm b) ys) (ref_rows b xs) =
    (Some (map (\<lambda>i. bl_attend b (bl_norm b (ys ! i)) (length xs + i) (take (Suc (length xs + i)) (ref_rows b (xs @ ys)))) [0 ..< length ys]),
     ref_rows b (xs @ ys))"
proof -
  have kv: "ref_rows b xs @ map (\<lambda>i. bl_kv b (map (bl_norm b) ys ! i) (length xs + i)) [0 ..< length ys] = ref_rows b (xs @ ys)"
    by (rule nth_equalityI) (auto simp: ref_rows_def nth_append)
  have vis: "visible (causal_mask (length ys) (length xs)) (length ys) i (ref_rows b (xs @ ys)) =
      take (Suc (length xs + i)) (ref_rows b (xs @ ys))" if "i < length ys" for i
    using that by (auto simp: visible_def causal_mask_def)
  have fits: "\<not> (case causal_mask (length ys) (length xs) of None \<Rightarrow> False | Some w \<Rightarrow> w \<noteq> length (xs @ ys))"
    by (simp add: causal_mask_def)
  have out: "map (\<lambda>i. bl_attend b (map (bl_norm b) ys ! i) (length xs + i)
        (visible (causal_mask (length ys) (length xs)) (length ys) i (ref_rows b (xs @ ys)))) [0 ..< length ys] =
      map (\<lambda>i. bl_attend b (bl_norm b (ys ! i)) (length xs + i) (take (Suc (length xs + i)) (ref_rows b (xs @ ys)))) [0 ..< length ys]"
    by (rule map_cong) (simp_all add: vis)
  show ?thesis
    unfolding forward_attn_def Let_def length_map length_ref kv using assms(2,3) fits out by (simp del: length_append)
qed

lemma block_pass_ref:
  assumes "ys \<noteq> []" "length xs + length ys \<le> ll_max_seq L" "ll_append_ok L (length xs) (length ys)"
  shows "block_pass L b (causal_mask (length ys) (length xs)) (length xs) ys (ref_rows b xs) =
    (Some (drop (length xs) (ref_block L b (xs @ ys))), ref_rows b (xs @ ys))"
  unfolding block_pass_def forward_attn_ref [OF assms]
  by (auto simp: ref_block_def nth_append intro!: nth_equalityI)

lemma layer_loop_ref:
  assumes "ys \<noteq> []" "length xs + length ys \<le> ll_max_seq L" "ll_append_ok L (length xs) (length ys)"
    and "observing cb"
  shows "\<exists>s'. layer_loop L cb (causal_mask (length ys) (length xs)) (length xs) l bs (ref_caches L bs xs) ys s =
    (Some (drop (length xs) (ref_layers L bs (xs @ ys))), ref_caches L bs (xs @ ys), s')"
  using assms(1-3)
proof (induction bs arbitrary: xs ys l s)
  case (Cons b bs)
  let ?ys = "drop (length xs) (ref_block L b (xs @ ys))"
  have y: "ref_block L b xs @ ?ys = ref_block L b (xs @ ys)" "length ?ys = length ys"
    by (simp_all flip: ref_block_split)
  have ne: "?ys \<noteq> []"
    using y(2) Cons.prems(1) by (metis length_0_conv)
  obtain s1 where s1: "cb l ?ys s = (None, s1)"
    using assms(4) [unfolded observing_def, rule_format, of l ?ys s] by (cases "cb l ?ys s") auto
  obtain s' where "layer_loop L cb (causal_mask (length ?ys) (length (ref_block L b xs))) (length (ref_block L b xs)) (Suc l) bs
      (ref_caches L bs (ref_block L b xs)) ?ys s1 =
    (Some (drop (length (ref_block L b xs)) (ref_layers L bs (ref_block L b xs @ ?ys))), ref_caches L bs (ref_block L b xs @ ?ys), s')"
    using Cons.IH [OF ne, of "ref_block L b xs" "Suc l" s1] Cons.prems y(2) by auto
  then show ?case
    using y by (simp add: block_pass_ref [OF Cons.prems] s1)
qed auto

section \<open>A back end that holds a context\<close>

definition llama_ok :: "'r llama \<Rightarrow> bool" where
  "llama_ok L = (\<forall>n k. n + k \<le> ll_max_seq L \<longrightarrow> ll_append_ok L n k)"

definition known :: "'r llama \<Rightarrow> token list \<Rightarrow> bool" where
  "known L ts = list_all (\<lambda>t. ll_embed L t \<noteq> None) ts"

definition in_sync :: "'r llama \<Rightarrow> token list \<Rightarrow> 'r candle \<Rightarrow> bool" where
  "in_sync L ts B = (cb_model B = Some L \<and> cb_kv B = kv_of L ts \<and> cb_index_pos B = length ts)"

text \<open>The back end after the context has become \<open>ts\<close>.\<close>

definition holding :: "'r llama \<Rightarrow> token list \<Rightarrow> 'r candle \<Rightarrow> 'r candle" where
  "holding L ts B = B\<lparr>cb_kv := kv_of L ts, cb_index_pos := length ts\<rparr>"

lemma holding_simps [simp]:
  "holding L ts (holding L us B) = holding L ts B"
  "cb_model (holding L ts B) = cb_model B"
  "cb_index_pos (holding L ts B) = length ts"
  "cb_kv (holding L ts B) = kv_of L ts"
  "position (holding L ts B) = length ts"
  by (simp_all add: holding_def position_def)

lemma in_sync_holding [simp]: "in_sync L ts (holding L us B) \<longleftrightarrow> cb_model B = Some L \<and> kv_of L us = kv_of L ts \<and> length us = length ts"
  by (auto simp: in_sync_def)

lemma in_sync_iff: "in_sync L ts B \<longleftrightarrow> cb_model B = Some L \<and> B = holding L ts B"
  by (cases B) (auto simp: in_sync_def holding_def)

lemma known_simps [simp]: "known L []" "known L (ts @ us) \<longleftrightarrow> known L ts \<and> known L us"
  by (simp_all add: known_def)

lemma known_take: "known L ts \<Longrightarrow> known L (take n ts)"
  by (auto simp: known_def list_all_iff dest: in_set_takeD)

lemma embed_known: "known L ts \<Longrightarrow> embed_rows L ts = Some (embedded L ts)"
  by (simp add: known_def embed_rows_def embedded_def)

lemma embedded_append: "embedded L (ts @ us) = embedded L ts @ embedded L us"
  by (simp add: embedded_def)

lemma length_embedded [simp]: "length (embedded L ts) = length ts"
  by (simp add: embedded_def)

lemma embedded_ne [simp]: "embedded L ts = [] \<longleftrightarrow> ts = []"
  by (simp add: embedded_def)

text \<open>The hypotheses of a pass: the tokens are in the vocabulary and the context fits.\<close>

definition can_append :: "'r llama \<Rightarrow> token list \<Rightarrow> token list \<Rightarrow> bool" where
  "can_append L ts us = (llama_ok L \<and> known L us \<and> length ts + length us \<le> ll_max_seq L)"

lemma layer_loop_ctx:
  assumes "can_append L ts us" "us \<noteq> []" "observing cb"
  shows "\<exists>s'. layer_loop L cb (causal_mask (length us) (length ts)) (length ts) 0 (ll_blocks L) (kv_of L ts) (embedded L us) s =
    (Some (drop (length ts) (ref_layers L (ll_blocks L) (embedded L (ts @ us)))), kv_of L (ts @ us), s')"
  using layer_loop_ref [of "embedded L us" "embedded L ts" L cb 0 "ll_blocks L" s] assms
  by (auto simp: can_append_def llama_ok_def kv_of_def embedded_append)

lemma forward_callback_ctx:
  assumes "can_append L ts us" "us \<noteq> []" "observing cb"
  shows "\<exists>s'. forward_with_callback L cb us (length ts) (kv_of L ts) s = (Some (model_logits L (ts @ us)), kv_of L (ts @ us), s')"
proof -
  obtain s' where "layer_loop L cb (causal_mask (length us) (length ts)) (length ts) 0 (ll_blocks L) (kv_of L ts) (embedded L us) s =
    (Some (drop (length ts) (ref_layers L (ll_blocks L) (embedded L (ts @ us)))), kv_of L (ts @ us), s')"
    using layer_loop_ctx [OF assms] by blast
  then show ?thesis
    using assms(1,2) by (simp add: forward_with_callback_def embed_known can_append_def model_logits_def last_drop)
qed

lemma all_logits_ctx:
  assumes "can_append L ts us" "us \<noteq> []" "cb_model B = Some L"
  shows "forward_all_logits us (holding L ts B) =
    (Inr (map (\<lambda>i. model_logits L (ts @ take (Suc i) us)) [0 ..< length us]), holding L (ts @ us) B)"
proof -
  have loop: "layer_loop L no_callback (causal_mask (length us) (length ts)) (length ts) 0 (ll_blocks L) (kv_of L ts) (embedded L us) () =
    (Some (drop (length ts) (ref_layers L (ll_blocks L) (embedded L (ts @ us)))), kv_of L (ts @ us), ())"
    using layer_loop_ctx [OF assms(1,2), of no_callback "()"] by auto
  have "map (ll_head L) (drop (length ts) (ref_layers L (ll_blocks L) (embedded L (ts @ us)))) =
      map (\<lambda>i. model_logits L (ts @ take (Suc i) us)) [0 ..< length us]"
  proof (rule nth_equalityI)
    fix i
    assume "i < length (map (ll_head L) (drop (length ts) (ref_layers L (ll_blocks L) (embedded L (ts @ us)))))"
    then have i: "i < length us"
      by simp
    have "ref_layers L (ll_blocks L) (embedded L (ts @ take (Suc i) us)) =
        take (length ts + Suc i) (ref_layers L (ll_blocks L) (embedded L (ts @ us)))"
      by (simp add: take_ref_layers embedded_def take_map)
    then have "last (ref_layers L (ll_blocks L) (embedded L (ts @ take (Suc i) us))) =
        ref_layers L (ll_blocks L) (embedded L (ts @ us)) ! (length ts + i)"
      using i by (simp add: last_conv_nth flip: length_0_conv)
    then show "map (ll_head L) (drop (length ts) (ref_layers L (ll_blocks L) (embedded L (ts @ us)))) ! i =
        map (\<lambda>i. model_logits L (ts @ take (Suc i) us)) [0 ..< length us] ! i"
      using i by (simp add: model_logits_def)
  qed simp
  then show ?thesis
    using assms by (simp add: forward_all_logits_def forward_all_positions_def embed_known can_append_def loop holding_def)
qed

lemma pieces_props:
  "0 < n \<Longrightarrow> concat (pieces n xs) = xs"
  "p \<in> set (pieces n xs) \<Longrightarrow> p \<noteq> []"
  by (induction n xs rule: pieces.induct, subst pieces.simps, simp) (induction n xs rule: pieces.induct, subst (asm) pieces.simps, auto split: if_splits)

lemma forward_pieces_ctx:
  assumes "can_append L ts (concat ps)" "\<forall>p \<in> set ps. p \<noteq> []" "cb_model B = Some L" "observing cb"
  shows "\<exists>s'. forward_pieces L cb ps last_logits (holding L ts B) s =
    (Inr (if ps = [] then last_logits else Some (model_logits L (ts @ concat ps))), holding L (ts @ concat ps) B, s')"
  using assms(1,2)
proof (induction ps arbitrary: ts last_logits s)
  case (Cons p ps)
  have p: "can_append L ts p" "can_append L (ts @ p) (concat ps)" "p \<noteq> []"
    using Cons.prems by (auto simp: can_append_def)
  obtain s1 where s1: "forward_with_callback L cb p (length ts) (kv_of L ts) s = (Some (model_logits L (ts @ p)), kv_of L (ts @ p), s1)"
    using forward_callback_ctx [OF p(1,3) assms(4)] by blast
  have "(holding L ts B)\<lparr>cb_kv := kv_of L (ts @ p), cb_index_pos := length ts + length p\<rparr> = holding L (ts @ p) B"
    by (simp add: holding_def)
  then show ?case
    using Cons.IH [OF p(2), of "Some (model_logits L (ts @ p))" s1] Cons.prems(2) by (auto simp: s1)
qed simp

lemma observer_ctx:
  assumes "can_append L ts us" "us \<noteq> []" "cb_model B = Some L" "observing cb"
  shows "\<exists>s'. forward_logits_with_observer chunk cb us (holding L ts B) s =
    (Inr (model_logits L (ts @ us)), holding L (ts @ us) B, s')"
proof -
  let ?n = "max (case chunk of Some n \<Rightarrow> n | None \<Rightarrow> 512) 16"
  have ps: "concat (pieces ?n us) = us"
    by (rule pieces_props(1)) simp
  moreover have "\<forall>p \<in> set (pieces ?n us). p \<noteq> []"
    using pieces_props(2) by blast
  ultimately have ps: "concat (pieces ?n us) = us" "\<forall>p \<in> set (pieces ?n us). p \<noteq> []"
    by blast+
  then have "pieces ?n us \<noteq> []"
    using assms(2) by auto
  then obtain s' where "forward_pieces L cb (pieces ?n us) None (holding L ts B) s =
      (Inr (Some (model_logits L (ts @ us))), holding L (ts @ us) B, s')"
    using forward_pieces_ctx [of L ts "pieces ?n us" B cb None s] ps assms by auto
  then show ?thesis
    using assms(2,3) by (simp add: forward_logits_with_observer_def Let_def)
qed

lemma logits_ctx:
  assumes "can_append L ts us" "us \<noteq> []" "cb_model B = Some L"
  shows "forward_logits chunk us (holding L ts B) = (Inr (model_logits L (ts @ us)), holding L (ts @ us) B)"
  using observer_ctx [OF assms, of no_callback chunk "()"] by (auto simp: forward_logits_def)

lemma truncate_ctx: "cb_model B = Some L \<Longrightarrow> n \<le> length ts \<Longrightarrow> truncate_to n (holding L ts B) = holding L (take n ts) B"
  by (simp add: truncate_to_def truncate_kv_of holding_def)

section \<open>A pass over stale caches\<close>

text \<open>
  A pass over two or more positions needs every cache to be as long as the position counter says: the mask is built from the
  counter, and a layer whose cache has another length fails.
\<close>

lemma block_pass_length: "block_pass L b msk ip xs kv = (Some ys, kv') \<Longrightarrow> length ys = length xs"
  by (auto simp: block_pass_def split: prod.splits option.splits)

lemma block_pass_stale:
  assumes "length kv + length xs \<noteq> w"
  shows "fst (block_pass L b (Some w) ip xs kv) = None"
  using assms by (simp add: block_pass_def forward_attn_def Let_def)

lemma layer_loop_stale:
  assumes "observing cb" "length kvs = length bs" "kv \<in> set kvs" "length kv + length xs \<noteq> w"
  shows "fst (layer_loop L cb (Some w) ip l bs kvs xs s) = None"
  using assms(2-4)
proof (induction bs arbitrary: kvs xs l s)
  case (Cons b bs)
  then obtain kv1 kvs1 where kvs: "kvs = kv1 # kvs1"
    by (cases kvs) auto
  obtain r kv1' where blk: "block_pass L b (Some w) ip xs kv1 = (r, kv1')"
    by (metis prod.exhaust)
  show ?case
  proof (cases r)
    case None
    then show ?thesis
      using blk kvs by simp
  next
    case (Some ys)
    have "kv \<noteq> kv1"
      using block_pass_stale [OF Cons.prems(3), of L b ip] blk Some by auto
    moreover have "length ys = length xs"
      using blk Some block_pass_length by blast
    ultimately have kv: "kv \<in> set kvs1" "length kv + length ys \<noteq> w"
      using Cons.prems kvs by auto
    obtain s1 where cb: "cb l ys s = (None, s1)"
      using assms(1) by (metis observing_def prod.collapse)
    obtain r2 kvs2 s2 where rest: "layer_loop L cb (Some w) ip (Suc l) bs kvs1 ys s1 = (r2, kvs2, s2)"
      by (metis prod.exhaust)
    have "r2 = None"
      using Cons.IH [OF _ kv, of "Suc l" s1] Cons.prems(1) kvs rest by simp
    then show ?thesis
      using blk kvs Some cb rest by simp
  qed
qed simp

text \<open>The first chunk of a prefill already fails.\<close>

lemma observer_stale:
  assumes "observing cb" "cb_model B = Some L" "length (cb_kv B) = length (ll_blocks L)" "kv \<in> set (cb_kv B)"
    and "length kv \<noteq> cb_index_pos B" "2 \<le> length ts"
  shows "\<exists>kvs s'. forward_logits_with_observer chunk cb ts B s = (Inl (Backend_error ''forward pass''), B\<lparr>cb_kv := kvs\<rparr>, s')"
proof -
  let ?n = "max (case chunk of Some n \<Rightarrow> n | None \<Rightarrow> 512) 16"
  let ?p = "take ?n ts"
  have n: "2 \<le> ?n" "ts \<noteq> []"
    using assms(6) by auto
  have p: "pieces ?n ts = ?p # pieces ?n (drop ?n ts)"
    using n by (subst pieces.simps) simp
  have len: "length ?p \<noteq> 1"
    using assms(6) n(1) by (simp add: min_def)
  have "fst (forward_with_callback L cb ?p (cb_index_pos B) (cb_kv B) s) = None"
  proof (cases "embed_rows L ?p")
    case (Some xs)
    then have "length xs = length ?p"
      by (auto simp: embed_rows_def split: if_splits)
    then show ?thesis
      using Some layer_loop_stale [OF assms(1,3,4), of xs "cb_index_pos B + length ?p" L "cb_index_pos B" 0 s] assms(5) len
      by (auto simp: forward_with_callback_def causal_mask_def split: prod.split)
  qed (simp add: forward_with_callback_def)
  then obtain kvs s' where "forward_with_callback L cb ?p (cb_index_pos B) (cb_kv B) s = (None, kvs, s')"
    by (metis prod.collapse)
  then show ?thesis
    using assms(2) n(2) p by (auto simp: forward_logits_with_observer_def Let_def)
qed

lemma length_kv_of [simp]: "length (kv_of L ts) = length (ll_blocks L)"
proof -
  have "length (ref_caches L bs xs) = length bs" for bs xs
    by (induction bs arbitrary: xs) auto
  then show ?thesis
    by (simp add: kv_of_def)
qed

lemma rows_kv_of: "kv \<in> set (kv_of L ts) \<Longrightarrow> length kv = length ts"
proof -
  have "kv \<in> set (ref_caches L bs xs) \<Longrightarrow> length kv = length xs" for bs xs
    by (induction bs arbitrary: xs) auto
  then show "kv \<in> set (kv_of L ts) \<Longrightarrow> length kv = length ts"
    by (metis kv_of_def length_embedded)
qed

lemma kv_of_Nil: "clear_kv_cache (kv_of L ts) = kv_of L []"
  using truncate_kv_of [of 0 L ts] by (simp add: clear_kv_cache_def truncate_eq_take comp_def)

lemma reset_ctx: "cb_model B = Some L \<Longrightarrow> reset_position (holding L ts B) = holding L [] B"
  by (simp add: reset_position_def kv_of_Nil holding_def)

section \<open>The contract of the cache\<close>


text \<open>A model of two tokens and one block: the next token is the parity of the ones in the context.\<close>

definition demo_block :: "f32 block" where
  "demo_block = \<lparr>bl_norm = id, bl_kv = (\<lambda>h i. hd h),
     bl_attend = (\<lambda>h i rows. [if even (length (filter (\<lambda>r. r = Fin 1) rows)) then Fin 0 else Fin 1]), bl_ffn = id\<rparr>"

definition demo_llama :: "f32 llama" where
  "demo_llama = \<lparr>ll_embed = (\<lambda>t. if t = 0 then Some [Fin 0] else if t = 1 then Some [Fin 1] else None), ll_blocks = [demo_block],
     ll_add = (\<lambda>x y. x), ll_head = (\<lambda>x. if x = [Fin 0] then [Fin 1, Fin 0] else [Fin 0, Fin 1]), ll_max_seq = 64,
     ll_append_ok = (\<lambda>n k. n + k \<le> 64)\<rparr>"

definition demo_candle :: "token list \<Rightarrow> f32 candle" where
  "demo_candle ts = \<lparr>cb_model = Some demo_llama, cb_n_layers = 1, cb_hidden_size = 1, cb_index_pos = length ts, cb_max_seq_cap = 512,
     cb_kv = kv_of demo_llama ts\<rparr>"

lemma demo_candle_sync: "in_sync demo_llama ts (demo_candle ts)"
  by (simp add: in_sync_def demo_candle_def)

lemma demo_can_append: "set us \<subseteq> {0, 1} \<Longrightarrow> length ts + length us \<le> 64 \<Longrightarrow> can_append demo_llama ts us"
  by (auto simp: can_append_def llama_ok_def known_def demo_llama_def list_all_iff)


end
