(* ===== verification/Chat.thy ===== *)
theory Chat
  imports KvCache Runner Grammar Uncertainty
begin

text \<open>
  Generation for one chat request on the CPU back end: the prompt cache of a pool slot, \<^verbatim>\<open>generate_blocking\<close> with its
  early exit and prompt-lookup rounds, of \<^verbatim>\<open>src/src/server/rest.rs\<close>. The state of a request is the record
  \<open>generation\<close>; what the request cannot change (flags, stop tokens, the clock, the tokenizer's decoder, the random draws of the
  thread generator) is \<open>chat_env\<close>. The lemmas show that a request on a slot whose cache is coherent computes what the model
  computes on the whole context, and what the slot holds afterwards.
\<close>

section \<open>The slot and its prompt cache\<close>

record 'r backend_slot =
  sl_backend :: "'r candle"
  sl_prompt_cache :: "token list"
  sl_draft :: "'r candle option"
  sl_draft_prompt_cache :: "token list"

fun lcp_len :: "token list \<Rightarrow> token list \<Rightarrow> nat" where
  "lcp_len (x # xs) (y # ys) = (if x = y then Suc (lcp_len xs ys) else 0)"
| "lcp_len xs ys = 0"

definition reusable :: "token list \<Rightarrow> token list \<Rightarrow> nat" where
  "reusable prompt cached = min (lcp_len prompt cached) (length prompt - 1)"

definition prepare_prompt_cache :: "'r candle \<Rightarrow> token list \<Rightarrow> token list \<Rightarrow> nat \<times> 'r candle \<times> token list" where
  "prepare_prompt_cache B cached prompt =
    (let reuse = reusable prompt cached in
     if reuse = 0 then (0, reset_position B, [])
     else (reuse, truncate_to reuse B, take reuse cached))"

section \<open>The request\<close>

record 'g chat_env =
  ce_math :: f32_log
  ce_rng :: "'g rng_ops"
  ce_count_order :: count_order
  ce_succ_order :: succ_order
  ce_thread_r :: "nat \<Rightarrow> f32"
  ce_decode :: "token list \<Rightarrow> string option"
  ce_stops :: "token list"
  ce_observer :: "tensor list observer_env"
  ce_map_order :: map_order
  ce_now :: nat
  ce_timeout :: "nat \<Rightarrow> bool"
  ce_chunk :: "nat option"
  ce_hooks :: registry
  ce_inspection :: bool
  ce_pld :: bool
  ce_early_exit :: bool
  ce_spec_decode :: bool
  ce_ee_min_layer :: nat
  ce_ee_threshold :: f32

record ('r, 'g) generation =
  gn_backend :: "'r candle"
  gn_all :: "token list"
  gn_out :: "token list"
  gn_ctrl :: "'g decode_control"
  gn_fsm :: "logit_fsm option"
  gn_detect :: "detector option"
  gn_logprobs :: "logprobs_collector option"
  gn_observer :: runner_observer
  gn_store :: store
  gn_finish :: string

definition stop_set :: "token list \<Rightarrow> tokenizer \<Rightarrow> token list" where
  "stop_set declared tok = fold (\<lambda>t ids. if t \<in> set ids then ids else ids @ [t]) (stop_token_ids tok) declared"

definition stop_window_text :: "'g chat_env \<Rightarrow> token list \<Rightarrow> nat \<Rightarrow> string" where
  "stop_window_text env generated window =
    (case ce_decode env (drop (length generated - window) generated) of None \<Rightarrow> [] | Some t \<Rightarrow> t)"

definition stop_string_hit :: "'g chat_env \<Rightarrow> 'g decode_control \<Rightarrow> token list \<Rightarrow> bool" where
  "stop_string_hit env c generated = (has_stops c \<and> stop_hit_in (stop_window_text env generated (dc_window c)) c)"

definition capture_prefill_to_memory :: "'g chat_env \<Rightarrow> string \<Rightarrow> nat \<Rightarrow> tensor list \<Rightarrow> store \<Rightarrow> store" where
  "capture_prefill_to_memory env rid l hidden st =
    (case oe_pool (ce_observer env) hidden of None \<Rightarrow> st
     | Some pooled \<Rightarrow>
         store_default (ce_map_order env) (ce_now env) (rid @ '':prefill'') pooled
           \<lparr>md_source_request_id = rid, md_layer_captured = l, md_category = Context, md_tags = [''chat'', ''prefill''],
            md_text_summary = ''chat prefill at layer '' @ decimal l\<rparr> st)"

text \<open>The callback of the prefill: the observer of the inspection mode, and the capture at the last layer.\<close>

definition prefill_callback :: "'g chat_env \<Rightarrow> string \<Rightarrow> nat \<Rightarrow> (runner_observer \<times> store) on_layer" where
  "prefill_callback env rid last_layer l hidden s =
    (case s of (ro, st) \<Rightarrow>
       let (ro1, st1, writeback) =
             (if ce_inspection env then on_layer (ce_observer env) (ce_now env) l hidden ro st else (ro, st, None))
       in (writeback, ro1, if l = last_layer then capture_prefill_to_memory env rid l hidden st1 else st1))"

definition early_exit_test :: "'g chat_env \<Rightarrow> nat \<Rightarrow> tensor list \<Rightarrow> bool" where
  "early_exit_test env l hidden =
    (ce_ee_min_layer env \<le> l \<and>
     (case oe_pool (ce_observer env) hidden of None \<Rightarrow> False
      | Some pooled \<Rightarrow> f32_lt (ce_ee_threshold env) (confidence (f32_math.truncate (ce_math env)) pooled)))"

definition early_exit_on :: "'g chat_env \<Rightarrow> sampler_config \<Rightarrow> ('r, 'g) generation \<Rightarrow> bool" where
  "early_exit_on env cfg g =
    (ce_early_exit env \<and> \<not> ce_inspection env \<and> \<not> ce_pld env \<and> sc_temperature cfg = Fin 0 \<and> gn_fsm g = None)"

definition forward_next ::
  "'g chat_env \<Rightarrow> sampler_config \<Rightarrow> string \<Rightarrow> nat \<Rightarrow> ('r, 'g) generation \<Rightarrow> (zllm_error + f32 list) \<times> ('r, 'g) generation" where
  "forward_next env cfg rid start g =
    (if gn_out g = []
     then (case forward_logits_with_observer (ce_chunk env) (prefill_callback env rid (cb_n_layers (gn_backend g) - 1))
                  (drop start (gn_all g)) (gn_backend g) (gn_observer g, gn_store g) of
         (r, B, ro, st) \<Rightarrow> (r, g\<lparr>gn_backend := B, gn_observer := ro, gn_store := st\<rparr>))
     else if early_exit_on env cfg g
     then (case forward_logits_early_exit (early_exit_test env) (drop (length (gn_all g) - 1) (gn_all g)) (gn_backend g) of
         (Inl e, B) \<Rightarrow> (Inl e, g\<lparr>gn_backend := B\<rparr>)
       | (Inr (logits, _), B) \<Rightarrow> (Inr logits, g\<lparr>gn_backend := B\<rparr>))
     else (case forward_logits (ce_chunk env) (drop (length (gn_all g) - 1) (gn_all g)) (gn_backend g) of
         (r, B) \<Rightarrow> (r, g\<lparr>gn_backend := B\<rparr>)))"

text \<open>One draw: the mask of the grammar, the sample, and everything that observes it. \<open>None\<close> is a panic of the sampler.\<close>

definition choose_token :: "'g chat_env \<Rightarrow> sampler_config \<Rightarrow> f32 list \<Rightarrow> ('r, 'g) generation \<Rightarrow> (token \<times> ('r, 'g) generation) option" where
  "choose_token env cfg logits g =
    (let (logits', fsm) =
           (case gn_fsm g of None \<Rightarrow> (logits, None)
            | Some f \<Rightarrow> if is_active f then (case apply_mask (ce_succ_order env) logits f of (l, f') \<Rightarrow> (l, Some f')) else (logits, Some f));
         (picked, c) = sample_token (f32_math.truncate (ce_math env)) (ce_rng env) (ce_count_order env) (ce_thread_r env (length (gn_out g)))
                         logits' cfg (gn_ctrl g)
     in case picked of None \<Rightarrow> None
        | Some t \<Rightarrow> Some (t, g\<lparr>gn_ctrl := c,
            gn_fsm := map_option (\<lambda>f. if is_active f then advance t f else f) fsm,
            gn_detect := map_option (observe_detector (ce_math env) logits' t) (gn_detect g),
            gn_logprobs := map_option (observe_logprobs (ce_math env) logits' t) (gn_logprobs g),
            gn_observer := (if ce_inspection env
              then record_token (f32_math.truncate (ce_math env)) (length (gn_out g)) t
                     (case ce_decode env [t] of None \<Rightarrow> [] | Some s \<Rightarrow> s) logits' 5 (gn_observer g)
              else gn_observer g)\<rparr>))"

definition push_token :: "token \<Rightarrow> ('r, 'g) generation \<Rightarrow> ('r, 'g) generation" where
  "push_token t g = g\<lparr>gn_all := gn_all g @ [t], gn_out := gn_out g @ [t], gn_ctrl := observe t (gn_ctrl g)\<rparr>"

text \<open>Committing the accepted draft tokens; the flag is \<^verbatim>\<open>early_eos\<close>.\<close>

fun commit_drafts :: "token list \<Rightarrow> nat \<Rightarrow> token list \<Rightarrow> ('r, 'g) generation \<Rightarrow> bool \<times> ('r, 'g) generation" where
  "commit_drafts stops max_tokens [] g = (False, g)"
| "commit_drafts stops max_tokens (d # ds) g =
    (if d \<in> set stops then (True, g)
     else (let g' = push_token d g in if max_tokens \<le> length (gn_out g') then (False, g') else commit_drafts stops max_tokens ds g'))"

definition chat_pld_round :: "'g chat_env \<Rightarrow> nat \<Rightarrow> token \<Rightarrow> ('r, 'g) generation \<Rightarrow> ('r, 'g) generation" where
  "chat_pld_round env max_tokens next_token g =
    (case lookup_draft (gn_all g) (gn_all g) 2 5 of None \<Rightarrow> g
     | Some draft \<Rightarrow>
         (let pos_before_spec = position (gn_backend g) in
          case forward_all_logits (next_token # draft) (gn_backend g) of
            (Inl e, B) \<Rightarrow> g\<lparr>gn_backend := B\<rparr>
          | (Inr rows, B) \<Rightarrow>
              (let verify = verify_drafts draft rows;
                   (early_eos, g1) = commit_drafts (ce_stops env) max_tokens (take (vr_accepted verify) draft) g;
                   early = (early_eos \<or> stop_string_hit env (gn_ctrl g1) (gn_out g1));
                   g2 = g1\<lparr>gn_backend := truncate_to (pos_before_spec + 1 + vr_accepted verify) B\<rparr>
               in if \<not> early \<and> vr_bonus verify \<notin> set (ce_stops env) \<and> length (gn_out g2) < max_tokens
                  then push_token (vr_bonus verify) g2 else g2)))"

definition pld_on :: "'g chat_env \<Rightarrow> sampler_config \<Rightarrow> ('r, 'g) generation \<Rightarrow> bool" where
  "pld_on env cfg g =
    (ce_pld env \<and> \<not> ce_inspection env \<and> gn_detect g = None \<and> gn_logprobs g = None \<and> gn_fsm g = None \<and>
     \<not> modifies_logits (gn_ctrl g) \<and> sc_temperature cfg = Fin 0)"

fun gen_loop ::
  "'g chat_env \<Rightarrow> sampler_config \<Rightarrow> string \<Rightarrow> nat \<Rightarrow> nat \<Rightarrow> nat \<Rightarrow> nat \<Rightarrow> ('r, 'g) generation \<Rightarrow> ('r, 'g) generation option" where
  "gen_loop env cfg rid start max_tokens i 0 g = Some g"
| "gen_loop env cfg rid start max_tokens i (Suc n) g =
    (if ce_timeout env i then Some (g\<lparr>gn_finish := ''length''\<rparr>)
     else (case forward_next env cfg rid start g of
         (Inl e, g1) \<Rightarrow> Some g1
       | (Inr logits, g1) \<Rightarrow>
           if gn_out g = [] \<and> ce_inspection env \<and> ro_early_exit_signal (gn_observer g1) then Some (g1\<lparr>gn_finish := ''early_exit''\<rparr>)
           else (case choose_token env cfg logits g1 of None \<Rightarrow> None
             | Some (t, g2) \<Rightarrow>
                 if t \<in> set (ce_stops env) then Some g2
                 else (let g3 = push_token t g2 in
                   if stop_string_hit env (gn_ctrl g3) (gn_out g3) then Some g3
                   else gen_loop env cfg rid start max_tokens (Suc i) n
                     (if pld_on env cfg g3 \<and> length (gn_out g3) < max_tokens then chat_pld_round env max_tokens t g3 else g3)))))"

record chat_result =
  cr_text :: string
  cr_prompt_tokens :: nat
  cr_completion_tokens :: nat
  cr_finish :: string

definition finish_text :: "'g chat_env \<Rightarrow> 'g decode_control \<Rightarrow> token list \<Rightarrow> string \<times> bool" where
  "finish_text env c generated = truncate_at_stop (case ce_decode env generated of None \<Rightarrow> [] | Some t \<Rightarrow> t) c"

text \<open>The trace of an inspected request is stored at its end; \<open>None\<close> is the panic of the store without room for traces.\<close>

definition save_trace :: "'g chat_env \<Rightarrow> runner_observer \<Rightarrow> store \<Rightarrow> store option" where
  "save_trace env ro st =
    (if \<not> ce_inspection env then Some st
     else (case snd (take_inspection_trace (ce_now env) ro) of None \<Rightarrow> Some st | Some trace \<Rightarrow> record_trace trace st))"

definition first_state ::
  "'g chat_env \<Rightarrow> token list \<Rightarrow> string \<Rightarrow> 'g decode_control \<Rightarrow> logit_fsm option \<Rightarrow> detector option \<Rightarrow> logprobs_collector option \<Rightarrow> store \<Rightarrow> 'r candle \<Rightarrow> ('r, 'g) generation" where
  "first_state env prompt rid c fsm det lp st B =
    \<lparr>gn_backend = B, gn_all = prompt, gn_out = [], gn_ctrl = observe_prompt_tail prompt 64 c, gn_fsm = fsm, gn_detect = det,
     gn_logprobs = lp,
     gn_observer = (new_observer (ce_hooks env) rid)\<lparr>ro_enable_inspection := ce_inspection env\<rparr>, gn_store = st,
     gn_finish = ''stop''\<rparr>"

text \<open>
  The part of \<^verbatim>\<open>generate_blocking\<close> that runs on a slot: the result, the state after the loop, the slot and the store.
\<close>

definition generate_candle ::
  "'g chat_env \<Rightarrow> sampler_config \<Rightarrow> string \<Rightarrow> token list \<Rightarrow> nat \<Rightarrow> 'g decode_control \<Rightarrow> logit_fsm option \<Rightarrow> detector option \<Rightarrow> logprobs_collector option \<Rightarrow> store
     \<Rightarrow> 'r backend_slot \<Rightarrow> (chat_result \<times> ('r, 'g) generation \<times> 'r backend_slot \<times> store) option" where
  "generate_candle env cfg rid prompt max_tokens c fsm det lp st sl =
    (let (start, B, _) = (if det \<noteq> None then (0, reset_position (sl_backend sl), [])
                          else prepare_prompt_cache (sl_backend sl) (sl_prompt_cache sl) prompt)
     in case gen_loop env cfg rid start max_tokens 0 max_tokens (first_state env prompt rid c fsm det lp st B) of
          None \<Rightarrow> None
        | Some g \<Rightarrow>
            (case save_trace env (gn_observer g) (gn_store g) of None \<Rightarrow> None
             | Some st' \<Rightarrow>
                 Some (\<lparr>cr_text = fst (finish_text env (gn_ctrl g) (gn_out g)), cr_prompt_tokens = length prompt,
                        cr_completion_tokens = length (gn_out g), cr_finish = gn_finish g\<rparr>,
                       g, sl\<lparr>sl_backend := gn_backend g, sl_prompt_cache := gn_all g\<rparr>, st')))"

section \<open>Two models: speculative decoding\<close>

record ('r, 'd) spec_state =
  ss_main :: "'r candle"
  ss_draft :: "'d candle"

record spec_result =
  sr_committed :: "token list"
  sr_accepted :: nat
  sr_proposed :: nat
  sr_main_logit :: "f32 list"
  sr_draft_logit :: "f32 list"

fun propose :: "nat option \<Rightarrow> nat \<Rightarrow> f32 list \<Rightarrow> 'd candle \<Rightarrow> (zllm_error + token list) \<times> 'd candle" where
  "propose chunk 0 logits D = (Inr [], D)"
| "propose chunk (Suc k) logits D =
    (let d = argmax logits in
     case forward_logits chunk [d] D of
       (Inl e, D') \<Rightarrow> (Inl e, D')
     | (Inr logits', D') \<Rightarrow>
         (case propose chunk k logits' D' of (Inl e, D'') \<Rightarrow> (Inl e, D'') | (Inr ds, D'') \<Rightarrow> (Inr (d # ds), D'')))"

text \<open>The drafts after the first are compared with the winners of the rows before them.\<close>

fun agree :: "token list \<Rightarrow> f32 list list \<Rightarrow> nat" where
  "agree (d # ds) (row # rows) = (if argmax row = d then Suc (agree ds rows) else 0)"
| "agree ds rows = 0"

definition accepted_count :: "token \<Rightarrow> token list \<Rightarrow> f32 list list \<Rightarrow> nat" where
  "accepted_count t drafts rows = (if hd drafts = t then Suc (agree (tl drafts) rows) else 0)"

definition corrected_token :: "token \<Rightarrow> nat \<Rightarrow> token list \<Rightarrow> f32 list list \<Rightarrow> token" where
  "corrected_token t accepted drafts rows =
    (if accepted = 0 then t
     else if accepted < length drafts then argmax (rows ! (accepted - 1)) else argmax (rows ! (length drafts - 1)))"

text \<open>The number of drafts is positive, as \<^verbatim>\<open>drafts[0]\<close> needs.\<close>

definition spec_iter ::
  "nat option \<Rightarrow> f32 list \<Rightarrow> f32 list \<Rightarrow> nat \<Rightarrow> 'r candle \<Rightarrow> 'd candle \<Rightarrow> (zllm_error + spec_result) \<times> 'r candle \<times> 'd candle" where
  "spec_iter chunk main_logit draft_logit k M D =
    (let t = argmax main_logit in
     case propose chunk k draft_logit D of
       (Inl e, D1) \<Rightarrow> (Inl e, M, D1)
     | (Inr drafts, D1) \<Rightarrow>
         (case forward_all_logits drafts M of
            (Inl e, M1) \<Rightarrow> (Inl e, M1, D1)
          | (Inr rows, M1) \<Rightarrow>
              (let accepted = accepted_count t drafts rows;
                   corrected = corrected_token t accepted drafts rows;
                   target = position M1 - (length drafts - accepted)
               in case forward_logits chunk [corrected] (truncate_to target M1) of
                    (Inl e, M2) \<Rightarrow> (Inl e, M2, truncate_to target D1)
                  | (Inr main_next, M2) \<Rightarrow>
                      (case forward_logits chunk [corrected] (truncate_to target D1) of
                         (Inl e, D2) \<Rightarrow> (Inl e, M2, D2)
                       | (Inr draft_next, D2) \<Rightarrow>
                           (Inr \<lparr>sr_committed = take accepted drafts @ [corrected], sr_accepted = accepted, sr_proposed = length drafts,
                                 sr_main_logit = main_next, sr_draft_logit = draft_next\<rparr>, M2, D2)))))"

definition spec_k :: nat where
  "spec_k = 5"

text \<open>Committing a round: stop tokens end the request, the token limit ends the batch.\<close>

fun commit_round :: "token list \<Rightarrow> nat \<Rightarrow> token list \<Rightarrow> token list \<Rightarrow> bool \<times> token list" where
  "commit_round stops max_tokens [] out = (False, out)"
| "commit_round stops max_tokens (t # ts) out =
    (if t \<in> set stops then (True, out)
     else if max_tokens \<le> length (out @ [t]) then (False, out @ [t]) else commit_round stops max_tokens ts (out @ [t]))"

text \<open>
  Every round that goes on commits a token, so \<open>max_tokens\<close> rounds are enough fuel; the fuel never ends the loop
  before its condition does.
\<close>

fun spec_loop ::
  "'g chat_env \<Rightarrow> 'g decode_control \<Rightarrow> nat \<Rightarrow> nat \<Rightarrow> f32 list \<Rightarrow> f32 list \<Rightarrow> token list \<Rightarrow> 'r candle \<Rightarrow> 'd candle \<Rightarrow> token list \<times> 'r candle \<times> 'd candle" where
  "spec_loop env c max_tokens 0 ml dl out M D = (out, M, D)"
| "spec_loop env c max_tokens (Suc n) ml dl out M D =
    (if max_tokens \<le> length out then (out, M, D)
     else (case spec_iter (ce_chunk env) ml dl spec_k M D of
         (Inl e, M', D') \<Rightarrow> (out, M', D')
       | (Inr r, M', D') \<Rightarrow>
           (let (hit_eos, out') = commit_round (ce_stops env) max_tokens (sr_committed r) out
            in if hit_eos \<or> stop_string_hit env c out' then (out', M', D')
               else spec_loop env c max_tokens n (sr_main_logit r) (sr_draft_logit r) out' M' D')))"

definition generate_spec_decode ::
  "'g chat_env \<Rightarrow> token list \<Rightarrow> nat \<Rightarrow> 'g decode_control \<Rightarrow> 'r candle \<Rightarrow> token list \<Rightarrow> 'd candle \<Rightarrow> token list
     \<Rightarrow> chat_result \<times> token list \<times> ('r candle \<times> token list) \<times> ('d candle \<times> token list)" where
  "generate_spec_decode env prompt max_tokens c M mcache D dcache =
    (let (mstart, M1, mcache1) = prepare_prompt_cache M mcache prompt in
     case forward_logits (ce_chunk env) (drop mstart prompt) M1 of
       (Inl e, M2) \<Rightarrow> (\<lparr>cr_text = [], cr_prompt_tokens = length prompt, cr_completion_tokens = 0, cr_finish = ''error''\<rparr>, [],
                       (M2, mcache1), (D, dcache))
     | (Inr ml, M2) \<Rightarrow>
         (let (dstart, D1, dcache1) = prepare_prompt_cache D dcache prompt in
          case forward_logits (ce_chunk env) (drop dstart prompt) D1 of
            (Inl e, D2) \<Rightarrow> (\<lparr>cr_text = [], cr_prompt_tokens = length prompt, cr_completion_tokens = 0, cr_finish = ''error''\<rparr>, [],
                            (M2, mcache1), (D2, dcache1))
          | (Inr dl, D2) \<Rightarrow>
              (case spec_loop env c max_tokens max_tokens ml dl [] M2 D2 of
                 (out, M3, D3) \<Rightarrow>
                   (\<lparr>cr_text = fst (finish_text env c out), cr_prompt_tokens = length prompt, cr_completion_tokens = length out,
                     cr_finish = ''stop''\<rparr>, out, (M3, prompt @ out), (D3, prompt @ out)))))"

section \<open>The resident engines\<close>

text \<open>
  The GPU and Vulkan engines keep their own cache; here they are their calls over a state \<open>'k\<close>, where \<open>None\<close> is a panic of the
  engine. \<open>le_note\<close> is the \<^verbatim>\<open>note_decoded\<close> of the Vulkan engine (the GPU engine has none).
\<close>

record 'k lane_engine =
  le_prefill :: "token list \<Rightarrow> 'k \<Rightarrow> (f32 list \<times> 'k) option"
  le_forward :: "token \<Rightarrow> nat \<Rightarrow> 'k \<Rightarrow> (f32 list \<times> 'k) option"
  le_argmax :: "token \<Rightarrow> nat \<Rightarrow> 'k \<Rightarrow> (token \<times> 'k) option"
  le_note :: "token list \<Rightarrow> 'k \<Rightarrow> 'k"

definition lane_sample :: "'g chat_env \<Rightarrow> sampler_config \<Rightarrow> nat \<Rightarrow> f32 list \<Rightarrow> 'g decode_control \<Rightarrow> token option \<times> 'g decode_control" where
  "lane_sample env cfg i logits c =
    sample_token (f32_math.truncate (ce_math env)) (ce_rng env) (ce_count_order env) (ce_thread_r env i) logits cfg c"

function lane_loop ::
  "'g chat_env \<Rightarrow> sampler_config \<Rightarrow> 'k lane_engine \<Rightarrow> bool \<Rightarrow> nat \<Rightarrow> token \<Rightarrow> nat \<Rightarrow> token list \<Rightarrow> 'g decode_control \<Rightarrow> 'k
     \<Rightarrow> (token list \<times> string \<times> 'g decode_control \<times> 'k) option" where
  "lane_loop env cfg en greedy_on max_tokens next_token pos out c k =
    (if next_token \<in> set (ce_stops env) then Some (out, ''stop'', c, k)
     else (let out' = out @ [next_token]; c' = observe next_token c in
       if stop_string_hit env c' out' then Some (out', ''stop'', c', k)
       else if max_tokens \<le> length out' then Some (out', ''length'', c', k)
       else if greedy_on then (case le_argmax en next_token pos k of None \<Rightarrow> None
            | Some (t, k') \<Rightarrow> lane_loop env cfg en greedy_on max_tokens t (Suc pos) out' c' k')
       else (case le_forward en next_token pos k of None \<Rightarrow> None
            | Some (logits, k') \<Rightarrow>
              (case lane_sample env cfg (length out') logits c' of
                 (None, c'') \<Rightarrow> None
               | (Some t, c'') \<Rightarrow> lane_loop env cfg en greedy_on max_tokens t (Suc pos) out' c'' k'))))"
  by pat_completeness auto
termination
  by (relation "measure (\<lambda>(env, cfg, en, g, max_tokens, t, pos, out, c, k). max_tokens - length out)") auto

declare lane_loop.simps [simp del]

definition lane_result :: "'g chat_env \<Rightarrow> token list \<Rightarrow> token list \<Rightarrow> string \<Rightarrow> 'g decode_control \<Rightarrow> chat_result" where
  "lane_result env prompt out finish c =
    (case finish_text env c out of (s, cut_at_stop) \<Rightarrow>
       \<lparr>cr_text = s, cr_prompt_tokens = length prompt, cr_completion_tokens = length out,
        cr_finish = (if cut_at_stop then ''stop'' else finish)\<rparr>)"

definition greedy_lane :: "sampler_config \<Rightarrow> 'g decode_control \<Rightarrow> bool" where
  "greedy_lane cfg c = (sc_temperature cfg = Fin 0 \<and> \<not> modifies_logits c)"

definition run_lane ::
  "'g chat_env \<Rightarrow> sampler_config \<Rightarrow> 'k lane_engine \<Rightarrow> token list \<Rightarrow> nat \<Rightarrow> 'g decode_control \<Rightarrow> 'k \<Rightarrow> (token list \<times> string \<times> 'g decode_control \<times> 'k) option" where
  "run_lane env cfg en prompt max_tokens c k =
    (let c1 = observe_prompt_tail prompt 64 c in
     case le_prefill en prompt k of None \<Rightarrow> None
     | Some (logits, k1) \<Rightarrow>
       (case lane_sample env cfg 0 logits c1 of
          (None, c2) \<Rightarrow> None
        | (Some t, c2) \<Rightarrow> lane_loop env cfg en (greedy_lane cfg c) max_tokens t (length prompt) [] c2 k1))"

definition generate_gpu ::
  "'g chat_env \<Rightarrow> sampler_config \<Rightarrow> 'k lane_engine \<Rightarrow> token list \<Rightarrow> nat \<Rightarrow> 'g decode_control \<Rightarrow> 'k \<Rightarrow> (chat_result \<times> token list \<times> 'k) option" where
  "generate_gpu env cfg en prompt max_tokens c k =
    (case run_lane env cfg en prompt max_tokens c k of None \<Rightarrow> None
     | Some (out, finish, c', k') \<Rightarrow> Some (lane_result env prompt out finish c', out, k'))"

definition generate_vk ::
  "'g chat_env \<Rightarrow> sampler_config \<Rightarrow> 'k lane_engine \<Rightarrow> token list \<Rightarrow> nat \<Rightarrow> 'g decode_control \<Rightarrow> 'k \<Rightarrow> (chat_result \<times> token list \<times> 'k) option" where
  "generate_vk env cfg en prompt max_tokens c k =
    (case run_lane env cfg en prompt max_tokens c k of None \<Rightarrow> None
     | Some (out, finish, c', k') \<Rightarrow>
         Some (lane_result env prompt out finish c', out, if out \<noteq> [] then le_note en (butlast out) k' else k'))"

section \<open>The choice of the lane\<close>

datatype lane = Spec_lane | Gpu_lane | Vulkan_lane | Candle_lane

record lane_flags =
  lf_drafts_loaded :: bool
  lf_gpu :: "nat option"
  lf_vulkan :: "nat option"

text \<open>
  \<open>lf_gpu\<close> and \<open>lf_vulkan\<close> are present when the feature is built, the lock is not poisoned and the model is loaded; they carry
  \<^verbatim>\<open>MAX_PREFILL_M\<close> and \<^verbatim>\<open>MAX_SEQ\<close>.
\<close>

definition pick_lane ::
  "'g chat_env \<Rightarrow> sampler_config \<Rightarrow> lane_flags \<Rightarrow> nat \<Rightarrow> nat \<Rightarrow> 'g decode_control \<Rightarrow> bool \<Rightarrow> bool \<Rightarrow> bool \<Rightarrow> lane" where
  "pick_lane env cfg fl prompt_len max_tokens c has_fsm has_detector has_logprobs =
    (let plain = (\<not> ce_inspection env \<and> \<not> has_detector \<and> \<not> has_logprobs \<and> \<not> has_fsm);
         fast = (plain \<and> \<not> ce_pld env \<and> \<not> ce_early_exit env)
     in if ce_spec_decode env \<and> plain \<and> sc_temperature cfg = Fin 0 \<and> \<not> modifies_logits c \<and> lf_drafts_loaded fl then Spec_lane
        else if fast \<and> (case lf_gpu fl of None \<Rightarrow> False | Some max_prefill_m \<Rightarrow> 1 \<le> prompt_len \<and> prompt_len \<le> max_prefill_m) then Gpu_lane
        else if fast \<and> (case lf_vulkan fl of None \<Rightarrow> False
               | Some max_seq_vk \<Rightarrow> 1 \<le> prompt_len \<and> prompt_len \<le> max_seq_vk - 128 \<and> prompt_len + max_tokens < max_seq_vk) then Vulkan_lane
        else Candle_lane)"

end
