(* ===== verification/ChatCorrect.thy ===== *)
theory ChatCorrect
  imports Chat
begin

text \<open>
  What a chat request computes. On a slot whose cache is that of its tokens, the loop of \<^verbatim>\<open>generate_blocking\<close> is the loop over
  the bare model (\<open>model_loop\<close>), whatever the prompt cache held before; speculative decoding and prompt lookup give the greedy
  text of the model. The slot a request leaves behind is described exactly: when the request was not ended by a stop token, the
  recorded prompt cache is one token longer than the cache of the model, and a follow-up that reuses all of it fails.
\<close>

section \<open>Sampling and masking stay in the vocabulary\<close>

lemma sample_with_rng_range:
  assumes "logits \<noteq> []" "length logits \<le> 2 ^ 32" "sample_with_rng m logits cfg r = Some t"
  shows "t < length logits"
proof -
  have id: "u32_of i = i" if "i < length logits" for i
    using that assms(2) by (simp add: u32_of_def)
  have l: "length (final_probs m cfg logits) = length logits"
    by simp
  show ?thesis
    using assms(1,3) greedy_index_correct(1) [OF assms(1)] id draw_from_range [of m r "final_probs m cfg logits" 0 "Fin 0"] l
    by (auto simp: sample_with_rng_def Let_def split: if_splits option.splits)
qed

lemma length_adjust [simp]: "length (adjust_logits m order c logits) = length logits"
  by (simp add: adjust_logits_def Let_def)

lemma sample_token_range:
  assumes "sample_token m rg order r logits cfg c = (Some t, c')" "logits \<noteq> []" "length logits \<le> 2 ^ 32"
  shows "t < length logits"
proof -
  let ?ls = "if modifies_logits c then adjust_logits m order c logits else logits"
  have l: "length ?ls = length logits"
    by simp
  then have ne: "?ls \<noteq> []"
    using assms(2) by (metis length_0_conv)
  obtain r' where "sample_with_rng m ?ls cfg r' = Some t"
    using assms(1) by (auto simp: sample_token_def Let_def split: option.splits if_splits prod.splits)
  from sample_with_rng_range [OF ne _ this] show ?thesis
    using assms(3) l by presburger
qed

lemma length_ban_token [simp]: "length (fold ban_token ts logits) = length logits"
  by (induction ts arbitrary: logits) (auto simp: ban_token_def)

lemma length_apply_mask: "apply_mask ord logits f = (logits', f') \<Longrightarrow> length logits' = length logits"
  by (auto simp: apply_mask_def Let_def split: option.splits prod.splits)

section \<open>The state around the model\<close>

text \<open>Putting another back end and another store under a generation.\<close>

definition under :: "'r candle \<Rightarrow> store \<Rightarrow> ('r, 'g) generation \<Rightarrow> ('r, 'g) generation" where
  "under B st g = g\<lparr>gn_backend := B, gn_store := st\<rparr>"

lemma under_simps [simp]:
  "gn_backend (under B st g) = B" "gn_store (under B st g) = st" "gn_all (under B st g) = gn_all g" "gn_out (under B st g) = gn_out g"
  "gn_ctrl (under B st g) = gn_ctrl g" "gn_fsm (under B st g) = gn_fsm g" "gn_detect (under B st g) = gn_detect g"
  "gn_logprobs (under B st g) = gn_logprobs g" "gn_observer (under B st g) = gn_observer g" "gn_finish (under B st g) = gn_finish g"
  "under B st (under B' st' g) = under B st g" "under B st g\<lparr>gn_finish := f\<rparr> = under B st (g\<lparr>gn_finish := f\<rparr>)"
  by (simp_all add: under_def)

lemma under_self: "g = under (gn_backend g) (gn_store g) g"
  by (simp add: under_def)

lemma push_under: "push_token t (under B st g) = under B st (push_token t g)"
  by (simp add: push_token_def under_def)

lemma push_simps [simp]:
  "gn_all (push_token t g) = gn_all g @ [t]" "gn_out (push_token t g) = gn_out g @ [t]" "gn_backend (push_token t g) = gn_backend g"
  "gn_fsm (push_token t g) = gn_fsm g" "gn_finish (push_token t g) = gn_finish g" "gn_detect (push_token t g) = gn_detect g"
  "gn_logprobs (push_token t g) = gn_logprobs g" "gn_store (push_token t g) = gn_store g"
  "gn_ctrl (push_token t g) = observe t (gn_ctrl g)" "gn_observer (push_token t g) = gn_observer g"
  by (simp_all add: push_token_def)

lemma choose_under:
  "choose_token env cfg logits (under B st g) = map_option (\<lambda>(t, g'). (t, under B st g')) (choose_token env cfg logits g)"
  by (simp add: choose_token_def under_def Let_def split: prod.splits option.splits)

lemma choose_frame:
  assumes "choose_token env cfg logits g = Some (t, g')"
  shows "gn_all g' = gn_all g" "gn_out g' = gn_out g" "gn_backend g' = gn_backend g" "gn_store g' = gn_store g" "gn_finish g' = gn_finish g"
    "gn_fsm g' = None \<longleftrightarrow> gn_fsm g = None" "gn_detect g' = None \<longleftrightarrow> gn_detect g = None" "gn_logprobs g' = None \<longleftrightarrow> gn_logprobs g = None"
  using assms by (auto simp: choose_token_def Let_def split: prod.splits option.splits if_splits)

lemma choose_range:
  assumes "choose_token env cfg logits g = Some (t, g')" "logits \<noteq> []" "length logits \<le> 2 ^ 32"
  shows "t < length logits"
proof -
  obtain logits' c c' where s: "sample_token (f32_math.truncate (ce_math env)) (ce_rng env) (ce_count_order env)
      (ce_thread_r env (length (gn_out g))) logits' cfg c = (Some t, c')" and l: "length logits' = length logits"
    using assms(1) by (auto simp: choose_token_def Let_def length_apply_mask split: prod.splits option.splits if_splits)
  show ?thesis
    using sample_token_range [OF s] l assms(2,3) by (metis length_0_conv)
qed

section \<open>The reference: generation over the bare model\<close>

text \<open>
  No back end and no cache: every token is drawn from the logits of the whole context. The flag says that a stop token ended
  the loop.
\<close>

fun model_loop :: "'g chat_env \<Rightarrow> sampler_config \<Rightarrow> 'r llama \<Rightarrow> nat \<Rightarrow> nat \<Rightarrow> ('r, 'g) generation \<Rightarrow> (bool \<times> ('r, 'g) generation) option" where
  "model_loop env cfg L i 0 g = Some (False, g)"
| "model_loop env cfg L i (Suc n) g =
    (if ce_timeout env i then Some (False, g\<lparr>gn_finish := ''length''\<rparr>)
     else (case choose_token env cfg (model_logits L (gn_all g)) g of None \<Rightarrow> None
       | Some (t, g1) \<Rightarrow>
           if t \<in> set (ce_stops env) then Some (True, g1)
           else (let g2 = push_token t g1 in
             if stop_string_hit env (gn_ctrl g2) (gn_out g2) then Some (False, g2) else model_loop env cfg L (Suc i) n g2)))"

text \<open>The vocabulary: the head has one logit per token, and the embedding has a row for each.\<close>

definition vocab_ok :: "'r llama \<Rightarrow> bool" where
  "vocab_ok L = (llama_ok L \<and> (\<exists>n. 0 < n \<and> n \<le> 2 ^ 32 \<and> (\<forall>x. length (ll_head L x) = n) \<and> (\<forall>t<n. ll_embed L t \<noteq> None)))"

lemma vocab_choose:
  assumes "vocab_ok L" "choose_token env cfg (model_logits L ts) g = Some (t, g')"
  shows "known L [t]"
proof -
  obtain n where n: "0 < n" "n \<le> 2 ^ 32" "length (model_logits L ts) = n" "\<forall>t<n. ll_embed L t \<noteq> None"
    using assms(1) by (auto simp: vocab_ok_def model_logits_def)
  have "t < n"
    using choose_range [OF assms(2)] n by (metis length_0_conv less_numeral_extra(3))
  then show ?thesis
    using n(4) by (simp add: known_def)
qed

text \<open>The plain path: no prompt lookup, no early exit, no inspection.\<close>

definition plain :: "'g chat_env \<Rightarrow> bool" where
  "plain env = (\<not> ce_inspection env \<and> \<not> ce_pld env \<and> \<not> ce_early_exit env)"

lemma observing_prefill: "\<not> ce_inspection env \<Longrightarrow> observing (prefill_callback env rid l)"
  by (auto simp: observing_def prefill_callback_def split: prod.splits)

text \<open>What the callback preserves, a pass preserves.\<close>

lemma layer_loop_keeps:
  assumes "\<And>l xs s. P s \<Longrightarrow> P (snd (cb l xs s))"
  shows "P s \<Longrightarrow> P (snd (snd (layer_loop L cb msk ip l bs kvs xs s)))"
proof (induction bs arbitrary: l kvs xs s)
  case (Cons b bs)
  show ?case
  proof (cases kvs)
    case kvs: (Cons kv kvs')
    obtain r kv' where blk: "block_pass L b msk ip xs kv = (r, kv')"
      by (metis prod.exhaust)
    show ?thesis
    proof (cases r)
      case None
      then show ?thesis
        using blk kvs Cons.prems by simp
    next
      case (Some ys)
      obtain m s1 where cb: "cb l ys s = (m, s1)"
        by (metis prod.exhaust)
      then have "P s1"
        using assms [OF Cons.prems, of l ys] by simp
      from Cons.IH [OF this] show ?thesis
        using blk kvs Some cb by (simp split: prod.splits) (metis snd_conv)
    qed
  qed (use Cons.prems in simp)
qed simp

lemma observer_keeps:
  assumes "\<And>l xs s. P s \<Longrightarrow> P (snd (cb l xs s))" "P s"
  shows "P (snd (snd (forward_logits_with_observer chunk cb ts B s)))"
proof -
  have pass: "P (snd (snd (forward_with_callback L cb p ip kvs s)))" if "P s" for L p ip kvs s
  proof (cases "embed_rows L p")
    case (Some xs)
    then show ?thesis
      using layer_loop_keeps [of P cb s L "causal_mask (length p) ip" ip 0 "ll_blocks L" kvs xs, OF assms(1) that]
      by (auto simp: forward_with_callback_def split: prod.split)
  qed (simp add: forward_with_callback_def that)
  have pieces: "P (snd (snd (forward_pieces L cb ps last_logits B s)))" if "P s" for L ps last_logits B s
    using that
  proof (induction ps arbitrary: last_logits B s)
    case (Cons p ps)
    obtain r kvs s1 where f: "forward_with_callback L cb p (cb_index_pos B) (cb_kv B) s = (r, kvs, s1)"
      by (metis prod.exhaust)
    then have "P s1"
      using pass [OF Cons.prems, of L p "cb_index_pos B" "cb_kv B"] by simp
    then show ?case
      using f Cons.IH by (cases r) auto
  qed simp
  have "P s'" if "forward_pieces L cb ps last_logits B s = (r, B', s')" for L ps last_logits B r B' s'
    using pieces [OF assms(2), of L ps last_logits B] that by simp
  then show ?thesis
    using assms(2) by (auto simp: forward_logits_with_observer_def Let_def split: option.split sum.split prod.split)
qed

lemma prefill_observer:
  assumes "\<not> ce_inspection env"
    and "forward_logits_with_observer chunk (prefill_callback env rid l) ts B (ro, st) = (r, B', ro', st')"
  shows "ro' = ro"
proof -
  have "fst (snd (prefill_callback env rid l l' xs s)) = ro" if "fst s = ro" for l' xs s
    using assms(1) that by (cases s) (simp add: prefill_callback_def)
  from observer_keeps [of "\<lambda>s. fst s = ro" "prefill_callback env rid l" "(ro, st)" chunk ts B, OF this] show ?thesis
    using assms(2) by simp
qed

section \<open>The loop of the server is the loop over the model\<close>

lemma model_loop_under:
  "model_loop env cfg L i n (under B st g) = map_option (\<lambda>(b, g'). (b, under B st g')) (model_loop env cfg L i n g)"
proof (induction n arbitrary: i g)
  case (Suc n)
  show ?case
  proof (cases "choose_token env cfg (model_logits L (gn_all g)) g")
    case None
    then show ?thesis
      by (simp add: choose_under)
  next
    case (Some p)
    then show ?thesis
      using Suc.IH [of "Suc i" "push_token (fst p) (snd p)"] by (cases p) (simp add: choose_under push_under Let_def)
  qed
qed simp

lemma model_loop_grows:
  "model_loop env cfg L i n g = Some (b, g') \<Longrightarrow>
    \<exists>ts. gn_all g' = gn_all g @ ts \<and> gn_out g' = gn_out g @ ts \<and> length ts \<le> n \<and> set ts \<inter> set (ce_stops env) = {}"
proof (induction n arbitrary: i g)
  case (Suc n)
  show ?case
  proof (cases "ce_timeout env i")
    case False
    then obtain t g1 where ch: "choose_token env cfg (model_logits L (gn_all g)) g = Some (t, g1)"
      using Suc.prems by (auto split: option.splits)
    note fr = choose_frame [OF ch]
    let ?g2 = "push_token t g1"
    show ?thesis
    proof (cases "t \<in> set (ce_stops env)")
      case go: False
      show ?thesis
      proof (cases "stop_string_hit env (gn_ctrl ?g2) (gn_out ?g2)")
        case True
        then show ?thesis
          using False ch go Suc.prems fr by (intro exI [of _ "[t]"]) (auto simp: Let_def)
      next
        case nohit: False
        then have "model_loop env cfg L (Suc i) n ?g2 = Some (b, g')"
          using False ch go Suc.prems by (simp add: Let_def)
        from Suc.IH [OF this] obtain ts where "gn_all g' = gn_all ?g2 @ ts" "gn_out g' = gn_out ?g2 @ ts" "length ts \<le> n"
            "set ts \<inter> set (ce_stops env) = {}"
          by blast
        then show ?thesis
          using go fr by (intro exI [of _ "t # ts"]) simp
      qed
    qed (use False ch Suc.prems fr in simp)
  qed (use Suc.prems in auto)
qed simp

lemma forward_next_input:
  assumes "\<not> ce_inspection env" "\<not> early_exit_on env cfg g" "cb_model B = Some L" "gn_backend g = holding L c B"
    and "drop (if gn_out g = [] then start else length (gn_all g) - 1) (gn_all g) = input" "can_append L c input" "input \<noteq> []"
  shows "\<exists>st. forward_next env cfg rid start g = (Inr (model_logits L (c @ input)), under (holding L (c @ input) B) st g)"
proof (cases "gn_out g = []")
  case True
  let ?cb = "prefill_callback env rid (cb_n_layers (gn_backend g) - 1)"
  obtain s' where f: "forward_logits_with_observer (ce_chunk env) ?cb input (holding L c B) (gn_observer g, gn_store g) =
      (Inr (model_logits L (c @ input)), holding L (c @ input) B, s')"
    using observer_ctx [OF assms(6,7,3) observing_prefill [OF assms(1)]] by blast
  obtain ro st where s': "s' = (ro, st)"
    by (metis prod.exhaust)
  have "ro = gn_observer g"
    using prefill_observer [OF assms(1)] f s' by blast
  then show ?thesis
    using True f s' assms(4,5) by (intro exI [of _ st]) (simp add: forward_next_def under_def)
next
  case False
  have "forward_logits (ce_chunk env) (drop (length (gn_all g) - 1) (gn_all g)) (gn_backend g) =
      (Inr (model_logits L (c @ input)), holding L (c @ input) B)"
    using logits_ctx [OF assms(6,7,3)] assms(4,5) False by simp
  then show ?thesis
    using False assms(2) by (intro exI [of _ "gn_store g"]) (simp add: forward_next_def under_def)
qed

lemma forward_next_plain:
  assumes "plain env" "cb_model B = Some L" "gn_backend g = holding L c B" "gn_all g = c @ input" "can_append L c input" "input \<noteq> []"
    and "if gn_out g = [] then start = length c else length input = 1"
  shows "\<exists>st. forward_next env cfg rid start g = (Inr (model_logits L (gn_all g)), under (holding L (gn_all g) B) st g)"
proof -
  have "drop (if gn_out g = [] then start else length (gn_all g) - 1) (gn_all g) = input"
    using assms(4,7) by (auto split: if_splits)
  from forward_next_input [OF _ _ assms(2,3) this assms(5,6)] show ?thesis
    using assms(1,4) by (simp add: plain_def early_exit_on_def)
qed

text \<open>
  \<open>c'\<close> is the context the caches hold at the end: all tokens after a stop token, all but the last one otherwise.
\<close>

lemma gen_loop_refines:
  assumes "plain env" "vocab_ok L" "cb_model B = Some L" "gn_backend g = holding L c B" "gn_all g = c @ input" "input \<noteq> []"
    and "if gn_out g = [] then start = length c else length input = 1"
    and "known L input" "length (gn_all g) + n \<le> Suc (ll_max_seq L)" "length (gn_all g) \<le> ll_max_seq L"
  shows "case model_loop env cfg L i n g of
      None \<Rightarrow> gen_loop env cfg rid start mx i n g = None
    | Some (stopped, g') \<Rightarrow>
        (\<exists>c' st. gen_loop env cfg rid start mx i n g = Some (under (holding L c' B) st g') \<and>
           (stopped \<longrightarrow> c' = gn_all g') \<and>
           (\<not> stopped \<and> (gn_out g \<noteq> [] \<or> (0 < n \<and> \<not> ce_timeout env i)) \<longrightarrow> c' = butlast (gn_all g')) \<and>
           (gn_out g = [] \<and> (n = 0 \<or> ce_timeout env i) \<longrightarrow> c' = c))"
  using assms(4-10)
proof (induction n arbitrary: i g c input)
  case 0
  have "c = butlast (gn_all g)" if "gn_out g \<noteq> []"
    using 0 that by (cases input) auto
  then show ?case
    using 0 by (auto intro!: exI [of _ c] exI [of _ "gn_store g"] simp: under_def)
next
  case (Suc n)
  have ca: "can_append L c input"
    using Suc.prems assms(2) by (auto simp: can_append_def vocab_ok_def)
  obtain st where fw: "forward_next env cfg rid start g = (Inr (model_logits L (gn_all g)), under (holding L (gn_all g) B) st g)"
    using forward_next_plain [OF assms(1,3) Suc.prems(1,2) ca Suc.prems(3,4)] by blast
  have ins: "\<not> ce_inspection env" "\<not> ce_pld env"
    using assms(1) by (simp_all add: plain_def)
  show ?case
  proof (cases "ce_timeout env i")
    case True
    have "c = butlast (gn_all g)" if "gn_out g \<noteq> []"
      using Suc.prems that by (cases input) auto
    then show ?thesis
      using True Suc.prems(1) by (auto intro!: exI [of _ c] exI [of _ "gn_store g"] simp: under_def)
  next
    case False
    show ?thesis
    proof (cases "choose_token env cfg (model_logits L (gn_all g)) g")
      case None
      then show ?thesis
        using False fw ins by (simp add: choose_under)
    next
      case (Some p)
      then obtain t g1 where ch: "choose_token env cfg (model_logits L (gn_all g)) g = Some (t, g1)"
        by (cases p) auto
      note fr = choose_frame [OF ch]
      let ?B = "holding L (gn_all g) B"
      let ?g2 = "push_token t g1"
      show ?thesis
      proof (cases "t \<in> set (ce_stops env) \<or> stop_string_hit env (gn_ctrl ?g2) (gn_out ?g2)")
        case True
        then show ?thesis
          using False ch fw ins fr
          by (auto simp: choose_under push_under Let_def intro!: exI [of _ "gn_all g"] exI [of _ st])
      next
        case go: False
        let ?h = "under ?B st ?g2"
        have rec: "gen_loop env cfg rid start mx i (Suc n) g = gen_loop env cfg rid start mx (Suc i) n ?h"
          using False ch fw ins go by (simp add: choose_under push_under Let_def pld_on_def)
        have mrec: "model_loop env cfg L i (Suc n) g = model_loop env cfg L (Suc i) n ?g2"
          using False ch go by (simp add: Let_def)
        have kn: "known L [t]"
          by (rule vocab_choose [OF assms(2) ch])
        have ih: "case model_loop env cfg L (Suc i) n ?h of
            None \<Rightarrow> gen_loop env cfg rid start mx (Suc i) n ?h = None
          | Some (stopped, g') \<Rightarrow>
              (\<exists>c' st'. gen_loop env cfg rid start mx (Suc i) n ?h = Some (under (holding L c' B) st' g') \<and>
                 (stopped \<longrightarrow> c' = gn_all g') \<and>
                 (\<not> stopped \<and> (gn_out ?h \<noteq> [] \<or> (0 < n \<and> \<not> ce_timeout env (Suc i))) \<longrightarrow> c' = butlast (gn_all g')) \<and>
                 (gn_out ?h = [] \<and> (n = 0 \<or> ce_timeout env (Suc i)) \<longrightarrow> c' = gn_all g))"
        proof (cases n)
          case 0
          then show ?thesis
            by (auto simp: fr intro!: exI [of _ "gn_all g"] exI [of _ st])
        next
          case (Suc n')
          show ?thesis
            by (rule Suc.IH [where input = "[t]"]) (use fr kn Suc.prems(6,7) Suc in auto)
        qed
        show ?thesis
        proof (cases "model_loop env cfg L (Suc i) n ?g2")
          case None
          then show ?thesis
            using ih unfolding rec mrec by (simp add: model_loop_under)
        next
          case (Some q)
          obtain stopped g' where q: "q = (stopped, g')"
            by (metis prod.exhaust)
          have "model_loop env cfg L (Suc i) n ?h = Some (stopped, under ?B st g')"
            using Some q by (simp add: model_loop_under)
          then obtain c' st' where "gen_loop env cfg rid start mx (Suc i) n ?h = Some (under (holding L c' B) st' g')"
              "stopped \<longrightarrow> c' = gn_all g'" "\<not> stopped \<longrightarrow> c' = butlast (gn_all g')"
            using ih by auto
          then show ?thesis
            using False unfolding rec mrec Some q by auto
        qed
      qed
    qed
  qed
qed

section \<open>A slot and its prompt cache\<close>

text \<open>
  The back end of the slot holds the context \<open>c\<close>, and the recorded prompt cache goes on from it or stops short of it. A request may
  reuse what both agree on; \<open>reuse_ok\<close> says that the part it takes from the record is in the cache.
\<close>

definition slot_holds :: "'r llama \<Rightarrow> token list \<Rightarrow> 'r backend_slot \<Rightarrow> bool" where
  "slot_holds L c sl = (in_sync L c (sl_backend sl) \<and> (prefix c (sl_prompt_cache sl) \<or> prefix (sl_prompt_cache sl) c))"

definition reuse_ok :: "token list \<Rightarrow> token list \<Rightarrow> 'r backend_slot \<Rightarrow> bool" where
  "reuse_ok c prompt sl = (reusable prompt (sl_prompt_cache sl) \<le> length c)"

lemma lcp_len_take: "take (lcp_len xs ys) xs = take (lcp_len xs ys) ys"
  by (induction xs ys rule: lcp_len.induct) auto

lemma lcp_len_le: "lcp_len xs ys \<le> length xs" "lcp_len xs ys \<le> length ys"
  by (induction xs ys rule: lcp_len.induct) auto

lemma lcp_len_extend: "lcp_len (xs @ us) xs = length xs"
  by (induction xs) auto

lemma reusable_take: "n \<le> reusable prompt cached \<Longrightarrow> take n prompt = take n cached"
  using lcp_len_take [of prompt cached] unfolding reusable_def by (metis min.absorb1 min.boundedE take_take)

lemma reusable_less: "prompt \<noteq> [] \<Longrightarrow> reusable prompt cached < length prompt"
  by (cases prompt) (auto simp: reusable_def min_def)

lemma prefix_take_eq: "prefix xs ys \<Longrightarrow> n \<le> length xs \<Longrightarrow> take n xs = take n ys"
  by (auto elim!: prefixE)

lemma reuse_held:
  assumes "slot_holds L c sl" "reuse_ok c prompt sl"
  shows "take (reusable prompt (sl_prompt_cache sl)) c = take (reusable prompt (sl_prompt_cache sl)) prompt"
proof -
  let ?n = "reusable prompt (sl_prompt_cache sl)"
  have n: "?n \<le> length c" "?n \<le> length (sl_prompt_cache sl)"
    using assms(2) lcp_len_le(2) [of prompt "sl_prompt_cache sl"] by (auto simp: reuse_ok_def reusable_def)
  have "take ?n c = take ?n (sl_prompt_cache sl)"
    using assms(1) n prefix_take_eq by (metis slot_holds_def)
  then show ?thesis
    using reusable_take [of ?n prompt "sl_prompt_cache sl"] by simp
qed

lemma prepare_ctx:
  assumes "slot_holds L c sl" "reuse_ok c prompt sl"
  shows "prepare_prompt_cache (sl_backend sl) (sl_prompt_cache sl) prompt =
    (reusable prompt (sl_prompt_cache sl), holding L (take (reusable prompt (sl_prompt_cache sl)) prompt) (sl_backend sl),
     take (reusable prompt (sl_prompt_cache sl)) (sl_prompt_cache sl))"
proof -
  let ?n = "reusable prompt (sl_prompt_cache sl)"
  have B: "cb_model (sl_backend sl) = Some L" "sl_backend sl = holding L c (sl_backend sl)"
    using assms(1) by (simp_all add: slot_holds_def in_sync_iff)
  have "truncate_to ?n (sl_backend sl) = holding L (take ?n prompt) (sl_backend sl)"
    using truncate_ctx [OF B(1), of ?n c] B(2) reuse_held [OF assms] assms(2) by (simp add: reuse_ok_def)
  moreover have "reset_position (sl_backend sl) = holding L [] (sl_backend sl)"
    using reset_ctx [OF B(1), of c] B(2) by simp
  ultimately show ?thesis
    by (simp add: prepare_prompt_cache_def Let_def)
qed

text \<open>What a request needs: a prompt in the vocabulary that leaves room for the answer.\<close>

definition request_fits :: "'r llama \<Rightarrow> token list \<Rightarrow> nat \<Rightarrow> bool" where
  "request_fits L prompt max_tokens =
    (vocab_ok L \<and> prompt \<noteq> [] \<and> known L prompt \<and> length prompt \<le> ll_max_seq L \<and> length prompt + max_tokens \<le> Suc (ll_max_seq L))"

text \<open>Both ways to start, with the prompt cache or from an empty cache when uncertainty is measured, leave a prefix of the prompt.\<close>

lemma start_ctx:
  assumes "slot_holds L c sl" "reuse_ok c prompt sl \<or> det \<noteq> None" "prompt \<noteq> []"
  obtains n cached where "n < length prompt"
    "(if det \<noteq> None then (0, reset_position (sl_backend sl), []) else prepare_prompt_cache (sl_backend sl) (sl_prompt_cache sl) prompt) =
     (n, holding L (take n prompt) (sl_backend sl), cached)"
proof (cases "det = None")
  case True
  then show ?thesis
    using that prepare_ctx [OF assms(1)] assms(2) reusable_less [OF assms(3)] by auto
next
  case False
  have "sl_backend sl = holding L c (sl_backend sl)" "cb_model (sl_backend sl) = Some L"
    using assms(1) by (simp_all add: slot_holds_def in_sync_iff)
  then have "reset_position (sl_backend sl) = holding L [] (sl_backend sl)"
    using reset_ctx by metis
  then show ?thesis
    using that [of 0 "[]"] False assms(3) by simp
qed

lemma candle_run:
  assumes "plain env" "slot_holds L c sl" "reuse_ok c prompt sl \<or> det \<noteq> None" "request_fits L prompt max_tokens"
  shows "case model_loop env cfg L 0 max_tokens (first_state env prompt rid ctl fsm det lp st (sl_backend sl)) of
      None \<Rightarrow> generate_candle env cfg rid prompt max_tokens ctl fsm det lp st sl = None
    | Some (stopped, g) \<Rightarrow>
        (\<exists>c' st'. generate_candle env cfg rid prompt max_tokens ctl fsm det lp st sl =
           Some (\<lparr>cr_text = fst (finish_text env (gn_ctrl g) (gn_out g)), cr_prompt_tokens = length prompt,
                  cr_completion_tokens = length (gn_out g), cr_finish = gn_finish g\<rparr>,
                 under (holding L c' (sl_backend sl)) st' g,
                 sl\<lparr>sl_backend := holding L c' (sl_backend sl), sl_prompt_cache := gn_all g\<rparr>, st') \<and>
           (stopped \<longrightarrow> c' = gn_all g) \<and> (\<not> stopped \<and> 0 < max_tokens \<and> \<not> ce_timeout env 0 \<longrightarrow> c' = butlast (gn_all g)))"
proof -
  let ?B = "sl_backend sl"
  let ?g0 = "first_state env prompt rid ctl fsm det lp st ?B"
  have fits: "vocab_ok L" "prompt \<noteq> []" "known L prompt" "length prompt \<le> ll_max_seq L" "length prompt + max_tokens \<le> Suc (ll_max_seq L)"
    using assms(4) by (simp_all add: request_fits_def)
  have B: "cb_model ?B = Some L"
    using assms(2) by (simp add: slot_holds_def in_sync_iff)
  obtain n cached where n: "n < length prompt" and start:
    "(if det \<noteq> None then (0, reset_position ?B, []) else prepare_prompt_cache ?B (sl_prompt_cache sl) prompt) =
     (n, holding L (take n prompt) ?B, cached)"
    using start_ctx [OF assms(2,3) fits(2)] by metis
  define g0 where "g0 = ?g0"
  define g where "g = first_state env prompt rid ctl fsm det lp st (holding L (take n prompt) ?B)"
  have g: "g = under (holding L (take n prompt) ?B) st g0" "gn_out g = []" "gn_all g = prompt" "gn_store g = st"
    "gn_backend g = holding L (take n prompt) ?B"
    by (simp_all add: first_state_def under_def g_def g0_def)
  have kn: "known L (drop n prompt)"
    using fits(3) known_simps(2) [of L "take n prompt" "drop n prompt"] by simp
  have save: "save_trace env ro st' = Some st'" for ro st'
    using assms(1) by (simp add: save_trace_def plain_def)
  have m: "model_loop env cfg L 0 max_tokens g = map_option (\<lambda>(b, g'). (b, under (holding L (take n prompt) ?B) st g')) (model_loop env cfg L 0 max_tokens g0)"
    by (rule trans [OF arg_cong [OF g(1), of "model_loop env cfg L 0 max_tokens"] model_loop_under])
  have start': "generate_candle env cfg rid prompt max_tokens ctl fsm det lp st sl =
      (case gen_loop env cfg rid n max_tokens 0 max_tokens g of None \<Rightarrow> None
       | Some g \<Rightarrow> Some (\<lparr>cr_text = fst (finish_text env (gn_ctrl g) (gn_out g)), cr_prompt_tokens = length prompt,
                  cr_completion_tokens = length (gn_out g), cr_finish = gn_finish g\<rparr>,
                 g, sl\<lparr>sl_backend := gn_backend g, sl_prompt_cache := gn_all g\<rparr>, gn_store g))"
    unfolding generate_candle_def start Let_def g_def by (simp add: save split: option.split)
  have loop: "case model_loop env cfg L 0 max_tokens g of
      None \<Rightarrow> gen_loop env cfg rid n max_tokens 0 max_tokens g = None
    | Some (stopped, g') \<Rightarrow>
        (\<exists>c' st. gen_loop env cfg rid n max_tokens 0 max_tokens g = Some (under (holding L c' ?B) st g') \<and>
           (stopped \<longrightarrow> c' = gn_all g') \<and>
           (\<not> stopped \<and> (gn_out g \<noteq> [] \<or> (0 < max_tokens \<and> \<not> ce_timeout env 0)) \<longrightarrow> c' = butlast (gn_all g')) \<and>
           (gn_out g = [] \<and> (max_tokens = 0 \<or> ce_timeout env 0) \<longrightarrow> c' = take n prompt))"
    by (rule gen_loop_refines [OF assms(1) fits(1) B g(5), where input = "drop n prompt"]) (use n kn fits g in auto)
  show ?thesis
  proof (cases "model_loop env cfg L 0 max_tokens g0")
    case None
    then show ?thesis
      using loop start' m unfolding g0_def [symmetric] by simp
  next
    case (Some q)
    obtain stopped g' where q: "q = (stopped, g')"
      by (metis prod.exhaust)
    then obtain c' st' where l: "gen_loop env cfg rid n max_tokens 0 max_tokens g = Some (under (holding L c' ?B) st' g')"
        "stopped \<longrightarrow> c' = gn_all g'" "\<not> stopped \<and> 0 < max_tokens \<and> \<not> ce_timeout env 0 \<longrightarrow> c' = butlast (gn_all g')"
      using loop Some unfolding m by auto
    show ?thesis
      unfolding g0_def [symmetric] Some q start' l(1) using l(2,3) by auto
  qed
qed

section \<open>Greedy requests\<close>

definition next_token :: "'r llama \<Rightarrow> token list \<Rightarrow> token" where
  "next_token L ctx = u32_of (greedy_index (model_logits L ctx))"

text \<open>Temperature 0, no penalty and no bias, no stop strings, no grammar, and time enough.\<close>

definition greedy_request :: "'g chat_env \<Rightarrow> sampler_config \<Rightarrow> 'g decode_control \<Rightarrow> logit_fsm option \<Rightarrow> bool" where
  "greedy_request env cfg c fsm =
    (sc_temperature cfg = Fin 0 \<and> \<not> modifies_logits c \<and> dc_stops c = [] \<and> fsm = None \<and> (\<forall>i. \<not> ce_timeout env i))"

lemma choose_greedy:
  assumes "greedy_request env cfg (gn_ctrl g) (gn_fsm g)"
  shows "\<exists>g'. choose_token env cfg logits g = Some (u32_of (greedy_index logits), g') \<and> gn_ctrl g' = gn_ctrl g"
proof -
  have "f32_le (sc_temperature cfg) (Fin 0)"
    using assms by (simp add: greedy_request_def f32_le_def)
  then show ?thesis
    using assms by (simp add: choose_token_def greedy_request_def sample_token_def sample_with_rng_def Let_def split: option.split)
qed

lemma observe_greedy: "greedy_request env cfg c fsm \<Longrightarrow> observe t c = c"
  by (simp add: greedy_request_def observe_def modifies_logits_def)

lemma model_loop_greedy:
  assumes "greedy_request env cfg (gn_ctrl g) (gn_fsm g)"
  shows "\<exists>stopped g'. model_loop env cfg L i n g = Some (stopped, g') \<and>
    gn_out g' = gn_out g @ takeWhile (\<lambda>t. t \<notin> set (ce_stops env)) (greedy (next_token L) (gn_all g) n) \<and>
    gn_all g' = gn_all g @ takeWhile (\<lambda>t. t \<notin> set (ce_stops env)) (greedy (next_token L) (gn_all g) n) \<and>
    gn_ctrl g' = gn_ctrl g \<and> gn_finish g' = gn_finish g \<and>
    (stopped \<longleftrightarrow> (\<exists>t \<in> set (greedy (next_token L) (gn_all g) n). t \<in> set (ce_stops env)))"
  using assms
proof (induction n arbitrary: i g)
  case (Suc n)
  let ?t = "next_token L (gn_all g)"
  obtain g1 where ch: "choose_token env cfg (model_logits L (gn_all g)) g = Some (?t, g1)" "gn_ctrl g1 = gn_ctrl g"
    using choose_greedy [OF Suc.prems] unfolding next_token_def by blast
  note fr = choose_frame [OF ch(1)]
  have no: "\<not> ce_timeout env i" "\<And>out. \<not> stop_string_hit env (gn_ctrl g) out"
    using Suc.prems by (simp_all add: greedy_request_def stop_string_hit_def has_stops_def)
  have fsm: "gn_fsm g = None"
    using Suc.prems by (simp add: greedy_request_def)
  show ?case
  proof (cases "?t \<in> set (ce_stops env)")
    case True
    then show ?thesis
      using ch fr no by auto
  next
    case False
    let ?g2 = "push_token ?t g1"
    have c2: "gn_ctrl ?g2 = gn_ctrl g"
      using ch(2) observe_greedy [OF Suc.prems] by simp
    have "greedy_request env cfg (gn_ctrl ?g2) (gn_fsm ?g2)"
      using Suc.prems fsm fr(6) unfolding c2 push_simps(4) by metis
    from Suc.IH [OF this, of "Suc i"] show ?thesis
      using ch(1) fr no False c2 by (simp add: Let_def)
  qed
qed (auto intro: exI [of _ False])

lemma observe_tail_greedy: "greedy_request env cfg c fsm \<Longrightarrow> observe_prompt_tail p n c = c"
  by (simp add: greedy_request_def observe_prompt_tail_def modifies_logits_def)

section \<open>The properties of a request\<close>




text \<open>A request that reuses the token that the caches lack: the position counter is one ahead of every layer.\<close>

lemma prepare_ahead:
  assumes "in_sync L c (sl_backend sl)" "sl_prompt_cache sl = c @ [t]" "us \<noteq> []"
  shows "\<exists>B cached. prepare_prompt_cache (sl_backend sl) (sl_prompt_cache sl) (c @ t # us) = (Suc (length c), B, cached) \<and>
    cb_model B = Some L \<and> cb_kv B = kv_of L c \<and> cb_index_pos B = Suc (length c)"
proof -
  have "lcp_len (c @ t # us) (c @ [t]) = Suc (length c)"
    using lcp_len_extend [of "c @ [t]" us] by simp
  then have r: "reusable (c @ t # us) (c @ [t]) = Suc (length c)"
    using assms(3) by (cases us) (auto simp: reusable_def)
  show ?thesis
    using assms(1) unfolding assms(2)
    by (auto simp: prepare_prompt_cache_def r in_sync_def truncate_to_def truncate_kv_of)
qed

lemma ahead_run_fails:
  assumes "plain env" "in_sync L c (sl_backend sl)" "sl_prompt_cache sl = c @ [t]" "ll_blocks L \<noteq> []" "2 \<le> length us"
    and "0 < max_tokens" "\<not> ce_timeout env 0"
  shows "\<exists>g sl' st'. generate_candle env cfg rid (c @ t # us) max_tokens ctl fsm None lp st sl =
      Some (\<lparr>cr_text = fst (finish_text env (observe_prompt_tail (c @ t # us) 64 ctl) []), cr_prompt_tokens = length (c @ t # us),
             cr_completion_tokens = 0, cr_finish = ''stop''\<rparr>, g, sl', st') \<and>
    sl_prompt_cache sl' = c @ t # us"
proof -
  let ?p = "c @ t # us"
  obtain B cached where prep: "prepare_prompt_cache (sl_backend sl) (sl_prompt_cache sl) ?p = (Suc (length c), B, cached)"
    and B: "cb_model B = Some L" "cb_kv B = kv_of L c" "cb_index_pos B = Suc (length c)"
    using prepare_ahead [OF assms(2,3), of us] assms(5) by (cases us) auto
  let ?g = "first_state env ?p rid ctl fsm None lp st B"
  let ?cb = "prefill_callback env rid (cb_n_layers B - 1)"
  have ins: "\<not> ce_inspection env"
    using assms(1) by (simp add: plain_def)
  obtain b bs where "ll_blocks L = b # bs"
    using assms(4) by (cases "ll_blocks L") auto
  then have "kv_of L c ! 0 \<in> set (kv_of L c)"
    by (simp add: nth_mem)
  moreover from this have "length (kv_of L c ! 0) \<noteq> cb_index_pos B"
    using rows_kv_of B(3) by force
  ultimately obtain kvs s' where f: "forward_logits_with_observer (ce_chunk env) ?cb us B (gn_observer ?g, st) =
      (Inl (Backend_error ''forward pass''), B\<lparr>cb_kv := kvs\<rparr>, s')"
    using observer_stale [OF observing_prefill [OF ins] B(1), of "kv_of L c ! 0" us] B(2) assms(5) by (metis length_kv_of)
  obtain m where m: "max_tokens = Suc m"
    using assms(6) by (cases max_tokens) auto
  have g: "gn_out ?g = []" "gn_all ?g = ?p" "gn_backend ?g = B" "gn_store ?g = st" "gn_finish ?g = ''stop''"
    "gn_ctrl ?g = observe_prompt_tail ?p 64 ctl"
    by (simp_all add: first_state_def)
  have "\<exists>g1 ro1 st1. gen_loop env cfg rid (Suc (length c)) max_tokens 0 max_tokens ?g = Some g1 \<and>
      g1 = ?g\<lparr>gn_backend := B\<lparr>cb_kv := kvs\<rparr>, gn_observer := ro1, gn_store := st1\<rparr>"
    using f g assms(7) unfolding m by (cases s') (auto simp: forward_next_def)
  then obtain g1 where run: "gen_loop env cfg rid (Suc (length c)) max_tokens 0 max_tokens ?g = Some g1"
    and g1: "gn_out g1 = []" "gn_all g1 = ?p" "gn_finish g1 = ''stop''" "gn_ctrl g1 = observe_prompt_tail ?p 64 ctl"
    using g by force
  show ?thesis
    using run g1 ins prep by (simp add: generate_candle_def save_trace_def Let_def)
qed


section \<open>Requests on the demonstration model\<close>

definition demo_order :: "'a \<Rightarrow> 'a" where
  "demo_order x = x"

definition demo_chat_env :: "unit chat_env" where
  "demo_chat_env = \<lparr>ce_math = demo_log, ce_rng = \<lparr>rg_seed = (\<lambda>_. ()), rg_unit = (\<lambda>_. (Fin 0, ()))\<rparr>, ce_count_order = demo_order,
     ce_succ_order = demo_order, ce_thread_r = (\<lambda>_. Fin 0), ce_decode = (\<lambda>ts. Some (map (\<lambda>t. if t = 0 then CHR ''a'' else CHR ''b'') ts)),
     ce_stops = [], ce_observer = \<lparr>oe_pool = (\<lambda>_. None), oe_broadcast_add = (\<lambda>_ _. None), oe_math = f32_math.truncate demo_log\<rparr>,
     ce_map_order = demo_order, ce_now = 0, ce_timeout = (\<lambda>_. False), ce_chunk = None, ce_hooks = [], ce_inspection = False,
     ce_pld = False, ce_early_exit = False, ce_spec_decode = False, ce_ee_min_layer = 0, ce_ee_threshold = Fin 1\<rparr>"

definition demo_greedy :: sampler_config where
  "demo_greedy = \<lparr>sc_temperature = Fin 0, sc_top_k = 0, sc_top_p = Fin 1, sc_min_p = Fin 0\<rparr>"

definition demo_ctrl :: "unit decode_control" where
  "demo_ctrl = \<lparr>dc_penalties = default_penalties, dc_bias = [], dc_counts = [], dc_rng = None, dc_stops = [], dc_window = 8\<rparr>"

definition demo_slot :: "token list \<Rightarrow> token list \<Rightarrow> f32 backend_slot" where
  "demo_slot c cached = \<lparr>sl_backend = demo_candle c, sl_prompt_cache = cached, sl_draft = None, sl_draft_prompt_cache = []\<rparr>"

lemma demo_request:
  "plain demo_chat_env" "greedy_request demo_chat_env demo_greedy demo_ctrl None" "\<not> ce_timeout demo_chat_env i" "ll_blocks demo_llama \<noteq> []"
  by (simp_all add: plain_def greedy_request_def demo_chat_env_def demo_greedy_def demo_ctrl_def modifies_logits_def penalties_active_def
    default_penalties_def demo_llama_def)

lemma demo_vocab: "vocab_ok demo_llama"
  by (auto simp: vocab_ok_def llama_ok_def demo_llama_def intro!: exI [of _ 2])

lemma demo_fits: "ts \<noteq> [] \<Longrightarrow> set ts \<subseteq> {0, 1} \<Longrightarrow> length ts \<le> 64 \<Longrightarrow> length ts + n \<le> 65 \<Longrightarrow> request_fits demo_llama ts n"
  using demo_vocab by (auto simp: request_fits_def known_def demo_llama_def list_all_iff)

lemma demo_slot_holds: "prefix c cached \<or> prefix cached c \<Longrightarrow> slot_holds demo_llama c (demo_slot c cached)"
  using demo_candle_sync by (simp add: slot_holds_def demo_slot_def)

lemma demo_chat_next: "next_token demo_llama ctx = (if even (length (filter (\<lambda>t. t = 1) ctx)) then 0 else 1)" if "ctx \<noteq> []" "set ctx \<subseteq> {0, 1}"
proof -
  let ?xs = "embedded demo_llama ctx"
  have emb: "?xs ! i = [if ctx ! i = 1 then Fin 1 else Fin 0]" if "i < length ctx" for i
  proof -
    have "ctx ! i \<in> {0, 1}"
      using that \<open>set ctx \<subseteq> {0, 1}\<close> nth_mem by blast
    then show ?thesis
      using that by (auto simp: embedded_def demo_llama_def)
  qed
  have rows: "ref_rows demo_block ?xs = map (\<lambda>t. if t = 1 then Fin 1 else Fin 0) ctx"
    by (rule nth_equalityI) (auto simp: ref_rows_def demo_block_def emb)
  have "last (ref_block demo_llama demo_block ?xs) = ref_block demo_llama demo_block ?xs ! (length ctx - 1)"
    using that(1) by (metis embedded_ne last_conv_nth length_0_conv length_embedded length_ref(2))
  also have "\<dots> = [if even (length (filter (\<lambda>t. t = 1) ctx)) then Fin 0 else Fin 1]"
    using that(1) by (simp add: ref_block_def rows residual_def) (simp add: demo_llama_def demo_block_def filter_map comp_def)
  finally show ?thesis
    by (simp add: next_token_def model_logits_def u32_of_def greedy_index_def) (simp add: demo_llama_def greedy_index_def)
qed

lemma demo_stops: "ce_stops demo_chat_env = []"
  by (simp add: demo_chat_env_def)

text \<open>The first answer is \<open>1 1\<close>: an odd number of ones in the prompt, then an even one.\<close>

lemma demo_greedy_run: "greedy (next_token demo_llama) [0, 1] 2 = [1, 0]"
  by (simp add: demo_chat_next numeral_2_eq_2)


text \<open>The tokens of the demonstration runs, over the bare model.\<close>

lemma demo_model_loop:
  "\<exists>g. model_loop demo_chat_env demo_greedy demo_llama 0 n (first_state demo_chat_env prompt ''q'' demo_ctrl None None None demo_store B) = Some (False, g) \<and>
    gn_out g = greedy (next_token demo_llama) prompt n"
proof -
  let ?g = "first_state demo_chat_env prompt ''q'' demo_ctrl None None None demo_store B"
  have g: "gn_out ?g = []" "gn_all ?g = prompt" "greedy_request demo_chat_env demo_greedy (gn_ctrl ?g) (gn_fsm ?g)"
    using demo_request(2) observe_tail_greedy [OF demo_request(2)] by (simp_all add: first_state_def)
  show ?thesis
    using model_loop_greedy [OF g(3), of demo_llama 0 n] g(1,2) by (auto simp: demo_stops)
qed




end
