(* ===== verification/ChatSpeculative.thy ===== *)
theory ChatSpeculative
  imports ChatCorrect
begin

text \<open>
  The two shortcuts of a greedy chat request: prompt-lookup rounds inside \<^verbatim>\<open>generate_blocking\<close>, and the draft model of
  \<^verbatim>\<open>generate_spec_decode\<close> (\<^verbatim>\<open>src/src/server/rest.rs\<close>, \<^verbatim>\<open>spec_iter\<close> of \<^verbatim>\<open>src/src/engine/spec_decode.rs\<close>). Both give the
  greedy tokens of the model: speculative decoding exactly, prompt lookup up to the token limit, which it can overrun.
\<close>

section \<open>Winners of the logits\<close>

lemma argmax_scan_range: "argmax_scan xs i bi bv < i + length xs \<or> argmax_scan xs i bi bv = bi"
proof (induction xs arbitrary: i bi bv)
  case (Cons x xs)
  then show ?case
    using Cons.IH [of "Suc i" i x] Cons.IH [of "Suc i" bi bv] by auto
qed simp

lemma argmax_range: "v \<noteq> [] \<Longrightarrow> length v \<le> 2 ^ 32 \<Longrightarrow> argmax v < length v"
  using argmax_scan_range [of v 0 0 NegInf] unfolding argmax_def
  by (metis add_0 length_greater_0_conv mod_less mod_less_eq_dividend order.strict_trans1)

definition greedy_next :: "'r llama \<Rightarrow> token list \<Rightarrow> token" where
  "greedy_next L ctx = argmax (model_logits L ctx)"

text \<open>Two models with one vocabulary.\<close>

definition same_vocab :: "'r llama \<Rightarrow> 'd llama \<Rightarrow> bool" where
  "same_vocab L K = (llama_ok L \<and> llama_ok K \<and>
     (\<exists>n. 0 < n \<and> n \<le> 2 ^ 32 \<and> (\<forall>x. length (ll_head L x) = n) \<and> (\<forall>x. length (ll_head K x) = n) \<and>
        (\<forall>t<n. ll_embed L t \<noteq> None) \<and> (\<forall>t<n. ll_embed K t \<noteq> None)))"

lemma same_vocab_known:
  assumes "same_vocab L K"
  shows "known L [greedy_next L ctx]" "known K [greedy_next L ctx]" "known L [greedy_next K ctx]" "known K [greedy_next K ctx]"
proof -
  obtain n where n: "0 < n" "n \<le> 2 ^ 32" "length (model_logits L ctx) = n" "length (model_logits K ctx) = n"
    "\<forall>t<n. ll_embed L t \<noteq> None" "\<forall>t<n. ll_embed K t \<noteq> None"
    using assms by (auto simp: same_vocab_def model_logits_def)
  have "model_logits L ctx \<noteq> []" "model_logits K ctx \<noteq> []"
    using n(1,3,4) by force+
  then have "greedy_next L ctx < n" "greedy_next K ctx < n"
    using argmax_range [of "model_logits L ctx"] argmax_range [of "model_logits K ctx"] n by (simp_all add: greedy_next_def)
  then show "known L [greedy_next L ctx]" "known K [greedy_next L ctx]" "known L [greedy_next K ctx]" "known K [greedy_next K ctx]"
    using n(5,6) by (auto simp: known_def)
qed

lemma known_greedy: "(\<And>c. known L [f c]) \<Longrightarrow> known L (greedy f ctx n)"
  by (induction n arbitrary: ctx) (auto simp: known_def)

section \<open>One round of speculation\<close>

lemma propose_ctx:
  assumes "cb_model D = Some K" "llama_ok K" "\<And>c. known K [greedy_next K c]" "length ctx + k \<le> ll_max_seq K"
  shows "propose chunk k (model_logits K ctx) (holding K ctx D) =
    (Inr (greedy (greedy_next K) ctx k), holding K (ctx @ greedy (greedy_next K) ctx k) D)"
  using assms(4)
proof (induction k arbitrary: ctx)
  case (Suc k)
  let ?d = "greedy_next K ctx"
  have "can_append K ctx [?d]"
    using Suc.prems assms(2,3) by (simp add: can_append_def)
  from logits_ctx [OF this _ assms(1), of chunk]
  have f: "forward_logits chunk [argmax (model_logits K ctx)] (holding K ctx D) = (Inr (model_logits K (ctx @ [?d])), holding K (ctx @ [?d]) D)"
    by (simp add: greedy_next_def)
  show ?case
    using Suc.IH [of "ctx @ [?d]"] Suc.prems by (simp add: f Let_def) (simp add: greedy_next_def)
qed simp

text \<open>The accepted drafts and the corrected token are the greedy tokens of the main model.\<close>

lemma agree_greedy:
  assumes "rows = map (\<lambda>i. model (ctx @ take (Suc i) ds)) [0 ..< length ds]" "ds \<noteq> []"
    and "n = accepted_count (argmax (model ctx)) ds rows"
  shows "n \<le> length ds" "take n ds @ [corrected_token (argmax (model ctx)) n ds rows] = greedy (argmax \<circ> model) ctx (Suc n)"
proof -
  have ag: "agree es rs \<le> length es \<and> take (agree es rs) es @ [argmax (model (c @ take (agree es rs) es))] = greedy (argmax \<circ> model) c (Suc (agree es rs))"
    if "length es \<le> length rs" "\<forall>i<length es. rs ! i = model (c @ take i es)" for es rs c
    using that
  proof (induction es rs arbitrary: c rule: agree.induct)
    case (1 d es r rs)
    have r: "r = model c"
      using "1.prems"(2) by (auto dest: spec [of _ 0])
    have rs: "length es \<le> length rs" "\<forall>i<length es. rs ! i = model ((c @ [d]) @ take i es)"
      using "1.prems" by (auto dest: spec [of _ "Suc _"])
    show ?case
      using "1.IH" [OF _ rs] r by (cases "argmax r = d") auto
  qed auto
  have row: "rows ! i = model (ctx @ take (Suc i) ds)" if "i < length ds" for i
    using that assms(1) by simp
  have len: "length rows = length ds"
    by (simp add: assms(1))
  obtain d es where ds: "ds = d # es"
    using assms(2) by (cases ds) auto
  let ?a = "agree es rows"
  have "\<forall>i<length es. rows ! i = model ((ctx @ [d]) @ take i es)"
    using row ds by simp
  with ag [of es rows "ctx @ [d]"] len ds
  have a: "?a \<le> length es" "take ?a es @ [argmax (model (ctx @ d # take ?a es))] = greedy (argmax \<circ> model) (ctx @ [d]) (Suc ?a)"
    by simp_all
  have n: "n = (if d = argmax (model ctx) then Suc ?a else 0)"
    using assms(3) ds by (simp add: accepted_count_def)
  show "n \<le> length ds"
    using n a(1) ds by simp
  show "take n ds @ [corrected_token (argmax (model ctx)) n ds rows] = greedy (argmax \<circ> model) ctx (Suc n)"
  proof (cases "d = argmax (model ctx)")
    case True
    have "corrected_token (argmax (model ctx)) n ds rows = argmax (rows ! ?a)"
      using True n a(1) ds by (auto simp: corrected_token_def)
    also have "rows ! ?a = model (ctx @ d # take ?a es)"
      using row [of ?a] a(1) ds by simp
    finally show ?thesis
      using True n a(2) ds by simp
  qed (use n in \<open>simp add: corrected_token_def\<close>)
qed

text \<open>A round commits greedy tokens of the main model and leaves both models on the new context.\<close>

lemma spec_iter_ctx:
  assumes "cb_model M = Some L" "cb_model D = Some K" "same_vocab L K" "0 < k"
    and "length ctx + Suc k \<le> ll_max_seq L" "length ctx + Suc k \<le> ll_max_seq K"
  shows "\<exists>n r. let ctx' = ctx @ greedy (greedy_next L) ctx (Suc n) in
    spec_iter chunk (model_logits L ctx) (model_logits K ctx) k (holding L ctx M) (holding K ctx D) = (Inr r, holding L ctx' M, holding K ctx' D) \<and>
    sr_committed r = greedy (greedy_next L) ctx (Suc n) \<and> n \<le> k \<and>
    sr_main_logit r = model_logits L ctx' \<and> sr_draft_logit r = model_logits K ctx'"
proof -
  have ok: "llama_ok L" "llama_ok K"
    using assms(3) by (simp_all add: same_vocab_def)
  note vocab = same_vocab_known [OF assms(3)]
  define ds where "ds = greedy (greedy_next K) ctx k"
  have ds: "ds \<noteq> []" "length ds = k"
    using assms(4) by (cases k) (auto simp: ds_def)
  have proposed: "propose chunk k (model_logits K ctx) (holding K ctx D) = (Inr ds, holding K (ctx @ ds) D)"
    using propose_ctx [OF assms(2) ok(2) vocab(4)] assms(6) by (simp add: ds_def)
  define rows where "rows = map (\<lambda>i. model_logits L (ctx @ take (Suc i) ds)) [0 ..< length ds]"
  have can: "can_append L ctx ds"
    using ok assms(5) known_greedy [OF vocab(3)] by (simp add: can_append_def ds_def)
  have verified: "forward_all_logits ds (holding L ctx M) = (Inr rows, holding L (ctx @ ds) M)"
    unfolding rows_def by (rule all_logits_ctx [OF can ds(1) assms(1)])
  define n where "n = accepted_count (argmax (model_logits L ctx)) ds rows"
  define t where "t = corrected_token (argmax (model_logits L ctx)) n ds rows"
  have gn: "argmax \<circ> model_logits L = greedy_next L"
    by (auto simp: greedy_next_def)
  have n: "n \<le> k" "take n ds @ [t] = greedy (greedy_next L) ctx (Suc n)"
    using agree_greedy [OF rows_def ds(1) n_def] ds(2) by (simp_all add: t_def gn)
  have pos: "length (ctx @ ds) - (length ds - n) = length (ctx @ take n ds)"
    using n(1) ds(2) by simp
  have tr: "truncate_to (length (ctx @ take n ds)) (holding L (ctx @ ds) M) = holding L (ctx @ take n ds) M"
    "truncate_to (length (ctx @ take n ds)) (holding K (ctx @ ds) D) = holding K (ctx @ take n ds) D"
    using truncate_ctx [OF assms(1), of "length (ctx @ take n ds)" "ctx @ ds"] truncate_ctx [OF assms(2), of "length (ctx @ take n ds)" "ctx @ ds"]
      n(1) ds(2) by simp_all
  have t: "known L [t]" "known K [t]"
  proof -
    have "t = last (greedy (greedy_next L) ctx (Suc n))"
      unfolding n(2) [symmetric] by simp
    also have "\<dots> = greedy_next L (ctx @ greedy (greedy_next L) ctx n)"
      unfolding greedy_Suc_append by simp
    finally show "known L [t]" "known K [t]"
      using vocab(1,2) by simp_all
  qed
  have app: "can_append L (ctx @ take n ds) [t]" "can_append K (ctx @ take n ds) [t]"
    using ok t assms(5,6) n(1) ds(2) by (simp_all add: can_append_def)
  have new: "(ctx @ take n ds) @ [t] = ctx @ greedy (greedy_next L) ctx (Suc n)"
    using n(2) by (metis append_assoc)
  note fl = logits_ctx [OF app(1) _ assms(1), of chunk] logits_ctx [OF app(2) _ assms(2), of chunk]
  show ?thesis
    unfolding spec_iter_def Let_def proposed prod.case sum.case verified holding_simps(5) n_def [symmetric] t_def [symmetric] pos tr
    using fl n unfolding new by (intro exI [of _ n]) (simp del: greedy.simps)
qed

section \<open>The loop over the rounds\<close>

lemma commit_round_eq:
  "length out < max_tokens \<Longrightarrow> commit_round stops max_tokens ts out =
    (\<exists>t \<in> set (take (max_tokens - length out) ts). t \<in> set stops,
     out @ takeWhile (\<lambda>t. t \<notin> set stops) (take (max_tokens - length out) ts))"
proof (induction ts arbitrary: out)
  case (Cons t ts)
  show ?case
  proof (cases "t \<in> set stops")
    case True
    then show ?thesis
      using Cons.prems by (auto simp: take_Cons' )
  next
    case False
    have m: "max_tokens - length out = Suc (max_tokens - length (out @ [t]))"
      using Cons.prems by simp
    show ?thesis
      using False Cons.IH [of "out @ [t]"] unfolding m by (simp add: Let_def)
  qed
qed simp

lemma takeWhile_hit: "x \<in> set xs \<Longrightarrow> \<not> P x \<Longrightarrow> takeWhile P (xs @ ys) = takeWhile P xs"
  by (induction xs) auto

lemma takeWhile_all: "\<forall>x \<in> set xs. P x \<Longrightarrow> takeWhile P (xs @ ys) = xs @ takeWhile P ys"
  by (induction xs) auto

lemma spec_loop_greedy:
  assumes "cb_model M = Some L" "cb_model D = Some K" "same_vocab L K" "dc_stops c = []"
    and "length p + max_tokens + Suc spec_k \<le> ll_max_seq L" "length p + max_tokens + Suc spec_k \<le> ll_max_seq K"
    and "max_tokens - length out \<le> n" "length out \<le> max_tokens"
  shows "\<exists>x. spec_loop env c max_tokens n (model_logits L (p @ out)) (model_logits K (p @ out)) out (holding L (p @ out) M) (holding K (p @ out) D) =
      (out @ takeWhile (\<lambda>t. t \<notin> set (ce_stops env)) (greedy (greedy_next L) (p @ out) (max_tokens - length out)), holding L x M, holding K x D) \<and>
    prefix (p @ out @ takeWhile (\<lambda>t. t \<notin> set (ce_stops env)) (greedy (greedy_next L) (p @ out) (max_tokens - length out))) x"
  using assms(7,8)
proof (induction n arbitrary: out)
  case (Suc n)
  let ?tw = "takeWhile (\<lambda>t. t \<notin> set (ce_stops env))"
  let ?m = "max_tokens - length out"
  show ?case
  proof (cases "max_tokens \<le> length out")
    case True
    then show ?thesis
      using Suc.prems by auto
  next
    case False
    let ?ctx = "p @ out"
    have cap: "length ?ctx + Suc spec_k \<le> ll_max_seq L" "length ?ctx + Suc spec_k \<le> ll_max_seq K"
      using assms(5,6) False by simp_all
    obtain k r where r: "spec_iter (ce_chunk env) (model_logits L ?ctx) (model_logits K ?ctx) spec_k (holding L ?ctx M) (holding K ?ctx D) =
        (Inr r, holding L (?ctx @ greedy (greedy_next L) ?ctx (Suc k)) M, holding K (?ctx @ greedy (greedy_next L) ?ctx (Suc k)) D)"
      "sr_committed r = greedy (greedy_next L) ?ctx (Suc k)"
      "sr_main_logit r = model_logits L (?ctx @ greedy (greedy_next L) ?ctx (Suc k))"
      "sr_draft_logit r = model_logits K (?ctx @ greedy (greedy_next L) ?ctx (Suc k))"
      using spec_iter_ctx [OF assms(1-3) _ cap, of "ce_chunk env"] unfolding Let_def spec_k_def by force
    let ?G = "greedy (greedy_next L) ?ctx (Suc k)"
    have no: "\<not> stop_string_hit env c out'" for out'
      using assms(4) by (simp add: stop_string_hit_def has_stops_def)
    have cr: "commit_round (ce_stops env) max_tokens ?G out = (\<exists>t \<in> set (take ?m ?G). t \<in> set (ce_stops env), out @ ?tw (take ?m ?G))"
      using commit_round_eq False by (simp del: greedy.simps)
    show ?thesis
    proof (cases "\<exists>t \<in> set (take ?m ?G). t \<in> set (ce_stops env)")
      case True
      have "min (min ?m (Suc k)) ?m = min ?m (Suc k)"
        by simp
      then have e: "take ?m ?G = take (min ?m (Suc k)) (greedy (greedy_next L) ?ctx ?m)"
        unfolding take_greedy by (rule arg_cong [OF sym])
      have G: "greedy (greedy_next L) ?ctx ?m = take ?m ?G @ drop (min ?m (Suc k)) (greedy (greedy_next L) ?ctx ?m)"
        unfolding e by (rule append_take_drop_id [symmetric])
      obtain x where x: "x \<in> set (take ?m ?G)" "\<not> x \<notin> set (ce_stops env)"
        using True by blast
      have tw: "?tw (greedy (greedy_next L) ?ctx ?m) = ?tw (take ?m ?G)"
        by (rule trans [OF arg_cong [OF G, of ?tw] takeWhile_hit [where P = "\<lambda>t. t \<notin> set (ce_stops env)", OF x]])
      have "prefix (out @ ?tw (take ?m ?G)) (out @ ?G)"
        by (simp del: greedy.simps) (meson prefix_order.trans take_is_prefix takeWhile_is_prefix)
      then have "prefix (p @ out @ ?tw (take ?m ?G)) (?ctx @ ?G)"
        by (simp del: greedy.simps)
      then show ?thesis
        using False r True cr by (intro exI [of _ "?ctx @ ?G"]) (simp add: tw Let_def del: greedy.simps append_assoc)
    next
      case go: False
      have tw: "?tw (take ?m ?G) = take ?m ?G"
        using go by (simp add: takeWhile_eq_all_conv del: greedy.simps)
      show ?thesis
      proof (cases "Suc k < ?m")
        case True
        let ?out = "out @ ?G"
        have G: "greedy (greedy_next L) ?ctx ?m = ?G @ greedy (greedy_next L) (p @ ?out) (max_tokens - length ?out)"
        proof -
          have "?m = Suc k + (max_tokens - length ?out)"
            using True by simp
          then show ?thesis
            using greedy_append [of "greedy_next L" ?ctx "Suc k" "max_tokens - length ?out"] by (metis append_assoc)
        qed
        have out: "take ?m ?G = ?G"
          using True by (simp del: greedy.simps)
        have "\<forall>t \<in> set ?G. t \<notin> set (ce_stops env)"
          using go unfolding out by blast
        then have tw2: "?tw (greedy (greedy_next L) ?ctx ?m) = ?G @ ?tw (greedy (greedy_next L) (p @ ?out) (max_tokens - length ?out))"
          unfolding G by (rule takeWhile_all)
        have "max_tokens - length ?out \<le> n" "length ?out \<le> max_tokens"
          using Suc.prems True by (simp_all del: greedy.simps)
        from Suc.IH [OF this] obtain x where x: "spec_loop env c max_tokens n (model_logits L (p @ ?out)) (model_logits K (p @ ?out)) ?out (holding L (p @ ?out) M) (holding K (p @ ?out) D) =
            (?out @ ?tw (greedy (greedy_next L) (p @ ?out) (max_tokens - length ?out)), holding L x M, holding K x D)"
          "prefix (p @ ?out @ ?tw (greedy (greedy_next L) (p @ ?out) (max_tokens - length ?out))) x"
          by blast
        have assoc: "?ctx @ ?G = p @ ?out"
          by simp
        have tw3: "?tw ?G = ?G"
          using tw unfolding out .
        show ?thesis
          using False r go cr no x unfolding tw2 tw out assoc
          by (intro exI [of _ x]) (simp add: Let_def tw3 del: greedy.simps)
      next
        case last: False
        have G: "take ?m ?G = greedy (greedy_next L) ?ctx ?m"
          using last by (simp add: take_greedy min_absorb1 del: greedy.simps)
        have stays: "spec_loop env c max_tokens n ml dl (out @ greedy (greedy_next L) ?ctx ?m) M' D' = (out @ greedy (greedy_next L) ?ctx ?m, M', D')" for ml dl M' D'
          using False by (cases n) (simp_all del: greedy.simps)
        have "prefix (p @ out @ greedy (greedy_next L) ?ctx ?m) (?ctx @ ?G)"
          unfolding G [symmetric] by (simp add: take_is_prefix del: greedy.simps)
        then show ?thesis
          using False r go cr no unfolding tw G tw [unfolded G]
          by (intro exI [of _ "?ctx @ ?G"]) (simp add: Let_def stays del: greedy.simps append_assoc)
      qed
    qed
  qed
qed auto

text \<open>
  C15: Speculative decoding returns the greedy tokens of the main model up to the limit or the first stop token, whatever the draft model
  proposes. The two recorded prompt caches are covered by what the models hold, so any later request may reuse them.
\<close>

theorem spec_decode_greedy:
  assumes "same_vocab L K" "in_sync L c M" "in_sync K d D" "prefix c mcache \<or> prefix mcache c" "prefix d dcache \<or> prefix dcache d"
    and "reusable prompt mcache \<le> length c" "reusable prompt dcache \<le> length d" "prompt \<noteq> []" "known L prompt" "known K prompt"
    and "length prompt + max_tokens + Suc spec_k \<le> ll_max_seq L" "length prompt + max_tokens + Suc spec_k \<le> ll_max_seq K" "dc_stops ctl = []"
  shows "\<exists>r x M' D'. generate_spec_decode env prompt max_tokens ctl M mcache D dcache =
      (r, takeWhile (\<lambda>t. t \<notin> set (ce_stops env)) (greedy (greedy_next L) prompt max_tokens),
       (M', prompt @ takeWhile (\<lambda>t. t \<notin> set (ce_stops env)) (greedy (greedy_next L) prompt max_tokens)),
       (D', prompt @ takeWhile (\<lambda>t. t \<notin> set (ce_stops env)) (greedy (greedy_next L) prompt max_tokens))) \<and>
    in_sync L x M' \<and> in_sync K x D' \<and>
    prefix (prompt @ takeWhile (\<lambda>t. t \<notin> set (ce_stops env)) (greedy (greedy_next L) prompt max_tokens)) x"
proof -
  let ?tw = "takeWhile (\<lambda>t. t \<notin> set (ce_stops env)) (greedy (greedy_next L) prompt max_tokens)"
  have M: "cb_model M = Some L" "cb_model D = Some K"
    using assms(2,3) by (simp_all add: in_sync_def)
  let ?m = "reusable prompt mcache" and ?d = "reusable prompt dcache"
  define sm where "sm = \<lparr>sl_backend = M, sl_prompt_cache = mcache, sl_draft = None, sl_draft_prompt_cache = []\<rparr>"
  define sd where "sd = \<lparr>sl_backend = D, sl_prompt_cache = dcache, sl_draft = None, sl_draft_prompt_cache = []\<rparr>"
  have pm: "prepare_prompt_cache M mcache prompt = (?m, holding L (take ?m prompt) M, take ?m mcache)"
    using prepare_ctx [of L c sm prompt] assms(2,4,6) by (simp add: slot_holds_def reuse_ok_def sm_def)
  have pd: "prepare_prompt_cache D dcache prompt = (?d, holding K (take ?d prompt) D, take ?d dcache)"
    using prepare_ctx [of K d sd prompt] assms(3,5,7) by (simp add: slot_holds_def reuse_ok_def sd_def)
  have lt: "?m < length prompt" "?d < length prompt"
    using reusable_less [OF assms(8)] by blast+
  have kn: "known L (drop ?m prompt)" "known K (drop ?d prompt)"
    using assms(9,10) by (metis append_take_drop_id known_simps(2))+
  have app: "can_append L (take ?m prompt) (drop ?m prompt)" "can_append K (take ?d prompt) (drop ?d prompt)"
    using kn lt assms(1,11,12) by (simp_all add: can_append_def same_vocab_def)
  have fl: "forward_logits (ce_chunk env) (drop ?m prompt) (holding L (take ?m prompt) M) = (Inr (model_logits L prompt), holding L prompt M)"
    "forward_logits (ce_chunk env) (drop ?d prompt) (holding K (take ?d prompt) D) = (Inr (model_logits K prompt), holding K prompt D)"
    using logits_ctx [OF app(1) _ M(1)] logits_ctx [OF app(2) _ M(2)] lt by simp_all
  obtain x where x: "spec_loop env ctl max_tokens max_tokens (model_logits L prompt) (model_logits K prompt) [] (holding L prompt M) (holding K prompt D) =
      (?tw, holding L x M, holding K x D)" "prefix (prompt @ ?tw) x"
    using spec_loop_greedy [OF M assms(1,13,11,12), of "[]" max_tokens env] by auto
  show ?thesis
    using pm pd fl x M by (auto simp: generate_spec_decode_def)
qed

section \<open>Prompt-lookup rounds\<close>

text \<open>However many draft tokens are accepted, an iteration ends at the limit or below it, or has pushed one token above it.\<close>

lemma commit_drafts_length:
  "length (gn_out g) < max_tokens \<Longrightarrow> length (gn_out (snd (commit_drafts stops max_tokens ds g))) \<le> max_tokens"
proof (induction ds arbitrary: g)
  case (Cons d ds)
  then show ?case
    using Cons.IH [of "push_token d g"] by (auto simp: Let_def)
qed simp

lemma pld_round_length:
  assumes "length (gn_out g) < max_tokens"
  shows "length (gn_out (chat_pld_round env max_tokens t g)) \<le> max_tokens"
proof -
  have "length (gn_out g1) \<le> max_tokens" if "commit_drafts (ce_stops env) max_tokens ds g = (b, g1)" for ds b g1
    using commit_drafts_length [OF assms, of "ce_stops env" ds] that by simp
  then show ?thesis
    using assms by (auto simp: chat_pld_round_def Let_def split: option.split sum.split prod.split dest: meta_spec)
qed

lemma forward_next_frame:
  "forward_next env cfg rid start g = (r, g') \<Longrightarrow> gn_out g' = gn_out g"
  by (auto simp: forward_next_def split: if_splits prod.splits sum.splits)

lemma gen_loop_length:
  "gen_loop env cfg rid start max_tokens i n g = Some g' \<Longrightarrow> length (gn_out g') \<le> max max_tokens (length (gn_out g)) + n"
proof (induction n arbitrary: i g)
  case (Suc n)
  show ?case
  proof (cases "ce_timeout env i")
    case False
    obtain r g1 where f: "forward_next env cfg rid start g = (r, g1)"
      by (metis prod.exhaust)
    note o1 = forward_next_frame [OF f]
    show ?thesis
    proof (cases r)
      case (Inr logits)
      show ?thesis
      proof (cases "gn_out g = [] \<and> ce_inspection env \<and> ro_early_exit_signal (gn_observer g1)")
        case go: False
        then obtain t g2 where ch: "choose_token env cfg logits g1 = Some (t, g2)"
          using Suc.prems False f Inr by (auto split: option.splits)
        note o2 = choose_frame(2) [OF ch]
        let ?g3 = "push_token t g2"
        let ?g4 = "if pld_on env cfg ?g3 \<and> length (gn_out ?g3) < max_tokens then chat_pld_round env max_tokens t ?g3 else ?g3"
        show ?thesis
        proof (cases "t \<in> set (ce_stops env) \<or> stop_string_hit env (gn_ctrl ?g3) (gn_out ?g3)")
          case True
          then show ?thesis
            using Suc.prems False f Inr go ch o1 o2 by (auto simp: Let_def split: if_splits)
        next
          case nohit: False
          then have "gen_loop env cfg rid start max_tokens (Suc i) n ?g4 = Some g'"
            using Suc.prems False f Inr go ch by (auto simp: Let_def)
          from Suc.IH [OF this] have "length (gn_out g') \<le> max max_tokens (length (gn_out ?g4)) + n" .
          moreover have "length (gn_out ?g4) \<le> max max_tokens (Suc (length (gn_out g)))"
            using pld_round_length [of ?g3 max_tokens env t] o1 o2 by auto
          ultimately show ?thesis
            by auto
        qed
      qed (use Suc.prems False f Inr o1 in auto)
    qed (use Suc.prems False f o1 in auto)
  qed (use Suc.prems in auto)
qed auto

text \<open>
  What prompt lookup relies on: no stop token and no stop string comes up, and no two logits tie (the sampler takes the last of
  the greatest, the verification of the drafts the first).
\<close>

definition lookup_request :: "'g chat_env \<Rightarrow> sampler_config \<Rightarrow> 'r llama \<Rightarrow> ('r, 'g) generation \<Rightarrow> bool" where
  "lookup_request env cfg L g =
    (ce_pld env \<and> \<not> ce_inspection env \<and> greedy_request env cfg (gn_ctrl g) (gn_fsm g) \<and> gn_detect g = None \<and> gn_logprobs g = None \<and>
     vocab_ok L \<and> next_token L = greedy_next L \<and> (\<forall>c. next_token L c \<notin> set (ce_stops env)))"

lemma lookup_requestD:
  assumes "lookup_request env cfg L g"
  shows "ce_pld env" "\<not> ce_inspection env" "greedy_request env cfg (gn_ctrl g) (gn_fsm g)" "vocab_ok L" "next_token L = greedy_next L"
    "next_token L c \<notin> set (ce_stops env)" "\<not> stop_string_hit env (gn_ctrl g) out" "observe t (gn_ctrl g) = gn_ctrl g" "pld_on env cfg g"
    "gn_fsm g = None" "\<not> ce_timeout env i"
  using assms by (auto simp: lookup_request_def greedy_request_def stop_string_hit_def has_stops_def pld_on_def observe_def modifies_logits_def)

lemma vocab_next: "vocab_ok L \<Longrightarrow> known L [next_token L c]"
proof -
  assume v: "vocab_ok L"
  then obtain n where n: "0 < n" "n \<le> 2 ^ 32" "length (model_logits L c) = n" "\<forall>t<n. ll_embed L t \<noteq> None"
    by (auto simp: vocab_ok_def model_logits_def)
  then have "greedy_index (model_logits L c) < n"
    using greedy_index_correct(1) by force
  then have "next_token L c < n"
    using n(2) by (simp add: next_token_def u32_of_def)
  then show ?thesis
    using n(4) by (simp add: known_def)
qed

text \<open>Committing drafts without stop tokens pushes them up to the limit.\<close>

lemma commit_drafts_push:
  assumes "\<forall>d \<in> set ds. d \<notin> set stops" "length (gn_out g) < max_tokens" "\<And>t. observe t (gn_ctrl g) = gn_ctrl g"
  shows "commit_drafts stops max_tokens ds g =
    (False, g\<lparr>gn_all := gn_all g @ take (max_tokens - length (gn_out g)) ds, gn_out := gn_out g @ take (max_tokens - length (gn_out g)) ds\<rparr>)"
  using assms
proof (induction ds arbitrary: g)
  case (Cons d ds)
  let ?g = "push_token d g"
  have m: "max_tokens - length (gn_out g) = Suc (max_tokens - length (gn_out ?g))"
    using Cons.prems(2) by simp
  have c: "gn_ctrl ?g = gn_ctrl g"
    using Cons.prems(3) by simp
  have push: "?g = g\<lparr>gn_all := gn_all g @ [d], gn_out := gn_out g @ [d]\<rparr>"
    using Cons.prems(3) [of d] by (simp add: push_token_def)
  show ?case
  proof (cases "max_tokens \<le> length (gn_out ?g)")
    case True
    then show ?thesis
      using Cons.prems push m by (simp add: Let_def)
  next
    case False
    then have "commit_drafts stops max_tokens ds ?g =
        (False, ?g\<lparr>gn_all := gn_all ?g @ take (max_tokens - length (gn_out ?g)) ds, gn_out := gn_out ?g @ take (max_tokens - length (gn_out ?g)) ds\<rparr>)"
      by (intro Cons.IH) (use Cons.prems c in auto)
    then show ?thesis
      using False Cons.prems(1) m push by (simp add: Let_def)
  qed
qed simp

text \<open>
  A lookup round over a back end that holds the context \<open>y\<close> pushes greedy tokens of \<open>y @ [t]\<close>, up to the limit, and keeps the accepted
  drafts in the caches.
\<close>

lemma pld_round_ctx:
  assumes "lookup_request env cfg L g" "cb_model B = Some L" "gn_backend g = holding L y B" "known L y" "known L (gn_all g)" "known L [t]"
    and "length (gn_out g) < max_tokens" "length y + 6 \<le> ll_max_seq L" "lookup_draft (gn_all g) (gn_all g) 2 5 = Some d"
  shows "\<exists>a. a \<le> 5 \<and> chat_pld_round env max_tokens t g =
      (let G = greedy (next_token L) (y @ [t]) (min (max_tokens - length (gn_out g)) (Suc a))
       in g\<lparr>gn_all := gn_all g @ G, gn_out := gn_out g @ G,
            gn_backend := holding L (y @ t # greedy (next_token L) (y @ [t]) a) B\<rparr>)"
proof -
  note D = lookup_requestD [OF assms(1)]
  have d: "length d \<le> 5" "set d \<subseteq> set (gn_all g)"
    using lookup_draft_bounds [OF assms(9)] by blast+
  then have "known L d"
    using assms(5) by (auto simp: known_def list_all_iff)
  then have can: "can_append L y (t # d)"
    using assms(6,8) d(1) D(4) by (auto simp: can_append_def vocab_ok_def known_def)
  define rows where "rows = rows_of (model_logits L) (y @ [t]) d"
  have rows: "forward_all_logits (t # d) (holding L y B) = (Inr rows, holding L (y @ t # d) B)"
  proof -
    have "map (\<lambda>i. model_logits L (y @ take (Suc i) (t # d))) [0 ..< length (t # d)] = rows"
      by (simp add: rows_def rows_of_def del: upt_Suc)
    then show ?thesis
      using all_logits_ctx [OF can _ assms(2)] by simp
  qed
  define v where "v = verify_drafts d rows"
  have f: "argmax \<circ> model_logits L = next_token L"
    using D(5) by (auto simp: greedy_next_def)
  have a: "vr_accepted v \<le> length d" "take (vr_accepted v) d @ [vr_bonus v] = greedy (next_token L) (y @ [t]) (Suc (vr_accepted v))"
    using verify_drafts_cases(1,2) [OF rows_def v_def] by (simp_all add: f)
  let ?a = "vr_accepted v"
  let ?m = "max_tokens - length (gn_out g)"
  let ?G = "greedy (next_token L) (y @ [t]) (Suc ?a)"
  have ga: "take ?a d = greedy (next_token L) (y @ [t]) ?a" "vr_bonus v = next_token L (y @ t # greedy (next_token L) (y @ [t]) ?a)"
    using a(2) unfolding greedy_Suc_append by simp_all
  have nost: "\<forall>x \<in> set (take ?a d). x \<notin> set (ce_stops env)"
  proof -
    have "x \<notin> set (ce_stops env)" if "x \<in> set (greedy (next_token L) c n)" for x c n
      using that D(6) by (induction n arbitrary: c) auto
    then show ?thesis
      unfolding ga by blast
  qed
  have tr: "truncate_to (Suc (length y + ?a)) (holding L (y @ t # d) B) = holding L (y @ t # greedy (next_token L) (y @ [t]) ?a) B"
    using truncate_ctx [OF assms(2), of "Suc (length y + ?a)" "y @ t # d"] a(1) by (simp add: ga Suc_diff_le)
  then have tr': "truncate_to (length y + 1 + ?a) (holding L (y @ t # d) B) = holding L (y @ t # greedy (next_token L) (y @ [t]) ?a) B"
    by simp
  have push: "push_token x h = h\<lparr>gn_all := gn_all h @ [x], gn_out := gn_out h @ [x]\<rparr>" if "gn_ctrl h = gn_ctrl g" for x h
    using D(8) [of x] that by (simp add: push_token_def)
  have round: "chat_pld_round env max_tokens t g =
      (let T = take ?m (take ?a d); g2 = g\<lparr>gn_all := gn_all g @ T, gn_out := gn_out g @ T, gn_backend := holding L (y @ t # greedy (next_token L) (y @ [t]) ?a) B\<rparr>
       in if length (gn_out g2) < max_tokens then push_token (vr_bonus v) g2 else g2)"
    unfolding chat_pld_round_def assms(9,3) option.case rows prod.case sum.case v_def [symmetric] commit_drafts_push [OF nost assms(7) D(8)]
      Let_def holding_simps(5) tr' ga(2)
    using D(6) [of "y @ t # greedy (next_token L) (y @ [t]) ?a"] D(7) by (simp del: length_take)
  show ?thesis
  proof (intro exI [of _ ?a] conjI)
    show "?a \<le> 5"
      using a(1) d(1) by simp
    show "chat_pld_round env max_tokens t g =
      (let G = greedy (next_token L) (y @ [t]) (min ?m (Suc ?a))
       in g\<lparr>gn_all := gn_all g @ G, gn_out := gn_out g @ G, gn_backend := holding L (y @ t # greedy (next_token L) (y @ [t]) ?a) B\<rparr>)"
    proof (cases "?a < ?m")
      case True
      have "min ?m (Suc ?a) = Suc ?a" "take ?m (take ?a d) = take ?a d" "length (take ?a d) = ?a"
        using True a(1) by simp_all
      then show ?thesis
        using True unfolding round Let_def by (simp add: push a(2) [symmetric] del: greedy.simps)
    next
      case False
      then have "min ?m (Suc ?a) = ?m" "take ?m (take ?a d) = greedy (next_token L) (y @ [t]) ?m"
        using take_greedy [of ?m "next_token L" "y @ [t]" ?a] by (simp_all add: ga(1) min_absorb1)
      then show ?thesis
        using False assms(7) unfolding round Let_def by simp
    qed
  qed
qed

text \<open>One iteration: a greedy token of what the caches hold, and what a lookup round adds to it.\<close>

lemma lookup_iteration:
  assumes "lookup_request env cfg L g" "cb_model B = Some L" "gn_backend g = holding L x B" "known L x" "known L (gn_all g)"
    and "drop (if gn_out g = [] then start else length (gn_all g) - 1) (gn_all g) = input" "input \<noteq> []"
    and "length (x @ input) + 6 \<le> ll_max_seq L"
  shows "\<exists>g' x' G. gen_loop env cfg rid start max_tokens i (Suc n) g = gen_loop env cfg rid start max_tokens (Suc i) n g' \<and>
    lookup_request env cfg L g' \<and> gn_backend g' = holding L x' B \<and> known L x' \<and> known L (gn_all g') \<and>
    gn_all g' = gn_all g @ G \<and> gn_out g' = gn_out g @ G \<and> G = greedy (next_token L) (x @ input) (length G) \<and> G \<noteq> [] \<and>
    (lookup_draft (gn_all g @ [hd G]) (gn_all g @ [hd G]) 2 5 \<noteq> None \<and> Suc (length (gn_out g)) < max_tokens \<longrightarrow> 2 \<le> length G) \<and>
    (if length (gn_out g') < max_tokens then x' = x @ input @ butlast G else length x' \<le> length (x @ input) + 6) \<and>
    (max_tokens \<le> length (gn_out g) \<longrightarrow> x' = x @ input) \<and> gn_finish g' = gn_finish g"
proof -
  note D = lookup_requestD [OF assms(1)]
  have kin: "known L input"
    using assms(5,6) by (metis append_take_drop_id known_simps(2))
  have can: "can_append L x input"
    using kin assms(8) D(4) by (simp add: can_append_def vocab_ok_def)
  have "\<not> early_exit_on env cfg g"
    using D(1) by (simp add: early_exit_on_def)
  then obtain st where fw: "forward_next env cfg rid start g = (Inr (model_logits L (x @ input)), under (holding L (x @ input) B) st g)"
    using forward_next_input [OF D(2) _ assms(2,3,6) can assms(7)] by blast
  let ?t = "next_token L (x @ input)"
  obtain g1 where ch: "choose_token env cfg (model_logits L (x @ input)) g = Some (?t, g1)" "gn_ctrl g1 = gn_ctrl g"
    using choose_greedy [OF D(3)] unfolding next_token_def by blast
  note fr = choose_frame [OF ch(1)]
  define h where "h = push_token ?t (under (holding L (x @ input) B) st g1)"
  have h: "gn_all h = gn_all g @ [?t]" "gn_out h = gn_out g @ [?t]" "gn_backend h = holding L (x @ input) B" "gn_ctrl h = gn_ctrl g"
    "gn_fsm h = None" "gn_detect h = None" "gn_logprobs h = None" "gn_finish h = gn_finish g"
    using fr ch(2) D(8,10) assms(1) by (auto simp: h_def lookup_request_def)
  have lh: "lookup_request env cfg L h"
    using assms(1) unfolding lookup_request_def h(4-7) D(10) by blast
  have kt: "known L [?t]" "known L (gn_all h)"
    using vocab_next [OF D(4)] assms(5) h(1) by simp_all
  have rec: "gen_loop env cfg rid start max_tokens i (Suc n) g = gen_loop env cfg rid start max_tokens (Suc i) n
      (if length (gn_out h) < max_tokens then chat_pld_round env max_tokens ?t h else h)"
    using D(2,6,11) lookup_requestD(7,9) [OF lh] fw ch(1)
    by (simp add: choose_under Let_def del: push_simps flip: h_def)
  show ?thesis
  proof (cases "length (gn_out h) < max_tokens \<and> lookup_draft (gn_all h) (gn_all h) 2 5 \<noteq> None")
    case False
    then have "(if length (gn_out h) < max_tokens then chat_pld_round env max_tokens ?t h else h) = h"
      by (auto simp: chat_pld_round_def)
    then show ?thesis
      using rec lh h kt False assms(4) kin
      by (intro exI [of _ h] exI [of _ "x @ input"] exI [of _ "[?t]"]) auto
  next
    case True
    then obtain d where d: "lookup_draft (gn_all h) (gn_all h) 2 5 = Some d"
      by auto
    let ?m = "max_tokens - length (gn_out h)"
    obtain a where a: "a \<le> 5" "chat_pld_round env max_tokens ?t h =
        (let G = greedy (next_token L) ((x @ input) @ [?t]) (min ?m (Suc a))
         in h\<lparr>gn_all := gn_all h @ G, gn_out := gn_out h @ G,
              gn_backend := holding L ((x @ input) @ ?t # greedy (next_token L) ((x @ input) @ [?t]) a) B\<rparr>)"
      using pld_round_ctx [OF lh assms(2) h(3) _ kt(2,1) _ assms(8) d] True assms(4) kin by auto
    define G where "G = greedy (next_token L) ((x @ input) @ [?t]) (min ?m (Suc a))"
    define x' where "x' = (x @ input) @ ?t # greedy (next_token L) ((x @ input) @ [?t]) a"
    define g' where "g' = h\<lparr>gn_all := gn_all h @ G, gn_out := gn_out h @ G, gn_backend := holding L x' B\<rparr>"
    have kn: "known L (greedy (next_token L) c k)" for c k
      by (rule known_greedy) (rule vocab_next [OF D(4)])
    have lenG: "length G = min ?m (Suc a)" "0 < length G"
      using True by (simp_all add: G_def)
    have "gen_loop env cfg rid start max_tokens i (Suc n) g = gen_loop env cfg rid start max_tokens (Suc i) n g'"
      using rec a(2) True by (simp add: Let_def G_def g'_def x'_def)
    moreover have "lookup_request env cfg L g'" "gn_backend g' = holding L x' B" "gn_all g' = gn_all g @ ?t # G" "gn_out g' = gn_out g @ ?t # G"
      "gn_finish g' = gn_finish g"
    proof -
      have "lookup_request env cfg L g' = lookup_request env cfg L h"
        by (simp add: lookup_request_def g'_def)
      then show "lookup_request env cfg L g'"
        using lh by blast
    qed (use h in \<open>simp_all add: g'_def\<close>)
    moreover have "known L x'" "known L (gn_all g @ ?t # G)"
      using assms(4,5) kin kt(1) kn by (simp_all add: x'_def G_def known_def)
    moreover have "?t # G = greedy (next_token L) (x @ input) (length (?t # G))"
      by (simp add: G_def)
    moreover have "x' = x @ input @ butlast (?t # G)" if "length (gn_out g @ ?t # G) < max_tokens"
    proof -
      have m: "min ?m (Suc a) = Suc a"
        using that lenG(1) h(2) by auto
      obtain z where "G = greedy (next_token L) ((x @ input) @ [?t]) a @ [z]"
        unfolding G_def m greedy_Suc_append by blast
      then show ?thesis
        by (simp add: x'_def)
    qed
    moreover have "length x' \<le> length (x @ input) + 6"
      using a(1) by (simp add: x'_def)
    moreover have "\<not> max_tokens \<le> length (gn_out g)"
      using True h(2) by simp
    ultimately show ?thesis
      using lenG(2) by - (rule exI [of _ g'], rule exI [of _ x'], rule exI [of _ "?t # G"], simp add: Suc_le_eq del: gen_loop.simps)
  qed
qed

text \<open>
  The loop. Below the limit the caches hold all tokens but the last one; once the limit is reached inside a round they may hold more,
  and the remaining iterations go on from there.
\<close>

lemma lookup_loop:
  assumes "lookup_request env cfg L g" "cb_model B = Some L" "gn_backend g = holding L x B" "known L x" "known L (gn_all g)" "gn_all g \<noteq> []"
    and "gn_all g = prompt @ gn_out g" "gn_out g = [] \<Longrightarrow> start < length prompt"
    and "length (gn_out g) < max_tokens \<Longrightarrow>
      x @ drop (if gn_out g = [] then start else length (gn_all g) - 1) (gn_all g) = gn_all g \<and>
      gn_out g = greedy (next_token L) prompt (length (gn_out g)) \<and> length prompt + max_tokens + n + 13 \<le> ll_max_seq L"
    and "max_tokens \<le> length (gn_out g) \<Longrightarrow> gn_out g \<noteq> [] \<and> length x + n + 7 \<le> ll_max_seq L"
  shows "\<exists>g' ts. gen_loop env cfg rid start max_tokens i n g = Some g' \<and> gn_out g' = gn_out g @ ts \<and> n \<le> length ts \<and>
    (length (gn_out g) < max_tokens \<and> max_tokens \<le> length (gn_out g) + n \<longrightarrow> take max_tokens (gn_out g') = greedy (next_token L) prompt max_tokens) \<and>
    (0 < n \<and> Suc (length (gn_out g)) < max_tokens \<and>
     lookup_draft (gn_all g @ [next_token L (gn_all g)]) (gn_all g @ [next_token L (gn_all g)]) 2 5 \<noteq> None \<longrightarrow> n < length ts)"
  using assms(1,3-10)
proof (induction n arbitrary: i g x)
  case (Suc n)
  let ?input = "drop (if gn_out g = [] then start else length (gn_all g) - 1) (gn_all g)"
  have ne: "?input \<noteq> []"
    using Suc.prems(5-7) by (cases "gn_out g") auto
  have short: "length ?input = 1" if "max_tokens \<le> length (gn_out g)"
    using that Suc.prems(5,9) by (cases "gn_all g") auto
  have cap: "length (x @ ?input) + 6 \<le> ll_max_seq L"
  proof (cases "length (gn_out g) < max_tokens")
    case True
    then have "length (x @ ?input) = length prompt + length (gn_out g)"
      using Suc.prems(6,8) by (metis length_append)
    then show ?thesis
      using True Suc.prems(8) by simp
  next
    case False
    then show ?thesis
      using Suc.prems(9) short by simp
  qed
  obtain g' x' G where it: "gen_loop env cfg rid start max_tokens i (Suc n) g = gen_loop env cfg rid start max_tokens (Suc i) n g'"
    "lookup_request env cfg L g'" "gn_backend g' = holding L x' B" "known L x'" "known L (gn_all g')"
    "gn_all g' = gn_all g @ G" "gn_out g' = gn_out g @ G" "G = greedy (next_token L) (x @ ?input) (length G)" "G \<noteq> []"
    "lookup_draft (gn_all g @ [hd G]) (gn_all g @ [hd G]) 2 5 \<noteq> None \<and> Suc (length (gn_out g)) < max_tokens \<longrightarrow> 2 \<le> length G"
    "if length (gn_out g') < max_tokens then x' = x @ ?input @ butlast G else length x' \<le> length (x @ ?input) + 6"
    "max_tokens \<le> length (gn_out g) \<longrightarrow> x' = x @ ?input"
    using lookup_iteration [OF Suc.prems(1) assms(2) Suc.prems(2-4) refl ne cap, of rid max_tokens i n] by blast
  have cont: "gn_out g' = greedy (next_token L) prompt (length (gn_out g'))" if "length (gn_out g) < max_tokens"
  proof -
    have o: "gn_out g = greedy (next_token L) prompt (length (gn_out g))" and x: "x @ ?input = prompt @ gn_out g"
      using Suc.prems(6,8) that by simp_all
    have "greedy (next_token L) prompt (length (gn_out g) + length G) =
        greedy (next_token L) prompt (length (gn_out g)) @ greedy (next_token L) (prompt @ greedy (next_token L) prompt (length (gn_out g))) (length G)"
      by (rule greedy_append)
    also have "\<dots> = gn_out g @ G"
      using o it(8) unfolding x by metis
    finally show ?thesis
      using it(7) by simp
  qed
  have hdG: "hd G = next_token L (gn_all g)" if "length (gn_out g) < max_tokens"
  proof -
    have "x @ ?input = gn_all g"
      using Suc.prems(8) that by simp
    then have "G = greedy (next_token L) (gn_all g) (length G)"
      using it(8) by metis
    then show ?thesis
      using it(9) by (cases G) auto
  qed
  have step: "\<exists>g'' ts. gen_loop env cfg rid start max_tokens (Suc i) n g' = Some g'' \<and> gn_out g'' = gn_out g' @ ts \<and> n \<le> length ts \<and>
    (length (gn_out g') < max_tokens \<and> max_tokens \<le> length (gn_out g') + n \<longrightarrow> take max_tokens (gn_out g'') = greedy (next_token L) prompt max_tokens) \<and>
    (0 < n \<and> Suc (length (gn_out g')) < max_tokens \<and>
     lookup_draft (gn_all g' @ [next_token L (gn_all g')]) (gn_all g' @ [next_token L (gn_all g')]) 2 5 \<noteq> None \<longrightarrow> n < length ts)"
  proof (rule Suc.IH [OF it(2-5)])
    show "gn_all g' \<noteq> []" "gn_all g' = prompt @ gn_out g'" "gn_out g' = [] \<Longrightarrow> start < length prompt"
      using it(6,7,9) Suc.prems(6) by simp_all
    assume l: "length (gn_out g') < max_tokens"
    then have lg: "length (gn_out g) < max_tokens"
      using it(7) by simp
    have x: "x @ ?input = gn_all g"
      using Suc.prems(8) [OF lg] by simp
    have "x' = gn_all g @ butlast G"
      using it(11) l x by (metis append_assoc)
    moreover have "drop (length (gn_all g') - 1) (gn_all g') = [last G]"
      using it(6,9) by (cases G rule: rev_cases) auto
    moreover have "gn_out g' \<noteq> []"
      using it(7,9) by simp
    ultimately have "x' @ drop (if gn_out g' = [] then start else length (gn_all g') - 1) (gn_all g') = gn_all g'"
      using it(6,9) by simp
    then show "x' @ drop (if gn_out g' = [] then start else length (gn_all g') - 1) (gn_all g') = gn_all g' \<and>
        gn_out g' = greedy (next_token L) prompt (length (gn_out g')) \<and> length prompt + max_tokens + n + 13 \<le> ll_max_seq L"
      using cont [OF lg] Suc.prems(8) [OF lg] by simp
  next
    assume l: "max_tokens \<le> length (gn_out g')"
    show "gn_out g' \<noteq> [] \<and> length x' + n + 7 \<le> ll_max_seq L"
    proof (cases "length (gn_out g) < max_tokens")
      case True
      then have "length (x @ ?input) = length prompt + length (gn_out g)"
        using Suc.prems(6,8) by (metis length_append)
      then show ?thesis
        using it(7,9,11) l True Suc.prems(8) [OF True] by simp
    next
      case False
      then show ?thesis
        using it(7,9,12) short Suc.prems(9) by simp
    qed
  qed
  then obtain g'' ts where g'': "gen_loop env cfg rid start max_tokens (Suc i) n g' = Some g''" "gn_out g'' = gn_out g' @ ts" "n \<le> length ts"
    "length (gn_out g') < max_tokens \<and> max_tokens \<le> length (gn_out g') + n \<longrightarrow> take max_tokens (gn_out g'') = greedy (next_token L) prompt max_tokens"
    by blast
  have "take max_tokens (gn_out g'') = greedy (next_token L) prompt max_tokens"
    if "length (gn_out g) < max_tokens" "max_tokens \<le> length (gn_out g) + Suc n"
  proof (cases "length (gn_out g') < max_tokens")
    case True
    then show ?thesis
      using g''(4) it(7,9) that by (cases G) auto
  next
    case False
    then have "take max_tokens (gn_out g'') = take max_tokens (gn_out g')"
      using g''(2) by simp
    also have "\<dots> = greedy (next_token L) prompt max_tokens"
      using False cont [OF that(1)] take_greedy [of max_tokens "next_token L" prompt "length (gn_out g')"] by (simp add: min_absorb1)
    finally show ?thesis .
  qed
  moreover have "Suc n < length (G @ ts)"
    if "Suc (length (gn_out g)) < max_tokens" "lookup_draft (gn_all g @ [next_token L (gn_all g)]) (gn_all g @ [next_token L (gn_all g)]) 2 5 \<noteq> None"
    using it(10) hdG that g''(3) by simp
  moreover have "Suc n \<le> length (G @ ts)"
    using it(9) g''(3) by (cases G) auto
  ultimately show ?case
    using it(1,7) g''(1,2) by (intro exI [of _ g''] exI [of _ "G @ ts"]) simp
qed auto


section \<open>The shortcuts on the demonstration model\<close>

lemma demo_tie_free: "next_token demo_llama = greedy_next demo_llama"
proof
  fix c
  have "model_logits demo_llama c = [Fin 1, Fin 0] \<or> model_logits demo_llama c = [Fin 0, Fin 1]"
    by (simp add: model_logits_def) (simp add: demo_llama_def)
  then show "next_token demo_llama c = greedy_next demo_llama c"
    by (auto simp: next_token_def greedy_next_def u32_of_def greedy_index_def argmax_def)
qed

definition pld_env :: "unit chat_env" where
  "pld_env = demo_chat_env\<lparr>ce_pld := True\<rparr>"

lemma demo_lookup_request:
  "lookup_request pld_env demo_greedy demo_llama (first_state pld_env prompt rid demo_ctrl None None None st B)"
proof -
  have "greedy_request pld_env demo_greedy demo_ctrl None"
    using demo_request(2) by (simp add: greedy_request_def pld_env_def)
  moreover from this have "observe_prompt_tail prompt 64 demo_ctrl = demo_ctrl"
    by (rule observe_tail_greedy)
  ultimately show ?thesis
    unfolding lookup_request_def using demo_vocab demo_tie_free
    by (auto simp: first_state_def) (simp_all add: pld_env_def demo_chat_env_def)
qed


lemma demo_same_vocab: "same_vocab demo_llama demo_llama"
  using demo_vocab by (auto simp: vocab_ok_def same_vocab_def)

theorem spec_decode_greedy_witness:
  "\<exists>r x M' D'. generate_spec_decode demo_chat_env [0, 1] 2 demo_ctrl (demo_candle [0]) [0] (demo_candle []) [] =
      (r, [1, 0], (M', [0, 1, 1, 0]), (D', [0, 1, 1, 0])) \<and> in_sync demo_llama x M' \<and> prefix [0, 1, 1, 0] x"
proof -
  have out: "takeWhile (\<lambda>t. t \<notin> set (ce_stops demo_chat_env)) (greedy (greedy_next demo_llama) [0, 1] 2) = [1, 0]"
    unfolding demo_tie_free [symmetric] by (simp add: demo_greedy_run [simplified] demo_stops)
  have kn: "known demo_llama [0, 1]" "length [0, 1 :: nat] + 2 + Suc spec_k \<le> ll_max_seq demo_llama" "dc_stops demo_ctrl = []"
    by (simp_all add: known_def demo_llama_def demo_ctrl_def spec_k_def)
  have re: "reusable [0, 1] [0] \<le> length [0 :: nat]" "reusable [0, 1] [] \<le> length ([] :: nat list)"
    by (simp_all add: reusable_def)
  show ?thesis
    using spec_decode_greedy [OF demo_same_vocab demo_candle_sync demo_candle_sync _ _ re _ kn(1,1,2,2,3), of demo_chat_env] unfolding out by auto
qed

end
