(* ===== verification/ResidentEngines.thy ===== *)
theory ResidentEngines
  imports ChatCorrect
begin

text \<open>
  The two engines that keep one resident key/value cache on a device: \<^verbatim>\<open>GpuModel\<close> of \<^verbatim>\<open>src/src/backend/gpu/mod.rs\<close> and
  \<^verbatim>\<open>VkModel\<close> of \<^verbatim>\<open>src/src/backend/vulkan/mod.rs\<close>. The kernels are parameters (\<open>net\<close>); modelled is what the host decides: which
  positions are written and attended, the tiles of a prefill and their padding, the assertions, and the record of resident tokens
  with which the Vulkan engine reuses a prefix across requests. The locale \<open>resident_engine\<close> is the contract the request loops of
  \<open>Chat\<close> rely on; both engines are interpretations of it. Only the position-major cache layout of the Vulkan engine is modelled, the
  one it uses unless \<^verbatim>\<open>ZLLM_HEADMAJOR_KV\<close> is set.
\<close>

section \<open>The network and the cells of a cache\<close>

text \<open>
  A cell holds the key and value of one position in all layers; its content depends on the token and on the cells before it.
  \<open>nt_pad\<close> is what a padding row of a tile leaves in its cell, \<open>nt_argmax\<close> the reduction that picks a token on the device.
\<close>

record 'kv net =
  nt_row :: "'kv list \<Rightarrow> token \<Rightarrow> 'kv"
  nt_pad :: "'kv list \<Rightarrow> 'kv"
  nt_logits :: "'kv list \<Rightarrow> f32 list"
  nt_argmax :: "f32 list \<Rightarrow> token"

definition net_rows :: "'kv net \<Rightarrow> token list \<Rightarrow> 'kv list" where
  "net_rows nt ts = foldl (\<lambda>ks t. ks @ [nt_row nt ks t]) [] ts"

definition net_logits :: "'kv net \<Rightarrow> token list \<Rightarrow> f32 list" where
  "net_logits nt ts = nt_logits nt (net_rows nt ts)"

definition net_pick :: "'kv net \<Rightarrow> token list \<Rightarrow> token" where
  "net_pick nt ts = nt_argmax nt (net_logits nt ts)"

type_synonym 'kv cells = "nat \<Rightarrow> 'kv"

definition resident :: "nat \<Rightarrow> 'kv cells \<Rightarrow> 'kv list" where
  "resident n c = map c [0 ..< n]"

definition write_cell :: "'kv net \<Rightarrow> token \<Rightarrow> nat \<Rightarrow> 'kv cells \<Rightarrow> 'kv cells" where
  "write_cell nt t p c = c(p := nt_row nt (resident p c) t)"

fun write_rows :: "'kv net \<Rightarrow> token list \<Rightarrow> nat \<Rightarrow> 'kv cells \<Rightarrow> 'kv cells" where
  "write_rows nt [] p c = c"
| "write_rows nt (t # ts) p c = write_rows nt ts (Suc p) (write_cell nt t p c)"

fun write_pad :: "'kv net \<Rightarrow> nat \<Rightarrow> nat \<Rightarrow> 'kv cells \<Rightarrow> 'kv cells" where
  "write_pad nt 0 p c = c"
| "write_pad nt (Suc k) p c = write_pad nt k (Suc p) (c(p := nt_pad nt (resident p c)))"

section \<open>The GPU engine\<close>

definition gpu_max_seq :: nat where
  "gpu_max_seq = 4096"

definition gpu_max_prefill_m :: nat where
  "gpu_max_prefill_m = 512"

text \<open>One decode step; the slice of the rotary tables panics past their end.\<close>

definition gpu_record_forward :: "'kv net \<Rightarrow> token \<Rightarrow> nat \<Rightarrow> 'kv cells \<Rightarrow> (f32 list \<times> 'kv cells) option" where
  "gpu_record_forward nt t pos c =
    (if pos < gpu_max_seq then (let c' = write_cell nt t pos c in Some (nt_logits nt (resident (Suc pos) c'), c')) else None)"

definition gpu_forward_argmax :: "'kv net \<Rightarrow> token \<Rightarrow> nat \<Rightarrow> 'kv cells \<Rightarrow> (token \<times> 'kv cells) option" where
  "gpu_forward_argmax nt t pos c = map_option (\<lambda>(l, c'). (nt_argmax nt l, c')) (gpu_record_forward nt t pos c)"

definition gpu_prefill_forward :: "'kv net \<Rightarrow> token list \<Rightarrow> 'kv cells \<Rightarrow> (f32 list \<times> 'kv cells) option" where
  "gpu_prefill_forward nt prompt c =
    (let m = length prompt in
     if 1 \<le> m \<and> m \<le> gpu_max_prefill_m then (let c' = write_rows nt prompt 0 c in Some (nt_logits nt (resident m c'), c')) else None)"

definition gpu_engine :: "'kv net \<Rightarrow> 'kv cells lane_engine" where
  "gpu_engine nt = \<lparr>le_prefill = gpu_prefill_forward nt, le_forward = gpu_record_forward nt, le_argmax = gpu_forward_argmax nt,
     le_note = (\<lambda>ts c. c)\<rparr>"

section \<open>The Vulkan engine\<close>

definition vk_max_seq :: nat where
  "vk_max_seq = 4096"

definition prefill_max_m :: nat where
  "prefill_max_m = 1024"

definition verify_max_m :: nat where
  "verify_max_m = 8"

record 'kv vk_model =
  vk_cells :: "'kv cells"
  vk_prompt_cache :: "token list"

definition forward_inner :: "'kv net \<Rightarrow> token \<Rightarrow> nat \<Rightarrow> 'kv vk_model \<Rightarrow> (f32 list \<times> 'kv vk_model) option" where
  "forward_inner nt t pos V =
    (if pos < vk_max_seq
     then (let c = write_cell nt t pos (vk_cells V) in Some (nt_logits nt (resident (Suc pos) c), V\<lparr>vk_cells := c\<rparr>))
     else None)"

definition vk_forward_argmax :: "'kv net \<Rightarrow> token \<Rightarrow> nat \<Rightarrow> 'kv vk_model \<Rightarrow> (token \<times> 'kv vk_model) option" where
  "vk_forward_argmax nt t pos V = map_option (\<lambda>(l, V'). (nt_argmax nt l, V')) (forward_inner nt t pos V)"

definition prefill_step :: "'kv net \<Rightarrow> token \<Rightarrow> nat \<Rightarrow> 'kv vk_model \<Rightarrow> 'kv vk_model option" where
  "prefill_step nt t pos V = map_option snd (forward_inner nt t pos V)"

text \<open>One tile: the rows of its tokens, then the padding up to a multiple of 128. A tile without tokens panics.\<close>

definition prefill_inner :: "'kv net \<Rightarrow> token list \<Rightarrow> nat \<Rightarrow> 'kv vk_model \<Rightarrow> (f32 list \<times> 'kv vk_model) option" where
  "prefill_inner nt ts pos V =
    (let real_m = min (length ts) prefill_max_m;
         m = min ((real_m + 127) div 128 * 128) prefill_max_m
     in if real_m \<noteq> 0 \<and> pos + m \<le> vk_max_seq
        then (let c = write_pad nt (m - real_m) (pos + real_m) (write_rows nt (take real_m ts) pos (vk_cells V))
              in Some (nt_logits nt (resident (pos + real_m) c), V\<lparr>vk_cells := c\<rparr>))
        else None)"

fun prefill_tiles :: "'kv net \<Rightarrow> token list list \<Rightarrow> nat \<Rightarrow> f32 list \<Rightarrow> 'kv vk_model \<Rightarrow> (f32 list \<times> 'kv vk_model) option" where
  "prefill_tiles nt [] pos logits V = Some (logits, V)"
| "prefill_tiles nt (tile # tiles) pos logits V =
    (case prefill_inner nt tile pos V of None \<Rightarrow> None
     | Some (l, V') \<Rightarrow> prefill_tiles nt tiles (pos + length tile) l V')"

definition prefill_from :: "'kv net \<Rightarrow> token list \<Rightarrow> nat \<Rightarrow> 'kv vk_model \<Rightarrow> (f32 list \<times> 'kv vk_model) option" where
  "prefill_from nt ts start V = prefill_tiles nt (pieces prefill_max_m ts) start [] V"

definition prefill_forward :: "'kv net \<Rightarrow> token list \<Rightarrow> 'kv vk_model \<Rightarrow> (f32 list \<times> 'kv vk_model) option" where
  "prefill_forward nt prompt V = prefill_from nt prompt 0 V"

fun prefill_steps :: "'kv net \<Rightarrow> token list \<Rightarrow> nat \<Rightarrow> 'kv vk_model \<Rightarrow> 'kv vk_model option" where
  "prefill_steps nt [] pos V = Some V"
| "prefill_steps nt (t # ts) pos V = (case prefill_step nt t pos V of None \<Rightarrow> None | Some V' \<Rightarrow> prefill_steps nt ts (Suc pos) V')"

definition prefill_cap :: nat where
  "prefill_cap = vk_max_seq - 128"

definition prefill_cached :: "'kv net \<Rightarrow> token list \<Rightarrow> 'kv vk_model \<Rightarrow> (f32 list \<times> 'kv vk_model) option" where
  "prefill_cached nt prompt V =
    (if prompt \<noteq> [] \<and> length prompt \<le> prefill_cap
     then (let reuse = reusable prompt (vk_prompt_cache V);
               suffix = drop reuse prompt
           in map_option (\<lambda>(l, V'). (l, V'\<lparr>vk_prompt_cache := prompt\<rparr>))
                (if 32 < length suffix then prefill_from nt suffix reuse V
                 else (case prefill_steps nt (butlast suffix) reuse V of None \<Rightarrow> None
                   | Some V' \<Rightarrow> forward_inner nt (last prompt) (length prompt - 1) V')))
     else None)"

definition note_decoded :: "token list \<Rightarrow> 'kv vk_model \<Rightarrow> 'kv vk_model" where
  "note_decoded ts V = V\<lparr>vk_prompt_cache := vk_prompt_cache V @ ts\<rparr>"

definition verify_inner :: "'kv net \<Rightarrow> token list \<Rightarrow> nat \<Rightarrow> 'kv vk_model \<Rightarrow> (token list \<times> 'kv vk_model) option" where
  "verify_inner nt ts pos V =
    (if 1 \<le> length ts \<and> length ts \<le> verify_max_m \<and> pos + length ts \<le> vk_max_seq
     then (let c = write_rows nt ts pos (vk_cells V)
           in Some (map (\<lambda>i. nt_argmax nt (nt_logits nt (resident (Suc (pos + i)) c))) [0 ..< length ts], V\<lparr>vk_cells := c\<rparr>))
     else None)"

definition vk_engine :: "'kv net \<Rightarrow> 'kv vk_model lane_engine" where
  "vk_engine nt = \<lparr>le_prefill = prefill_cached nt, le_forward = forward_inner nt, le_argmax = vk_forward_argmax nt, le_note = note_decoded\<rparr>"

section \<open>What the cells hold\<close>

lemma net_rows_Nil [simp]: "net_rows nt [] = []"
  by (simp add: net_rows_def)

lemma net_rows_snoc: "net_rows nt (ts @ [t]) = net_rows nt ts @ [nt_row nt (net_rows nt ts) t]"
  by (simp add: net_rows_def)

lemma length_net_rows [simp]: "length (net_rows nt ts) = length ts"
  by (induction ts rule: rev_induct) (simp_all add: net_rows_snoc)

lemma take_net_rows: "take n (net_rows nt ts) = net_rows nt (take n ts)"
proof (induction ts rule: rev_induct)
  case (snoc t ts)
  then show ?case
    by (cases "n \<le> length ts") (simp_all add: net_rows_snoc)
qed simp

lemma length_resident [simp]: "length (resident n c) = n"
  by (simp add: resident_def)

lemma resident_Suc: "resident (Suc n) c = resident n c @ [c n]"
  by (simp add: resident_def)

lemma resident_upd [simp]: "n \<le> p \<Longrightarrow> resident n (c(p := k)) = resident n c"
  by (simp add: resident_def)

lemma resident_write_cell [simp]: "n \<le> p \<Longrightarrow> resident n (write_cell nt t p c) = resident n c"
  by (simp add: write_cell_def)

lemma take_resident: "take m (resident n c) = resident (min m n) c"
  by (cases "m \<le> n") (simp_all add: resident_def take_map min_def)

lemma resident_pad [simp]: "n \<le> p \<Longrightarrow> resident n (write_pad nt k p c) = resident n c"
  by (induction nt k p c rule: write_pad.induct) simp_all

text \<open>The first cells hold the rows of a context.\<close>

definition keeps :: "'kv net \<Rightarrow> token list \<Rightarrow> 'kv cells \<Rightarrow> bool" where
  "keeps nt ctx c = (resident (length ctx) c = net_rows nt ctx)"

lemma keeps_Nil [simp, intro]: "keeps nt [] c"
  by (simp add: keeps_def resident_def)

lemma keeps_take: "keeps nt ctx c \<Longrightarrow> keeps nt (take n ctx) c"
  using take_resident [of n "length ctx" c] take_net_rows [of n nt ctx] by (simp add: keeps_def min.commute)

lemma keeps_prefix: "keeps nt ctx c \<Longrightarrow> prefix ts ctx \<Longrightarrow> keeps nt ts c"
  using keeps_take [of nt ctx c "length ts"] by (auto elim!: prefixE)

lemma keeps_write: "keeps nt ctx c \<Longrightarrow> keeps nt (ctx @ [t]) (write_cell nt t (length ctx) c)"
  by (simp add: keeps_def resident_Suc net_rows_snoc) (simp add: write_cell_def)

lemma keeps_write_rows: "keeps nt ctx c \<Longrightarrow> keeps nt (ctx @ ts) (write_rows nt ts (length ctx) c)"
proof (induction ts arbitrary: ctx c)
  case (Cons t ts)
  then show ?case
    using Cons.IH [OF keeps_write [OF Cons.prems, of t]] by simp
qed simp

lemma keeps_pad: "keeps nt ctx c \<Longrightarrow> length ctx \<le> p \<Longrightarrow> keeps nt ctx (write_pad nt k p c)"
  by (simp add: keeps_def)

lemma keeps_logits: "keeps nt ctx c \<Longrightarrow> n = length ctx \<Longrightarrow> nt_logits nt (resident n c) = net_logits nt ctx"
  by (simp add: keeps_def net_logits_def)

section \<open>The contract of a resident engine\<close>

text \<open>
  \<open>ready k\<close>: a request may start. \<open>holds prompt ctx k\<close>: the request began with \<open>prompt\<close> and the cache is that of \<open>ctx\<close>. A prompt of
  at most \<open>longest\<close> tokens is accepted, and positions below \<open>capacity\<close> can be decoded.
\<close>

locale resident_engine =
  fixes en :: "'k lane_engine"
    and logits :: "token list \<Rightarrow> f32 list"
    and pick :: "token list \<Rightarrow> token"
    and ready :: "'k \<Rightarrow> bool"
    and holds :: "token list \<Rightarrow> token list \<Rightarrow> 'k \<Rightarrow> bool"
    and longest :: nat
    and capacity :: nat
  assumes prefill: "ready k \<Longrightarrow> prompt \<noteq> [] \<Longrightarrow> length prompt \<le> longest \<Longrightarrow>
      \<exists>k'. le_prefill en prompt k = Some (logits prompt, k') \<and> holds prompt prompt k'"
    and forward: "holds prompt ctx k \<Longrightarrow> length ctx < capacity \<Longrightarrow>
      \<exists>k'. le_forward en t (length ctx) k = Some (logits (ctx @ [t]), k') \<and> holds prompt (ctx @ [t]) k'"
    and argmax: "holds prompt ctx k \<Longrightarrow> length ctx < capacity \<Longrightarrow>
      \<exists>k'. le_argmax en t (length ctx) k = Some (pick (ctx @ [t]), k') \<and> holds prompt (ctx @ [t]) k'"
    and settle: "holds prompt ctx k \<Longrightarrow> ready k"
    and noted: "holds prompt ctx k \<Longrightarrow> prefix (prompt @ ts) ctx \<Longrightarrow> ready (le_note en ts k)"

text \<open>The reference: an engine whose cache is the context itself.\<close>

definition plain_engine :: "(token list \<Rightarrow> f32 list) \<Rightarrow> (token list \<Rightarrow> token) \<Rightarrow> token list lane_engine" where
  "plain_engine logits pick = \<lparr>le_prefill = (\<lambda>p k. Some (logits p, p)), le_forward = (\<lambda>t pos k. Some (logits (k @ [t]), k @ [t])),
     le_argmax = (\<lambda>t pos k. Some (pick (k @ [t]), k @ [t])), le_note = (\<lambda>ts k. k)\<rparr>"

lemma plain_engine_simps [simp]:
  "le_prefill (plain_engine logits pick) p k = Some (logits p, p)"
  "le_forward (plain_engine logits pick) t pos k = Some (logits (k @ [t]), k @ [t])"
  "le_argmax (plain_engine logits pick) t pos k = Some (pick (k @ [t]), k @ [t])"
  "le_note (plain_engine logits pick) ts k = k"
  by (simp_all add: plain_engine_def)

text \<open>The tokens given out, all but the last of them at least, are in the context at the end.\<close>

lemma plain_loop_context:
  assumes "lane_loop env cfg (plain_engine logits pick) g max_tokens t pos out c ctx = Some (out', fin, c', ctx')"
    and "ctx = prompt @ out"
  shows "prefix (prompt @ butlast out') ctx'"
  using assms
proof (induction env cfg "plain_engine logits pick" g max_tokens t pos out c ctx rule: lane_loop.induct)
  case (1 env cfg g max_tokens t pos out c ctx)
  note run = "1.prems"(1) [unfolded lane_loop.simps [of env cfg "plain_engine logits pick" g max_tokens t pos out c ctx] Let_def]
  have grown: "ctx @ [t] = prompt @ (out @ [t])"
    using "1.prems"(2) by simp
  consider "t \<in> set (ce_stops env)"
    | "t \<notin> set (ce_stops env)" "stop_string_hit env (observe t c) (out @ [t]) \<or> max_tokens \<le> length (out @ [t])"
    | "t \<notin> set (ce_stops env)" "\<not> stop_string_hit env (observe t c) (out @ [t])" "\<not> max_tokens \<le> length (out @ [t])"
    by blast
  then show ?case
  proof cases
    case 3
    show ?thesis
    proof (cases g)
      case True
      show ?thesis
        by (rule "1.hyps"(1) [OF 3(1) refl refl 3(2,3) True _ refl _ grown]) (use run 3 True in simp_all)
    next
      case False
      obtain u c2 where u: "lane_sample env cfg (length (out @ [t])) (logits (ctx @ [t])) (observe t c) = (Some u, c2)"
        using run 3 False by (cases "lane_sample env cfg (length (out @ [t])) (logits (ctx @ [t])) (observe t c)") (auto split: option.splits)
      show ?thesis
        by (rule "1.hyps"(2) [OF 3(1) refl refl 3(2,3) False _ refl u [symmetric] refl _ grown]) (use run 3 False u in simp_all)
    qed
  qed (use run "1.prems"(2) in \<open>auto simp: butlast_append prefixeq_butlast split: if_splits\<close>)
qed

context resident_engine
begin

lemma loop_simulates:
  assumes "holds prompt ctx k" "pos = length ctx" "length ctx + (max_tokens - length out) \<le> Suc capacity"
  shows "case lane_loop env cfg (plain_engine logits pick) g max_tokens t pos out c ctx of
      None \<Rightarrow> lane_loop env cfg en g max_tokens t pos out c k = None
    | Some (out', fin, c', ctx') \<Rightarrow>
        (\<exists>k'. lane_loop env cfg en g max_tokens t pos out c k = Some (out', fin, c', k') \<and> holds prompt ctx' k')"
  using assms
proof (induction "max_tokens - length out" arbitrary: ctx k pos out t c rule: less_induct)
  case less
  note unfold_both = lane_loop.simps [of env cfg en _ max_tokens t pos out c k]
    lane_loop.simps [of env cfg "plain_engine logits pick" _ max_tokens t pos out c ctx]
  consider "t \<in> set (ce_stops env)"
    | "t \<notin> set (ce_stops env)" "stop_string_hit env (observe t c) (out @ [t]) \<or> max_tokens \<le> length (out @ [t])"
    | "t \<notin> set (ce_stops env)" "\<not> stop_string_hit env (observe t c) (out @ [t])" "\<not> max_tokens \<le> length (out @ [t])"
    by blast
  then show ?case
  proof cases
    case 3
    have room: "length ctx < capacity" "max_tokens - length (out @ [t]) < max_tokens - length out"
        "length (ctx @ [t]) + (max_tokens - length (out @ [t])) \<le> Suc capacity" "Suc pos = length (ctx @ [t])"
      using less.prems(2,3) 3(3) by auto
    show ?thesis
    proof (cases g)
      case True
      obtain k' where k': "le_argmax en t pos k = Some (pick (ctx @ [t]), k')" "holds prompt (ctx @ [t]) k'"
        using argmax [OF less.prems(1) room(1)] less.prems(2) by blast
      have go: "lane_loop env cfg en g max_tokens t pos out c k =
            lane_loop env cfg en g max_tokens (pick (ctx @ [t])) (Suc pos) (out @ [t]) (observe t c) k'"
          "lane_loop env cfg (plain_engine logits pick) g max_tokens t pos out c ctx =
            lane_loop env cfg (plain_engine logits pick) g max_tokens (pick (ctx @ [t])) (Suc pos) (out @ [t]) (observe t c) (ctx @ [t])"
        using 3 True by (simp_all add: unfold_both Let_def k'(1))
      show ?thesis
        unfolding go by (rule less.hyps [OF room(2) k'(2) room(4,3)])
    next
      case False
      obtain k' where k': "le_forward en t pos k = Some (logits (ctx @ [t]), k')" "holds prompt (ctx @ [t]) k'"
        using forward [OF less.prems(1) room(1)] less.prems(2) by blast
      obtain u c2 where u: "lane_sample env cfg (length (out @ [t])) (logits (ctx @ [t])) (observe t c) = (u, c2)"
        by (metis prod.exhaust)
      have go: "lane_loop env cfg en g max_tokens t pos out c k =
            (case u of None \<Rightarrow> None | Some v \<Rightarrow> lane_loop env cfg en g max_tokens v (Suc pos) (out @ [t]) c2 k')"
          "lane_loop env cfg (plain_engine logits pick) g max_tokens t pos out c ctx =
            (case u of None \<Rightarrow> None | Some v \<Rightarrow> lane_loop env cfg (plain_engine logits pick) g max_tokens v (Suc pos) (out @ [t]) c2 (ctx @ [t]))"
        using 3 False u by (simp_all add: unfold_both Let_def k'(1) split: option.split)
      show ?thesis
      proof (cases u)
        case None
        then show ?thesis
          using go by simp
      next
        case (Some v)
        have go': "lane_loop env cfg en g max_tokens t pos out c k = lane_loop env cfg en g max_tokens v (Suc pos) (out @ [t]) c2 k'"
            "lane_loop env cfg (plain_engine logits pick) g max_tokens t pos out c ctx =
             lane_loop env cfg (plain_engine logits pick) g max_tokens v (Suc pos) (out @ [t]) c2 (ctx @ [t])"
          using go Some by simp_all
        show ?thesis
          unfolding go' by (rule less.hyps [OF room(2) k'(2) room(4,3)])
      qed
    qed
  qed (use less.prems(1) in \<open>auto simp: unfold_both Let_def\<close>)
qed

text \<open>A request from a ready state: the same tokens as over the bare model, and what the cache holds then.\<close>

lemma run_simulates:
  assumes "ready k" "prompt \<noteq> []" "length prompt \<le> longest" "length prompt + max_tokens \<le> Suc capacity"
  shows "case run_lane env cfg (plain_engine logits pick) prompt max_tokens c [] of
      None \<Rightarrow> run_lane env cfg en prompt max_tokens c k = None
    | Some (out, fin, c', ctx) \<Rightarrow>
        (\<exists>k'. run_lane env cfg en prompt max_tokens c k = Some (out, fin, c', k') \<and> holds prompt ctx k' \<and>
           prefix (prompt @ butlast out) ctx)"
proof -
  let ?c = "observe_prompt_tail prompt 64 c"
  obtain k1 where k1: "le_prefill en prompt k = Some (logits prompt, k1)" "holds prompt prompt k1"
    using prefill [OF assms(1-3)] by blast
  obtain u c2 where u: "lane_sample env cfg 0 (logits prompt) ?c = (u, c2)"
    by (metis prod.exhaust)
  show ?thesis
  proof (cases u)
    case None
    then show ?thesis
      using u by (simp add: run_lane_def k1(1))
  next
    case (Some t)
    have "length prompt + (max_tokens - length []) \<le> Suc capacity"
      using assms(4) by simp
    from loop_simulates [OF k1(2) refl this, of env cfg "greedy_lane cfg c" t c2] show ?thesis
      using u Some plain_loop_context [of env cfg logits pick "greedy_lane cfg c" max_tokens t "length prompt" "[]" c2 prompt _ _ _ _ prompt]
      by (simp add: run_lane_def k1(1) split: option.splits prod.splits)
  qed
qed

end

section \<open>The engines keep the contract\<close>

lemma gpu_record_keeps:
  assumes "keeps nt ctx c" "length ctx < gpu_max_seq"
  shows "\<exists>c'. gpu_record_forward nt t (length ctx) c = Some (net_logits nt (ctx @ [t]), c') \<and> keeps nt (ctx @ [t]) c'"
  using keeps_write [OF assms(1), of t] keeps_logits [OF keeps_write [OF assms(1), of t], of "Suc (length ctx)"] assms(2)
  by (simp add: gpu_record_forward_def Let_def)

lemma gpu_prefill_keeps:
  assumes "prompt \<noteq> []" "length prompt \<le> gpu_max_prefill_m"
  shows "\<exists>c'. gpu_prefill_forward nt prompt c = Some (net_logits nt prompt, c') \<and> keeps nt prompt c'"
  using keeps_write_rows [OF keeps_Nil, of nt prompt c] assms keeps_logits [of nt prompt _ "length prompt"]
  by (simp add: gpu_prefill_forward_def Let_def Suc_le_eq)

definition gpu_holds :: "'kv net \<Rightarrow> token list \<Rightarrow> token list \<Rightarrow> 'kv cells \<Rightarrow> bool" where
  "gpu_holds nt prompt ctx c = keeps nt ctx c"

interpretation gpu_lane: resident_engine "gpu_engine nt" "net_logits nt" "net_pick nt" "\<lambda>c. True" "gpu_holds nt" gpu_max_prefill_m gpu_max_seq
  for nt
proof unfold_locales
  show "\<exists>c'. le_prefill (gpu_engine nt) prompt c = Some (net_logits nt prompt, c') \<and> gpu_holds nt prompt prompt c'"
    if "prompt \<noteq> []" "length prompt \<le> gpu_max_prefill_m" for prompt c
    using gpu_prefill_keeps [OF that] by (simp add: gpu_engine_def gpu_holds_def)
  show "\<exists>c'. le_forward (gpu_engine nt) t (length ctx) c = Some (net_logits nt (ctx @ [t]), c') \<and> gpu_holds nt prompt (ctx @ [t]) c'"
    if "gpu_holds nt prompt ctx c" "length ctx < gpu_max_seq" for prompt ctx c t
    using gpu_record_keeps that by (simp add: gpu_engine_def gpu_holds_def)
  show "\<exists>c'. le_argmax (gpu_engine nt) t (length ctx) c = Some (net_pick nt (ctx @ [t]), c') \<and> gpu_holds nt prompt (ctx @ [t]) c'"
    if "gpu_holds nt prompt ctx c" "length ctx < gpu_max_seq" for prompt ctx c t
    using gpu_record_keeps [of nt ctx c t] that by (auto simp: gpu_engine_def gpu_holds_def gpu_forward_argmax_def net_pick_def)
qed simp_all

lemma forward_inner_keeps:
  assumes "keeps nt ctx (vk_cells V)" "length ctx < vk_max_seq"
  shows "\<exists>V'. forward_inner nt t (length ctx) V = Some (net_logits nt (ctx @ [t]), V') \<and> keeps nt (ctx @ [t]) (vk_cells V') \<and>
    vk_prompt_cache V' = vk_prompt_cache V"
  using keeps_write [OF assms(1), of t] keeps_logits [OF keeps_write [OF assms(1), of t], of "Suc (length ctx)"] assms(2)
  by (simp add: forward_inner_def Let_def)

lemma prefill_steps_keeps:
  assumes "keeps nt ctx (vk_cells V)" "length ctx + length ts \<le> vk_max_seq"
  shows "\<exists>V'. prefill_steps nt ts (length ctx) V = Some V' \<and> keeps nt (ctx @ ts) (vk_cells V') \<and> vk_prompt_cache V' = vk_prompt_cache V"
  using assms
proof (induction ts arbitrary: ctx V)
  case (Cons t ts)
  obtain V1 where V1: "forward_inner nt t (length ctx) V = Some (net_logits nt (ctx @ [t]), V1)" "keeps nt (ctx @ [t]) (vk_cells V1)"
      "vk_prompt_cache V1 = vk_prompt_cache V"
    using forward_inner_keeps [OF Cons.prems(1), of t] Cons.prems(2) by auto
  show ?case
    using Cons.IH [OF V1(2)] Cons.prems(2) V1(1,3) by (simp add: prefill_step_def)
qed simp

text \<open>The padding goes past the tokens, and the cap on the prompt leaves room for it at every offset.\<close>

lemma prefill_inner_keeps:
  assumes "keeps nt ctx (vk_cells V)" "ts \<noteq> []" "length ts \<le> prefill_max_m" "length ctx + length ts \<le> prefill_cap"
  shows "\<exists>V'. prefill_inner nt ts (length ctx) V = Some (net_logits nt (ctx @ ts), V') \<and> keeps nt (ctx @ ts) (vk_cells V') \<and>
    vk_prompt_cache V' = vk_prompt_cache V"
proof -
  let ?m = "min ((length ts + 127) div 128 * 128) prefill_max_m"
  let ?c = "write_pad nt (?m - length ts) (length ctx + length ts) (write_rows nt ts (length ctx) (vk_cells V))"
  have c: "keeps nt (ctx @ ts) ?c"
    using keeps_pad [OF keeps_write_rows [OF assms(1), of ts]] by simp
  have "(length ts + 127) div 128 * 128 \<le> length ts + 127"
    by simp
  then have room: "length ctx + ?m \<le> vk_max_seq"
    using assms(4) by (simp add: prefill_cap_def vk_max_seq_def)
  show ?thesis
    using c room keeps_logits [OF c, of "length ctx + length ts"] assms(2,3)
    by (simp add: prefill_inner_def Let_def min_absorb1)
qed

lemma prefill_tiles_keeps:
  assumes "keeps nt ctx (vk_cells V)" "length ctx + length ts \<le> prefill_cap"
  shows "\<exists>V'. prefill_tiles nt (pieces prefill_max_m ts) (length ctx) logits V =
      Some (if ts = [] then logits else net_logits nt (ctx @ ts), V') \<and> keeps nt (ctx @ ts) (vk_cells V') \<and> vk_prompt_cache V' = vk_prompt_cache V"
  using assms
proof (induction prefill_max_m ts arbitrary: ctx V logits rule: pieces.induct)
  case (1 ts)
  show ?case
  proof (cases "ts = []")
    case False
    let ?tile = "take prefill_max_m ts"
    have pieces: "pieces prefill_max_m ts = ?tile # pieces prefill_max_m (drop prefill_max_m ts)"
      using False by (subst pieces.simps) (simp add: prefill_max_m_def)
    have m: "prefill_max_m \<noteq> 0"
      by (simp add: prefill_max_m_def)
    have tile: "?tile \<noteq> []" "length ?tile \<le> prefill_max_m" "length ctx + length ?tile \<le> prefill_cap"
      using False "1.prems"(2) m by auto
    obtain V1 where V1: "prefill_inner nt ?tile (length ctx) V = Some (net_logits nt (ctx @ ?tile), V1)"
        "keeps nt (ctx @ ?tile) (vk_cells V1)" "vk_prompt_cache V1 = vk_prompt_cache V"
      using prefill_inner_keeps [OF "1.prems"(1) tile] by blast
    have "length (ctx @ ?tile) + length (drop prefill_max_m ts) \<le> prefill_cap"
      using "1.prems"(2) by simp
    from "1.hyps" [OF _ V1(2) this, of "net_logits nt (ctx @ ?tile)"] show ?thesis
      unfolding pieces using False m V1 by (auto split: if_splits)
  qed (use "1.prems" in \<open>simp add: pieces.simps\<close>)
qed

definition vk_ready :: "'kv net \<Rightarrow> 'kv vk_model \<Rightarrow> bool" where
  "vk_ready nt V = keeps nt (vk_prompt_cache V) (vk_cells V)"

definition vk_holds :: "'kv net \<Rightarrow> token list \<Rightarrow> token list \<Rightarrow> 'kv vk_model \<Rightarrow> bool" where
  "vk_holds nt prompt ctx V = (vk_prompt_cache V = prompt \<and> prefix prompt ctx \<and> keeps nt ctx (vk_cells V))"

text \<open>
  What a cached prefill computes in general: whatever the cells below the reused length really hold, the answer is for those
  tokens followed by the rest of the prompt.
\<close>

lemma prefill_cached_run:
  assumes "prompt \<noteq> []" "length prompt \<le> prefill_cap"
    and "length ctx = reusable prompt (vk_prompt_cache V)" "keeps nt ctx (vk_cells V)"
  shows "\<exists>V'. prefill_cached nt prompt V = Some (net_logits nt (ctx @ drop (length ctx) prompt), V') \<and>
    vk_prompt_cache V' = prompt \<and> keeps nt (ctx @ drop (length ctx) prompt) (vk_cells V')"
proof -
  let ?suffix = "drop (length ctx) prompt"
  have less: "length ctx < length prompt"
    using assms(1,3) reusable_less by simp
  then have suffix: "?suffix \<noteq> []" "length ctx + length ?suffix = length prompt" "last ?suffix = last prompt"
      "length (butlast ?suffix) = length prompt - 1 - length ctx"
    by (auto simp: last_drop)
  show ?thesis
  proof (cases "32 < length ?suffix")
    case True
    obtain V' where "prefill_from nt ?suffix (length ctx) V = Some (net_logits nt (ctx @ ?suffix), V')" "keeps nt (ctx @ ?suffix) (vk_cells V')"
      using prefill_tiles_keeps [OF assms(4), of ?suffix "[]"] suffix assms(2) less by (auto simp: prefill_from_def)
    then show ?thesis
      using True assms(1,2) by (simp add: prefill_cached_def Let_def assms(3) [symmetric])
  next
    case False
    have "length ctx + length (butlast ?suffix) \<le> vk_max_seq" "length (ctx @ butlast ?suffix) < vk_max_seq"
      using suffix(4) less assms(2) by (auto simp: prefill_cap_def vk_max_seq_def)
    then obtain V1 where V1: "prefill_steps nt (butlast ?suffix) (length ctx) V = Some V1" "keeps nt (ctx @ butlast ?suffix) (vk_cells V1)"
      using prefill_steps_keeps [OF assms(4), of "butlast ?suffix"] by blast
    have pos: "length prompt - 1 = length (ctx @ butlast ?suffix)"
      using suffix(4) less by simp
    have all: "(ctx @ butlast ?suffix) @ [last prompt] = ctx @ ?suffix"
      using suffix(1,3) append_butlast_last_id [of ?suffix] by simp
    obtain V2 where V2: "forward_inner nt (last prompt) (length prompt - 1) V1 = Some (net_logits nt (ctx @ ?suffix), V2)"
        "keeps nt (ctx @ ?suffix) (vk_cells V2)"
      using forward_inner_keeps [OF V1(2) \<open>length (ctx @ butlast ?suffix) < vk_max_seq\<close>, of "last prompt"] unfolding pos [symmetric] all by blast
    show ?thesis
      using False assms(1,2) V1(1) V2 by (simp add: prefill_cached_def Let_def assms(3) [symmetric])
  qed
qed

lemma prefill_cached_keeps:
  assumes "prompt \<noteq> []" "length prompt \<le> prefill_cap" "vk_ready nt V"
  shows "\<exists>V'. prefill_cached nt prompt V = Some (net_logits nt prompt, V') \<and> vk_holds nt prompt prompt V'"
proof -
  let ?r = "reusable prompt (vk_prompt_cache V)"
  let ?ctx = "take ?r (vk_prompt_cache V)"
  have ctx: "?ctx = take ?r prompt" "length ?ctx = ?r"
    using reusable_take [of ?r prompt "vk_prompt_cache V"] lcp_len_le(2) [of prompt "vk_prompt_cache V"] by (simp_all add: reusable_def)
  have "keeps nt ?ctx (vk_cells V)"
    using assms(3) keeps_take by (simp add: vk_ready_def)
  from prefill_cached_run [OF assms(1,2) ctx(2) this] show ?thesis
    unfolding ctx(2) unfolding ctx(1) by (simp add: vk_holds_def)
qed

interpretation vk_lane: resident_engine "vk_engine nt" "net_logits nt" "net_pick nt" "vk_ready nt" "vk_holds nt" prefill_cap vk_max_seq
  for nt
proof unfold_locales
  show "\<exists>V'. le_prefill (vk_engine nt) prompt V = Some (net_logits nt prompt, V') \<and> vk_holds nt prompt prompt V'"
    if "vk_ready nt V" "prompt \<noteq> []" "length prompt \<le> prefill_cap" for V prompt
    using prefill_cached_keeps that by (simp add: vk_engine_def)
  show "\<exists>V'. le_forward (vk_engine nt) t (length ctx) V = Some (net_logits nt (ctx @ [t]), V') \<and> vk_holds nt prompt (ctx @ [t]) V'"
    if "vk_holds nt prompt ctx V" "length ctx < vk_max_seq" for prompt ctx V t
    using forward_inner_keeps [of nt ctx V t] that by (auto simp: vk_engine_def vk_holds_def)
  show "\<exists>V'. le_argmax (vk_engine nt) t (length ctx) V = Some (net_pick nt (ctx @ [t]), V') \<and> vk_holds nt prompt (ctx @ [t]) V'"
    if "vk_holds nt prompt ctx V" "length ctx < vk_max_seq" for prompt ctx V t
    using forward_inner_keeps [of nt ctx V t] that by (auto simp: vk_engine_def vk_holds_def vk_forward_argmax_def net_pick_def)
  show "vk_ready nt V" if "vk_holds nt prompt ctx V" for prompt ctx V
    using that keeps_prefix by (auto simp: vk_holds_def vk_ready_def)
  show "vk_ready nt (le_note (vk_engine nt) ts V)" if "vk_holds nt prompt ctx V" "prefix (prompt @ ts) ctx" for prompt ctx V ts
    using that keeps_prefix by (auto simp: vk_holds_def vk_ready_def vk_engine_def note_decoded_def)
qed

section \<open>Whole requests on the resident engines\<close>

lemma stops_kept [simp]:
  "dc_stops (observe t c) = dc_stops c" "dc_window (observe t c) = dc_window c"
  "dc_stops (observe_prompt_tail prompt n c) = dc_stops c" "dc_window (observe_prompt_tail prompt n c) = dc_window c"
  by (simp_all add: observe_def observe_prompt_tail_def)

lemma stops_sampled:
  assumes "sample_token m rg order r logits cfg c = (picked, c')"
  shows "dc_stops c' = dc_stops c" "dc_window c' = dc_window c"
  using assms by (auto simp: sample_token_def Let_def split: option.splits if_splits prod.splits)

lemma gpu_loop_overruns:
  assumes "ce_stops env = []" "dc_stops c = []" "pos \<le> gpu_max_seq" "Suc gpu_max_seq - pos < max_tokens - length out"
  shows "lane_loop env cfg (gpu_engine nt) True max_tokens t pos out c k = None"
  using assms
proof (induction "gpu_max_seq - pos" arbitrary: pos out t c k)
  case (0 pos out t c k)
  then show ?case
    by (subst lane_loop.simps)
       (simp add: Let_def stop_string_hit_def has_stops_def gpu_engine_def gpu_forward_argmax_def gpu_record_forward_def)
next
  case (Suc n pos out t c k)
  show ?case
  proof (cases "le_argmax (gpu_engine nt) t pos k")
    case (Some q)
    have "lane_loop env cfg (gpu_engine nt) True max_tokens (fst q) (Suc pos) (out @ [t]) (observe t c) (snd q) = None"
      by (rule Suc.hyps(1)) (use Suc.hyps(2) Suc.prems in simp_all)
    then show ?thesis
      using Suc.prems Some by (subst lane_loop.simps) (cases q, simp add: Let_def stop_string_hit_def has_stops_def)
  qed (use Suc.prems in \<open>subst lane_loop.simps, simp add: Let_def stop_string_hit_def has_stops_def\<close>)
qed

text \<open>
  C12: A request on the Vulkan engine that passes the gate of the handler never hits an assertion and returns what generation over
  the bare network returns, whatever prefix of an earlier request it reuses; the engine is ready for the next request afterwards.
\<close>

theorem vulkan_lane_exact:
  assumes "vk_ready nt V" "prompt \<noteq> []" "length prompt \<le> prefill_cap" "length prompt + max_tokens < vk_max_seq"
  shows "case generate_gpu env cfg (plain_engine (net_logits nt) (net_pick nt)) prompt max_tokens c [] of
      None \<Rightarrow> generate_vk env cfg (vk_engine nt) prompt max_tokens c V = None
    | Some (r, out, _) \<Rightarrow> \<exists>V'. generate_vk env cfg (vk_engine nt) prompt max_tokens c V = Some (r, out, V') \<and> vk_ready nt V'"
proof -
  have "length prompt + max_tokens \<le> Suc vk_max_seq"
    using assms(4) by simp
  note sim = vk_lane.run_simulates [OF assms(1-3) this, of env cfg c]
  show ?thesis
  proof (cases "run_lane env cfg (plain_engine (net_logits nt) (net_pick nt)) prompt max_tokens c []")
    case None
    then show ?thesis
      using sim by (simp add: generate_gpu_def generate_vk_def)
  next
    case (Some q)
    obtain out fin c' ctx where q: "q = (out, fin, c', ctx)"
      by (metis prod.exhaust)
    obtain V' where V': "run_lane env cfg (vk_engine nt) prompt max_tokens c V = Some (out, fin, c', V')" "vk_holds nt prompt ctx V'"
        "prefix (prompt @ butlast out) ctx"
      using sim Some q by auto
    then show ?thesis
      using vk_lane.settle [OF V'(2)] vk_lane.noted [OF V'(2,3)] Some q by (simp add: generate_gpu_def generate_vk_def)
  qed
qed


section \<open>A network of two tokens\<close>

definition demo_net :: "nat net" where
  "demo_net = \<lparr>nt_row = (\<lambda>ks t. t), nt_pad = (\<lambda>ks. 0),
     nt_logits = (\<lambda>ks. if even (length (filter (\<lambda>t. t = 1) ks)) then [Fin 1, Fin 0] else [Fin 0, Fin 1]), nt_argmax = argmax\<rparr>"

definition demo_vk :: "token list \<Rightarrow> nat vk_model" where
  "demo_vk ts = \<lparr>vk_cells = (\<lambda>i. if i < length ts then ts ! i else 0), vk_prompt_cache = ts\<rparr>"

lemma demo_net_rows [simp]: "net_rows demo_net ts = ts"
  by (induction ts rule: rev_induct) (simp_all add: net_rows_snoc, simp add: demo_net_def)

lemma demo_vk_ready: "vk_ready demo_net (demo_vk ts)"
  by (auto simp: vk_ready_def keeps_def resident_def demo_vk_def intro: nth_equalityI)

lemma demo_lane_sample: "logits \<noteq> [] \<Longrightarrow> lane_sample demo_chat_env demo_greedy i logits demo_ctrl = (Some (u32_of (greedy_index logits)), demo_ctrl)"
  by (simp add: lane_sample_def sample_token_def sample_with_rng_def demo_chat_env_def demo_greedy_def demo_ctrl_def Let_def
    modifies_logits_def penalties_active_def default_penalties_def f32_le_def)

lemma demo_lane_facts:
  "observe_prompt_tail p n demo_ctrl = demo_ctrl" "observe t demo_ctrl = demo_ctrl" "\<not> stop_string_hit demo_chat_env demo_ctrl out"
  "ce_stops demo_chat_env = []" "greedy_lane demo_greedy demo_ctrl"
  "net_logits demo_net ts = (if even (length (filter (\<lambda>t. t = 1) ts)) then [Fin 1, Fin 0] else [Fin 0, Fin 1])"
  "u32_of (greedy_index [Fin 1, Fin 0]) = 0" "u32_of (greedy_index [Fin 0, Fin 1]) = 1" "argmax [Fin 1, Fin 0] = 0" "argmax [Fin 0, Fin 1] = 1"
  by (simp_all add: observe_tail_greedy [OF demo_request(2)] net_logits_def)
     (simp_all add: observe_def demo_ctrl_def penalties_active_def default_penalties_def stop_string_hit_def has_stops_def demo_chat_env_def
       greedy_lane_def demo_greedy_def modifies_logits_def demo_net_def u32_of_def greedy_index_def argmax_def)

theorem vulkan_lane_exact_witness:
  "\<exists>r V'. generate_vk demo_chat_env demo_greedy (vk_engine demo_net) [0, 1, 1] 2 demo_ctrl (demo_vk [0, 1, 0]) = Some (r, [0, 0], V') \<and> vk_ready demo_net V'"
proof -
  have pick: "net_pick demo_net ts = argmax (net_logits demo_net ts)" for ts
    by (simp add: net_pick_def) (simp add: demo_net_def)
  have "\<exists>r ctx. generate_gpu demo_chat_env demo_greedy (plain_engine (net_logits demo_net) (net_pick demo_net)) [0, 1, 1] 2 demo_ctrl [] = Some (r, [0, 0], ctx)"
    by (simp add: generate_gpu_def run_lane_def demo_lane_sample demo_lane_facts pick lane_loop.simps Let_def)
  then show ?thesis
    using vulkan_lane_exact [OF demo_vk_ready [of "[0, 1, 0]"], of "[0, 1, 1]" 2 demo_chat_env demo_greedy demo_ctrl]
    by (auto simp: prefill_cap_def vk_max_seq_def)
qed



end
