(* ===== verification/ChatStream.thy ===== *)
theory ChatStream
  imports ResidentEngines
begin

text \<open>
  The streaming twin of the chat handler, \<^verbatim>\<open>chat_stream\<close> of \<^verbatim>\<open>src/src/server/rest.rs\<close>: the events of the server-sent stream,
  the loop on a pool slot with its own prompt-lookup round, and the streaming lanes of the resident engines. The lemmas compare the
  stream with the blocking handler, and show what the Vulkan lane does to the prefix record of its engine.
\<close>

section \<open>Events\<close>

datatype sse_event = Role_chunk | Delta string | Finish_chunk string | Done_chunk

text \<open>\<open>alive n\<close>: the client takes the event after the first \<open>n\<close>. A failed send leaves the stream as it was.\<close>

definition send :: "(nat \<Rightarrow> bool) \<Rightarrow> sse_event \<Rightarrow> sse_event list \<Rightarrow> bool \<times> sse_event list" where
  "send alive e evs = (if alive (length evs) then (True, evs @ [e]) else (False, evs))"

definition send_tok :: "'g chat_env \<Rightarrow> (nat \<Rightarrow> bool) \<Rightarrow> token \<Rightarrow> sse_event list \<Rightarrow> bool \<times> sse_event list" where
  "send_tok env alive t evs = (case ce_decode env [t] of None \<Rightarrow> (True, evs) | Some s \<Rightarrow> send alive (Delta s) evs)"

definition end_stream :: "(nat \<Rightarrow> bool) \<Rightarrow> string \<Rightarrow> sse_event list \<Rightarrow> sse_event list" where
  "end_stream alive finish evs = snd (send alive Done_chunk (snd (send alive (Finish_chunk finish) evs)))"

section \<open>The loop on a pool slot\<close>

definition stream_forward ::
  "'g chat_env \<Rightarrow> string \<Rightarrow> nat \<Rightarrow> ('r, 'g) generation \<Rightarrow> (zllm_error + f32 list) \<times> ('r, 'g) generation" where
  "stream_forward env rid start g =
    (if gn_out g = []
     then (case forward_logits_with_observer (ce_chunk env) (prefill_callback env rid (cb_n_layers (gn_backend g) - 1))
                  (drop start (gn_all g)) (gn_backend g) (gn_observer g, gn_store g) of
         (r, B, ro, st) \<Rightarrow> (r, g\<lparr>gn_backend := B, gn_observer := ro, gn_store := st\<rparr>))
     else (case forward_logits (ce_chunk env) (drop (length (gn_all g) - 1) (gn_all g)) (gn_backend g) of
         (r, B) \<Rightarrow> (r, g\<lparr>gn_backend := B\<rparr>)))"

text \<open>The accepted drafts: here a stop string or a client that has gone ends the batch too.\<close>

fun stream_drafts ::
  "'g chat_env \<Rightarrow> (nat \<Rightarrow> bool) \<Rightarrow> nat \<Rightarrow> token list \<Rightarrow> ('r, 'g) generation \<Rightarrow> sse_event list \<Rightarrow> bool \<times> ('r, 'g) generation \<times> sse_event list" where
  "stream_drafts env alive max_tokens [] g evs = (False, g, evs)"
| "stream_drafts env alive max_tokens (d # ds) g evs =
    (if d \<in> set (ce_stops env) then (True, g, evs)
     else (let g' = push_token d g in
       if stop_string_hit env (gn_ctrl g') (gn_out g') then (True, g', evs)
       else (case send_tok env alive d evs of
           (False, evs') \<Rightarrow> (True, g', evs')
         | (True, evs') \<Rightarrow>
             if max_tokens \<le> length (gn_out g') then (False, g', evs') else stream_drafts env alive max_tokens ds g' evs')))"

definition stream_pld_round ::
  "'g chat_env \<Rightarrow> (nat \<Rightarrow> bool) \<Rightarrow> nat \<Rightarrow> token \<Rightarrow> ('r, 'g) generation \<Rightarrow> sse_event list \<Rightarrow> ('r, 'g) generation \<times> sse_event list" where
  "stream_pld_round env alive max_tokens t g evs =
    (case lookup_draft (gn_all g) (gn_all g) 2 5 of None \<Rightarrow> (g, evs)
     | Some draft \<Rightarrow>
         (let pos_before = position (gn_backend g) in
          case forward_all_logits (t # draft) (gn_backend g) of
            (Inl e, B) \<Rightarrow> (g\<lparr>gn_backend := B\<rparr>, evs)
          | (Inr rows, B) \<Rightarrow>
              (let verify = verify_drafts draft rows;
                   (early_eos, g1, evs1) = stream_drafts env alive max_tokens (take (vr_accepted verify) draft) g evs;
                   g2 = g1\<lparr>gn_backend := truncate_to (pos_before + 1 + vr_accepted verify) B\<rparr>
               in if \<not> early_eos \<and> vr_bonus verify \<notin> set (ce_stops env) \<and> length (gn_out g2) < max_tokens
                  then (push_token (vr_bonus verify) g2, snd (send_tok env alive (vr_bonus verify) evs1)) else (g2, evs1))))"

text \<open>Every round that goes on commits a token, so \<open>max_tokens\<close> is enough fuel: the test at the top ends the loop before it is used up.\<close>

fun stream_loop ::
  "'g chat_env \<Rightarrow> sampler_config \<Rightarrow> string \<Rightarrow> nat \<Rightarrow> nat \<Rightarrow> (nat \<Rightarrow> bool) \<Rightarrow> nat \<Rightarrow> nat \<Rightarrow> ('r, 'g) generation \<Rightarrow> sse_event list
     \<Rightarrow> (('r, 'g) generation \<times> sse_event list) option" where
  "stream_loop env cfg rid start max_tokens alive i 0 g evs = Some (g, evs)"
| "stream_loop env cfg rid start max_tokens alive i (Suc n) g evs =
    (if max_tokens \<le> length (gn_out g) then Some (g, evs)
     else if ce_timeout env i then Some (g\<lparr>gn_finish := ''length''\<rparr>, evs)
     else (case stream_forward env rid start g of
         (Inl e, g1) \<Rightarrow> Some (g1, evs)
       | (Inr logits, g1) \<Rightarrow>
           if gn_out g = [] \<and> ce_inspection env \<and> ro_early_exit_signal (gn_observer g1) then Some (g1\<lparr>gn_finish := ''early_exit''\<rparr>, evs)
           else (case choose_token env cfg logits g1 of None \<Rightarrow> None
             | Some (t, g2) \<Rightarrow>
                 if t \<in> set (ce_stops env) then Some (g2, evs)
                 else (let g3 = push_token t g2 in
                   if stop_string_hit env (gn_ctrl g3) (gn_out g3) then Some (g3, evs)
                   else (case send_tok env alive t evs of
                       (False, evs') \<Rightarrow> Some (g3, evs')
                     | (True, evs') \<Rightarrow>
                         (case (if pld_on env cfg g3 \<and> length (gn_out g3) < max_tokens
                                then stream_pld_round env alive max_tokens t g3 evs' else (g3, evs')) of
                            (g4, evs4) \<Rightarrow> stream_loop env cfg rid start max_tokens alive (Suc i) n g4 evs4))))))"

definition stream_candle ::
  "'g chat_env \<Rightarrow> sampler_config \<Rightarrow> string \<Rightarrow> (nat \<Rightarrow> bool) \<Rightarrow> token list \<Rightarrow> nat \<Rightarrow> 'g decode_control \<Rightarrow> logit_fsm option \<Rightarrow> store
     \<Rightarrow> 'r backend_slot \<Rightarrow> (sse_event list \<times> ('r, 'g) generation \<times> 'r backend_slot \<times> store) option" where
  "stream_candle env cfg rid alive prompt max_tokens c fsm st sl =
    (let evs = snd (send alive Role_chunk []);
         (start, B, _) = prepare_prompt_cache (sl_backend sl) (sl_prompt_cache sl) prompt
     in case stream_loop env cfg rid start max_tokens alive 0 max_tokens (first_state env prompt rid c fsm None None st B) evs of
          None \<Rightarrow> None
        | Some (g, evs') \<Rightarrow>
            (case save_trace env (gn_observer g) (gn_store g) of None \<Rightarrow> None
             | Some st' \<Rightarrow> Some (end_stream alive (gn_finish g) evs', g, sl\<lparr>sl_backend := gn_backend g, sl_prompt_cache := gn_all g\<rparr>, st')))"

section \<open>The streaming lanes of the resident engines\<close>

function stream_lane_loop ::
  "'g chat_env \<Rightarrow> sampler_config \<Rightarrow> 'k lane_engine \<Rightarrow> (nat \<Rightarrow> bool) \<Rightarrow> bool \<Rightarrow> nat \<Rightarrow> token \<Rightarrow> nat \<Rightarrow> token list \<Rightarrow> 'g decode_control \<Rightarrow> 'k
     \<Rightarrow> sse_event list \<Rightarrow> (token list \<times> string \<times> 'k \<times> sse_event list) option" where
  "stream_lane_loop env cfg en alive greedy_on max_tokens tok pos out c k evs =
    (if tok \<in> set (ce_stops env) then Some (out, ''stop'', k, evs)
     else (let out' = out @ [tok]; c' = observe tok c in
       if stop_string_hit env c' out' then Some (out', ''stop'', k, evs)
       else (case send alive (Delta (case ce_decode env [tok] of None \<Rightarrow> [] | Some s \<Rightarrow> s)) evs of
           (False, evs') \<Rightarrow> Some (out', ''length'', k, evs')
         | (True, evs') \<Rightarrow>
             if max_tokens \<le> length out' then Some (out', ''length'', k, evs')
             else if greedy_on then (case le_argmax en tok pos k of None \<Rightarrow> None
                  | Some (t, k') \<Rightarrow> stream_lane_loop env cfg en alive greedy_on max_tokens t (Suc pos) out' c' k' evs')
             else (case le_forward en tok pos k of None \<Rightarrow> None
                  | Some (logits, k') \<Rightarrow>
                    (case lane_sample env cfg (length out') logits c' of
                       (None, c'') \<Rightarrow> None
                     | (Some t, c'') \<Rightarrow> stream_lane_loop env cfg en alive greedy_on max_tokens t (Suc pos) out' c'' k' evs')))))"
  by pat_completeness auto
termination
  by (relation "measure (\<lambda>(env, cfg, en, alive, g, max_tokens, t, pos, out, c, k, evs). max_tokens - length out)") auto

declare stream_lane_loop.simps [simp del]

definition stream_gpu ::
  "'g chat_env \<Rightarrow> sampler_config \<Rightarrow> 'k lane_engine \<Rightarrow> (nat \<Rightarrow> bool) \<Rightarrow> token list \<Rightarrow> nat \<Rightarrow> 'g decode_control \<Rightarrow> 'k \<Rightarrow> (sse_event list \<times> token list \<times> 'k) option" where
  "stream_gpu env cfg en alive prompt max_tokens c k =
    (let evs = snd (send alive Role_chunk []); c1 = observe_prompt_tail prompt 64 c in
     case le_prefill en prompt k of None \<Rightarrow> None
     | Some (logits, k1) \<Rightarrow>
       (case lane_sample env cfg 0 logits c1 of
          (None, c2) \<Rightarrow> None
        | (Some t, c2) \<Rightarrow>
            map_option (\<lambda>(out, fin, k', evs'). (end_stream alive fin evs', out, k'))
              (stream_lane_loop env cfg en alive (greedy_lane cfg c) max_tokens t (length prompt) [] c2 k1 evs)))"

text \<open>The Vulkan lane fills the cache itself, from position 0; the record of resident tokens is not part of it.\<close>

definition vk_stream_first ::
  "'g chat_env \<Rightarrow> sampler_config \<Rightarrow> 'kv net \<Rightarrow> bool \<Rightarrow> token list \<Rightarrow> 'g decode_control \<Rightarrow> 'kv vk_model \<Rightarrow> (token \<times> 'g decode_control \<times> 'kv vk_model) option" where
  "vk_stream_first env cfg nt greedy_on prompt c V =
    (if 32 < length prompt
     then (case prefill_forward nt prompt V of None \<Rightarrow> None
       | Some (logits, V1) \<Rightarrow> (case lane_sample env cfg 0 logits c of (None, c2) \<Rightarrow> None | (Some t, c2) \<Rightarrow> Some (t, c2, V1)))
     else (case prefill_steps nt (butlast prompt) 0 V of None \<Rightarrow> None
       | Some V1 \<Rightarrow>
           if greedy_on then map_option (\<lambda>(t, V2). (t, c, V2)) (vk_forward_argmax nt (last prompt) (length prompt - 1) V1)
           else (case forward_inner nt (last prompt) (length prompt - 1) V1 of None \<Rightarrow> None
             | Some (logits, V2) \<Rightarrow> (case lane_sample env cfg 0 logits c of (None, c2) \<Rightarrow> None | (Some t, c2) \<Rightarrow> Some (t, c2, V2)))))"

definition stream_vk ::
  "'g chat_env \<Rightarrow> sampler_config \<Rightarrow> 'kv net \<Rightarrow> (nat \<Rightarrow> bool) \<Rightarrow> token list \<Rightarrow> nat \<Rightarrow> 'g decode_control \<Rightarrow> 'kv vk_model \<Rightarrow> (sse_event list \<times> token list \<times> 'kv vk_model) option" where
  "stream_vk env cfg nt alive prompt max_tokens c V =
    (let evs = snd (send alive Role_chunk []) in
     case vk_stream_first env cfg nt (greedy_lane cfg c) prompt (observe_prompt_tail prompt 64 c) V of None \<Rightarrow> None
     | Some (t, c2, V1) \<Rightarrow>
         map_option (\<lambda>(out, fin, V', evs'). (end_stream alive fin evs', out, V'))
           (stream_lane_loop env cfg (vk_engine nt) alive (greedy_lane cfg c) max_tokens t (length prompt) [] c2 V1 evs))"

text \<open>The gate of a stream: no speculative lane, and the Vulkan gate does not look at \<open>max_tokens\<close>.\<close>

definition pick_stream_lane :: "'g chat_env \<Rightarrow> lane_flags \<Rightarrow> nat \<Rightarrow> bool \<Rightarrow> lane" where
  "pick_stream_lane env fl prompt_len has_fsm =
    (let fast = (\<not> ce_inspection env \<and> \<not> ce_pld env \<and> \<not> ce_early_exit env \<and> \<not> has_fsm)
     in if fast \<and> (case lf_gpu fl of None \<Rightarrow> False | Some max_prefill_m \<Rightarrow> 1 \<le> prompt_len \<and> prompt_len \<le> max_prefill_m) then Gpu_lane
        else if fast \<and> lf_vulkan fl \<noteq> None \<and> 1 \<le> prompt_len \<and> prompt_len \<le> prefill_max_m then Vulkan_lane
        else Candle_lane)"

section \<open>The stream is the blocking answer\<close>

lemma stop_hit_cong:
  "dc_stops c' = dc_stops c \<Longrightarrow> dc_window c' = dc_window c \<Longrightarrow> stop_string_hit env c' out = stop_string_hit env c out"
  by (simp add: stop_string_hit_def has_stops_def stop_hit_in_def)

lemma choose_stops:
  assumes "choose_token env cfg logits g = Some (t, g')"
  shows "dc_stops (gn_ctrl g') = dc_stops (gn_ctrl g)" "dc_window (gn_ctrl g') = dc_window (gn_ctrl g)"
  using assms by (auto simp: choose_token_def Let_def split: option.splits prod.splits if_splits dest: stops_sampled)

lemma forward_frame:
  assumes "forward_next env cfg rid start g = (r, g')"
  shows "gn_out g' = gn_out g" "gn_ctrl g' = gn_ctrl g" "gn_all g' = gn_all g"
  using assms by (auto simp: forward_next_def split: if_splits prod.splits sum.splits)

lemma stream_forward_next: "\<not> ce_early_exit env \<Longrightarrow> stream_forward env rid start g = forward_next env cfg rid start g"
  by (simp add: stream_forward_def forward_next_def early_exit_on_def)

lemma gen_loop_grows:
  assumes "\<not> ce_pld env" "gen_loop env cfg rid start max_tokens i n g = Some g'"
  shows "prefix (gn_out g) (gn_out g') \<and> dc_stops (gn_ctrl g') = dc_stops (gn_ctrl g) \<and> dc_window (gn_ctrl g') = dc_window (gn_ctrl g)"
  using assms
proof (induction env cfg rid start max_tokens i n g rule: gen_loop.induct)
  case (2 env cfg rid start max_tokens i n g)
  have off: "\<not> pld_on env cfg g3" for g3
    using "2.prems"(1) by (simp add: pld_on_def)
  show ?case
  proof (cases "ce_timeout env i")
    case False
    obtain r g1 where f: "forward_next env cfg rid start g = (r, g1)"
      by fastforce
    note fr = forward_frame [OF f]
    show ?thesis
    proof (cases r)
      case (Inr logits)
      show ?thesis
      proof (cases "gn_out g = [] \<and> ce_inspection env \<and> ro_early_exit_signal (gn_observer g1)")
        case False
        then obtain t g2 where t: "choose_token env cfg logits g1 = Some (t, g2)"
          using "2.prems"(2) \<open>\<not> ce_timeout env i\<close> f Inr by (auto split: option.splits)
        note ch = choose_frame(2) [OF t] choose_stops [OF t]
        let ?g3 = "push_token t g2"
        consider "t \<in> set (ce_stops env)" | "t \<notin> set (ce_stops env)" "stop_string_hit env (gn_ctrl ?g3) (gn_out ?g3)"
          | "t \<notin> set (ce_stops env)" "\<not> stop_string_hit env (gn_ctrl ?g3) (gn_out ?g3)"
          by blast
        then show ?thesis
        proof cases
          case 3
          have run: "gen_loop env cfg rid start max_tokens (Suc i) n ?g3 = Some g'"
            using "2.prems"(2) \<open>\<not> ce_timeout env i\<close> f Inr False t 3 off [of ?g3] by (auto simp: Let_def simp del: push_simps)
          have "prefix (gn_out ?g3) (gn_out g') \<and> dc_stops (gn_ctrl g') = dc_stops (gn_ctrl ?g3) \<and> dc_window (gn_ctrl g') = dc_window (gn_ctrl ?g3)"
            using "2.IH" [OF \<open>\<not> ce_timeout env i\<close> f [symmetric] Inr False t refl 3(1) refl 3(2) "2.prems"(1)] run off [of ?g3] by (simp del: push_simps)
          then show ?thesis
            using fr ch by (auto dest: append_prefixD)
        qed (use "2.prems"(2) \<open>\<not> ce_timeout env i\<close> f Inr False t fr ch in \<open>auto simp: Let_def\<close>)
      qed (use "2.prems"(2) \<open>\<not> ce_timeout env i\<close> f Inr fr in auto)
    qed (use "2.prems"(2) False f fr in auto)
  qed (use "2.prems"(2) in auto)
qed simp

text \<open>What a stream says of the tokens between two states: the token that completed a stop string is held back.\<close>

definition spoken :: "'g chat_env \<Rightarrow> token list \<Rightarrow> ('r, 'g) generation \<Rightarrow> sse_event list" where
  "spoken env out g =
    map Delta (List.map_filter (\<lambda>t. ce_decode env [t])
      (drop (length out) (if stop_string_hit env (gn_ctrl g) (gn_out g) then butlast (gn_out g) else gn_out g)))"

lemma spoken_none:
  assumes "dc_stops (gn_ctrl g') = dc_stops c" "dc_window (gn_ctrl g') = dc_window c" "out = [] \<or> \<not> stop_string_hit env c out" "gn_out g' = out"
  shows "spoken env out g' = []"
  using assms stop_hit_cong [of "gn_ctrl g'" c env] by (auto simp: spoken_def map_filter_simps)

lemma spoken_cons:
  assumes "prefix (out @ [t]) (gn_out g')" "\<not> stop_string_hit env (gn_ctrl g') (out @ [t])"
  shows "spoken env out g' = (case ce_decode env [t] of None \<Rightarrow> [] | Some s \<Rightarrow> [Delta s]) @ spoken env (out @ [t]) g'"
proof -
  obtain us where us: "gn_out g' = out @ t # us"
    using assms(1) by (auto elim!: prefixE)
  show ?thesis
  proof (cases "us = []")
    case True
    then show ?thesis
      using assms(2) us by (simp add: spoken_def map_filter_simps split: option.split)
  qed (simp add: spoken_def us map_filter_simps butlast_append split: option.split)
qed

lemma stream_loop_blocking:
  assumes "\<not> ce_pld env" "\<not> ce_early_exit env" "\<And>n. alive n" "length (gn_out g) + n = max_tokens"
    and "gn_out g = [] \<or> \<not> stop_string_hit env (gn_ctrl g) (gn_out g)"
  shows "stream_loop env cfg rid start max_tokens alive i n g evs =
    map_option (\<lambda>g'. (g', evs @ spoken env (gn_out g) g')) (gen_loop env cfg rid start max_tokens i n g)"
  using assms(4,5)
proof (induction n arbitrary: i g evs)
  case 0
  then show ?case
    using spoken_none [of g "gn_ctrl g" "gn_out g" env] by simp
next
  case (Suc n)
  have off: "\<not> pld_on env cfg g3" for g3
    using assms(1) by (simp add: pld_on_def)
  note silent = spoken_none [OF _ _ Suc.prems(2)]
  have more: "\<not> max_tokens \<le> length (gn_out g)"
    using Suc.prems(1) by simp
  show ?case
  proof (cases "ce_timeout env i")
    case True
    then show ?thesis
      using more silent [of "g\<lparr>gn_finish := ''length''\<rparr>"] by simp
  next
    case False
    obtain r g1 where f: "forward_next env cfg rid start g = (r, g1)"
      by fastforce
    note fr = forward_frame [OF f]
    have fw: "stream_forward env rid start g = (r, g1)"
      using f stream_forward_next [OF assms(2), of rid start g cfg] by simp
    show ?thesis
    proof (cases r)
      case (Inl e)
      then show ?thesis
        using more False f fw silent [of g1] fr by simp
    next
      case (Inr logits)
      show ?thesis
      proof (cases "gn_out g = [] \<and> ce_inspection env \<and> ro_early_exit_signal (gn_observer g1)")
        case True
        then show ?thesis
          using more False f fw Inr silent [of "g1\<lparr>gn_finish := ''early_exit''\<rparr>"] fr by simp
      next
        case stay: False
        show ?thesis
        proof (cases "choose_token env cfg logits g1")
          case None
          then show ?thesis
            using more False f fw Inr stay by auto
        next
          case (Some q)
          obtain t g2 where q: "q = (t, g2)"
            by (metis prod.exhaust)
          note t = Some [unfolded q]
          note ch = choose_frame(2) [OF t] choose_stops [OF t]
          let ?g3 = "push_token t g2"
          have out: "gn_out ?g3 = gn_out g @ [t]"
            using fr ch by simp
          consider "t \<in> set (ce_stops env)" | "t \<notin> set (ce_stops env)" "stop_string_hit env (gn_ctrl ?g3) (gn_out ?g3)"
            | "t \<notin> set (ce_stops env)" "\<not> stop_string_hit env (gn_ctrl ?g3) (gn_out ?g3)"
            by blast
          then show ?thesis
          proof cases
            case 1
            then show ?thesis
              using more False f fw Inr stay t silent [of g2] fr ch by auto
          next
            case 2
            then have "spoken env (gn_out g) ?g3 = []"
              unfolding spoken_def out by (simp add: map_filter_simps)
            then show ?thesis
              using more False f fw Inr stay t 2 by (auto simp: Let_def simp del: push_simps)
          next
            case 3
            let ?evs = "evs @ (case ce_decode env [t] of None \<Rightarrow> [] | Some s \<Rightarrow> [Delta s])"
            have sent: "send_tok env alive t evs = (True, ?evs)"
              using assms(3) by (simp add: send_tok_def send_def split: option.split)
            have go: "gen_loop env cfg rid start max_tokens i (Suc n) g = gen_loop env cfg rid start max_tokens (Suc i) n ?g3"
                "stream_loop env cfg rid start max_tokens alive i (Suc n) g evs = stream_loop env cfg rid start max_tokens alive (Suc i) n ?g3 ?evs"
              using more False f fw Inr stay t 3 off [of ?g3] sent by (auto simp: Let_def simp del: push_simps)
            have IH: "stream_loop env cfg rid start max_tokens alive (Suc i) n ?g3 ?evs =
                map_option (\<lambda>g'. (g', ?evs @ spoken env (gn_out ?g3) g')) (gen_loop env cfg rid start max_tokens (Suc i) n ?g3)"
              by (rule Suc.IH) (use Suc.prems(1) out 3(2) in simp_all)
            show ?thesis
            proof (cases "gen_loop env cfg rid start max_tokens (Suc i) n ?g3")
              case None
              then show ?thesis
                unfolding go IH by simp
            next
              case (Some g')
              have grown: "prefix (gn_out g @ [t]) (gn_out g')" "\<not> stop_string_hit env (gn_ctrl g') (gn_out g @ [t])"
                using gen_loop_grows [OF assms(1) Some] 3(2) stop_hit_cong [of "gn_ctrl g'" "gn_ctrl ?g3" env] unfolding out by auto
              show ?thesis
                unfolding go IH Some using spoken_cons [OF grown] out by simp
            qed
          qed
        qed
      qed
    qed
  qed
qed

text \<open>
  C13: With a client that stays, a streamed request without prompt lookup and early exit draws the same tokens as the blocking handler,
  leaves the same slot and store, and sends the role, the text of every token but the one that completed a stop string, the finish
  reason and the end mark.
\<close>

theorem stream_matches_blocking:
  assumes "\<not> ce_pld env" "\<not> ce_early_exit env" "\<And>n. alive n"
  shows "stream_candle env cfg rid alive prompt max_tokens c fsm st sl =
    map_option (\<lambda>(r, g, sl', st'). (Role_chunk # spoken env [] g @ [Finish_chunk (gn_finish g), Done_chunk], g, sl', st'))
      (generate_candle env cfg rid prompt max_tokens c fsm None None st sl)"
proof -
  obtain start B cached where p: "prepare_prompt_cache (sl_backend sl) (sl_prompt_cache sl) prompt = (start, B, cached)"
    by (metis prod.exhaust)
  let ?g = "first_state env prompt rid c fsm None None st B"
  have out: "gn_out ?g = []"
    by (simp add: first_state_def)
  have "stream_loop env cfg rid start max_tokens alive 0 max_tokens ?g [Role_chunk] =
      map_option (\<lambda>g'. (g', [Role_chunk] @ spoken env (gn_out ?g) g')) (gen_loop env cfg rid start max_tokens 0 max_tokens ?g)"
    by (rule stream_loop_blocking [OF assms(1,2,3)]) (simp_all add: out)
  then show ?thesis
    using assms(3) by (simp add: stream_candle_def generate_candle_def p send_def end_stream_def out split: option.split)
qed

section \<open>The Vulkan lane and the record of resident tokens\<close>

text \<open>What a stream does to the cells below a bound and to the record.\<close>

lemma stream_lane_keeps:
  assumes "stream_lane_loop env cfg (vk_engine nt) alive g max_tokens t pos out c V evs = Some (out', fin, V', evs')"
    and "keeps nt q (vk_cells V)" "length q \<le> pos"
  shows "keeps nt q (vk_cells V') \<and> vk_prompt_cache V' = vk_prompt_cache V"
  using assms
proof (induction "max_tokens - length out" arbitrary: t pos out c V evs rule: less_induct)
  case less
  note run = less.prems(1) [unfolded stream_lane_loop.simps [of env cfg "vk_engine nt" alive g max_tokens t pos out c V evs] Let_def]
  have kept: "keeps nt q (vk_cells V1) \<and> vk_prompt_cache V1 = vk_prompt_cache V" if "forward_inner nt t pos V = Some (l, V1)" for l V1
    using that less.prems(2,3) by (auto simp: forward_inner_def Let_def keeps_def split: if_splits)
  have next_round: "keeps nt q (vk_cells V') \<and> vk_prompt_cache V' = vk_prompt_cache V"
    if "stream_lane_loop env cfg (vk_engine nt) alive g max_tokens u (Suc pos) (out @ [t]) c2 V1 evs2 = Some (out', fin, V', evs')"
      "forward_inner nt t pos V = Some (l, V1)" "\<not> max_tokens \<le> length (out @ [t])" for u c2 V1 evs2 l
    using less.hyps [OF _ that(1)] kept [OF that(2)] that(3) less.prems(3) by simp
  show ?case
    using run less.prems(2) next_round
    by (auto simp: vk_engine_def vk_forward_argmax_def split: if_splits option.splits prod.splits bool.splits)
qed

lemma vk_stream_first_keeps:
  assumes "vk_stream_first env cfg nt g q c V = Some (t, c2, V1)" "q \<noteq> []" "length q \<le> prefill_max_m"
  shows "keeps nt q (vk_cells V1) \<and> vk_prompt_cache V1 = vk_prompt_cache V"
proof -
  have cap: "length q \<le> prefill_cap" "length q \<le> vk_max_seq"
    using assms(3) by (simp_all add: prefill_max_m_def prefill_cap_def vk_max_seq_def)
  show ?thesis
  proof (cases "32 < length q")
    case True
    obtain V2 where "prefill_forward nt q V = Some (net_logits nt q, V2)" "keeps nt q (vk_cells V2)" "vk_prompt_cache V2 = vk_prompt_cache V"
      using prefill_tiles_keeps [OF keeps_Nil, where nt = nt and ts = q and V = V and logits = "[]"] cap assms(2) by (auto simp: prefill_forward_def prefill_from_def)
    then show ?thesis
      using assms(1) True by (auto simp: vk_stream_first_def split: prod.splits option.splits)
  next
    case False
    have "length (butlast q) \<le> vk_max_seq"
      using cap by simp
    then obtain V2 where V2: "prefill_steps nt (butlast q) 0 V = Some V2" "keeps nt (butlast q) (vk_cells V2)" "vk_prompt_cache V2 = vk_prompt_cache V"
      using prefill_steps_keeps [OF keeps_Nil, where nt = nt and ts = "butlast q" and V = V] by auto
    have last: "length (butlast q) = length q - 1" "butlast q @ [last q] = q" "length (butlast q) < vk_max_seq"
      using assms(2) cap by (auto simp: vk_max_seq_def Suc_le_eq less_Suc_eq_le neq_Nil_conv)
    obtain V3 where "forward_inner nt (last q) (length q - 1) V2 = Some (net_logits nt q, V3)" "keeps nt q (vk_cells V3)"
        "vk_prompt_cache V3 = vk_prompt_cache V"
      using forward_inner_keeps [OF V2(2) last(3), of "last q"] unfolding last(1,2) V2(3) by blast
    then show ?thesis
      using assms(1) False V2(1) by (auto simp: vk_stream_first_def vk_forward_argmax_def split: if_splits prod.splits option.splits)
  qed
qed

text \<open>
  C18: A streamed request on the Vulkan engine overwrites the cells from position 0 but leaves the record of the earlier request. The
  next request that goes through the prefix reuse then takes the first tokens of the streamed prompt for its own: it is answered as if
  its prompt began with them.
\<close>

theorem stream_splices_prompt:
  assumes "q \<noteq> []" "length q \<le> prefill_max_m" "stream_vk env cfg nt alive q max_tokens c V = Some (evs, out, V')"
    and "p \<noteq> []" "length p \<le> prefill_cap" "reusable p (vk_prompt_cache V) \<le> length q"
  shows "\<exists>V''. prefill_cached nt p V' =
    Some (net_logits nt (take (reusable p (vk_prompt_cache V)) q @ drop (reusable p (vk_prompt_cache V)) p), V'')"
proof -
  obtain t c2 V1 fin evs' where first: "vk_stream_first env cfg nt (greedy_lane cfg c) q (observe_prompt_tail q 64 c) V = Some (t, c2, V1)"
      and loop: "stream_lane_loop env cfg (vk_engine nt) alive (greedy_lane cfg c) max_tokens t (length q) [] c2 V1 (snd (send alive Role_chunk [])) =
        Some (out, fin, V', evs')"
    using assms(3) by (auto simp: stream_vk_def Let_def split: option.splits prod.splits)
  have V1: "keeps nt q (vk_cells V1)" "vk_prompt_cache V1 = vk_prompt_cache V"
    using vk_stream_first_keeps [OF first assms(1,2)] by auto
  have V': "keeps nt q (vk_cells V')" "vk_prompt_cache V' = vk_prompt_cache V"
    using stream_lane_keeps [OF loop V1(1)] V1(2) by auto
  let ?r = "reusable p (vk_prompt_cache V)"
  have len: "length (take ?r q) = reusable p (vk_prompt_cache V')"
    using assms(6) V'(2) by simp
  show ?thesis
    using prefill_cached_run [OF assms(4,5) len keeps_take [OF V'(1)]] unfolding len V'(2) by blast
qed

lemma demo_blocking:
  "\<exists>r g sl' st'. generate_candle demo_chat_env demo_greedy ''q'' [0, 1] 2 demo_ctrl None None None demo_store (demo_slot [0, 0] [0, 0]) =
    Some (r, g, sl', st') \<and> gn_out g = [1, 0] \<and> gn_finish g = ''stop'' \<and> dc_stops (gn_ctrl g) = []"
proof -
  have reuse: "reuse_ok [0, 0] [0, 1] (demo_slot [0, 0] [0, 0])"
    by (simp add: reuse_ok_def reusable_def demo_slot_def)
  let ?g = "first_state demo_chat_env [0, 1] ''q'' demo_ctrl None None None demo_store (sl_backend (demo_slot [0, 0] [0, 0]))"
  have g: "gn_ctrl ?g = demo_ctrl" "gn_finish ?g = ''stop''" "gn_out ?g = []" "gn_all ?g = [0, 1]"
      "greedy_request demo_chat_env demo_greedy (gn_ctrl ?g) (gn_fsm ?g)"
    using demo_request(2) observe_tail_greedy [OF demo_request(2)] by (simp_all add: first_state_def)
  obtain g' where g': "model_loop demo_chat_env demo_greedy demo_llama 0 2 ?g = Some (False, g')" "gn_out g' = [1, 0]"
      "gn_finish g' = ''stop''" "gn_ctrl g' = demo_ctrl"
    using model_loop_greedy [OF g(5), of demo_llama 0 2] g(1-4) demo_greedy_run by (auto simp: demo_stops)
  show ?thesis
    using candle_run [OF demo_request(1) demo_slot_holds [of "[0, 0]" "[0, 0]"] disjI1 [OF reuse] demo_fits [of "[0, 1]" 2],
        of demo_greedy "''q''" demo_ctrl None None None demo_store] unfolding g'(1)
    using g'(2-4) by (auto simp: demo_ctrl_def)
qed

theorem stream_matches_blocking_witness:
  "\<exists>g sl' st'. stream_candle demo_chat_env demo_greedy ''q'' (\<lambda>n. True) [0, 1] 2 demo_ctrl None demo_store (demo_slot [0, 0] [0, 0]) =
    Some ([Role_chunk, Delta ''b'', Delta ''a'', Finish_chunk ''stop'', Done_chunk], g, sl', st')"
proof -
  obtain r g sl' st' where g: "generate_candle demo_chat_env demo_greedy ''q'' [0, 1] 2 demo_ctrl None None None demo_store (demo_slot [0, 0] [0, 0]) =
      Some (r, g, sl', st')" "gn_out g = [1, 0]" "gn_finish g = ''stop''" "dc_stops (gn_ctrl g) = []"
    using demo_blocking by blast
  have "spoken demo_chat_env [] g = [Delta ''b'', Delta ''a'']"
    using g(2,4) by (simp add: spoken_def stop_string_hit_def has_stops_def map_filter_simps) (simp add: demo_chat_env_def)
  moreover have "\<not> ce_pld demo_chat_env" "\<not> ce_early_exit demo_chat_env"
    by (simp_all add: demo_chat_env_def)
  ultimately show ?thesis
    using stream_matches_blocking [of demo_chat_env "\<lambda>n. True" demo_greedy "''q''" "[0, 1]" 2 demo_ctrl None demo_store "demo_slot [0, 0] [0, 0]"] g
    by simp
qed

theorem stream_splices_prompt_witness:
  "\<exists>evs V' V''. stream_vk demo_chat_env demo_greedy demo_net (\<lambda>n. True) [1, 1] 1 demo_ctrl (demo_vk [0, 1]) = Some (evs, [0], V') \<and>
    prefill_cached demo_net [0, 0] V' = Some (net_logits demo_net [1, 0], V'') \<and> net_logits demo_net [1, 0] \<noteq> net_logits demo_net [0, 0]"
proof -
  have r: "reusable [0, 0] (vk_prompt_cache (demo_vk [0, 1])) = 1"
    by (simp add: demo_vk_def reusable_def)
  obtain evs V' where V': "stream_vk demo_chat_env demo_greedy demo_net (\<lambda>n. True) [1, 1] 1 demo_ctrl (demo_vk [0, 1]) = Some (evs, [0], V')"
    by (auto simp: stream_vk_def vk_stream_first_def demo_lane_facts vk_forward_argmax_def forward_inner_def vk_max_seq_def
      write_cell_def resident_def prefill_step_def demo_net_def argmax_def stream_lane_loop.simps Let_def send_def)
  show ?thesis
    using stream_splices_prompt [OF _ _ V', of "[0, 0]"] V' unfolding r
    by (simp add: demo_lane_facts prefill_max_m_def prefill_cap_def vk_max_seq_def)
qed

end
