(* ===== verification/Requests.thy ===== *)
theory Requests
  imports ChatStream
begin

text \<open>
  What the handlers of \<^verbatim>\<open>src/src/server/rest.rs\<close> do before an engine runs: admission, the choice of a pool slot, the
  resolution of the decoding constraint from \<^verbatim>\<open>grammar\<close>, \<^verbatim>\<open>response_format\<close> and \<^verbatim>\<open>tools\<close>, the sampler and the decode control
  of a request, its limits, and the lane it takes. Requests are records of their parsed JSON fields; the text of an error response is
  a constructor. The lemmas show that a constraint asked for is always enforced, that accepted requests fit the context window, and
  that admission bounds what runs.
\<close>

section \<open>Admission\<close>

text \<open>
  \<^verbatim>\<open>admit\<close> counts itself in before it looks at the limit; the guard counts out when it is dropped, at the end of the generation or
  on the way out of a refusal. The counter is far below its width.
\<close>

definition admit :: "nat \<Rightarrow> nat \<Rightarrow> bool \<times> nat" where
  "admit max_concurrent active = (let now = active + 1 in (now \<le> max_concurrent, now))"

definition drop_guard :: "nat \<Rightarrow> nat" where
  "drop_guard active = active - 1"

record admission =
  ad_active :: nat
  ad_running :: nat
  ad_leaving :: nat

inductive admission_step :: "nat \<Rightarrow> admission \<Rightarrow> admission \<Rightarrow> bool" where
  enter: "admit max_concurrent (ad_active s) = (True, now) \<Longrightarrow>
    admission_step max_concurrent s (s\<lparr>ad_active := now, ad_running := Suc (ad_running s)\<rparr>)"
| refuse: "admit max_concurrent (ad_active s) = (False, now) \<Longrightarrow>
    admission_step max_concurrent s (s\<lparr>ad_active := now, ad_leaving := Suc (ad_leaving s)\<rparr>)"
| finish: "ad_running s = Suc r \<Longrightarrow> admission_step max_concurrent s (s\<lparr>ad_active := drop_guard (ad_active s), ad_running := r\<rparr>)"
| leave: "ad_leaving s = Suc l \<Longrightarrow> admission_step max_concurrent s (s\<lparr>ad_active := drop_guard (ad_active s), ad_leaving := l\<rparr>)"

inductive admission_reachable :: "nat \<Rightarrow> admission \<Rightarrow> bool" where
  start: "admission_reachable max_concurrent \<lparr>ad_active = 0, ad_running = 0, ad_leaving = 0\<rparr>"
| more: "admission_reachable max_concurrent s \<Longrightarrow> admission_step max_concurrent s s' \<Longrightarrow> admission_reachable max_concurrent s'"

section \<open>The pool\<close>

text \<open>A slot that panicked is poisoned: \<^verbatim>\<open>try_lock\<close> passes it over, and only the fallback takes it. The flag says that the call waits.\<close>

datatype slot_lock = Unlocked | Locked | Poisoned

fun first_unlocked :: "slot_lock list \<Rightarrow> nat option" where
  "first_unlocked [] = None"
| "first_unlocked (l # ls) = (if l = Unlocked then Some 0 else map_option Suc (first_unlocked ls))"

definition acquire_slot :: "slot_lock list \<Rightarrow> nat \<Rightarrow> (nat \<times> bool \<times> nat) option" where
  "acquire_slot pool rr =
    (case first_unlocked pool of
       Some i \<Rightarrow> Some (i, False, rr)
     | None \<Rightarrow> if pool = [] then None else (let i = rr mod length pool in Some (i, pool ! i = Locked, Suc rr)))"

section \<open>Requests\<close>

datatype stop_param = One string | Many "string list"

definition into_vec :: "stop_param \<Rightarrow> string list" where
  "into_vec s = (case s of One t \<Rightarrow> [t] | Many ts \<Rightarrow> ts)"

record chat_request =
  cq_stream :: bool
  cq_max_tokens :: "nat option"
  cq_max_completion_tokens :: "nat option"
  cq_temperature :: "f32 option"
  cq_top_p :: "f32 option"
  cq_top_k :: "nat option"
  cq_min_p :: "f32 option"
  cq_seed :: "nat option"
  cq_stop :: "stop_param option"
  cq_presence_penalty :: "f32 option"
  cq_frequency_penalty :: "f32 option"
  cq_repeat_penalty :: "f32 option"
  cq_logit_bias :: "(string \<times> f32) list option"
  cq_tools :: "json option"
  cq_tool_choice :: "json option"
  cq_n :: "nat option"
  cq_response_format :: "json option"
  cq_stream_options :: "json option"
  cq_parallel_tool_calls :: "bool option"
  cq_grammar :: "string option"
  cq_detect_hallucination :: "bool option"
  cq_logprobs :: "bool option"
  cq_top_logprobs :: "nat option"

datatype request_error =
    Tokenize_failed
  | Context_length_exceeded nat nat
  | Saturated nat nat
  | Several_choices
  | Tools_not_array
  | Tool_without_function
  | Tool_without_name
  | Tool_choice_auto
  | Tool_choice_unrecognized string
  | Tool_choice_without_name
  | Tool_choice_unknown string
  | Tool_choice_type
  | Schema_missing
  | Response_format_unsupported string
  | Grammar_and_format
  | Tool_and_constraint
  | Envelope_error schema_error
  | No_eos
  | Grammar_rejected grammar_error
  | Stream_with_tools
  | Stream_with_detection
  | Stream_with_logprobs
  | Stream_usage
  | Parallel_tool_calls

definition unwrap_or :: "'a \<Rightarrow> 'a option \<Rightarrow> 'a" where
  "unwrap_or d x = (case x of None \<Rightarrow> d | Some v \<Rightarrow> v)"

definition default_max_tokens :: nat where
  "default_max_tokens = 256"

definition sampler_from_request :: "sampler_config \<Rightarrow> f32 option \<Rightarrow> f32 option \<Rightarrow> nat option \<Rightarrow> sampler_config" where
  "sampler_from_request engine temperature top_p top_k =
    \<lparr>sc_temperature = unwrap_or (sc_temperature engine) temperature, sc_top_k = unwrap_or (sc_top_k engine) top_k,
     sc_top_p = unwrap_or (sc_top_p engine) top_p, sc_min_p = Fin 0\<rparr>"

definition request_stops :: "stop_param option \<Rightarrow> string list" where
  "request_stops stop = take 8 (filter (\<lambda>s. s \<noteq> []) (case stop of None \<Rightarrow> [] | Some s \<Rightarrow> into_vec s))"

text \<open>\<open>order\<close> is the iteration order of the map.\<close>

definition request_bias :: "((string \<times> f32) list \<Rightarrow> (string \<times> f32) list) \<Rightarrow> (string \<times> f32) list option \<Rightarrow> (token \<times> f32) list" where
  "request_bias order bias =
    List.map_filter (\<lambda>(k, v). map_option (\<lambda>i. (i, f32_clamp (Fin (- 100)) (Fin 100) v)) (parse_u32 (trim k)))
      (case bias of None \<Rightarrow> [] | Some kvs \<Rightarrow> order kvs)"

definition build_decode_ctrl ::
  "'g rng_ops \<Rightarrow> ((string \<times> f32) list \<Rightarrow> (string \<times> f32) list) \<Rightarrow> stop_param option \<Rightarrow> f32 option \<Rightarrow> f32 option \<Rightarrow> f32 option
     \<Rightarrow> (string \<times> f32) list option \<Rightarrow> nat option \<Rightarrow> 'g decode_control" where
  "build_decode_ctrl rg order stop presence frequency repeat bias seed =
    new_control rg \<lparr>pc_repeat = unwrap_or (Fin 1) repeat, pc_presence = unwrap_or (Fin 0) presence, pc_frequency = unwrap_or (Fin 0) frequency\<rparr>
      (request_bias order bias) seed (request_stops stop)"

section \<open>The constraint of a request\<close>

text \<open>\<^verbatim>\<open>Value::get\<close> with a string key.\<close>

fun json_get :: "json \<Rightarrow> string \<Rightarrow> json option" where
  "json_get (JObj kvs) k = map_of kvs k"
| "json_get _ k = None"

definition object_grammar :: string where
  "object_grammar = ''json_schema:{'' @ [CHR 0x22] @ ''type'' @ [CHR 0x22] @ '':'' @ [CHR 0x22] @ ''object'' @ [CHR 0x22] @ ''}''"

definition grammar_from_response_format :: "(json \<Rightarrow> string) \<Rightarrow> json \<Rightarrow> request_error + string option" where
  "grammar_from_response_format tj rf =
    (let ty = unwrap_or ''text'' (as_str (json_get rf ''type'')) in
     if ty = [] \<or> ty = ''text'' then Inr None
     else if ty = ''json_object'' then Inr (Some object_grammar)
     else if ty = ''json_schema''
     then (case Option.bind (json_get rf ''json_schema'') (\<lambda>j. json_get j ''schema'') of
         None \<Rightarrow> Inl Schema_missing
       | Some schema \<Rightarrow> Inr (Some (''json_schema:'' @ tj schema)))
     else Inl (Response_format_unsupported ty))"

definition resolve_constraint :: "(json \<Rightarrow> string) \<Rightarrow> string option \<Rightarrow> json option \<Rightarrow> request_error + string option" where
  "resolve_constraint tj grammar response_format =
    (case (case response_format of Some rf \<Rightarrow> grammar_from_response_format tj rf | None \<Rightarrow> Inr None) of
       Inl e \<Rightarrow> Inl e
     | Inr rf \<Rightarrow>
         (case grammar of
            Some g \<Rightarrow> if trim g = [] then Inr rf else if rf \<noteq> None then Inl Grammar_and_format else Inr (Some g)
          | None \<Rightarrow> Inr rf))"

datatype tool_plan = Forced string json | Choose "(string \<times> json) list"

definition empty_parameters :: json where
  "empty_parameters = JObj [(''type'', JStr ''object''), (''properties'', JObj [])]"

definition tool_name_params :: "json \<Rightarrow> request_error + string \<times> json" where
  "tool_name_params tool =
    (case json_get tool ''function'' of
       None \<Rightarrow> Inl Tool_without_function
     | Some func \<Rightarrow>
         (case as_str (json_get func ''name'') of
            None \<Rightarrow> Inl Tool_without_name
          | Some name \<Rightarrow> Inr (name, unwrap_or empty_parameters (json_get func ''parameters''))))"

fun collect_results :: "('e + 'a) list \<Rightarrow> 'e + 'a list" where
  "collect_results [] = Inr []"
| "collect_results (Inl e # rs) = Inl e"
| "collect_results (Inr x # rs) = (case collect_results rs of Inl e \<Rightarrow> Inl e | Inr xs \<Rightarrow> Inr (x # xs))"

definition tool_called :: "json \<Rightarrow> string option" where
  "tool_called t = Option.bind (json_get t ''function'') (\<lambda>f. as_str (json_get f ''name''))"

definition forced_tool :: "json \<Rightarrow> request_error + tool_plan option" where
  "forced_tool tool = (case tool_name_params tool of Inl e \<Rightarrow> Inl e | Inr (name, params) \<Rightarrow> Inr (Some (Forced name params)))"

definition resolve_tool_call :: "json option \<Rightarrow> json option \<Rightarrow> request_error + tool_plan option" where
  "resolve_tool_call tools tool_choice =
    (case tools of
       None \<Rightarrow> Inr None
     | Some (JArr []) \<Rightarrow> Inr None
     | Some (JArr ts) \<Rightarrow>
         (case tool_choice of
            None \<Rightarrow> Inl Tool_choice_auto
          | Some (JStr s) \<Rightarrow>
              if s = ''none'' then Inr None
              else if s = ''required''
              then (if length ts = 1 then forced_tool (ts ! 0)
                    else (case collect_results (map tool_name_params ts) of Inl e \<Rightarrow> Inl e | Inr rs \<Rightarrow> Inr (Some (Choose rs))))
              else if s = ''auto'' then Inl Tool_choice_auto
              else Inl (Tool_choice_unrecognized s)
          | Some (JObj kvs) \<Rightarrow>
              (case tool_called (JObj kvs) of
                 None \<Rightarrow> Inl Tool_choice_without_name
               | Some name \<Rightarrow>
                   (case find (\<lambda>t. tool_called t = Some name) ts of None \<Rightarrow> Inl (Tool_choice_unknown name) | Some t \<Rightarrow> forced_tool t))
          | Some _ \<Rightarrow> Inl Tool_choice_type)
     | Some _ \<Rightarrow> Inl Tools_not_array)"

text \<open>The grammar of the request, from a forced call or the constraint.\<close>

definition request_grammar :: "(json \<Rightarrow> string) \<Rightarrow> tool_plan option \<Rightarrow> string option \<Rightarrow> request_error + string option" where
  "request_grammar tj plan grammar =
    (case plan of
       None \<Rightarrow> Inr grammar
     | Some p \<Rightarrow>
         if grammar \<noteq> None then Inl Tool_and_constraint
         else (case p of
             Forced name params \<Rightarrow> Inr (Some (''json_schema:'' @ tj params))
           | Choose tools \<Rightarrow>
               (case tool_call_envelope_regex tj tools of Inl e \<Rightarrow> Inl (Envelope_error e) | Inr r \<Rightarrow> Inr (Some (''regex:'' @ r)))))"

definition starts_with :: "string \<Rightarrow> string \<Rightarrow> bool" where
  "starts_with p s = (take (length p) s = p)"

text \<open>The vocabulary table is built on first use and kept; the flag of the result is the kept table.\<close>

definition fsm_from_grammar :: "grammar_env \<Rightarrow> tokenizer \<Rightarrow> byte_table option \<Rightarrow> string \<Rightarrow> (request_error + logit_fsm) \<times> byte_table option" where
  "fsm_from_grammar ge tok kept grammar =
    (let g = dropWhile white grammar;
         needs_table = (starts_with ''regex:'' g \<or> starts_with ''json_schema:'' g \<or> starts_with ''json:'' g);
         compiled = (\<lambda>t. case compile_grammar ge grammar t of Inl e \<Rightarrow> Inl (Grammar_rejected e) | Inr f \<Rightarrow> Inr f)
     in if \<not> needs_table then (compiled None, kept)
        else (case kept of
            Some t \<Rightarrow> (compiled (Some t), kept)
          | None \<Rightarrow>
              (case eos_token_id tok of
                 None \<Rightarrow> (Inl No_eos, None)
               | Some eos \<Rightarrow> (let t = \<lparr>bt_bytes = token_bytes_table tok, bt_eos = eos\<rparr> in (compiled (Some t), Some t)))))"

section \<open>A chat request\<close>

text \<open>
  The state of the server a request touches before generation: the vocabulary table, the count of requests in flight. The guard of an
  admitted request is dropped by every later refusal.
\<close>

record app_state =
  ap_tokenizer :: tokenizer
  ap_table :: "byte_table option"
  ap_model_ctx :: nat
  ap_active :: nat
  ap_max_concurrent :: nat

record 'g chat_plan =
  cp_max_tokens :: nat
  cp_sampler :: sampler_config
  cp_ctrl :: "'g decode_control"
  cp_tool :: "tool_plan option"
  cp_fsm :: "logit_fsm option"

definition max_tokens_for :: "nat \<Rightarrow> nat \<Rightarrow> chat_request \<Rightarrow> nat" where
  "max_tokens_for ctx prompt_len req =
    (let wanted = unwrap_or default_max_tokens (or_else (cq_max_completion_tokens req) (cq_max_tokens req))
     in if 0 < ctx then min wanted (max (ctx - prompt_len) 1) else wanted)"

definition wants_usage :: "chat_request \<Rightarrow> bool" where
  "wants_usage req = (Option.bind (cq_stream_options req) (\<lambda>so. json_get so ''include_usage'') = Some (JBool True))"

text \<open>The refusals after the grammar has been compiled, in their order.\<close>

definition late_refusal :: "chat_request \<Rightarrow> tool_plan option \<Rightarrow> request_error option" where
  "late_refusal req plan =
    (if plan \<noteq> None \<and> cq_stream req then Some Stream_with_tools
     else if unwrap_or False (cq_detect_hallucination req) \<and> cq_stream req then Some Stream_with_detection
     else if unwrap_or False (cq_logprobs req) \<and> cq_stream req then Some Stream_with_logprobs
     else if wants_usage req then Some Stream_usage
     else if cq_parallel_tool_calls req = Some True \<and> cq_tools req \<noteq> None then Some Parallel_tool_calls
     else None)"

definition plan_chat ::
  "grammar_env \<Rightarrow> 'g rng_ops \<Rightarrow> ((string \<times> f32) list \<Rightarrow> (string \<times> f32) list) \<Rightarrow> sampler_config \<Rightarrow> token list option \<Rightarrow> chat_request \<Rightarrow> app_state
     \<Rightarrow> (request_error + 'g chat_plan) \<times> app_state" where
  "plan_chat ge rg order engine encoded req ap =
    (case encoded of
       None \<Rightarrow> (Inl Tokenize_failed, ap)
     | Some tokens \<Rightarrow>
         if 0 < ap_model_ctx ap \<and> ap_model_ctx ap \<le> length tokens
         then (Inl (Context_length_exceeded (ap_model_ctx ap) (length tokens)), ap)
         else (case admit (ap_max_concurrent ap) (ap_active ap) of
             (False, now) \<Rightarrow> (Inl (Saturated now (ap_max_concurrent ap)), ap\<lparr>ap_active := drop_guard now\<rparr>)
           | (True, now) \<Rightarrow>
               (let refused = (\<lambda>e table. (Inl e, ap\<lparr>ap_active := drop_guard now, ap_table := table\<rparr>));
                    table = ap_table ap
                in if 1 < unwrap_or 1 (cq_n req) then refused Several_choices table
                   else (case resolve_tool_call (cq_tools req) (cq_tool_choice req) of
                       Inl e \<Rightarrow> refused e table
                     | Inr plan \<Rightarrow>
                         (case resolve_constraint (ge_to_json ge) (cq_grammar req) (cq_response_format req) of
                            Inl e \<Rightarrow> refused e table
                          | Inr constraint \<Rightarrow>
                              (case request_grammar (ge_to_json ge) plan constraint of
                                 Inl e \<Rightarrow> refused e table
                               | Inr grammar \<Rightarrow>
                                   (case (case grammar of None \<Rightarrow> (Inr None, table)
                                          | Some g \<Rightarrow> (case fsm_from_grammar ge (ap_tokenizer ap) table g of
                                              (Inl e, t) \<Rightarrow> (Inl e, t) | (Inr f, t) \<Rightarrow> (Inr (Some f), t))) of
                                      (Inl e, t) \<Rightarrow> refused e t
                                    | (Inr fsm, t) \<Rightarrow>
                                        (case late_refusal req plan of
                                           Some e \<Rightarrow> refused e t
                                         | None \<Rightarrow>
                                             (Inr \<lparr>cp_max_tokens = max_tokens_for (ap_model_ctx ap) (length tokens) req,
                                                   cp_sampler = (sampler_from_request engine (cq_temperature req) (cq_top_p req) (cq_top_k req))
                                                     \<lparr>sc_min_p := unwrap_or (Fin 0) (cq_min_p req)\<rparr>,
                                                   cp_ctrl = build_decode_ctrl rg order (cq_stop req) (cq_presence_penalty req)
                                                     (cq_frequency_penalty req) (cq_repeat_penalty req) (cq_logit_bias req) (cq_seed req),
                                                   cp_tool = plan, cp_fsm = fsm\<rparr>,
                                              ap\<lparr>ap_active := now, ap_table := t\<rparr>)))))))))"

section \<open>The way a request takes\<close>

datatype route = Batch_route | Stream_route lane | Blocking_route lane

definition cb_chat_server :: "'g chat_env \<Rightarrow> bool \<Rightarrow> bool \<Rightarrow> bool" where
  "cb_chat_server env present eligible =
    (present \<and> eligible \<and> \<not> ce_inspection env \<and> \<not> ce_pld env \<and> \<not> ce_spec_decode env \<and> \<not> ce_early_exit env)"

definition route_chat :: "'g chat_env \<Rightarrow> bool \<Rightarrow> lane_flags \<Rightarrow> nat \<Rightarrow> chat_request \<Rightarrow> 'g chat_plan \<Rightarrow> route" where
  "route_chat env batch_server fl prompt_len req plan =
    (let detect = unwrap_or False (cq_detect_hallucination req); logprobs = unwrap_or False (cq_logprobs req) in
     if cb_chat_server env batch_server (cp_fsm plan = None \<and> \<not> detect \<and> \<not> logprobs \<and> \<not> modifies_logits (cp_ctrl plan) \<and>
          \<not> has_stops (cp_ctrl plan) \<and> cq_min_p req = None)
     then Batch_route
     else if cq_stream req then Stream_route (pick_stream_lane env fl prompt_len (cp_fsm plan \<noteq> None))
     else Blocking_route (pick_lane env (cp_sampler plan) fl prompt_len (cp_max_tokens plan) (cp_ctrl plan) (cp_fsm plan \<noteq> None) detect logprobs))"

text \<open>What comes back: text, or the call of a tool.\<close>

datatype chat_message = Content string | Tool_call string string

definition chat_message_of :: "grammar_env \<Rightarrow> tool_plan option \<Rightarrow> string \<Rightarrow> string \<Rightarrow> chat_message \<times> string" where
  "chat_message_of ge plan text_out finish_reason =
    (case plan of
       None \<Rightarrow> (Content text_out, finish_reason)
     | Some (Forced name params) \<Rightarrow> (Tool_call name text_out, ''tool_calls'')
     | Some (Choose tools) \<Rightarrow>
         (case ge_parse ge text_out of
            None \<Rightarrow> (Tool_call [] text_out, ''tool_calls'')
          | Some v \<Rightarrow>
              (Tool_call (unwrap_or [] (as_str (json_get v ''name'')))
                 (case json_get v ''arguments'' of Some a \<Rightarrow> ge_to_json ge a | None \<Rightarrow> ''{}''), ''tool_calls'')))"

text \<open>The answers of the batch server, up to a stop token or the end mark.\<close>

fun cb_collect :: "token \<Rightarrow> token \<Rightarrow> token option list \<Rightarrow> token list" where
  "cb_collect eos stop [] = []"
| "cb_collect eos stop (None # items) = []"
| "cb_collect eos stop (Some t # items) = (if t = eos \<or> t = stop then [] else t # cb_collect eos stop items)"

definition chat_stop_token :: "tokenizer \<Rightarrow> token \<times> token" where
  "chat_stop_token tok =
    (let eos = unwrap_or 128001 (eos_token_id tok)
     in (eos, unwrap_or eos (or_else (tk_id tok ''<|eot_id|>'') (tk_id tok ''<|im_end|>''))))"

section \<open>Admission bounds what runs\<close>

inductive_cases admission_stepE: "admission_step max_concurrent s s'"

lemma admission_step_keeps:
  assumes "admission_step max_concurrent s s'" "ad_active s = ad_running s + ad_leaving s \<and> ad_running s \<le> max_concurrent"
  shows "ad_active s' = ad_running s' + ad_leaving s' \<and> ad_running s' \<le> max_concurrent"
  using assms by (cases rule: admission_stepE) (auto simp: admit_def drop_guard_def Let_def)



section \<open>What an accepted request has\<close>

lemma plan_accepted:
  assumes "plan_chat ge rg order engine encoded req ap = (Inr plan, ap')"
  obtains prompt constraint grammar where "encoded = Some prompt" "0 < ap_model_ctx ap \<Longrightarrow> length prompt < ap_model_ctx ap"
    "cp_max_tokens plan = max_tokens_for (ap_model_ctx ap) (length prompt) req"
    "resolve_tool_call (cq_tools req) (cq_tool_choice req) = Inr (cp_tool plan)"
    "resolve_constraint (ge_to_json ge) (cq_grammar req) (cq_response_format req) = Inr constraint"
    "request_grammar (ge_to_json ge) (cp_tool plan) constraint = Inr grammar"
    "case grammar of None \<Rightarrow> cp_fsm plan = None
     | Some g \<Rightarrow> \<exists>f t. fsm_from_grammar ge (ap_tokenizer ap) (ap_table ap) g = (Inr f, t) \<and> cp_fsm plan = Some f"
    "cp_sampler plan = (sampler_from_request engine (cq_temperature req) (cq_top_p req) (cq_top_k req))\<lparr>sc_min_p := unwrap_or (Fin 0) (cq_min_p req)\<rparr>"
    "cp_ctrl plan = build_decode_ctrl rg order (cq_stop req) (cq_presence_penalty req) (cq_frequency_penalty req) (cq_repeat_penalty req)
       (cq_logit_bias req) (cq_seed req)"
  using assms unfolding plan_chat_def Let_def
  by (auto split: option.splits sum.splits prod.splits bool.splits if_splits)

text \<open>A request asks for a constraint by a tool it must call, by a JSON format, or by a grammar that is not blank.\<close>

definition asks_constraint :: "chat_request \<Rightarrow> bool" where
  "asks_constraint req =
    ((\<exists>p. resolve_tool_call (cq_tools req) (cq_tool_choice req) = Inr (Some p)) \<or>
     (\<exists>rf. cq_response_format req = Some rf \<and> as_str (json_get rf ''type'') \<in> {Some ''json_object'', Some ''json_schema''}) \<or>
     (\<exists>g. cq_grammar req = Some g \<and> trim g \<noteq> []))"

definition ban_list :: "string \<Rightarrow> bool" where
  "ban_list g = (strip ''ban:'' (trim g) \<noteq> None)"

lemma fsm_compiled:
  "fsm_from_grammar ge tok kept g = (Inr f, t') \<Longrightarrow> \<exists>t. compile_grammar ge g t = Inr f"
  by (auto simp: fsm_from_grammar_def Let_def split: option.splits if_splits sum.splits)

lemma dropWhile_stop: "\<forall>c \<in> set ys. \<not> P c \<Longrightarrow> dropWhile P (xs @ ys) = dropWhile P xs @ ys"
  by (induction xs) (cases ys, auto)

lemma trim_kept:
  assumes "\<forall>c \<in> set p. \<not> white c" "p \<noteq> []"
  shows "trim (p @ x) = p @ rev (dropWhile white (rev x))"
proof -
  have "dropWhile white (p @ x) = p @ x"
    using assms by (cases p) auto
  then show ?thesis
    using dropWhile_stop [of "rev p" white "rev x"] assms(1) by (simp add: trim_def)
qed

lemma trim_modes:
  "trim (''json_schema:'' @ x) = ''json_schema:'' @ rev (dropWhile white (rev x))"
  "trim (''regex:'' @ x) = ''regex:'' @ rev (dropWhile white (rev x))"
  by (rule trim_kept; simp add: white_def)+

lemma format_grammar:
  assumes "resolve_constraint tj grammar response_format = Inr c"
  shows "response_format = Some rf \<Longrightarrow> as_str (json_get rf ''type'') \<in> {Some ''json_object'', Some ''json_schema''} \<Longrightarrow>
      \<exists>x. c = Some (''json_schema:'' @ x)"
    and "grammar = Some g \<Longrightarrow> trim g \<noteq> [] \<Longrightarrow> c = Some g"
  using assms
  by (auto simp: resolve_constraint_def grammar_from_response_format_def object_grammar_def unwrap_or_def Let_def
      split: option.splits sum.splits if_splits)

lemma regex_modes:
  assumes "compile_grammar ge (m @ x) t = Inr f" "m \<in> {''json_schema:'', ''regex:''}"
  shows "lf_regex f \<noteq> None"
proof -
  have "trim (m @ x) = m @ rev (dropWhile white (rev x))"
    using assms(2) trim_modes [of x] by auto
  then have "strip ''ban:'' (trim (m @ x)) = None" "trim (m @ x) \<noteq> []"
    using assms(2) by (auto simp: strip_def)
  then show ?thesis
    using grammar_compile_result [OF assms(1)] by (cases "lf_regex f") auto
qed

text \<open>
  C17: A constraint is never dropped. A request that asks for one and is accepted has a compiled automaton, which carries a regular
  expression or is the list of banned tokens the caller wrote, and no configuration and no engine that is loaded takes it to an engine without masks: it runs on
  the CPU back end, streamed or not, and never on the batch server, the two-model path, the GPU or the Vulkan engine.
\<close>

theorem constraint_never_dropped:
  assumes "plan_chat ge rg order engine encoded req ap = (Inr plan, ap')" "asks_constraint req"
  shows "\<exists>g t f. cp_fsm plan = Some f \<and> compile_grammar ge g t = Inr f \<and>
    (lf_regex f \<noteq> None \<or> (cq_grammar req = Some g \<and> ban_list g)) \<and>
    route_chat env batch_server fl prompt_len req plan =
      (if cq_stream req then Stream_route Candle_lane else Blocking_route Candle_lane)"
proof -
  obtain constraint grammar where acc: "resolve_tool_call (cq_tools req) (cq_tool_choice req) = Inr (cp_tool plan)"
    "resolve_constraint (ge_to_json ge) (cq_grammar req) (cq_response_format req) = Inr constraint"
    "request_grammar (ge_to_json ge) (cp_tool plan) constraint = Inr grammar"
    and fsm: "case grammar of None \<Rightarrow> cp_fsm plan = None
     | Some g \<Rightarrow> \<exists>f t. fsm_from_grammar ge (ap_tokenizer ap) (ap_table ap) g = (Inr f, t) \<and> cp_fsm plan = Some f"
    by (rule plan_accepted [OF assms(1)]) blast
  have "\<exists>g. grammar = Some g \<and> ((\<exists>m \<in> {''json_schema:'', ''regex:''}. \<exists>x. g = m @ x) \<or> (cq_grammar req = Some g \<and> trim g \<noteq> []))"
  proof (cases "cp_tool plan")
    case None
    then have g: "grammar = constraint"
      using acc(3) by (simp add: request_grammar_def)
    from assms(2) None acc(1) consider
        rf where "cq_response_format req = Some rf" "as_str (json_get rf ''type'') \<in> {Some ''json_object'', Some ''json_schema''}"
      | h where "cq_grammar req = Some h" "trim h \<noteq> []"
      unfolding asks_constraint_def by auto
    then show ?thesis
      using format_grammar [OF acc(2)] g by cases blast+
  next
    case (Some p)
    then show ?thesis
      using acc(3) by (auto simp: request_grammar_def split: tool_plan.splits sum.splits if_splits)
  qed
  then obtain g where g: "grammar = Some g" "(\<exists>m \<in> {''json_schema:'', ''regex:''}. \<exists>x. g = m @ x) \<or> (cq_grammar req = Some g \<and> trim g \<noteq> [])"
    by blast
  then obtain f t where f: "cp_fsm plan = Some f" "compile_grammar ge g t = Inr f"
    using fsm fsm_compiled by fastforce
  have "lf_regex f \<noteq> None \<or> (cq_grammar req = Some g \<and> ban_list g)"
  proof (cases "\<exists>m \<in> {''json_schema:'', ''regex:''}. \<exists>x. g = m @ x")
    case True
    then show ?thesis
      using regex_modes [of ge _ _ t f] f(2) by blast
  next
    case False
    then show ?thesis
      using g(2) grammar_compile_result [OF f(2)] by (cases "lf_regex f") (auto simp: ban_list_def)
  qed
  moreover have "route_chat env batch_server fl prompt_len req plan =
      (if cq_stream req then Stream_route Candle_lane else Blocking_route Candle_lane)"
    by (simp add: route_chat_def cb_chat_server_def pick_stream_lane_def pick_lane_def f(1) Let_def)
  ultimately show ?thesis
    using f by blast
qed

section \<open>A request for a JSON document\<close>

text \<open>A tokenizer of the single bytes, a JSON package for the one schema, and the request.\<close>

definition byte_tokenizer :: tokenizer where
  "byte_tokenizer = \<lparr>tk_size = 257, tk_id = [''</s>'' \<mapsto> 256],
     tk_decode = (\<lambda>ts. case ts of [t] \<Rightarrow> Some (if t < 256 then [word_of_nat t] else []) | _ \<Rightarrow> None)\<rparr>"

definition null_schema :: json where
  "null_schema = JObj [(''const'', JNull)]"

definition schema_env :: grammar_env where
  "schema_env = \<lparr>ge_build = ge_build a_env, ge_parse = ge_parse a_env, ge_to_json = (\<lambda>v. if v = JNull then ''a'' else ''{}'')\<rparr>"

definition plain_fields :: chat_request where
  "plain_fields = \<lparr>cq_stream = False, cq_max_tokens = Some 4, cq_max_completion_tokens = None, cq_temperature = Some (Fin 0), cq_top_p = None,
     cq_top_k = None, cq_min_p = None, cq_seed = None, cq_stop = None, cq_presence_penalty = None, cq_frequency_penalty = None,
     cq_repeat_penalty = None, cq_logit_bias = None, cq_tools = None, cq_tool_choice = None, cq_n = None, cq_response_format = None,
     cq_stream_options = None, cq_parallel_tool_calls = None, cq_grammar = None, cq_detect_hallucination = None, cq_logprobs = None,
     cq_top_logprobs = None\<rparr>"

definition schema_request :: chat_request where
  "schema_request = plain_fields
     \<lparr>cq_response_format := Some (JObj [(''type'', JStr ''json_schema''), (''json_schema'', JObj [(''schema'', null_schema)])])\<rparr>"

definition byte_app :: app_state where
  "byte_app = \<lparr>ap_tokenizer = byte_tokenizer, ap_table = None, ap_model_ctx = 64, ap_active = 0, ap_max_concurrent = 2\<rparr>"

definition byte_engine :: logit_fsm where
  "byte_engine = \<lparr>lf_grammar = ''json_schema:{}'', lf_banned = [],
     lf_regex = Some (fresh_engine demo_dfa \<lparr>bt_bytes = token_bytes_table byte_tokenizer, bt_eos = 256\<rparr>)\<rparr>"

lemma byte_eos: "eos_token_id byte_tokenizer = Some 256"
  by (simp add: eos_token_id_def or_else_def byte_tokenizer_def)

lemma byte_fsm:
  "fsm_from_grammar schema_env byte_tokenizer None ''json_schema:{}'' =
    (Inr byte_engine, Some \<lparr>bt_bytes = token_bytes_table byte_tokenizer, bt_eos = 256\<rparr>)"
proof -
  have t: "trim (''json_schema:'' @ ''{}'') = ''json_schema:{}''" "trim ''{}'' = ''{}''"
    by (simp_all add: trim_def white_def)
  have "schema_to_regex (ge_to_json schema_env) null_schema = Inr ''a''"
    by (simp add: null_schema_def schema_to_regex_def max_depth_def unsupported_keywords_def literal_regex_def schema_env_def esc_def esc_char_def
        meta_chars_def)
  moreover have "ge_parse schema_env ''{}'' = Some null_schema"
    by (simp add: schema_env_def a_env_def null_schema_def)
  ultimately have "compile_grammar schema_env ''json_schema:{}'' (Some tb) = Inr \<lparr>lf_grammar = ''json_schema:{}'', lf_banned = [],
      lf_regex = Some (fresh_engine demo_dfa tb)\<rparr>" for tb
    using t by (simp add: compile_grammar_def strip_def regex_grammar_def compile_engine_def) (simp add: schema_env_def a_env_def)
  then show ?thesis
    by (simp add: fsm_from_grammar_def white_def starts_with_def byte_eos byte_engine_def Let_def)
qed

lemma schema_accepted:
  obtains plan ap' where "plan_chat schema_env rg order engine (Some [104]) schema_request byte_app = (Inr plan, ap')"
    "cp_fsm plan = Some byte_engine" "cp_max_tokens plan = 4"
proof -
  have resolved: "resolve_tool_call (cq_tools schema_request) (cq_tool_choice schema_request) = Inr None"
    "resolve_constraint (ge_to_json schema_env) (cq_grammar schema_request) (cq_response_format schema_request) = Inr (Some ''json_schema:{}'')"
    "request_grammar (ge_to_json schema_env) None (Some ''json_schema:{}'') = Inr (Some ''json_schema:{}'')"
    "late_refusal schema_request None = None" "cq_n schema_request = None"
    by (simp_all add: schema_request_def plain_fields_def resolve_tool_call_def resolve_constraint_def grammar_from_response_format_def
        unwrap_or_def request_grammar_def late_refusal_def wants_usage_def schema_env_def null_schema_def Let_def)
  have "fst (plan_chat schema_env rg order engine (Some [104]) schema_request byte_app) =
      Inr \<lparr>cp_max_tokens = max_tokens_for 64 1 schema_request,
        cp_sampler = (sampler_from_request engine (cq_temperature schema_request) (cq_top_p schema_request) (cq_top_k schema_request))
          \<lparr>sc_min_p := unwrap_or (Fin 0) (cq_min_p schema_request)\<rparr>,
        cp_ctrl = build_decode_ctrl rg order (cq_stop schema_request) (cq_presence_penalty schema_request) (cq_frequency_penalty schema_request)
          (cq_repeat_penalty schema_request) (cq_logit_bias schema_request) (cq_seed schema_request),
        cp_tool = None, cp_fsm = Some byte_engine\<rparr>"
    by (simp add: plan_chat_def byte_app_def admit_def resolved byte_fsm unwrap_or_def [of _ None])
  then show ?thesis
    using that by (cases "plan_chat schema_env rg order engine (Some [104]) schema_request byte_app")
      (auto simp: max_tokens_for_def schema_request_def plain_fields_def unwrap_or_def or_else_def)
qed

theorem constraint_never_dropped_witness:
  "\<exists>plan ap' f. plan_chat schema_env (ce_rng demo_chat_env) demo_order demo_greedy (Some [104]) schema_request byte_app = (Inr plan, ap') \<and>
    cp_fsm plan = Some f \<and> lf_regex f \<noteq> None \<and>
    route_chat demo_chat_env True \<lparr>lf_drafts_loaded = True, lf_gpu = Some 64, lf_vulkan = Some 512\<rparr> 1 schema_request plan = Blocking_route Candle_lane"
proof -
  obtain plan ap' where plan: "plan_chat schema_env (ce_rng demo_chat_env) demo_order demo_greedy (Some [104]) schema_request byte_app = (Inr plan, ap')"
    by (rule schema_accepted)
  have "asks_constraint schema_request"
    by (simp add: asks_constraint_def schema_request_def)
  moreover have "cq_grammar schema_request = None" "\<not> cq_stream schema_request"
    by (simp_all add: schema_request_def plain_fields_def)
  ultimately show ?thesis
    using constraint_never_dropped [OF plan, of demo_chat_env True "\<lparr>lf_drafts_loaded = True, lf_gpu = Some 64, lf_vulkan = Some 512\<rparr>" 1] plan
    by auto
qed

end
