(* ===== verification/StructuredRequest.thy ===== *)
theory StructuredRequest
  imports Requests
begin

text \<open>
  A structured request from its JSON to its answer: the gate and the constraint of \<open>Requests\<close>, the mask of \<open>Grammar\<close>, and generation
  on a pool slot (\<open>Chat\<close>). The lemmas follow one draw under the mask, the loop over the bare model, and what acceptance leaves of the
  context window; the theorem composes them.
\<close>

section \<open>One draw under the mask\<close>

definition finite_logits :: "f32 list \<Rightarrow> bool" where
  "finite_logits logits = list_all (\<lambda>l. l \<notin> {NaN, PosInf, NegInf}) logits"

lemma mask_open:
  assumes "lf_regex f = Some rx" "engine_ok rx" "good_succ_order ord" "lf_banned f = []"
    and "finite_logits logits" "length (bt_bytes (rx_table rx)) \<le> length logits"
    and "bt_eos (rx_table rx) < length (bt_bytes (rx_table rx))" "bt_bytes (rx_table rx) ! bt_eos (rx_table rx) = None"
    and "apply_mask ord logits f = (masked, f1)"
  shows "length masked = length logits" "NaN \<notin> set masked" "\<exists>t < length masked. masked ! t \<notin> {NaN, NegInf}"
proof -
  let ?d = "rx_dfa rx" and ?tb = "rx_table rx" and ?s = "rx_state rx"
  obtain m rx1 where a: "allowed_mask ord ?s rx = (m, rx1)"
    by (metis prod.exhaust)
  have m: "m = map (viable ?d ?tb ?s) [0 ..< length (bt_bytes ?tb)]"
    by (rule allowed_mask_correct(1) [OF assms(2,3) a])
  have masked: "masked = map (\<lambda>(t, l). if token_ok m (is_accept ?d ?s) (bt_eos ?tb) t then l else NegInf) (zip [0 ..< length logits] logits)"
    using assms(1,4,9) a by (simp add: apply_mask_def Let_def)
  then show len: "length masked = length logits"
    by simp
  have at: "masked ! t = (if token_ok m (is_accept ?d ?s) (bt_eos ?tb) t then logits ! t else NegInf)" if "t < length logits" for t
    using that by (simp add: masked)
  have fin: "logits ! t \<notin> {NaN, PosInf, NegInf}" if "t < length logits" for t
    using assms(5) that by (auto simp: finite_logits_def list_all_length)
  then show "NaN \<notin> set masked"
    using at len by (auto simp: in_set_conv_nth split: if_splits)
  have "\<exists>t < length logits. token_ok m (is_accept ?d ?s) (bt_eos ?tb) t"
  proof (cases "\<exists>u. viable ?d ?tb ?s u")
    case True
    then obtain u where u: "viable ?d ?tb ?s u"
      by blast
    then have "u < length (bt_bytes ?tb)" "u \<noteq> bt_eos ?tb"
      using assms(8) by (auto simp: viable_def)
    with u assms(6) show ?thesis
      by (intro exI [of _ u]) (simp add: token_ok_def m)
  next
    case False
    then have "token_ok m (is_accept ?d ?s) (bt_eos ?tb) (bt_eos ?tb)"
      by (auto simp: m token_ok_def)
    then show ?thesis
      using assms(6,7) by (intro exI [of _ "bt_eos ?tb"]) simp
  qed
  then show "\<exists>t < length masked. masked ! t \<notin> {NaN, NegInf}"
    using at fin len by auto
qed

lemma greedy_unmasked:
  assumes "NaN \<notin> set masked" "t < length masked" "masked ! t \<notin> {NaN, NegInf}"
  shows "greedy_index masked < length masked \<and> masked ! greedy_index masked \<noteq> NegInf"
proof -
  have ne: "masked \<noteq> []"
    using assms(2) by auto
  have "\<not> f32_lt (masked ! greedy_index masked) (masked ! t)"
    using greedy_index_correct(2) [OF ne assms(1)] assms(2) by auto
  then have "masked ! greedy_index masked \<noteq> NegInf"
    using assms(3) by (cases "masked ! t") auto
  with greedy_index_correct(1) [OF ne] show ?thesis
    by simp
qed

text \<open>What a greedy request under a mask starts with; the loop keeps it.\<close>

definition masked_request :: "'g chat_env \<Rightarrow> sampler_config \<Rightarrow> 'g decode_control \<Rightarrow> bool" where
  "masked_request env cfg c =
    (sc_temperature cfg = Fin 0 \<and> \<not> modifies_logits c \<and> dc_stops c = [] \<and> (\<forall>i. \<not> ce_timeout env i) \<and> good_succ_order (ce_succ_order env))"

text \<open>The vocabulary of the model and the byte table of the tokenizer: stop tokens spell nothing, the end of sequence among them.\<close>

definition table_fits :: "token list \<Rightarrow> 'r llama \<Rightarrow> byte_table \<Rightarrow> bool" where
  "table_fits stops L tb =
    ((\<forall>x. finite_logits (ll_head L x) \<and> length (bt_bytes tb) \<le> length (ll_head L x) \<and> length (ll_head L x) \<le> 2 ^ 32) \<and>
     bt_eos tb \<in> set stops \<and> (\<forall>t \<in> set stops. t < length (bt_bytes tb) \<and> bt_bytes tb ! t = None))"

lemma choose_masked:
  assumes "masked_request env cfg (gn_ctrl g)" "table_fits (ce_stops env) L (rx_table rx)"
    and "gn_fsm g = Some f" "lf_regex f = Some rx" "engine_ok rx" "lf_banned f = []"
  obtains t g1 f1 where "choose_token env cfg (model_logits L ctx) g = Some (t, g1)" "gn_fsm g1 = Some f1" "gn_ctrl g1 = gn_ctrl g"
    "sampled (ce_succ_order env) (model_logits L ctx) f t f1"
proof -
  let ?l = "model_logits L ctx"
  obtain masked f' where ap: "apply_mask (ce_succ_order env) ?l f = (masked, f')"
    by (metis prod.exhaust)
  have tb: "finite_logits ?l" "length (bt_bytes (rx_table rx)) \<le> length ?l" "length ?l \<le> 2 ^ 32"
    "bt_eos (rx_table rx) < length (bt_bytes (rx_table rx))" "bt_bytes (rx_table rx) ! bt_eos (rx_table rx) = None"
    using assms(2) by (auto simp: table_fits_def model_logits_def)
  have ord: "good_succ_order (ce_succ_order env)"
    using assms(1) by (simp add: masked_request_def)
  note M = mask_open [OF assms(4,5) ord assms(6) tb(1,2,4,5) ap]
  have pick: "greedy_index masked < length masked" "masked ! greedy_index masked \<noteq> NegInf"
    using greedy_unmasked [OF M(2)] M(3) by blast+
  then have id: "u32_of (greedy_index masked) = greedy_index masked"
    using M(1) tb(3) by (simp add: u32_of_def)
  have "f32_le (sc_temperature cfg) (Fin 0)" "\<not> modifies_logits (gn_ctrl g)" "is_active f"
    using assms(1,4) by (simp_all add: masked_request_def f32_le_def is_active_def)
  moreover have "is_active f'"
    using ap assms(4) by (auto simp: apply_mask_def is_active_def Let_def split: prod.splits)
  ultimately have "\<exists>g1. choose_token env cfg ?l g = Some (greedy_index masked, g1) \<and> gn_fsm g1 = Some (advance (greedy_index masked) f') \<and>
      gn_ctrl g1 = gn_ctrl g"
    by (simp add: choose_token_def assms(3) ap sample_token_def sample_with_rng_def id Let_def split: option.split)
  moreover have "sampled (ce_succ_order env) ?l f (greedy_index masked) (advance (greedy_index masked) f')"
    using pick by (simp add: sampled_def ap)
  ultimately show ?thesis
    using that by blast
qed

section \<open>The loop under the mask\<close>

lemma masked_steady:
  "masked_request env cfg c \<Longrightarrow> observe t c = c"
  "masked_request env cfg c \<Longrightarrow> observe_prompt_tail p n c = c"
  "masked_request env cfg c \<Longrightarrow> \<not> stop_string_hit env c out"
  by (simp_all add: masked_request_def observe_def observe_prompt_tail_def modifies_logits_def stop_string_hit_def has_stops_def)

text \<open>
  The tokens of the loop are a run under the mask; it ends when the limit is reached or when the mask lets the end of sequence through.
\<close>

lemma model_loop_masked:
  assumes "masked_request env cfg (gn_ctrl g)" "table_fits (ce_stops env) L (rx_table rx)"
    and "lf_regex f0 = Some rx" "engine_ok rx" "lf_banned f0 = []"
    and "gn_fsm g = Some f" "decode_run (ce_succ_order env) f0 (gn_out g) f" "bt_eos (rx_table rx) \<notin> set (gn_out g)"
  shows "\<exists>stopped g' f'. model_loop env cfg L i n g = Some (stopped, g') \<and>
    decode_run (ce_succ_order env) f0 (gn_out g') f' \<and> bt_eos (rx_table rx) \<notin> set (gn_out g') \<and>
    (stopped \<longrightarrow> (\<exists>logits f''. sampled (ce_succ_order env) logits f' (bt_eos (rx_table rx)) f'')) \<and>
    length (gn_out g') \<le> length (gn_out g) + n \<and> (\<not> stopped \<longrightarrow> length (gn_out g') = length (gn_out g) + n)"
  using assms(1,6-8)
proof (induction n arbitrary: i g f)
  case 0
  then show ?case
    by (intro exI [of _ False] exI [of _ g] exI [of _ f]) simp
next
  case (Suc n)
  have ord: "good_succ_order (ce_succ_order env)"
    using Suc.prems(1) by (simp add: masked_request_def)
  obtain rx' where R: "lf_regex f = Some rx'" "engine_ok rx'" "rx_table rx' = rx_table rx" "lf_banned f = []"
    using decode_run_text [OF Suc.prems(3) assms(3,4) ord] Suc.prems(4) assms(5) by auto
  have fits: "table_fits (ce_stops env) L (rx_table rx')"
    using assms(2) R(3) by simp
  obtain t g1 f1 where ch: "choose_token env cfg (model_logits L (gn_all g)) g = Some (t, g1)"
    and g1: "gn_fsm g1 = Some f1" "gn_ctrl g1 = gn_ctrl g" and drawn: "sampled (ce_succ_order env) (model_logits L (gn_all g)) f t f1"
    by (rule choose_masked [OF Suc.prems(1) fits Suc.prems(2) R(1,2,4)])
  note fr = choose_frame [OF ch]
  have time: "\<not> ce_timeout env i"
    using Suc.prems(1) by (simp add: masked_request_def)
  show ?case
  proof (cases "t \<in> set (ce_stops env)")
    case True
    then have "bt_bytes (rx_table rx') ! t = None"
      using fits by (simp add: table_fits_def)
    then have "t = bt_eos (rx_table rx)"
      using sampled_cases [OF R(1,2) ord drawn] R(3) by auto
    then show ?thesis
      using True ch time fr(2) Suc.prems(3,4) drawn by (intro exI [of _ True] exI [of _ g1] exI [of _ f]) auto
  next
    case False
    let ?g2 = "push_token t g1"
    have "gn_ctrl ?g2 = gn_ctrl g" and keep: "masked_request env cfg (gn_ctrl ?g2)"
      using masked_steady(1) [OF Suc.prems(1)] g1(2) Suc.prems(1) by simp_all
    have run: "decode_run (ce_succ_order env) f0 (gn_out ?g2) f1"
      using run_snoc [OF Suc.prems(3) drawn] fr(2) by simp
    have "bt_eos (rx_table rx) \<in> set (ce_stops env)"
      using assms(2) by (simp add: table_fits_def)
    then have "bt_eos (rx_table rx) \<notin> set (gn_out ?g2)"
      using False Suc.prems(4) fr(2) by auto
    from Suc.IH [OF keep _ run this, of "Suc i"] show ?thesis
      using ch time False masked_steady(3) [OF keep] fr(2) g1(1) by (simp add: Let_def)
  qed
qed

section \<open>What acceptance gives\<close>

text \<open>A request for JSON of a schema, and the fields that keep sampling greedy.\<close>

definition asks_schema :: "chat_request \<Rightarrow> json \<Rightarrow> bool" where
  "asks_schema req schema =
    (\<exists>rf. cq_response_format req = Some rf \<and> as_str (json_get rf ''type'') = Some ''json_schema'' \<and>
       Option.bind (json_get rf ''json_schema'') (\<lambda>j. json_get j ''schema'') = Some schema)"

definition greedy_fields :: "chat_request \<Rightarrow> bool" where
  "greedy_fields req =
    (cq_temperature req = Some (Fin 0) \<and> cq_presence_penalty req = None \<and> cq_frequency_penalty req = None \<and> cq_repeat_penalty req = None \<and>
     cq_logit_bias req = None \<and> cq_stop req = None)"

lemma greedy_plan:
  assumes "plan_chat ge rg order engine encoded req ap = (Inr plan, ap')" "greedy_fields req" "order [] = []"
    and "\<forall>i. \<not> ce_timeout env i" "good_succ_order (ce_succ_order env)"
  shows "masked_request env (cp_sampler plan) (cp_ctrl plan)"
proof -
  have "cp_sampler plan = (sampler_from_request engine (cq_temperature req) (cq_top_p req) (cq_top_k req))\<lparr>sc_min_p := unwrap_or (Fin 0) (cq_min_p req)\<rparr>"
    "cp_ctrl plan = build_decode_ctrl rg order (cq_stop req) (cq_presence_penalty req) (cq_frequency_penalty req) (cq_repeat_penalty req)
       (cq_logit_bias req) (cq_seed req)"
    by (rule plan_accepted [OF assms(1)], assumption)+
  then show ?thesis
    using assms(2-5)
    by (simp add: masked_request_def greedy_fields_def sampler_from_request_def build_decode_ctrl_def new_control_def modifies_logits_def
        penalties_active_def unwrap_or_def request_bias_def request_stops_def map_filter_def)
qed

text \<open>The clamp of \<^verbatim>\<open>max_tokens\<close> leaves a request that fits the window.\<close>

lemma accepted_fits:
  assumes "plan_chat ge rg order engine (Some prompt) req ap = (Inr plan, ap')" "ap_model_ctx ap = ll_max_seq L" "0 < ll_max_seq L"
    and "vocab_ok L" "prompt \<noteq> []" "known L prompt"
  shows "request_fits L prompt (cp_max_tokens plan)"
proof -
  have "length prompt < ap_model_ctx ap" "cp_max_tokens plan = max_tokens_for (ap_model_ctx ap) (length prompt) req"
    by (rule plan_accepted [OF assms(1)], use assms(2,3) in simp)+
  then show ?thesis
    using assms(2-6) by (auto simp: request_fits_def max_tokens_for_def Let_def min_def max_def split: if_splits)
qed

text \<open>The table of the tokenizer, and the table the server has built once.\<close>

definition tokenizer_table :: "tokenizer \<Rightarrow> token \<Rightarrow> byte_table" where
  "tokenizer_table tok eos = \<lparr>bt_bytes = token_bytes_table tok, bt_eos = eos\<rparr>"

lemma fsm_of_schema:
  assumes "eos_token_id tok = Some eos" "kept \<in> {None, Some (tokenizer_table tok eos)}"
    and "fsm_from_grammar ge tok kept (''json_schema:'' @ x) = (Inr f, t')"
  shows "compile_grammar ge (''json_schema:'' @ x) (Some (tokenizer_table tok eos)) = Inr f"
proof -
  have "dropWhile white (''json_schema:'' @ x) = ''json_schema:'' @ x"
    by (simp add: white_def)
  then show ?thesis
    using assms by (auto simp: fsm_from_grammar_def starts_with_def tokenizer_table_def Let_def split: option.splits sum.splits)
qed

lemma schema_plan:
  assumes "plan_chat ge rg order engine encoded req ap = (Inr plan, ap')" "asks_schema req schema"
    and "eos_token_id (ap_tokenizer ap) = Some eos" "ap_table ap \<in> {None, Some (tokenizer_table (ap_tokenizer ap) eos)}"
  obtains f where "cp_fsm plan = Some f"
    "compile_grammar ge (''json_schema:'' @ ge_to_json ge schema) (Some (tokenizer_table (ap_tokenizer ap) eos)) = Inr f"
proof -
  obtain constraint grammar where acc:
    "resolve_constraint (ge_to_json ge) (cq_grammar req) (cq_response_format req) = Inr constraint"
    "request_grammar (ge_to_json ge) (cp_tool plan) constraint = Inr grammar"
    and fsm: "case grammar of None \<Rightarrow> cp_fsm plan = None
     | Some g \<Rightarrow> \<exists>f t. fsm_from_grammar ge (ap_tokenizer ap) (ap_table ap) g = (Inr f, t) \<and> cp_fsm plan = Some f"
    by (rule plan_accepted [OF assms(1)]) blast
  have "constraint = Some (''json_schema:'' @ ge_to_json ge schema)"
    using acc(1) assms(2)
    by (auto simp: asks_schema_def resolve_constraint_def grammar_from_response_format_def unwrap_or_def Let_def split: option.splits if_splits)
  then have "grammar = Some (''json_schema:'' @ ge_to_json ge schema)"
    using acc(2) by (auto simp: request_grammar_def split: option.splits)
  then show ?thesis
    using fsm that fsm_of_schema [OF assms(3,4)] by fastforce
qed

lemma trimmed_end: "trim t = t \<Longrightarrow> dropWhile white (rev t) = rev t"
proof -
  assume t: "trim t = t"
  have "length (trim t) \<le> length (dropWhile white t)"
    using length_dropWhile_le [of white "rev (dropWhile white t)"] by (simp add: trim_def)
  moreover have "length (takeWhile white t) + length (dropWhile white t) = length t"
    by (metis length_append takeWhile_dropWhile_id)
  ultimately have "length (takeWhile white t) = 0"
    unfolding t by linarith
  then have "dropWhile white t = t"
    using takeWhile_dropWhile_id [of white t] by simp
  then show ?thesis
    using t by (simp add: trim_def rev_swap)
qed

text \<open>Documented behaviour of the JSON package: the text it writes has no blanks around it and reads back as the same value.\<close>

definition json_text_ok :: "grammar_env \<Rightarrow> json \<Rightarrow> bool" where
  "json_text_ok ge v = (trim (ge_to_json ge v) = ge_to_json ge v \<and> ge_parse ge (ge_to_json ge v) = Some v)"

text \<open>
  The answer to a request for a schema that was not cut: a document of the schema, or a text that no token of the vocabulary can
  continue (not with a token for every byte), or anything when the schema has no documents.
\<close>

definition schema_answer :: "grammar_env \<Rightarrow> (string \<Rightarrow> rx) \<Rightarrow> json \<Rightarrow> byte_table \<Rightarrow> logit_fsm \<Rightarrow> token list \<Rightarrow> bool" where
  "schema_answer ge pat schema tb f ts =
    ((\<forall>w. text_of tb ts = utf8 w \<longrightarrow> valid (ge_to_json ge) pat schema 0 w) \<or>
     (\<not> byte_complete tb \<and> (\<exists>rx s. lf_regex f = Some rx \<and> walk (rx_dfa rx) (rx_state rx) (text_of tb ts) = Some s \<and>
       (\<forall>u. \<not> viable (rx_dfa rx) tb s u))) \<or>
     (\<nexists>w. valid (ge_to_json ge) pat schema 0 w))"

lemma masked_answer:
  assumes "compile_grammar ge (''json_schema:'' @ ge_to_json ge schema) (Some tb) = Inr f" "json_text_ok ge schema"
    and "patterns_ok pat schema" "builder_ok ge" "good_succ_order ord"
    and "decode_run ord f ts f'" "bt_eos tb \<notin> set ts" "sampled ord logits f' (bt_eos tb) f''"
  shows "schema_answer ge pat schema tb f ts"
proof -
  have t: "trim (''json_schema:'' @ ge_to_json ge schema) = ''json_schema:'' @ ge_to_json ge schema"
    "ge_parse ge (trim (ge_to_json ge schema)) = Some schema"
    using assms(2) trimmed_end [of "ge_to_json ge schema"] by (simp_all only: json_text_ok_def trim_modes rev_rev_ident simp_thms)
  obtain d where d: "lf_regex f = Some (fresh_engine d tb)" and acc: "\<And>w. accepts_text d (utf8 w) \<longleftrightarrow> valid (ge_to_json ge) pat schema 0 w"
    using schema_engine [OF assms(1) t assms(3,4)] by blast
  obtain s where s: "walk d (dfa_start d) (text_of tb ts) = Some s" "is_accept d s \<or> (\<forall>u. \<not> viable d tb s u)"
    "byte_complete tb \<Longrightarrow> live d (dfa_start d) \<Longrightarrow> is_accept d s"
    using run_to_eos [OF d assms(5-8)] by blast
  have "valid (ge_to_json ge) pat schema 0 w" if "is_accept d s" "text_of tb ts = utf8 w" for w
    using that s(1) acc [of w] by (simp add: accepts_text_def)
  moreover have "live d (dfa_start d)" if "valid (ge_to_json ge) pat schema 0 w" for w
    using that acc [of w] accepts_live by blast
  ultimately show ?thesis
    using d s unfolding schema_answer_def by (auto simp: fresh_engine_def)
qed

lemma schema_engine_open:
  assumes "compile_grammar ge (''json_schema:'' @ ge_to_json ge schema) (Some tb) = Inr f" "json_text_ok ge schema"
  obtains d where "lf_regex f = Some (fresh_engine d tb)" "lf_banned f = []"
  using assms trimmed_end [of "ge_to_json ge schema"]
  by (auto simp: compile_grammar_def json_text_ok_def trim_modes(1) [simplified] strip_def regex_grammar_def compile_engine_def Let_def
      split: option.splits sum.splits)


section \<open>A model of single bytes\<close>

definition byte_llama :: "f32 llama" where
  "byte_llama = demo_llama\<lparr>ll_embed := (\<lambda>t. if t < 257 then Some [Fin 0] else None), ll_head := (\<lambda>x. replicate 257 (Fin 0))\<rparr>"

definition byte_slot :: "f32 backend_slot" where
  "byte_slot = \<lparr>sl_backend = \<lparr>cb_model = Some byte_llama, cb_n_layers = 1, cb_hidden_size = 1, cb_index_pos = 0, cb_max_seq_cap = 512,
     cb_kv = kv_of byte_llama []\<rparr>, sl_prompt_cache = [], sl_draft = None, sl_draft_prompt_cache = []\<rparr>"

definition byte_env :: "unit chat_env" where
  "byte_env = demo_chat_env\<lparr>ce_stops := [256]\<rparr>"

lemma byte_model: "vocab_ok byte_llama" "slot_holds byte_llama [] byte_slot" "known byte_llama [104]" "ll_max_seq byte_llama = 64"
proof -
  show "vocab_ok byte_llama"
    by (auto simp: vocab_ok_def llama_ok_def byte_llama_def demo_llama_def intro!: exI [of _ 257])
  show "slot_holds byte_llama [] byte_slot"
    by (simp add: slot_holds_def in_sync_def byte_slot_def)
  show "known byte_llama [104]" "ll_max_seq byte_llama = 64"
    by (simp_all add: known_def byte_llama_def demo_llama_def)
qed

lemma byte_table_length: "length (token_bytes_table byte_tokenizer) = 257" "token_bytes_table byte_tokenizer ! 256 = None"
proof -
  show "length (token_bytes_table byte_tokenizer) = 257"
    by (simp add: token_bytes_table_def byte_tokenizer_def)
  have "[0 ..< 257] ! 256 = (256 :: nat)"
    by (subst nth_upt) auto
  then show "token_bytes_table byte_tokenizer ! 256 = None"
    unfolding token_bytes_table_def by (subst nth_map) (simp_all add: byte_tokenizer_def del: upt_rec_numeral)
qed

lemma byte_table_fits: "table_fits (ce_stops byte_env) byte_llama (tokenizer_table byte_tokenizer 256)"
  using byte_table_length
  by (simp add: table_fits_def tokenizer_table_def byte_env_def byte_llama_def finite_logits_def list_all_iff)

lemma byte_builder: "builder_ok schema_env"
  using a_builder_ok by (simp add: builder_ok_def schema_env_def)


end
