(* ===== verification/ChatTemplate.thy ===== *)
theory ChatTemplate
  imports Hooks "HOL-Library.Signed_Division"
begin

text \<open>
  \<^verbatim>\<open>src/src/server/chat_template.rs\<close>: the chat metadata of a model file and the date a template can ask for. The template engine
  is not modelled. The lemmas show that the days of \<^verbatim>\<open>civil_from_days\<close> follow one another as in the Gregorian calendar, year by
  year (the start of every year of an era is evaluated) and month by month.
\<close>

section \<open>The metadata of a model file\<close>

record chat_meta =
  cm_template :: "string option"
  cm_stop_ids :: "nat list"
  cm_bos_id :: "nat option"

text \<open>
  The metadata of the file as far as it is read: the entries that convert to a string and those that convert to a 32-bit number.
  No file, or one that does not parse, is \<open>None\<close>.
\<close>

record file_metadata =
  fm_string :: "string \<Rightarrow> string option"
  fm_u32 :: "string \<Rightarrow> nat option"

definition push_new :: "nat option \<Rightarrow> nat list \<Rightarrow> nat list" where
  "push_new i is = (case i of None \<Rightarrow> is | Some t \<Rightarrow> if t \<in> set is then is else is @ [t])"

definition read_gguf_chat_meta :: "file_metadata option \<Rightarrow> chat_meta" where
  "read_gguf_chat_meta file =
    (case file of
       None \<Rightarrow> \<lparr>cm_template = None, cm_stop_ids = [], cm_bos_id = None\<rparr>
     | Some md \<Rightarrow>
         \<lparr>cm_template = fm_string md ''tokenizer.chat_template'',
          cm_stop_ids = foldl (\<lambda>is key. push_new (fm_u32 md key) is) []
            [''tokenizer.ggml.eos_token_id'', ''tokenizer.ggml.eot_token_id'', ''tokenizer.ggml.eom_token_id''],
          cm_bos_id = fm_u32 md ''tokenizer.ggml.bos_token_id''\<rparr>)"

section \<open>The date\<close>

text \<open>Quotients truncate; the differences that the code reads as unsigned are never negative.\<close>

definition civil_from_days :: "int \<Rightarrow> int \<times> int \<times> int" where
  "civil_from_days days =
    (let z = days + 719468;
         era = (if 0 \<le> z then z else z - 146096) sdiv 146097;
         doe = z - era * 146097;
         yoe = (doe - doe div 1460 + doe div 36524 - doe div 146096) div 365;
         y = yoe + era * 400;
         doy = doe - (365 * yoe + yoe div 4 - yoe div 100);
         mp = (5 * doy + 2) div 153;
         d = doy - (153 * mp + 2) div 5 + 1;
         m = (if mp < 10 then mp + 3 else mp - 9)
     in (if m \<le> 2 then y + 1 else y, m, d))"

text \<open>\<^verbatim>\<open>str::replace\<close> for a pattern that is not empty.\<close>

function replace_all :: "string \<Rightarrow> string \<Rightarrow> string \<Rightarrow> string" where
  "replace_all pat rep s =
    (if pat = [] then s
     else if take (length pat) s = pat then rep @ replace_all pat rep (drop (length pat) s)
     else (case s of [] \<Rightarrow> [] | c # cs \<Rightarrow> c # replace_all pat rep cs))"
  by pat_completeness auto
termination
proof (relation "measure (\<lambda>(pat, rep, s). length s)")
  show "((pat, rep, drop (length pat) s), pat, rep, s) \<in> measure (\<lambda>(pat, rep, s). length s)"
    if "pat \<noteq> []" "take (length pat) s = pat" for pat rep s :: string
    using that by (cases s) auto
qed auto

definition two_digits :: "int \<Rightarrow> string" where
  "two_digits n = (if n < 10 then ''0'' else []) @ decimal (nat n)"

definition mon_s :: "string list" where
  "mon_s = [''Jan'', ''Feb'', ''Mar'', ''Apr'', ''May'', ''Jun'', ''Jul'', ''Aug'', ''Sep'', ''Oct'', ''Nov'', ''Dec'']"

definition mon_l :: "string list" where
  "mon_l = [''January'', ''February'', ''March'', ''April'', ''May'', ''June'', ''July'', ''August'', ''September'', ''October'',
    ''November'', ''December'']"

text \<open>\<open>secs\<close> is the clock: seconds since the epoch, so the year has no sign.\<close>

definition strftime_now :: "nat \<Rightarrow> string \<Rightarrow> string" where
  "strftime_now secs fmt =
    (case civil_from_days (int (secs div 86400)) of
       (y, m, d) \<Rightarrow>
         replace_all ''%y'' (two_digits (y mod 100))
           (replace_all ''%Y'' (decimal (nat y))
             (replace_all ''%b'' (mon_s ! nat (m - 1))
               (replace_all ''%B'' (mon_l ! nat (m - 1)) (replace_all ''%m'' (two_digits m) (replace_all ''%d'' (two_digits d) fmt))))))"

section \<open>The Gregorian calendar\<close>

definition leap_year :: "int \<Rightarrow> bool" where
  "leap_year y = (y mod 4 = 0 \<and> (y mod 100 \<noteq> 0 \<or> y mod 400 = 0))"

definition month_length :: "int \<Rightarrow> int \<Rightarrow> int" where
  "month_length y m = (if m = 2 then (if leap_year y then 29 else 28) else if m \<in> {4, 6, 9, 11} then 30 else 31)"

fun next_day :: "int \<times> int \<times> int \<Rightarrow> int \<times> int \<times> int" where
  "next_day (y, m, d) =
    (if d < month_length y m then (y, m, d + 1) else if m < 12 then (y, m + 1, 1) else (y + 1, 1, 1))"

text \<open>Years of an era begin in March; the first day of the year \<open>y\<close> of the era, counted from its beginning.\<close>

definition year_start :: "int \<Rightarrow> int" where
  "year_start y = (if y = 400 then 146097 else 365 * y + y div 4 - y div 100)"

definition year_of :: "int \<Rightarrow> int" where
  "year_of doe = (doe - doe div 1460 + doe div 36524 - doe div 146096) div 365"

lemma year_ends: "\<forall>y \<in> set [0..399]. year_of (year_start y) = y \<and> year_of (year_start (y + 1) - 1) = y \<and>
    year_start (y + 1) - year_start y = (if leap_year (y + 1) then 366 else 365) \<and> 0 \<le> year_start y \<and> year_start (y + 1) \<le> 146097"
  by code_simp

lemma year_of_mono:
  assumes "0 \<le> a" "a \<le> b" "b < 146097"
  shows "year_of a \<le> year_of b"
proof -
  have grow: "a - a div 1460 \<le> b - b div 1460"
  proof -
    have "b div 1460 \<le> (a + 1460 * (b - a)) div 1460"
      using assms by (intro zdiv_mono1) auto
    then show ?thesis
      by simp
  qed
  have quarter: "a div 36524 \<le> b div 36524"
    using assms by (intro zdiv_mono1) auto
  have "a - a div 1460 + a div 36524 - a div 146096 \<le> b - b div 1460 + b div 36524 - b div 146096"
  proof (cases "b = 146096")
    case True
    then show ?thesis
    proof (cases "a = 146096")
      case False
      have "a - a div 1460 \<le> 145996"
      proof -
        have "146095 div 1460 \<le> (a + 1460 * (146095 - a)) div (1460 :: int)"
          using assms True False by (intro zdiv_mono1) auto
        then show ?thesis
          by simp
      qed
      moreover have "a div 36524 \<le> 3"
      proof -
        have "a div 36524 \<le> 146095 div 36524"
          using assms True False by (intro zdiv_mono1) auto
        then show ?thesis
          by simp
      qed
      moreover have "a div 146096 = 0"
        using assms True False by simp
      ultimately show ?thesis
        by (simp add: True)
    qed simp
  next
    case False
    then show ?thesis
      using assms grow quarter by simp
  qed
  then show ?thesis
    unfolding year_of_def by (intro zdiv_mono1) auto
qed

lemma year_exists:
  assumes "0 \<le> doe" "doe < year_start (int n)" "n \<le> 400"
  shows "\<exists>y \<in> set [0..int n - 1]. year_start y \<le> doe \<and> doe < year_start (y + 1)"
  using assms(2-3)
proof (induction n)
  case 0
  then show ?case
    using assms(1) by (simp add: year_start_def)
next
  case (Suc n)
  show ?case
  proof (cases "doe < year_start (int n)")
    case True
    then obtain y where "y \<in> set [0..int n - 1]" "year_start y \<le> doe \<and> doe < year_start (y + 1)"
      using Suc by auto
    then show ?thesis
      by (intro bexI [of _ y]) auto
  next
    case False
    then show ?thesis
      using Suc.prems by (intro bexI [of _ "int n"]) (auto simp: add.commute)
  qed
qed

lemma year_between:
  assumes "0 \<le> doe" "doe < 146097"
  obtains y where "0 \<le> y" "y \<le> 399" "year_start y \<le> doe" "doe < year_start (y + 1)" "year_of doe = y"
proof -
  obtain y where y: "y \<in> set [0..399]" "year_start y \<le> doe" "doe < year_start (y + 1)"
    using year_exists [of doe 400] assms by (auto simp: year_start_def)
  have ends: "year_of (year_start y) = y" "year_of (year_start (y + 1) - 1) = y"
    using year_ends y(1) by blast+
  have "0 \<le> year_start y" "year_start (y + 1) \<le> 146097"
    using year_ends y(1) by blast+
  then have "year_of doe = y"
    using year_of_mono [of "year_start y" doe] year_of_mono [of doe "year_start (y + 1) - 1"] ends y assms by auto
  with y that [of y] show ?thesis
    by auto
qed

text \<open>The day of a year that begins in March: its month and the day in it.\<close>

definition month_day :: "int \<Rightarrow> int \<times> int" where
  "month_day doy =
    (let mp = (5 * doy + 2) div 153 in (if mp < 10 then mp + 3 else mp - 9, doy - (153 * mp + 2) div 5 + 1))"

text \<open>The months of such a year follow one another; February is the last.\<close>

lemma months: "\<forall>doy \<in> set [0..365].
    (case month_day doy of (m, d) \<Rightarrow>
      1 \<le> m \<and> m \<le> 12 \<and> 1 \<le> d \<and> (m = 2 \<longleftrightarrow> 337 \<le> doy) \<and> (m \<le> 2 \<longleftrightarrow> 306 \<le> doy) \<and> (m = 12 \<longrightarrow> doy < 306) \<and>
      (m = 2 \<longrightarrow> d = doy - 336) \<and>
      (m \<noteq> 2 \<longrightarrow> month_day (doy + 1) = (if d < (if m \<in> {4, 6, 9, 11} then 30 else 31) then (m, d + 1) else if m < 12 then (m + 1, 1) else (1, 1))))"
  by code_simp

definition civil_of :: "int \<Rightarrow> int \<Rightarrow> int \<Rightarrow> int \<times> int \<times> int" where
  "civil_of era y doy = (case month_day doy of (m, d) \<Rightarrow> (if m \<le> 2 then y + era * 400 + 1 else y + era * 400, m, d))"

lemma era_div: "(if 0 \<le> z then z else z - 146096) sdiv 146097 = z div (146097 :: int)"
proof (cases "0 \<le> z")
  case False
  have "146096 - z = 146097 * (- (z div 146097)) + (146096 - z mod 146097)"
    using div_mult_mod_eq [of z 146097] by linarith
  moreover have "0 \<le> 146096 - z mod 146097" "146096 - z mod 146097 < 146097"
    using pos_mod_bound [of 146097 z] pos_mod_sign [of 146097 z] by auto
  ultimately have "(146096 - z) div 146097 = - (z div 146097)"
    by (rule int_div_pos_eq)
  with False show ?thesis
    by (simp add: signed_divide_int_def sgn_if)
qed (simp add: signed_divide_int_def sgn_if)

lemma civil_from_days_eq:
  "civil_from_days n =
    civil_of ((n + 719468) div 146097) (year_of ((n + 719468) mod 146097))
      ((n + 719468) mod 146097 - (365 * year_of ((n + 719468) mod 146097) + year_of ((n + 719468) mod 146097) div 4 -
        year_of ((n + 719468) mod 146097) div 100))"
  by (simp only: civil_from_days_def civil_of_def month_day_def year_of_def Let_def era_div minus_div_mult_eq_mod prod.case)

lemma civil_in_year:
  assumes y: "0 \<le> y" "y \<le> 399" and doy: "0 \<le> doy" "year_start y + doy < year_start (y + 1)"
  shows "civil_from_days (era * 146097 + (year_start y + doy) - 719468) = civil_of era y doy"
proof -
  have "y \<in> set [0..399]"
    using y by simp
  then have bounds: "0 \<le> year_start y" "year_start (y + 1) \<le> 146097" and
    ends: "year_of (year_start y) = y" "year_of (year_start (y + 1) - 1) = y"
    using year_ends by blast+
  then have doe: "0 \<le> year_start y + doy" "year_start y + doy < 146097"
    using doy by auto
  have year: "year_of (year_start y + doy) = y"
    using year_of_mono [of "year_start y" "year_start y + doy"] year_of_mono [of "year_start y + doy" "year_start (y + 1) - 1"]
      bounds ends doy by auto
  have "year_start y = 365 * y + y div 4 - y div 100"
    using y by (simp add: year_start_def)
  with doe year show ?thesis
    by (simp add: civil_from_days_eq)
qed

text \<open>The last day of a year of the era is the last of February.\<close>

lemma leap_era: "leap_year (y + era * 400) = leap_year y"
proof -
  have "(y + era * 400) mod 4 = y mod 4" "(y + era * 400) mod 100 = y mod 100" "(y + era * 400) mod 400 = y mod 400"
    using mod_mult_self1 [of y "era * 100" 4] mod_mult_self1 [of y "era * 4" 100] mod_mult_self1 [of y era 400] by (simp_all add: ac_simps)
  then show ?thesis
    by (simp add: leap_year_def)
qed

lemma civil_next:
  assumes y: "0 \<le> y" "y \<le> 399" and doy: "0 \<le> doy" "year_start y + doy < year_start (y + 1)"
  shows "next_day (civil_of era y doy) =
    (if year_start y + doy + 1 < year_start (y + 1) then civil_of era y (doy + 1)
     else if y = 399 then civil_of (era + 1) 0 0 else civil_of era (y + 1) 0)"
proof -
  have "y \<in> set [0..399]"
    using y by simp
  then have span: "year_start (y + 1) = year_start y + (if leap_year (y + 1) then 366 else 365)"
    using year_ends by force
  have leap: "leap_year (y + era * 400 + 1) = leap_year (y + 1)"
    using leap_era [of "y + 1" era] by (simp add: ac_simps)
  have "doy \<in> set [0..365]"
    using doy span by (auto split: if_splits)
  obtain m d where md: "month_day doy = (m, d)"
    by fastforce
  have zero: "month_day 0 = (3, 1)"
    by (simp add: month_day_def)
  have here: "1 \<le> m \<and> m \<le> 12" "m = 2 \<longleftrightarrow> 337 \<le> doy" "m = 12 \<longrightarrow> doy < 306" "m = 2 \<longrightarrow> d = doy - 336"
    and later: "m \<noteq> 2 \<longrightarrow> month_day (doy + 1) =
      (if d < (if m \<in> {4, 6, 9, 11} then 30 else 31) then (m, d + 1) else if m < 12 then (m + 1, 1) else (1, 1))"
    using months [THEN bspec, OF \<open>doy \<in> set [0..365]\<close>, unfolded md prod.case] by blast+
  show ?thesis
  proof (cases "m = 2")
    case False
    then have "doy < 337"
      using here(2) by simp
    then have inside: "year_start y + doy + 1 < year_start (y + 1)"
      using span by (auto split: if_splits)
    show ?thesis
    proof (cases "d < (if m \<in> {4, 6, 9, 11} then 30 else 31)")
      case True
      then have "month_day (doy + 1) = (m, d + 1)"
        using later False by simp
      with True False inside show ?thesis
        by (simp add: civil_of_def md month_length_def)
    next
      case long: False
      then have next_month: "month_day (doy + 1) = (if m < 12 then (m + 1, 1) else (1, 1))"
        using later False by simp
      with long False inside here(1) show ?thesis
        by (auto simp: civil_of_def md month_length_def)
    qed
  next
    case True
    then have d: "d = doy - 336" "337 \<le> doy"
      using here by auto
    show ?thesis
    proof (cases "year_start y + doy + 1 < year_start (y + 1)")
      case inside: True
      then have day: "doy + 1 \<in> set [0..365]"
        using span doy(1) by (auto split: if_splits)
      obtain m' d' where md': "month_day (doy + 1) = (m', d')"
        by fastforce
      have "m' = 2 \<longleftrightarrow> 337 \<le> doy + 1" "m' = 2 \<longrightarrow> d' = doy + 1 - 336"
        using months [THEN bspec, OF day, unfolded md' prod.case] by blast+
      then have "month_day (doy + 1) = (2, d + 1)"
        using d md' by simp
      with True inside span d show ?thesis
        by (auto simp: civil_of_def md month_length_def leap split: if_splits)
    next
      case False
      then have "doy + 1 = (if leap_year (y + 1) then 366 else 365)"
        using span doy by simp
      with False True d show ?thesis
        by (auto simp: civil_of_def md zero month_length_def leap split: if_splits)
    qed
  qed
qed

text \<open>The first day of the year after \<open>y\<close>.\<close>

lemma civil_new_year:
  assumes y: "0 \<le> y" "y \<le> 399"
  shows "civil_from_days (era * 146097 + year_start (y + 1) - 719468) =
    (if y = 399 then civil_of (era + 1) 0 0 else civil_of era (y + 1) 0)"
proof (cases "y = 399")
  case True
  then show ?thesis
    using civil_in_year [of 0 0 "era + 1"] by (simp add: year_start_def)
next
  case False
  then have y': "0 \<le> y + 1" "y + 1 \<le> 399" and "y + 1 \<in> set [0..399]"
    using y by auto
  then have "year_start (y + 1 + 1) - year_start (y + 1) = (if leap_year (y + 1 + 1) then 366 else 365)"
    using year_ends by blast
  then have "year_start (y + 1) + 0 < year_start (y + 1 + 1)"
    by (auto split: if_splits)
  from civil_in_year [OF y' order.refl this, of era] False show ?thesis
    by simp
qed

text \<open>
  C40: the dates are those of the Gregorian calendar: day zero is the first of January 1970 and each day is followed by the next one, for
  days before the epoch as well.
\<close>

theorem civil_from_days_gregorian:
  "civil_from_days 0 = (1970, 1, 1) \<and> civil_from_days (n + 1) = next_day (civil_from_days n)"
proof (rule conjI)
  show "civil_from_days 0 = (1970, 1, 1)"
    by code_simp
  define era where "era = (n + 719468) div 146097"
  define doe where "doe = (n + 719468) mod 146097"
  have n: "n = era * 146097 + doe - 719468"
    unfolding era_def doe_def using div_mult_mod_eq [of "n + 719468" 146097] by linarith
  have "0 \<le> doe" "doe < 146097"
    by (simp_all add: doe_def)
  then obtain y where y: "0 \<le> y" "y \<le> 399" "year_start y \<le> doe" "doe < year_start (y + 1)"
    by (metis year_between)
  define doy where "doy = doe - year_start y"
  have doy: "0 \<le> doy" "year_start y + doy < year_start (y + 1)"
    using y by (auto simp: doy_def)
  have today: "civil_from_days n = civil_of era y doy"
    using civil_in_year [OF y(1,2) doy, of era] by (simp add: n doy_def)
  show "civil_from_days (n + 1) = next_day (civil_from_days n)"
  proof (cases "year_start y + doy + 1 < year_start (y + 1)")
    case True
    have tomorrow: "n + 1 = era * 146097 + (year_start y + (doy + 1)) - 719468"
      by (simp add: n doy_def)
    have "civil_from_days (n + 1) = civil_of era y (doy + 1)"
      unfolding tomorrow by (rule civil_in_year [OF y(1,2)]) (use True doy in auto)
    with True show ?thesis
      unfolding today civil_next [OF y(1,2) doy] by simp
  next
    case False
    have tomorrow: "n + 1 = era * 146097 + year_start (y + 1) - 719468"
      using False doy by (simp add: n doy_def)
    show ?thesis
      unfolding today tomorrow civil_next [OF y(1,2) doy] civil_new_year [OF y(1,2)] using False by simp
  qed
qed

end
