(* ===== verification/Prompts.thy ===== *)
theory Prompts
  imports Grammar ChatTemplate
begin

text \<open>
  The rendering of a conversation to the text the model reads: \<^verbatim>\<open>ChatFamily\<close> and \<^verbatim>\<open>render_chat_prompt\<close> of
  \<^verbatim>\<open>src/src/server/rest.rs\<close>. The template engine is a parameter. The lemmas show that the prompt of a conversation that goes on
  begins with the earlier prompt and its answer, on which the reuse of the prompt cache rests.
\<close>

section \<open>Families of templates\<close>

datatype chat_family = Llama3 | ChatMl | Mistral | Llama2

definition detect :: "tokenizer \<Rightarrow> chat_family" where
  "detect tok =
    (if tk_id tok ''<|start_header_id|>'' \<noteq> None then Llama3
     else if tk_id tok ''<|im_start|>'' \<noteq> None then ChatMl
     else if tk_id tok ''[INST]'' \<noteq> None then Mistral
     else if tk_id tok ''</s>'' \<noteq> None then Llama2
     else Llama3)"

type_synonym message = "string \<times> string"

definition nl :: string where
  "nl = [CHR 0x0A]"

fun llama3_turn :: "message \<Rightarrow> string" where
  "llama3_turn (role, content) = ''<|start_header_id|>'' @ role @ ''<|end_header_id|>'' @ nl @ nl @ content @ ''<|eot_id|>''"

definition render_llama3 :: "string \<Rightarrow> message list \<Rightarrow> string" where
  "render_llama3 sys ms =
    ''<|begin_of_text|>'' @ (if sys \<noteq> [] then llama3_turn (''system'', sys) else []) @ concat (map llama3_turn ms) @
    ''<|start_header_id|>assistant<|end_header_id|>'' @ nl @ nl"

fun chatml_turn :: "message \<Rightarrow> string" where
  "chatml_turn (role, content) = ''<|im_start|>'' @ role @ nl @ content @ ''<|im_end|>'' @ nl"

definition render_chatml :: "string \<Rightarrow> message list \<Rightarrow> string" where
  "render_chatml sys ms =
    (if sys \<noteq> [] then chatml_turn (''system'', sys) else []) @ concat (map chatml_turn ms) @ ''<|im_start|>assistant'' @ nl"

text \<open>The system prompt goes before the first turn that is not the assistant's.\<close>

fun mistral_turns :: "string option \<Rightarrow> message list \<Rightarrow> string option \<times> string" where
  "mistral_turns pending [] = (pending, [])"
| "mistral_turns pending ((role, content) # ms) =
    (if role = ''assistant'' then (case mistral_turns pending ms of (p, out) \<Rightarrow> (p, '' '' @ content @ ''</s>'' @ out))
     else (case mistral_turns None ms of (p, out) \<Rightarrow>
       (p, ''[INST] '' @ (case pending of None \<Rightarrow> [] | Some sys \<Rightarrow> sys @ nl @ nl) @ content @ '' [/INST]'' @ out)))"

definition render_mistral :: "string \<Rightarrow> message list \<Rightarrow> string" where
  "render_mistral sys ms =
    (case mistral_turns (if sys = [] then None else Some sys) ms of
       (None, out) \<Rightarrow> out
     | (Some s, out) \<Rightarrow> out @ ''[INST] '' @ s @ '' [/INST]'')"

fun llama2_turns :: "string \<Rightarrow> bool \<Rightarrow> message list \<Rightarrow> bool \<times> string" where
  "llama2_turns sys first_user [] = (first_user, [])"
| "llama2_turns sys first_user ((role, content) # ms) =
    (if role = ''assistant'' then (case llama2_turns sys first_user ms of (f, out) \<Rightarrow> (f, '' '' @ content @ '' </s>'' @ out))
     else (case llama2_turns sys False ms of (f, out) \<Rightarrow>
       (f, ''[INST] '' @ (if first_user \<and> sys \<noteq> [] then ''<<SYS>>'' @ nl @ sys @ nl @ ''<</SYS>>'' @ nl @ nl else []) @
           content @ '' [/INST]'' @ out)))"

definition render_llama2 :: "string \<Rightarrow> message list \<Rightarrow> string" where
  "render_llama2 sys ms =
    (case llama2_turns sys True ms of (first_user, out) \<Rightarrow>
       out @ (if first_user \<and> sys \<noteq> [] then ''[INST] <<SYS>>'' @ nl @ sys @ nl @ ''<</SYS>>'' @ nl @ nl @ '' [/INST]'' else []))"

definition render_family :: "chat_family \<Rightarrow> string \<Rightarrow> message list \<Rightarrow> string" where
  "render_family f sys ms =
    (case f of Llama3 \<Rightarrow> render_llama3 sys ms | ChatMl \<Rightarrow> render_chatml sys ms | Mistral \<Rightarrow> render_mistral sys ms | Llama2 \<Rightarrow> render_llama2 sys ms)"

section \<open>The prompt of a request\<close>

text \<open>The system text: the goals first, then every system message.\<close>

definition system_text :: "string \<Rightarrow> message list \<Rightarrow> string" where
  "system_text goal_prefix ms =
    foldl (\<lambda>sys m. if fst m = ''system'' then sys @ (if sys \<noteq> [] then nl @ nl else []) @ snd m else sys)
      (rev (dropWhile white (rev goal_prefix))) ms"

definition other_messages :: "message list \<Rightarrow> message list" where
  "other_messages ms = filter (\<lambda>m. fst m \<noteq> ''system'') ms"

text \<open>\<open>id_to_token\<close> is the tokenizer's table, \<open>render_template\<close> the template engine; a template that fails falls back.\<close>

definition render_chat_prompt ::
  "(string \<Rightarrow> message list \<Rightarrow> string \<Rightarrow> string \<Rightarrow> string option) \<Rightarrow> (token \<Rightarrow> string option) \<Rightarrow> tokenizer \<Rightarrow> chat_meta \<Rightarrow> string \<Rightarrow> message list \<Rightarrow> string" where
  "render_chat_prompt render_template id_to_token tok meta goal_prefix ms =
    (let sys = system_text goal_prefix ms; others = other_messages ms;
         spelled = (\<lambda>i. case Option.bind i id_to_token of None \<Rightarrow> [] | Some s \<Rightarrow> s);
         templated = (case cm_template meta of None \<Rightarrow> None
           | Some tpl \<Rightarrow> render_template tpl ((if sys \<noteq> [] then [(''system'', sys)] else []) @ others) (spelled (cm_bos_id meta))
               (spelled (case cm_stop_ids meta of [] \<Rightarrow> None | i # is \<Rightarrow> Some i)))
     in case templated of Some p \<Rightarrow> p | None \<Rightarrow> render_family (detect tok) sys others)"

section \<open>Conversations that go on\<close>

text \<open>What stands between the prompt and the answer when the answer has become a turn.\<close>

definition gap :: "chat_family \<Rightarrow> string" where
  "gap f = (if f \<in> {Mistral, Llama2} then '' '' else [])"

lemma mistral_turns_append:
  "mistral_turns pending (ms @ ms') =
    (case mistral_turns pending ms of (p, out) \<Rightarrow> (case mistral_turns p ms' of (p', out') \<Rightarrow> (p', out @ out')))"
  by (induction pending ms rule: mistral_turns.induct) (auto split: prod.splits)

lemma mistral_turns_None: "fst (mistral_turns None ms) = None"
proof (induction ms)
  case (Cons m ms)
  then show ?case
    by (cases m; cases "mistral_turns None ms") auto
qed simp

lemma mistral_settled: "\<exists>m \<in> set ms. fst m \<noteq> ''assistant'' \<Longrightarrow> fst (mistral_turns pending ms) = None"
proof (induction ms arbitrary: pending)
  case (Cons m ms)
  obtain role content where m: "m = (role, content)"
    by (cases m)
  show ?case
  proof (cases "role = ''assistant''")
    case True
    with Cons have "fst (mistral_turns pending ms) = None"
      by (simp add: m)
    with True show ?thesis
      by (simp add: m case_prod_unfold)
  next
    case False
    then show ?thesis
      using mistral_turns_None [of ms] by (simp add: m case_prod_unfold)
  qed
qed simp

lemma llama2_turns_append:
  "llama2_turns sys f (ms @ ms') =
    (case llama2_turns sys f ms of (p, out) \<Rightarrow> (case llama2_turns sys p ms' of (p', out') \<Rightarrow> (p', out @ out')))"
  by (induction sys f ms rule: llama2_turns.induct) (auto split: prod.splits)

lemma llama2_turns_False: "fst (llama2_turns sys False ms) = False"
proof (induction ms)
  case (Cons m ms)
  then show ?case
    by (cases m; cases "llama2_turns sys False ms") auto
qed simp

lemma llama2_settled: "\<exists>m \<in> set ms. fst m \<noteq> ''assistant'' \<Longrightarrow> fst (llama2_turns sys f ms) = False"
proof (induction ms arbitrary: f)
  case (Cons m ms)
  obtain role content where m: "m = (role, content)"
    by (cases m)
  show ?case
  proof (cases "role = ''assistant''")
    case True
    with Cons have "fst (llama2_turns sys f ms) = False"
      by (simp add: m)
    with True show ?thesis
      by (simp add: m case_prod_unfold)
  next
    case False
    then show ?thesis
      using llama2_turns_False [of sys ms] by (simp add: m case_prod_unfold)
  qed
qed simp

lemma render_extends:
  assumes "f \<in> {Llama3, ChatMl} \<or> sys = [] \<or> (\<exists>m \<in> set ms. fst m \<noteq> ''assistant'')"
  shows "prefix (render_family f sys ms @ gap f @ reply) (render_family f sys (ms @ (''assistant'', reply) # later))"
proof (cases f)
  case Mistral
  have "fst (mistral_turns (if sys = [] then None else Some sys) ms) = None"
    using assms Mistral mistral_settled [of ms] mistral_turns_None [of ms] by (auto simp: prod_eq_iff)
  then obtain out where out: "mistral_turns (if sys = [] then None else Some sys) ms = (None, out)"
    by (cases "mistral_turns (if sys = [] then None else Some sys) ms") auto
  show ?thesis
    using mistral_turns_None [of later]
    by (cases "mistral_turns None later") (auto simp: Mistral render_family_def render_mistral_def gap_def mistral_turns_append out prefix_def)
next
  case Llama2
  obtain p out where out: "llama2_turns sys True ms = (p, out)"
    by (cases "llama2_turns sys True ms")
  have "\<not> (p \<and> sys \<noteq> [])"
    using assms Llama2 llama2_settled [of ms sys True] out by auto
  then show ?thesis
    using llama2_turns_False [of sys later]
    by (cases "llama2_turns sys p later") (auto simp: Llama2 render_family_def render_llama2_def gap_def llama2_turns_append out prefix_def)
qed (simp_all add: render_family_def render_llama3_def render_chatml_def gap_def)

lemma system_text_append:
  "\<forall>m \<in> set later. fst m \<noteq> ''system'' \<Longrightarrow> system_text goals (ms @ later) = system_text goals ms"
proof -
  have "foldl (\<lambda>sys m. if fst m = ''system'' then sys @ (if sys \<noteq> [] then nl @ nl else []) @ snd m else sys) acc later = acc"
    if "\<forall>m \<in> set later. fst m \<noteq> ''system''" for acc
    using that by (induction later) auto
  then show "\<forall>m \<in> set later. fst m \<noteq> ''system'' \<Longrightarrow> system_text goals (ms @ later) = system_text goals ms"
    by (simp add: system_text_def)
qed


definition demo_mistral :: tokenizer where
  "demo_mistral = \<lparr>tk_size = 8, tk_id = [''[INST]'' \<mapsto> 3, ''</s>'' \<mapsto> 2], tk_decode = (\<lambda>_. None)\<rparr>"

definition demo_meta :: chat_meta where
  "demo_meta = \<lparr>cm_template = None, cm_stop_ids = [2], cm_bos_id = Some 1\<rparr>"


end
