(* ===== verification/ModelFiles.thy ===== *)
theory ModelFiles
  imports ChatTemplate
begin

text \<open>
  What the server reads out of the metadata of a model file: the registry of architectures and the hyperparameters of
  \<^verbatim>\<open>src/src/backend/arch.rs\<close>, the parts of a tokenizer of \<^verbatim>\<open>src/src/backend/candle/gguf_vocab.rs\<close>, and the cached probe
  \<^verbatim>\<open>gguf_architecture\<close> of \<^verbatim>\<open>src/src/server/rest.rs\<close>. The reader of the file format and the tokenizers package are parameters.
  The lemmas state when each of them fails, and where the probe and the registry disagree.
\<close>

section \<open>Metadata\<close>

text \<open>
  Beside the entries that convert to strings and 32-bit numbers: whether a key is there at all, and the other conversions. An array
  is there with the items that convert.
\<close>

record gguf_metadata = file_metadata +
  gm_key :: "string \<Rightarrow> bool"
  gm_f32 :: "string \<Rightarrow> f32 option"
  gm_bool :: "string \<Rightarrow> bool option"
  gm_strings :: "string \<Rightarrow> string list option"
  gm_ints :: "string \<Rightarrow> int list option"

section \<open>Architectures\<close>

record arch_spec =
  as_prefix :: string
  as_qkv_bias :: bool
  as_rope_neox :: bool

definition llama_spec :: arch_spec where
  "llama_spec = \<lparr>as_prefix = ''llama'', as_qkv_bias = False, as_rope_neox = False\<rparr>"

definition qwen2_spec :: arch_spec where
  "qwen2_spec = \<lparr>as_prefix = ''qwen2'', as_qkv_bias = True, as_rope_neox = True\<rparr>"

definition lower :: "char \<Rightarrow> char" where
  "lower c = (let n = (of_char c :: nat) in if 65 \<le> n \<and> n \<le> 90 then char_of (n + 32) else c)"

definition eq_ignore_ascii_case :: "string \<Rightarrow> string \<Rightarrow> bool" where
  "eq_ignore_ascii_case s t = (map lower s = map lower t)"

definition spec_for :: "string \<Rightarrow> arch_spec option" where
  "spec_for arch =
    (if eq_ignore_ascii_case arch (as_prefix llama_spec) then Some llama_spec
     else if eq_ignore_ascii_case arch (as_prefix qwen2_spec) then Some qwen2_spec
     else None)"

datatype model_error =
    Unsupported_architecture string
  | Missing_key string
  | Not_a_number string
  | Vocab_kind string
  | No_bos_id
  | Bos_out_of_range

definition detect_arch :: "('b) gguf_metadata_scheme \<Rightarrow> model_error + arch_spec" where
  "detect_arch md =
    (let arch = (case fm_string md ''general.architecture'' of None \<Rightarrow> ''llama'' | Some a \<Rightarrow> a)
     in case spec_for arch of None \<Rightarrow> Inl (Unsupported_architecture arch) | Some sp \<Rightarrow> Inr sp)"

section \<open>Hyperparameters\<close>

record hparams =
  hp_n_layers :: nat
  hp_n_embd :: nat
  hp_n_head :: nat
  hp_n_head_kv :: nat
  hp_rope_dim :: "nat option"
  hp_head_dim :: "nat option"
  hp_rms_eps :: "f32 option"
  hp_rope_freq_base :: f32
  hp_context_length :: "nat option"
  hp_rope_scaling_type :: "string option"
  hp_rope_scaling_factor :: "f32 option"
  hp_rope_orig_ctx :: "nat option"
  hp_n_expert :: nat
  hp_vocab_size :: "nat option"

definition req_u :: "('b) gguf_metadata_scheme \<Rightarrow> string \<Rightarrow> model_error + nat" where
  "req_u md key =
    (if \<not> gm_key md key then Inl (Missing_key key)
     else (case fm_u32 md key of None \<Rightarrow> Inl (Not_a_number key) | Some v \<Rightarrow> Inr v))"

definition or_default :: "'a \<Rightarrow> 'a option \<Rightarrow> 'a" where
  "or_default d x = (case x of None \<Rightarrow> d | Some v \<Rightarrow> v)"

definition read_hparams :: "('b) gguf_metadata_scheme \<Rightarrow> arch_spec \<Rightarrow> model_error + hparams" where
  "read_hparams md sp =
    (let key = (\<lambda>k. as_prefix sp @ k) in
     case req_u md (key ''.attention.head_count'') of
       Inl e \<Rightarrow> Inl e
     | Inr n_head \<Rightarrow>
         (case req_u md (key ''.block_count'') of
            Inl e \<Rightarrow> Inl e
          | Inr n_layers \<Rightarrow>
              (case req_u md (key ''.embedding_length'') of
                 Inl e \<Rightarrow> Inl e
               | Inr n_embd \<Rightarrow>
                   Inr \<lparr>hp_n_layers = n_layers, hp_n_embd = n_embd, hp_n_head = n_head,
                        hp_n_head_kv = or_default n_head (fm_u32 md (key ''.attention.head_count_kv'')),
                        hp_rope_dim = fm_u32 md (key ''.rope.dimension_count''), hp_head_dim = fm_u32 md (key ''.attention.key_length''),
                        hp_rms_eps = gm_f32 md (key ''.attention.layer_norm_rms_epsilon''),
                        hp_rope_freq_base = or_default (Fin 10000) (gm_f32 md (key ''.rope.freq_base'')),
                        hp_context_length = fm_u32 md (key ''.context_length''),
                        hp_rope_scaling_type = fm_string md (key ''.rope.scaling.type''),
                        hp_rope_scaling_factor = gm_f32 md (key ''.rope.scaling.factor''),
                        hp_rope_orig_ctx = fm_u32 md (key ''.rope.scaling.original_context_length''),
                        hp_n_expert = or_default 0 (fm_u32 md (key ''.expert_count'')), hp_vocab_size = fm_u32 md (key ''.vocab_size'')\<rparr>)))"

text \<open>\<open>None\<close> is the division by zero of a file with no heads.\<close>

definition head_dim :: "hparams \<Rightarrow> nat option" where
  "head_dim hp =
    (case hp_head_dim hp of Some d \<Rightarrow> Some d
     | None \<Rightarrow> if hp_n_head hp = 0 then None else Some (hp_n_embd hp div hp_n_head hp))"

section \<open>The tokenizer in a model file\<close>

datatype split_regex = Pre_gpt2 | Pre_llama3 | Pre_qwen2

definition split_regex_for :: "string \<Rightarrow> split_regex" where
  "split_regex_for pre =
    (if pre \<in> {''llama-bpe'', ''llama3'', ''smaug-bpe''} then Pre_llama3
     else if pre \<in> {''qwen2'', ''deepseek-r1-qwen''} then Pre_qwen2 else Pre_gpt2)"

text \<open>The parts handed to the tokenizers package. A token that occurs twice in the vocabulary keeps its last index.\<close>

record tokenizer_parts =
  tp_vocab :: "string \<Rightarrow> nat option"
  tp_merges :: "(string \<times> string) list"
  tp_split :: split_regex
  tp_specials :: "string list"
  tp_user_defined :: "string list"
  tp_bos :: "(string \<times> nat) option"

fun split_once :: "char \<Rightarrow> string \<Rightarrow> (string \<times> string) option" where
  "split_once sep [] = None"
| "split_once sep (c # cs) =
    (if c = sep then Some ([], cs) else (case split_once sep cs of None \<Rightarrow> None | Some (a, b) \<Rightarrow> Some (c # a, b)))"

text \<open>The tokens of a type, in order; \<open>None\<close> is the panic of a type list that is longer than the vocabulary.\<close>

fun tokens_of_type :: "int \<Rightarrow> string list \<Rightarrow> int list \<Rightarrow> string list option" where
  "tokens_of_type ty tokens [] = Some []"
| "tokens_of_type ty [] (y # ys) = (if y = ty then None else tokens_of_type ty [] ys)"
| "tokens_of_type ty (t # ts) (y # ys) =
    (case tokens_of_type ty ts ys of None \<Rightarrow> None | Some rest \<Rightarrow> Some (if y = ty then t # rest else rest))"

definition bos_part :: "('b) gguf_metadata_scheme \<Rightarrow> string \<Rightarrow> string list \<Rightarrow> model_error + (string \<times> nat) option" where
  "bos_part md pre tokens =
    (if or_default (split_regex_for pre = Pre_llama3) (gm_bool md ''tokenizer.ggml.add_bos_token'')
     then (case fm_u32 md ''tokenizer.ggml.bos_token_id'' of
         None \<Rightarrow> Inl No_bos_id
       | Some i \<Rightarrow> if i < length tokens then Inr (Some (tokens ! i, i)) else Inl Bos_out_of_range)
     else Inr None)"

definition tokenizer_from_gguf :: "('b) gguf_metadata_scheme \<Rightarrow> (model_error + tokenizer_parts) option" where
  "tokenizer_from_gguf md =
    (let kind = or_default [] (fm_string md ''tokenizer.ggml.model'') in
     if kind \<noteq> ''gpt2'' then Some (Inl (Vocab_kind kind))
     else (case gm_strings md ''tokenizer.ggml.tokens'' of
         None \<Rightarrow> Some (Inl (Missing_key ''tokenizer.ggml.tokens''))
       | Some tokens \<Rightarrow>
           (case gm_strings md ''tokenizer.ggml.merges'' of
              None \<Rightarrow> Some (Inl (Missing_key ''tokenizer.ggml.merges''))
            | Some merges \<Rightarrow>
                (let types = or_default [] (gm_ints md ''tokenizer.ggml.token_type''); pre = or_default [] (fm_string md ''tokenizer.ggml.pre'')
                 in case (tokens_of_type 3 tokens types, tokens_of_type 4 tokens types) of
                      (Some specials, Some user_defined) \<Rightarrow>
                        Some (case bos_part md pre tokens of Inl e \<Rightarrow> Inl e
                          | Inr bos \<Rightarrow> Inr \<lparr>tp_vocab = map_of (rev (zip tokens [0 ..< length tokens])), tp_merges = List.map_filter (split_once CHR '' '') merges,
                              tp_split = split_regex_for pre, tp_specials = specials, tp_user_defined = user_defined, tp_bos = bos\<rparr>)
                    | _ \<Rightarrow> None))))"

section \<open>The cached probe\<close>

text \<open>
  Per path the time of the last change and the architecture. The probe has no default for a file without the entry.
\<close>

type_synonym arch_cache = "string \<Rightarrow> (nat \<times> string) option"

definition gguf_architecture :: "(string \<Rightarrow> nat option) \<Rightarrow> (string \<Rightarrow> ('b) gguf_metadata_scheme option) \<Rightarrow> arch_cache \<Rightarrow> string \<Rightarrow> string option \<times> arch_cache" where
  "gguf_architecture modified file cache path =
    (let mtime = or_default 0 (modified path);
         probe = (case Option.bind (file path) (\<lambda>md. fm_string md ''general.architecture'') of
             None \<Rightarrow> (None, cache)
           | Some arch \<Rightarrow> (Some arch, cache(path \<mapsto> (mtime, arch))))
     in case cache path of
          Some (cached_mtime, arch) \<Rightarrow> if cached_mtime = mtime then (Some arch, cache) else probe
        | None \<Rightarrow> probe)"

definition arch_is_supported :: "string \<Rightarrow> bool" where
  "arch_is_supported arch = (spec_for arch \<noteq> None)"

section \<open>What the readers decide\<close>

lemma spec_for_cases: "spec_for arch = Some sp \<longleftrightarrow>
  (eq_ignore_ascii_case arch ''llama'' \<and> sp = llama_spec) \<or> (eq_ignore_ascii_case arch ''qwen2'' \<and> sp = qwen2_spec)"
proof -
  have "\<not> (eq_ignore_ascii_case arch ''llama'' \<and> eq_ignore_ascii_case arch ''qwen2'')"
    by (auto simp: eq_ignore_ascii_case_def lower_def)
  then show ?thesis
    by (auto simp: spec_for_def llama_spec_def qwen2_spec_def)
qed

text \<open>The three keys that must be there are read first; with them nothing can fail.\<close>

lemma read_hparams_ok:
  "(\<exists>hp. read_hparams md sp = Inr hp) \<longleftrightarrow>
    (\<forall>k \<in> {''.attention.head_count'', ''.block_count'', ''.embedding_length''}.
      gm_key md (as_prefix sp @ k) \<and> fm_u32 md (as_prefix sp @ k) \<noteq> None)"
  by (auto simp: read_hparams_def req_u_def Let_def split: option.splits)

text \<open>A probe that hits the cache agrees with one that reads the file, as long as equal times mean an unchanged file.\<close>

definition cache_true :: "(string \<Rightarrow> nat option) \<Rightarrow> (string \<Rightarrow> ('b) gguf_metadata_scheme option) \<Rightarrow> arch_cache \<Rightarrow> bool" where
  "cache_true modified file cache =
    (\<forall>path mtime arch. cache path = Some (mtime, arch) \<and> mtime = or_default 0 (modified path) \<longrightarrow>
      Option.bind (file path) (\<lambda>md. fm_string md ''general.architecture'') = Some arch)"

lemma probe_true:
  assumes "cache_true modified file cache" "gguf_architecture modified file cache path = (arch, cache')"
  shows "arch = Option.bind (file path) (\<lambda>md. fm_string md ''general.architecture'')" "cache_true modified file cache'"
proof -
  show "arch = Option.bind (file path) (\<lambda>md. fm_string md ''general.architecture'')"
    using assms by (auto simp: gguf_architecture_def cache_true_def Let_def split: option.splits if_splits)
  show "cache_true modified file cache'"
    using assms by (auto simp: gguf_architecture_def cache_true_def Let_def split: option.splits if_splits)
qed

end
