(* ===== verification/ModelSwap.thy ===== *)
theory ModelSwap
  imports Requests ModelFiles GoalManager
begin

text \<open>
  \<^verbatim>\<open>select_model\<close> of \<^verbatim>\<open>src/src/server/rest.rs\<close>: the search for a model file, the checks before the swap, the pool slot by slot, the
  resident engines and the batch server, and what is reset with the model. Files and loaders are parameters. The lemmas follow the
  search and the pool; the theorem says what each response means for the state.
\<close>

section \<open>The search for the file\<close>

text \<open>A directory as \<^verbatim>\<open>read_dir\<close> lists it; an unreadable one is empty, entries with errors are left out.\<close>

datatype entry = Gguf_file string string | Other_file | Directory "entry list"

fun scan_dir :: "string \<Rightarrow> entry list \<Rightarrow> entry list list \<Rightarrow> string option \<times> entry list list" where
  "scan_dir req_id [] dirs = (None, dirs)"
| "scan_dir req_id (Directory es # rest) dirs = scan_dir req_id rest (es # dirs)"
| "scan_dir req_id (Gguf_file stem path # rest) dirs = (if stem = req_id then (Some path, dirs) else scan_dir req_id rest dirs)"
| "scan_dir req_id (Other_file # rest) dirs = scan_dir req_id rest dirs"

definition walk_size :: "entry list list \<Rightarrow> nat" where
  "walk_size dirs = sum_list (map (\<lambda>es. Suc (size_list size es)) dirs)"

lemma scan_dir_size: "scan_dir req_id es dirs = (r, dirs') \<Longrightarrow> walk_size dirs' \<le> walk_size dirs + size_list size es"
  by (induction req_id es dirs rule: scan_dir.induct) (force simp: walk_size_def split: if_splits)+

function find_model :: "string \<Rightarrow> entry list list \<Rightarrow> string option" where
  "find_model req_id [] = None"
| "find_model req_id (es # dirs) = (case scan_dir req_id es dirs of (Some path, dirs') \<Rightarrow> Some path | (None, dirs') \<Rightarrow> find_model req_id dirs')"
  by pat_completeness auto
termination
proof (relation "measure (\<lambda>(req_id, dirs). walk_size dirs)", goal_cases)
  case (2 req_id es dirs r dirs')
  then have "scan_dir req_id es dirs = (None, dirs')"
    by simp
  from scan_dir_size [OF this] show ?case
    by (simp add: walk_size_def)
qed simp

section \<open>The state of the server\<close>

text \<open>
  \<open>sm_gpu\<close>, \<open>sm_vk\<close> and \<open>sm_cb\<close> are the model files the resident engines and the batch server run on. The memory of the server is the
  store of the goal manager.
\<close>

record 'r server_models =
  sm_pool :: "'r backend_slot list"
  sm_app :: app_state
  sm_chat_meta :: chat_meta
  sm_current :: string
  sm_goals :: goal_manager
  sm_arch_cache :: arch_cache
  sm_gpu :: "string option"
  sm_vk :: "string option"
  sm_cb :: "string option"

record 'r swap_world =
  wd_dir :: "entry list option"
  wd_modified :: "string \<Rightarrow> nat option"
  wd_file :: "string \<Rightarrow> gguf_metadata option"
  wd_tokenizer_json :: "string \<Rightarrow> tokenizer option option"
  wd_gguf_tokenizer :: "string \<Rightarrow> tokenizer option"
  wd_loads :: "nat \<Rightarrow> 'r loader"
  wd_first_poisoned :: bool
  wd_gpu_on :: bool
  wd_gpu_load :: "string \<Rightarrow> bool"
  wd_vk_on :: bool
  wd_vk_load :: "string \<Rightarrow> bool"
  wd_cb_swap :: "string \<Rightarrow> bool"
  wd_goal_env :: "'r backend_slot list \<Rightarrow> tokenizer \<Rightarrow> goal_env"
  wd_sorder :: set_order
  wd_time :: nat

datatype swap_response =
    No_models_dir
  | Id_required
  | Not_found
  | Architecture_refused string
  | Tokenizer_json_failed
  | Embedded_vocab_unusable
  | Load_failed nat
  | Selected

fun swap_slots :: "(nat \<Rightarrow> 'r loader) \<Rightarrow> string \<Rightarrow> nat \<Rightarrow> 'r backend_slot list \<Rightarrow> nat option \<times> 'r backend_slot list" where
  "swap_slots loads path i [] = (None, [])"
| "swap_slots loads path i (sl # sls) =
    (case load_model (loads i) path (unload_model (sl_backend sl)) of
       (Inl e, B) \<Rightarrow> (Some i, sl\<lparr>sl_backend := B\<rparr> # sls)
     | (Inr u, B) \<Rightarrow>
         (case swap_slots loads path (Suc i) sls of (failed, sls') \<Rightarrow> (failed, sl\<lparr>sl_backend := B, sl_prompt_cache := []\<rparr> # sls')))"

definition new_tokenizer :: "'r swap_world \<Rightarrow> string \<Rightarrow> swap_response + tokenizer" where
  "new_tokenizer w path =
    (case wd_tokenizer_json w path of
       Some None \<Rightarrow> Inl Tokenizer_json_failed
     | Some (Some t) \<Rightarrow> Inr t
     | None \<Rightarrow> (case wd_gguf_tokenizer w path of None \<Rightarrow> Inl Embedded_vocab_unusable | Some t \<Rightarrow> Inr t))"

definition clear_context :: "set_order \<Rightarrow> nat \<Rightarrow> store \<Rightarrow> store" where
  "clear_context sorder now st = fold (\<lambda>key st. fst (remove key st)) (map me_key (query_by_category sorder Context now st)) st"

text \<open>Everything after the pool: the context window, the engines, the tokenizer and what hangs on it, the memory and the goals.\<close>

definition follow_model :: "'r swap_world \<Rightarrow> string \<Rightarrow> string \<Rightarrow> tokenizer \<Rightarrow> 'r server_models \<Rightarrow> 'r server_models" where
  "follow_model w req_id path tok s =
    (let new_ctx = (case sm_pool s of [] \<Rightarrow> 0 | sl # sls \<Rightarrow> if wd_first_poisoned w then 0 else max_seq (sl_backend sl));
         goals = (sm_goals s)\<lparr>gm_store := clear_context (wd_sorder w) (wd_time w) (gm_store (sm_goals s))\<rparr>
     in s\<lparr>sm_app := (sm_app s)\<lparr>ap_tokenizer := tok, ap_table := None, ap_model_ctx := new_ctx\<rparr>,
          sm_gpu := (if wd_gpu_on w then (if wd_gpu_load w path then Some path else None) else sm_gpu s),
          sm_cb := (case sm_cb s of None \<Rightarrow> None | Some old \<Rightarrow> if wd_cb_swap w path then Some path else Some old),
          sm_vk := (if wd_vk_on w then (if wd_vk_load w path then Some path else None) else sm_vk s),
          sm_current := req_id,
          sm_chat_meta := read_gguf_chat_meta (map_option file_metadata.truncate (wd_file w path)),
          sm_goals := reencode_all (wd_goal_env w (sm_pool s) tok) (wd_time w) goals\<rparr>)"

definition select_model :: "'r swap_world \<Rightarrow> string \<Rightarrow> 'r server_models \<Rightarrow> swap_response \<times> 'r server_models" where
  "select_model w req_id s =
    (case wd_dir w of
       None \<Rightarrow> (No_models_dir, s)
     | Some dir \<Rightarrow>
         if trim req_id = [] then (Id_required, s)
         else (case find_model req_id [dir] of
             None \<Rightarrow> (Not_found, s)
           | Some path \<Rightarrow>
               (case gguf_architecture (wd_modified w) (wd_file w) (sm_arch_cache s) path of
                  (probed, cache) \<Rightarrow>
                    (let s1 = s\<lparr>sm_arch_cache := cache\<rparr>; arch = unwrap_or ''unknown'' probed in
                     if \<not> arch_is_supported arch then (Architecture_refused arch, s1)
                     else (case new_tokenizer w path of
                         Inl r \<Rightarrow> (r, s1)
                       | Inr tok \<Rightarrow>
                           (case swap_slots (wd_loads w) path 0 (sm_pool s) of
                              (Some i, pool) \<Rightarrow> (Load_failed i, s1\<lparr>sm_pool := pool\<rparr>)
                            | (None, pool) \<Rightarrow> (Selected, follow_model w req_id path tok (s1\<lparr>sm_pool := pool\<rparr>))))))))"

section \<open>The search finds what is there\<close>

fun file_in :: "string \<Rightarrow> string \<Rightarrow> entry \<Rightarrow> bool" where
  "file_in req_id p (Gguf_file stem path) = (stem = req_id \<and> path = p)"
| "file_in req_id p Other_file = False"
| "file_in req_id p (Directory es) = (\<exists>e \<in> set es. file_in req_id p e)"

definition listed :: "string \<Rightarrow> string \<Rightarrow> entry list list \<Rightarrow> bool" where
  "listed req_id p dirs = (\<exists>es \<in> set dirs. \<exists>e \<in> set es. file_in req_id p e)"

lemma scan_dir_listed:
  "scan_dir req_id es dirs = (Some p, dirs') \<Longrightarrow> listed req_id p (es # dirs)"
  "scan_dir req_id es dirs = (None, dirs') \<Longrightarrow> listed req_id q dirs' \<longleftrightarrow> listed req_id q (es # dirs)"
  by (induction req_id es dirs rule: scan_dir.induct) (auto simp: listed_def split: if_splits)

lemma find_model_listed: "case find_model req_id dirs of Some p \<Rightarrow> listed req_id p dirs | None \<Rightarrow> \<forall>p. \<not> listed req_id p dirs"
proof (induction req_id dirs rule: find_model.induct)
  case (2 req_id es dirs)
  obtain r dirs' where s: "scan_dir req_id es dirs = (r, dirs')"
    by fastforce
  show ?case
  proof (cases r)
    case None
    then show ?thesis
      using 2 [OF s [symmetric]] s scan_dir_listed(2) [of req_id es dirs dirs'] by (simp split: option.splits)
  next
    case (Some p)
    then show ?thesis
      using s scan_dir_listed(1) [of req_id es dirs p dirs'] by simp
  qed
qed (simp add: listed_def)

section \<open>The pool after a swap\<close>

text \<open>A slot with the new model: nothing in its caches, nothing in its record, its draft model as before.\<close>

definition swapped :: "(nat \<Rightarrow> 'r loader) \<Rightarrow> string \<Rightarrow> nat \<Rightarrow> 'r backend_slot \<Rightarrow> 'r backend_slot \<Rightarrow> bool" where
  "swapped loads path i sl sl' =
    (\<exists>L n d. loads i path (cb_max_seq_cap (sl_backend sl)) = Inr (L, n, d) \<and> slot_holds L [] sl' \<and> sl_prompt_cache sl' = [] \<and>
      max_seq (sl_backend sl') = ll_max_seq L \<and> sl_draft sl' = sl_draft sl \<and> sl_draft_prompt_cache sl' = sl_draft_prompt_cache sl)"

lemma kv_of_no_tokens: "kv_of L [] = replicate (length (ll_blocks L)) []"
  by (rule nth_equalityI) (use rows_kv_of [of _ L "[]"] in \<open>auto\<close>)

lemma load_swapped:
  assumes "load_model (loads i) path (unload_model (sl_backend sl)) = (Inr u, B)"
  shows "swapped loads path i sl (sl\<lparr>sl_backend := B, sl_prompt_cache := []\<rparr>)"
  using assms
  by (auto simp: load_model_def unload_model_def swapped_def slot_holds_def in_sync_def kv_of_no_tokens max_seq_def split: sum.splits)

lemma load_refused:
  assumes "load_model (loads i) path (unload_model (sl_backend sl)) = (Inl e, B)"
  shows "B = unload_model (sl_backend sl)"
  using assms by (auto simp: load_model_def split: sum.splits)

lemma swap_slots_outcome:
  assumes "swap_slots loads path i pool = (r, pool')"
  shows "length pool' = length pool \<and>
    (case r of
       None \<Rightarrow> \<forall>j < length pool. swapped loads path (i + j) (pool ! j) (pool' ! j)
     | Some k \<Rightarrow> i \<le> k \<and> k - i < length pool \<and> (\<forall>j < k - i. swapped loads path (i + j) (pool ! j) (pool' ! j)) \<and>
         pool' ! (k - i) = (pool ! (k - i))\<lparr>sl_backend := unload_model (sl_backend (pool ! (k - i)))\<rparr> \<and>
         drop (Suc (k - i)) pool' = drop (Suc (k - i)) pool)"
  using assms
proof (induction pool arbitrary: i r pool')
  case (Cons sl pool)
  obtain l B where ld: "load_model (loads i) path (unload_model (sl_backend sl)) = (l, B)"
    by fastforce
  show ?case
  proof (cases l)
    case (Inl e)
    then show ?thesis
      using Cons.prems ld load_refused [of loads i path sl e B] by auto
  next
    case (Inr u)
    obtain r1 rest where sw: "swap_slots loads path (Suc i) pool = (r1, rest)"
      by fastforce
    then have res: "r = r1" "pool' = sl\<lparr>sl_backend := B, sl_prompt_cache := []\<rparr> # rest"
      using Cons.prems ld Inr by auto
    note IH = Cons.IH [OF sw]
    have first: "swapped loads path i sl (sl\<lparr>sl_backend := B, sl_prompt_cache := []\<rparr>)"
      using load_swapped ld Inr by metis
    show ?thesis
    proof (cases r1)
      case None
      then show ?thesis
        using IH first res by (auto simp: nth_Cons split: nat.split)
    next
      case (Some k)
      then have k: "Suc i \<le> k" "k - i = Suc (k - Suc i)"
        using IH by auto
      then show ?thesis
        using IH first res Some by (auto simp: nth_Cons split: nat.split)
    qed
  qed
qed simp

section \<open>What is forgotten\<close>

lemma removed_entries:
  "entry_of (fold (\<lambda>key st. fst (remove key st)) keys st) k = (if k \<in> set keys then None else entry_of st k)"
proof (induction keys arbitrary: st)
  case (Cons key keys)
  have "entry_of (fst (remove key st)) k = (if k = key then None else entry_of st k)"
    by (simp add: entry_of_def remove_def remove_internal_entries)
  then show ?case
    by (auto simp: Cons.IH)
qed simp

lemma key_of_entry: "store_inv st \<Longrightarrow> entry_of st k = Some e \<Longrightarrow> me_key e = k"
  using store_invD(2) by (fastforce simp: entry_of_def entry_ok_def dest: map_of_SomeD)

lemma cleared_context:
  assumes "store_inv st" "\<And>xs. set (sorder xs) = set xs"
  shows "entry_of (clear_context sorder now st) k =
    (case entry_of st k of None \<Rightarrow> None
     | Some e \<Rightarrow> if md_category (me_metadata e) = Context \<and> \<not> is_expired e now then None else Some e)"
proof -
  have keys: "k \<in> me_key ` {e. \<exists>k. entry_of st k = Some e \<and> md_category (me_metadata e) = Context \<and> \<not> is_expired e now} \<longleftrightarrow>
      (\<exists>e. entry_of st k = Some e \<and> md_category (me_metadata e) = Context \<and> \<not> is_expired e now)"
    using key_of_entry [OF assms(1)] by (auto simp: image_iff) (metis key_of_entry [OF assms(1)])?
  show ?thesis
    unfolding clear_context_def removed_entries set_map set_query_by_category [OF assms] keys
    by (auto split: option.split)
qed

section \<open>What each response means\<close>

text \<open>
  C39: A selected model is on every slot of the pool with empty caches and an empty record, so that the first request on any of them
  starts from the new model alone; the tokenizer, the stop ids and the context window are its own, no vocabulary table is kept, and the resident engines
  run on its file or are off. When a slot fails to load, the slots before it are on the new model, it has no model, the slots after it
  are as they were, and everything else still belongs to the old model. Every other response leaves the models alone, and \<^verbatim>\<open>Not found\<close> is
  true.
\<close>

theorem select_model_outcome:
  assumes "select_model w req_id s = (r, s')"
  shows "case r of
      Selected \<Rightarrow> \<exists>path tok. new_tokenizer w path = Inr tok \<and> (\<exists>dir. wd_dir w = Some dir \<and> listed req_id path [dir]) \<and>
        length (sm_pool s') = length (sm_pool s) \<and>
        (\<forall>i < length (sm_pool s). swapped (wd_loads w) path i (sm_pool s ! i) (sm_pool s' ! i)) \<and>
        ap_tokenizer (sm_app s') = tok \<and> ap_table (sm_app s') = None \<and> sm_current s' = req_id \<and>
        (\<not> wd_first_poisoned w \<and> sm_pool s \<noteq> [] \<longrightarrow> ap_model_ctx (sm_app s') = max_seq (sl_backend (sm_pool s' ! 0))) \<and>
        (wd_gpu_on w \<longrightarrow> sm_gpu s' \<in> {None, Some path}) \<and> (wd_vk_on w \<longrightarrow> sm_vk s' \<in> {None, Some path})
    | Load_failed i \<Rightarrow> i < length (sm_pool s) \<and>
        (\<exists>path. \<forall>j < i. swapped (wd_loads w) path j (sm_pool s ! j) (sm_pool s' ! j)) \<and>
        cb_model (sl_backend (sm_pool s' ! i)) = None \<and> drop (Suc i) (sm_pool s') = drop (Suc i) (sm_pool s) \<and>
        s' = s\<lparr>sm_arch_cache := sm_arch_cache s', sm_pool := sm_pool s'\<rparr>
    | Not_found \<Rightarrow> s' = s \<and> (\<exists>dir. wd_dir w = Some dir \<and> (\<forall>path. \<not> listed req_id path [dir]))
    | _ \<Rightarrow> s' = s\<lparr>sm_arch_cache := sm_arch_cache s'\<rparr>"
proof (cases "wd_dir w")
  case None
  then show ?thesis
    using assms by (auto simp: select_model_def)
next
  case (Some dir)
  show ?thesis
  proof (cases "trim req_id = [] \<or> find_model req_id [dir] = None")
    case True
    then show ?thesis
      using assms Some find_model_listed [of req_id "[dir]"] by (auto simp: select_model_def split: option.splits if_splits)
  next
    case False
    then obtain path where path: "find_model req_id [dir] = Some path" "trim req_id \<noteq> []"
      by auto
    then have there: "listed req_id path [dir]"
      using find_model_listed [of req_id "[dir]"] by simp
    obtain probed cache where probe: "gguf_architecture (wd_modified w) (wd_file w) (sm_arch_cache s) path = (probed, cache)"
      by fastforce
    show ?thesis
    proof (cases "arch_is_supported (unwrap_or ''unknown'' probed) \<and> (\<exists>tok. new_tokenizer w path = Inr tok)")
      case False
      then show ?thesis
        using assms Some path probe
        by (cases "new_tokenizer w path") (auto simp: select_model_def new_tokenizer_def Let_def split: option.splits if_splits)
    next
      case True
      then obtain tok where tok: "new_tokenizer w path = Inr tok"
        by blast
      obtain failed pool where sw: "swap_slots (wd_loads w) path 0 (sm_pool s) = (failed, pool)"
        by fastforce
      note out = swap_slots_outcome [OF sw, unfolded diff_zero add_0]
      have run: "(r, s') = (case failed of Some i \<Rightarrow> (Load_failed i, s\<lparr>sm_arch_cache := cache, sm_pool := pool\<rparr>)
          | None \<Rightarrow> (Selected, follow_model w req_id path tok (s\<lparr>sm_arch_cache := cache, sm_pool := pool\<rparr>)))"
        using assms Some path probe True tok sw by (auto simp: select_model_def Let_def split: option.splits)
      show ?thesis
      proof (cases failed)
        case None
        then have s': "r = Selected" "s' = follow_model w req_id path tok (s\<lparr>sm_arch_cache := cache, sm_pool := pool\<rparr>)"
          using run by simp_all
        have "sm_pool s' = pool"
          by (simp add: s'(2) follow_model_def Let_def)
        then show ?thesis
          using out None tok there Some unfolding s'(1) swap_response.case
          by (intro exI [of _ path] exI [of _ tok]) (auto simp: s'(2) follow_model_def Let_def split: list.split)
      next
        case (Some i)
        then show ?thesis
          using run out by (auto simp: unload_model_def)
      qed
    qed
  qed
qed

text \<open>A pool of two slots whose second load fails: the first slot has the new model, the second none, the tokenizer is the old one.\<close>

definition split_world :: "f32 swap_world" where
  "split_world = \<lparr>wd_dir = Some [Gguf_file ''m'' ''m.gguf''], wd_modified = (\<lambda>_. None),
     wd_file = (\<lambda>_. Some \<lparr>fm_string = [''general.architecture'' \<mapsto> ''llama''], fm_u32 = Map.empty, gm_key = (\<lambda>_. False), gm_f32 = Map.empty,
        gm_bool = Map.empty, gm_strings = Map.empty, gm_ints = Map.empty\<rparr>),
     wd_tokenizer_json = (\<lambda>_. None), wd_gguf_tokenizer = (\<lambda>_. Some byte_tokenizer),
     wd_loads = (\<lambda>i path cap. if i = 0 then Inr (demo_llama, 1, 1) else Inl ''memory''), wd_first_poisoned = False, wd_gpu_on = False,
     wd_gpu_load = (\<lambda>_. False), wd_vk_on = False, wd_vk_load = (\<lambda>_. False), wd_cb_swap = (\<lambda>_. False),
     wd_goal_env = (\<lambda>_ _. GoalManager.demo_env), wd_sorder = (\<lambda>xs. xs), wd_time = 0\<rparr>"

definition two_slots :: "f32 server_models" where
  "two_slots = \<lparr>sm_pool = [demo_slot [0] [0], demo_slot [1] [1]], sm_app = byte_app, sm_chat_meta = \<lparr>cm_template = None, cm_stop_ids = [], cm_bos_id = None\<rparr>,
     sm_current = ''old'', sm_goals = demo_gm [], sm_arch_cache = Map.empty, sm_gpu = None, sm_vk = None, sm_cb = None\<rparr>"

theorem select_model_outcome_witness:
  "\<exists>s'. select_model split_world ''m'' two_slots = (Load_failed 1, s') \<and> slot_holds demo_llama [] (sm_pool s' ! 0) \<and>
    cb_model (sl_backend (sm_pool s' ! 1)) = None \<and> sm_current s' = ''old''"
proof -
  obtain r s' where sel: "select_model split_world ''m'' two_slots = (r, s')"
    by fastforce
  have "r = Load_failed 1"
    using sel
    by (auto simp: select_model_def split_world_def two_slots_def trim_def white_def gguf_architecture_def or_default_def unwrap_or_def
        arch_is_supported_def spec_for_def eq_ignore_ascii_case_def llama_spec_def new_tokenizer_def load_model_def demo_slot_def unload_model_def
        demo_candle_def Let_def)
  then have "\<exists>path. \<forall>j < 1. swapped (wd_loads split_world) path j (sm_pool two_slots ! j) (sm_pool s' ! j)"
    "cb_model (sl_backend (sm_pool s' ! 1)) = None" "s' = two_slots\<lparr>sm_arch_cache := sm_arch_cache s', sm_pool := sm_pool s'\<rparr>"
    using select_model_outcome [OF sel] by auto
  moreover from this(3) have "sm_current s' = ''old''"
    by (metis two_slots_def server_models.select_convs(4) server_models.surjective server_models.update_convs(1,6))
  ultimately show ?thesis
    using sel \<open>r = Load_failed 1\<close> by (auto simp: swapped_def split_world_def)
qed

end
