(* ===== verification/Catalog.thy ===== *)
theory Catalog
  imports ModelSwap "HOL-Library.List_Lexorder" "HOL-Library.Char_ord" "HOL-Library.Product_Lexorder"
begin

text \<open>
  The catalogue of models in \<^verbatim>\<open>src/src/server/rest.rs\<close>: \<^verbatim>\<open>list_models\<close>, which walks the directory that \<open>select_model\<close> of
  \<open>ModelSwap\<close> searches, and \<^verbatim>\<open>download_model\<close>, which adds to it. The lemmas state what the list holds and how far it agrees
  with a selection, and what a download touches.
\<close>

section \<open>The list\<close>

text \<open>An entry of the answer; the three options are the fields that a model outside the directory does not have.\<close>

record model_entry =
  mi_id :: string
  mi_size_bytes :: "nat option"
  mi_current :: bool
  mi_loadable :: bool
  mi_architecture :: "string option"
  mi_path :: "string option"

record listing =
  li_entries :: "model_entry list"
  li_seen_current :: bool
  li_cache :: arch_cache

definition file_entry :: "(string \<Rightarrow> nat) \<Rightarrow> 'r swap_world \<Rightarrow> string \<Rightarrow> string \<Rightarrow> string \<Rightarrow> string option \<Rightarrow> model_entry" where
  "file_entry size_of w current stem path arch =
    \<lparr>mi_id = stem, mi_size_bytes = Some (size_of path), mi_current = (stem = current),
     mi_loadable = (wd_tokenizer_json w path \<noteq> None \<and> (case arch of None \<Rightarrow> False | Some a \<Rightarrow> arch_is_supported a)),
     mi_architecture = Some (unwrap_or ''unknown'' arch), mi_path = Some path\<rparr>"

definition loaded_entry :: "string \<Rightarrow> model_entry" where
  "loaded_entry current =
    \<lparr>mi_id = current, mi_size_bytes = None, mi_current = True, mi_loadable = True, mi_architecture = None, mi_path = None\<rparr>"

definition list_file :: "(string \<Rightarrow> nat) \<Rightarrow> 'r swap_world \<Rightarrow> string \<Rightarrow> string \<Rightarrow> string \<Rightarrow> listing \<Rightarrow> listing" where
  "list_file size_of w current stem path li =
    (if stem = [] then li
     else (case gguf_architecture (wd_modified w) (wd_file w) (li_cache li) path of
         (arch, cache) \<Rightarrow>
           \<lparr>li_entries = li_entries li @ [file_entry size_of w current stem path arch],
            li_seen_current = (li_seen_current li \<or> stem = current), li_cache = cache\<rparr>))"

fun list_dir :: "(string \<Rightarrow> nat) \<Rightarrow> 'r swap_world \<Rightarrow> string \<Rightarrow> entry list \<Rightarrow> entry list list \<Rightarrow> listing \<Rightarrow> entry list list \<times> listing" where
  "list_dir size_of w current [] dirs li = (dirs, li)"
| "list_dir size_of w current (Directory es # rest) dirs li = list_dir size_of w current rest (es # dirs) li"
| "list_dir size_of w current (Gguf_file stem path # rest) dirs li =
    list_dir size_of w current rest dirs (list_file size_of w current stem path li)"
| "list_dir size_of w current (Other_file # rest) dirs li = list_dir size_of w current rest dirs li"

lemma list_dir_size: "list_dir size_of w current es dirs li = (dirs', li') \<Longrightarrow> walk_size dirs' \<le> walk_size dirs + size_list size es"
  by (induction size_of w current es dirs li rule: list_dir.induct) (force simp: walk_size_def)+

function list_walk :: "(string \<Rightarrow> nat) \<Rightarrow> 'r swap_world \<Rightarrow> string \<Rightarrow> entry list list \<Rightarrow> listing \<Rightarrow> listing" where
  "list_walk size_of w current [] li = li"
| "list_walk size_of w current (es # dirs) li =
    (case list_dir size_of w current es dirs li of (dirs', li') \<Rightarrow> list_walk size_of w current dirs' li')"
  by pat_completeness auto
termination
proof (relation "measure (\<lambda>(size_of, w, current, dirs, li). walk_size dirs)", goal_cases)
  case (2 size_of w current es dirs li dirs' li')
  then have "list_dir size_of w current es dirs li = (dirs', li')"
    by simp
  from list_dir_size [OF this] show ?case
    by (simp add: walk_size_def)
qed simp

text \<open>The model that runs comes first, then the order of the names, byte by byte; the sort is stable.\<close>

definition list_models :: "(string \<Rightarrow> nat) \<Rightarrow> 'r swap_world \<Rightarrow> string \<Rightarrow> arch_cache \<Rightarrow> model_entry list \<times> arch_cache" where
  "list_models size_of w current cache =
    (let none = \<lparr>li_entries = [], li_seen_current = False, li_cache = cache\<rparr>;
         li = (case wd_dir w of None \<Rightarrow> none | Some dir \<Rightarrow> list_walk size_of w current [dir] none);
         outside = (if \<not> li_seen_current li \<and> current \<noteq> [] \<and> current \<noteq> ''zllm'' then [loaded_entry current] else []);
         entries = li_entries li @ outside
     in (sort_key (\<lambda>e. (\<not> mi_current e, mi_id e)) (if entries = [] then [loaded_entry current] else entries), li_cache li))"

section \<open>What the list holds\<close>

definition true_arch :: "'r swap_world \<Rightarrow> string \<Rightarrow> string option" where
  "true_arch w path = Option.bind (wd_file w path) (\<lambda>md. fm_string md ''general.architecture'')"

definition true_entry :: "(string \<Rightarrow> nat) \<Rightarrow> 'r swap_world \<Rightarrow> string \<Rightarrow> string \<Rightarrow> string \<Rightarrow> model_entry" where
  "true_entry size_of w current stem path = file_entry size_of w current stem path (true_arch w path)"

definition entries_of :: "(string \<Rightarrow> nat) \<Rightarrow> 'r swap_world \<Rightarrow> string \<Rightarrow> entry list list \<Rightarrow> model_entry set" where
  "entries_of size_of w current dirs = {true_entry size_of w current stem path | stem path. stem \<noteq> [] \<and> listed stem path dirs}"

abbreviation cache_ok :: "'r swap_world \<Rightarrow> arch_cache \<Rightarrow> bool" where
  "cache_ok w \<equiv> cache_true (wd_modified w) (wd_file w)"

lemma list_file_entries:
  assumes "cache_ok w (li_cache li)"
  shows "set (li_entries (list_file size_of w current stem path li)) =
      set (li_entries li) \<union> (if stem = [] then {} else {true_entry size_of w current stem path}) \<and>
    cache_ok w (li_cache (list_file size_of w current stem path li)) \<and>
    (li_seen_current (list_file size_of w current stem path li) \<longleftrightarrow> li_seen_current li \<or> (stem \<noteq> [] \<and> stem = current))"
proof -
  obtain arch cache where g: "gguf_architecture (wd_modified w) (wd_file w) (li_cache li) path = (arch, cache)"
    by fastforce
  show ?thesis
    using probe_true [OF assms g] assms g by (auto simp: list_file_def true_entry_def true_arch_def)
qed

lemma listed_cons:
  "listed s p ([] # dirs) = listed s p dirs"
  "listed s p ((Directory es # rest) # dirs) = listed s p (rest # es # dirs)"
  "listed s p ((Gguf_file stem path # rest) # dirs) = (listed s p (rest # dirs) \<or> (s = stem \<and> p = path))"
  "listed s p ((Other_file # rest) # dirs) = listed s p (rest # dirs)"
  "listed s p [] = False"
  by (auto simp: listed_def)

lemma list_dir_entries:
  assumes "list_dir size_of w current es dirs li = (dirs', li')" "cache_ok w (li_cache li)"
  shows "set (li_entries li) \<union> entries_of size_of w current (es # dirs) = set (li_entries li') \<union> entries_of size_of w current dirs' \<and>
    cache_ok w (li_cache li') \<and>
    (li_seen_current li \<or> (current \<noteq> [] \<and> (\<exists>p. listed current p (es # dirs))) \<longleftrightarrow>
      li_seen_current li' \<or> (current \<noteq> [] \<and> (\<exists>p. listed current p dirs')))"
  using assms
proof (induction size_of w current es dirs li rule: list_dir.induct)
  case (3 size_of w current stem path rest dirs li)
  note added = list_file_entries [OF 3(3), of size_of current stem path]
  have "set (li_entries li) \<union> entries_of size_of w current ((Gguf_file stem path # rest) # dirs) =
      set (li_entries (list_file size_of w current stem path li)) \<union> entries_of size_of w current (rest # dirs)"
    using added by (auto simp: entries_of_def listed_cons)
  moreover have "li_seen_current li \<or> (current \<noteq> [] \<and> (\<exists>p. listed current p ((Gguf_file stem path # rest) # dirs))) \<longleftrightarrow>
      li_seen_current (list_file size_of w current stem path li) \<or> (current \<noteq> [] \<and> (\<exists>p. listed current p (rest # dirs)))"
    using added by (auto simp: listed_cons)
  ultimately show ?case
    using 3 added by simp
qed (simp_all add: listed_cons entries_of_def)

lemma list_walk_entries:
  assumes "cache_ok w (li_cache li)"
  shows "set (li_entries (list_walk size_of w current dirs li)) = set (li_entries li) \<union> entries_of size_of w current dirs \<and>
    cache_ok w (li_cache (list_walk size_of w current dirs li)) \<and>
    (li_seen_current (list_walk size_of w current dirs li) \<longleftrightarrow> li_seen_current li \<or> (current \<noteq> [] \<and> (\<exists>p. listed current p dirs)))"
  using assms
proof (induction size_of w current dirs li rule: list_walk.induct)
  case (2 size_of w current es dirs li)
  obtain dirs' li' where d: "list_dir size_of w current es dirs li = (dirs', li')"
    by fastforce
  show ?case
    using 2 d list_dir_entries [OF d] by simp
qed (simp add: entries_of_def listed_cons)

lemma entries_of_current: "(\<exists>e \<in> entries_of size_of w current dirs. mi_current e) \<longleftrightarrow> current \<noteq> [] \<and> (\<exists>p. listed current p dirs)"
proof -
  have "mi_current (true_entry size_of w current stem path) \<longleftrightarrow> stem = current" for stem path
    by (simp add: true_entry_def file_entry_def)
  then have "(\<exists>e \<in> entries_of size_of w current dirs. mi_current e) \<longleftrightarrow> (\<exists>stem path. stem \<noteq> [] \<and> listed stem path dirs \<and> stem = current)"
    unfolding entries_of_def bex_simps by metis
  then show ?thesis
    by blast
qed

text \<open>
  The list has exactly the files of the directory with a name, each described by what the file says, the running model first and the
  others by name; a running model that is not among them is added, unless it is the stand-in \<^verbatim>\<open>zllm\<close> and there are files. It is never
  empty, and the cache of probes stays true.
\<close>

theorem list_models_exact:
  assumes "list_models size_of w current cache = (entries, cache')" "cache_ok w cache"
  defines "files \<equiv> (case wd_dir w of None \<Rightarrow> {} | Some dir \<Rightarrow> entries_of size_of w current [dir])"
  shows "set entries = (if (\<forall>e \<in> files. \<not> mi_current e) \<and> (files = {} \<or> current \<notin> {[], ''zllm''})
      then insert (loaded_entry current) files else files) \<and>
    sorted (map (\<lambda>e. (\<not> mi_current e, mi_id e)) entries) \<and> entries \<noteq> [] \<and> cache_ok w cache'"
proof -
  let ?none = "\<lparr>li_entries = [], li_seen_current = False, li_cache = cache\<rparr>"
  obtain li where li: "li = (case wd_dir w of None \<Rightarrow> ?none | Some dir \<Rightarrow> list_walk size_of w current [dir] ?none)"
    by blast
  have walked: "set (li_entries li) = files" "cache_ok w (li_cache li)" "li_seen_current li \<longleftrightarrow> (\<exists>e \<in> files. mi_current e)"
    using assms(2) list_walk_entries [of w ?none size_of current] entries_of_current [of size_of w current]
    by (cases "wd_dir w"; simp add: li files_def del: list_walk.simps)+
  have out: "entries = sort_key (\<lambda>e. (\<not> mi_current e, mi_id e))
      (let es = li_entries li @ (if \<not> li_seen_current li \<and> current \<noteq> [] \<and> current \<noteq> ''zllm'' then [loaded_entry current] else [])
       in if es = [] then [loaded_entry current] else es)" "cache' = li_cache li"
    using assms(1) by (auto simp: list_models_def li Let_def)
  have none: "li_entries li = [] \<longleftrightarrow> files = {}"
    using walked(1) by (metis set_empty)
  have "set entries = (if (\<forall>e \<in> files. \<not> mi_current e) \<and> (files = {} \<or> current \<notin> {[], ''zllm''})
      then insert (loaded_entry current) files else files)"
    unfolding out(1) set_sort Let_def using walked none by auto
  moreover from this have "entries \<noteq> []"
    by (cases "files = {}") (auto split: if_splits)
  ultimately show ?thesis
    using walked(2) out by (simp add: sorted_sort_key)
qed

text \<open>
  What the list calls loadable, the selection accepts: for a name that one file has, it comes to the loading of the pool, or stops at a
  \<^verbatim>\<open>tokenizer.json\<close> that cannot be read.
\<close>

theorem loadable_selects:
  assumes "list_models size_of w current cache = (entries, cache')" "cache_ok w cache" "cache_ok w (sm_arch_cache s)"
    and "wd_dir w = Some dir" "e \<in> set entries" "mi_path e = Some path" "mi_loadable e" "trim (mi_id e) \<noteq> []"
    and "\<And>q. listed (mi_id e) q [dir] \<Longrightarrow> q = path"
    and "select_model w (mi_id e) s = (r, s')"
  shows "r = Selected \<or> r = Tokenizer_json_failed \<or> (\<exists>i. r = Load_failed i)"
proof -
  have "set entries \<subseteq> insert (loaded_entry current) (entries_of size_of w current [dir])"
    using list_models_exact [OF assms(1,2)] assms(4) by (auto split: if_splits)
  then have "e \<in> entries_of size_of w current [dir]"
    using assms(5,6) by (auto simp: loaded_entry_def)
  then obtain stem p where e: "e = true_entry size_of w current stem p" "listed stem p [dir]"
    unfolding entries_of_def by blast
  then have there: "listed (mi_id e) path [dir]" and tok: "wd_tokenizer_json w path \<noteq> None"
    and arch: "case true_arch w path of None \<Rightarrow> False | Some a \<Rightarrow> arch_is_supported a"
    using assms(6,7) by (auto simp: true_entry_def file_entry_def)
  have "find_model (mi_id e) [dir] = Some path"
  proof (cases "find_model (mi_id e) [dir]")
    case None
    then show ?thesis
      using there find_model_listed [of "mi_id e" "[dir]"] by (simp del: find_model.simps)
  next
    case (Some q)
    then show ?thesis
      using find_model_listed [of "mi_id e" "[dir]"] assms(9) [of q] by (simp del: find_model.simps)
  qed
  moreover obtain cache1 where "gguf_architecture (wd_modified w) (wd_file w) (sm_arch_cache s) path = (true_arch w path, cache1)"
    using probe_true(1) [OF assms(3)] by (metis true_arch_def surj_pair)
  moreover obtain a where "true_arch w path = Some a" "arch_is_supported a"
    using arch by (auto split: option.splits)
  moreover have "new_tokenizer w path = Inl Tokenizer_json_failed \<or> (\<exists>t. new_tokenizer w path = Inr t)"
    using tok by (auto simp: new_tokenizer_def split: option.split)
  ultimately show ?thesis
    using assms(4,8,10) unfolding select_model_def Let_def
    by (cases "swap_slots (wd_loads w) path 0 (sm_pool s)") (auto simp: unwrap_or_def simp del: find_model.simps split: option.splits)
qed

text \<open>
  The converse fails: a file without \<^verbatim>\<open>tokenizer.json\<close> is never listed as loadable, but its own vocabulary is enough for the selection.
\<close>

definition bare_world :: "f32 swap_world" where
  "bare_world = split_world\<lparr>wd_loads := (\<lambda>i path cap. Inr (demo_llama, 1, 1))\<rparr>"

theorem unloadable_selects:
  "(\<exists>e. fst (list_models size_of bare_world ''old'' Map.empty) = [loaded_entry ''old'', e] \<and> mi_id e = ''m'' \<and> \<not> mi_loadable e) \<and>
    fst (select_model bare_world ''m'' two_slots) = Selected"
proof -
  have "fst (select_model bare_world ''m'' two_slots) = Selected"
    by (simp add: select_model_def bare_world_def split_world_def two_slots_def trim_def white_def gguf_architecture_def or_default_def
        unwrap_or_def arch_is_supported_def spec_for_def eq_ignore_ascii_case_def llama_spec_def new_tokenizer_def load_model_def demo_slot_def
        unload_model_def demo_candle_def Let_def)
  moreover have "\<exists>e. fst (list_models size_of bare_world ''old'' Map.empty) = [loaded_entry ''old'', e] \<and> mi_id e = ''m'' \<and> \<not> mi_loadable e"
    by (simp add: list_models_def bare_world_def split_world_def list_file_def gguf_architecture_def file_entry_def loaded_entry_def
        or_default_def Let_def)
  ultimately show ?thesis
    by blast
qed

end
