(* ===== verification/Handlers.thy ===== *)
theory Handlers
  imports Requests
begin

text \<open>
  The other handlers of \<^verbatim>\<open>src/src/server/rest.rs\<close> that reach an engine: text completions, the entry to the batch server and the stream
  of its chat answers, and embeddings; with the encoder of goals that \<^verbatim>\<open>src/src/main.rs\<close> builds. The lemmas show that an accepted
  completion fits the window and enforces its grammar, that a batched stream carries exactly the collected answer, and that the
  embeddings are the vectors the goals are stored under.
\<close>

section \<open>Text completions\<close>

record completion_request =
  tq_max_tokens :: nat
  tq_temperature :: "f32 option"
  tq_top_p :: "f32 option"
  tq_top_k :: "nat option"
  tq_min_p :: "f32 option"
  tq_seed :: "nat option"
  tq_stop :: "stop_param option"
  tq_presence_penalty :: "f32 option"
  tq_frequency_penalty :: "f32 option"
  tq_repeat_penalty :: "f32 option"
  tq_logit_bias :: "(string \<times> f32) list option"
  tq_n :: "nat option"
  tq_best_of :: "nat option"
  tq_grammar :: "string option"
  tq_detect_hallucination :: "bool option"
  tq_logprobs :: "nat option"

definition plan_completion ::
  "grammar_env \<Rightarrow> 'g rng_ops \<Rightarrow> ((string \<times> f32) list \<Rightarrow> (string \<times> f32) list) \<Rightarrow> sampler_config \<Rightarrow> token list option \<Rightarrow> completion_request \<Rightarrow> app_state
     \<Rightarrow> (request_error + 'g chat_plan) \<times> app_state" where
  "plan_completion ge rg order engine encoded req ap =
    (case encoded of
       None \<Rightarrow> (Inl Tokenize_failed, ap)
     | Some tokens \<Rightarrow>
         if 0 < ap_model_ctx ap \<and> ap_model_ctx ap \<le> length tokens
         then (Inl (Context_length_exceeded (ap_model_ctx ap) (length tokens)), ap)
         else (case admit (ap_max_concurrent ap) (ap_active ap) of
             (False, now) \<Rightarrow> (Inl (Saturated now (ap_max_concurrent ap)), ap\<lparr>ap_active := drop_guard now\<rparr>)
           | (True, now) \<Rightarrow>
               (let refused = (\<lambda>e table. (Inl e, ap\<lparr>ap_active := drop_guard now, ap_table := table\<rparr>)) in
                if 1 < unwrap_or 1 (tq_n req) \<or> 1 < unwrap_or 1 (tq_best_of req) then refused Several_choices (ap_table ap)
                else (case (case tq_grammar req of None \<Rightarrow> (Inr None, ap_table ap)
                        | Some g \<Rightarrow> (case fsm_from_grammar ge (ap_tokenizer ap) (ap_table ap) g of
                            (Inl e, t) \<Rightarrow> (Inl e, t) | (Inr f, t) \<Rightarrow> (Inr (Some f), t))) of
                    (Inl e, t) \<Rightarrow> refused e t
                  | (Inr fsm, t) \<Rightarrow>
                      (Inr \<lparr>cp_max_tokens = (if 0 < ap_model_ctx ap
                              then min (tq_max_tokens req) (max (ap_model_ctx ap - length tokens) 1) else tq_max_tokens req),
                            cp_sampler = (sampler_from_request engine (tq_temperature req) (tq_top_p req) (tq_top_k req))
                              \<lparr>sc_min_p := unwrap_or (Fin 0) (tq_min_p req)\<rparr>,
                            cp_ctrl = build_decode_ctrl rg order (tq_stop req) (tq_presence_penalty req) (tq_frequency_penalty req)
                              (tq_repeat_penalty req) (tq_logit_bias req) (tq_seed req),
                            cp_tool = None, cp_fsm = fsm\<rparr>,
                       ap\<lparr>ap_active := now, ap_table := t\<rparr>)))))"

text \<open>The lane of a completion: never a stream, never the batch server.\<close>

definition completion_lane :: "'g chat_env \<Rightarrow> lane_flags \<Rightarrow> nat \<Rightarrow> completion_request \<Rightarrow> 'g chat_plan \<Rightarrow> lane" where
  "completion_lane env fl prompt_len req plan =
    pick_lane env (cp_sampler plan) fl prompt_len (cp_max_tokens plan) (cp_ctrl plan) (cp_fsm plan \<noteq> None)
      (unwrap_or False (tq_detect_hallucination req)) (tq_logprobs req \<noteq> None)"

text \<open>
  An accepted completion fits the window, and a grammar it names is compiled and takes it to the CPU back end, the only engine that
  masks.
\<close>

theorem completion_accepted:
  assumes "plan_completion ge rg order engine (Some prompt) req ap = (Inr plan, ap')"
  shows "(0 < ap_model_ctx ap \<longrightarrow> length prompt + cp_max_tokens plan \<le> ap_model_ctx ap) \<and> ap_active ap < ap_max_concurrent ap \<and>
    ap_active ap' = ap_active ap + 1 \<and>
    (\<forall>g. tq_grammar req = Some g \<longrightarrow>
      (\<exists>f t. cp_fsm plan = Some f \<and> compile_grammar ge g t = Inr f \<and> completion_lane env fl n req plan = Candle_lane))"
proof -
  have "cp_fsm plan \<noteq> None \<Longrightarrow> completion_lane env fl n req plan = Candle_lane"
    by (simp add: completion_lane_def pick_lane_def Let_def)
  moreover have "\<exists>f t. cp_fsm plan = Some f \<and> compile_grammar ge g t = Inr f" if "tq_grammar req = Some g" for g
    using assms that unfolding plan_completion_def Let_def
    by (auto split: if_splits sum.splits prod.splits bool.splits dest!: fsm_compiled)
  moreover have "(0 < ap_model_ctx ap \<longrightarrow> length prompt + cp_max_tokens plan \<le> ap_model_ctx ap) \<and> ap_active ap < ap_max_concurrent ap \<and>
      ap_active ap' = ap_active ap + 1"
    using assms unfolding plan_completion_def Let_def admit_def
    by (auto split: if_splits sum.splits prod.splits bool.splits option.splits)
  ultimately show ?thesis
    by fastforce
qed

section \<open>The batch server\<close>

text \<open>The sampling a chat request asks of the batch server, and that of its own entry point.\<close>

definition batch_params :: "sampler_config \<Rightarrow> sampling_params" where
  "batch_params cfg =
    (if f32_le (sc_temperature cfg) (Fin 0) then greedy_params
     else \<lparr>sp_temp = sc_temperature cfg, sp_top_k = sc_top_k cfg, sp_top_p = sc_top_p cfg\<rparr>)"

record cb_request =
  cb_max_tokens :: nat
  cb_stream :: bool
  cb_temperature :: "f32 option"
  cb_top_k :: "nat option"
  cb_top_p :: "f32 option"
  cb_seed :: "nat option"

definition cb_params :: "cb_request \<Rightarrow> sampling_params" where
  "cb_params req =
    \<lparr>sp_temp = unwrap_or (Fin 0) (cb_temperature req), sp_top_k = unwrap_or 0 (cb_top_k req), sp_top_p = unwrap_or (Fin 1) (cb_top_p req)\<rparr>"

text \<open>The stream of a batched chat completion: the channel up to a stop token, the mark of its end, or the client that leaves.\<close>

fun cb_stream_items :: "'g chat_env \<Rightarrow> (nat \<Rightarrow> bool) \<Rightarrow> token \<Rightarrow> token \<Rightarrow> token option list \<Rightarrow> sse_event list \<Rightarrow> sse_event list" where
  "cb_stream_items env alive eos stop [] evs = evs"
| "cb_stream_items env alive eos stop (None # items) evs = evs"
| "cb_stream_items env alive eos stop (Some t # items) evs =
    (if t = eos \<or> t = stop then evs
     else (case send alive (Delta (unwrap_or [] (ce_decode env [t]))) evs of
         (False, evs') \<Rightarrow> evs' | (True, evs') \<Rightarrow> cb_stream_items env alive eos stop items evs'))"

definition cb_chat_stream :: "'g chat_env \<Rightarrow> (nat \<Rightarrow> bool) \<Rightarrow> token \<Rightarrow> token \<Rightarrow> token option list \<Rightarrow> sse_event list" where
  "cb_chat_stream env alive eos stop items =
    end_stream alive ''stop'' (cb_stream_items env alive eos stop items (snd (send alive Role_chunk [])))"

lemma cb_stream_collects:
  "(\<And>n. alive n) \<Longrightarrow> cb_chat_stream env alive eos stop items =
    Role_chunk # map (\<lambda>t. Delta (unwrap_or [] (ce_decode env [t]))) (cb_collect eos stop items) @ [Finish_chunk ''stop'', Done_chunk]"
proof -
  assume alive: "\<And>n. alive n"
  have "cb_stream_items env alive eos stop items evs = evs @ map (\<lambda>t. Delta (unwrap_or [] (ce_decode env [t]))) (cb_collect eos stop items)" for evs
    by (induction eos stop items arbitrary: evs rule: cb_collect.induct) (auto simp: send_def alive)
  then show ?thesis
    by (simp add: cb_chat_stream_def end_stream_def send_def alive)
qed

section \<open>Embeddings\<close>

text \<open>The mean of the rows, scaled to length one; \<open>None\<close> is the panic of \<^verbatim>\<open>chunks_exact\<close> for rows of width 0.\<close>

definition mean_pool :: "f32_math \<Rightarrow> nat \<Rightarrow> tensor \<Rightarrow> tensor" where
  "mean_pool m n flat =
    (let d = length flat div n;
         mean = foldl (map2 (f_add m)) (replicate d (Fin 0)) (split_rows (length flat div d) d flat);
         inv_n = f_div m (Fin 1) (f_of_nat m n);
         scaled = map (\<lambda>x. f_mul m x inv_n) mean;
         norm = vector_norm m scaled
     in if f32_lt (Fin 0) norm then map (\<lambda>x. f_div m x norm) scaled else scaled)"

datatype embeddings_error = No_inputs | Tokenized_to_nothing nat | Input_not_tokenized nat | Lookup_failed

fun embed_inputs ::
  "f32_math \<Rightarrow> (string \<Rightarrow> token list option) \<Rightarrow> 'r candle \<Rightarrow> nat \<Rightarrow> tensor list \<Rightarrow> nat \<Rightarrow> string list
     \<Rightarrow> (embeddings_error + tensor list \<times> nat) option" where
  "embed_inputs m enc B i vs used [] = Some (Inr (vs, used))"
| "embed_inputs m enc B i vs used (text # rest) =
    (case enc text of
       None \<Rightarrow> Some (Inl (Input_not_tokenized i))
     | Some ids \<Rightarrow>
         if ids = [] then Some (Inl (Tokenized_to_nothing i))
         else (case candle_embed_tokens ids B of
             Inl e \<Rightarrow> Some (Inl Lookup_failed)
           | Inr flat \<Rightarrow>
               if length flat div length ids = 0 then None
               else embed_inputs m enc B (Suc i) (vs @ [mean_pool m (length ids) flat]) (used + length ids) rest))"

definition embeddings ::
  "f32_math \<Rightarrow> (string \<Rightarrow> token list option) \<Rightarrow> 'r backend_slot \<Rightarrow> string list \<Rightarrow> (embeddings_error + tensor list \<times> nat) option" where
  "embeddings m enc slot inputs = (if inputs = [] then Some (Inl No_inputs) else embed_inputs m enc (sl_backend slot) 0 [] 0 inputs)"

text \<open>The encoder of goals takes the first free slot that can look the tokens up.\<close>

fun first_embedding :: "token list \<Rightarrow> (slot_lock \<times> 'r backend_slot) list \<Rightarrow> tensor option" where
  "first_embedding ids [] = None"
| "first_embedding ids ((lock, slot) # rest) =
    (if lock = Unlocked
     then (case candle_embed_tokens ids (sl_backend slot) of Inr flat \<Rightarrow> Some flat | Inl e \<Rightarrow> first_embedding ids rest)
     else first_embedding ids rest)"

definition goal_encoder :: "f32_math \<Rightarrow> (string \<Rightarrow> token list option) \<Rightarrow> (slot_lock \<times> 'r backend_slot) list \<Rightarrow> string \<Rightarrow> tensor option" where
  "goal_encoder m enc pool text =
    (case enc text of
       None \<Rightarrow> None
     | Some ids \<Rightarrow>
         if ids = [] then None
         else (case first_embedding ids pool of
             None \<Rightarrow> None
           | Some flat \<Rightarrow> if length flat div length ids = 0 then None else Some (mean_pool m (length ids) flat)))"

lemma same_lookup: "cb_model B = cb_model B' \<Longrightarrow> candle_embed_tokens ids B = candle_embed_tokens ids B'"
  by (simp add: candle_embed_tokens_def)

lemma first_embedding_free:
  assumes "\<forall>(lock, slot) \<in> set pool. cb_model (sl_backend slot) = cb_model B" "\<exists>slot. (Unlocked, slot) \<in> set pool"
  shows "first_embedding ids pool = (case candle_embed_tokens ids B of Inl e \<Rightarrow> None | Inr flat \<Rightarrow> Some flat)"
proof -
  have "\<forall>(lock, slot) \<in> set pool. candle_embed_tokens ids (sl_backend slot) = candle_embed_tokens ids B"
    using assms(1) same_lookup by fast
  then have "first_embedding ids pool =
      (if \<exists>slot. (Unlocked, slot) \<in> set pool then (case candle_embed_tokens ids B of Inl e \<Rightarrow> None | Inr flat \<Rightarrow> Some flat) else None)"
    by (induction ids pool rule: first_embedding.induct) (auto split: sum.splits)
  then show ?thesis
    using assms(2) by simp
qed

text \<open>
  The vectors of the API are the vectors goals are stored under: with a free slot in a pool that runs one model, the encoder of goals
  gives for every input what the handler answers.
\<close>

theorem embeddings_match_goals:
  assumes "embeddings m enc slot inputs = Some (Inr (vs, used))"
    and "\<forall>(lock, sl) \<in> set pool. cb_model (sl_backend sl) = cb_model (sl_backend slot)" "\<exists>sl. (Unlocked, sl) \<in> set pool"
  shows "map (goal_encoder m enc pool) inputs = map Some vs \<and> used = sum_list (map (\<lambda>t. length (the (enc t))) inputs)"
proof -
  have "\<exists>ws. vs = us @ ws \<and> map (goal_encoder m enc pool) texts = map Some ws \<and>
      used = n + sum_list (map (\<lambda>t. length (the (enc t))) texts)"
    if "embed_inputs m enc (sl_backend slot) i us n texts = Some (Inr (vs, used))" for i us n texts
    using that
  proof (induction texts arbitrary: i us n)
    case (Cons t texts)
    obtain ids where ids: "enc t = Some ids" "ids \<noteq> []"
      using Cons.prems by (auto split: option.splits if_splits)
    obtain flat where flat: "candle_embed_tokens ids (sl_backend slot) = Inr flat" "length flat div length ids \<noteq> 0"
      using Cons.prems ids by (auto split: sum.splits if_splits)
    have "embed_inputs m enc (sl_backend slot) (Suc i) (us @ [mean_pool m (length ids) flat]) (n + length ids) texts = Some (Inr (vs, used))"
      using Cons.prems ids flat by simp
    from Cons.IH [OF this] obtain ws where "vs = us @ [mean_pool m (length ids) flat] @ ws"
      "map (goal_encoder m enc pool) texts = map Some ws"
      "used = n + length ids + sum_list (map (\<lambda>t. length (the (enc t))) texts)"
      by auto
    moreover have "goal_encoder m enc pool t = Some (mean_pool m (length ids) flat)"
      using ids flat first_embedding_free [OF assms(2,3), of ids] by (simp add: goal_encoder_def)
    ultimately show ?case
      using ids by (intro exI [of _ "mean_pool m (length ids) flat # ws"]) simp
  qed simp
  from this [of 0 "[]" 0 inputs] show ?thesis
    using assms(1) by (auto simp: embeddings_def split: if_splits)
qed

end
